(* ===== verification/Pin_Prelude.thy ===== *)
theory Pin_Prelude
  imports Main "HOL-Library.Word" "HOL-Library.Product_Lexorder" "HOL-Library.Sublist"
begin

text \<open>
  Prelude of the development: the names of the machine types the C++ code uses, results of
  fallible code, and the generic lemmas on words and lists that the component theories
  share. \<open>u64\<close> stands for \<open>size_t\<close>, \<open>uintptr_t\<close> and \<open>uint64_t\<close> of the
  64-bit targets the program supports; its \<open>+\<close>, \<open>-\<close> and \<open>*\<close> wrap as
  they do in C++. \<open>no_wrap\<close> collects the conditional equations that read an
  unsigned operation as the operation on natural numbers once the operands are in range.
\<close>

unbundle bit_operations_syntax

type_synonym u8 = "8 word"
type_synonym u16 = "16 word"
type_synonym u32 = "32 word"
type_synonym u64 = "64 word"

named_theorems no_wrap
named_theorems frame_simps

text \<open>Sums of an error and a value: the exception or the early error return of the code.\<close>

type_synonym 'a throws = "string + 'a"

definition ebind :: "'e + 'a \<Rightarrow> ('a \<Rightarrow> 'e + 'b) \<Rightarrow> 'e + 'b" where
  "ebind r f = (case r of Inl e \<Rightarrow> Inl e | Inr x \<Rightarrow> f x)"

lemma ebind_simps [simp]: "ebind (Inl e) f = Inl e" "ebind (Inr x) f = f x"
  by (simp_all add: ebind_def)

lemma ebind_Inr_iff: "ebind r f = Inr y \<longleftrightarrow> (\<exists>x. r = Inr x \<and> f x = Inr y)"
  by (cases r) simp_all

lemma ebind_Inl_iff: "ebind r f = Inl e \<longleftrightarrow> r = Inl e \<or> (\<exists>x. r = Inr x \<and> f x = Inl e)"
  by (cases r) auto

definition require :: "bool \<Rightarrow> 'e \<Rightarrow> 'e + unit" where
  "require b e = (if b then Inr () else Inl e)"

lemma require_Inr_iff [simp]: "require b e = Inr u \<longleftrightarrow> b"
  by (simp add: require_def)

lemma require_Inl_iff [simp]: "require b e = Inl e' \<longleftrightarrow> \<not> b \<and> e' = e"
  by (auto simp: require_def)

text \<open>A loop over a list whose body may throw.\<close>

fun emap :: "('a \<Rightarrow> 'e + 'b) \<Rightarrow> 'a list \<Rightarrow> 'e + 'b list" where
  "emap f [] = Inr []"
| "emap f (x # xs) = ebind (f x) (\<lambda>y. ebind (emap f xs) (\<lambda>ys. Inr (y # ys)))"

lemma emap_length: "emap f xs = Inr ys \<Longrightarrow> length ys = length xs"
  by (induction xs arbitrary: ys) (auto simp: ebind_Inr_iff)

section \<open>Unsigned words\<close>

lemma unat_add_no_wrap [no_wrap]:
  fixes a b :: "'w::len word"
  shows "unat a + unat b < 2 ^ LENGTH('w) \<Longrightarrow> unat (a + b) = unat a + unat b"
  by (simp add: unat_word_ariths)

lemma unat_sub_no_wrap [no_wrap]:
  fixes a b :: "'w::len word"
  shows "b \<le> a \<Longrightarrow> unat (a - b) = unat a - unat b"
  by (rule unat_sub)

lemma unat_mult_no_wrap [no_wrap]:
  fixes a b :: "'w::len word"
  shows "unat a * unat b < 2 ^ LENGTH('w) \<Longrightarrow> unat (a * b) = unat a * unat b"
  by (simp add: unat_word_ariths)

lemma unat_add_bounded [no_wrap]:
  fixes a b c :: "'w::len word"
  shows "unat a + unat b \<le> unat c \<Longrightarrow> unat (a + b) = unat a + unat b"
  by (rule unat_add_no_wrap) (rule le_less_trans [OF _ unsigned_less])

lemma unat_plus1_less [no_wrap]:
  fixes a b :: "'w::len word"
  assumes "a < b"
  shows "unat (a + 1) = Suc (unat a)"
  using unat_add_bounded [of a 1 b] assms by (simp add: word_less_nat_alt)

lemma unat_lt_u64 [simp]: "unat (x :: u64) < 18446744073709551616"
  using unsigned_less [of x] by simp

lemma unat_lt_u32 [simp]: "unat (x :: u32) < 4294967296"
  using unsigned_less [of x] by simp

lemma unat_of_nat_u64: "n < 2 ^ 64 \<Longrightarrow> unat (of_nat n :: u64) = n"
  by (simp add: unat_of_nat)

lemma unat_mult_u64: "unat a * unat b < 2 ^ 64 \<Longrightarrow> unat (a * b :: u64) = unat a * unat b"
  by (simp add: unat_word_ariths)

lemma unat_add_u64: "unat a + unat b < 2 ^ 64 \<Longrightarrow> unat (a + b :: u64) = unat a + unat b"
  by (simp add: unat_word_ariths)

lemma add_le_word_iff:
  fixes a b :: "'w::len word"
  assumes "a \<le> c"
  shows "b \<le> c - a \<longleftrightarrow> unat a + unat b \<le> unat c"
  using assms by (auto simp: word_le_nat_alt unat_sub_no_wrap)

lemma word_less_diff_iff:
  fixes a b :: "'w::len word"
  assumes "a \<le> c"
  shows "c - a < b \<longleftrightarrow> unat c < unat a + unat b"
  using assms by (auto simp: word_less_nat_alt word_le_nat_alt unat_sub_no_wrap)

lemma unat_min_word: "unat (min a b) = min (unat a) (unat b)"
  for a b :: "'w::len word"
  by (auto simp: min_def word_le_nat_alt)

lemma unat_max_word: "unat (max a b) = max (unat a) (unat b)"
  for a b :: "'w::len word"
  by (auto simp: max_def word_le_nat_alt)

section \<open>Lists\<close>

lemma sum_list_map_filter_split:
  fixes f :: "'a \<Rightarrow> nat"
  shows "sum_list (map f (filter P xs)) + sum_list (map f (filter (\<lambda>x. \<not> P x) xs))
    = sum_list (map f xs)"
  by (induction xs) auto

lemma upt_join: "i \<le> j \<Longrightarrow> j \<le> k \<Longrightarrow> [i..<j] @ [j..<k] = [i..<k]"
  by (metis le_add_diff_inverse upt_add_eq_append)

lemma sum_list_filter_le:
  fixes f :: "'a \<Rightarrow> nat"
  shows "sum_list (map f (filter P xs)) \<le> sum_list (map f xs)"
  using sum_list_map_filter_split [of f P xs] by linarith

lemma sum_list_prefix_le:
  fixes f :: "'a \<Rightarrow> nat"
  assumes "prefix xs ys"
  shows "sum_list (map f xs) \<le> sum_list (map f ys)"
  using assms by (auto simp: prefix_def)

lemma map_of_filter_neq:
  "map_of (filter (\<lambda>(k', _). k' \<noteq> k) xs) = (map_of xs)(k := None)"
  by (rule ext) (induction xs, auto)

end
