(* ===== verification/Decimal_Text.thy ===== *)
theory Decimal_Text
  imports Pin_Prelude
begin

text \<open>
  Decimal text as the C++ library reads and prints it: \<open>std::to_string\<close>, the \<open>%llu\<close>,
  \<open>%zu\<close>, \<open>%d\<close> and \<open>%lld\<close> conversions, and \<open>std::from_chars\<close> for an unsigned
  32-bit target. Strings are lists of bytes.
\<close>

definition digit_char :: "nat \<Rightarrow> char" where
  "digit_char d = char_of (48 + d)"

definition is_digit :: "char \<Rightarrow> bool" where
  "is_digit c \<longleftrightarrow> 48 \<le> (of_char c :: nat) \<and> (of_char c :: nat) \<le> 57"

definition digit_val :: "char \<Rightarrow> nat" where
  "digit_val c = of_char c - 48"

fun dec_nat :: "nat \<Rightarrow> string" where
  "dec_nat n = (if n < 10 then [digit_char n] else dec_nat (n div 10) @ [digit_char (n mod 10)])"

declare dec_nat.simps [simp del]

definition dec_int :: "int \<Rightarrow> string" where
  "dec_int i = (if i < 0 then CHR ''-'' # dec_nat (nat (- i)) else dec_nat (nat i))"

definition dec_word :: "'w::len word \<Rightarrow> string" where
  "dec_word w = dec_nat (unat w)"

definition dec_bool :: "bool \<Rightarrow> string" where
  "dec_bool b = (if b then ''1'' else ''0'')"

definition read_digits :: "string \<Rightarrow> nat" where
  "read_digits s = foldl (\<lambda>a c. 10 * a + digit_val c) 0 s"

text \<open>
  \<open>std::from_chars\<close> consumes the longest run of digits: the error code and how much of the
  text is left, with the value when it fits.
\<close>

datatype errc = Ok_Errc | Invalid_Argument | Result_Out_Of_Range

definition from_chars_u32 :: "string \<Rightarrow> errc \<times> u32 \<times> string" where
  "from_chars_u32 s =
     (let ds = takeWhile is_digit s; rest = dropWhile is_digit s in
      if ds = [] then (Invalid_Argument, 0, s)
      else if read_digits ds \<ge> 2 ^ 32 then (Result_Out_Of_Range, 0, rest)
      else (Ok_Errc, of_nat (read_digits ds), rest))"

section \<open>Lemmas\<close>

lemma of_char_digit [simp]: "d < 10 \<Longrightarrow> (of_char (digit_char d) :: nat) = 48 + d"
  by (simp add: digit_char_def)

lemma is_digit_digit_char [simp]: "d < 10 \<Longrightarrow> is_digit (digit_char d)"
  by (simp add: is_digit_def)

lemma digit_val_digit_char [simp]: "d < 10 \<Longrightarrow> digit_val (digit_char d) = d"
  by (simp add: digit_val_def)

lemma read_digits_snoc [simp]: "read_digits (s @ [c]) = 10 * read_digits s + digit_val c"
  by (simp add: read_digits_def)

lemma read_digits_Nil [simp]: "read_digits [] = 0"
  by (simp add: read_digits_def)

lemma read_dec_nat [simp]: "read_digits (dec_nat n) = n"
proof (induction n rule: dec_nat.induct)
  case (1 n)
  then show ?case
    by (cases "n < 10") (simp_all add: dec_nat.simps [of n] read_digits_def)
qed

lemma dec_nat_digits: "c \<in> set (dec_nat n) \<Longrightarrow> is_digit c"
proof (induction n rule: dec_nat.induct)
  case (1 n)
  then show ?case
    by (cases "n < 10") (auto simp: dec_nat.simps [of n])
qed

lemma dec_nat_nonempty [simp]: "dec_nat n \<noteq> []"
  by (subst dec_nat.simps) simp

lemma dec_nat_inj: "dec_nat m = dec_nat n \<longleftrightarrow> m = n"
  by (metis read_dec_nat)

lemma is_digit_iff: "is_digit c \<longleftrightarrow> (of_char c :: nat) \<in> {48..57}"
  by (auto simp: is_digit_def)

lemma not_digits [simp]: "\<not> is_digit (CHR '','')" "\<not> is_digit (CHR ''-'')" "\<not> is_digit (CHR ''+'')"
  "\<not> is_digit (CHR 0x0A)" "\<not> is_digit (CHR 0x22)"
  by (simp_all add: is_digit_def)

lemma dec_nat_hd_digit: "is_digit (hd (dec_nat n))"
  by (rule dec_nat_digits [of _ n]) simp

lemma takeWhile_dec_nat [simp]: "takeWhile is_digit (dec_nat n) = dec_nat n"
  and dropWhile_dec_nat [simp]: "dropWhile is_digit (dec_nat n) = []"
  by (auto simp: takeWhile_eq_all_conv dropWhile_eq_Nil_conv dec_nat_digits)

lemma from_chars_dec_nat: "n < 2 ^ 32 \<Longrightarrow> from_chars_u32 (dec_nat n) = (Ok_Errc, of_nat n, [])"
  by (simp add: from_chars_u32_def)

lemma takeWhile_all: "list_all P xs \<Longrightarrow> takeWhile P xs = xs"
  and dropWhile_all: "list_all P xs \<Longrightarrow> dropWhile P xs = []"
  by (induction xs) auto

lemma from_chars_Ok_iff:
  "from_chars_u32 s = (Ok_Errc, v, []) \<longleftrightarrow>
     s \<noteq> [] \<and> list_all is_digit s \<and> read_digits s < 2 ^ 32 \<and> v = of_nat (read_digits s)"
proof (cases "list_all is_digit s")
  case True
  then show ?thesis by (auto simp: from_chars_u32_def Let_def takeWhile_all dropWhile_all)
next
  case False
  then have "dropWhile is_digit s \<noteq> []" by (auto simp: list_all_iff dropWhile_eq_Nil_conv)
  with False show ?thesis by (auto simp: from_chars_u32_def Let_def)
qed

lemma dec_int_chars: "c \<in> set (dec_int i) \<Longrightarrow> is_digit c \<or> c = CHR ''-''"
  by (auto simp: dec_int_def dec_nat_digits split: if_splits)

lemma dec_word_digits: "c \<in> set (dec_word w) \<Longrightarrow> is_digit c"
  by (simp add: dec_word_def dec_nat_digits)

lemma dec_bool_digits: "c \<in> set (dec_bool b) \<Longrightarrow> is_digit c"
  by (cases b) (simp_all add: dec_bool_def is_digit_def)

text \<open>The number of characters of a decimal, for the byte bounds of the fixed-size rows.\<close>

lemma length_dec_nat: "n < 10 ^ k \<Longrightarrow> 0 < k \<Longrightarrow> length (dec_nat n) \<le> k"
proof (induction n arbitrary: k rule: dec_nat.induct)
  case (1 n)
  show ?case
  proof (cases "n < 10")
    case True
    with "1.prems" show ?thesis by (simp add: dec_nat.simps [of n])
  next
    case False
    with "1.prems"(1) have "k \<noteq> 1" by auto
    with "1.prems"(2) obtain j where j: "k = Suc j" "0 < j" by (cases k) auto
    with "1.prems"(1) have "n div 10 < 10 ^ j" by (simp add: less_mult_imp_div_less)
    with "1.IH" False j show ?thesis by (simp add: dec_nat.simps [of n])
  qed
qed

lemma length_dec_u64: "length (dec_word (w :: u64)) \<le> 20"
  unfolding dec_word_def by (rule length_dec_nat) (rule less_trans [OF unat_lt_u64], simp_all)

lemma length_dec_int:
  assumes "- (10 ^ k) < i" and "i < 10 ^ k" and "0 < k"
  shows "length (dec_int i) \<le> Suc k"
proof -
  have "nat \<bar>i\<bar> < 10 ^ k" using assms(1,2) by (simp add: nat_less_iff)
  then have "length (dec_nat (nat \<bar>i\<bar>)) \<le> k" using assms(3) by (rule length_dec_nat)
  then show ?thesis by (auto simp: dec_int_def)
qed

end
