(* ===== verification/Moe_Cache_Lru.thy ===== *)
theory Moe_Cache_Lru
  imports Pin_Prelude
begin

text \<open>
  The byte-bounded LRU policy for mmap-backed expert slices
  (\<open>ggml/src/ggml-moe-cache-lru.h\<close>, \<open>ggml/src/ggml-moe-cache-lru.cpp\<close>).

  The class keeps a doubly linked list of entries and a hash index from keys to list
  iterators. The model keeps the iterators: a node of the list is a number, the list holds
  (node, entry) pairs, front first, and the index maps a key to a node. Following an
  iterator is a lookup of its node, and a dangling one makes the whole operation \<open>None\<close>
  (undefined behaviour in C++). The invariant \<open>lru_ok\<close> rules that out; the policy is
  shown to refine \<open>spec_access\<close>, which has neither nodes nor an index.
\<close>

section \<open>State\<close>

record ggml_moe_cache_key =
  ck_tensor_data :: u64
  ck_expert_stride :: u64
  ck_expert :: u32

definition cache_key_eq :: "ggml_moe_cache_key \<Rightarrow> ggml_moe_cache_key \<Rightarrow> bool" where
  "cache_key_eq a b \<longleftrightarrow> ck_tensor_data a = ck_tensor_data b
     \<and> ck_expert_stride a = ck_expert_stride b \<and> ck_expert a = ck_expert b"

record ggml_moe_cache_access =
  ca_hit :: bool
  ca_cached :: bool
  ca_bypassed :: bool
  ca_evicted_entries :: u64
  ca_evicted_bytes :: u64

definition cache_access_init :: ggml_moe_cache_access where
  "cache_access_init = \<lparr>ca_hit = False, ca_cached = False, ca_bypassed = False,
     ca_evicted_entries = 0, ca_evicted_bytes = 0\<rparr>"

record ggml_moe_cache_stats =
  cs_capacity_bytes :: u64
  cs_resident_bytes :: u64
  cs_requests :: u64
  cs_hits :: u64
  cs_misses :: u64
  cs_evictions :: u64
  cs_evicted_bytes :: u64
  cs_bypasses :: u64

definition cache_stats_init :: ggml_moe_cache_stats where
  "cache_stats_init = \<lparr>cs_capacity_bytes = 0, cs_resident_bytes = 0, cs_requests = 0,
     cs_hits = 0, cs_misses = 0, cs_evictions = 0, cs_evicted_bytes = 0, cs_bypasses = 0\<rparr>"

record lru_entry =
  le_key :: ggml_moe_cache_key
  le_bytes :: u64

type_synonym node = nat

text \<open>\<open>lru_next\<close> is the node the next \<open>push_front\<close> allocates.\<close>

record ggml_moe_cache_lru =
  lru_entries :: "(node \<times> lru_entry) list"
  lru_index :: "ggml_moe_cache_key \<rightharpoonup> node"
  lru_stats :: ggml_moe_cache_stats
  lru_next :: node

text \<open>\<open>std::hash\<close> of the integer types is the library's: two parameters.\<close>

definition hash_combine :: "u64 \<Rightarrow> u64 \<Rightarrow> u64" where
  "hash_combine lhs rhs = lhs XOR (rhs + 0x9e3779b9 + push_bit 6 lhs + drop_bit 2 lhs)"

definition key_hash :: "(u64 \<Rightarrow> u64) \<Rightarrow> (u32 \<Rightarrow> u64) \<Rightarrow> ggml_moe_cache_key \<Rightarrow> u64" where
  "key_hash hash64 hash32 key =
     (let data_hash = hash64 (ck_tensor_data key);
          layout_hash = hash64 (ck_expert_stride key)
      in hash_combine (hash_combine data_hash layout_hash) (hash32 (ck_expert key)))"

section \<open>Operations\<close>

definition lru_reset :: "ggml_moe_cache_lru \<Rightarrow> u64 \<Rightarrow> ggml_moe_cache_lru" where
  "lru_reset c cap = c\<lparr>lru_entries := [], lru_index := Map.empty,
     lru_stats := cache_stats_init\<lparr>cs_capacity_bytes := cap\<rparr>\<rparr>"

definition lru_new :: "u64 \<Rightarrow> ggml_moe_cache_lru" where
  "lru_new cap = lru_reset \<lparr>lru_entries = [], lru_index = Map.empty,
     lru_stats = cache_stats_init, lru_next = 0\<rparr> cap"

definition lru_contains :: "ggml_moe_cache_lru \<Rightarrow> ggml_moe_cache_key \<Rightarrow> bool" where
  "lru_contains c key \<longleftrightarrow> lru_index c key \<noteq> None"

text \<open>\<open>std::list\<close>: erasing a node and splicing one to the front.\<close>

definition erase_node :: "node \<Rightarrow> (node \<times> lru_entry) list \<Rightarrow> (node \<times> lru_entry) list" where
  "erase_node n es = filter (\<lambda>(m, _). m \<noteq> n) es"

definition lru_hit ::
    "ggml_moe_cache_lru \<Rightarrow> node \<Rightarrow> lru_entry \<Rightarrow> ggml_moe_cache_access \<times> ggml_moe_cache_lru" where
  "lru_hit c n e =
     (cache_access_init\<lparr>ca_hit := True, ca_cached := True\<rparr>,
      c\<lparr>lru_entries := (n, e) # erase_node n (lru_entries c),
        lru_stats := (lru_stats c)\<lparr>cs_hits := cs_hits (lru_stats c) + 1\<rparr>\<rparr>)"

text \<open>A key that is present with another size is dropped before the insertion.\<close>

definition lru_drop :: "ggml_moe_cache_lru \<Rightarrow> ggml_moe_cache_key \<Rightarrow> node \<Rightarrow> lru_entry \<Rightarrow> ggml_moe_cache_lru" where
  "lru_drop c key n e =
     c\<lparr>lru_entries := erase_node n (lru_entries c),
       lru_index := (lru_index c)(key := None),
       lru_stats := (lru_stats c)\<lparr>cs_resident_bytes := cs_resident_bytes (lru_stats c) - le_bytes e\<rparr>\<rparr>"

function lru_evict ::
    "u64 \<Rightarrow> ggml_moe_cache_lru \<Rightarrow> ggml_moe_cache_access \<Rightarrow> ggml_moe_cache_lru \<times> ggml_moe_cache_access" where
  "lru_evict bytes c r =
     (if lru_entries c \<noteq> [] \<and> bytes > cs_capacity_bytes (lru_stats c) - cs_resident_bytes (lru_stats c)
      then let victim = snd (last (lru_entries c)) in
        lru_evict bytes
          (c\<lparr>lru_stats := (lru_stats c)\<lparr>cs_resident_bytes := cs_resident_bytes (lru_stats c) - le_bytes victim\<rparr>,
             lru_index := (lru_index c)(le_key victim := None),
             lru_entries := butlast (lru_entries c)\<rparr>)
          (r\<lparr>ca_evicted_bytes := ca_evicted_bytes r + le_bytes victim,
             ca_evicted_entries := ca_evicted_entries r + 1\<rparr>)
      else (c, r))"
  by pat_completeness auto
termination
  by (relation "measure (\<lambda>(b, c, r). length (lru_entries c))") auto

declare lru_evict.simps [simp del]

definition lru_insert ::
    "ggml_moe_cache_lru \<Rightarrow> ggml_moe_cache_key \<Rightarrow> u64 \<Rightarrow> ggml_moe_cache_access \<times> ggml_moe_cache_lru" where
  "lru_insert c key bytes =
     (let st = lru_stats c in
      if bytes = 0 \<or> cs_capacity_bytes st = 0 \<or> bytes > cs_capacity_bytes st
      then (cache_access_init\<lparr>ca_bypassed := True\<rparr>, c\<lparr>lru_stats := st\<lparr>cs_bypasses := cs_bypasses st + 1\<rparr>\<rparr>)
      else
        let (c1, r) = lru_evict bytes c cache_access_init; st1 = lru_stats c1; n = lru_next c1 in
        (r\<lparr>ca_cached := True\<rparr>,
         c1\<lparr>lru_entries := (n, \<lparr>le_key = key, le_bytes = bytes\<rparr>) # lru_entries c1,
            lru_index := (lru_index c1)(key \<mapsto> n),
            lru_stats := st1\<lparr>cs_resident_bytes := cs_resident_bytes st1 + bytes,
                             cs_evictions := cs_evictions st1 + ca_evicted_entries r,
                             cs_evicted_bytes := cs_evicted_bytes st1 + ca_evicted_bytes r\<rparr>,
            lru_next := Suc n\<rparr>))"

definition lru_access ::
    "ggml_moe_cache_lru \<Rightarrow> ggml_moe_cache_key \<Rightarrow> u64 \<Rightarrow> (ggml_moe_cache_access \<times> ggml_moe_cache_lru) option" where
  "lru_access c0 key bytes =
     (let c = c0\<lparr>lru_stats := (lru_stats c0)\<lparr>cs_requests := cs_requests (lru_stats c0) + 1\<rparr>\<rparr>;
          missed = (\<lambda>d. d\<lparr>lru_stats := (lru_stats d)\<lparr>cs_misses := cs_misses (lru_stats d) + 1\<rparr>\<rparr>)
      in case lru_index c key of
           None \<Rightarrow> Some (lru_insert (missed c) key bytes)
         | Some n \<Rightarrow>
             (case map_of (lru_entries c) n of
                None \<Rightarrow> None
              | Some e \<Rightarrow>
                  if le_bytes e = bytes then Some (lru_hit c n e)
                  else Some (lru_insert (lru_drop (missed c) key n e) key bytes)))"

section \<open>The policy without nodes and index\<close>

text \<open>
  \<open>fit room xs\<close> is the longest prefix of the recency list whose sizes sum to at most
  \<open>room\<close>. An access moves a resident slice to the front; otherwise the slice is put in
  front of the longest prefix of the others that leaves room for it.
\<close>

fun fit :: "nat \<Rightarrow> ('k \<times> nat) list \<Rightarrow> ('k \<times> nat) list" where
  "fit room [] = []"
| "fit room ((k, b) # xs) = (if b \<le> room then (k, b) # fit (room - b) xs else [])"

definition spec_access :: "nat \<Rightarrow> 'k \<Rightarrow> nat \<Rightarrow> ('k \<times> nat) list \<Rightarrow> bool \<times> ('k \<times> nat) list" where
  "spec_access cap k b xs =
     (let ys = filter (\<lambda>(k', _). k' \<noteq> k) xs in
      if (k, b) \<in> set xs then (True, (k, b) # ys)
      else if b = 0 \<or> cap = 0 \<or> cap < b then (False, ys)
      else (False, (k, b) # fit (cap - b) ys))"

definition lru_contents :: "ggml_moe_cache_lru \<Rightarrow> (ggml_moe_cache_key \<times> nat) list" where
  "lru_contents c = map (\<lambda>(n, e). (le_key e, unat (le_bytes e))) (lru_entries c)"

definition lru_capacity :: "ggml_moe_cache_lru \<Rightarrow> nat" where
  "lru_capacity c = unat (cs_capacity_bytes (lru_stats c))"

definition contents_bytes :: "('k \<times> nat) list \<Rightarrow> nat" where
  "contents_bytes xs = sum_list (map snd xs)"

definition lru_ok :: "ggml_moe_cache_lru \<Rightarrow> bool" where
  "lru_ok c \<longleftrightarrow>
     distinct (map fst (lru_entries c)) \<and>
     (\<forall>n \<in> set (map fst (lru_entries c)). n < lru_next c) \<and>
     distinct (map fst (lru_contents c)) \<and>
     lru_index c = map_of (map (\<lambda>(n, e). (le_key e, n)) (lru_entries c)) \<and>
     unat (cs_resident_bytes (lru_stats c)) = contents_bytes (lru_contents c) \<and>
     cs_resident_bytes (lru_stats c) \<le> cs_capacity_bytes (lru_stats c)"


section \<open>Lemmas on the longest fitting prefix\<close>

lemma contents_bytes_simps [simp]:
  "contents_bytes [] = 0" "contents_bytes (x # xs) = snd x + contents_bytes xs"
  "contents_bytes (xs @ ys) = contents_bytes xs + contents_bytes ys"
  by (simp_all add: contents_bytes_def)

lemma fit_prefix: "prefix (fit room xs) xs"
  by (induction room xs rule: fit.induct) auto

lemma fit_bytes: "contents_bytes (fit room xs) \<le> room"
  by (induction room xs rule: fit.induct) auto

lemma fit_all: "contents_bytes xs \<le> room \<Longrightarrow> fit room xs = xs"
  by (induction room xs rule: fit.induct) auto

lemma fit_snoc: "room < contents_bytes (xs @ [y]) \<Longrightarrow> fit room (xs @ [y]) = fit room xs"
proof (induction room xs rule: fit.induct)
  case (1 room)
  then show ?case by (cases y) auto
qed auto

lemma fit_longest: "prefix ys xs \<Longrightarrow> contents_bytes ys \<le> room \<Longrightarrow> prefix ys (fit room xs)"
proof (induction room xs arbitrary: ys rule: fit.induct)
  case (2 room k b xs)
  show ?case
  proof (cases ys)
    case (Cons y ys')
    with "2.prems" have "y = (k, b)" "prefix ys' xs" "contents_bytes ys' \<le> room - b" "b \<le> room"
      by auto
    with "2.IH" Cons show ?thesis by simp
  qed simp
qed simp

lemma fit_uniform:
  assumes "0 < b"
  shows "fit room (map (\<lambda>k. (k, b)) ks) = map (\<lambda>k. (k, b)) (take (room div b) ks)"
proof (induction ks arbitrary: room)
  case (Cons k ks)
  show ?case
  proof (cases "b \<le> room")
    case True
    then have "room div b = Suc ((room - b) div b)"
      using assms by (simp add: le_div_geq)
    with True show ?thesis by (simp add: Cons)
  next
    case False
    then show ?thesis by simp
  qed
qed simp

section \<open>The invariant and the refinement\<close>

lemma lru_reset_ok: "lru_ok (lru_reset c cap)"
  by (simp add: lru_reset_def lru_ok_def lru_contents_def cache_stats_init_def)

lemma lru_reset_contents [simp]:
  "lru_contents (lru_reset c cap) = []" "lru_capacity (lru_reset c cap) = unat cap"
  by (simp_all add: lru_reset_def lru_contents_def lru_capacity_def)

lemma lru_okD:
  assumes "lru_ok c"
  shows "distinct (map fst (lru_entries c))"
    and "distinct (map fst (lru_contents c))"
    and "lru_index c = map_of (map (\<lambda>(n, e). (le_key e, n)) (lru_entries c))"
    and "unat (cs_resident_bytes (lru_stats c)) = contents_bytes (lru_contents c)"
    and "cs_resident_bytes (lru_stats c) \<le> cs_capacity_bytes (lru_stats c)"
    and "\<forall>x \<in> set (lru_entries c). fst x < lru_next c"
  using assms by (auto simp: lru_ok_def)

lemma contents_keys: "map fst (lru_contents c) = map (\<lambda>(n, e). le_key e) (lru_entries c)"
  by (simp add: lru_contents_def case_prod_unfold)

text \<open>Following the iterator the index holds gives the entry of that key.\<close>

lemma lru_index_entry:
  assumes "lru_ok c" and "lru_index c key = Some n"
  obtains e where "map_of (lru_entries c) n = Some e" and "(n, e) \<in> set (lru_entries c)"
    and "le_key e = key"
proof -
  from assms(2) lru_okD(3)[OF assms(1)] obtain e where "(n, e) \<in> set (lru_entries c)" "le_key e = key"
    by (auto dest!: map_of_SomeD)
  with lru_okD(1)[OF assms(1)] show ?thesis by (auto intro: that)
qed

lemma erase_node_by_key:
  assumes "distinct (map fst es)" and "distinct (map (\<lambda>(n, e). le_key e) es)" and "(n, e) \<in> set es"
  shows "erase_node n es = filter (\<lambda>(m, e'). le_key e' \<noteq> le_key e) es"
  using assms unfolding erase_node_def
proof (induction es)
  case (Cons x es)
  obtain m e' where x: "x = (m, e')" by (cases x)
  show ?case
  proof (cases "(n, e) = x")
    case True
    from Cons.prems x True have "filter (\<lambda>(m, _). m \<noteq> n) es = es"
      and "filter (\<lambda>(m, e'). le_key e' \<noteq> le_key e) es = es"
      by (auto simp: filter_id_conv rev_image_eqI)
    with True x show ?thesis by simp
  next
    case False
    with Cons.prems x have "(n, e) \<in> set es" "m \<noteq> n" "le_key e' \<noteq> le_key e"
      by (auto simp: rev_image_eqI)
    with Cons x show ?thesis by simp
  qed
qed simp

lemma contents_filter:
  "map (\<lambda>(n, e). (le_key e, unat (le_bytes e))) (filter (\<lambda>(m, e'). le_key e' \<noteq> key) es)
    = filter (\<lambda>(k, _). k \<noteq> key) (map (\<lambda>(n, e). (le_key e, unat (le_bytes e))) es)"
  by (induction es) auto

lemma index_filter:
  "map_of (map (\<lambda>(n, e). (le_key e, n)) (filter (\<lambda>(m, e'). le_key e' \<noteq> key) es))
    = (map_of (map (\<lambda>(n, e). (le_key e, n)) es))(key := None)"
  by (rule ext) (induction es, auto)

lemma contents_remove_bytes:
  assumes "distinct (map fst xs)" and "(k, b) \<in> set xs"
  shows "contents_bytes xs = b + contents_bytes (filter (\<lambda>(k', _). k' \<noteq> k) xs)"
  using assms
proof (induction xs)
  case (Cons x xs)
  show ?case
  proof (cases "x = (k, b)")
    case True
    with Cons.prems have "filter (\<lambda>(k', _). k' \<noteq> k) xs = xs"
      by (auto simp: filter_id_conv rev_image_eqI)
    with True show ?thesis by simp
  next
    case False
    with Cons.prems have "fst x \<noteq> k" "(k, b) \<in> set xs" by (auto simp: rev_image_eqI)
    with Cons show ?thesis by (cases x) auto
  qed
qed simp

lemma distinct_filter_keys:
  "distinct (map fst xs) \<Longrightarrow> distinct (map fst (filter P xs))"
  by (induction xs) auto

lemma lru_hit_ok:
  assumes ok: "lru_ok c" and n: "(n, e) \<in> set (lru_entries c)"
    and hit: "lru_hit c n e = (r, c')"
  shows "lru_ok c'"
    and "lru_contents c' = (le_key e, unat (le_bytes e)) # filter (\<lambda>(k, _). k \<noteq> le_key e) (lru_contents c)"
    and "lru_capacity c' = lru_capacity c"
proof -
  note d = lru_okD[OF ok]
  have er: "erase_node n (lru_entries c) = filter (\<lambda>(m, e'). le_key e' \<noteq> le_key e) (lru_entries c)"
    using d(1,2) n by (intro erase_node_by_key) (simp_all add: contents_keys)
  show con: "lru_contents c' = (le_key e, unat (le_bytes e)) # filter (\<lambda>(k, _). k \<noteq> le_key e) (lru_contents c)"
    using hit by (auto simp: lru_hit_def lru_contents_def er contents_filter)
  have mem: "(le_key e, unat (le_bytes e)) \<in> set (lru_contents c)"
    using n by (force simp: lru_contents_def)
  have idx: "(map_of (map (\<lambda>(n, e). (le_key e, n)) (lru_entries c))) (le_key e) = Some n"
    using d(2) n by (intro map_of_is_SomeI) (auto simp: contents_keys case_prod_unfold comp_def rev_image_eqI)
  show "lru_ok c'"
    unfolding lru_ok_def con
  proof (intro conjI ballI)
    show "distinct (map fst (lru_entries c'))"
      using hit d(1) by (auto simp: lru_hit_def erase_node_def distinct_filter_keys)
    show "n' < lru_next c'" if "n' \<in> set (map fst (lru_entries c'))" for n'
      using that hit d(6) n by (force simp: lru_hit_def erase_node_def)
    show "distinct (map fst ((le_key e, unat (le_bytes e)) # filter (\<lambda>(k, _). k \<noteq> le_key e) (lru_contents c)))"
      using d(2) by (auto simp: distinct_filter_keys)
    show "lru_index c' = map_of (map (\<lambda>(n, e). (le_key e, n)) (lru_entries c'))"
      using hit d(3) idx by (auto simp: lru_hit_def er index_filter fun_eq_iff)
    show "unat (cs_resident_bytes (lru_stats c'))
      = contents_bytes ((le_key e, unat (le_bytes e)) # filter (\<lambda>(k, _). k \<noteq> le_key e) (lru_contents c))"
      using hit d(4) contents_remove_bytes[OF d(2) mem] by (auto simp: lru_hit_def)
    show "cs_resident_bytes (lru_stats c') \<le> cs_capacity_bytes (lru_stats c')"
      using hit d(5) by (auto simp: lru_hit_def)
  qed
  show "lru_capacity c' = lru_capacity c"
    using hit by (auto simp: lru_hit_def lru_capacity_def)
qed

lemma lru_drop_ok:
  assumes ok: "lru_ok c" and n: "(n, e) \<in> set (lru_entries c)" and key: "le_key e = key"
  shows "lru_ok (lru_drop c key n e)"
    and "lru_contents (lru_drop c key n e) = filter (\<lambda>(k, _). k \<noteq> key) (lru_contents c)"
    and "lru_capacity (lru_drop c key n e) = lru_capacity c"
proof -
  note d = lru_okD[OF ok]
  have er: "erase_node n (lru_entries c) = filter (\<lambda>(m, e'). le_key e' \<noteq> key) (lru_entries c)"
    using d(1,2) n key erase_node_by_key[of "lru_entries c" n e] by (simp add: contents_keys)
  show con: "lru_contents (lru_drop c key n e) = filter (\<lambda>(k, _). k \<noteq> key) (lru_contents c)"
    by (simp add: lru_drop_def lru_contents_def er contents_filter)
  have mem: "(key, unat (le_bytes e)) \<in> set (lru_contents c)"
    using n key by (force simp: lru_contents_def)
  note rem = contents_remove_bytes[OF d(2) mem]
  have le: "le_bytes e \<le> cs_resident_bytes (lru_stats c)"
    using d(4) rem by (simp add: word_le_nat_alt)
  show "lru_ok (lru_drop c key n e)"
    unfolding lru_ok_def con
  proof (intro conjI ballI)
    show "distinct (map fst (lru_entries (lru_drop c key n e)))"
      using d(1) by (simp add: lru_drop_def erase_node_def distinct_filter_keys)
    show "n' < lru_next (lru_drop c key n e)"
      if "n' \<in> set (map fst (lru_entries (lru_drop c key n e)))" for n'
      using that d(6) by (auto simp: lru_drop_def erase_node_def)
    show "distinct (map fst (filter (\<lambda>(k, _). k \<noteq> key) (lru_contents c)))"
      using d(2) by (rule distinct_filter_keys)
    show "lru_index (lru_drop c key n e) = map_of (map (\<lambda>(n, e). (le_key e, n)) (lru_entries (lru_drop c key n e)))"
      by (simp add: lru_drop_def er index_filter d(3))
    show "unat (cs_resident_bytes (lru_stats (lru_drop c key n e)))
        = contents_bytes (filter (\<lambda>(k, _). k \<noteq> key) (lru_contents c))"
      using le d(4) rem by (simp add: lru_drop_def unat_sub_no_wrap)
    show "cs_resident_bytes (lru_stats (lru_drop c key n e)) \<le> cs_capacity_bytes (lru_stats (lru_drop c key n e))"
      using le d(5) by (simp add: lru_drop_def word_le_nat_alt unat_sub_no_wrap)
  qed
  show "lru_capacity (lru_drop c key n e) = lru_capacity c"
    by (simp add: lru_drop_def lru_capacity_def)
qed


text \<open>The eviction loop removes entries from the back until the new slice fits.\<close>

lemma lru_evict_pop_ok:
  assumes ok: "lru_ok c" and es: "lru_entries c = es @ [(n, v)]"
    and c': "c' = c\<lparr>lru_stats := (lru_stats c)\<lparr>cs_resident_bytes := cs_resident_bytes (lru_stats c) - le_bytes v\<rparr>,
             lru_index := (lru_index c)(le_key v := None), lru_entries := es\<rparr>"
  shows "lru_ok c'" and "lru_contents c = lru_contents c' @ [(le_key v, unat (le_bytes v))]"
    and "le_bytes v \<le> cs_resident_bytes (lru_stats c)"
proof -
  note d = lru_okD[OF ok]
  show con: "lru_contents c = lru_contents c' @ [(le_key v, unat (le_bytes v))]"
    by (simp add: c' lru_contents_def es)
  show le: "le_bytes v \<le> cs_resident_bytes (lru_stats c)"
    using d(4) con by (simp add: word_le_nat_alt)
  have new: "le_key v \<notin> set (map (\<lambda>(n, e). le_key e) es)"
    using d(2) by (auto simp: contents_keys es)
  show "lru_ok c'"
    unfolding lru_ok_def
  proof (intro conjI ballI)
    show "distinct (map fst (lru_entries c'))" using d(1) by (simp add: c' es)
    show "n' < lru_next c'" if "n' \<in> set (map fst (lru_entries c'))" for n'
      using that d(6) by (force simp: c' es)
    show "distinct (map fst (lru_contents c'))" using d(2) con by simp
    have "map_of (map (\<lambda>(n, e). (le_key e, n)) es) (le_key v) = None"
      using new by (auto simp: map_of_eq_None_iff)
    then show "lru_index c' = map_of (map (\<lambda>(n, e). (le_key e, n)) (lru_entries c'))"
      by (simp add: c' es d(3) fun_eq_iff map_add_def split: option.splits)
    show "unat (cs_resident_bytes (lru_stats c')) = contents_bytes (lru_contents c')"
      using d(4) con le by (simp add: c' unat_sub_no_wrap)
    show "cs_resident_bytes (lru_stats c') \<le> cs_capacity_bytes (lru_stats c')"
      using d(5) le by (simp add: c' word_le_nat_alt unat_sub_no_wrap)
  qed
qed

lemma lru_evict_ok:
  assumes "lru_ok c" and "bytes \<le> cs_capacity_bytes (lru_stats c)"
    and "lru_evict bytes c r = (c', r')"
  shows "lru_ok c' \<and> lru_contents c' = fit (lru_capacity c - unat bytes) (lru_contents c)
    \<and> cs_resident_bytes (lru_stats c') \<le> cs_capacity_bytes (lru_stats c') - bytes
    \<and> lru_next c' = lru_next c
    \<and> lru_stats c' = (lru_stats c)\<lparr>cs_resident_bytes := cs_resident_bytes (lru_stats c')\<rparr>
    \<and> ca_evicted_bytes r' + cs_resident_bytes (lru_stats c') = ca_evicted_bytes r + cs_resident_bytes (lru_stats c)
    \<and> ca_evicted_entries r' + of_nat (length (lru_contents c')) = ca_evicted_entries r + of_nat (length (lru_contents c))
    \<and> ca_hit r' = ca_hit r \<and> ca_cached r' = ca_cached r \<and> ca_bypassed r' = ca_bypassed r"
  using assms
proof (induction bytes c r rule: lru_evict.induct)
  case (1 bytes c r)
  let ?cap = "cs_capacity_bytes (lru_stats c)" and ?res = "cs_resident_bytes (lru_stats c)"
  note d = lru_okD[OF "1.prems"(1)]
  have room: "?cap - ?res < bytes \<longleftrightarrow> unat ?cap < unat ?res + unat bytes"
    using d(5) by (rule word_less_diff_iff)
  show ?case
  proof (cases "lru_entries c \<noteq> [] \<and> bytes > ?cap - ?res")
    case True
    then obtain es n v where es: "lru_entries c = es @ [(n, v)]"
      by (metis append_butlast_last_id surj_pair)
    define c1 where "c1 = c\<lparr>lru_stats := (lru_stats c)\<lparr>cs_resident_bytes := ?res - le_bytes v\<rparr>,
             lru_index := (lru_index c)(le_key v := None), lru_entries := es\<rparr>"
    note pop = lru_evict_pop_ok[OF "1.prems"(1) es c1_def]
    define r1 where "r1 = r\<lparr>ca_evicted_bytes := ca_evicted_bytes r + le_bytes v,
             ca_evicted_entries := ca_evicted_entries r + 1\<rparr>"
    have step: "lru_evict bytes c1 r1 = (c', r')"
      using "1.prems"(3) True by (simp add: lru_evict.simps[of bytes c] es c1_def r1_def)
    have c1: "cs_capacity_bytes (lru_stats c1) = ?cap" "lru_capacity c1 = lru_capacity c"
      "lru_next c1 = lru_next c" "cs_resident_bytes (lru_stats c1) = ?res - le_bytes v"
      "lru_stats c1 = (lru_stats c)\<lparr>cs_resident_bytes := ?res - le_bytes v\<rparr>"
      by (simp_all add: c1_def lru_capacity_def)
    have r1: "ca_evicted_bytes r1 = ca_evicted_bytes r + le_bytes v"
      "ca_evicted_entries r1 = ca_evicted_entries r + 1" "ca_hit r1 = ca_hit r"
      "ca_cached r1 = ca_cached r" "ca_bypassed r1 = ca_bypassed r"
      by (simp_all add: r1_def)
    have fit: "fit (lru_capacity c - unat bytes) (lru_contents c) = fit (lru_capacity c - unat bytes) (lru_contents c1)"
      unfolding pop(2) using True room d(4) pop(2) "1.prems"(2)
      by (intro fit_snoc) (auto simp: lru_capacity_def word_le_nat_alt)
    have len: "of_nat (length (lru_contents c)) = (of_nat (length (lru_contents c1)) + 1 :: u64)"
      by (simp add: pop(2))
    have "snd (last (lru_entries c)) = v" "butlast (lru_entries c) = es" by (simp_all add: es)
    then have c1': "c1 = c\<lparr>lru_stats := (lru_stats c)\<lparr>cs_resident_bytes := ?res - le_bytes (snd (last (lru_entries c)))\<rparr>,
             lru_index := (lru_index c)(le_key (snd (last (lru_entries c))) := None),
             lru_entries := butlast (lru_entries c)\<rparr>"
      and r1': "r1 = r\<lparr>ca_evicted_bytes := ca_evicted_bytes r + le_bytes (snd (last (lru_entries c))),
             ca_evicted_entries := ca_evicted_entries r + 1\<rparr>"
      by (simp_all add: c1_def r1_def)
    note IH = "1.IH"[OF True refl, folded c1' r1', OF pop(1) _ step]
    show ?thesis
      using IH "1.prems"(2) by (clarsimp simp: c1 r1 fit len add_ac)
  next
    case False
    then have eq: "c' = c" "r' = r" using "1.prems"(3) by (auto simp: lru_evict.simps[of bytes c])
    have "contents_bytes (lru_contents c) \<le> lru_capacity c - unat bytes"
    proof (cases "lru_entries c = []")
      case True
      then show ?thesis by (simp add: lru_contents_def)
    next
      case nonempty: False
      with False room d(4) "1.prems"(2) show ?thesis by (simp add: lru_capacity_def word_le_nat_alt)
    qed
    with False eq "1.prems" d(4) show ?thesis
      by (auto simp: fit_all word_le_nat_alt unat_sub_no_wrap lru_capacity_def)
  qed
qed


definition bypasses :: "nat \<Rightarrow> nat \<Rightarrow> bool" where
  "bypasses cap b \<longleftrightarrow> b = 0 \<or> cap = 0 \<or> cap < b"

lemma lru_insert_ok:
  assumes ok: "lru_ok c" and new: "lru_index c key = None" and ins: "lru_insert c key bytes = (r, c')"
  shows "lru_ok c' \<and> lru_capacity c' = lru_capacity c
    \<and> lru_contents c' = (if bypasses (lru_capacity c) (unat bytes) then lru_contents c
         else (key, unat bytes) # fit (lru_capacity c - unat bytes) (lru_contents c))
    \<and> \<not> ca_hit r \<and> ca_bypassed r = bypasses (lru_capacity c) (unat bytes)
    \<and> ca_cached r = (\<not> bypasses (lru_capacity c) (unat bytes))
    \<and> cs_requests (lru_stats c') = cs_requests (lru_stats c) \<and> cs_hits (lru_stats c') = cs_hits (lru_stats c)
    \<and> cs_misses (lru_stats c') = cs_misses (lru_stats c)
    \<and> cs_evicted_bytes (lru_stats c') = cs_evicted_bytes (lru_stats c) + ca_evicted_bytes r
    \<and> cs_evictions (lru_stats c') = cs_evictions (lru_stats c) + ca_evicted_entries r
    \<and> cs_resident_bytes (lru_stats c') + ca_evicted_bytes r
        = cs_resident_bytes (lru_stats c) + (if ca_cached r then bytes else 0)"
proof (cases "bypasses (lru_capacity c) (unat bytes)")
  case True
  then have "bytes = 0 \<or> cs_capacity_bytes (lru_stats c) = 0 \<or> bytes > cs_capacity_bytes (lru_stats c)"
    by (auto simp: bypasses_def lru_capacity_def word_less_nat_alt unat_eq_zero)
  with ins have "r = cache_access_init\<lparr>ca_bypassed := True\<rparr>"
    and c': "c' = c\<lparr>lru_stats := (lru_stats c)\<lparr>cs_bypasses := cs_bypasses (lru_stats c) + 1\<rparr>\<rparr>"
    by (auto simp: lru_insert_def Let_def)
  moreover have "lru_ok c'" using ok by (simp add: c' lru_ok_def lru_contents_def)
  ultimately show ?thesis
    using True by (simp add: lru_contents_def lru_capacity_def cache_access_init_def)
next
  case False
  let ?cap = "cs_capacity_bytes (lru_stats c)"
  have in_range: "\<not> (bytes = 0 \<or> ?cap = 0 \<or> bytes > ?cap)" "bytes \<le> ?cap"
    using False by (auto simp: bypasses_def lru_capacity_def word_less_nat_alt unat_eq_zero not_less word_le_nat_alt)
  obtain c1 r1 where ev: "lru_evict bytes c cache_access_init = (c1, r1)" by (meson surj_pair)
  note e = lru_evict_ok[OF ok in_range(2) ev]
  then have ok1: "lru_ok c1" and con1: "lru_contents c1 = fit (lru_capacity c - unat bytes) (lru_contents c)"
    and room1: "cs_resident_bytes (lru_stats c1) \<le> cs_capacity_bytes (lru_stats c1) - bytes"
    and st1: "lru_stats c1 = (lru_stats c)\<lparr>cs_resident_bytes := cs_resident_bytes (lru_stats c1)\<rparr>"
    and eb: "ca_evicted_bytes r1 + cs_resident_bytes (lru_stats c1) = cs_resident_bytes (lru_stats c)"
    and fl: "\<not> ca_hit r1" "\<not> ca_bypassed r1"
    by (simp_all add: cache_access_init_def)
  have cap1: "cs_capacity_bytes (lru_stats c1) = ?cap" by (subst st1) simp
  have r: "r = r1\<lparr>ca_cached := True\<rparr>"
    and c': "c' = c1\<lparr>lru_entries := (lru_next c1, \<lparr>le_key = key, le_bytes = bytes\<rparr>) # lru_entries c1,
            lru_index := (lru_index c1)(key \<mapsto> lru_next c1),
            lru_stats := (lru_stats c1)\<lparr>cs_resident_bytes := cs_resident_bytes (lru_stats c1) + bytes,
                             cs_evictions := cs_evictions (lru_stats c1) + ca_evicted_entries r1,
                             cs_evicted_bytes := cs_evicted_bytes (lru_stats c1) + ca_evicted_bytes r1\<rparr>,
            lru_next := Suc (lru_next c1)\<rparr>"
    using ins in_range(1) by (auto simp: lru_insert_def Let_def ev)
  have con: "lru_contents c' = (key, unat bytes) # lru_contents c1" by (simp add: c' lru_contents_def)
  have "key \<notin> set (map fst (lru_contents c))"
    using new lru_okD(3)[OF ok] by (force simp: contents_keys map_of_eq_None_iff)
  moreover have "set (map fst (lru_contents c1)) \<subseteq> set (map fst (lru_contents c))"
    unfolding con1 using fit_prefix[of "lru_capacity c - unat bytes" "lru_contents c"]
    by (auto dest: set_mono_prefix)
  ultimately have new1: "key \<notin> set (map fst (lru_contents c1))" by blast
  have sum: "unat (cs_resident_bytes (lru_stats c1)) + unat bytes \<le> unat ?cap"
    using room1 cap1 in_range(2) by (simp add: word_le_nat_alt unat_sub_no_wrap)
  then have res: "unat (cs_resident_bytes (lru_stats c1) + bytes) = unat (cs_resident_bytes (lru_stats c1)) + unat bytes"
    by (rule unat_add_bounded)
  have "lru_ok c'"
    using ok1 new1 res sum con cap1
    by (auto simp: lru_ok_def c' word_le_nat_alt less_Suc_eq)
  then show ?thesis
    using False con con1 fl eb st1[THEN arg_cong[where f = cs_requests]] st1[THEN arg_cong[where f = cs_hits]]
      st1[THEN arg_cong[where f = cs_misses]] st1[THEN arg_cong[where f = cs_evicted_bytes]]
      st1[THEN arg_cong[where f = cs_evictions]]
    by (simp add: r c' cap1 lru_capacity_def add_ac)
qed


lemma lru_index_contents: "lru_ok c \<Longrightarrow> lru_index c key = None \<longleftrightarrow> key \<notin> fst ` set (lru_contents c)"
  by (force simp: lru_okD(3) lru_contents_def map_of_eq_None_iff)

text \<open>What one access does: the refinement and the counters together.\<close>

definition access_counts ::
    "ggml_moe_cache_lru \<Rightarrow> u64 \<Rightarrow> ggml_moe_cache_access \<Rightarrow> ggml_moe_cache_lru \<Rightarrow> bool" where
  "access_counts c bytes r c' \<longleftrightarrow>
     cs_requests (lru_stats c') = cs_requests (lru_stats c) + 1 \<and>
     cs_hits (lru_stats c') = cs_hits (lru_stats c) + of_bool (ca_hit r) \<and>
     cs_misses (lru_stats c') = cs_misses (lru_stats c) + of_bool (\<not> ca_hit r) \<and>
     cs_evicted_bytes (lru_stats c') = cs_evicted_bytes (lru_stats c) + ca_evicted_bytes r \<and>
     cs_evictions (lru_stats c') = cs_evictions (lru_stats c) + ca_evicted_entries r"

lemma lru_access_refines_aux:
  assumes ok: "lru_ok c"
  shows "\<exists>r c'. lru_access c key bytes = Some (r, c') \<and> lru_ok c' \<and> lru_capacity c' = lru_capacity c
    \<and> (ca_hit r, lru_contents c') = spec_access (lru_capacity c) key (unat bytes) (lru_contents c)
    \<and> ca_bypassed r = (\<not> ca_hit r \<and> bypasses (lru_capacity c) (unat bytes))
    \<and> ca_cached r = (\<not> ca_bypassed r) \<and> access_counts c bytes r c'"
proof -
  define m where "m d = d\<lparr>lru_stats := (lru_stats d)\<lparr>cs_misses := cs_misses (lru_stats d) + 1\<rparr>\<rparr>"
    for d :: ggml_moe_cache_lru
  define q where "q = c\<lparr>lru_stats := (lru_stats c)\<lparr>cs_requests := cs_requests (lru_stats c) + 1\<rparr>\<rparr>"
  have q: "lru_ok q" "lru_ok (m q)" "lru_contents q = lru_contents c" "lru_contents (m q) = lru_contents c"
    "lru_capacity q = lru_capacity c" "lru_capacity (m q) = lru_capacity c" "lru_index q = lru_index c"
    "lru_index (m q) = lru_index c" "lru_entries q = lru_entries c" "lru_entries (m q) = lru_entries c"
    using ok by (simp_all add: q_def m_def lru_ok_def lru_contents_def lru_capacity_def)
  have stq: "cs_requests (lru_stats (m q)) = cs_requests (lru_stats c) + 1"
    "cs_hits (lru_stats (m q)) = cs_hits (lru_stats c)" "cs_misses (lru_stats (m q)) = cs_misses (lru_stats c) + 1"
    "cs_evicted_bytes (lru_stats (m q)) = cs_evicted_bytes (lru_stats c)"
    "cs_evictions (lru_stats (m q)) = cs_evictions (lru_stats c)"
    by (simp_all add: q_def m_def)
  have acc: "lru_access c key bytes = (case lru_index q key of
           None \<Rightarrow> Some (lru_insert (m q) key bytes)
         | Some n \<Rightarrow> (case map_of (lru_entries q) n of None \<Rightarrow> None
              | Some e \<Rightarrow> if le_bytes e = bytes then Some (lru_hit q n e)
                  else Some (lru_insert (lru_drop (m q) key n e) key bytes)))"
    unfolding lru_access_def Let_def q_def[symmetric] m_def[symmetric] ..
  show ?thesis
  proof (cases "lru_index q key")
    case None
    then have new: "lru_index (m q) key = None" by (simp add: q)
    obtain r c' where ins: "lru_insert (m q) key bytes = (r, c')" by (meson surj_pair)
    have "key \<notin> fst ` set (lru_contents c)" using lru_index_contents[OF q(1)] None by (simp add: q)
    then have "(key, unat bytes) \<notin> set (lru_contents c)"
      and "filter (\<lambda>(k', _). k' \<noteq> key) (lru_contents c) = lru_contents c"
      by (force, auto simp: filter_id_conv rev_image_eqI)
    with lru_insert_ok[OF q(2) new ins] None ins stq show ?thesis
      by (simp add: acc q spec_access_def access_counts_def bypasses_def)
  next
    case (Some n)
    obtain e where e: "map_of (lru_entries q) n = Some e" "(n, e) \<in> set (lru_entries q)" "le_key e = key"
      using lru_index_entry[OF q(1) Some] .
    have mem: "(key, unat (le_bytes e)) \<in> set (lru_contents c)"
      using e(2,3) by (force simp: lru_contents_def q)
    have only: "(key, unat bytes) \<in> set (lru_contents c) \<longleftrightarrow> le_bytes e = bytes"
      using mem by (auto simp: word_unat_eq_iff dest: eq_key_imp_eq_value [OF lru_okD(2) [OF ok]])
    show ?thesis
    proof (cases "le_bytes e = bytes")
      case True
      obtain r c' where hit: "lru_hit q n e = (r, c')" by (meson surj_pair)
      have "ca_hit r" "ca_cached r" "\<not> ca_bypassed r" "access_counts c bytes r c'"
        using hit by (auto simp: lru_hit_def cache_access_init_def access_counts_def q_def)
      with lru_hit_ok[OF q(1) e(2) hit] True Some e(1,3) hit mem show ?thesis
        by (simp add: acc q spec_access_def)
    next
      case False
      note dr = lru_drop_ok[OF q(2) _ e(3), unfolded q, OF e(2)[unfolded q]]
      have new: "lru_index (lru_drop (m q) key n e) key = None" by (simp add: lru_drop_def)
      obtain r c' where ins: "lru_insert (lru_drop (m q) key n e) key bytes = (r, c')" by (meson surj_pair)
      have "access_counts c bytes r c'"
        using lru_insert_ok[OF dr(1) new ins] stq by (simp add: access_counts_def lru_drop_def)
      with lru_insert_ok[OF dr(1) new ins] False Some e(1) ins only dr(2,3) show ?thesis
        by (simp add: acc q spec_access_def bypasses_def)
    qed
  qed
qed


section \<open>The residency policy as an interface\<close>

text \<open>
  A caller feeds the policy one access after the other; an undefined access stops the run.
\<close>

fun run_accesses ::
    "('c \<Rightarrow> 'k \<Rightarrow> u64 \<Rightarrow> ('r \<times> 'c) option) \<Rightarrow> 'c \<Rightarrow> ('k \<times> u64) list \<Rightarrow> ('r list \<times> 'c) option" where
  "run_accesses acc c [] = Some ([], c)"
| "run_accesses acc c ((k, b) # reqs) =
     (case acc c k b of None \<Rightarrow> None
      | Some (r, c') \<Rightarrow> map_option (\<lambda>(rs, c''). (r # rs, c'')) (run_accesses acc c' reqs))"

fun spec_run :: "nat \<Rightarrow> ('k \<times> u64) list \<Rightarrow> ('k \<times> nat) list \<Rightarrow> bool list \<times> ('k \<times> nat) list" where
  "spec_run cap [] xs = ([], xs)"
| "spec_run cap ((k, b) # reqs) xs =
     (let (h, ys) = spec_access cap k (unat b) xs; (hs, zs) = spec_run cap reqs ys in (h # hs, zs))"

lemma spec_run_length: "length (fst (spec_run cap reqs xs)) = length reqs"
proof (induction reqs arbitrary: xs)
  case (Cons r reqs)
  then show ?case by (cases r) (auto simp: case_prod_unfold Let_def)
qed simp

text \<open>The keys of a trace, most recently used first.\<close>

fun recency :: "'k list \<Rightarrow> 'k list \<Rightarrow> 'k list" where
  "recency acc [] = acc"
| "recency acc (k # ks) = recency (k # removeAll k acc) ks"

lemma filter_uniform:
  "filter (\<lambda>(k', _). k' \<noteq> k) (map (\<lambda>k. (k, b)) xs) = map (\<lambda>k. (k, b)) (removeAll k xs)"
  by (induction xs) auto

lemma take_removeAll_in:
  assumes "distinct xs" and "k \<in> set (take n xs)"
  shows "removeAll k (take n xs) = take (n - 1) (removeAll k xs)"
  using assms
proof (induction xs arbitrary: n)
  case (Cons x xs)
  then obtain m where m: "n = Suc m" by (cases n) auto
  show ?case
  proof (cases "x = k")
    case True
    with Cons.prems(1) have "k \<notin> set xs" "k \<notin> set (take m xs)" by (auto dest: in_set_takeD)
    with True m show ?thesis by simp
  next
    case False
    with Cons.prems m have "k \<in> set (take m xs)" by auto
    moreover from this obtain m' where "m = Suc m'" by (cases m) auto
    ultimately show ?thesis using Cons m False by simp
  qed
qed simp

lemma take_removeAll_notin:
  assumes "k \<notin> set (take n xs)"
  shows "take (n - 1) (removeAll k xs) = take (n - 1) xs"
  using assms
proof (induction xs arbitrary: n)
  case (Cons x xs)
  show ?case
  proof (cases "n \<le> 1")
    case False
    then have "n = Suc (Suc (n - 2))" by simp
    then obtain m where "n = Suc (Suc m)" ..
    with Cons.IH [of "Suc m"] Cons.prems show ?thesis by simp
  qed simp
qed simp

text \<open>With slices of one size the contents are the first \<open>cap div b\<close> keys by recency.\<close>

lemma spec_access_uniform:
  assumes "0 < b" and "distinct xs"
  shows "spec_access cap k b (map (\<lambda>k. (k, b)) (take (cap div b) xs))
    = (k \<in> set (take (cap div b) xs), map (\<lambda>k. (k, b)) (take (cap div b) (k # removeAll k xs)))"
proof (cases "cap < b")
  case True
  then show ?thesis using assms(1) by (simp add: spec_access_def)
next
  case False
  then have n: "cap div b = Suc ((cap - b) div b)"
    using assms(1) by (simp add: le_div_geq)
  show ?thesis
  proof (cases "k \<in> set (take (cap div b) xs)")
    case True
    with take_removeAll_in [OF assms(2) True] n show ?thesis
      by (auto simp: spec_access_def filter_uniform)
  next
    case out: False
    then have "removeAll k (take (cap div b) xs) = take (cap div b) xs" by simp
    with out take_removeAll_notin [OF out] False assms(1) n show ?thesis
      by (simp add: spec_access_def Let_def image_iff filter_uniform fit_uniform)
  qed
qed

locale residency_policy =
  fixes access :: "'c \<Rightarrow> 'k \<Rightarrow> u64 \<Rightarrow> (ggml_moe_cache_access \<times> 'c) option"
    and contents :: "'c \<Rightarrow> ('k \<times> nat) list"
    and capacity :: "'c \<Rightarrow> nat"
    and ok :: "'c \<Rightarrow> bool"
  assumes defined: "ok c \<Longrightarrow> \<exists>r c'. access c k b = Some (r, c')"
    and keeps_ok: "ok c \<Longrightarrow> access c k b = Some (r, c') \<Longrightarrow> ok c'"
    and keeps_capacity: "ok c \<Longrightarrow> access c k b = Some (r, c') \<Longrightarrow> capacity c' = capacity c"
    and refines: "ok c \<Longrightarrow> access c k b = Some (r, c') \<Longrightarrow>
        (ca_hit r, contents c') = spec_access (capacity c) k (unat b) (contents c)"
    and within: "ok c \<Longrightarrow> contents_bytes (contents c) \<le> capacity c"
begin

lemma run_refines:
  assumes "ok c"
  shows "\<exists>rs c'. run_accesses access c reqs = Some (rs, c') \<and> ok c' \<and> capacity c' = capacity c
    \<and> (map ca_hit rs, contents c') = spec_run (capacity c) reqs (contents c)"
  using assms
proof (induction reqs arbitrary: c)
  case (Cons req reqs)
  obtain k b where req: "req = (k, b)" by (cases req)
  obtain r c1 where acc: "access c k b = Some (r, c1)" using defined [OF Cons.prems] by blast
  note keeps_capacity [OF Cons.prems acc] and refines [OF Cons.prems acc]
  moreover obtain rs c' where "run_accesses access c1 reqs = Some (rs, c')" "ok c'" "capacity c' = capacity c1"
      "(map ca_hit rs, contents c') = spec_run (capacity c1) reqs (contents c1)"
    using Cons.IH [OF keeps_ok [OF Cons.prems acc]] by blast
  ultimately show ?case by (simp add: req acc case_prod_unfold) (metis fst_conv snd_conv)
qed simp

lemma run_within:
  assumes "ok c" and "run_accesses access c reqs = Some (rs, c')"
  shows "contents_bytes (contents c') \<le> capacity c"
  using run_refines [OF assms(1), of reqs] assms(2) within [of c'] by auto

lemma spec_run_uniform:
  assumes "0 < unat b" and "distinct xs"
  shows "snd (spec_run cap (map (\<lambda>k. (k, b)) ks) (map (\<lambda>k. (k, unat b)) (take (cap div unat b) xs)))
    = map (\<lambda>k. (k, unat b)) (take (cap div unat b) (recency xs ks))"
  using assms(2)
proof (induction ks arbitrary: xs)
  case (Cons k ks)
  have "distinct (k # removeAll k xs)" using Cons.prems by (simp add: distinct_removeAll)
  from Cons.IH [OF this] show ?case
    by (simp add: spec_access_uniform [OF assms(1) Cons.prems] case_prod_unfold Let_def)
qed simp

lemma spec_run_hits_mono:
  assumes "0 < unat b" and "distinct xs" and "cap \<le> cap'"
  shows "list_all2 (\<longrightarrow>)
    (fst (spec_run cap (map (\<lambda>k. (k, b)) ks) (map (\<lambda>k. (k, unat b)) (take (cap div unat b) xs))))
    (fst (spec_run cap' (map (\<lambda>k. (k, b)) ks) (map (\<lambda>k. (k, unat b)) (take (cap' div unat b) xs))))"
  using assms(2)
proof (induction ks arbitrary: xs)
  case (Cons k ks)
  have "distinct (k # removeAll k xs)" using Cons.prems by (simp add: distinct_removeAll)
  note IH = Cons.IH [OF this]
  have "cap div unat b \<le> cap' div unat b" using assms(3) by (rule div_le_mono)
  then have "set (take (cap div unat b) xs) \<subseteq> set (take (cap' div unat b) xs)"
    by (rule set_take_subset_set_take)
  with IH show ?case
    by (auto simp: spec_access_uniform [OF assms(1) Cons.prems] case_prod_unfold Let_def)
qed simp

lemma run_uniform_hits_mono:
  assumes "ok c" and "ok d" and "contents c = []" and "contents d = []"
    and "capacity c \<le> capacity d" and "0 < b"
    and "run_accesses access c (map (\<lambda>k. (k, b)) ks) = Some (rs, c')"
    and "run_accesses access d (map (\<lambda>k. (k, b)) ks) = Some (rs', d')"
  shows "list_all2 (\<lambda>r r'. ca_hit r \<longrightarrow> ca_hit r') rs rs'"
proof -
  have b: "0 < unat b" using assms(6) by (simp add: word_less_nat_alt)
  have "map ca_hit rs = fst (spec_run (capacity c) (map (\<lambda>k. (k, b)) ks) [])"
    and "map ca_hit rs' = fst (spec_run (capacity d) (map (\<lambda>k. (k, b)) ks) [])"
    using run_refines [OF assms(1), of "map (\<lambda>k. (k, b)) ks"] run_refines [OF assms(2), of "map (\<lambda>k. (k, b)) ks"] assms(3,4,7,8)
    by (metis Pair_inject fst_conv option.inject)+
  with spec_run_hits_mono [OF b _ assms(5), of "[]" ks]
  have "list_all2 (\<longrightarrow>) (map ca_hit rs) (map ca_hit rs')" by simp
  then show ?thesis by (simp add: list.rel_map)
qed

lemma run_uniform_contents:
  assumes "ok c" and "contents c = []" and "0 < b"
    and "run_accesses access c (map (\<lambda>k. (k, b)) ks) = Some (rs, c')"
  shows "contents c' = map (\<lambda>k. (k, unat b)) (take (capacity c div unat b) (recency [] ks))"
proof -
  have b: "0 < unat b" using assms(3) by (simp add: word_less_nat_alt)
  have "contents c' = snd (spec_run (capacity c) (map (\<lambda>k. (k, b)) ks) [])"
    using run_refines [OF assms(1), of "map (\<lambda>k. (k, b)) ks"] assms(2,4) by (metis Pair_inject snd_conv option.inject)
  with spec_run_uniform [OF b, of "[]" "capacity c" ks] show ?thesis by simp
qed

end

interpretation lru: residency_policy lru_access lru_contents lru_capacity lru_ok
proof unfold_locales
  fix c k b
  assume ok: "lru_ok c"
  show "\<exists>r c'. lru_access c k b = Some (r, c')"
    using lru_access_refines_aux [OF ok] by blast
  show "contents_bytes (lru_contents c) \<le> lru_capacity c"
    using lru_okD(4,5) [OF ok] by (simp add: lru_capacity_def word_le_nat_alt)
  fix r c'
  assume acc: "lru_access c k b = Some (r, c')"
  show "lru_ok c'" "lru_capacity c' = lru_capacity c"
    "(ca_hit r, lru_contents c') = spec_access (lru_capacity c) k (unat b) (lru_contents c)"
    using lru_access_refines_aux [OF ok, of k b] acc by auto
qed


lemma lru_run_counts:
  assumes "lru_ok c" and "run_accesses lru_access c reqs = Some (rs, c')"
  shows "cs_requests (lru_stats c') = cs_requests (lru_stats c) + of_nat (length reqs)
    \<and> cs_hits (lru_stats c') = cs_hits (lru_stats c) + of_nat (length (filter ca_hit rs))
    \<and> cs_misses (lru_stats c') = cs_misses (lru_stats c) + of_nat (length (filter (\<lambda>r. \<not> ca_hit r) rs))"
  using assms
proof (induction reqs arbitrary: c rs)
  case (Cons req reqs)
  obtain k b where req: "req = (k, b)" by (cases req)
  obtain r c1 where acc: "lru_access c k b = Some (r, c1)" and ok1: "lru_ok c1" and cnt: "access_counts c b r c1"
    using lru_access_refines_aux [OF Cons.prems(1), of k b] by blast
  from Cons.prems(2) obtain rs1 where "run_accesses lru_access c1 reqs = Some (rs1, c')" "rs = r # rs1"
    by (auto simp: req acc)
  with Cons.IH [OF ok1, of rs1] cnt show ?case by (simp add: access_counts_def add_ac)
qed simp

lemma lru_new_ok [simp]: "lru_ok (lru_new cap)" "lru_contents (lru_new cap) = []" "lru_capacity (lru_new cap) = unat cap"
  by (simp_all add: lru_new_def lru_reset_ok)

section \<open>Properties\<close>

text \<open>
  C4. Under the invariant an access never follows a dangling iterator, keeps the invariant
  (the index names exactly the listed entries, the resident counter is the sum of their
  sizes and at most the capacity), and does to the recency list exactly what
  \<open>spec_access\<close> says; it bypasses exactly when the slice is not a hit and cannot fit.
\<close>

theorem lru_access_refines:
  assumes "lru_ok c"
  shows "\<exists>r c'. lru_access c key bytes = Some (r, c') \<and> lru_ok c' \<and> lru_capacity c' = lru_capacity c
    \<and> (ca_hit r, lru_contents c') = spec_access (lru_capacity c) key (unat bytes) (lru_contents c)
    \<and> ca_bypassed r = (\<not> ca_hit r \<and> bypasses (lru_capacity c) (unat bytes))
    \<and> ca_cached r = (\<not> ca_bypassed r)"
  using lru_access_refines_aux [OF assms, of key bytes] by blast

definition demo_key :: "u32 \<Rightarrow> ggml_moe_cache_key" where
  "demo_key i = \<lparr>ck_tensor_data = 4096, ck_expert_stride = 64, ck_expert = i\<rparr>"

lemma lru_access_refines_witness:
  "\<exists>r c'. lru_access (lru_new 100) (demo_key 3) 64 = Some (r, c') \<and> lru_contents c' = [(demo_key 3, 64)] \<and> ca_cached r"
proof -
  obtain r c' where r: "lru_access (lru_new 100) (demo_key 3) 64 = Some (r, c')"
      "(ca_hit r, lru_contents c') = spec_access 100 (demo_key 3) 64 []"
      "ca_bypassed r = (\<not> ca_hit r \<and> bypasses 100 64)" "ca_cached r = (\<not> ca_bypassed r)"
    using lru_access_refines [of "lru_new 100" "demo_key 3" 64] by auto
  then show ?thesis by (intro exI [of _ r] exI [of _ c']) (simp add: spec_access_def bypasses_def)
qed

text \<open>
  From a fresh cache every sequence of accesses is defined, its contents never exceed the
  byte budget, the resident counter is exact, and every request is counted once, as a hit or
  as a miss.
\<close>

theorem lru_trace_bounded:
  "\<exists>rs c. run_accesses lru_access (lru_new cap) reqs = Some (rs, c) \<and> length rs = length reqs
    \<and> contents_bytes (lru_contents c) \<le> unat cap
    \<and> unat (cs_resident_bytes (lru_stats c)) = contents_bytes (lru_contents c)
    \<and> distinct (map fst (lru_contents c))
    \<and> (\<forall>k. lru_contains c k = (k \<in> fst ` set (lru_contents c)))
    \<and> cs_requests (lru_stats c) = of_nat (length reqs)
    \<and> cs_requests (lru_stats c) = cs_hits (lru_stats c) + cs_misses (lru_stats c)"
proof -
  obtain rs c where run: "run_accesses lru_access (lru_new cap) reqs = Some (rs, c)" "lru_ok c"
      "(map ca_hit rs, lru_contents c) = spec_run (unat cap) reqs []"
    using lru.run_refines [OF lru_new_ok(1), of cap reqs] by auto
  note cnt = lru_run_counts [OF lru_new_ok(1) run(1)]
  have zero: "cs_requests (lru_stats (lru_new cap)) = 0" "cs_hits (lru_stats (lru_new cap)) = 0"
    "cs_misses (lru_stats (lru_new cap)) = 0"
    by (simp_all add: lru_new_def lru_reset_def cache_stats_init_def)
  have "length rs = length reqs" using spec_run_length [of "unat cap" reqs "[]"] run(3) by (metis fst_conv length_map)
  moreover from this have "of_nat (length reqs) = (of_nat (length (filter ca_hit rs)) + of_nat (length (filter (\<lambda>r. \<not> ca_hit r) rs)) :: u64)"
    by (metis of_nat_add sum_length_filter_compl)
  moreover note lru.run_within [OF lru_new_ok(1) run(1)] lru_okD [OF run(2)] lru_index_contents [OF run(2)]
  ultimately show ?thesis
    using run(1) cnt zero by (intro exI [of _ rs] exI [of _ c]) (simp add: lru_contains_def)
qed

text \<open>
  Evictions are least recently used first and minimal: a cached miss keeps a prefix of
  the remaining recency list that leaves room for the new slice, and every prefix that
  leaves room is a prefix of what is kept.
\<close>

theorem lru_evicts_minimally:
  assumes "lru_ok c" and "lru_access c key bytes = Some (r, c')" and "\<not> ca_hit r" and "ca_cached r"
  shows "\<exists>kept. lru_contents c' = (key, unat bytes) # kept
    \<and> prefix kept (filter (\<lambda>(k, _). k \<noteq> key) (lru_contents c))
    \<and> contents_bytes kept + unat bytes \<le> lru_capacity c
    \<and> (\<forall>ys. prefix ys (filter (\<lambda>(k, _). k \<noteq> key) (lru_contents c))
          \<and> contents_bytes ys + unat bytes \<le> lru_capacity c \<longrightarrow> prefix ys kept)"
proof -
  let ?room = "lru_capacity c - unat bytes" and ?others = "filter (\<lambda>(k, _). k \<noteq> key) (lru_contents c)"
  have sp: "(ca_hit r, lru_contents c') = spec_access (lru_capacity c) key (unat bytes) (lru_contents c)"
    and "\<not> bypasses (lru_capacity c) (unat bytes)"
    using lru_access_refines_aux [OF assms(1), of key bytes] assms(2-4) by auto
  then have "unat bytes \<le> lru_capacity c" and con: "lru_contents c' = (key, unat bytes) # fit ?room ?others"
    using assms(3) by (auto simp: bypasses_def spec_access_def Let_def split: if_splits)
  then show ?thesis
    using fit_prefix [of ?room ?others] fit_bytes [of ?room ?others] fit_longest [of _ ?others ?room]
    by (intro exI [of _ "fit ?room ?others"]) (auto simp: con)
qed

definition demo_cache :: ggml_moe_cache_lru where
  "demo_cache = snd (the (run_accesses lru_access (lru_new 100) [(demo_key 0, 40), (demo_key 1, 40)]))"

lemma demo_cache_facts:
  "lru_ok demo_cache" "\<exists>r c'. lru_access demo_cache (demo_key 2) 50 = Some (r, c') \<and> \<not> ca_hit r \<and> ca_cached r"
  "lru_contents demo_cache = [(demo_key 1, 40), (demo_key 0, 40)]"
proof -
  obtain rs c where run: "run_accesses lru_access (lru_new 100) [(demo_key 0, 40), (demo_key 1, 40)] = Some (rs, c)" "lru_ok c"
      "lru_capacity c = 100" "(map ca_hit rs, lru_contents c) = spec_run 100 [(demo_key 0, 40), (demo_key 1, 40)] []"
    using lru.run_refines [OF lru_new_ok(1), of 100 "[(demo_key 0, 40), (demo_key 1, 40)]"] by auto
  then have c: "demo_cache = c" by (simp add: demo_cache_def)
  show con: "lru_ok demo_cache" "lru_contents demo_cache = [(demo_key 1, 40), (demo_key 0, 40)]"
    using run by (simp_all add: c spec_access_def demo_key_def)
  show "\<exists>r c'. lru_access demo_cache (demo_key 2) 50 = Some (r, c') \<and> \<not> ca_hit r \<and> ca_cached r"
    using lru_access_refines_aux [OF con(1), of "demo_key 2" 50] run(3) con(2)
    by (auto simp: c spec_access_def bypasses_def demo_key_def)
qed

lemma lru_evicts_minimally_witness:
  "\<exists>r c'. lru_access demo_cache (demo_key 2) 50 = Some (r, c') \<and> (\<exists>kept. lru_contents c' = (demo_key 2, 50) # kept
    \<and> prefix kept (filter (\<lambda>(k, _). k \<noteq> demo_key 2) (lru_contents demo_cache)))"
  using demo_cache_facts(2) lru_evicts_minimally [OF demo_cache_facts(1), of "demo_key 2" 50] by fastforce

text \<open>
  C31. The budget question the shadow answers: for slices of one size, a larger budget hits
  wherever a smaller one hits, so it never has fewer hits on the same router trace.
\<close>

theorem lru_larger_budget_hits_more:
  assumes "cap \<le> cap'" and "0 < b"
    and "run_accesses lru_access (lru_new cap) (map (\<lambda>k. (k, b)) ks) = Some (rs, c)"
    and "run_accesses lru_access (lru_new cap') (map (\<lambda>k. (k, b)) ks) = Some (rs', c')"
  shows "list_all2 (\<lambda>r r'. ca_hit r \<longrightarrow> ca_hit r') rs rs'
    \<and> lru_contents c = map (\<lambda>k. (k, unat b)) (take (unat cap div unat b) (recency [] ks))"
  using lru.run_uniform_hits_mono [OF _ _ _ _ _ assms(2,3,4)] lru.run_uniform_contents [OF _ _ assms(2,3)] assms(1)
  by (simp add: word_le_nat_alt)

lemma lru_larger_budget_hits_more_witness:
  "\<exists>rs c rs' c'. run_accesses lru_access (lru_new 64) (map (\<lambda>k. (k, 64)) [demo_key 0, demo_key 1, demo_key 0]) = Some (rs, c)
    \<and> run_accesses lru_access (lru_new 128) (map (\<lambda>k. (k, 64)) [demo_key 0, demo_key 1, demo_key 0]) = Some (rs', c')
    \<and> list_all2 (\<lambda>r r'. ca_hit r \<longrightarrow> ca_hit r') rs rs'"
proof -
  let ?reqs = "map (\<lambda>k. (k, 64)) [demo_key 0, demo_key 1, demo_key 0]"
  obtain rs c rs' c' where "run_accesses lru_access (lru_new 64) ?reqs = Some (rs, c)"
      "run_accesses lru_access (lru_new 128) ?reqs = Some (rs', c')"
    using lru.run_refines [OF lru_new_ok(1)] by blast
  moreover from lru_larger_budget_hits_more [OF _ _ this] have "list_all2 (\<lambda>r r'. ca_hit r \<longrightarrow> ca_hit r') rs rs'"
    by simp
  ultimately show ?thesis by blast
qed

end
