(* ===== verification/Moe_Trace.thy ===== *)
theory Moe_Trace
  imports Decimal_Text
begin

text \<open>
  The bounded expert-access trace (\<open>ggml/src/ggml-moe-trace.h\<close>, and the request scope of
  \<open>ggml/include/ggml-moe-stats.h\<close>): a CSV writer over a C stream.

  A stream is a \<open>sink\<close>: the bytes that reached it, its error indicator, and a plan that says
  for each output call whether it succeeds (\<open>None\<close>) or fails after some bytes. The plan is
  arbitrary, so every theorem holds for every pattern of output failures; the error indicator
  is sticky, as \<open>ferror\<close> is. Messages to \<open>stderr\<close> are not modelled. Writing through a null
  stream is undefined, \<open>None\<close> in the model.
\<close>

section \<open>Streams\<close>

record sink =
  sk_out :: string
  sk_err :: bool
  sk_calls :: nat
  sk_plan :: "nat \<Rightarrow> nat option"

definition sink_write :: "sink \<Rightarrow> string \<Rightarrow> bool \<times> sink" where
  "sink_write f s =
     (case sk_plan f (sk_calls f) of
        None \<Rightarrow> (True, f\<lparr>sk_out := sk_out f @ s, sk_calls := Suc (sk_calls f)\<rparr>)
      | Some k \<Rightarrow> (False, f\<lparr>sk_out := sk_out f @ take k s, sk_err := True, sk_calls := Suc (sk_calls f)\<rparr>))"

definition sink_flush :: "sink \<Rightarrow> bool \<times> sink" where
  "sink_flush f = sink_write f []"

definition write_all :: "sink \<Rightarrow> string list \<Rightarrow> sink" where
  "write_all f ss = foldl (\<lambda>f s. snd (sink_write f s)) f ss"

lemma sink_write_err: "sk_err (snd (sink_write f s)) \<longleftrightarrow> sk_err f \<or> \<not> fst (sink_write f s)"
  by (simp add: sink_write_def split: option.splits)

lemma sink_write_ok: "fst (sink_write f s) \<Longrightarrow> sk_out (snd (sink_write f s)) = sk_out f @ s"
  by (simp add: sink_write_def split: option.splits)

lemma sink_write_prefix: "prefix (sk_out f) (sk_out (snd (sink_write f s)))"
  by (simp add: sink_write_def split: option.splits)

lemma sink_write_length: "length (sk_out (snd (sink_write f s))) \<le> length (sk_out f) + length s"
  by (simp add: sink_write_def split: option.splits)

lemma sink_flush_out [simp]: "sk_out (snd (sink_flush f)) = sk_out f"
  by (simp add: sink_flush_def sink_write_def split: option.splits)

lemma sink_flush_err: "sk_err (snd (sink_flush f)) \<longleftrightarrow> sk_err f \<or> \<not> fst (sink_flush f)"
  by (simp add: sink_flush_def sink_write_err)

lemma write_all_simps [simp]:
  "write_all f [] = f" "write_all f (s # ss) = write_all (snd (sink_write f s)) ss"
  by (simp_all add: write_all_def)

lemma write_all_err: "sk_err f \<Longrightarrow> sk_err (write_all f ss)"
  by (induction ss arbitrary: f) (auto simp: sink_write_err)

lemma write_all_ok: "\<not> sk_err (write_all f ss) \<Longrightarrow> sk_out (write_all f ss) = sk_out f @ concat ss"
proof (induction ss arbitrary: f)
  case (Cons s ss)
  then have "\<not> sk_err (snd (sink_write f s))" using write_all_err by fastforce
  then have "fst (sink_write f s)" by (simp add: sink_write_err)
  with Cons show ?case by (simp add: sink_write_ok)
qed simp

lemma write_all_prefix: "prefix (sk_out f) (sk_out (write_all f ss))"
proof (induction ss arbitrary: f)
  case (Cons s ss)
  show ?case using sink_write_prefix [of f s] Cons [of "snd (sink_write f s)"]
    by (simp add: prefix_order.trans)
qed simp

section \<open>State\<close>

text \<open>The signed fields are only compared with constants and printed: \<open>int\<close>.\<close>

record ggml_moe_trace_scope =
  ts_request_id :: int
  ts_seq_id :: int
  ts_phase :: int
  ts_pos_min :: int
  ts_pos_max :: int

definition no_scope :: ggml_moe_trace_scope where
  "no_scope = \<lparr>ts_request_id = -1, ts_seq_id = -1, ts_phase = 0, ts_pos_min = -1, ts_pos_max = -1\<rparr>"

record ggml_moe_trace =
  tr_file :: "sink option"
  tr_limit :: u64
  tr_written :: u64
  tr_dropped :: u64
  tr_error :: bool
  tr_finished :: bool
  tr_request_only :: bool
  tr_scope :: ggml_moe_trace_scope

text \<open>The arguments of \<open>record\<close>.\<close>

record trace_row =
  row_entry :: u64
  row_epoch :: u64
  row_rows :: int
  row_name :: string
  row_type :: int
  row_expert :: u32
  row_stride :: u64
  row_offset :: u64
  row_bytes :: u64
  row_hit :: bool
  row_bypass :: bool

definition trace_max_records :: u64 where
  "trace_max_records = 100000"

definition nl :: string where "nl = [CHR 0x0A]"

definition quote_char :: char where "quote_char = CHR 0x22"

definition trace_header :: "bool \<Rightarrow> string" where
  "trace_header request_only =
     ''seq,weight_entry,epoch,ids_rows,tensor,ggml_type,expert,stride,relative_offset,bytes,shadow_hit,shadow_bypass''
     @ (if request_only then '',context,request_id,seq_id,phase,pos_min,pos_max'' else []) @ nl"

section \<open>Operations\<close>

definition trace_new :: "sink option \<Rightarrow> u64 \<Rightarrow> bool \<Rightarrow> ggml_moe_trace" where
  "trace_new file limit request_only =
     (let t = \<lparr>tr_file = file, tr_limit = min limit trace_max_records, tr_written = 0, tr_dropped = 0,
               tr_error = False, tr_finished = False, tr_request_only = request_only, tr_scope = no_scope\<rparr>
      in case file of
           None \<Rightarrow> t\<lparr>tr_error := True\<rparr>
         | Some f \<Rightarrow> (let (ok, f') = sink_write f (trace_header request_only)
                     in t\<lparr>tr_file := Some f', tr_error := \<not> ok\<rparr>))"

definition trace_request_scoped :: "ggml_moe_trace \<Rightarrow> bool" where
  "trace_request_scoped t = tr_request_only t"

definition trace_set_scope :: "ggml_moe_trace \<Rightarrow> ggml_moe_trace_scope \<Rightarrow> ggml_moe_trace" where
  "trace_set_scope t s = t\<lparr>tr_scope := s\<rparr>"

definition trace_failed :: "ggml_moe_trace \<Rightarrow> bool" where
  "trace_failed t = tr_error t"

definition trace_remaining :: "ggml_moe_trace \<Rightarrow> u64" where
  "trace_remaining t = (if tr_error t \<or> tr_finished t then 0 else tr_limit t - tr_written t)"

definition trace_incomplete :: "ggml_moe_trace \<Rightarrow> ggml_moe_trace" where
  "trace_incomplete t = (if \<not> tr_finished t then t\<lparr>tr_dropped := tr_dropped t + 1, tr_error := True\<rparr> else t)"

definition phase_name :: "int \<Rightarrow> string" where
  "phase_name p = (if p = 1 then ''prefill'' else if p = 2 then ''decode'' else ''mixed'')"

text \<open>The text of each output call of one \<open>record\<close>, in order.\<close>

definition quoted_calls :: "string \<Rightarrow> string list" where
  "quoted_calls name = concat (map (\<lambda>c. if c = quote_char then [[quote_char], [c]] else [[c]]) name)"

definition row_calls :: "bool \<Rightarrow> ggml_moe_trace_scope \<Rightarrow> u64 \<Rightarrow> trace_row \<Rightarrow> string list" where
  "row_calls request_only scope seq r =
     [dec_word seq @ '','' @ dec_word (row_entry r) @ '','' @ dec_word (row_epoch r) @ '',''
        @ dec_int (row_rows r) @ '','' @ [quote_char]]
     @ quoted_calls (row_name r)
     @ [[quote_char] @ '','' @ dec_int (row_type r) @ '','' @ dec_word (row_expert r) @ '','' @ dec_word (row_stride r)
        @ '','' @ dec_word (row_offset r) @ '','' @ dec_word (row_bytes r) @ '','' @ dec_bool (row_hit r)
        @ '','' @ dec_bool (row_bypass r)]
     @ (if request_only
        then ['',target,'' @ dec_int (ts_request_id scope) @ '','' @ dec_int (ts_seq_id scope) @ '',''
              @ phase_name (ts_phase scope) @ '','' @ dec_int (ts_pos_min scope) @ '','' @ dec_int (ts_pos_max scope)]
        else [])
     @ [nl]"

definition trace_record :: "ggml_moe_trace \<Rightarrow> trace_row \<Rightarrow> ggml_moe_trace option" where
  "trace_record t r =
     (if tr_finished t \<or> (tr_request_only t \<and> ts_phase (tr_scope t) = 0) then Some t
      else if tr_written t \<ge> tr_limit t \<or> tr_error t then Some (t\<lparr>tr_dropped := tr_dropped t + 1\<rparr>)
      else case tr_file t of
        None \<Rightarrow> None
      | Some f \<Rightarrow>
          let f' = write_all f (row_calls (tr_request_only t) (tr_scope t) (tr_written t) r) in
          Some (t\<lparr>tr_file := Some f', tr_written := tr_written t + 1, tr_error := tr_error t \<or> sk_err f'\<rparr>))"

definition trace_footer :: "u64 \<Rightarrow> u64 \<Rightarrow> bool \<Rightarrow> string" where
  "trace_footer written dropped err =
     ''# end written='' @ dec_word written @ '' dropped='' @ dec_word dropped @ '' error='' @ dec_bool err @ nl"

definition trace_finish :: "ggml_moe_trace \<Rightarrow> ggml_moe_trace" where
  "trace_finish t =
     (if tr_finished t then t
      else let t1 = t\<lparr>tr_finished := True\<rparr> in
        case tr_file t1 of
          None \<Rightarrow> t1
        | Some f \<Rightarrow>
            let (ok1, f1) = sink_flush f;
                err1 = (tr_error t1 \<or> \<not> ok1 \<or> sk_err f1);
                (_, f2) = sink_write f1 (trace_footer (tr_written t1) (tr_dropped t1) err1);
                (ok3, f3) = sink_flush f2
            in t1\<lparr>tr_file := Some f3, tr_error := err1 \<or> \<not> ok3 \<or> sk_err f3\<rparr>)"

datatype trace_op = Set_Scope ggml_moe_trace_scope | Record trace_row | Incomplete | Finish

fun trace_step :: "ggml_moe_trace \<Rightarrow> trace_op \<Rightarrow> ggml_moe_trace option" where
  "trace_step t (Set_Scope s) = Some (trace_set_scope t s)"
| "trace_step t (Record r) = trace_record t r"
| "trace_step t Incomplete = Some (trace_incomplete t)"
| "trace_step t Finish = Some (trace_finish t)"


section \<open>Bounded evidence writers as an interface\<close>

text \<open>
  Both CSV writers of the program (this one and the CUDA transfer writer) promise the same:
  an operation on a well-formed writer is defined and keeps it well formed, the number of
  written rows never exceeds a fixed limit, and what reached the stream is only appended to.
\<close>

fun run_ops :: "('s \<Rightarrow> 'op \<Rightarrow> 's option) \<Rightarrow> 's \<Rightarrow> 'op list \<Rightarrow> 's option" where
  "run_ops step s [] = Some s"
| "run_ops step s (x # xs) = (case step s x of None \<Rightarrow> None | Some s' \<Rightarrow> run_ops step s' xs)"

lemma run_ops_append:
  "run_ops step s (xs @ ys) = (case run_ops step s xs of None \<Rightarrow> None | Some s' \<Rightarrow> run_ops step s' ys)"
  by (induction xs arbitrary: s) (auto split: option.splits)

lemma run_ops_invariant:
  assumes "run_ops step s xs = Some s'" and "P s"
    and "\<And>s x s'. x \<in> set xs \<Longrightarrow> P s \<Longrightarrow> step s x = Some s' \<Longrightarrow> P s'"
  shows "P s'"
  using assms
proof (induction xs arbitrary: s)
  case (Cons x xs)
  from Cons.prems(1) obtain s1 where s1: "step s x = Some s1" "run_ops step s1 xs = Some s'"
    by (auto split: option.splits)
  have "P s1" using Cons.prems(2,3) s1(1) by auto
  with Cons.IH [OF s1(2)] Cons.prems(3) show ?case by auto
qed simp

locale evidence_writer =
  fixes step :: "'s \<Rightarrow> 'op \<Rightarrow> 's option"
    and ok :: "'s \<Rightarrow> bool" and out :: "'s \<Rightarrow> string"
    and written :: "'s \<Rightarrow> nat" and limit :: "'s \<Rightarrow> nat"
  assumes defined: "ok s \<Longrightarrow> \<exists>s'. step s x = Some s'"
    and keeps: "ok s \<Longrightarrow> step s x = Some s' \<Longrightarrow> ok s'"
    and same_limit: "step s x = Some s' \<Longrightarrow> limit s' = limit s"
    and bounded: "ok s \<Longrightarrow> written s \<le> limit s"
    and append_only: "step s x = Some s' \<Longrightarrow> prefix (out s) (out s')"
begin

lemma run_defined: "ok s \<Longrightarrow> \<exists>s'. run_ops step s xs = Some s' \<and> ok s'"
proof (induction xs arbitrary: s)
  case (Cons x xs)
  then obtain s1 where "step s x = Some s1" "ok s1" using defined keeps by blast
  with Cons.IH show ?case by simp
qed simp

lemma run_keeps: "ok s \<Longrightarrow> run_ops step s xs = Some s' \<Longrightarrow> ok s'"
  using run_defined [of s xs] by auto

lemma run_limit: "run_ops step s xs = Some s' \<Longrightarrow> limit s' = limit s"
  by (rule run_ops_invariant [where P = "\<lambda>t. limit t = limit s"]) (auto simp: same_limit)

lemma run_bounded: "ok s \<Longrightarrow> run_ops step s xs = Some s' \<Longrightarrow> written s' \<le> limit s"
  using run_keeps run_limit bounded by metis

lemma run_append_only: "run_ops step s xs = Some s' \<Longrightarrow> prefix (out s) (out s')"
  by (rule run_ops_invariant [where P = "\<lambda>t. prefix (out s) (out t)"])
    (auto dest: append_only intro: prefix_order.trans)

end

definition trace_out :: "ggml_moe_trace \<Rightarrow> string" where
  "trace_out t = (case tr_file t of None \<Rightarrow> [] | Some f \<Rightarrow> sk_out f)"

definition trace_ok :: "ggml_moe_trace \<Rightarrow> bool" where
  "trace_ok t \<longleftrightarrow> tr_written t \<le> tr_limit t \<and> tr_limit t \<le> trace_max_records
     \<and> (tr_file t = None \<longrightarrow> tr_error t)
     \<and> (\<forall>f. tr_file t = Some f \<longrightarrow> sk_err f \<longrightarrow> tr_error t)"

lemma trace_new_ok: "(\<And>f. file = Some f \<Longrightarrow> \<not> sk_err f) \<Longrightarrow> trace_ok (trace_new file limit ro)"
  by (auto simp: trace_new_def trace_ok_def Let_def case_prod_unfold sink_write_err split: option.splits)

lemma word_Suc_le: "a < b \<Longrightarrow> a + 1 \<le> b" for a b :: "'w::len word"
  by (rule inc_le)

lemma trace_record_ok: "trace_ok t \<Longrightarrow> \<exists>t'. trace_record t r = Some t' \<and> trace_ok t'"
  by (auto simp: trace_record_def trace_ok_def Let_def not_le split: option.splits intro: word_Suc_le)

lemma trace_finish_ok: "trace_ok t \<Longrightarrow> trace_ok (trace_finish t)"
  by (auto simp: trace_finish_def trace_ok_def Let_def case_prod_unfold split: option.splits)

lemma trace_step_ok: "trace_ok t \<Longrightarrow> \<exists>t'. trace_step t x = Some t' \<and> trace_ok t'"
proof (cases x)
  case (Record r)
  then show "trace_ok t \<Longrightarrow> ?thesis" using trace_record_ok by simp
qed (simp_all add: trace_finish_ok, simp_all add: trace_ok_def trace_set_scope_def trace_incomplete_def)

lemma trace_record_prefix: "trace_record t r = Some t' \<Longrightarrow> prefix (trace_out t) (trace_out t')"
  by (auto simp: trace_record_def trace_out_def Let_def write_all_prefix split: if_splits option.splits)

lemma trace_finish_prefix: "prefix (trace_out t) (trace_out (trace_finish t))"
  by (auto simp: trace_finish_def trace_out_def Let_def case_prod_unfold
      intro: prefix_order.trans [OF _ sink_write_prefix] split: option.splits)

lemma trace_step_frame:
  assumes "trace_step t x = Some t'"
  shows "tr_limit t' = tr_limit t" and "tr_request_only t' = tr_request_only t"
    and "tr_error t \<Longrightarrow> tr_error t'" and "prefix (trace_out t) (trace_out t')"
proof -
  show "tr_limit t' = tr_limit t" "tr_request_only t' = tr_request_only t" "tr_error t \<Longrightarrow> tr_error t'"
    using assms
    by (cases x; force simp: trace_set_scope_def trace_incomplete_def trace_record_def trace_finish_def
        Let_def case_prod_unfold split: if_splits option.splits)+
  show "prefix (trace_out t) (trace_out t')"
    using assms trace_record_prefix trace_finish_prefix
    by (cases x) (auto simp: trace_set_scope_def trace_incomplete_def trace_out_def)
qed

interpretation tw: evidence_writer trace_step trace_ok trace_out
  "\<lambda>t. unat (tr_written t)" "\<lambda>t. unat (tr_limit t)"
proof unfold_locales
  show "\<exists>s'. trace_step s x = Some s'" if "trace_ok s" for s x
    using trace_step_ok [OF that] by blast
  show "trace_ok s'" if "trace_ok s" "trace_step s x = Some s'" for s x s'
    using trace_step_ok [OF that(1), of x] that(2) by auto
  show "unat (tr_written s) \<le> unat (tr_limit s)" if "trace_ok s" for s
    using that by (simp add: trace_ok_def word_le_nat_alt)
qed (simp_all add: trace_step_frame)


section \<open>What a trace holds\<close>

text \<open>
  The rows a sequence of operations asks for: each \<open>record\<close> in scope, with the scope at the
  time. The text of row \<open>n\<close> is the concatenation of its output calls.
\<close>

fun scoped_rows :: "bool \<Rightarrow> ggml_moe_trace_scope \<Rightarrow> trace_op list \<Rightarrow> (ggml_moe_trace_scope \<times> trace_row) list" where
  "scoped_rows ro sc [] = []"
| "scoped_rows ro sc (Set_Scope s # ops) = scoped_rows ro s ops"
| "scoped_rows ro sc (Record r # ops) =
     (if ro \<and> ts_phase sc = 0 then scoped_rows ro sc ops else (sc, r) # scoped_rows ro sc ops)"
| "scoped_rows ro sc (Incomplete # ops) = scoped_rows ro sc ops"
| "scoped_rows ro sc (Finish # ops) = []"

definition row_text :: "bool \<Rightarrow> u64 \<Rightarrow> ggml_moe_trace_scope \<times> trace_row \<Rightarrow> string" where
  "row_text ro seq x = concat (row_calls ro (fst x) seq (snd x))"

fun rows_text :: "bool \<Rightarrow> u64 \<Rightarrow> (ggml_moe_trace_scope \<times> trace_row) list \<Rightarrow> string" where
  "rows_text ro seq [] = []"
| "rows_text ro seq (x # xs) = row_text ro seq x @ rows_text ro (seq + 1) xs"

definition count_incomplete :: "trace_op list \<Rightarrow> nat" where
  "count_incomplete ops = length (filter (\<lambda>x. x = Incomplete) ops)"

lemma trace_record_in_scope:
  assumes "trace_ok t" and "\<not> tr_finished t" and "\<not> (tr_request_only t \<and> ts_phase (tr_scope t) = 0)"
  obtains t' where "trace_record t r = Some t'" and "\<not> tr_finished t'" and "tr_scope t' = tr_scope t"
    and "tr_written t' + tr_dropped t' = tr_written t + tr_dropped t + 1"
    and "\<not> tr_error t' \<Longrightarrow> tr_written t < tr_limit t \<Longrightarrow> tr_written t' = tr_written t + 1
      \<and> trace_out t' = trace_out t @ row_text (tr_request_only t) (tr_written t) (tr_scope t, r)"
    and "tr_limit t \<le> tr_written t \<Longrightarrow> tr_written t' = tr_written t \<and> trace_out t' = trace_out t"
proof (cases "tr_limit t \<le> tr_written t \<or> tr_error t")
  case True
  with assms(2,3) have "trace_record t r = Some (t\<lparr>tr_dropped := tr_dropped t + 1\<rparr>)"
    by (auto simp: trace_record_def)
  then show ?thesis by (rule that) (use True assms(2) in \<open>auto simp: trace_out_def\<close>)
next
  case False
  with assms obtain f where f: "tr_file t = Some f" by (auto simp: trace_ok_def)
  define f' where "f' = write_all f (row_calls (tr_request_only t) (tr_scope t) (tr_written t) r)"
  have "trace_record t r = Some (t\<lparr>tr_file := Some f', tr_written := tr_written t + 1, tr_error := tr_error t \<or> sk_err f'\<rparr>)"
    using False assms(2,3) f by (auto simp: trace_record_def f'_def Let_def)
  moreover have "sk_out f' = sk_out f @ row_text (tr_request_only t) (tr_written t) (tr_scope t, r)" if "\<not> sk_err f'"
    using that unfolding f'_def row_text_def by (simp add: write_all_ok)
  ultimately show ?thesis by (elim that) (use False assms(2) f in \<open>auto simp: trace_out_def\<close>)
qed

text \<open>Every in-scope call is counted once, as written or as dropped, whatever the stream does.\<close>

lemma trace_accounting_aux:
  assumes "trace_ok t" and "\<not> tr_finished t" and "Finish \<notin> set ops" and "run_ops trace_step t ops = Some t'"
  shows "\<not> tr_finished t' \<and> tr_written t' + tr_dropped t' = tr_written t + tr_dropped t
      + of_nat (length (scoped_rows (tr_request_only t) (tr_scope t) ops)) + of_nat (count_incomplete ops)"
  using assms
proof (induction ops arbitrary: t)
  case Nil
  then show ?case by (simp add: count_incomplete_def)
next
  case (Cons x ops)
  from Cons.prems(4) obtain t1 where t1: "trace_step t x = Some t1" "run_ops trace_step t1 ops = Some t'"
    by (auto split: option.splits)
  have ok1: "trace_ok t1" by (rule tw.keeps [OF Cons.prems(1) t1(1)])
  note IH = Cons.IH [OF ok1 _ _ t1(2)] and ro = trace_step_frame(2) [OF t1(1)]
  show ?case
  proof (cases x)
    case (Set_Scope s)
    with t1(1) IH ro Cons.prems(2,3) show ?thesis by (auto simp: trace_set_scope_def count_incomplete_def)
  next
    case Incomplete
    with t1(1) IH ro Cons.prems(2,3) show ?thesis by (auto simp: trace_incomplete_def count_incomplete_def)
  next
    case (Record r)
    show ?thesis
    proof (cases "tr_request_only t \<and> ts_phase (tr_scope t) = 0")
      case True
      with Record t1(1) IH Cons.prems(2,3) show ?thesis by (auto simp: trace_record_def count_incomplete_def)
    next
      case False
      from trace_record_in_scope [OF Cons.prems(1,2) False, of r] Record t1(1)
      have "\<not> tr_finished t1" "tr_scope t1 = tr_scope t" "tr_written t1 + tr_dropped t1 = tr_written t + tr_dropped t + 1"
        by fastforce+
      with IH ro Cons.prems(3) False Record show ?thesis by (auto simp: count_incomplete_def algebra_simps)
    qed
  qed (use Cons.prems(3) in simp)
qed

text \<open>As long as no error was seen the stream holds exactly the first rows, in order.\<close>

lemma unat_sub_Suc: "a < b \<Longrightarrow> unat b - unat a = Suc (unat b - unat (a + 1))" for a b :: u64
  by (simp add: unat_plus1_less word_less_nat_alt)

lemma trace_rows_aux:
  assumes "trace_ok t" and "\<not> tr_finished t" and "Finish \<notin> set ops" and "run_ops trace_step t ops = Some t'"
    and "\<not> tr_error t'"
  shows "trace_out t' = trace_out t @ rows_text (tr_request_only t) (tr_written t)
       (take (unat (tr_limit t) - unat (tr_written t)) (scoped_rows (tr_request_only t) (tr_scope t) ops))
    \<and> unat (tr_written t') = unat (tr_written t)
       + min (unat (tr_limit t) - unat (tr_written t)) (length (scoped_rows (tr_request_only t) (tr_scope t) ops))
    \<and> count_incomplete ops = 0"
  using assms
proof (induction ops arbitrary: t)
  case Nil
  then show ?case by (simp add: count_incomplete_def)
next
  case (Cons x ops)
  from Cons.prems(4) obtain t1 where t1: "trace_step t x = Some t1" "run_ops trace_step t1 ops = Some t'"
    by (auto split: option.splits)
  have ok1: "trace_ok t1" by (rule tw.keeps [OF Cons.prems(1) t1(1)])
  note IH = Cons.IH [OF ok1 _ _ t1(2) Cons.prems(5)] and fr = trace_step_frame [OF t1(1)]
  have noerr: "\<not> tr_error t1"
    using run_ops_invariant [OF t1(2), of tr_error] trace_step_frame(3) Cons.prems(5) by blast
  show ?case
  proof (cases x)
    case (Set_Scope s)
    with t1(1) IH fr Cons.prems(2,3) show ?thesis by (auto simp: trace_set_scope_def trace_out_def count_incomplete_def)
  next
    case Incomplete
    with t1(1) noerr Cons.prems(2) show ?thesis by (auto simp: trace_incomplete_def)
  next
    case (Record r)
    show ?thesis
    proof (cases "tr_request_only t \<and> ts_phase (tr_scope t) = 0")
      case True
      with Record t1(1) IH Cons.prems(2,3) show ?thesis by (auto simp: trace_record_def count_incomplete_def)
    next
      case False
      obtain u where u: "trace_record t r = Some u" "\<not> tr_finished u" "tr_scope u = tr_scope t"
          "\<not> tr_error u \<Longrightarrow> tr_written t < tr_limit t \<Longrightarrow> tr_written u = tr_written t + 1
            \<and> trace_out u = trace_out t @ row_text (tr_request_only t) (tr_written t) (tr_scope t, r)"
          "tr_limit t \<le> tr_written t \<Longrightarrow> tr_written u = tr_written t \<and> trace_out u = trace_out t"
        by (rule trace_record_in_scope [OF Cons.prems(1,2) False, of r]) blast
      have t1u: "t1 = u" using t1(1) u(1) Record by simp
      show ?thesis
      proof (cases "tr_written t < tr_limit t")
        case True
        note s = unat_sub_Suc [OF True]
        have "unat (tr_written t + 1) = Suc (unat (tr_written t))"
          using True by (rule unat_plus1_less)
        with u(2-4) True IH fr noerr s Cons.prems(3) False Record t1u show ?thesis
          by (auto simp: count_incomplete_def)
      next
        case full: False
        with u IH fr noerr Cons.prems(3) False Record t1u show ?thesis
          by (auto simp: count_incomplete_def not_less word_le_nat_alt)
      qed
    qed
  qed (use Cons.prems(3) in simp)
qed


section \<open>Reading a row back\<close>

text \<open>An RFC 4180 field splitter, the reader of the evidence files; the flag says whether the
  position is inside quotes.\<close>

fun csv_fields :: "bool \<Rightarrow> string \<Rightarrow> string \<Rightarrow> string list" where
  "csv_fields q cur [] = [cur]"
| "csv_fields False cur (c # cs) =
     (if c = quote_char then csv_fields True cur cs
      else if c = CHR '','' then cur # csv_fields False [] cs
      else csv_fields False (cur @ [c]) cs)"
| "csv_fields True cur (c # cs) =
     (if c = quote_char then
        (case cs of
           [] \<Rightarrow> [cur]
         | d # ds \<Rightarrow> if d = quote_char then csv_fields True (cur @ [quote_char]) ds
                     else csv_fields False cur (d # ds))
      else csv_fields True (cur @ [c]) cs)"

definition row_fields :: "bool \<Rightarrow> u64 \<Rightarrow> ggml_moe_trace_scope \<Rightarrow> trace_row \<Rightarrow> string list" where
  "row_fields ro seq sc r =
     [dec_word seq, dec_word (row_entry r), dec_word (row_epoch r), dec_int (row_rows r), row_name r,
      dec_int (row_type r), dec_word (row_expert r), dec_word (row_stride r), dec_word (row_offset r),
      dec_word (row_bytes r), dec_bool (row_hit r), dec_bool (row_bypass r)]
     @ (if ro then [''target'', dec_int (ts_request_id sc), dec_int (ts_seq_id sc), phase_name (ts_phase sc),
                    dec_int (ts_pos_min sc), dec_int (ts_pos_max sc)] else [])"

definition plain :: "string \<Rightarrow> bool" where
  "plain s \<longleftrightarrow> quote_char \<notin> set s \<and> CHR '','' \<notin> set s"

lemma plain_decimals [simp]: "plain (dec_word w)" "plain (dec_int i)" "plain (dec_bool b)" "plain (phase_name p)"
proof -
  have no: "c \<noteq> quote_char \<and> c \<noteq> CHR '',''" if "is_digit c \<or> c = CHR ''-''" for c
    using that by (auto simp: quote_char_def)
  show "plain (dec_word w)" using no dec_word_digits [of _ w] unfolding plain_def by blast
  show "plain (dec_int i)" using no dec_int_chars [of _ i] unfolding plain_def by blast
  show "plain (dec_bool b)" using no dec_bool_digits [of _ b] unfolding plain_def by blast
  show "plain (phase_name p)" by (auto simp: plain_def phase_name_def quote_char_def)
qed

lemma csv_plain: "plain xs \<Longrightarrow> csv_fields False cur (xs @ CHR '','' # rest) = (cur @ xs) # csv_fields False [] rest"
  by (induction xs arbitrary: cur) (auto simp: plain_def quote_char_def)

lemma csv_plain_end: "plain xs \<Longrightarrow> csv_fields False cur xs = [cur @ xs]"
  by (induction xs arbitrary: cur) (auto simp: plain_def)

lemma csv_quoted:
  "csv_fields True cur (concat (quoted_calls name) @ quote_char # CHR '','' # rest)
    = (cur @ name) # csv_fields False [] rest"
  by (induction name arbitrary: cur) (auto simp: quoted_calls_def quote_char_def)

lemma csv_open: "csv_fields False [] (quote_char # s) = csv_fields True [] s"
  by simp

lemma csv_target:
  "csv_fields False [] (CHR ''t'' # CHR ''a'' # CHR ''r'' # CHR ''g'' # CHR ''e'' # CHR ''t'' # CHR '','' # rest)
    = ''target'' # csv_fields False [] rest"
  by (simp add: quote_char_def)

section \<open>Properties\<close>

text \<open>
  Reading a written row back with an RFC 4180 reader gives its fields, for every tensor
  name (commas, quotes and line feeds included) and both column layouts.
\<close>

theorem trace_row_roundtrip:
  "row_text ro seq (sc, r) = butlast (row_text ro seq (sc, r)) @ nl
    \<and> csv_fields False [] (butlast (row_text ro seq (sc, r))) = row_fields ro seq sc r"
proof -
  let ?tail = "if ro then '',target,'' @ dec_int (ts_request_id sc) @ '','' @ dec_int (ts_seq_id sc) @ '',''
      @ phase_name (ts_phase sc) @ '','' @ dec_int (ts_pos_min sc) @ '','' @ dec_int (ts_pos_max sc) else []"
  define body where "body = dec_word seq @ CHR '','' # dec_word (row_entry r) @ CHR '','' # dec_word (row_epoch r)
    @ CHR '','' # dec_int (row_rows r) @ CHR '','' # quote_char # concat (quoted_calls (row_name r)) @ quote_char
    # CHR '','' # dec_int (row_type r) @ CHR '','' # dec_word (row_expert r) @ CHR '','' # dec_word (row_stride r)
    @ CHR '','' # dec_word (row_offset r) @ CHR '','' # dec_word (row_bytes r) @ CHR '','' # dec_bool (row_hit r)
    @ CHR '','' # dec_bool (row_bypass r) @ ?tail"
  have row: "row_text ro seq (sc, r) = body @ nl"
    by (simp add: row_text_def row_calls_def body_def)
  have "csv_fields False [] body = row_fields ro seq sc r"
    by (cases ro) (simp_all add: body_def csv_plain csv_quoted csv_plain_end csv_target csv_open row_fields_def
        del: csv_fields.simps)
  with row show ?thesis by (simp add: nl_def)
qed

lemma trace_new_some:
  fixes f :: sink and limit :: u64 and ro :: bool
  assumes "\<not> sk_err f" and "sk_out f = []"
  defines "t \<equiv> trace_new (Some f) limit ro"
  shows "trace_ok t" and "\<not> tr_finished t" and "tr_request_only t = ro" and "tr_scope t = no_scope"
    and "tr_limit t = min limit trace_max_records" and "tr_written t = 0" and "tr_dropped t = 0"
    and "\<not> tr_error t \<Longrightarrow> trace_out t = trace_header ro"
proof -
  show "trace_ok t" unfolding t_def by (rule trace_new_ok) (use assms in auto)
qed (use assms in \<open>auto simp: trace_new_def Let_def case_prod_unfold trace_out_def sink_write_ok\<close>)

text \<open>
  C37. The trace is complete evidence or says that it is not. If no error is flagged once the
  trace is finished, the file is the header, the first \<open>limit\<close> rows asked for in scope, in
  order and numbered from 0, and a footer whose counts are exact; no read was reported
  incomplete. This holds for every pattern of output failures.
\<close>

theorem trace_clean_footer:
  assumes "\<not> sk_err f" and "sk_out f = []" and "Finish \<notin> set ops"
    and "run_ops trace_step (trace_new (Some f) limit ro) ops = Some t"
    and "\<not> tr_error (trace_finish t)"
    and "rows = scoped_rows ro no_scope ops" and "cap = unat (min limit trace_max_records)"
  shows "trace_out (trace_finish t)
      = trace_header ro @ rows_text ro 0 (take cap rows) @ trace_footer (tr_written t) (tr_dropped t) False
    \<and> unat (tr_written t) = min cap (length rows)
    \<and> tr_dropped t = of_nat (length rows - cap) \<and> count_incomplete ops = 0"
proof -
  note new = trace_new_some [OF assms(1,2), of limit ro]
  have fin: "\<not> tr_finished t"
    using trace_accounting_aux [OF new(1,2) assms(3,4)] by blast
  have err: "\<not> tr_error t" using trace_step_frame(3) [of t Finish "trace_finish t"] assms(5) by auto
  have "\<not> tr_error (trace_new (Some f) limit ro)"
    using run_ops_invariant [OF assms(4), of tr_error] trace_step_frame(3) err by blast
  note hd = new(8) [OF this]
  note rows = trace_rows_aux [OF new(1,2) assms(3,4) err]
  note acc = trace_accounting_aux [OF new(1,2) assms(3,4)]
  have out: "trace_out t = trace_header ro @ rows_text ro 0 (take cap rows)"
    and wr: "unat (tr_written t) = min cap (length rows)" and inc: "count_incomplete ops = 0"
    using rows hd new by (simp_all add: assms(6,7))
  have "tr_written t + tr_dropped t = of_nat (length rows)"
    using acc new inc by (simp add: assms(6))
  moreover have "tr_written t = of_nat (min cap (length rows))" by (simp flip: wr)
  ultimately have "tr_dropped t = of_nat (length rows) - of_nat (min cap (length rows))"
    by (metis add_diff_cancel_left')
  then have dr: "tr_dropped t = of_nat (length rows - cap)"
    by (cases "length rows \<le> cap") (simp_all add: of_nat_diff)
  have "trace_ok t" by (rule tw.run_keeps [OF new(1) assms(4)])
  with err obtain g where g: "tr_file t = Some g" "\<not> sk_err g" by (auto simp: trace_ok_def)
  have "trace_out (trace_finish t) = trace_out t @ trace_footer (tr_written t) (tr_dropped t) False"
    using assms(5) fin g err
    by (auto simp: trace_finish_def trace_out_def Let_def case_prod_unfold sink_flush_err sink_write_err sink_write_ok
        split: if_splits)
  with out wr dr inc show ?thesis by simp
qed

definition demo_sink :: sink where
  "demo_sink = \<lparr>sk_out = [], sk_err = False, sk_calls = 0, sk_plan = (\<lambda>_. None)\<rparr>"

definition demo_row :: trace_row where
  "demo_row = \<lparr>row_entry = 1, row_epoch = 2, row_rows = 3, row_name = ''blk.0'', row_type = 12, row_expert = 7,
     row_stride = 64, row_offset = 448, row_bytes = 64, row_hit = True, row_bypass = False\<rparr>"

lemma demo_sink_never_fails:
  "sk_plan (snd (sink_write g s)) = sk_plan g"
  "sk_plan g = (\<lambda>_. None) \<Longrightarrow> fst (sink_write g s)"
  by (simp_all add: sink_write_def split: option.splits)

lemma trace_clean_footer_witness:
  "\<exists>t. run_ops trace_step (trace_new (Some demo_sink) 5 False) [] = Some t \<and> \<not> tr_error (trace_finish t)
    \<and> trace_out (trace_finish t) = trace_header False @ trace_footer 0 0 False"
proof -
  let ?t = "trace_new (Some demo_sink) 5 False"
  have s: "\<not> sk_err demo_sink" "sk_out demo_sink = []" by (simp_all add: demo_sink_def)
  have e: "\<not> tr_error (trace_finish ?t)"
    by (simp add: trace_new_def trace_finish_def demo_sink_def sink_flush_def sink_write_def Let_def)
  from trace_clean_footer [OF s, of "[]" 5 False ?t, OF _ _ e] trace_new_some(6,7) [OF s, of 5 False] e
  show ?thesis by simp
qed

text \<open>
  Nothing in scope is lost silently: whatever fails, every in-scope record and every
  reported incomplete read is counted exactly once, as written or dropped, the written count
  stays within the limit of 100000 rows, and operations never rewrite what is in the file.
\<close>

theorem trace_accounts_for_every_row:
  assumes "\<And>f. file = Some f \<Longrightarrow> \<not> sk_err f" and "Finish \<notin> set ops"
  shows "\<exists>t. run_ops trace_step (trace_new file limit ro) ops = Some t
    \<and> tr_written t + tr_dropped t = of_nat (length (scoped_rows ro no_scope ops) + count_incomplete ops)
    \<and> unat (tr_written t) \<le> min (unat limit) 100000
    \<and> prefix (trace_out (trace_new file limit ro)) (trace_out t)"
proof -
  let ?t0 = "trace_new file limit ro"
  have ok: "trace_ok ?t0" using assms(1) by (rule trace_new_ok)
  obtain t where run: "run_ops trace_step ?t0 ops = Some t" using tw.run_defined [OF ok] by blast
  have t0: "\<not> tr_finished ?t0" "tr_written ?t0 = 0" "tr_dropped ?t0 = 0" "tr_request_only ?t0 = ro"
      "tr_scope ?t0 = no_scope" "tr_limit ?t0 = min limit trace_max_records"
    by (simp_all add: trace_new_def Let_def case_prod_unfold split: option.splits)
  from trace_accounting_aux [OF ok t0(1) assms(2) run] tw.run_bounded [OF ok run] tw.run_append_only [OF run] run
  show ?thesis by (intro exI [of _ t]) (simp add: t0 unat_min_word trace_max_records_def)
qed

lemma trace_accounts_for_every_row_witness:
  "\<exists>t. run_ops trace_step (trace_new (Some demo_sink) 1 False) [Record demo_row, Record demo_row, Incomplete] = Some t
    \<and> tr_written t + tr_dropped t = 3"
proof -
  have "\<not> sk_err demo_sink" by (simp add: demo_sink_def)
  with trace_accounts_for_every_row [of "Some demo_sink" "[Record demo_row, Record demo_row, Incomplete]" 1 False]
  show ?thesis by (auto simp: count_incomplete_def)
qed

end
