(* ===== verification/Moe_Ranges.thy ===== *)
theory Moe_Ranges
  imports Pin_Prelude
begin

text \<open>
  Byte ranges of expert tensors (the range helpers of \<open>ggml/src/ggml-moe-prefetch.cpp\<close>):
  which bytes of a weight tensor the selected experts occupy, the manifest prefix in its own
  order, the merged resident ranges of a tensor, their complement, and the splitting of a range
  into worker chunks. A range is a pair (offset, length) of 64-bit words, with the wrap-around
  of the code; \<open>covers\<close> reads a list of ranges as a set of byte offsets.

  A tensor is the record of the fields these functions read; \<open>tn_nbytes\<close> is the value of
  \<open>ggml_nbytes\<close> and \<open>tn_contiguous\<close> of \<open>ggml_is_contiguous\<close>, which belong to the ggml
  core. Host memory is a function from addresses to the 32-bit integer stored there.
\<close>

section \<open>Tensors\<close>

record ggml_tensor =
  tn_ptr :: u64
  tn_data :: u64
  tn_name :: string
  tn_type :: int
  tn_ne :: "nat \<Rightarrow> int"
  tn_nb :: "nat \<Rightarrow> u64"
  tn_nbytes :: u64
  tn_contiguous :: bool

type_synonym range = "u64 \<times> u64"
type_synonym memory = "u64 \<Rightarrow> int"

definition ids_at :: "memory \<Rightarrow> ggml_tensor \<Rightarrow> nat \<Rightarrow> nat \<Rightarrow> int" where
  "ids_at mem ids i1 i0 = mem (tn_data ids + of_nat i1 * tn_nb ids 1 + of_nat i0 * tn_nb ids 0)"

text \<open>The ids in the order of the two nested loops.\<close>

definition ids_list :: "memory \<Rightarrow> ggml_tensor \<Rightarrow> int list" where
  "ids_list mem ids =
     concat (map (\<lambda>i1. map (\<lambda>i0. ids_at mem ids i1 i0) [0..<nat (tn_ne ids 0)]) [0..<nat (tn_ne ids 1)])"

section \<open>Selected experts\<close>

text \<open>The bit set \<open>seen\<close> of \<open>collect_selected_ranges\<close>.\<close>

definition mark_bit :: "nat \<Rightarrow> u32 list \<Rightarrow> int \<Rightarrow> u32 list" where
  "mark_bit n_as seen eid =
     (if eid < 0 \<or> eid \<ge> int n_as then seen
      else let i = nat eid in seen[i div 32 := seen ! (i div 32) OR push_bit (i mod 32) 1])"

definition test_seen :: "u32 list \<Rightarrow> nat \<Rightarrow> bool" where
  "test_seen seen i = (seen ! (i div 32) AND push_bit (i mod 32) 1 \<noteq> 0)"

function scan :: "(nat \<Rightarrow> bool) \<Rightarrow> nat \<Rightarrow> nat \<Rightarrow> nat" where
  "scan P n i = (if i < n \<and> P i then scan P n (Suc i) else i)"
  by pat_completeness auto
termination
  by (relation "measure (\<lambda>(P, n, i). n - i)") auto

declare scan.simps [simp del]

lemma scan_ge: "i \<le> scan P n i"
  by (induction P n i rule: scan.induct) (subst scan.simps, auto)

lemma scan_all: "i \<le> j \<Longrightarrow> j < scan P n i \<Longrightarrow> P j \<and> j < n"
proof (induction P n i rule: scan.induct)
  case (1 P n i)
  show ?case
  proof (cases "i < n \<and> P i")
    case True
    then have "scan P n i = scan P n (Suc i)" by (simp add: scan.simps [of P n i])
    with True "1.IH" [OF True] "1.prems" show ?thesis by (cases "i = j") auto
  next
    case False
    then have "scan P n i = i" by (auto simp: scan.simps [of P n i])
    with "1.prems" show ?thesis by simp
  qed
qed

lemma scan_stop: "scan P n i < n \<Longrightarrow> \<not> P (scan P n i)"
proof (induction P n i rule: scan.induct)
  case (1 P n i)
  then show ?case by (cases "i < n \<and> P i") (auto simp: scan.simps [of P n i])
qed

lemma scan_le: "i \<le> n \<Longrightarrow> scan P n i \<le> n"
  by (induction P n i rule: scan.induct) (subst scan.simps, auto)

text \<open>Maximal runs \<open>[i, j)\<close> of consecutive ids that satisfy \<open>P\<close>: the coalescing loop.\<close>

function runs :: "(nat \<Rightarrow> bool) \<Rightarrow> nat \<Rightarrow> nat \<Rightarrow> (nat \<times> nat) list" where
  "runs P n i =
     (let first = scan (\<lambda>k. \<not> P k) n i in
      if first \<ge> n then []
      else let j = scan P n first in (first, j) # runs P n j)"
  by pat_completeness auto
termination
proof (relation "measure (\<lambda>(P, n, i). n - i)")
  fix P n i first j
  assume f: "first = scan (\<lambda>k. \<not> P k) n i" and lt: "\<not> n \<le> first" and j: "j = scan P n first"
  have "P first" using scan_stop [of "\<lambda>k. \<not> P k" n i] f lt by auto
  then have "first < j" using j lt scan_ge [of "Suc first" P n] by (simp add: scan.simps [of P n first])
  moreover have "i \<le> first" using f scan_ge by simp
  ultimately show "((P, n, j), (P, n, i)) \<in> measure (\<lambda>(P, n, i). n - i)" using lt by simp
qed simp

declare runs.simps [simp del]

definition run_range :: "u64 \<Rightarrow> u64 \<Rightarrow> nat \<times> nat \<Rightarrow> range list" where
  "run_range stride wbytes r =
     (let off = of_nat (fst r) * stride; len = min (of_nat (snd r - fst r) * stride) (wbytes - off)
      in if off < wbytes \<and> len > 0 then [(off, len)] else [])"

definition collect_selected_ranges :: "memory \<Rightarrow> ggml_tensor \<Rightarrow> ggml_tensor \<Rightarrow> range list" where
  "collect_selected_ranges mem w ids =
     (let n_as = nat (tn_ne w 2); stride = tn_nb w 2; wbytes = tn_nbytes w in
      if tn_ne w 2 \<le> 1 \<or> stride = 0 then [(0, wbytes)]
      else let seen = foldl (mark_bit n_as) (replicate ((n_as + 31) div 32) 0) (ids_list mem ids)
           in concat (map (run_range stride wbytes) (runs (test_seen seen) n_as 0)))"

section \<open>The manifest prefix\<close>

fun ordered_ranges :: "u64 \<Rightarrow> u64 \<Rightarrow> int \<Rightarrow> u32 list \<Rightarrow> range list option" where
  "ordered_ranges stride wbytes n_experts [] = Some []"
| "ordered_ranges stride wbytes n_experts (eid # rest) =
     (if uint eid \<ge> n_experts then None
      else let offset = ucast eid * stride in
        if offset \<ge> wbytes then None
        else let len = min stride (wbytes - offset) in
          if len = 0 then None
          else map_option (Cons (offset, len)) (ordered_ranges stride wbytes n_experts rest))"

definition collect_ordered_expert_ranges ::
    "ggml_tensor option \<Rightarrow> u32 list option \<Rightarrow> range list option" where
  "collect_ordered_expert_ranges w expert_ids =
     (case (w, expert_ids) of
        (Some w, Some ids) \<Rightarrow>
          if tn_data w = 0 \<or> ids = [] then None
          else if tn_ne w 2 \<le> 1 \<or> tn_nb w 2 = 0 then None
          else ordered_ranges (tn_nb w 2) (tn_nbytes w) (tn_ne w 2) ids
      | _ \<Rightarrow> None)"

section \<open>Merging and complement\<close>

text \<open>The accumulator holds the merged ranges with \<open>merged.back()\<close> at its head.\<close>

fun merge_ranges :: "range list \<Rightarrow> range list \<Rightarrow> range list" where
  "merge_ranges acc [] = rev acc"
| "merge_ranges [] (r # rs) = merge_ranges [r] rs"
| "merge_ranges ((a, l) # acc) ((b, m) # rs) =
     (if a + l < b then merge_ranges ((b, m) # (a, l) # acc) rs
      else merge_ranges ((a, max (a + l) (b + m) - a) # acc) rs)"

definition merged_resident :: "range list \<Rightarrow> range list" where
  "merged_resident ranges = merge_ranges [] (sort ranges)"

fun gaps :: "u64 \<Rightarrow> u64 \<Rightarrow> range list \<Rightarrow> range list" where
  "gaps wbytes cursor [] = (if cursor < wbytes then [(cursor, wbytes - cursor)] else [])"
| "gaps wbytes cursor ((a, l) # rs) =
     (let start = min a wbytes; stop = min (a + l) wbytes in
      (if cursor < start then [(cursor, start - cursor)] else []) @ gaps wbytes (max cursor stop) rs)"

definition collect_nonresident_ranges :: "range list option \<Rightarrow> ggml_tensor \<Rightarrow> range list" where
  "collect_nonresident_ranges resident w =
     gaps (tn_nbytes w) 0 (case resident of None \<Rightarrow> [] | Some rs \<Rightarrow> rs)"

section \<open>Chunks\<close>

definition prefetch_chunk :: u64 where
  "prefetch_chunk = 2 * 1024 * 1024"

text \<open>The inner loop of \<open>enqueue_ranges\<close>; \<open>None\<close> when the offset wraps and it never ends.\<close>

partial_function (option) chunk_loop :: "u64 \<Rightarrow> u64 \<Rightarrow> (u64 \<times> u64) list option" where
  "chunk_loop pos lim =
     (if pos < lim
      then Option.bind (chunk_loop (pos + prefetch_chunk) lim)
             (\<lambda>cs. Some ((pos, min prefetch_chunk (lim - pos)) # cs))
      else Some [])"

fun range_chunks :: "range list \<Rightarrow> (u64 \<times> u64) list option" where
  "range_chunks [] = Some []"
| "range_chunks ((a, l) # rs) =
     Option.bind (chunk_loop a (a + l)) (\<lambda>cs. Option.bind (range_chunks rs) (\<lambda>ds. Some (cs @ ds)))"

section \<open>Coverage\<close>

definition covers :: "range list \<Rightarrow> nat \<Rightarrow> bool" where
  "covers rs x \<longleftrightarrow> (\<exists>(a, l) \<in> set rs. unat a \<le> x \<and> x < unat a + unat l)"

definition in_space :: "range list \<Rightarrow> bool" where
  "in_space rs \<longleftrightarrow> (\<forall>(a, l) \<in> set rs. unat a + unat l < 2 ^ 64)"

lemma covers_simps [simp]:
  "\<not> covers [] x"
  "covers ((a, l) # rs) x \<longleftrightarrow> (unat a \<le> x \<and> x < unat a + unat l) \<or> covers rs x"
  "covers (rs @ rs') x \<longleftrightarrow> covers rs x \<or> covers rs' x"
  by (auto simp: covers_def)

lemma covers_set: "set rs = set rs' \<Longrightarrow> covers rs x = covers rs' x"
  by (simp add: covers_def)

lemma in_space_simps [simp]:
  "in_space []" "in_space ((a, l) # rs) \<longleftrightarrow> unat a + unat l < 2 ^ 64 \<and> in_space rs"
  by (auto simp: in_space_def)

text \<open>Disjoint, ascending and not adjacent: the shape of a merged list.\<close>

fun separated :: "range list \<Rightarrow> bool" where
  "separated ((a, l) # (b, m) # rs) \<longleftrightarrow> unat a + unat l < unat b \<and> separated ((b, m) # rs)"
| "separated _ \<longleftrightarrow> True"


section \<open>Lemmas\<close>

lemma runs_bounds: "(a, b) \<in> set (runs P n i) \<Longrightarrow> i \<le> a \<and> a < b \<and> b \<le> n"
proof (induction P n i rule: runs.induct)
  case (1 P n i)
  let ?f = "scan (\<lambda>k. \<not> P k) n i"
  show ?case
  proof (cases "n \<le> ?f")
    case True
    with "1.prems" show ?thesis by (simp add: runs.simps [of P n i])
  next
    case False
    let ?j = "scan P n ?f"
    have Pf: "P ?f" using False scan_stop [of "\<lambda>k. \<not> P k" n i] by auto
    have j: "?f < ?j" "?j \<le> n" "i \<le> ?f"
      using False Pf scan_ge [of "Suc ?f" P n] scan_le [of ?f n P] scan_ge [of i] by (auto simp: scan.simps [of P n ?f])
    from "1.prems" False have "(a, b) = (?f, ?j) \<or> (a, b) \<in> set (runs P n ?j)"
      by (simp add: runs.simps [of P n i] Let_def)
    with "1.IH" [OF refl False refl] j show ?thesis by fastforce
  qed
qed

lemma runs_cover:
  assumes "i \<le> k"
  shows "(\<exists>(a, b) \<in> set (runs P n i). a \<le> k \<and> k < b) \<longleftrightarrow> k < n \<and> P k"
  using assms
proof (induction P n i rule: runs.induct)
  case (1 P n i)
  let ?f = "scan (\<lambda>k. \<not> P k) n i"
  have skip: "\<not> P m" if "i \<le> m" "m < ?f" for m
    using scan_all [OF that] by simp
  show ?case
  proof (cases "n \<le> ?f")
    case True
    with skip "1.prems" show ?thesis by (auto simp: runs.simps [of P n i])
  next
    case False
    let ?j = "scan P n ?f"
    have inj: "P m \<and> m < n" if "?f \<le> m" "m < ?j" for m
      using scan_all [OF that] by simp
    have rs: "runs P n i = (?f, ?j) # runs P n ?j"
      using False by (simp add: runs.simps [of P n i] Let_def)
    show ?thesis
    proof (cases "k < ?j")
      case True
      then have "\<not> (\<exists>(a, b) \<in> set (runs P n ?j). a \<le> k \<and> k < b)"
        using runs_bounds by fastforce
      moreover have "?f \<le> k \<longleftrightarrow> k < n \<and> P k"
        using True inj [of k] skip [of k] "1.prems" by (cases "k < ?f") auto
      ultimately show ?thesis using True by (auto simp: rs)
    next
      case ge: False
      with "1.IH" [OF refl False refl] show ?thesis by (auto simp: rs)
    qed
  qed
qed

lemma test_seen_bit: "test_seen seen k \<longleftrightarrow> bit (seen ! (k div 32)) (k mod 32)"
  by (simp add: test_seen_def push_bit_eq_mult and_exp_eq_0_iff_not_bit)

lemma mark_bit_length [simp]: "length (mark_bit n seen e) = length seen"
  by (simp add: mark_bit_def Let_def)

lemma mark_bit_test:
  assumes "k < n" and "n \<le> 32 * length seen"
  shows "test_seen (mark_bit n seen e) k \<longleftrightarrow> test_seen seen k \<or> e = int k"
proof (cases "e < 0 \<or> int n \<le> e")
  case True
  with assms(1) show ?thesis by (auto simp: mark_bit_def)
next
  case False
  define i where "i = nat e"
  have e: "e = int i" "i < n" using False by (auto simp: i_def)
  have len: "k div 32 < length seen" using assms by auto
  have eq: "k = i \<longleftrightarrow> k div 32 = i div 32 \<and> k mod 32 = i mod 32" by (metis div_mult_mod_eq)
  have m: "mark_bit n seen e = seen[i div 32 := seen ! (i div 32) OR push_bit (i mod 32) 1]"
    using e by (simp add: mark_bit_def Let_def)
  show ?thesis
    unfolding m test_seen_bit using len eq e(1)
    by (cases "k div 32 = i div 32") (auto simp: nth_list_update bit_simps)
qed

lemma marks_test:
  assumes "k < n" and "n \<le> 32 * length seen"
  shows "test_seen (foldl (mark_bit n) seen es) k \<longleftrightarrow> test_seen seen k \<or> int k \<in> set es"
  using assms(2)
proof (induction es arbitrary: seen)
  case (Cons e es)
  then show ?case using mark_bit_test [OF assms(1), of seen e] by auto
qed simp

lemma test_seen_zero [simp]: "k < n \<Longrightarrow> \<not> test_seen (replicate ((n + 31) div 32) 0) k"
  by (subst test_seen_bit, subst nth_replicate) auto

lemma covers_run_range:
  assumes "i < j" and "j \<le> n" and "n * unat stride < 2 ^ 64" and "stride \<noteq> 0"
  shows "covers (run_range stride wbytes (i, j)) x \<longleftrightarrow> x < unat wbytes \<and> i \<le> x div unat stride \<and> x div unat stride < j"
proof -
  let ?S = "unat stride" and ?W = "unat wbytes"
  have S: "0 < ?S" using assms(4) by (simp add: unat_gt_0)
  have le: "i * ?S \<le> n * ?S" "(j - i) * ?S \<le> n * ?S" "n \<le> n * ?S"
    using assms(1,2) S by (simp_all add: mult_le_mono1)
  have small: "unat (of_nat i :: u64) = i" "unat (of_nat (j - i) :: u64) = j - i"
    by (rule unat_of_nat_u64, use le assms in linarith)+
  have off: "unat (of_nat i * stride) = i * ?S" and len: "unat (of_nat (j - i) * stride) = (j - i) * ?S"
    by (subst unat_mult_u64; (unfold small)?; use le assms(3) in linarith)+
  have ij: "i * ?S + (j - i) * ?S = j * ?S" using assms(1) by (metis add_mult_distrib le_add_diff_inverse less_imp_le)
  have dv: "i \<le> x div ?S \<longleftrightarrow> i * ?S \<le> x" "x div ?S < j \<longleftrightarrow> x < j * ?S"
    using S by (simp_all add: less_eq_div_iff_mult_less_eq div_less_iff_less_mult)
  show ?thesis
  proof (cases "i * ?S < ?W")
    case True
    then have lt: "of_nat i * stride < wbytes" by (simp add: word_less_nat_alt off)
    then have ml: "unat (min (of_nat (j - i) * stride) (wbytes - of_nat i * stride)) = min ((j - i) * ?S) (?W - i * ?S)"
      by (simp add: unat_min_word len off unat_sub_no_wrap less_imp_le)
    have "0 < (j - i) * ?S" using S assms(1) by simp
    with True ml have "min (of_nat (j - i) * stride) (wbytes - of_nat i * stride) > 0"
      by (metis min_less_iff_conj unat_gt_0 word_gt_0 zero_less_diff)
    with lt ml ij show ?thesis by (auto simp: run_range_def Let_def off dv)
  next
    case False
    then have "\<not> of_nat i * stride < wbytes" by (simp add: word_less_nat_alt off)
    with False show ?thesis by (auto simp: run_range_def Let_def dv)
  qed
qed

lemma covers_concat: "covers (concat (map f xs)) x \<longleftrightarrow> (\<exists>y \<in> set xs. covers (f y) x)"
  by (induction xs) auto

lemma selected_cover:
  assumes "1 < tn_ne w 2" and "tn_nb w 2 \<noteq> 0" and "nat (tn_ne w 2) * unat (tn_nb w 2) < 2 ^ 64"
  shows "covers (collect_selected_ranges mem w ids) x \<longleftrightarrow>
    x < unat (tn_nbytes w) \<and> x div unat (tn_nb w 2) < nat (tn_ne w 2) \<and> int (x div unat (tn_nb w 2)) \<in> set (ids_list mem ids)"
proof -
  let ?n = "nat (tn_ne w 2)" and ?S = "tn_nb w 2" and ?e = "x div unat (tn_nb w 2)"
  define seen where "seen = foldl (mark_bit ?n) (replicate ((?n + 31) div 32) 0) (ids_list mem ids)"
  have t: "test_seen seen k \<longleftrightarrow> int k \<in> set (ids_list mem ids)" if "k < ?n" for k
    unfolding seen_def using that by (subst marks_test) auto
  have "covers (collect_selected_ranges mem w ids) x \<longleftrightarrow>
      (\<exists>r \<in> set (runs (test_seen seen) ?n 0). covers (run_range ?S (tn_nbytes w) r) x)"
    using assms by (simp add: collect_selected_ranges_def Let_def seen_def covers_concat)
  also have "\<dots> \<longleftrightarrow> (\<exists>r \<in> set (runs (test_seen seen) ?n 0). x < unat (tn_nbytes w) \<and> fst r \<le> ?e \<and> ?e < snd r)"
  proof (intro bex_cong refl)
    fix r assume "r \<in> set (runs (test_seen seen) ?n 0)"
    then have "fst r < snd r" "snd r \<le> ?n" using runs_bounds [of "fst r" "snd r"] by auto
    from covers_run_range [OF this assms(3,2)]
    show "covers (run_range ?S (tn_nbytes w) r) x \<longleftrightarrow> x < unat (tn_nbytes w) \<and> fst r \<le> ?e \<and> ?e < snd r" by simp
  qed
  finally show ?thesis using runs_cover [of 0 ?e "test_seen seen" ?n] t by (auto simp: case_prod_unfold)
qed


lemma in_space_set: "in_space rs \<longleftrightarrow> (\<forall>r \<in> set rs. unat (fst r) + unat (snd r) < 2 ^ 64)"
  by (auto simp: in_space_def case_prod_unfold)

text \<open>\<open>separated\<close> read from the back, as the accumulator of the merge loop is.\<close>

fun rev_separated :: "range list \<Rightarrow> bool" where
  "rev_separated ((b, m) # (a, l) # rs) \<longleftrightarrow> unat a + unat l < unat b \<and> rev_separated ((a, l) # rs)"
| "rev_separated _ \<longleftrightarrow> True"

lemma separated_snoc: "separated (xs @ [(a, l), (b, m)]) \<longleftrightarrow> separated (xs @ [(a, l)]) \<and> unat a + unat l < unat b"
proof (induction xs)
  case (Cons x xs)
  then show ?case by (cases x; cases xs) auto
qed simp

lemma separated_rev: "separated (rev acc) \<longleftrightarrow> rev_separated acc"
  by (induction acc rule: rev_separated.induct) (auto simp: separated_snoc)

definition merge_acc_ok :: "range list \<Rightarrow> range list \<Rightarrow> bool" where
  "merge_acc_ok acc rs \<longleftrightarrow> in_space acc \<and> in_space rs \<and> sorted (map fst rs) \<and> rev_separated acc
     \<and> (\<forall>r \<in> set rs. \<forall>(a, l) \<in> set (take 1 acc). a \<le> fst r)"

lemma merge_joined:
  fixes a b l m :: u64
  assumes "unat a + unat l < 2 ^ 64" and "unat b + unat m < 2 ^ 64" and "a \<le> b" and "\<not> a + l < b"
  shows "unat (max (a + l) (b + m) - a) = max (unat a + unat l) (unat b + unat m) - unat a"
    and "unat b \<le> unat a + unat l"
proof -
  have u: "unat (a + l) = unat a + unat l" "unat (b + m) = unat b + unat m"
    using assms(1,2) by (simp_all add: unat_add_u64)
  have "a \<le> max (a + l) (b + m)" using assms(3) u by (simp add: word_le_nat_alt unat_max_word le_max_iff_disj)
  then show "unat (max (a + l) (b + m) - a) = max (unat a + unat l) (unat b + unat m) - unat a"
    by (simp add: unat_sub_no_wrap unat_max_word u)
  show "unat b \<le> unat a + unat l" using assms(4) u by (simp add: word_less_nat_alt)
qed

lemma merge_ranges_ok:
  assumes "merge_acc_ok acc rs"
  shows "separated (merge_ranges acc rs) \<and> in_space (merge_ranges acc rs)
    \<and> (\<forall>x. covers (merge_ranges acc rs) x \<longleftrightarrow> covers acc x \<or> covers rs x)"
  using assms
proof (induction acc rs rule: merge_ranges.induct)
  case (1 acc)
  then show ?case by (auto simp: merge_acc_ok_def separated_rev in_space_set covers_set [of "rev acc" acc])
next
  case (2 r rs)
  then have "merge_acc_ok [r] rs" by (cases r) (auto simp: merge_acc_ok_def)
  with "2.IH" show ?case by (cases r) auto
next
  case (3 a l acc b m rs)
  from "3.prems" have pre: "unat a + unat l < 2 ^ 64" "unat b + unat m < 2 ^ 64" "a \<le> b" "in_space acc" "in_space rs"
      "sorted (map fst rs)" "\<forall>r \<in> set rs. b \<le> fst r" "rev_separated ((a, l) # acc)"
    by (auto simp: merge_acc_ok_def)
  show ?case
  proof (cases "a + l < b")
    case True
    then have "unat a + unat l < unat b" using pre(1) by (simp add: word_less_nat_alt unat_add_u64)
    with pre have "merge_acc_ok ((b, m) # (a, l) # acc) rs" by (auto simp: merge_acc_ok_def)
    with "3.IH"(1) [OF True] True show ?thesis by auto
  next
    case False
    note j = merge_joined [OF pre(1,2,3) False]
    let ?l = "max (a + l) (b + m) - a"
    have stop: "unat a + unat ?l = max (unat a + unat l) (unat b + unat m)" using j by simp
    have "rev_separated ((a, ?l) # acc)" using pre(8) by (cases acc) auto
    moreover have "\<forall>r \<in> set rs. a \<le> fst r" using pre(3,7) by force
    moreover have "in_space ((a, ?l) # acc)" using pre(1,2,4) stop by simp
    ultimately have "merge_acc_ok ((a, ?l) # acc) rs" using pre by (simp add: merge_acc_ok_def)
    with "3.IH"(2) [OF False] False have IH: "separated (merge_ranges ((a, l) # acc) ((b, m) # rs))
        \<and> in_space (merge_ranges ((a, l) # acc) ((b, m) # rs))
        \<and> (\<forall>x. covers (merge_ranges ((a, l) # acc) ((b, m) # rs)) x \<longleftrightarrow> covers ((a, ?l) # acc) x \<or> covers rs x)"
      by simp
    have "covers ((a, ?l) # acc) x \<or> covers rs x \<longleftrightarrow> covers ((a, l) # acc) x \<or> covers ((b, m) # rs) x" for x
      using j(2) pre(3) by (auto simp: stop word_le_nat_alt)
    with IH show ?thesis by blast
  qed
qed

lemma merged_resident_ok:
  assumes "in_space rs"
  shows "separated (merged_resident rs) \<and> in_space (merged_resident rs)
    \<and> (\<forall>x. covers (merged_resident rs) x \<longleftrightarrow> covers rs x)"
proof -
  have "sorted (map fst xs)" if "sorted xs" for xs :: "range list"
    using that by (induction xs) (auto simp: less_eq_prod_def less_le)
  then have "merge_acc_ok [] (sort rs)" using assms by (simp add: merge_acc_ok_def in_space_set)
  from merge_ranges_ok [OF this] show ?thesis by (simp add: merged_resident_def covers_set [of "sort rs" rs])
qed

lemma separated_sorted: "separated rs \<Longrightarrow> sorted (map fst rs)"
proof (induction rs rule: separated.induct)
  case (1 a l b m rs)
  then have "a \<le> b" by (simp add: word_le_nat_alt)
  with 1 show ?case by auto
qed auto

lemma gaps_cover:
  assumes "sorted (map fst rs)" and "in_space rs"
  shows "covers (gaps wbytes cursor rs) x \<longleftrightarrow> unat cursor \<le> x \<and> x < unat wbytes \<and> \<not> covers rs x"
  using assms
proof (induction wbytes cursor rs rule: gaps.induct)
  case (1 wbytes cursor)
  then show ?case by (auto simp: word_less_nat_alt unat_sub_no_wrap word_le_nat_alt)
next
  case (2 wbytes cursor a l rs)
  let ?start = "min a wbytes" and ?stop = "min (a + l) wbytes"
  have al: "unat (a + l) = unat a + unat l" using "2.prems"(2) by (simp add: unat_add_u64)
  have later: "\<not> covers rs x" if "x < unat a"
  proof -
    have "unat a \<le> unat b" if "(b, m) \<in> set rs" for b m
      using "2.prems"(1) that by (auto simp: word_le_nat_alt)
    with that show ?thesis unfolding covers_def by fastforce
  qed
  have first: "covers (if cursor < ?start then [(cursor, ?start - cursor)] else []) x
      \<longleftrightarrow> unat cursor \<le> x \<and> x < unat a \<and> x < unat wbytes"
    by (auto simp: word_less_nat_alt unat_sub_no_wrap word_le_nat_alt unat_min_word)
  have IH: "covers (gaps wbytes (max cursor ?stop) rs) x
      \<longleftrightarrow> unat (max cursor ?stop) \<le> x \<and> x < unat wbytes \<and> \<not> covers rs x"
    using "2.IH" [of ?start ?stop] "2.prems" by simp
  have "covers (gaps wbytes cursor ((a, l) # rs)) x \<longleftrightarrow>
      (unat cursor \<le> x \<and> x < unat a \<and> x < unat wbytes)
      \<or> (unat (max cursor ?stop) \<le> x \<and> x < unat wbytes \<and> \<not> covers rs x)"
    unfolding gaps.simps Let_def covers_simps(3) first IH ..
  then show ?case using later by (auto simp: unat_max_word unat_min_word al)
qed

lemma ordered_ranges_spec:
  "ordered_ranges stride wbytes n es = Some rs \<Longrightarrow>
     rs = map (\<lambda>e. (ucast e * stride, min stride (wbytes - ucast e * stride))) es
     \<and> (\<forall>e \<in> set es. uint e < n \<and> ucast e * stride < wbytes) "
  by (induction stride wbytes n es arbitrary: rs rule: ordered_ranges.induct)
    (auto simp: Let_def not_le split: if_splits)

lemma chunk_loop_spec:
  assumes "unat lim + unat prefetch_chunk \<le> 2 ^ 64"
  shows "\<exists>cs. chunk_loop pos lim = Some cs
    \<and> concat (map (\<lambda>(a, l). [unat a..<unat a + unat l]) cs) = [unat pos..<unat lim]
    \<and> (\<forall>(a, l) \<in> set cs. 0 < l \<and> l \<le> prefetch_chunk)"
proof (induction "unat lim - unat pos" arbitrary: pos rule: less_induct)
  case less
  show ?case
  proof (cases "pos < lim")
    case False
    then show ?thesis by (subst chunk_loop.simps) (simp add: word_less_nat_alt)
  next
    case True
    let ?l = "min prefetch_chunk (lim - pos)"
    have sz: "unat prefetch_chunk = 2097152" by (simp add: prefetch_chunk_def)
    have nxt: "unat (pos + prefetch_chunk) = unat pos + unat prefetch_chunk"
      using assms True by (intro unat_add_u64) (simp add: word_less_nat_alt)
    have "unat lim - unat (pos + prefetch_chunk) < unat lim - unat pos"
      using True nxt sz by (simp add: word_less_nat_alt)
    from less [OF this] obtain cs where cs: "chunk_loop (pos + prefetch_chunk) lim = Some cs"
        "concat (map (\<lambda>(a, l). [unat a..<unat a + unat l]) cs) = [unat (pos + prefetch_chunk)..<unat lim]"
        "\<forall>(a, l) \<in> set cs. 0 < l \<and> l \<le> prefetch_chunk" by blast
    have l: "unat ?l = min 2097152 (unat lim - unat pos)"
      using True by (simp add: unat_min_word unat_sub_no_wrap less_imp_le sz)
    then have pos: "0 < ?l" using True by (simp add: word_less_nat_alt)
    have "[unat pos..<unat pos + unat ?l] @ [unat (pos + prefetch_chunk)..<unat lim] = [unat pos..<unat lim]"
    proof (cases "unat pos + 2097152 \<le> unat lim")
      case True
      then have "unat ?l = 2097152" by (simp add: l)
      with True show ?thesis by (simp only: nxt sz) (rule upt_join, simp_all)
    next
      case False
      then have "unat ?l = unat lim - unat pos" by (simp add: l)
      with False \<open>pos < lim\<close> show ?thesis by (simp add: nxt sz word_less_nat_alt)
    qed
    with True cs pos show ?thesis by (subst chunk_loop.simps) simp
  qed
qed


lemma range_chunks_spec:
  assumes "\<forall>(a, l) \<in> set rs. unat a + unat l + unat prefetch_chunk \<le> 2 ^ 64"
  shows "\<exists>cs. range_chunks rs = Some cs
    \<and> concat (map (\<lambda>(a, l). [unat a..<unat a + unat l]) cs) = concat (map (\<lambda>(a, l). [unat a..<unat a + unat l]) rs)
    \<and> (\<forall>(a, l) \<in> set cs. 0 < l \<and> l \<le> prefetch_chunk)"
  using assms
proof (induction rs rule: range_chunks.induct)
  case (2 a l rs)
  have "unat a + unat l < 2 ^ 64" using "2.prems" by (simp add: prefetch_chunk_def)
  then have al: "unat (a + l) = unat a + unat l" by (rule unat_add_u64)
  then have "unat (a + l) + unat prefetch_chunk \<le> 2 ^ 64" using "2.prems" by simp
  from chunk_loop_spec [OF this, of a] obtain cs where cs: "chunk_loop a (a + l) = Some cs"
      "concat (map (\<lambda>(a, l). [unat a..<unat a + unat l]) cs) = [unat a..<unat a + unat l]"
      "\<forall>(a, l) \<in> set cs. 0 < l \<and> l \<le> prefetch_chunk" by (auto simp: al)
  obtain ds where ds: "range_chunks rs = Some ds"
      "concat (map (\<lambda>(a, l). [unat a..<unat a + unat l]) ds) = concat (map (\<lambda>(a, l). [unat a..<unat a + unat l]) rs)"
      "\<forall>(a, l) \<in> set ds. 0 < l \<and> l \<le> prefetch_chunk"
    using "2.IH" [OF cs(1)] "2.prems" by auto
  show ?case using cs ds by (intro exI [of _ "cs @ ds"]) auto
qed simp

section \<open>Properties\<close>

text \<open>
  C17. The bytes the selective prefetch enqueues for a node are exactly the bytes of the experts
  the router selected: an offset is covered iff it is inside the tensor and the expert that owns
  it occurs among the ids (sentinels and ids out of range never count).
\<close>

theorem selected_ranges_exact:
  assumes "1 < tn_ne w 2" and "tn_nb w 2 \<noteq> 0" and "nat (tn_ne w 2) * unat (tn_nb w 2) < 2 ^ 64"
  shows "covers (collect_selected_ranges mem w ids) x \<longleftrightarrow>
    x < unat (tn_nbytes w) \<and> x div unat (tn_nb w 2) < nat (tn_ne w 2) \<and> int (x div unat (tn_nb w 2)) \<in> set (ids_list mem ids)"
  using assms by (rule selected_cover)

definition demo_weights :: ggml_tensor where
  "demo_weights = \<lparr>tn_ptr = 1, tn_data = 65536, tn_name = ''w'', tn_type = 0,
     tn_ne = (\<lambda>i. if i = 2 then 4 else 1), tn_nb = (\<lambda>i. if i = 2 then 16 else 4), tn_nbytes = 64, tn_contiguous = True\<rparr>"

definition demo_ids :: ggml_tensor where
  "demo_ids = \<lparr>tn_ptr = 2, tn_data = 4096, tn_name = ''ids'', tn_type = 0,
     tn_ne = (\<lambda>i. if i = 0 then 2 else 1), tn_nb = (\<lambda>i. if i = 0 then 4 else 8), tn_nbytes = 8, tn_contiguous = True\<rparr>"

definition demo_mem :: memory where
  "demo_mem a = (if a = 4096 then 3 else -1)"

lemma demo_ids_list: "ids_list demo_mem demo_ids = [3, -1]"
  by (simp add: ids_list_def ids_at_def demo_ids_def demo_mem_def upt_rec)

lemma selected_ranges_exact_witness:
  "covers (collect_selected_ranges demo_mem demo_weights demo_ids) 50 \<and> \<not> covers (collect_selected_ranges demo_mem demo_weights demo_ids) 40"
  using selected_ranges_exact [of demo_weights demo_mem demo_ids 50] selected_ranges_exact [of demo_weights demo_mem demo_ids 40]
  by (simp add: demo_ids_list) (simp add: demo_weights_def)

text \<open>
  Lookahead and the resident prefix split a tensor: once a set of ranges is registered as
  resident, merging keeps exactly their bytes (as separated ascending ranges), and the ranges the
  full-tensor lookahead enqueues cover exactly the other bytes of the tensor, so its later
  reclamation never touches a resident byte.
\<close>

theorem lookahead_is_complement:
  assumes "in_space ranges"
  shows "separated (merged_resident ranges) \<and> (\<forall>x. covers (merged_resident ranges) x = covers ranges x)
    \<and> (\<forall>x. covers (collect_nonresident_ranges (Some (merged_resident ranges)) w) x
          = (x < unat (tn_nbytes w) \<and> \<not> covers ranges x))"
proof -
  note m = merged_resident_ok [OF assms]
  then have "sorted (map fst (merged_resident ranges))" "in_space (merged_resident ranges)"
    using separated_sorted by blast+
  from gaps_cover [OF this, of "tn_nbytes w" 0] m show ?thesis
    by (simp add: collect_nonresident_ranges_def)
qed

lemma lookahead_is_complement_witness:
  "covers (merged_resident [(32, 16), (0, 16), (8, 16)]) 20
    \<and> \<not> covers (collect_nonresident_ranges (Some (merged_resident [(32, 16), (0, 16), (8, 16)])) demo_weights) 20
    \<and> covers (collect_nonresident_ranges (Some (merged_resident [(32, 16), (0, 16), (8, 16)])) demo_weights) 30"
  using lookahead_is_complement [of "[(32, 16), (0, 16), (8, 16)]" demo_weights]
  by (simp add: demo_weights_def)

text \<open>
  A manifest prefix that is accepted yields one range per listed expert in the manifest's own
  order, each the expert's slice inside the tensor; it is rejected as a whole otherwise.
\<close>

theorem manifest_ranges_in_order:
  assumes "collect_ordered_expert_ranges (Some w) (Some es) = Some rs"
  shows "rs = map (\<lambda>e. (ucast e * tn_nb w 2, min (tn_nb w 2) (tn_nbytes w - ucast e * tn_nb w 2))) es \<and> es \<noteq> []
    \<and> (\<forall>e \<in> set es. uint e < tn_ne w 2) \<and> (\<forall>(a, l) \<in> set rs. 0 < l \<and> unat a + unat l \<le> unat (tn_nbytes w))"
proof -
  have "ordered_ranges (tn_nb w 2) (tn_nbytes w) (tn_ne w 2) es = Some rs" and ne: "es \<noteq> []" "tn_nb w 2 \<noteq> 0"
    using assms by (auto simp: collect_ordered_expert_ranges_def split: if_splits)
  note spec = ordered_ranges_spec [OF this(1)]
  have "0 < l \<and> unat a + unat l \<le> unat (tn_nbytes w)" if "(a, l) \<in> set rs" for a l
  proof -
    from that spec obtain e where "e \<in> set es" and al: "a = ucast e * tn_nb w 2" "l = min (tn_nb w 2) (tn_nbytes w - a)"
      by auto
    with spec have "a < tn_nbytes w" by auto
    then have "unat (tn_nbytes w - a) = unat (tn_nbytes w) - unat a" by (simp add: unat_sub_no_wrap)
    with al(2) \<open>a < tn_nbytes w\<close> ne(2) show ?thesis by (auto simp: word_less_nat_alt word_le_nat_alt unat_min_word unat_gt_0 min_def)
  qed
  with spec ne(1) show ?thesis by blast
qed

lemma manifest_ranges_in_order_witness:
  "collect_ordered_expert_ranges (Some demo_weights) (Some [3, 1]) = Some [(48, 16), (16, 16)]
    \<and> list_all (\<lambda>e. uint e < tn_ne demo_weights 2) [3, 1 :: u32]"
proof -
  have c: "collect_ordered_expert_ranges (Some demo_weights) (Some [3, 1]) = Some [(48, 16), (16, 16)]"
    by (simp add: collect_ordered_expert_ranges_def demo_weights_def)
  with manifest_ranges_in_order [OF c] show ?thesis by (simp only: list_all_iff) blast
qed

text \<open>
  Splitting ranges into worker chunks terminates and loses nothing: below the last two
  megabytes of the address space the loop returns, the chunks are at most two megabytes, none is
  empty, and read in order they enumerate exactly the bytes of the ranges.
\<close>

theorem chunks_partition:
  assumes "\<forall>(a, l) \<in> set rs. unat a + unat l + 2097152 \<le> 2 ^ 64"
  shows "\<exists>cs. range_chunks rs = Some cs
    \<and> concat (map (\<lambda>(a, l). [unat a..<unat a + unat l]) cs) = concat (map (\<lambda>(a, l). [unat a..<unat a + unat l]) rs)
    \<and> (\<forall>(a, l) \<in> set cs. 0 < l \<and> l \<le> prefetch_chunk)"
  using range_chunks_spec [of rs] assms by (simp add: prefetch_chunk_def)

lemma chunks_partition_witness:
  "\<exists>cs. range_chunks [(64, 5000000)] = Some cs
    \<and> list_all (\<lambda>(a, l). 0 < l \<and> l \<le> prefetch_chunk) cs"
proof -
  have "\<forall>(a, l) \<in> set [(64, 5000000) :: range]. unat a + unat l + 2097152 \<le> 2 ^ 64" by simp
  from chunks_partition [OF this] show ?thesis by (simp only: list_all_iff) blast
qed

end
