(* ===== verification/Host_Os.thy ===== *)
theory Host_Os
  imports Moe_Trace Moe_Ranges
begin

text \<open>
  The operating system and C library as the prefetch engine and the trace modules use them:
  a record of functions over an abstract state \<open>'o\<close>. Every theorem quantifies over it, so
  nothing is assumed of the kernel beyond the types below. \<open>mincore\<close> and \<open>fopen\<close> may
  fail (\<open>None\<close>); the bytes \<open>mincore\<close> stores are a function from the page index.
\<close>

datatype advice = Madv_Willneed | Madv_Populate_Read | Madv_Cold

record 'o host =
  os_page :: u64
  os_mincore :: "'o \<Rightarrow> u64 \<Rightarrow> u64 \<Rightarrow> (nat \<Rightarrow> u8) option"
  os_madvise :: "'o \<Rightarrow> u64 \<Rightarrow> u64 \<Rightarrow> advice \<Rightarrow> bool \<times> 'o"
  os_mmap :: "'o \<Rightarrow> u64 \<Rightarrow> u64 option \<times> 'o"
  os_munmap :: "'o \<Rightarrow> u64 \<Rightarrow> u64 \<Rightarrow> 'o"
  os_getenv :: "string \<Rightarrow> string option"
  os_fopen :: "'o \<Rightarrow> string \<Rightarrow> sink option \<times> 'o"
  os_fclose :: "'o \<Rightarrow> sink \<Rightarrow> 'o"
  os_now :: "'o \<Rightarrow> u64"

text \<open>\<open>addr & ~(uintptr_t)(page - 1)\<close> and the page count \<open>(alen + page - 1)/page\<close>.\<close>

definition page_floor :: "u64 \<Rightarrow> u64 \<Rightarrow> u64" where
  "page_floor page addr = (addr AND NOT (page - 1))"

definition page_count :: "u64 \<Rightarrow> u64 \<Rightarrow> u64" where
  "page_count page alen = (alen + page - 1) div page"

definition all_pages_in :: "(nat \<Rightarrow> u8) \<Rightarrow> u64 \<Rightarrow> bool" where
  "all_pages_in vec n = list_all (\<lambda>i. vec i AND 1 \<noteq> 0) [0..<unat n]"

text \<open>A path from the environment, absent or empty when tracing is off.\<close>

definition env_path :: "'o host \<Rightarrow> string \<Rightarrow> string option" where
  "env_path os name = (case os_getenv os name of None \<Rightarrow> None | Some p \<Rightarrow> if p = [] then None else Some p)"

lemma page_floor_le: "page_floor page addr \<le> addr"
  unfolding page_floor_def by (rule word_and_le2)

text \<open>A page size is a power of two, as POSIX systems guarantee.\<close>

definition pow2_page :: "u64 \<Rightarrow> bool" where
  "pow2_page page = (\<exists>k < 63. page = 2 ^ k)"

lemma page_floor_mask: "k < 64 \<Longrightarrow> page_floor (2 ^ k) a = (a AND NOT (mask k))"
  by (simp add: page_floor_def mask_eq_decr_exp)

lemma page_floor_idem: "page_floor page (page_floor page a) = page_floor page a"
  by (simp add: page_floor_def and.assoc)

lemma page_floor_unat:
  assumes "k < 64"
  shows "unat (page_floor (2 ^ k) a) = unat a - unat a mod 2 ^ k"
proof -
  have "a = (a AND NOT (mask k)) + (a AND mask k)" proof -
    have "(a AND NOT (mask k)) AND (a AND mask k) = 0" by (rule bit_word_eqI) (auto simp: bit_simps)
    then have "(a AND NOT (mask k)) + (a AND mask k) = (a AND NOT (mask k)) OR (a AND mask k)"
      by (rule disjunctive_add_eq_or)
    also have "\<dots> = a" by (rule bit_word_eqI) (auto simp: bit_simps)
    finally show ?thesis by simp
  qed
  moreover have "unat (a AND mask k) = unat a mod 2 ^ k" 
    by (simp only: take_bit_eq_mask [symmetric] unsigned_take_bit_eq) (simp only: take_bit_eq_mod)
  ultimately show ?thesis using page_floor_le [of "2 ^ k" a] assms
    by (metis add_diff_cancel_left' diff_diff_cancel page_floor_mask unat_sub word_and_le2 add.commute add_diff_cancel_right')
qed

end
