(* ===== verification/Gpu_Trace.thy ===== *)
theory Gpu_Trace
  imports Host_Os
begin

text \<open>
  The request-scoped GPU expert trace (\<open>ggml/src/ggml-moe-gpu-trace.h\<close> and
  \<open>.cpp\<close>): a front end of the CSV trace that reads the routed ids of a node through a reader
  callback, checks everything it is given, and gives up for good on the first doubt. The reader
  is a parameter: it may be absent, fail, or fill the buffer (a function from the index).
\<close>

record ggml_moe_gpu_trace =
  gt_csv :: ggml_moe_trace
  gt_budget :: u64
  gt_entries :: u64
  gt_entry :: u64
  gt_epoch :: u64
  gt_active :: bool
  gt_stopped :: bool

type_synonym ids_reader = "ggml_tensor \<Rightarrow> u64 \<Rightarrow> u64 \<Rightarrow> (nat \<Rightarrow> int) option"

definition max_ids_bytes :: u64 where "max_ids_bytes = 64 * 1024"
definition max_total_ids_bytes :: u64 where "max_total_ids_bytes = 64 * 1024 * 1024"
definition gpu_max_entries :: u64 where "gpu_max_entries = 100000"
definition ggml_type_i32 :: int where "ggml_type_i32 = 26"
definition ggml_type_count :: int where "ggml_type_count = 400"
definition size_max :: u64 where "size_max = 18446744073709551615"

definition gpu_trace_new :: "sink option \<Rightarrow> u64 \<Rightarrow> u64 \<Rightarrow> u64 \<Rightarrow> ggml_moe_gpu_trace" where
  "gpu_trace_new file records read_budget entries =
     \<lparr>gt_csv = trace_new file records True, gt_budget = min read_budget max_total_ids_bytes,
      gt_entries = min entries gpu_max_entries, gt_entry = 0, gt_epoch = 0, gt_active = False, gt_stopped = False\<rparr>"

definition gpu_set_scope :: "ggml_moe_gpu_trace \<Rightarrow> ggml_moe_trace_scope \<Rightarrow> ggml_moe_gpu_trace" where
  "gpu_set_scope g scope =
     (let active = (ts_phase scope \<ge> 1 \<and> ts_phase scope \<le> 3 \<and> ts_request_id scope \<ge> 0 \<and> ts_seq_id scope \<ge> 0);
          scope' = (if \<not> active then scope\<lparr>ts_phase := 0\<rparr> else scope)
      in g\<lparr>gt_active := active, gt_csv := trace_set_scope (gt_csv g) scope',
           gt_epoch := (if active then gt_epoch g + 1 else gt_epoch g)\<rparr>)"

definition gpu_finish :: "ggml_moe_gpu_trace \<Rightarrow> ggml_moe_gpu_trace" where
  "gpu_finish g = g\<lparr>gt_csv := trace_finish (gt_csv g)\<rparr>"

definition valid_weight :: "ggml_tensor option \<Rightarrow> bool" where
  "valid_weight w = (case w of None \<Rightarrow> False | Some w \<Rightarrow>
     tn_ne w 0 > 0 \<and> tn_ne w 1 > 0 \<and> tn_ne w 2 > 0 \<and> tn_ne w 3 = 1 \<and>
     tn_type w \<ge> 0 \<and> tn_type w < ggml_type_count \<and> tn_contiguous w \<and>
     tn_nb w 2 > 0 \<and> of_int (tn_ne w 2) \<le> size_max div tn_nb w 2)"

definition gpu_reject :: "ggml_moe_gpu_trace \<Rightarrow> ggml_moe_gpu_trace" where
  "gpu_reject g = g\<lparr>gt_csv := trace_incomplete (gt_csv g), gt_stopped := True\<rparr>"

text \<open>The checks on the ids tensor before anything is read; \<open>Some\<close> the row size in bytes.\<close>

definition ids_row_bytes :: "ggml_tensor option \<Rightarrow> (ggml_tensor \<times> u64) option" where
  "ids_row_bytes ids = (case ids of None \<Rightarrow> None | Some ids \<Rightarrow>
     if tn_data ids = 0 \<or> tn_type ids \<noteq> ggml_type_i32 \<or> tn_ne ids 0 \<le> 0 \<or> tn_ne ids 1 \<le> 0 \<or>
        tn_ne ids 2 \<noteq> 1 \<or> tn_ne ids 3 \<noteq> 1 \<or> tn_nb ids 0 \<noteq> 4 \<or>
        (of_int (tn_ne ids 0) :: u64) > max_ids_bytes div 4
     then None
     else let row = of_int (tn_ne ids 0) * 4 :: u64; n1 = of_int (tn_ne ids 1) :: u64 in
       if n1 > max_ids_bytes div row \<or> tn_nb ids 1 < row \<or>
          (n1 > 1 \<and> tn_nb ids 1 > (size_max - row) div (of_int (tn_ne ids 1 - 1)))
       then None else Some (ids, row))"

definition id_rejected :: "ggml_tensor \<Rightarrow> ggml_tensor option \<Rightarrow> int \<Rightarrow> bool" where
  "id_rejected w0 w1 i \<longleftrightarrow>
     i < -1 \<or> (i \<ge> 0 \<and> (i \<ge> tn_ne w0 2 \<or> (case w1 of None \<Rightarrow> False | Some w \<Rightarrow> i \<ge> tn_ne w 2)))"

definition distinct_sorted :: "int list \<Rightarrow> int list" where
  "distinct_sorted xs = remdups_adj (sort xs)"

definition gpu_row :: "u64 \<Rightarrow> u64 \<Rightarrow> int \<Rightarrow> ggml_tensor \<Rightarrow> int \<Rightarrow> trace_row" where
  "gpu_row entry epoch rows w i =
     \<lparr>row_entry = entry, row_epoch = epoch, row_rows = rows, row_name = tn_name w, row_type = tn_type w,
      row_expert = of_int i, row_stride = tn_nb w 2, row_offset = of_int i * tn_nb w 2,
      row_bytes = tn_nb w 2, row_hit = False, row_bypass = True\<rparr>"

fun record_rows :: "ggml_moe_trace \<Rightarrow> trace_row list \<Rightarrow> ggml_moe_trace option" where
  "record_rows t [] = Some t"
| "record_rows t (r # rs) = (case trace_record t r of None \<Rightarrow> None | Some t' \<Rightarrow> record_rows t' rs)"

text \<open>The loop over \<open>{w0, w1}\<close>.\<close>

fun record_weights ::
  "ggml_moe_gpu_trace \<Rightarrow> int list \<Rightarrow> int \<Rightarrow> ggml_tensor option list \<Rightarrow> ggml_moe_gpu_trace option" where
  "record_weights g selected rows [] = Some g"
| "record_weights g selected rows (None # ws) = record_weights g selected rows ws"
| "record_weights g selected rows (Some w # ws) =
     (case record_rows (gt_csv g)
             (map (gpu_row (gt_entry g) (gt_epoch g) rows w) (filter (\<lambda>i. \<not> i < 0) selected)) of
        None \<Rightarrow> None
      | Some csv \<Rightarrow> record_weights (g\<lparr>gt_csv := csv, gt_entry := gt_entry g + 1\<rparr>) selected rows ws)"

definition gpu_record ::
  "ggml_moe_gpu_trace \<Rightarrow> ggml_tensor option \<Rightarrow> ggml_tensor option \<Rightarrow> ggml_tensor option \<Rightarrow> ids_reader option
    \<Rightarrow> ggml_moe_gpu_trace option" where
  "gpu_record g w0 w1 ids reader =
     (if \<not> gt_active g then Some g
      else if gt_stopped g \<or> trace_remaining (gt_csv g) = 0
        then Some (g\<lparr>gt_csv := trace_incomplete (gt_csv g), gt_stopped := True\<rparr>)
      else if gt_entries g = 0 then Some (gpu_reject g)
      else let g = g\<lparr>gt_entries := gt_entries g - 1\<rparr> in
        case ids_row_bytes ids of None \<Rightarrow> Some (gpu_reject g)
        | Some (ids, row) \<Rightarrow>
            let n1 = of_int (tn_ne ids 1) :: u64; bytes = row * n1 in
            if bytes > gt_budget g \<or> \<not> valid_weight w0 \<or> (w1 \<noteq> None \<and> \<not> valid_weight w1)
            then Some (gpu_reject g)
            else let g = g\<lparr>gt_budget := gt_budget g - bytes\<rparr> in
              case (case reader of None \<Rightarrow> None | Some rd \<Rightarrow> rd ids row n1) of
                None \<Rightarrow> Some (gpu_reject g)
              | Some buf \<Rightarrow>
                  let selected = map buf [0..<unat (bytes div 4)] in
                  if list_ex (id_rejected (the w0) w1) selected then Some (gpu_reject g)
                  else record_weights g (distinct_sorted selected) (tn_ne ids 1) [w0, w1])"

section \<open>The process-wide trace\<close>

definition gpu_state_new :: "'o host \<Rightarrow> 'o \<Rightarrow> ggml_moe_gpu_trace option \<times> 'o" where
  "gpu_state_new os o1 = (case env_path os ''GGML_MOE_GPU_TRACE_FILE'' of
       None \<Rightarrow> (None, o1)
     | Some path \<Rightarrow> (case os_fopen os o1 path of
           (None, o2) \<Rightarrow> (None, o2)
         | (Some f, o2) \<Rightarrow> (Some (gpu_trace_new (Some f) trace_max_records max_total_ids_bytes gpu_max_entries), o2)))"

definition gpu_state_delete :: "'o host \<Rightarrow> 'o \<Rightarrow> ggml_moe_gpu_trace option \<Rightarrow> 'o" where
  "gpu_state_delete os o1 st = (case st of None \<Rightarrow> o1 | Some g \<Rightarrow>
     (case tr_file (gt_csv (gpu_finish g)) of None \<Rightarrow> o1 | Some f \<Rightarrow> os_fclose os o1 f))"

definition ggml_moe_gpu_trace_enabled :: "ggml_moe_gpu_trace option \<Rightarrow> bool" where
  "ggml_moe_gpu_trace_enabled st = (st \<noteq> None)"

definition ggml_moe_gpu_trace_set_scope ::
  "ggml_moe_gpu_trace option \<Rightarrow> ggml_moe_trace_scope \<Rightarrow> ggml_moe_gpu_trace option" where
  "ggml_moe_gpu_trace_set_scope st scope = map_option (\<lambda>g. gpu_set_scope g scope) st"

definition ggml_moe_gpu_trace_record ::
  "ggml_moe_gpu_trace option \<Rightarrow> ggml_tensor option \<Rightarrow> ggml_tensor option \<Rightarrow> ggml_tensor option \<Rightarrow> ids_reader option
    \<Rightarrow> ggml_moe_gpu_trace option option" where
  "ggml_moe_gpu_trace_record st w0 w1 ids reader = (case st of None \<Rightarrow> Some None | Some g \<Rightarrow>
     (case gpu_record g w0 w1 ids reader of None \<Rightarrow> None | Some g' \<Rightarrow> Some (Some g')))"


section \<open>Fail closed\<close>

datatype gpu_op = G_Scope ggml_moe_trace_scope
  | G_Record "ggml_tensor option" "ggml_tensor option" "ggml_tensor option" "ids_reader option"
  | G_Finish

fun gpu_step :: "ggml_moe_gpu_trace \<Rightarrow> gpu_op \<Rightarrow> ggml_moe_gpu_trace option" where
  "gpu_step g (G_Scope s) = Some (gpu_set_scope g s)"
| "gpu_step g (G_Record w0 w1 ids reader) = gpu_record g w0 w1 ids reader"
| "gpu_step g G_Finish = Some (gpu_finish g)"

definition gpu_ok :: "ggml_moe_gpu_trace \<Rightarrow> bool" where
  "gpu_ok g \<longleftrightarrow> trace_ok (gt_csv g)"

text \<open>Every operation acts on the CSV trace by a sequence of its operations.\<close>

lemma record_rows_ops: "record_rows t rs = run_ops trace_step t (map Record rs)"
  by (induction rs arbitrary: t) (auto split: option.splits)

lemma record_weights_ops:
  "record_weights g sel n ws = Some g' \<Longrightarrow> \<exists>ops. run_ops trace_step (gt_csv g) ops = Some (gt_csv g')"
proof (induction g sel n ws rule: record_weights.induct)
  case (1 g sel n)
  then show ?case by (auto intro: exI [of _ "[]"])
next
  case (3 g sel n w ws)
  from "3.prems" obtain csv where csv: "record_rows (gt_csv g)
      (map (gpu_row (gt_entry g) (gt_epoch g) n w) (filter (\<lambda>i. \<not> i < 0) sel)) = Some csv"
    and rest: "record_weights (g\<lparr>gt_csv := csv, gt_entry := gt_entry g + 1\<rparr>) sel n ws = Some g'"
    by (auto split: option.splits)
  from "3.IH" [OF csv rest] obtain ops where "run_ops trace_step csv ops = Some (gt_csv g')" by auto
  with csv show ?case unfolding record_rows_ops by (metis option.simps(5) run_ops_append)
qed simp

lemma record_weights_frame:
  "record_weights g sel n ws = Some g' \<Longrightarrow> gt_stopped g' = gt_stopped g"
  by (induction g sel n ws rule: record_weights.induct) (auto split: option.splits)

lemma record_weights_defined: "trace_ok (gt_csv g) \<Longrightarrow> \<exists>g'. record_weights g sel n ws = Some g'"
proof (induction g sel n ws rule: record_weights.induct)
  case (3 g sel n w ws)
  let ?ops = "map Record (map (gpu_row (gt_entry g) (gt_epoch g) n w) (filter (\<lambda>i. \<not> i < 0) sel))"
  from tw.run_defined [OF 3(2), of ?ops] obtain csv where
    "run_ops trace_step (gt_csv g) ?ops = Some csv" "trace_ok csv" by blast
  then show ?case using "3.IH" [of csv] by (simp add: record_rows_ops)
qed simp_all

lemma trace_incomplete_ops: "run_ops trace_step t [Incomplete] = Some (trace_incomplete t)"
  by simp

lemma gpu_record_ops:
  assumes "gpu_record g w0 w1 ids reader = Some g'"
  shows "\<exists>ops. run_ops trace_step (gt_csv g) ops = Some (gt_csv g')"
proof -
  have inc: "\<exists>ops. run_ops trace_step t ops = Some (trace_incomplete t)" for t
    using trace_incomplete_ops by blast
  have nil: "\<exists>ops. run_ops trace_step t ops = Some t" for t by (rule exI [of _ "[]"]) simp
  show ?thesis using assms
    by (auto simp: gpu_record_def gpu_reject_def Let_def inc nil dest!: record_weights_ops
        split: if_splits option.splits prod.splits)
qed

lemma gpu_step_ops: "gpu_step g x = Some g' \<Longrightarrow> \<exists>ops. run_ops trace_step (gt_csv g) ops = Some (gt_csv g')"
proof (cases x)
  case (G_Scope s)
  then show "gpu_step g x = Some g' \<Longrightarrow> ?thesis"
    by (auto simp: gpu_set_scope_def Let_def intro: exI [of _ "[Set_Scope (if _ then _ else _)]"]
        exI [of _ "[Set_Scope _]"])
next
  case G_Finish
  then show "gpu_step g x = Some g' \<Longrightarrow> ?thesis"
    by (auto simp: gpu_finish_def intro: exI [of _ "[Finish]"])
qed (use gpu_record_ops in simp)

lemma gpu_step_defined: "gpu_ok g \<Longrightarrow> \<exists>g'. gpu_step g x = Some g'"
  by (cases x) (auto simp: gpu_ok_def gpu_record_def Let_def split: if_splits option.splits prod.splits
      intro!: record_weights_defined)

interpretation gw: evidence_writer gpu_step gpu_ok "\<lambda>g. trace_out (gt_csv g)"
  "\<lambda>g. unat (tr_written (gt_csv g))" "\<lambda>g. unat (tr_limit (gt_csv g))"
proof unfold_locales
  fix s x s'
  show "\<exists>s'. gpu_step s x = Some s'" if "gpu_ok s" using gpu_step_defined [OF that] .
  show "unat (tr_written (gt_csv s)) \<le> unat (tr_limit (gt_csv s))" if "gpu_ok s"
    using that tw.bounded by (simp add: gpu_ok_def)
  assume st: "gpu_step s x = Some s'"
  from gpu_step_ops [OF st] obtain ops where ops: "run_ops trace_step (gt_csv s) ops = Some (gt_csv s')" by blast
  show "gpu_ok s'" if "gpu_ok s" using tw.run_keeps [OF _ ops] that by (simp add: gpu_ok_def)
  show "unat (tr_limit (gt_csv s')) = unat (tr_limit (gt_csv s))" using tw.run_limit [OF ops] .
  show "prefix (trace_out (gt_csv s)) (trace_out (gt_csv s'))" using tw.run_append_only [OF ops] .
qed

text \<open>A trace in error, or finished, writes no further row.\<close>

definition trace_dead :: "ggml_moe_trace \<Rightarrow> bool" where
  "trace_dead t \<longleftrightarrow> tr_error t \<or> tr_finished t"

lemma trace_dead_step:
  "trace_step t x = Some t' \<Longrightarrow> trace_dead t \<Longrightarrow> trace_dead t' \<and> tr_written t' = tr_written t"
proof (cases x)
  case Finish
  have "tr_written (trace_finish t) = tr_written t"
    by (simp add: trace_finish_def Let_def case_prod_unfold split: option.split)
  moreover have "tr_finished (trace_finish t)"
    by (simp add: trace_finish_def Let_def case_prod_unfold split: option.split)
  ultimately show "trace_step t x = Some t' \<Longrightarrow> trace_dead t \<Longrightarrow> ?thesis"
    using Finish by (auto simp: trace_dead_def)
next
  case (Record r)
  then show "trace_step t x = Some t' \<Longrightarrow> trace_dead t \<Longrightarrow> ?thesis"
    by (auto simp: trace_dead_def trace_record_def split: if_splits option.splits)
qed (auto simp: trace_dead_def trace_set_scope_def trace_incomplete_def)

lemma trace_dead_run:
  assumes "run_ops trace_step t ops = Some t'" and "trace_dead t"
  shows "trace_dead t' \<and> tr_written t' = tr_written t"
  by (rule run_ops_invariant [OF assms(1), where P = "\<lambda>u. trace_dead u \<and> tr_written u = tr_written t"])
    (use assms(2) trace_dead_step in auto)

definition stop_ok :: "ggml_moe_gpu_trace \<Rightarrow> bool" where
  "stop_ok g \<longleftrightarrow> (gt_stopped g \<longrightarrow> trace_dead (gt_csv g))"

lemma incomplete_dead: "trace_dead (trace_incomplete t)"
  by (simp add: trace_dead_def trace_incomplete_def)

lemma gpu_record_stop:
  assumes "gpu_record g w0 w1 ids reader = Some g'" and "stop_ok g"
  shows "stop_ok g'" and "gt_stopped g \<Longrightarrow> gt_stopped g'"
  using assms by (auto simp: gpu_record_def stop_ok_def gpu_reject_def Let_def incomplete_dead
      dest!: record_weights_frame split: if_splits option.splits)

lemma gpu_step_stop:
  assumes "gpu_step g x = Some g'" and "stop_ok g"
  shows "stop_ok g' \<and> (gt_stopped g \<longrightarrow> gt_stopped g')"
proof (cases x)
  case (G_Record w0 w1 ids reader)
  with assms gpu_record_stop [of g w0 w1 ids reader g'] show ?thesis by auto
qed (use assms in \<open>auto simp: stop_ok_def gpu_set_scope_def gpu_finish_def Let_def trace_dead_def
       trace_set_scope_def trace_finish_def case_prod_unfold split: option.splits\<close>)

lemma gpu_run_stop:
  assumes "run_ops gpu_step g ops = Some g'" and "stop_ok g"
  shows "stop_ok g' \<and> (gt_stopped g \<longrightarrow> gt_stopped g')"
  by (rule run_ops_invariant [OF assms(1), where P = "\<lambda>u. stop_ok u \<and> (gt_stopped g \<longrightarrow> gt_stopped u)"])
    (use assms(2) gpu_step_stop in auto)

lemma gpu_run_dead:
  assumes "run_ops gpu_step g ops = Some g'" and "trace_dead (gt_csv g)"
  shows "trace_dead (gt_csv g') \<and> tr_written (gt_csv g') = tr_written (gt_csv g)"
  by (rule run_ops_invariant [OF assms(1),
        where P = "\<lambda>u. trace_dead (gt_csv u) \<and> tr_written (gt_csv u) = tr_written (gt_csv g)"])
    (use assms(2) gpu_step_ops trace_dead_run in \<open>auto, metis+\<close>)

lemma gpu_new_ok:
  "\<not> sk_err f \<Longrightarrow> gpu_ok (gpu_trace_new (Some f) n b k)" "stop_ok (gpu_trace_new file n b k)"
  by (auto simp: gpu_ok_def gpu_trace_new_def stop_ok_def intro: trace_new_ok)

section \<open>What one record hands to the CSV trace\<close>

definition tensor_i64 :: "ggml_tensor \<Rightarrow> bool" where
  "tensor_i64 t \<longleftrightarrow> (\<forall>i < 4. - (2 ^ 63) \<le> tn_ne t i \<and> tn_ne t i < 2 ^ 63)"

lemma tensor_i64D: "tensor_i64 t \<Longrightarrow> i < 4 \<Longrightarrow> tn_ne t i < 2 ^ 64"
  unfolding tensor_i64_def by force

lemma unat_of_int_u64: "0 \<le> i \<Longrightarrow> i < 2 ^ 64 \<Longrightarrow> unat (of_int i :: u64) = nat i"
  by (simp add: unat_eq_nat_uint uint_word_of_int)

lemma ids_row_bytes_ok:
  assumes "ids_row_bytes ids = Some (t, row)" and "\<forall>t. ids = Some t \<longrightarrow> tensor_i64 t"
  shows "ids = Some t" and "0 < tn_ne t 0" and "0 < tn_ne t 1" and "row = of_int (tn_ne t 0) * 4"
    and "unat (row * of_int (tn_ne t 1)) = 4 * nat (tn_ne t 0) * nat (tn_ne t 1)"
    and "4 * nat (tn_ne t 0) * nat (tn_ne t 1) \<le> 65536"
proof -
  show ids: "ids = Some t" and n0: "0 < tn_ne t 0" and n1: "0 < tn_ne t 1"
    using assms(1) by (auto simp: ids_row_bytes_def Let_def split: option.splits if_splits)
  from ids assms(2) have i64: "tensor_i64 t" by simp
  then have b: "tn_ne t 0 < 2 ^ 64" "tn_ne t 1 < 2 ^ 64" using tensor_i64D by simp_all
  let ?n0 = "of_int (tn_ne t 0) :: u64" and ?n1 = "of_int (tn_ne t 1) :: u64"
  have u: "unat ?n0 = nat (tn_ne t 0)" "unat ?n1 = nat (tn_ne t 1)"
    using b n0 n1 by (simp_all add: unat_of_int_u64)
  from assms(1) ids have row: "row = ?n0 * 4" and c0: "?n0 \<le> max_ids_bytes div 4"
    and c1: "?n1 \<le> max_ids_bytes div row"
    by (auto simp: ids_row_bytes_def Let_def not_less split: if_splits)
  then show "row = of_int (tn_ne t 0) * 4" by simp
  have k0: "nat (tn_ne t 0) \<le> 16384"
    using c0 by (simp add: max_ids_bytes_def word_le_nat_alt unat_div u)
  then have r: "unat row = 4 * nat (tn_ne t 0)"
    unfolding row by (subst unat_mult_no_wrap) (simp_all add: u)
  have "nat (tn_ne t 1) \<le> 65536 div (4 * nat (tn_ne t 0))"
    using c1 by (simp add: max_ids_bytes_def word_le_nat_alt unat_div u r del: One_nat_def)
  then have "nat (tn_ne t 1) * (4 * nat (tn_ne t 0)) \<le> 65536"
    using n0 by (subst (asm) less_eq_div_iff_mult_less_eq) simp_all
  then show le: "4 * nat (tn_ne t 0) * nat (tn_ne t 1) \<le> 65536" by (simp add: algebra_simps)
  show "unat (row * ?n1) = 4 * nat (tn_ne t 0) * nat (tn_ne t 1)"
    by (subst unat_mult_no_wrap) (use le in \<open>simp_all add: u r algebra_simps del: One_nat_def\<close>)
qed

lemma distinct_remdups_adj_sorted: "sorted xs \<Longrightarrow> distinct (remdups_adj xs)" for xs :: "int list"
  by (induction xs rule: remdups_adj.induct) (auto simp: less_le)

lemma distinct_sorted_props:
  "set (distinct_sorted xs) = set xs" "sorted (distinct_sorted xs)" "distinct (distinct_sorted xs)"
  by (simp_all add: distinct_sorted_def distinct_remdups_adj_sorted)

lemma slice_in_tensor:
  assumes "valid_weight (Some w)" and "tensor_i64 w" and "0 \<le> i" and "i < tn_ne w 2"
  shows "unat (of_int i * tn_nb w 2) = nat i * unat (tn_nb w 2)"
    and "nat i * unat (tn_nb w 2) + unat (tn_nb w 2) \<le> nat (tn_ne w 2) * unat (tn_nb w 2)"
    and "nat (tn_ne w 2) * unat (tn_nb w 2) < 2 ^ 64"
proof -
  have b: "tn_ne w 2 < 2 ^ 64" "0 < tn_ne w 2"
    using assms(1) tensor_i64D [OF assms(2), of 2] by (simp_all add: valid_weight_def)
  have nz: "0 < unat (tn_nb w 2)" using assms(1) by (simp add: valid_weight_def word_less_nat_alt)
  have "of_int (tn_ne w 2) \<le> size_max div tn_nb w 2" using assms(1) by (simp add: valid_weight_def)
  then have "nat (tn_ne w 2) \<le> (2 ^ 64 - 1) div unat (tn_nb w 2)"
    using b by (simp add: word_le_nat_alt unat_div unat_of_int_u64 size_max_def)
  then have m: "nat (tn_ne w 2) * unat (tn_nb w 2) \<le> 2 ^ 64 - 1"
    using nz by (subst (asm) less_eq_div_iff_mult_less_eq) simp_all
  then show "nat (tn_ne w 2) * unat (tn_nb w 2) < 2 ^ 64" by simp
  have "Suc (nat i) \<le> nat (tn_ne w 2)" using assms(3,4) by simp
  then have "Suc (nat i) * unat (tn_nb w 2) \<le> nat (tn_ne w 2) * unat (tn_nb w 2)" by (rule mult_le_mono1)
  then show le: "nat i * unat (tn_nb w 2) + unat (tn_nb w 2) \<le> nat (tn_ne w 2) * unat (tn_nb w 2)" by simp
  show "unat (of_int i * tn_nb w 2) = nat i * unat (tn_nb w 2)"
    by (subst unat_mult_no_wrap) (use le m assms(3,4) b in \<open>simp_all add: unat_of_int_u64\<close>)
qed

definition gpu_selected :: "(nat \<Rightarrow> int) \<Rightarrow> ggml_tensor \<Rightarrow> int list" where
  "gpu_selected buf ids = map buf [0..<nat (tn_ne ids 0) * nat (tn_ne ids 1)]"

text \<open>The rows of one weight: its listed experts.\<close>

definition weight_rows :: "u64 \<Rightarrow> u64 \<Rightarrow> int \<Rightarrow> int list \<Rightarrow> ggml_tensor \<Rightarrow> trace_row list" where
  "weight_rows entry epoch n sel w = map (gpu_row entry epoch n w) (filter (\<lambda>i. \<not> i < 0) sel)"

definition pair_rows ::
  "ggml_moe_gpu_trace \<Rightarrow> int \<Rightarrow> int list \<Rightarrow> ggml_tensor \<Rightarrow> ggml_tensor option \<Rightarrow> trace_row list" where
  "pair_rows g n sel w0 w1 = weight_rows (gt_entry g) (gt_epoch g) n sel w0
     @ (case w1 of None \<Rightarrow> [] | Some w \<Rightarrow> weight_rows (gt_entry g + 1) (gt_epoch g) n sel w)"

text \<open>A row names an existing expert of the tensor and its slice, computed without wrapping.\<close>

definition slice_row :: "ggml_tensor \<Rightarrow> int \<Rightarrow> trace_row \<Rightarrow> bool" where
  "slice_row w i r \<longleftrightarrow> 0 \<le> i \<and> i < tn_ne w 2 \<and> row_expert r = of_int i \<and> row_name r = tn_name w
     \<and> unat (row_offset r) = nat i * unat (tn_nb w 2)
     \<and> unat (row_offset r) + unat (row_bytes r) \<le> nat (tn_ne w 2) * unat (tn_nb w 2)
     \<and> nat (tn_ne w 2) * unat (tn_nb w 2) < 2 ^ 64"

lemma record_rows_append:
  "record_rows t (xs @ ys) = (case record_rows t xs of None \<Rightarrow> None | Some t' \<Rightarrow> record_rows t' ys)"
  by (induction xs arbitrary: t) (auto split: option.splits)

lemma record_weights_rows:
  "record_weights g sel n [Some w0, w1] = Some g' \<Longrightarrow> record_rows (gt_csv g) (pair_rows g n sel w0 w1) = Some (gt_csv g')"
  by (cases w1) (auto simp: pair_rows_def weight_rows_def record_rows_append split: option.splits)

lemma gpu_record_accepts:
  assumes "gpu_record g w0 w1 ids reader = Some g'" and "gt_active g" and "\<not> gt_stopped g'"
    and "\<forall>t. ids = Some t \<longrightarrow> tensor_i64 t"
  obtains t v buf where "ids = Some t" "w0 = Some v" "valid_weight w0" "w1 = None \<or> valid_weight w1"
    "\<exists>rd. reader = Some rd \<and> rd t (of_int (tn_ne t 0) * 4) (of_int (tn_ne t 1)) = Some buf"
    "list_all (\<lambda>i. \<not> id_rejected v w1 i) (gpu_selected buf t)"
    "record_rows (gt_csv g) (pair_rows g (tn_ne t 1) (distinct_sorted (gpu_selected buf t)) v w1) = Some (gt_csv g')"
    "4 * nat (tn_ne t 0) * nat (tn_ne t 1) \<le> 65536"
proof -
  have rej: "gt_stopped (gpu_reject x)" for x by (simp add: gpu_reject_def)
  from assms(1,2,3) obtain t row rd buf where ids: "ids_row_bytes ids = Some (t, row)"
    and v0: "valid_weight w0" and v1: "w1 = None \<or> valid_weight w1" and rd: "reader = Some rd"
      "rd t row (of_int (tn_ne t 1)) = Some buf"
    and sel: "\<not> list_ex (id_rejected (the w0) w1) (map buf [0..<unat (row * of_int (tn_ne t 1) div 4)])"
    and rec: "record_weights (g\<lparr>gt_entries := gt_entries g - 1, gt_budget := gt_budget g - row * of_int (tn_ne t 1)\<rparr>)
       (distinct_sorted (map buf [0..<unat (row * of_int (tn_ne t 1) div 4)])) (tn_ne t 1) [w0, w1] = Some g'"
    by (auto simp: gpu_record_def Let_def rej split: if_splits option.splits prod.splits)
  note ok = ids_row_bytes_ok [OF ids assms(4)]
  have n: "map buf [0..<unat (row * of_int (tn_ne t 1) div 4)] = gpu_selected buf t"
    by (simp add: gpu_selected_def unat_div ok(5) del: One_nat_def)
  from v0 obtain v where v: "w0 = Some v" by (cases w0) (auto simp: valid_weight_def)
  have "record_rows (gt_csv g) (pair_rows g (tn_ne t 1) (distinct_sorted (gpu_selected buf t)) v w1) = Some (gt_csv g')"
    using record_weights_rows [OF rec [unfolded n v]] by (cases w1) (simp_all add: pair_rows_def)
  moreover have "list_all (\<lambda>i. \<not> id_rejected v w1 i) (gpu_selected buf t)"
    using sel unfolding n v by (simp add: list_all_iff list_ex_iff)
  ultimately show ?thesis using that [OF ok(1) v v0 v1 _ _ _ ok(6)] rd ok(4) by blast
qed

section \<open>Properties\<close>

text \<open>
  A GPU trace record that is not rejected hands the CSV trace one row per weight and distinct
  routed expert, in ascending expert order, with the pruned-expert sentinel -1 left out; each
  row's expert exists and its byte range lies inside the weight without wrapping.
\<close>

theorem gpu_record_rows_sound:
  assumes "gpu_record g w0 w1 ids reader = Some g'" and "gt_active g" and "\<not> gt_stopped g'"
    and "\<forall>t. t \<in> {w0, w1, ids} \<and> t \<noteq> None \<longrightarrow> tensor_i64 (the t)"
  shows "\<exists>t rd buf rows. ids = Some t \<and> reader = Some rd
    \<and> rd t (of_int (tn_ne t 0) * 4) (of_int (tn_ne t 1)) = Some buf
    \<and> record_rows (gt_csv g) rows = Some (gt_csv g')
    \<and> map row_expert rows = map of_int (filter (\<lambda>i. 0 \<le> i) (distinct_sorted (gpu_selected buf t)))
        @ (if w1 = None then [] else map of_int (filter (\<lambda>i. 0 \<le> i) (distinct_sorted (gpu_selected buf t))))
    \<and> (\<forall>r \<in> set rows. \<exists>w i. w \<in> {w0, w1} \<and> w \<noteq> None \<and> i \<in> set (gpu_selected buf t) \<and> slice_row (the w) i r)"
proof -
  have "\<forall>t. ids = Some t \<longrightarrow> tensor_i64 t" using assms(4) by auto
  from gpu_record_accepts [OF assms(1-3) this] obtain t v buf where a: "ids = Some t" "w0 = Some v"
    "valid_weight w0" "w1 = None \<or> valid_weight w1"
    "\<exists>rd. reader = Some rd \<and> rd t (of_int (tn_ne t 0) * 4) (of_int (tn_ne t 1)) = Some buf"
    "list_all (\<lambda>i. \<not> id_rejected v w1 i) (gpu_selected buf t)"
    "record_rows (gt_csv g) (pair_rows g (tn_ne t 1) (distinct_sorted (gpu_selected buf t)) v w1) = Some (gt_csv g')"
    by metis
  let ?rows = "pair_rows g (tn_ne t 1) (distinct_sorted (gpu_selected buf t)) v w1"
  have row: "\<exists>i. i \<in> set (gpu_selected buf t) \<and> slice_row w i r"
    if r: "r \<in> set (weight_rows e ep n (distinct_sorted (gpu_selected buf t)) w)" and w: "Some w \<in> {w0, w1}" for r e ep n w
  proof -
    from r obtain i where i: "i \<in> set (gpu_selected buf t)" "0 \<le> i" "r = gpu_row e ep n w i"
      by (auto simp: weight_rows_def distinct_sorted_props)
    with a(6) w a(2) have lt: "i < tn_ne w 2" by (auto simp: list_all_iff id_rejected_def)
    have "valid_weight (Some w)" "tensor_i64 w" using a(3,4) w assms(4) by auto
    from slice_in_tensor [OF this i(2) lt] i lt show ?thesis by (auto simp: gpu_row_def slice_row_def)
  qed
  have "map row_expert ?rows = map of_int (filter (\<lambda>i. 0 \<le> i) (distinct_sorted (gpu_selected buf t)))
        @ (if w1 = None then [] else map of_int (filter (\<lambda>i. 0 \<le> i) (distinct_sorted (gpu_selected buf t))))"
    by (auto simp: pair_rows_def weight_rows_def gpu_row_def comp_def not_less split: option.splits)
  moreover have "\<forall>r \<in> set ?rows. \<exists>w i. w \<in> {w0, w1} \<and> w \<noteq> None \<and> i \<in> set (gpu_selected buf t) \<and> slice_row (the w) i r"
  proof
    fix r assume "r \<in> set ?rows"
    then obtain w e where "Some w \<in> {w0, w1}"
      "r \<in> set (weight_rows e (gt_epoch g) (tn_ne t 1) (distinct_sorted (gpu_selected buf t)) w)"
      using a(2) by (auto simp: pair_rows_def split: option.splits)
    from row [OF this(2,1)] this(1) show "\<exists>w i. w \<in> {w0, w1} \<and> w \<noteq> None \<and> i \<in> set (gpu_selected buf t) \<and> slice_row (the w) i r"
      by (metis option.distinct(1) option.sel)
  qed
  ultimately show ?thesis using a(1,2,5,7) by blast
qed

text \<open>
  C38. The GPU trace fails closed: however it is driven, once a record has been rejected no later
  operation writes another row, and the CSV trace is in error or already finished.
\<close>

theorem gpu_trace_fails_closed:
  assumes "run_ops gpu_step (gpu_trace_new file records budget entries) ops = Some g" and "gt_stopped g"
    and "run_ops gpu_step g later = Some g'"
  shows "gt_stopped g' \<and> tr_written (gt_csv g') = tr_written (gt_csv g)
    \<and> (tr_error (gt_csv g') \<or> tr_finished (gt_csv g'))"
proof -
  have st: "stop_ok g" using gpu_run_stop [OF assms(1) gpu_new_ok(2)] by simp
  then have "trace_dead (gt_csv g)" using assms(2) by (simp add: stop_ok_def)
  from gpu_run_dead [OF assms(3) this] gpu_run_stop [OF assms(3) st] assms(2) show ?thesis
    by (simp add: trace_dead_def)
qed

definition demo_gpu :: ggml_moe_gpu_trace where
  "demo_gpu = gpu_set_scope (gpu_trace_new (Some demo_sink) 100 4096 10)
     \<lparr>ts_request_id = 7, ts_seq_id = 0, ts_phase = 2, ts_pos_min = 5, ts_pos_max = 5\<rparr>"

definition demo_gpu_ids :: ggml_tensor where
  "demo_gpu_ids = \<lparr>tn_ptr = 1, tn_data = 64, tn_name = ''ids'', tn_type = 26,
     tn_ne = (\<lambda>i. if i = 0 then 4 else 1), tn_nb = (\<lambda>i. if i = 0 then 4 else 16), tn_nbytes = 16, tn_contiguous = True\<rparr>"

definition demo_gpu_weight :: ggml_tensor where
  "demo_gpu_weight = \<lparr>tn_ptr = 2, tn_data = 4096, tn_name = ''w'', tn_type = 8,
     tn_ne = (\<lambda>i. if i = 2 then 8 else if i = 3 then 1 else 4), tn_nb = (\<lambda>i. 16), tn_nbytes = 128, tn_contiguous = True\<rparr>"

definition demo_reader :: ids_reader where
  "demo_reader t row n = Some (\<lambda>i. if i = 0 then 3 else if i = 1 then -1 else if i = 2 then 1 else 3)"

lemma demo_gpu_i64: "t = demo_gpu_ids \<or> t = demo_gpu_weight \<Longrightarrow> tensor_i64 t"
  by (auto simp: tensor_i64_def demo_gpu_ids_def demo_gpu_weight_def)

lemma demo_gpu_csv:
  "gt_csv demo_gpu = trace_set_scope (trace_new (Some demo_sink) 100 True)
     \<lparr>ts_request_id = 7, ts_seq_id = 0, ts_phase = 2, ts_pos_min = 5, ts_pos_max = 5\<rparr>"
  by (simp add: demo_gpu_def gpu_set_scope_def gpu_trace_new_def Let_def)

lemma demo_gpu_active: "gt_active demo_gpu" "\<not> gt_stopped demo_gpu" "gt_entries demo_gpu = 10" "gt_budget demo_gpu = 4096"
  by (simp_all add: demo_gpu_def gpu_set_scope_def gpu_trace_new_def Let_def max_total_ids_bytes_def gpu_max_entries_def)

lemma demo_gpu_ready: "trace_ok (gt_csv demo_gpu)" "trace_remaining (gt_csv demo_gpu) = 100" "tr_written (gt_csv demo_gpu) = 0"
proof -
  have ok: "fst (sink_write demo_sink s)" for s by (rule demo_sink_never_fails) (simp add: demo_sink_def)
  show "trace_remaining (gt_csv demo_gpu) = 100" "tr_written (gt_csv demo_gpu) = 0"
    using ok by (simp_all add: demo_gpu_csv trace_remaining_def trace_set_scope_def trace_new_def Let_def
        case_prod_unfold trace_max_records_def)
  have "trace_ok (trace_new (Some demo_sink) 100 True)" by (rule trace_new_ok) (auto simp: demo_sink_def)
  then show "trace_ok (gt_csv demo_gpu)" by (simp add: demo_gpu_csv trace_set_scope_def trace_ok_def)
qed

lemma demo_gpu_record: "\<exists>g'. gpu_record demo_gpu (Some demo_gpu_weight) None (Some demo_gpu_ids) (Some demo_reader) = Some g'
    \<and> \<not> gt_stopped g'"
proof -
  have row: "ids_row_bytes (Some demo_gpu_ids) = Some (demo_gpu_ids, 16)"
    by (simp add: ids_row_bytes_def demo_gpu_ids_def ggml_type_i32_def max_ids_bytes_def size_max_def)
  have w: "valid_weight (Some demo_gpu_weight)"
    by (simp add: valid_weight_def demo_gpu_weight_def ggml_type_count_def size_max_def)
  let ?g = "demo_gpu\<lparr>gt_entries := 9, gt_budget := 4080\<rparr>"
  have n1: "tn_ne demo_gpu_ids 1 = 1" by (simp add: demo_gpu_ids_def)
  have buf: "demo_reader demo_gpu_ids 16 1 = Some b \<Longrightarrow> map b [0..<4] = [3, -1, 1, 3]" for b
    by (auto simp: demo_reader_def upt_rec)
  have rej: "\<not> id_rejected demo_gpu_weight None 3" "\<not> id_rejected demo_gpu_weight None (-1)"
    "\<not> id_rejected demo_gpu_weight None 1"
    by (simp_all add: id_rejected_def demo_gpu_weight_def)
  obtain b where b: "demo_reader demo_gpu_ids 16 1 = Some b" by (simp add: demo_reader_def)
  from record_weights_defined [of ?g "distinct_sorted [3, -1, 1, 3]" 1 "[Some demo_gpu_weight, None]"]
  obtain g' where g': "record_weights ?g (distinct_sorted [3, -1, 1, 3]) 1 [Some demo_gpu_weight, None] = Some g'"
    using demo_gpu_ready(1) by auto
  have "\<not> gt_stopped g'" using record_weights_frame [OF g'] demo_gpu_active(2) by simp
  moreover have "gpu_record demo_gpu (Some demo_gpu_weight) None (Some demo_gpu_ids) (Some demo_reader) = Some g'"
    using g' by (simp add: gpu_record_def demo_gpu_active demo_gpu_ready row w Let_def n1 b buf [OF b] rej del: One_nat_def record_weights.simps)
  ultimately show ?thesis by blast
qed

lemma gpu_record_rows_sound_witness:
  "\<exists>g' rows. gpu_record demo_gpu (Some demo_gpu_weight) None (Some demo_gpu_ids) (Some demo_reader) = Some g'
    \<and> record_rows (gt_csv demo_gpu) rows = Some (gt_csv g') \<and> map row_expert rows = [1, 3]"
proof -
  from demo_gpu_record obtain g' where
    g': "gpu_record demo_gpu (Some demo_gpu_weight) None (Some demo_gpu_ids) (Some demo_reader) = Some g'" "\<not> gt_stopped g'"
    by blast
  have "\<forall>t. t \<in> {Some demo_gpu_weight, None, Some demo_gpu_ids} \<and> t \<noteq> None \<longrightarrow> tensor_i64 (the t)"
    using demo_gpu_i64 by auto
  from gpu_record_rows_sound [OF g'(1) demo_gpu_active(1) g'(2) this] obtain buf rows where
    "demo_reader demo_gpu_ids (of_int (tn_ne demo_gpu_ids 0) * 4) (of_int (tn_ne demo_gpu_ids 1)) = Some buf"
    and r: "record_rows (gt_csv demo_gpu) rows = Some (gt_csv g')"
    and m: "map row_expert rows = map of_int (filter (\<lambda>i. 0 \<le> i) (distinct_sorted (gpu_selected buf demo_gpu_ids)))"
    by force
  then have "buf = (\<lambda>i. if i = 0 then 3 else if i = 1 then -1 else if i = 2 then 1 else 3)" by (simp add: demo_reader_def)
  then have "gpu_selected buf demo_gpu_ids = [3, -1, 1, 3]" by (simp add: gpu_selected_def demo_gpu_ids_def upt_rec)
  then have "map row_expert rows = [1, 3]" using m by (simp add: distinct_sorted_def)
  with g'(1) r show ?thesis by (intro exI conjI)
qed

lemma gpu_trace_fails_closed_witness:
  "\<exists>g'. run_ops gpu_step (gpu_trace_new (Some demo_sink) 100 4096 10)
      [G_Scope \<lparr>ts_request_id = 7, ts_seq_id = 0, ts_phase = 2, ts_pos_min = 5, ts_pos_max = 5\<rparr>,
       G_Record None None None None, G_Finish] = Some g' \<and> tr_written (gt_csv g') = 0"
proof -
  let ?ops = "[G_Scope \<lparr>ts_request_id = 7, ts_seq_id = 0, ts_phase = 2, ts_pos_min = 5, ts_pos_max = 5\<rparr>,
    G_Record None None None None]"
  let ?g = "gpu_reject (demo_gpu\<lparr>gt_entries := 9\<rparr>)"
  have r: "gpu_record demo_gpu None None None None = Some ?g"
    by (simp add: gpu_record_def demo_gpu_active demo_gpu_ready ids_row_bytes_def)
  then have run: "run_ops gpu_step (gpu_trace_new (Some demo_sink) 100 4096 10) ?ops = Some ?g"
    by (simp add: demo_gpu_def)
  have st: "gt_stopped ?g" by (simp add: gpu_reject_def)
  have fin: "run_ops gpu_step ?g [G_Finish] = Some (gpu_finish ?g)" by simp
  have "tr_written (gt_csv (gpu_finish ?g)) = tr_written (gt_csv ?g)"
    using gpu_trace_fails_closed [OF run st fin] by simp
  moreover have "tr_written (gt_csv ?g) = 0"
    using demo_gpu_ready(3) by (simp add: gpu_reject_def trace_incomplete_def)
  ultimately show ?thesis using r by (simp add: demo_gpu_def)
qed

end
