(* ===== verification/Cuda_Transfer_Trace.thy ===== *)
theory Cuda_Transfer_Trace
  imports Host_Os
begin

text \<open>
  The CUDA transfer trace (\<open>ggml/src/ggml-cuda-transfer-trace.h\<close> and \<open>.cpp\<close>): a writer of
  one CSV row per host/device copy. A ticket taken before the copy snapshots the request and
  bounds the rows in flight. Rows are composed in a buffer of 1024 bytes; the theory proves that
  none is ever truncated.
\<close>

section \<open>State\<close>

record ggml_cuda_transfer_ticket =
  ct_active :: bool
  ct_id :: u64
  ct_scope :: ggml_moe_trace_scope

definition no_ticket :: ggml_cuda_transfer_ticket where
  "no_ticket = \<lparr>ct_active = False, ct_id = 0, ct_scope = no_scope\<rparr>"

datatype ggml_cuda_host_kind = Host_Unknown | Host_Pageable | Host_Pinned | Host_Device | Host_Managed

text \<open>A null tensor name is \<open>None\<close>. The \<open>int\<close> fields are 32-bit, the counters 64-bit.\<close>

record ggml_cuda_transfer_event =
  ev_tensor_name :: "string option"
  ev_offset :: u64
  ev_size :: u64
  ev_device :: int
  ev_h2d :: bool
  ev_synchronous :: bool
  ev_host_kind :: ggml_cuda_host_kind
  ev_pointer_status :: int
  ev_copy_status :: int
  ev_sync_status :: int
  ev_start_ns :: u64
  ev_copy_wall_ns :: u64
  ev_sync_wall_ns :: u64

record ggml_cuda_transfer_writer =
  cw_file :: "sink option"
  cw_limit :: u64
  cw_admitted :: u64
  cw_written :: u64
  cw_dropped :: u64
  cw_api_errors :: u64
  cw_pointer_errors :: u64
  cw_io_errors :: u64
  cw_scope :: ggml_moe_trace_scope

definition cuda_max_records :: u64 where "cuda_max_records = 100000"
definition ggml_max_name :: nat where "ggml_max_name = 64"
definition cuda_row_size :: nat where "cuda_row_size = 1024"

section \<open>Operations\<close>

definition host_name :: "ggml_cuda_host_kind \<Rightarrow> string" where
  "host_name k = (case k of Host_Pageable \<Rightarrow> ''pageable'' | Host_Pinned \<Rightarrow> ''pinned''
     | Host_Device \<Rightarrow> ''device'' | Host_Managed \<Rightarrow> ''managed'' | Host_Unknown \<Rightarrow> ''unknown'')"

text \<open>A C string ends at its first null character.\<close>

definition c_string :: "string \<Rightarrow> string" where
  "c_string s = takeWhile (\<lambda>c. c \<noteq> CHR 0x00) s"

definition csv_name_char :: "char \<Rightarrow> string" where
  "csv_name_char c = (if c = quote_char then [quote_char] else [])
     @ [if (of_char c :: nat) < 32 \<or> (of_char c :: nat) = 127 then CHR ''?'' else c]"

definition csv_name :: "string option \<Rightarrow> string" where
  "csv_name name = [quote_char]
     @ concat (map csv_name_char (take ggml_max_name (case name of None \<Rightarrow> [] | Some s \<Rightarrow> c_string s)))
     @ [quote_char]"

definition cuda_header :: string where
  "cuda_header = ''# cuda_transfer_trace_v1 coverage=ordinary_backend_set_get_only timing=host_API_wall_not_DMA'' @ nl
     @ ''id,context,request_id,seq_id,phase,pos_min,pos_max,backend_api,direction,tensor,offset_bytes,size_bytes,device,host_kind,pointer_status,start_monotonic_ns,copy_api_wall_ns,sync_api_wall_ns,copy_status,sync_status'' @ nl"

definition cuda_writer_new :: "sink option \<Rightarrow> u64 \<Rightarrow> ggml_cuda_transfer_writer" where
  "cuda_writer_new file limit =
     (let w = \<lparr>cw_file = file, cw_limit = min limit cuda_max_records, cw_admitted = 0, cw_written = 0, cw_dropped = 0,
               cw_api_errors = 0, cw_pointer_errors = 0, cw_io_errors = 0, cw_scope = no_scope\<rparr>
      in case file of
           None \<Rightarrow> w\<lparr>cw_io_errors := cw_io_errors w + 1\<rparr>
         | Some f \<Rightarrow>
             let (ok1, f1) = sink_write f cuda_header in
             if \<not> ok1 then w\<lparr>cw_file := Some f1, cw_io_errors := cw_io_errors w + 1\<rparr>
             else let (ok2, f2) = sink_flush f1 in
               w\<lparr>cw_file := Some f2, cw_io_errors := (if ok2 then cw_io_errors w else cw_io_errors w + 1)\<rparr>)"

definition cuda_footer :: "ggml_cuda_transfer_writer \<Rightarrow> string" where
  "cuda_footer w = ''# end admitted='' @ dec_word (cw_admitted w) @ '' written='' @ dec_word (cw_written w)
     @ '' dropped='' @ dec_word (cw_dropped w)
     @ '' errors='' @ dec_word (cw_api_errors w + cw_pointer_errors w + cw_io_errors w)
     @ '' api_errors='' @ dec_word (cw_api_errors w) @ '' pointer_errors='' @ dec_word (cw_pointer_errors w)
     @ '' io_errors='' @ dec_word (cw_io_errors w) @ nl"

definition cuda_writer_delete :: "ggml_cuda_transfer_writer \<Rightarrow> sink option" where
  "cuda_writer_delete w = (case cw_file w of None \<Rightarrow> None | Some f \<Rightarrow>
     let (ok1, f1) = sink_flush f;
         w1 = (if ok1 then w else w\<lparr>cw_io_errors := cw_io_errors w + 1\<rparr>);
         (ok2, f2) = sink_write f1 (cuda_footer w1)
     in if ok2 then Some (snd (sink_flush f2)) else Some f2)"

definition cuda_set_scope :: "ggml_cuda_transfer_writer \<Rightarrow> ggml_moe_trace_scope \<Rightarrow> ggml_cuda_transfer_writer" where
  "cuda_set_scope w scope = w\<lparr>cw_scope := scope\<rparr>"

definition cuda_begin :: "ggml_cuda_transfer_writer \<Rightarrow> ggml_cuda_transfer_ticket \<times> ggml_cuda_transfer_writer" where
  "cuda_begin w =
     (let sc = cw_scope w in
      if ts_request_id sc < 0 \<or> ts_seq_id sc < 0 \<or> ts_phase sc < 1 \<or> ts_phase sc > 3 then (no_ticket, w)
      else if cw_io_errors w \<noteq> 0 \<or> cw_admitted w \<ge> cw_limit w
        then (no_ticket, w\<lparr>cw_dropped := cw_dropped w + 1\<rparr>)
      else (\<lparr>ct_active = True, ct_id = cw_admitted w, ct_scope = sc\<rparr>, w\<lparr>cw_admitted := cw_admitted w + 1\<rparr>))"

definition cuda_row :: "ggml_cuda_transfer_ticket \<Rightarrow> ggml_cuda_transfer_event \<Rightarrow> string" where
  "cuda_row t e =
     dec_word (ct_id t) @ '',target,'' @ dec_int (ts_request_id (ct_scope t)) @ '','' @ dec_int (ts_seq_id (ct_scope t))
     @ '','' @ phase_name (ts_phase (ct_scope t)) @ '','' @ dec_int (ts_pos_min (ct_scope t)) @ '',''
     @ dec_int (ts_pos_max (ct_scope t)) @ '','' @ (if ev_h2d e then ''set_tensor'' else ''get_tensor'')
     @ (if ev_synchronous e then [] else ''_async'') @ '','' @ (if ev_h2d e then ''H2D'' else ''D2H'') @ '',''
     @ csv_name (ev_tensor_name e) @ '','' @ dec_word (ev_offset e) @ '','' @ dec_word (ev_size e) @ '',''
     @ dec_int (ev_device e) @ '','' @ host_name (ev_host_kind e) @ '','' @ dec_int (ev_pointer_status e) @ '',''
     @ dec_word (ev_start_ns e) @ '','' @ dec_word (ev_copy_wall_ns e) @ '','' @ dec_word (ev_sync_wall_ns e) @ '',''
     @ dec_int (ev_copy_status e) @ '','' @ dec_int (ev_sync_status e) @ nl"

definition count_errors :: "ggml_cuda_transfer_writer \<Rightarrow> ggml_cuda_transfer_event \<Rightarrow> ggml_cuda_transfer_writer" where
  "count_errors w e =
     (let w = (if ev_copy_status e \<noteq> 0 \<or> ev_sync_status e > 0 then w\<lparr>cw_api_errors := cw_api_errors w + 1\<rparr> else w)
      in if ev_pointer_status e > 0 \<or> ev_pointer_status e = -2
         then w\<lparr>cw_pointer_errors := cw_pointer_errors w + 1\<rparr> else w)"

text \<open>
  \<open>None\<close> when the row would be written through a null stream. \<open>snprintf\<close> returns the length of
  the untruncated text, so a row of 1024 bytes or more is an error and nothing is written.
\<close>

definition cuda_record ::
  "ggml_cuda_transfer_writer \<Rightarrow> ggml_cuda_transfer_ticket \<Rightarrow> ggml_cuda_transfer_event \<Rightarrow> ggml_cuda_transfer_writer option" where
  "cuda_record w t e =
     (if \<not> ct_active t then Some w
      else
        let w = count_errors w e
        in if cw_io_errors w \<noteq> 0 then Some (w\<lparr>cw_dropped := cw_dropped w + 1\<rparr>)
        else
          let row = cuda_row t e;
              bad = (\<lambda>w. w\<lparr>cw_io_errors := cw_io_errors w + 1, cw_dropped := cw_dropped w + 1\<rparr>)
          in if length row \<ge> cuda_row_size then Some (bad w)
          else case cw_file w of None \<Rightarrow> None
          | Some f \<Rightarrow>
              let (ok1, f1) = sink_write f row in
              if \<not> ok1 then Some (bad (w\<lparr>cw_file := Some f1\<rparr>))
              else let (ok2, f2) = sink_flush f1 in
                if \<not> ok2 then Some (bad (w\<lparr>cw_file := Some f2\<rparr>))
                else Some (w\<lparr>cw_file := Some f2, cw_written := cw_written w + 1\<rparr>))"

section \<open>The process-wide writer\<close>

definition transfer_state_new :: "'o host \<Rightarrow> 'o \<Rightarrow> ggml_cuda_transfer_writer option \<times> 'o" where
  "transfer_state_new os o1 = (case env_path os ''GGML_CUDA_TRANSFER_TRACE_FILE'' of
       None \<Rightarrow> (None, o1)
     | Some path \<Rightarrow> (case os_fopen os o1 path of
           (None, o2) \<Rightarrow> (None, o2)
         | (Some f, o2) \<Rightarrow> (Some (cuda_writer_new (Some f) cuda_max_records), o2)))"

definition transfer_state_delete :: "'o host \<Rightarrow> 'o \<Rightarrow> ggml_cuda_transfer_writer option \<Rightarrow> 'o" where
  "transfer_state_delete os o1 st = (case st of None \<Rightarrow> o1 | Some w \<Rightarrow>
     (case cuda_writer_delete w of None \<Rightarrow> o1 | Some f \<Rightarrow> os_fclose os o1 f))"

definition ggml_cuda_transfer_trace_enabled :: "ggml_cuda_transfer_writer option \<Rightarrow> bool" where
  "ggml_cuda_transfer_trace_enabled st = (st \<noteq> None)"

definition ggml_cuda_transfer_trace_set_scope ::
  "ggml_cuda_transfer_writer option \<Rightarrow> ggml_moe_trace_scope \<Rightarrow> ggml_cuda_transfer_writer option" where
  "ggml_cuda_transfer_trace_set_scope st scope = map_option (\<lambda>w. cuda_set_scope w scope) st"

definition ggml_cuda_transfer_trace_begin ::
  "ggml_cuda_transfer_writer option \<Rightarrow> ggml_cuda_transfer_ticket \<times> ggml_cuda_transfer_writer option" where
  "ggml_cuda_transfer_trace_begin st = (case st of None \<Rightarrow> (no_ticket, None)
     | Some w \<Rightarrow> (let (t, w') = cuda_begin w in (t, Some w')))"

definition ggml_cuda_transfer_trace_record ::
  "ggml_cuda_transfer_writer option \<Rightarrow> ggml_cuda_transfer_ticket \<Rightarrow> ggml_cuda_transfer_event
    \<Rightarrow> ggml_cuda_transfer_writer option option" where
  "ggml_cuda_transfer_trace_record st t e =
     (if \<not> ct_active t then Some st
      else case st of None \<Rightarrow> Some None
      | Some w \<Rightarrow> (case cuda_record w t e of None \<Rightarrow> None | Some w' \<Rightarrow> Some (Some w')))"

section \<open>The writer driven by begin/record pairs\<close>

text \<open>
  Callers take a ticket before a copy and hand it back once, in any order of completion. The
  driven state is the writer with the tickets in flight.
\<close>

datatype cuda_op = C_Scope ggml_moe_trace_scope | C_Begin | C_Record nat ggml_cuda_transfer_event

type_synonym cuda_state = "ggml_cuda_transfer_writer \<times> ggml_cuda_transfer_ticket list"

definition drop_nth :: "nat \<Rightarrow> 'a list \<Rightarrow> 'a list" where
  "drop_nth i xs = take i xs @ drop (Suc i) xs"

fun cuda_step :: "cuda_state \<Rightarrow> cuda_op \<Rightarrow> cuda_state option" where
  "cuda_step (w, ts) (C_Scope s) = Some (cuda_set_scope w s, ts)"
| "cuda_step (w, ts) C_Begin = (let (t, w') = cuda_begin w in Some (w', if ct_active t then ts @ [t] else ts))"
| "cuda_step (w, ts) (C_Record i e) =
     (if i < length ts
      then (case cuda_record w (ts ! i) e of None \<Rightarrow> None | Some w' \<Rightarrow> Some (w', drop_nth i ts))
      else Some (w, ts))"

definition cuda_out :: "cuda_state \<Rightarrow> string" where
  "cuda_out s = (case cw_file (fst s) of None \<Rightarrow> [] | Some f \<Rightarrow> sk_out f)"

definition cuda_ok :: "cuda_state \<Rightarrow> bool" where
  "cuda_ok s \<longleftrightarrow> (case s of (w, ts) \<Rightarrow>
     unat (cw_written w) + length ts \<le> unat (cw_admitted w) \<and> cw_admitted w \<le> cw_limit w
     \<and> cw_limit w \<le> cuda_max_records \<and> (cw_file w = None \<longrightarrow> cw_io_errors w \<noteq> 0) \<and> list_all ct_active ts)"

lemma length_drop_nth: "i < length xs \<Longrightarrow> Suc (length (drop_nth i xs)) = length xs"
  by (simp add: drop_nth_def)

lemma set_drop_nth: "set (drop_nth i xs) \<subseteq> set xs"
  by (auto simp: drop_nth_def dest: in_set_takeD in_set_dropD)

text \<open>The ways a record of an active ticket can end.\<close>

lemma count_errors_frame [frame_simps]:
  "cw_file (count_errors w e) = cw_file w" "cw_limit (count_errors w e) = cw_limit w"
  "cw_admitted (count_errors w e) = cw_admitted w" "cw_written (count_errors w e) = cw_written w"
  "cw_dropped (count_errors w e) = cw_dropped w" "cw_io_errors (count_errors w e) = cw_io_errors w"
  "cw_scope (count_errors w e) = cw_scope w"
  by (simp_all add: count_errors_def)

lemma cuda_record_cases [consumes 2, case_names lost row long]:
  assumes "cuda_record w t e = Some w'" and "ct_active t"
  obtains
    (lost) "cw_written w' = cw_written w" "cw_dropped w' = cw_dropped w + 1" "cw_io_errors w' \<noteq> 0"
      "cw_io_errors w \<noteq> 0 \<Longrightarrow> cw_io_errors w' = cw_io_errors w"
      "prefix (cuda_out (w, ts)) (cuda_out (w', ts'))" "cw_file w = None \<longrightarrow> cw_io_errors w \<noteq> 0"
      "cw_file w' = None \<longleftrightarrow> cw_file w = None"
  | (row) "cw_written w' = cw_written w + 1" "cw_dropped w' = cw_dropped w" "cw_io_errors w = 0" "cw_io_errors w' = 0"
      "cuda_out (w', ts') = cuda_out (w, ts) @ cuda_row t e" "cw_file w' \<noteq> None"
  | (long) "length (cuda_row t e) \<ge> cuda_row_size" "cw_written w' = cw_written w" "cw_dropped w' = cw_dropped w + 1"
      "cw_io_errors w = 0" "cw_io_errors w' = 1" "cw_file w' = cw_file w"
proof -
  let ?w = "count_errors w e" and ?bad = "\<lambda>w. w\<lparr>cw_io_errors := cw_io_errors w + 1, cw_dropped := cw_dropped w + 1\<rparr>"
  from assms have eq: "(if cw_io_errors ?w \<noteq> 0 then Some (?w\<lparr>cw_dropped := cw_dropped ?w + 1\<rparr>)
        else if length (cuda_row t e) \<ge> cuda_row_size then Some (?bad ?w)
        else case cw_file ?w of None \<Rightarrow> None
          | Some f \<Rightarrow>
              let (ok1, f1) = sink_write f (cuda_row t e) in
              if \<not> ok1 then Some (?bad (?w\<lparr>cw_file := Some f1\<rparr>))
              else let (ok2, f2) = sink_flush f1 in
                if \<not> ok2 then Some (?bad (?w\<lparr>cw_file := Some f2\<rparr>))
                else Some (?w\<lparr>cw_file := Some f2, cw_written := cw_written ?w + 1\<rparr>)) = Some w'"
    unfolding cuda_record_def Let_def by simp
  show ?thesis
  proof (cases "cw_io_errors w \<noteq> 0")
    case True
    then show ?thesis using eq by (intro lost) (auto simp: frame_simps cuda_out_def)
  next
    case io: False
    show ?thesis
    proof (cases "length (cuda_row t e) \<ge> cuda_row_size")
      case True
      then show ?thesis using eq io by (intro long) (auto simp: frame_simps)
    next
      case False
      with eq io obtain f where f: "cw_file w = Some f" by (auto simp: frame_simps split: option.splits)
      obtain ok1 f1 where s1: "sink_write f (cuda_row t e) = (ok1, f1)" by fastforce
      obtain ok2 f2 where s2: "sink_flush f1 = (ok2, f2)" by fastforce
      have p1: "prefix (sk_out f) (sk_out f1)" using sink_write_prefix [of f "cuda_row t e"] s1 by simp
      have p2: "sk_out f2 = sk_out f1" using sink_flush_out [of f1] s2 by simp
      show ?thesis
      proof (cases "ok1 \<and> ok2")
        case True
        with sink_write_ok [of f "cuda_row t e"] s1 have "sk_out f1 = sk_out f @ cuda_row t e" by simp
        with True False show ?thesis using eq io by (intro row) (auto simp: f s1 s2 p2 frame_simps cuda_out_def)
      next
        case bad: False
        with False show ?thesis using eq io p1
          by (intro lost) (auto simp: f s1 s2 p2 frame_simps cuda_out_def split: if_splits)
      qed
    qed
  qed
qed

section \<open>Rows fit their buffer\<close>

definition i32 :: "int \<Rightarrow> bool" where "i32 i \<longleftrightarrow> - (2 ^ 31) \<le> i \<and> i < 2 ^ 31"
definition i64 :: "int \<Rightarrow> bool" where "i64 i \<longleftrightarrow> - (2 ^ 63) \<le> i \<and> i < 2 ^ 63"

definition scope_ranges :: "ggml_moe_trace_scope \<Rightarrow> bool" where
  "scope_ranges s \<longleftrightarrow> i64 (ts_request_id s) \<and> i32 (ts_seq_id s) \<and> i32 (ts_pos_min s) \<and> i32 (ts_pos_max s)"

definition event_ranges :: "ggml_cuda_transfer_event \<Rightarrow> bool" where
  "event_ranges e \<longleftrightarrow> i32 (ev_device e) \<and> i32 (ev_pointer_status e) \<and> i32 (ev_copy_status e) \<and> i32 (ev_sync_status e)"

lemma length_i32: "i32 i \<Longrightarrow> length (dec_int i) \<le> 11"
  using length_dec_int [of 10 i] by (simp add: i32_def)

lemma length_i64: "i64 i \<Longrightarrow> length (dec_int i) \<le> 20"
  using length_dec_int [of 19 i] by (simp add: i64_def)

lemma length_csv_name: "length (csv_name n) \<le> 130"
proof -
  have "length (concat (map csv_name_char xs)) \<le> 2 * length xs" for xs
    by (induction xs) (auto simp: csv_name_char_def)
  from this [of "take ggml_max_name (case n of None \<Rightarrow> [] | Some s \<Rightarrow> c_string s)"]
  show ?thesis by (simp add: csv_name_def ggml_max_name_def)
qed

lemma length_cuda_row:
  assumes "scope_ranges (ct_scope t)" and "event_ranges e"
  shows "length (cuda_row t e) < cuda_row_size"
proof -
  have phase: "length (phase_name p) \<le> 7" for p by (simp add: phase_name_def)
  have host: "length (host_name k) \<le> 8" for k by (cases k) (simp_all add: host_name_def)
  have fields: "length (dec_int (ts_request_id (ct_scope t))) \<le> 20" "length (dec_int (ts_seq_id (ct_scope t))) \<le> 11"
    "length (dec_int (ts_pos_min (ct_scope t))) \<le> 11" "length (dec_int (ts_pos_max (ct_scope t))) \<le> 11"
    "length (dec_int (ev_device e)) \<le> 11" "length (dec_int (ev_pointer_status e)) \<le> 11"
    "length (dec_int (ev_copy_status e)) \<le> 11" "length (dec_int (ev_sync_status e)) \<le> 11"
    using assms by (simp_all add: scope_ranges_def event_ranges_def length_i32 length_i64)
  note fields phase [of "ts_phase (ct_scope t)"] host [of "ev_host_kind e"] length_csv_name [of "ev_tensor_name e"]
    length_dec_u64 [of "ct_id t"] length_dec_u64 [of "ev_offset e"] length_dec_u64 [of "ev_size e"]
    length_dec_u64 [of "ev_start_ns e"] length_dec_u64 [of "ev_copy_wall_ns e"] length_dec_u64 [of "ev_sync_wall_ns e"]
  moreover have "length nl = 1" by (simp add: nl_def)
  ultimately show ?thesis unfolding cuda_row_def cuda_row_size_def by simp
qed

lemma csv_name_one_line: "c \<in> set (csv_name n) \<Longrightarrow> 32 \<le> (of_char c :: nat) \<and> (of_char c :: nat) \<noteq> 127"
  by (auto simp: csv_name_def csv_name_char_def quote_char_def split: if_splits option.splits)

section \<open>Invariants of the driven writer\<close>

lemma cuda_begin_cases:
  obtains (out) "cuda_begin w = (no_ticket, w)"
      "\<not> (0 \<le> ts_request_id (cw_scope w) \<and> 0 \<le> ts_seq_id (cw_scope w) \<and> 1 \<le> ts_phase (cw_scope w) \<and> ts_phase (cw_scope w) \<le> 3)"
  | (refused) "cuda_begin w = (no_ticket, w\<lparr>cw_dropped := cw_dropped w + 1\<rparr>)"
      "0 \<le> ts_request_id (cw_scope w) \<and> 0 \<le> ts_seq_id (cw_scope w) \<and> 1 \<le> ts_phase (cw_scope w) \<and> ts_phase (cw_scope w) \<le> 3"
      "cw_io_errors w \<noteq> 0 \<or> cw_admitted w \<ge> cw_limit w"
  | (admitted) "cuda_begin w = (\<lparr>ct_active = True, ct_id = cw_admitted w, ct_scope = cw_scope w\<rparr>,
        w\<lparr>cw_admitted := cw_admitted w + 1\<rparr>)"
      "0 \<le> ts_request_id (cw_scope w) \<and> 0 \<le> ts_seq_id (cw_scope w) \<and> 1 \<le> ts_phase (cw_scope w) \<and> ts_phase (cw_scope w) \<le> 3"
      "cw_io_errors w = 0" "cw_admitted w < cw_limit w"
  by (cases "ts_request_id (cw_scope w) < 0 \<or> ts_seq_id (cw_scope w) < 0 \<or> ts_phase (cw_scope w) < 1 \<or> ts_phase (cw_scope w) > 3";
      cases "cw_io_errors w \<noteq> 0 \<or> cw_admitted w \<ge> cw_limit w")
    (auto simp: cuda_begin_def Let_def not_le not_less)

lemma unat_inc_below: "a < b \<Longrightarrow> unat (a + 1) = Suc (unat a)" for a b :: u64
  by (rule unat_plus1_less)

lemma cuda_record_frame:
  assumes "cuda_record w t e = Some w'"
  shows "cw_limit w' = cw_limit w \<and> cw_admitted w' = cw_admitted w \<and> cw_scope w' = cw_scope w"
  using assms unfolding cuda_record_def Let_def
  by (auto simp: frame_simps case_prod_unfold split: if_splits option.splits)

lemma cuda_record_defined:
  "cw_file w = None \<longrightarrow> cw_io_errors w \<noteq> 0 \<Longrightarrow> \<exists>w'. cuda_record w t e = Some w'"
  unfolding cuda_record_def Let_def
  by (auto simp: frame_simps case_prod_unfold split: if_splits option.splits)

lemma cuda_step_defined: "cuda_ok s \<Longrightarrow> \<exists>s'. cuda_step s x = Some s'"
proof (cases s; cases x)
  fix w ts i e assume "cuda_ok s" "s = (w, ts)" "x = C_Record i e"
  then show ?thesis using cuda_record_defined [of w "ts ! i" e] by (auto simp: cuda_ok_def)
qed (simp_all add: Let_def case_prod_unfold)

lemma cuda_step_ok:
  assumes "cuda_ok s" and "cuda_step s x = Some s'"
  shows "cuda_ok s'" and "cw_limit (fst s') = cw_limit (fst s)" and "prefix (cuda_out s) (cuda_out s')"
proof -
  obtain w ts where s: "s = (w, ts)" by fastforce
  have "cuda_ok s' \<and> cw_limit (fst s') = cw_limit (fst s) \<and> prefix (cuda_out s) (cuda_out s')"
  proof (cases x)
    case (C_Scope sc)
    with assms s show ?thesis by (auto simp: cuda_set_scope_def cuda_ok_def cuda_out_def)
  next
    case C_Begin
    show ?thesis
    proof (cases rule: cuda_begin_cases [of w])
      case admitted
      then have "unat (cw_admitted w + 1) = Suc (unat (cw_admitted w))" "cw_admitted w + 1 \<le> cw_limit w"
        by (auto intro: unat_inc_below inc_le)
      with admitted assms s C_Begin show ?thesis by (auto simp: cuda_ok_def cuda_out_def)
    qed (use assms s C_Begin in \<open>auto simp: cuda_ok_def cuda_out_def no_ticket_def\<close>)
  next
    case (C_Record i e)
    show ?thesis
    proof (cases "i < length ts")
      case True
      with assms s C_Record obtain w' where w': "cuda_record w (ts ! i) e = Some w'" "s' = (w', drop_nth i ts)"
        by (auto split: option.splits)
      have act: "ct_active (ts ! i)" "list_all ct_active (drop_nth i ts)"
        using assms(1) s True set_drop_nth [of i ts] by (auto simp: cuda_ok_def list_all_iff)
      note fr = cuda_record_frame [OF w'(1)] and len = length_drop_nth [OF True]
      from w'(1) act(1) show ?thesis
      proof (cases rule: cuda_record_cases [where ts = ts and ts' = "drop_nth i ts"])
        case lost
        with assms(1) s w'(2) fr len act show ?thesis by (auto simp: cuda_ok_def)
      next
        case row
        have "cw_written w < cw_admitted w"
          using assms(1) s True unfolding cuda_ok_def by (cases ts) (auto simp: word_less_nat_alt)
        then have "unat (cw_written w + 1) = Suc (unat (cw_written w))" by (rule unat_inc_below)
        with row assms(1) s w'(2) fr len act show ?thesis by (auto simp: cuda_ok_def)
      next
        case long
        with assms(1) s w'(2) fr len act show ?thesis by (auto simp: cuda_ok_def cuda_out_def)
      qed
    qed (use assms s C_Record in auto)
  qed
  then show "cuda_ok s'" "cw_limit (fst s') = cw_limit (fst s)" "prefix (cuda_out s) (cuda_out s')" by simp_all
qed

interpretation cw: evidence_writer cuda_step cuda_ok cuda_out
  "\<lambda>s. unat (cw_written (fst s)) + length (snd s)" "\<lambda>s. unat (cw_limit (fst s))"
proof unfold_locales
  show "unat (cw_written (fst s)) + length (snd s) \<le> unat (cw_limit (fst s))" if "cuda_ok s" for s
    using that by (auto simp: cuda_ok_def word_le_nat_alt)
  show "unat (cw_limit (fst s')) = unat (cw_limit (fst s))" if "cuda_step s x = Some s'" for s x s'
  proof -
    obtain w ts where "s = (w, ts)" by fastforce
    with that show ?thesis
      by (cases x) (auto simp: cuda_set_scope_def cuda_begin_def Let_def cuda_record_frame split: if_splits option.splits)
  qed
  show "prefix (cuda_out s) (cuda_out s')" if "cuda_step s x = Some s'" for s x s'
  proof -
    obtain w ts where s: "s = (w, ts)" by fastforce
    show ?thesis
    proof (cases x)
      case (C_Record i e)
      show ?thesis
      proof (cases "i < length ts \<and> ct_active (ts ! i)")
        case True
        with that s C_Record obtain w' where w': "cuda_record w (ts ! i) e = Some w'" "s' = (w', drop_nth i ts)"
          by (auto split: option.splits)
        from True have "ct_active (ts ! i)" by simp
        with w'(1) have "prefix (cuda_out (w, ts)) (cuda_out (w', drop_nth i ts))"
          by (cases rule: cuda_record_cases [where ts = ts and ts' = "drop_nth i ts"]) (auto simp: cuda_out_def)
        with w'(2) s show ?thesis by simp
      qed (use that s C_Record in \<open>auto simp: cuda_record_def cuda_out_def split: if_splits option.splits\<close>)
    qed (use that s in \<open>auto simp: cuda_set_scope_def cuda_begin_def Let_def cuda_out_def split: if_splits\<close>)
  qed
qed (use cuda_step_defined cuda_step_ok(1) in blast)+

lemma cuda_new_ok: "cuda_ok (cuda_writer_new file limit, [])"
  by (auto simp: cuda_ok_def cuda_writer_new_def Let_def case_prod_unfold split: option.splits)

lemma cuda_new_counts:
  "cw_written (cuda_writer_new file limit) = 0" "cw_dropped (cuda_writer_new file limit) = 0"
  "cw_scope (cuda_writer_new file limit) = no_scope" "cw_limit (cuda_writer_new file limit) = min limit cuda_max_records"
  by (simp_all add: cuda_writer_new_def Let_def case_prod_unfold split: option.split)

text \<open>The copies begun while a request is in scope.\<close>

definition scope_valid :: "ggml_moe_trace_scope \<Rightarrow> bool" where
  "scope_valid s \<longleftrightarrow> 0 \<le> ts_request_id s \<and> 0 \<le> ts_seq_id s \<and> 1 \<le> ts_phase s \<and> ts_phase s \<le> 3"

fun begins :: "ggml_moe_trace_scope \<Rightarrow> cuda_op list \<Rightarrow> nat" where
  "begins s [] = 0"
| "begins s (C_Scope s' # ops) = begins s' ops"
| "begins s (C_Begin # ops) = (if scope_valid s then 1 else 0) + begins s ops"
| "begins s (C_Record i e # ops) = begins s ops"

definition settled :: "cuda_state \<Rightarrow> u64" where
  "settled s = cw_written (fst s) + cw_dropped (fst s) + of_nat (length (snd s))"

lemma cuda_run_settled:
  assumes "run_ops cuda_step (w, ts) ops = Some s'" and "cuda_ok (w, ts)"
  shows "settled s' = settled (w, ts) + of_nat (begins (cw_scope w) ops)"
  using assms
proof (induction ops arbitrary: w ts)
  case (Cons x ops)
  from Cons.prems(1) obtain w1 ts1 where st: "cuda_step (w, ts) x = Some (w1, ts1)"
    and rest: "run_ops cuda_step (w1, ts1) ops = Some s'" by (auto split: option.splits)
  have ok: "cuda_ok (w1, ts1)" using cuda_step_ok(1) [OF Cons.prems(2) st] .
  note IH = Cons.IH [OF rest ok]
  show ?case
  proof (cases x)
    case (C_Scope sc)
    with st IH show ?thesis by (auto simp: cuda_set_scope_def settled_def)
  next
    case C_Begin
    show ?thesis
      by (cases rule: cuda_begin_cases [of w])
        (use C_Begin st IH in \<open>auto simp: settled_def scope_valid_def no_ticket_def algebra_simps\<close>)
  next
    case (C_Record i e)
    show ?thesis
    proof (cases "i < length ts")
      case True
      with st C_Record obtain w': "cuda_record w (ts ! i) e = Some w1" "ts1 = drop_nth i ts"
        by (auto split: option.splits)
      have act: "ct_active (ts ! i)" using Cons.prems(2) True by (auto simp: cuda_ok_def list_all_iff)
      have len: "length ts = Suc (length ts1)" using length_drop_nth [OF True] w' by simp
      have "cw_scope w1 = cw_scope w" using cuda_record_frame [OF w'(1)] by simp
      moreover from w'(1) act have "settled (w1, ts1) = settled (w, ts)"
        by (cases rule: cuda_record_cases [where ts = ts and ts' = ts1]) (simp_all add: settled_def len)
      ultimately show ?thesis using IH C_Record by simp
    qed (use st IH C_Record in auto)
  qed
qed simp

text \<open>The rows the completed copies ask for, in the order of completion.\<close>

fun completed_rows :: "cuda_state \<Rightarrow> cuda_op list \<Rightarrow> string list" where
  "completed_rows s [] = []"
| "completed_rows s (x # ops) =
     (case x of C_Record i e \<Rightarrow> if i < length (snd s) then [cuda_row (snd s ! i) e] else [] | _ \<Rightarrow> [])
     @ (case cuda_step s x of None \<Rightarrow> [] | Some s' \<Rightarrow> completed_rows s' ops)"

lemma cuda_io_sticky:
  assumes "cuda_step s x = Some s'" and "cuda_ok s" and "cw_io_errors (fst s) \<noteq> 0"
  shows "cw_io_errors (fst s') \<noteq> 0"
proof -
  obtain w ts where s: "s = (w, ts)" by fastforce
  show ?thesis
    using assms unfolding s
    by (cases x) (auto simp: cuda_set_scope_def cuda_begin_def cuda_record_def frame_simps Let_def
        split: if_splits option.splits)
qed

lemma cuda_run_rows:
  assumes "run_ops cuda_step s ops = Some s'" and "cuda_ok s" and "cw_io_errors (fst s') = 0"
  shows "cw_io_errors (fst s) = 0 \<and> cuda_out s' = cuda_out s @ concat (completed_rows s ops)"
  using assms
proof (induction ops arbitrary: s)
  case (Cons x ops)
  obtain w ts where s: "s = (w, ts)" by fastforce
  from Cons.prems(1) obtain w1 ts1 where st: "cuda_step s x = Some (w1, ts1)"
    and rest: "run_ops cuda_step (w1, ts1) ops = Some s'" by (auto split: option.splits)
  have ok: "cuda_ok (w1, ts1)" using cuda_step_ok(1) [OF Cons.prems(2) st] .
  from Cons.IH [OF rest ok Cons.prems(3)] have IH: "cw_io_errors w1 = 0"
    "cuda_out s' = cuda_out (w1, ts1) @ concat (completed_rows (w1, ts1) ops)" by simp_all
  have io: "cw_io_errors w = 0" using cuda_io_sticky [OF st Cons.prems(2)] IH(1) s by auto
  have "cuda_out (w1, ts1) = cuda_out (w, ts) @ concat (case x of
      C_Record i e \<Rightarrow> if i < length ts then [cuda_row (ts ! i) e] else [] | _ \<Rightarrow> [])"
  proof (cases x)
    case (C_Record i e)
    show ?thesis
    proof (cases "i < length ts")
      case True
      with st s C_Record have w': "cuda_record w (ts ! i) e = Some w1" by (auto split: option.splits)
      have act: "ct_active (ts ! i)" using Cons.prems(2) s True by (auto simp: cuda_ok_def list_all_iff)
      from w' act show ?thesis
        by (cases rule: cuda_record_cases [where ts = ts and ts' = ts1]) (use IH(1) C_Record True in auto)
    qed (use st s C_Record in auto)
  qed (use st s in \<open>auto simp: cuda_set_scope_def cuda_begin_def Let_def cuda_out_def split: if_splits\<close>)
  with io IH(2) st s show ?case by (cases x) simp_all
qed simp

lemma cuda_new_clean:
  assumes "cw_io_errors (cuda_writer_new (Some f) limit) = 0" and "sk_out f = []"
  shows "cuda_out (cuda_writer_new (Some f) limit, []) = cuda_header"
  using assms sink_write_ok [of f cuda_header]
  by (auto simp: cuda_writer_new_def cuda_out_def Let_def case_prod_unfold split: if_splits)

section \<open>Properties\<close>

text \<open>
  Every row of the transfer trace fits its 1024-byte buffer, for every tensor name and every
  value of the 32- and 64-bit fields, so no copy is ever dropped for its size; and each row is
  one line, whatever control characters the tensor name holds.
\<close>

theorem cuda_row_fits:
  assumes "scope_ranges (ct_scope t)" and "event_ranges e"
  shows "length (cuda_row t e) < cuda_row_size \<and> (\<exists>r. cuda_row t e = r @ nl \<and> CHR 0x0A \<notin> set r)"
proof -
  have d: "CHR 0x0A \<notin> set (dec_word w)" "CHR 0x0A \<notin> set (dec_int i)" for w :: u64 and i
    using dec_word_digits [of "CHR 0x0A" w] dec_int_chars [of "CHR 0x0A" i] not_digits by auto
  have n: "CHR 0x0A \<notin> set (csv_name m)" for m using csv_name_one_line [of "CHR 0x0A" m] by auto
  have p: "CHR 0x0A \<notin> set (phase_name q)" for q by (simp add: phase_name_def)
  have h: "CHR 0x0A \<notin> set (host_name k)" for k by (cases k) (simp_all add: host_name_def)
  have "\<exists>r. cuda_row t e = r @ nl \<and> CHR 0x0A \<notin> set r"
    unfolding cuda_row_def append_assoc [symmetric] by (intro exI conjI) (rule refl, simp add: d n p h)
  with length_cuda_row [OF assms] show ?thesis by blast
qed

definition demo_event :: ggml_cuda_transfer_event where
  "demo_event = \<lparr>ev_tensor_name = Some ''blk.0'', ev_offset = 0, ev_size = 4096, ev_device = 0, ev_h2d = True,
     ev_synchronous = False, ev_host_kind = Host_Pinned, ev_pointer_status = 0, ev_copy_status = 0,
     ev_sync_status = -1, ev_start_ns = 5, ev_copy_wall_ns = 6, ev_sync_wall_ns = 0\<rparr>"

definition demo_scope :: ggml_moe_trace_scope where
  "demo_scope = \<lparr>ts_request_id = 7, ts_seq_id = 0, ts_phase = 2, ts_pos_min = 5, ts_pos_max = 5\<rparr>"

lemma cuda_row_fits_witness:
  "length (cuda_row \<lparr>ct_active = True, ct_id = 3, ct_scope = demo_scope\<rparr> demo_event) < 1024"
  using cuda_row_fits [of "\<lparr>ct_active = True, ct_id = 3, ct_scope = demo_scope\<rparr>" demo_event]
  by (simp add: scope_ranges_def event_ranges_def i32_def i64_def demo_scope_def demo_event_def cuda_row_size_def)

text \<open>
  Every copy begun while a request is in scope is accounted for exactly once: written, counted
  as dropped, or still in flight; and the rows written and in flight together never exceed the
  limit or 100000, whatever the stream does.
\<close>

theorem cuda_transfer_accounts:
  assumes "run_ops cuda_step (cuda_writer_new file limit, []) ops = Some (w, inflight)"
  shows "cw_written w + cw_dropped w + of_nat (length inflight) = of_nat (begins no_scope ops)
    \<and> unat (cw_written w) + length inflight \<le> unat (min limit cuda_max_records)"
  using cuda_run_settled [OF assms cuda_new_ok] cw.run_bounded [OF cuda_new_ok assms]
  by (simp add: settled_def cuda_new_counts)

lemma cuda_transfer_accounts_witness:
  "\<exists>w. run_ops cuda_step (cuda_writer_new None 5, []) [C_Scope demo_scope, C_Begin, C_Begin] = Some (w, [])
    \<and> cw_written w + cw_dropped w = 2"
proof -
  let ?ops = "[C_Scope demo_scope, C_Begin, C_Begin]"
  have "\<exists>w. run_ops cuda_step (cuda_writer_new None 5, []) ?ops = Some (w, [])"
    by (simp add: cuda_writer_new_def cuda_begin_def cuda_set_scope_def demo_scope_def no_ticket_def Let_def)
  then obtain w where r: "run_ops cuda_step (cuda_writer_new None 5, []) ?ops = Some (w, [])" by blast
  from cuda_transfer_accounts [OF r] have "cw_written w + cw_dropped w = 2"
    by (simp add: scope_valid_def demo_scope_def)
  with r show ?thesis by blast
qed

text \<open>
  A transfer trace that reports no I/O error holds exactly its header and the rows of the
  completed copies in the order of completion.
\<close>

theorem cuda_clean_trace_complete:
  assumes "run_ops cuda_step (cuda_writer_new (Some f) limit, []) ops = Some (w, inflight)"
    and "cw_io_errors w = 0" and "sk_out f = []"
  shows "cuda_out (w, inflight) = cuda_header @ concat (completed_rows (cuda_writer_new (Some f) limit, []) ops)"
  using cuda_run_rows [OF assms(1) cuda_new_ok] cuda_new_clean [OF _ assms(3)] assms(2) by simp

lemma demo_write:
  "sink_write demo_sink s = (True, demo_sink\<lparr>sk_out := sk_out demo_sink @ s, sk_calls := 1\<rparr>)"
  by (simp add: sink_write_def demo_sink_def)

lemma cuda_clean_trace_complete_witness:
  "\<exists>s. run_ops cuda_step (cuda_writer_new (Some demo_sink) 5, []) [C_Scope demo_scope, C_Begin] = Some s
    \<and> cuda_out s = cuda_header"
proof -
  have io: "cw_io_errors (cuda_writer_new (Some demo_sink) 5) = 0"
    using demo_sink_never_fails [of demo_sink] demo_sink_never_fails [of "snd (sink_write demo_sink cuda_header)" "[]"]
    by (auto simp: cuda_writer_new_def Let_def case_prod_unfold sink_flush_def demo_sink_def)
  let ?w = "cuda_set_scope (cuda_writer_new (Some demo_sink) 5) demo_scope"
  have adm: "cw_admitted ?w = 0" "cw_limit ?w = 5"
    by (simp_all add: cuda_set_scope_def cuda_writer_new_def Let_def case_prod_unfold cuda_max_records_def)
  have io2: "cw_io_errors ?w = 0" "cw_scope ?w = demo_scope" using io by (simp_all add: cuda_set_scope_def)
  have b: "cuda_begin ?w = (\<lparr>ct_active = True, ct_id = 0, ct_scope = demo_scope\<rparr>, ?w\<lparr>cw_admitted := 1\<rparr>)"
    using adm io2 by (simp add: cuda_begin_def Let_def) (simp add: demo_scope_def)
  let ?s = "(?w\<lparr>cw_admitted := 1\<rparr>, [\<lparr>ct_active = True, ct_id = 0, ct_scope = demo_scope\<rparr>])"
  have r: "run_ops cuda_step (cuda_writer_new (Some demo_sink) 5, []) [C_Scope demo_scope, C_Begin] = Some ?s"
    by (simp add: b)
  have "cuda_out ?s = cuda_header"
    using cuda_clean_trace_complete [OF r] io2 by (simp add: demo_sink_def)
  with r show ?thesis by blast
qed

end
