(* ===== verification/Prefetch_State.thy ===== *)
theory Prefetch_State
  imports Moe_Cache_Lru Gpu_Trace Cuda_Transfer_Trace
begin

text \<open>
  The state of the expert prefetch engine (\<open>ggml/src/ggml-moe-prefetch.cpp\<close>) and the
  operations on it that start no I/O: the pool of worker threads with its queue and tickets, the
  registered mappings, the residency probes, ownership of the cache shadow and the expert trace.
  Tickets are shared by address in the code: here a ticket is a position in \<open>pl_heap\<close>. A job
  always has a ticket. \<open>atomic<int>\<close> is a 32-bit word read as signed.
\<close>

section \<open>State\<close>

record mapping_entry =
  me_base :: u64
  me_size :: u64

record ticket =
  tk_pending :: u32
  tk_epoch :: u64
  tk_track_reads :: bool
  tk_read_chunks :: "(u64 \<times> u32) list"
  tk_prefetched_ranges :: "(u64 \<times> u64) list"

definition ticket_new :: ticket where
  "ticket_new = \<lparr>tk_pending = 0, tk_epoch = 0, tk_track_reads = False, tk_read_chunks = [], tk_prefetched_ranges = []\<rparr>"

record job =
  jb_addr :: u64
  jb_len :: u32
  jb_tk :: nat

text \<open>
  Where a worker thread stands in \<open>run()\<close>, between its accesses to shared state. \<open>W_Idle\<close> is
  about to test the predicate of \<open>cv_work.wait\<close>, \<open>W_Asleep\<close> is blocked in it until
  \<open>cv_work\<close> is notified.
\<close>

datatype worker = W_Idle | W_Asleep | W_Popped job | W_Probed job bool | W_Counted job bool u32 | W_Exited

text \<open>
  \<open>pl_waiting\<close> holds the threads blocked in \<open>cv_done.wait\<close>, each with the ticket its
  predicate reads.
\<close>

record prefetch_pool =
  pl_queue :: "job list"
  pl_workers :: "worker list"
  pl_shutdown :: bool
  pl_tickets :: "u64 \<Rightarrow> nat option"
  pl_heap :: "ticket list"
  pl_waiting :: "nat \<Rightarrow> nat option"
  pl_n_jobs :: u64
  pl_n_skipped :: u64
  pl_bytes_populated :: u64
  pl_n_colded :: u64

definition pool_new :: prefetch_pool where
  "pool_new = \<lparr>pl_queue = [], pl_workers = [], pl_shutdown = False, pl_tickets = (\<lambda>_. None), pl_heap = [],
     pl_waiting = (\<lambda>_. None),
     pl_n_jobs = 0, pl_n_skipped = 0, pl_bytes_populated = 0, pl_n_colded = 0\<rparr>"

record engine_stats =
  es_requests :: u64
  es_hits :: u64
  es_misses :: u64
  es_prefetched :: u64
  es_prefetch_hits :: u64
  es_defer_wait_ns :: u64
  es_resident_bytes :: u64
  es_capacity_bytes :: u64

definition engine_stats_init :: engine_stats where
  "engine_stats_init = \<lparr>es_requests = 0, es_hits = 0, es_misses = 0, es_prefetched = 0, es_prefetch_hits = 0,
     es_defer_wait_ns = 0, es_resident_bytes = 0, es_capacity_bytes = 0\<rparr>"

text \<open>The process-wide state, with the operating system and the other two global traces.\<close>

record 'o prefetch_state =
  ps_os :: 'o
  ps_mappings :: "mapping_entry list"
  ps_resident :: "u64 \<Rightarrow> range list option"
  ps_epoch :: u64
  ps_stats :: engine_stats
  ps_cache_sim :: ggml_moe_cache_lru
  ps_cache_sim_owned :: bool
  ps_trace :: "ggml_moe_trace option"
  ps_trace_entry :: u64
  ps_histogram :: "string \<Rightarrow> u64 list option"
  ps_histogram_entries :: u64
  ps_histogram_token_rows :: u64
  ps_pool :: "prefetch_pool option"
  ps_gpu_trace :: "ggml_moe_gpu_trace option"
  ps_cuda_trace :: "ggml_cuda_transfer_writer option"

definition state_new :: "'o \<Rightarrow> 'o prefetch_state" where
  "state_new o1 = \<lparr>ps_os = o1, ps_mappings = [], ps_resident = (\<lambda>_. None), ps_epoch = 1, ps_stats = engine_stats_init,
     ps_cache_sim = lru_new 0, ps_cache_sim_owned = False, ps_trace = None, ps_trace_entry = 0,
     ps_histogram = (\<lambda>_. None), ps_histogram_entries = 0, ps_histogram_token_rows = 0, ps_pool = None,
     ps_gpu_trace = None, ps_cuda_trace = None\<rparr>"

section \<open>Residency probes\<close>

definition chunk_resident :: "'o host \<Rightarrow> 'o \<Rightarrow> u64 \<Rightarrow> u64 \<Rightarrow> bool" where
  "chunk_resident os o1 addr len =
     (let page = os_page os; astart = page_floor page addr; alen = (addr + len) - astart; npages = page_count page alen in
      if npages > prefetch_chunk div 4096 + 2 then False
      else case os_mincore os o1 astart alen of None \<Rightarrow> False | Some vec \<Rightarrow> all_pages_in vec npages)"

definition range_resident :: "'o host \<Rightarrow> 'o \<Rightarrow> u64 \<Rightarrow> u64 \<Rightarrow> bool" where
  "range_resident os o1 addr len =
     (let page = os_page os in
      if len = 0 then True
      else let astart = page_floor page addr; alen = (addr + len) - astart; npages = page_count page alen in
        case os_mincore os o1 astart alen of None \<Rightarrow> False | Some vec \<Rightarrow> all_pages_in vec npages)"

fun residency_loop :: "'o host \<Rightarrow> 'o \<Rightarrow> ggml_tensor \<Rightarrow> mapping_entry list \<Rightarrow> u64 \<Rightarrow> u64 \<Rightarrow> u64 \<times> u64" where
  "residency_loop os o1 w [] resident capacity = (resident, capacity)"
| "residency_loop os o1 w (m # ms) resident capacity =
     (let astart = max (me_base m) (tn_data w); aend = min (me_base m + me_size m) (tn_data w + tn_nbytes w) in
      if aend \<le> astart then residency_loop os o1 w ms resident capacity
      else let capacity = capacity + (aend - astart); page = os_page os; pstart = page_floor page astart;
               plen = aend - pstart; npages = page_count page plen in
        case os_mincore os o1 pstart plen of
          None \<Rightarrow> residency_loop os o1 w ms resident capacity
        | Some vec \<Rightarrow> residency_loop os o1 w ms
            (resident + of_nat (length (filter (\<lambda>i. vec i AND 1 \<noteq> 0) [0..<unat npages])) * page) capacity)"

definition account_tensor_residency ::
  "'o host \<Rightarrow> 'o prefetch_state \<Rightarrow> ggml_tensor option \<Rightarrow> 'o prefetch_state" where
  "account_tensor_residency os s w = (case w of None \<Rightarrow> s | Some w \<Rightarrow>
     if tn_data w = 0 then s
     else let (resident, capacity) = residency_loop os (ps_os s) w (ps_mappings s) 0 0 in
       if capacity > 0
       then s\<lparr>ps_stats := (ps_stats s)\<lparr>es_resident_bytes := resident, es_capacity_bytes := capacity\<rparr>\<rparr>
       else s)"

section \<open>Mappings and resident ranges\<close>

definition is_mapped :: "'o prefetch_state \<Rightarrow> u64 \<Rightarrow> u64 \<Rightarrow> bool" where
  "is_mapped s a len = list_ex (\<lambda>m. a \<ge> me_base m \<and> a + len \<le> me_base m + me_size m) (ps_mappings s)"

definition register_resident_ranges :: "'o prefetch_state \<Rightarrow> ggml_tensor \<Rightarrow> range list \<Rightarrow> 'o prefetch_state" where
  "register_resident_ranges s w ranges =
     s\<lparr>ps_resident := (ps_resident s)(tn_data w := Some (merged_resident ranges))\<rparr>"

definition ggml_moe_prefetch_register_mapping :: "'o prefetch_state \<Rightarrow> u64 \<Rightarrow> u64 \<Rightarrow> 'o prefetch_state" where
  "ggml_moe_prefetch_register_mapping s base nbytes =
     (if base = 0 \<or> nbytes = 0 then s
      else if list_ex (\<lambda>m. me_base m = base) (ps_mappings s) then s
      else s\<lparr>ps_mappings := ps_mappings s @ [\<lparr>me_base = base, me_size = nbytes\<rparr>]\<rparr>)"

definition ggml_moe_prefetch_unregister_mapping :: "'o prefetch_state \<Rightarrow> u64 \<Rightarrow> 'o prefetch_state" where
  "ggml_moe_prefetch_unregister_mapping s base =
     (let mapping_size = (case filter (\<lambda>m. me_base m = base) (ps_mappings s) of [] \<Rightarrow> 0 | m # _ \<Rightarrow> me_size m);
          s = s\<lparr>ps_mappings := filter (\<lambda>m. me_base m \<noteq> base) (ps_mappings s)\<rparr>
      in if mapping_size > 0
         then let mapping_end = base + mapping_size in
           s\<lparr>ps_resident := (\<lambda>a. if a \<ge> base \<and> a < mapping_end then None else ps_resident s a)\<rparr>
         else s)"

section \<open>The cache shadow and the expert trace\<close>

definition str_one :: string where "str_one = ''1''"

definition ggml_moe_cache_sim_try_acquire :: "'o host \<Rightarrow> 'o prefetch_state \<Rightarrow> u64 \<Rightarrow> bool \<times> 'o prefetch_state" where
  "ggml_moe_cache_sim_try_acquire os s capacity_bytes =
     (if capacity_bytes = 0 then (False, s)
      else if ps_cache_sim_owned s then (False, s)
      else let s = s\<lparr>ps_cache_sim := lru_reset (ps_cache_sim s) capacity_bytes, ps_cache_sim_owned := True,
                     ps_trace_entry := 0\<rparr> in
        case env_path os ''GGML_MOE_TRACE_FILE'' of
          None \<Rightarrow> (True, s)
        | Some path \<Rightarrow>
            let (file, o2) = os_fopen os (ps_os s) path; s = s\<lparr>ps_os := o2\<rparr> in
            (case file of
               None \<Rightarrow> (True, s)
             | Some f \<Rightarrow> (True, s\<lparr>ps_trace := Some (trace_new (Some f) trace_max_records
                                    (os_getenv os ''GGML_MOE_TRACE_REQUEST_ONLY'' = Some str_one))\<rparr>)))"

definition ggml_moe_trace_request_scoped :: "'o prefetch_state \<Rightarrow> bool" where
  "ggml_moe_trace_request_scoped s =
     ((case ps_trace s of None \<Rightarrow> False | Some t \<Rightarrow> trace_request_scoped t)
      \<or> ggml_moe_gpu_trace_enabled (ps_gpu_trace s) \<or> ggml_cuda_transfer_trace_enabled (ps_cuda_trace s))"

definition ggml_moe_trace_set_scope :: "'o prefetch_state \<Rightarrow> ggml_moe_trace_scope \<Rightarrow> 'o prefetch_state" where
  "ggml_moe_trace_set_scope s scope =
     s\<lparr>ps_gpu_trace := ggml_moe_gpu_trace_set_scope (ps_gpu_trace s) scope,
       ps_cuda_trace := ggml_cuda_transfer_trace_set_scope (ps_cuda_trace s) scope,
       ps_trace := map_option (\<lambda>t. trace_set_scope t scope) (ps_trace s)\<rparr>"

text \<open>Destroying the trace finishes it; the file is closed afterwards.\<close>

definition ggml_moe_cache_sim_release :: "'o host \<Rightarrow> 'o prefetch_state \<Rightarrow> 'o prefetch_state" where
  "ggml_moe_cache_sim_release os s =
     (if \<not> ps_cache_sim_owned s then s
      else let o2 = (case ps_trace s of None \<Rightarrow> ps_os s | Some t \<Rightarrow>
                       (case tr_file (trace_finish t) of None \<Rightarrow> ps_os s | Some f \<Rightarrow> os_fclose os (ps_os s) f))
           in s\<lparr>ps_cache_sim_owned := False, ps_trace := None, ps_os := o2,
                ps_cache_sim := lru_reset (ps_cache_sim s) 0\<rparr>)"

definition ggml_moe_prefetch_set_cache_sim_capacity :: "'o prefetch_state \<Rightarrow> u64 \<Rightarrow> 'o prefetch_state" where
  "ggml_moe_prefetch_set_cache_sim_capacity s capacity_bytes =
     (if ps_cache_sim_owned s then s else s\<lparr>ps_cache_sim := lru_reset (ps_cache_sim s) capacity_bytes\<rparr>)"

definition ggml_moe_prefetch_new_epoch :: "'o prefetch_state \<Rightarrow> 'o prefetch_state" where
  "ggml_moe_prefetch_new_epoch s = s\<lparr>ps_epoch := ps_epoch s + 1\<rparr>"

section \<open>Statistics\<close>

record ggml_moe_prefetch_stats =
  st_engine :: engine_stats
  st_cache_sim :: ggml_moe_cache_stats

definition ggml_moe_prefetch_get_stats :: "'o prefetch_state \<Rightarrow> ggml_moe_prefetch_stats" where
  "ggml_moe_prefetch_get_stats s = \<lparr>st_engine = ps_stats s, st_cache_sim = lru_stats (ps_cache_sim s)\<rparr>"

definition ggml_moe_prefetch_reset_stats :: "'o prefetch_state \<Rightarrow> 'o prefetch_state" where
  "ggml_moe_prefetch_reset_stats s =
     s\<lparr>ps_stats := engine_stats_init, ps_histogram := (\<lambda>_. None), ps_histogram_entries := 0,
       ps_histogram_token_rows := 0,
       ps_cache_sim := lru_reset (ps_cache_sim s) (cs_capacity_bytes (lru_stats (ps_cache_sim s)))\<rparr>"

record ggml_moe_histogram_snapshot =
  hs_tensors :: "string \<Rightarrow> u64 list option"
  hs_kernel_entries :: u64
  hs_token_rows :: u64

definition ggml_moe_prefetch_get_histogram :: "'o prefetch_state \<Rightarrow> ggml_moe_histogram_snapshot" where
  "ggml_moe_prefetch_get_histogram s = \<lparr>hs_tensors = ps_histogram s, hs_kernel_entries = ps_histogram_entries s,
     hs_token_rows = ps_histogram_token_rows s\<rparr>"

end
