(* ===== verification/Prefetch_Engine.thy ===== *)
theory Prefetch_Engine
  imports Prefetch_State
begin

text \<open>
  The operations of the prefetch engine (\<open>ggml/src/ggml-moe-prefetch.cpp\<close>) that read or move
  pages: the worker loop, cut at its accesses to shared state; the queue; the calls the
  scheduler makes per node and tensor; the kernel-entry attribution and the kernel hooks.

  A call that blocks takes the schedule of the worker steps that happen while it blocks (a list
  of worker numbers) and is \<open>None\<close> when that schedule ends too early; the worker theory shows
  that a schedule that ends the wait always exists. \<open>None\<close> also stands for a chunk loop that
  never ends because a range wraps around the address space.
\<close>

section \<open>Worker threads\<close>

definition upd_ticket :: "prefetch_pool \<Rightarrow> nat \<Rightarrow> (ticket \<Rightarrow> ticket) \<Rightarrow> prefetch_pool" where
  "upd_ticket p t f = p\<lparr>pl_heap := (pl_heap p)[t := f (pl_heap p ! t)]\<rparr>"

definition set_worker :: "prefetch_pool \<Rightarrow> nat \<Rightarrow> worker \<Rightarrow> prefetch_pool" where
  "set_worker p i w = p\<lparr>pl_workers := (pl_workers p)[i := w]\<rparr>"

text \<open>
  The two condition variables. A notification of \<open>cv_work\<close> sends the sleeping workers back to
  the test of their predicate, one of \<open>cv_done\<close> unblocks every waiter; without it neither moves.
\<close>

definition wake :: "worker \<Rightarrow> worker" where
  "wake w = (if w = W_Asleep then W_Idle else w)"

definition notify_work :: "prefetch_pool \<Rightarrow> prefetch_pool" where
  "notify_work p = p\<lparr>pl_workers := map wake (pl_workers p)\<rparr>"

definition notify_done :: "prefetch_pool \<Rightarrow> prefetch_pool" where
  "notify_done p = p\<lparr>pl_waiting := (\<lambda>_. None)\<rparr>"

text \<open>The probe and the read of one job: the new system state and whether it was read.\<close>

definition worker_read :: "'o host \<Rightarrow> 'o \<times> prefetch_pool \<Rightarrow> job \<Rightarrow> ('o \<times> prefetch_pool) \<times> bool" where
  "worker_read os op j =
     (let (o1, p) = op; page = os_page os; p = p\<lparr>pl_n_jobs := pl_n_jobs p + 1\<rparr> in
      if chunk_resident os o1 (jb_addr j) (ucast (jb_len j))
      then ((o1, p\<lparr>pl_n_skipped := pl_n_skipped p + 1\<rparr>), False)
      else let astart = page_floor page (jb_addr j);
               alen = page_floor page (jb_addr j + ucast (jb_len j) + page - 1) - astart;
               (ok, o2) = os_madvise os o1 astart alen Madv_Populate_Read
           in if ok then ((o2, p\<lparr>pl_bytes_populated := pl_bytes_populated p + alen\<rparr>), True)
              else ((o2, p), False))"

definition worker_step :: "'o host \<Rightarrow> nat \<Rightarrow> 'o \<times> prefetch_pool \<Rightarrow> ('o \<times> prefetch_pool) option" where
  "worker_step os i op =
     (let (o1, p) = op in
      if i \<ge> length (pl_workers p) then None
      else case pl_workers p ! i of
        W_Idle \<Rightarrow>
          if pl_shutdown p then Some (o1, set_worker p i W_Exited)
          else (case pl_queue p of [] \<Rightarrow> Some (o1, set_worker p i W_Asleep)
                | j # q \<Rightarrow> Some (o1, set_worker (p\<lparr>pl_queue := q\<rparr>) i (W_Popped j)))
      | W_Popped j \<Rightarrow>
          (let ((o2, p2), done_read) = worker_read os (o1, p) j in Some (o2, set_worker p2 i (W_Probed j done_read)))
      | W_Probed j done_read \<Rightarrow>
          (let left = tk_pending (pl_heap p ! jb_tk j);
               p = upd_ticket p (jb_tk j) (\<lambda>tk. tk\<lparr>tk_pending := tk_pending tk - 1\<rparr>)
           in Some (o1, set_worker p i (W_Counted j done_read left)))
      | W_Counted j done_read left \<Rightarrow>
          (let p = (if done_read \<and> tk_track_reads (pl_heap p ! jb_tk j)
                    then upd_ticket p (jb_tk j) (\<lambda>tk. tk\<lparr>tk_read_chunks := tk_read_chunks tk @ [(jb_addr j, jb_len j)]\<rparr>)
                    else p);
               p = (if left = 1 then notify_done p else p)
           in Some (o1, set_worker p i W_Idle))
      | W_Asleep \<Rightarrow> None
      | W_Exited \<Rightarrow> None)"

fun run_workers :: "'o host \<Rightarrow> nat list \<Rightarrow> 'o \<times> prefetch_pool \<Rightarrow> ('o \<times> prefetch_pool) option" where
  "run_workers os [] op = Some op"
| "run_workers os (i # is) op = (case worker_step os i op of None \<Rightarrow> None | Some op' \<Rightarrow> run_workers os is op')"

section \<open>Starting and stopping the pool\<close>

text \<open>
  \<open>stop()\<close> up to the joins: outstanding tickets are completed, the queue is dropped and both
  condition variables are notified.
\<close>

definition pool_shutdown :: "prefetch_pool \<Rightarrow> prefetch_pool" where
  "pool_shutdown p =
     (let p = p\<lparr>pl_shutdown := True\<rparr>;
          p = foldl (\<lambda>p j. upd_ticket p (jb_tk j) (\<lambda>tk. tk\<lparr>tk_pending := tk_pending tk - 1\<rparr>)) p (pl_queue p)
      in notify_done (notify_work (p\<lparr>pl_queue := []\<rparr>)))"

definition pool_stop :: "'o host \<Rightarrow> nat list \<Rightarrow> 'o \<times> prefetch_pool \<Rightarrow> ('o \<times> prefetch_pool) option" where
  "pool_stop os sched op =
     (case run_workers os sched (fst op, pool_shutdown (snd op)) of None \<Rightarrow> None
      | Some (o2, p) \<Rightarrow> if list_all (\<lambda>w. w = W_Exited) (pl_workers p) then Some (o2, p\<lparr>pl_workers := []\<rparr>) else None)"

definition pool_start :: "prefetch_pool \<Rightarrow> nat \<Rightarrow> prefetch_pool" where
  "pool_start p n = (let p = (pool_shutdown p)\<lparr>pl_workers := []\<rparr> in
     p\<lparr>pl_shutdown := False, pl_workers := replicate n W_Idle\<rparr>)"

definition populate_read_supported :: "'o host \<Rightarrow> 'o \<Rightarrow> bool \<times> 'o" where
  "populate_read_supported os o1 =
     (let page = os_page os; (m, o2) = os_mmap os o1 page in
      case m of None \<Rightarrow> (False, o2)
      | Some p \<Rightarrow> let (ok, o3) = os_madvise os o2 p page Madv_Populate_Read in (ok, os_munmap os o3 p page))"

text \<open>\<open>pool.reset()\<close>: the last owner stops the pool.\<close>

definition pool_reset :: "'o host \<Rightarrow> nat list \<Rightarrow> 'o prefetch_state \<Rightarrow> 'o prefetch_state option" where
  "pool_reset os sched s = (case ps_pool s of None \<Rightarrow> Some s
     | Some p \<Rightarrow> (case pool_stop os sched (ps_os s, p) of None \<Rightarrow> None
                 | Some (o2, _) \<Rightarrow> Some (s\<lparr>ps_os := o2, ps_pool := None\<rparr>)))"

definition ggml_moe_prefetch_set_n_threads ::
  "'o host \<Rightarrow> nat list \<Rightarrow> 'o prefetch_state \<Rightarrow> int \<Rightarrow> 'o prefetch_state option" where
  "ggml_moe_prefetch_set_n_threads os sched s n_threads =
     (if n_threads \<le> 0 then pool_reset os sched s
      else let (ok, o2) = populate_read_supported os (ps_os s); s = s\<lparr>ps_os := o2\<rparr> in
        if \<not> ok then pool_reset os sched s
        else if (case ps_pool s of None \<Rightarrow> False | Some p \<Rightarrow> length (pl_workers p) = nat n_threads) then Some s
        else (case pool_reset os sched s of None \<Rightarrow> None
              | Some s \<Rightarrow> Some (s\<lparr>ps_pool := Some (pool_start pool_new (nat n_threads))\<rparr>)))"

definition ggml_moe_prefetch_enabled :: "'o prefetch_state \<Rightarrow> bool" where
  "ggml_moe_prefetch_enabled s = (ps_pool s \<noteq> None)"

section \<open>Enqueueing\<close>

definition prefetch_max_queue :: nat where "prefetch_max_queue = 65536"

definition mk_job :: "ggml_tensor \<Rightarrow> nat \<Rightarrow> u64 \<times> u64 \<Rightarrow> job" where
  "mk_job w t ol = \<lparr>jb_addr = tn_data w + fst ol, jb_len = ucast (snd ol), jb_tk = t\<rparr>"

text \<open>\<open>pool.tickets[w]\<close>, created when missing.\<close>

definition get_ticket :: "prefetch_pool \<Rightarrow> u64 \<Rightarrow> nat \<times> prefetch_pool" where
  "get_ticket p a = (case pl_tickets p a of Some t \<Rightarrow> (t, p)
     | None \<Rightarrow> (length (pl_heap p), p\<lparr>pl_tickets := (pl_tickets p)(a := Some (length (pl_heap p))),
                                     pl_heap := pl_heap p @ [ticket_new]\<rparr>))"

text \<open>A ticket is taken over by the current epoch.\<close>

definition begin_epoch :: "prefetch_pool \<Rightarrow> nat \<Rightarrow> u64 \<Rightarrow> bool \<Rightarrow> (u64 \<times> u64) list \<Rightarrow> prefetch_pool" where
  "begin_epoch p t cur_epoch track_reads prefetched =
     upd_ticket p t (\<lambda>tk. tk\<lparr>tk_epoch := cur_epoch, tk_track_reads := track_reads, tk_read_chunks := [],
                                 tk_prefetched_ranges := prefetched\<rparr>)"

definition push_jobs :: "prefetch_pool \<Rightarrow> nat \<Rightarrow> job list \<Rightarrow> bool \<Rightarrow> prefetch_pool" where
  "push_jobs p t jobs urgent =
     (if jobs = [] then p
      else let p = upd_ticket p t (\<lambda>tk. tk\<lparr>tk_pending := tk_pending tk + of_nat (length jobs)\<rparr>)
           in notify_work (p\<lparr>pl_queue := (if urgent then jobs @ pl_queue p else pl_queue p @ jobs)\<rparr>))"

definition enqueue_ranges ::
  "'o prefetch_state \<Rightarrow> ggml_tensor \<Rightarrow> range list \<Rightarrow> bool \<Rightarrow> bool \<Rightarrow> (bool \<times> 'o prefetch_state) option" where
  "enqueue_ranges s w ranges urgent track_reads =
     (case ps_pool s of None \<Rightarrow> Some (False, s)
      | Some p0 \<Rightarrow>
        if \<not> is_mapped s (tn_data w) (tn_nbytes w) then Some (False, s)
        else let cur_epoch = ps_epoch s in
        if pl_shutdown p0 then Some (False, s)
        else let (t, p) = get_ticket p0 (tn_ptr w) in
        if tk_epoch (pl_heap p ! t) = cur_epoch then Some (True, s\<lparr>ps_pool := Some p\<rparr>)
        else if \<not> urgent \<and> length (pl_queue p) > prefetch_max_queue then Some (True, s\<lparr>ps_pool := Some p\<rparr>)
        else
          let p = begin_epoch p t cur_epoch track_reads (map (\<lambda>(a, l). (tn_data w + a, l)) ranges);
              s = s\<lparr>ps_stats := (ps_stats s)\<lparr>es_prefetched := es_prefetched (ps_stats s) + of_nat (length ranges)\<rparr>\<rparr>
          in case range_chunks ranges of None \<Rightarrow> None
          | Some cs \<Rightarrow> Some (True, s\<lparr>ps_pool := Some (push_jobs p t (map (mk_job w t) cs) urgent)\<rparr>))"

datatype ggml_op = Op_Mul_Mat_Id | Op_Moe_Fused_Up_Gate | Op_Other

record ggml_node =
  nd_op :: ggml_op
  nd_src :: "nat \<Rightarrow> ggml_tensor option"

definition node_weights_and_ids :: "ggml_node \<Rightarrow> ggml_tensor option \<times> ggml_tensor option \<times> ggml_tensor option" where
  "node_weights_and_ids node = (case nd_op node of
       Op_Mul_Mat_Id \<Rightarrow> (nd_src node 0, None, nd_src node 2)
     | Op_Moe_Fused_Up_Gate \<Rightarrow> (nd_src node 0, nd_src node 1, nd_src node 3)
     | Op_Other \<Rightarrow> (None, None, None))"

text \<open>The tests on the node every hook makes: the weights and the ids, or nothing to do.\<close>

definition node_experts :: "ggml_node \<Rightarrow> (ggml_tensor \<times> ggml_tensor option \<times> ggml_tensor) option" where
  "node_experts node = (case node_weights_and_ids node of
       (Some w0, w1, Some ids) \<Rightarrow> if tn_data ids = 0 then None else Some (w0, w1, ids)
     | _ \<Rightarrow> None)"

definition ggml_moe_prefetch_node :: "memory \<Rightarrow> 'o prefetch_state \<Rightarrow> ggml_node \<Rightarrow> 'o prefetch_state option" where
  "ggml_moe_prefetch_node mem s node = (case node_experts node of None \<Rightarrow> Some s
     | Some (w0, w1, ids) \<Rightarrow>
        (case enqueue_ranges s w0 (collect_selected_ranges mem w0 ids) True False of None \<Rightarrow> None
         | Some (_, s) \<Rightarrow> (case w1 of None \<Rightarrow> Some s
             | Some w1 \<Rightarrow> map_option snd (enqueue_ranges s w1 (collect_selected_ranges mem w1 ids) True False))))"

definition ggml_moe_prefetch_tensor :: "'o prefetch_state \<Rightarrow> ggml_tensor option \<Rightarrow> 'o prefetch_state option" where
  "ggml_moe_prefetch_tensor s w = (case w of None \<Rightarrow> Some s
     | Some w \<Rightarrow> if tn_data w = 0 then Some s
        else map_option snd (enqueue_ranges s w (collect_nonresident_ranges (ps_resident s (tn_data w)) w) False True))"

section \<open>Hints to the kernel\<close>

text \<open>One \<open>madvise\<close> per entry, from the page floor to its end; results are ignored.\<close>

definition advise_all :: "'o host \<Rightarrow> advice \<Rightarrow> 'o \<Rightarrow> (u64 \<times> u64) list \<Rightarrow> 'o" where
  "advise_all os adv = foldl (\<lambda>o1 (start, len).
     let astart = page_floor (os_page os) start in snd (os_madvise os o1 astart (start + len - astart) adv))"

definition legacy_madvise ::
  "'o host \<Rightarrow> memory \<Rightarrow> 'o prefetch_state \<Rightarrow> ggml_tensor option \<Rightarrow> ggml_tensor option \<Rightarrow> 'o prefetch_state" where
  "legacy_madvise os mem s w ids = (case (w, ids) of
       (Some w, Some ids) \<Rightarrow>
          if tn_data w = 0 \<or> tn_data ids = 0 then s
          else s\<lparr>ps_os := advise_all os Madv_Willneed (ps_os s)
                 (map (\<lambda>(a, l). (tn_data w + a, l)) (collect_selected_ranges mem w ids))\<rparr>
     | _ \<Rightarrow> s)"

definition legacy_madvise_ranges ::
  "'o host \<Rightarrow> 'o prefetch_state \<Rightarrow> ggml_tensor \<Rightarrow> range list \<Rightarrow> bool \<times> 'o prefetch_state" where
  "legacy_madvise_ranges os s w ranges =
     (if \<not> is_mapped s (tn_data w) (tn_nbytes w) then (False, s)
      else (True, s\<lparr>ps_os := advise_all os Madv_Willneed (ps_os s) (map (\<lambda>(a, l). (tn_data w + a, l)) ranges)\<rparr>))"

definition ggml_moe_prefetch_cold :: "'o host \<Rightarrow> 'o prefetch_state \<Rightarrow> ggml_tensor \<Rightarrow> 'o prefetch_state" where
  "ggml_moe_prefetch_cold os s w = (case ps_pool s of None \<Rightarrow> s
     | Some p \<Rightarrow> (case pl_tickets p (tn_ptr w) of None \<Rightarrow> s
         | Some t \<Rightarrow> if \<not> tk_track_reads (pl_heap p ! t) then s
            else let chunks = tk_read_chunks (pl_heap p ! t);
                     p = upd_ticket p t (\<lambda>tk. tk\<lparr>tk_read_chunks := []\<rparr>);
                     o2 = advise_all os Madv_Cold (ps_os s) (map (\<lambda>(a, l). (a, ucast l)) chunks)
                 in s\<lparr>ps_os := o2, ps_pool := Some (p\<lparr>pl_n_colded := pl_n_colded p + of_nat (length chunks)\<rparr>)\<rparr>))"

section \<open>Waiting\<close>

definition ticket_done :: "prefetch_pool \<Rightarrow> nat \<Rightarrow> bool" where
  "ticket_done p t = (sint (tk_pending (pl_heap p ! t)) \<le> 0)"

text \<open>
  \<open>cv_done.wait(lock, predicate)\<close> of the thread \<open>me\<close>: a running thread tests the predicate and
  blocks when it is false, a blocked one stays blocked until a notification clears its entry. The
  test and the blocking are one step: they happen under \<open>mtx\<close>, and so does every notification
  (the counter alone is lowered outside it, and a worker that lowers it in between still has its
  notification ahead).
\<close>

definition wait_over :: "prefetch_pool \<Rightarrow> nat \<Rightarrow> bool" where
  "wait_over p t = (pl_shutdown p \<or> ticket_done p t)"

definition block :: "nat \<Rightarrow> nat \<Rightarrow> prefetch_pool \<Rightarrow> prefetch_pool" where
  "block me t p = p\<lparr>pl_waiting := (pl_waiting p)(me := Some t)\<rparr>"

fun wait_loop :: "'o host \<Rightarrow> nat list \<Rightarrow> nat \<Rightarrow> nat \<Rightarrow> 'o \<times> prefetch_pool \<Rightarrow> ('o \<times> prefetch_pool) option" where
  "wait_loop os sched me t op =
     (if pl_waiting (snd op) me = None \<and> wait_over (snd op) t then Some op
      else case sched of [] \<Rightarrow> None
      | i # is \<Rightarrow> (case worker_step os i (fst op, block me t (snd op)) of None \<Rightarrow> None
           | Some op' \<Rightarrow> wait_loop os is me t op'))"

declare wait_loop.simps [simp del]

definition ggml_moe_prefetch_wait ::
  "'o host \<Rightarrow> nat list \<Rightarrow> 'o prefetch_state \<Rightarrow> ggml_tensor \<Rightarrow> 'o prefetch_state option" where
  "ggml_moe_prefetch_wait os sched s w = (case ps_pool s of None \<Rightarrow> Some s
     | Some p \<Rightarrow> (let wait_start = os_now os (ps_os s) in
         case pl_tickets p (tn_ptr w) of None \<Rightarrow> Some s
         | Some t \<Rightarrow> if ticket_done p t then Some s
            else (case wait_loop os sched 0 t (ps_os s, p) of None \<Rightarrow> None
              | Some (o2, p2) \<Rightarrow> Some (s\<lparr>ps_os := o2, ps_pool := Some p2,
                  ps_stats := (ps_stats s)\<lparr>es_defer_wait_ns := es_defer_wait_ns (ps_stats s) + (os_now os o2 - wait_start)\<rparr>\<rparr>))))"

definition ggml_moe_prefetch_experts ::
  "'o host \<Rightarrow> nat list \<Rightarrow> 'o prefetch_state \<Rightarrow> ggml_tensor option \<Rightarrow> u32 list option
    \<Rightarrow> (bool \<times> 'o prefetch_state) option" where
  "ggml_moe_prefetch_experts os sched s w expert_ids =
     (case collect_ordered_expert_ranges w expert_ids of None \<Rightarrow> Some (False, s)
      | Some ranges \<Rightarrow>
        let w = the w; s = register_resident_ranges s w ranges in
        (case enqueue_ranges s w ranges False False of None \<Rightarrow> None
         | Some (True, s) \<Rightarrow> (case ggml_moe_prefetch_wait os sched s w of None \<Rightarrow> None
             | Some s \<Rightarrow> Some (True, account_tensor_residency os s (Some w)))
         | Some (False, s) \<Rightarrow> (let (ok, s) = legacy_madvise_ranges os s w ranges in
             Some (ok, if ok then account_tensor_residency os s (Some w) else s))))"

end
