(* ===== verification/Kernel_Entry.thy ===== *)
theory Kernel_Entry
  imports Prefetch_Engine
begin

text \<open>
  What happens at the entry of an expert matrix product (\<open>attribute_kernel_entry\<close> and the
  three kernel hooks of \<open>ggml/src/ggml-moe-prefetch.cpp\<close>): the advisory histogram, the feed
  of the cache shadow and its trace, and the residency telemetry. The results show that the
  lanes are independent and what each counter counts.
\<close>

section \<open>The environment switch\<close>

definition is_space :: "char \<Rightarrow> bool" where
  "is_space c \<longleftrightarrow> c \<in> {CHR '' '', CHR 0x09, CHR 0x0A, CHR 0x0B, CHR 0x0C, CHR 0x0D}"

text \<open>\<open>atoi\<close>: white space, an optional sign, digits; 0 when there are none.\<close>

definition c_atoi :: "string \<Rightarrow> int" where
  "c_atoi s = (case dropWhile is_space s of
       [] \<Rightarrow> 0
     | c # cs \<Rightarrow> if c = CHR ''-'' then - int (read_digits (takeWhile is_digit cs))
                else if c = CHR ''+'' then int (read_digits (takeWhile is_digit cs))
                else int (read_digits (takeWhile is_digit (c # cs))))"

definition stats_enabled :: "'o host \<Rightarrow> bool" where
  "stats_enabled os = (case os_getenv os ''GGML_MOE_STATS'' of None \<Rightarrow> True | Some env \<Rightarrow> c_atoi env \<noteq> 0)"

section \<open>Attribution\<close>

definition mark_seen :: "nat \<Rightarrow> bool list \<Rightarrow> int \<Rightarrow> bool list" where
  "mark_seen n_as seen i = (if i < 0 \<or> i \<ge> int n_as then seen else seen[nat i := True])"

definition entry_seen :: "memory \<Rightarrow> nat \<Rightarrow> ggml_tensor \<Rightarrow> bool list" where
  "entry_seen mem n_as ids = foldl (mark_seen n_as) (replicate n_as False) (ids_list mem ids)"

definition resize_counts :: "nat \<Rightarrow> u64 list \<Rightarrow> u64 list" where
  "resize_counts n cs = (if length cs < n then cs @ replicate (n - length cs) 0 else cs)"

definition bump_counts :: "nat \<Rightarrow> bool list \<Rightarrow> u64 list \<Rightarrow> u64 list" where
  "bump_counts n seen cs = foldl (\<lambda>cs i. if seen ! i then cs[i := cs ! i + 1] else cs) cs [0..<n]"

definition histogram_lane :: "ggml_tensor \<Rightarrow> ggml_tensor \<Rightarrow> bool list \<Rightarrow> 'o prefetch_state \<Rightarrow> 'o prefetch_state" where
  "histogram_lane w ids seen s =
     (let n = length seen;
          counts = resize_counts n (case ps_histogram s (tn_name w) of None \<Rightarrow> [] | Some cs \<Rightarrow> cs)
      in s\<lparr>ps_histogram := (ps_histogram s)(tn_name w := Some (bump_counts n seen counts)),
           ps_histogram_entries := ps_histogram_entries s + 1,
           ps_histogram_token_rows := ps_histogram_token_rows s + of_int (tn_ne ids 1)\<rparr>)"

text \<open>The slices of the seen experts that pass the guards: expert, offset, bytes.\<close>

definition shadow_slices :: "ggml_tensor \<Rightarrow> bool list \<Rightarrow> (nat \<times> u64 \<times> u64) list" where
  "shadow_slices w seen =
     (let stride = tn_nb w 2; wbytes = tn_nbytes w in
      map (\<lambda>i. (i, of_nat i * stride, min stride (wbytes - of_nat i * stride)))
       (filter (\<lambda>i. seen ! i \<and> stride \<noteq> 0 \<and> \<not> (of_nat i > size_max div stride) \<and> \<not> (of_nat i * stride \<ge> wbytes))
         [0..<length seen]))"

definition slice_key :: "ggml_tensor \<Rightarrow> nat \<Rightarrow> ggml_moe_cache_key" where
  "slice_key w i = \<lparr>ck_tensor_data = tn_data w, ck_expert_stride = tn_nb w 2, ck_expert = of_nat i\<rparr>"

fun shadow_feed ::
  "ggml_tensor \<Rightarrow> ggml_tensor \<Rightarrow> u64 \<Rightarrow> u64 \<Rightarrow> (nat \<times> u64 \<times> u64) list \<Rightarrow> ggml_moe_cache_lru \<times> ggml_moe_trace option
    \<Rightarrow> (ggml_moe_cache_lru \<times> ggml_moe_trace option) option" where
  "shadow_feed w ids entry epoch [] ct = Some ct"
| "shadow_feed w ids entry epoch ((i, off, bytes) # sl) (c, t) =
     (case lru_access c (slice_key w i) bytes of None \<Rightarrow> None
      | Some (result, c) \<Rightarrow>
         (case t of None \<Rightarrow> shadow_feed w ids entry epoch sl (c, None)
          | Some tr \<Rightarrow>
             (case trace_record tr \<lparr>row_entry = entry, row_epoch = epoch, row_rows = tn_ne ids 1, row_name = tn_name w,
                     row_type = tn_type w, row_expert = of_nat i, row_stride = tn_nb w 2, row_offset = off,
                     row_bytes = bytes, row_hit = ca_hit result, row_bypass = ca_bypassed result\<rparr> of
                None \<Rightarrow> None | Some tr \<Rightarrow> shadow_feed w ids entry epoch sl (c, Some tr))))"

definition shadow_lane :: "ggml_tensor \<Rightarrow> ggml_tensor \<Rightarrow> bool list \<Rightarrow> 'o prefetch_state \<Rightarrow> 'o prefetch_state option" where
  "shadow_lane w ids seen s =
     (if cs_capacity_bytes (lru_stats (ps_cache_sim s)) > 0
      then let entry = (case ps_trace s of None \<Rightarrow> 0 | Some _ \<Rightarrow> ps_trace_entry s);
               s = (case ps_trace s of None \<Rightarrow> s | Some _ \<Rightarrow> s\<lparr>ps_trace_entry := ps_trace_entry s + 1\<rparr>)
           in case shadow_feed w ids entry (ps_epoch s) (shadow_slices w seen) (ps_cache_sim s, ps_trace s) of
                None \<Rightarrow> None
              | Some (c, t) \<Rightarrow> Some (s\<lparr>ps_cache_sim := c, ps_trace := t\<rparr>)
      else Some s)"

definition in_range :: "u64 \<Rightarrow> u64 \<times> u64 \<Rightarrow> bool" where
  "in_range off r = (off \<ge> fst r \<and> off < fst r + snd r)"

definition entry_prefetched :: "'o prefetch_state \<Rightarrow> ggml_tensor \<Rightarrow> (u64 \<times> u64) list" where
  "entry_prefetched s w = (case ps_pool s of None \<Rightarrow> []
     | Some p \<Rightarrow> (case pl_tickets p (tn_ptr w) of None \<Rightarrow> [] | Some t \<Rightarrow> tk_prefetched_ranges (pl_heap p ! t)))"

definition attribute_expert :: "'o host \<Rightarrow> 'o \<Rightarrow> ggml_tensor \<Rightarrow> range list \<Rightarrow> (u64 \<times> u64) list \<Rightarrow> engine_stats \<Rightarrow> nat \<Rightarrow> engine_stats" where
  "attribute_expert os o1 w pinned prefetched st i =
     (let st = st\<lparr>es_requests := es_requests st + 1\<rparr>; stride = tn_nb w 2; base = tn_data w; off = of_nat i * stride;
          resident = list_ex (in_range off) pinned;
          prefetched_cover = list_ex (\<lambda>r. in_range off (fst r - base, snd r)) prefetched;
          resident = (if \<not> resident then range_resident os o1 (base + off) stride else resident)
      in if resident
         then (let st = st\<lparr>es_hits := es_hits st + 1\<rparr> in
               if prefetched_cover then st\<lparr>es_prefetch_hits := es_prefetch_hits st + 1\<rparr> else st)
         else st\<lparr>es_misses := es_misses st + 1\<rparr>)"

definition residency_lane :: "'o host \<Rightarrow> ggml_tensor \<Rightarrow> bool list \<Rightarrow> 'o prefetch_state \<Rightarrow> 'o prefetch_state" where
  "residency_lane os w seen s =
     (let pinned = (case ps_resident s (tn_data w) of None \<Rightarrow> [] | Some rs \<Rightarrow> rs);
          prefetched = entry_prefetched s w
      in s\<lparr>ps_stats := foldl (attribute_expert os (ps_os s) w pinned prefetched) (ps_stats s)
              (filter (\<lambda>i. seen ! i) [0..<length seen])\<rparr>)"

definition attribute_kernel_entry ::
  "'o host \<Rightarrow> memory \<Rightarrow> 'o prefetch_state \<Rightarrow> ggml_tensor option \<Rightarrow> ggml_tensor option \<Rightarrow> bool \<Rightarrow> bool \<Rightarrow> bool
    \<Rightarrow> 'o prefetch_state option" where
  "attribute_kernel_entry os mem s w ids include_cache_sim include_residency include_histogram = (case (w, ids) of
       (Some w, Some ids) \<Rightarrow>
          if tn_data w = 0 \<or> tn_data ids = 0 then Some s
          else if tn_ne w 2 \<le> 1 then Some s
          else let seen = entry_seen mem (nat (tn_ne w 2)) ids;
                   s = (if include_histogram then histogram_lane w ids seen s else s)
               in case (if include_cache_sim then shadow_lane w ids seen s else Some s) of
                    None \<Rightarrow> None
                  | Some s \<Rightarrow> if \<not> include_residency \<or> \<not> stats_enabled os then Some s
                             else Some (residency_lane os w seen s)
     | _ \<Rightarrow> Some s)"

section \<open>Kernel hooks\<close>

text \<open>The up and the gate tensor of a node, one after the other.\<close>

definition attribute_pair ::
  "'o host \<Rightarrow> memory \<Rightarrow> 'o prefetch_state \<Rightarrow> ggml_tensor \<Rightarrow> ggml_tensor option \<Rightarrow> ggml_tensor \<Rightarrow> bool \<Rightarrow> bool \<Rightarrow> bool
    \<Rightarrow> 'o prefetch_state option" where
  "attribute_pair os mem s w0 w1 ids sim res hist =
     (case attribute_kernel_entry os mem s (Some w0) (Some ids) sim res hist of None \<Rightarrow> None
      | Some s \<Rightarrow> (case w1 of None \<Rightarrow> Some s
          | Some w \<Rightarrow> attribute_kernel_entry os mem s (Some w) (Some ids) sim res hist))"

definition ggml_moe_cache_sim_kernel_hook ::
  "'o host \<Rightarrow> memory \<Rightarrow> 'o prefetch_state \<Rightarrow> ggml_node \<Rightarrow> int \<Rightarrow> 'o prefetch_state option" where
  "ggml_moe_cache_sim_kernel_hook os mem s node ith =
     (if ith \<noteq> 0 then Some s
      else case node_experts node of None \<Rightarrow> Some s
      | Some (w0, w1, ids) \<Rightarrow> attribute_pair os mem s w0 w1 ids True False False)"

definition ggml_moe_histogram_kernel_hook ::
  "'o host \<Rightarrow> memory \<Rightarrow> 'o prefetch_state \<Rightarrow> ggml_node \<Rightarrow> int \<Rightarrow> 'o prefetch_state option" where
  "ggml_moe_histogram_kernel_hook os mem s node ith =
     (if ith \<noteq> 0 then Some s
      else case node_experts node of None \<Rightarrow> Some s
      | Some (w0, w1, ids) \<Rightarrow> attribute_pair os mem s w0 w1 ids False False True)"

definition ggml_moe_prefetch_kernel_hook ::
  "'o host \<Rightarrow> memory \<Rightarrow> 'o prefetch_state \<Rightarrow> ggml_node \<Rightarrow> int \<Rightarrow> 'o prefetch_state option" where
  "ggml_moe_prefetch_kernel_hook os mem s node ith =
     (if ith \<noteq> 0 then Some s
      else case node_experts node of None \<Rightarrow> Some s
      | Some (w0, w1, ids) \<Rightarrow>
          if \<not> ggml_moe_prefetch_enabled s
          then let s = legacy_madvise os mem s (Some w0) (Some ids);
                   s = (case w1 of None \<Rightarrow> s | Some w \<Rightarrow> legacy_madvise os mem s (Some w) (Some ids))
               in attribute_pair os mem s w0 w1 ids False True False
          else (case attribute_pair os mem s w0 w1 ids False True False of None \<Rightarrow> None
                | Some s \<Rightarrow> ggml_moe_prefetch_node mem s node))"

section \<open>Which experts an entry selects\<close>

definition selected_experts :: "memory \<Rightarrow> nat \<Rightarrow> ggml_tensor \<Rightarrow> nat set" where
  "selected_experts mem n ids = {i. i < n \<and> int i \<in> set (ids_list mem ids)}"

lemma mark_seen_length [simp]: "length (mark_seen n seen i) = length seen"
  by (simp add: mark_seen_def)

lemma marks_length [simp]: "length (foldl (mark_seen n) seen is) = length seen"
  by (induction "is" arbitrary: seen) simp_all

lemma marks_nth:
  assumes "length seen = n" and "i < n"
  shows "foldl (mark_seen n) seen is ! i \<longleftrightarrow> seen ! i \<or> int i \<in> set is"
  using assms(1)
proof (induction "is" arbitrary: seen)
  case (Cons x xs)
  have "mark_seen n seen x ! i \<longleftrightarrow> seen ! i \<or> int i = x"
    using Cons.prems assms(2) by (auto simp: mark_seen_def nth_list_update)
  with Cons.IH [of "mark_seen n seen x"] Cons.prems show ?case by auto
qed simp

lemma entry_seen_length [simp]: "length (entry_seen mem n ids) = n"
  by (simp add: entry_seen_def)

lemma entry_seen_nth: "i < n \<Longrightarrow> entry_seen mem n ids ! i \<longleftrightarrow> i \<in> selected_experts mem n ids"
  by (simp add: entry_seen_def marks_nth selected_experts_def)

lemma seen_filter: "set (filter (\<lambda>i. entry_seen mem n ids ! i) [0..<n]) = selected_experts mem n ids"
  by (auto simp: entry_seen_nth selected_experts_def)

lemma seen_filter_length:
  "length (filter (\<lambda>i. entry_seen mem n ids ! i) [0..<n]) = card (selected_experts mem n ids)"
  by (metis distinct_card distinct_filter distinct_upt seen_filter)

section \<open>The shadow lane is a run of the policy\<close>

definition shadow_requests :: "ggml_tensor \<Rightarrow> (nat \<times> u64 \<times> u64) list \<Rightarrow> (ggml_moe_cache_key \<times> u64) list" where
  "shadow_requests w sl = map (\<lambda>(i, off, bytes). (slice_key w i, bytes)) sl"

lemma shadow_feed_run:
  "shadow_feed w ids entry ep sl (c, t) = Some (c', t') \<Longrightarrow>
    (\<exists>rs. run_accesses lru_access c (shadow_requests w sl) = Some (rs, c')) \<and> (t = None \<longleftrightarrow> t' = None)"
proof (induction sl arbitrary: c t)
  case (Cons x sl)
  obtain i off bytes where x: "x = (i, off, bytes)" by (cases x) auto
  from Cons.prems x obtain r c1 t1 where acc: "lru_access c (slice_key w i) bytes = Some (r, c1)"
    and t1: "t = None \<longleftrightarrow> t1 = None" and rest: "shadow_feed w ids entry ep sl (c1, t1) = Some (c', t')"
    by (cases t) (force split: option.splits)+
  from Cons.IH [OF rest] t1 show ?case by (auto simp: shadow_requests_def x acc)
qed (auto simp: shadow_requests_def)

lemma shadow_feed_defined:
  assumes "lru_ok c" and "\<forall>tr. t = Some tr \<longrightarrow> trace_ok tr"
  shows "\<exists>c' t'. shadow_feed w ids entry ep sl (c, t) = Some (c', t') \<and> lru_ok c' \<and> (\<forall>tr. t' = Some tr \<longrightarrow> trace_ok tr)"
  using assms
proof (induction sl arbitrary: c t)
  case (Cons x sl)
  obtain i off bytes where x: "x = (i, off, bytes)" by (cases x) auto
  obtain r c1 where acc: "lru_access c (slice_key w i) bytes = Some (r, c1)" using lru.defined [OF Cons.prems(1)] by blast
  have ok: "lru_ok c1" using lru.keeps_ok [OF Cons.prems(1) acc] .
  show ?case
  proof (cases t)
    case None
    with Cons.IH [OF ok, of None] acc x show ?thesis by simp
  next
    case (Some tr)
    let ?r = "\<lparr>row_entry = entry, row_epoch = ep, row_rows = tn_ne ids 1, row_name = tn_name w,
                     row_type = tn_type w, row_expert = of_nat i, row_stride = tn_nb w 2, row_offset = off,
                     row_bytes = bytes, row_hit = ca_hit r, row_bypass = ca_bypassed r\<rparr>"
    from trace_record_ok [of tr ?r] Cons.prems(2) Some obtain tr' where
      "trace_record tr ?r = Some tr'" "trace_ok tr'" by auto
    with Cons.IH [OF ok, of "Some tr'"] acc x Some show ?thesis by simp
  qed
qed simp

text \<open>A slice passes the guards exactly when its exact offset lies in the tensor.\<close>

lemma mult_guard: "b \<noteq> 0 \<Longrightarrow> \<not> a > size_max div b \<longleftrightarrow> unat a * unat b < 2 ^ 64" for a b :: u64
proof -
  assume "b \<noteq> 0"
  then have "0 < unat b" by (simp add: unat_gt_0)
  then have "unat a \<le> 18446744073709551615 div unat b \<longleftrightarrow> unat a * unat b \<le> 18446744073709551615"
    by (simp add: less_eq_div_iff_mult_less_eq)
  then show ?thesis by (auto simp: not_less word_le_nat_alt unat_div size_max_def)
qed

lemma shadow_slice_iff:
  assumes "tn_ne w 2 < 2 ^ 63" and "length seen = nat (tn_ne w 2)"
  shows "x \<in> set (shadow_slices w seen) \<longleftrightarrow> (\<exists>i. i < length seen \<and> seen ! i
    \<and> i * unat (tn_nb w 2) < unat (tn_nbytes w) \<and> tn_nb w 2 \<noteq> 0
    \<and> x = (i, of_nat (i * unat (tn_nb w 2)), of_nat (min (unat (tn_nb w 2)) (unat (tn_nbytes w) - i * unat (tn_nb w 2)))))"
proof -
  let ?st = "tn_nb w 2" and ?wb = "tn_nbytes w"
  have eq: "(of_nat i * ?st :: u64) = of_nat (i * unat ?st)" for i by simp
  have g: "\<not> (of_nat i > size_max div ?st) \<and> \<not> (of_nat i * ?st \<ge> ?wb) \<longleftrightarrow> i * unat ?st < unat ?wb"
    and b: "i * unat ?st < unat ?wb \<Longrightarrow> min ?st (?wb - of_nat i * ?st) = of_nat (min (unat ?st) (unat ?wb - i * unat ?st))"
    if "i < length seen" "?st \<noteq> 0" for i
  proof -
    have lt: "i < 2 ^ 64" using that(1) assms by (simp add: nat_less_iff)
    then have u: "unat (of_nat i :: u64) = i" by (rule unat_of_nat_u64)
    have m: "unat (of_nat i * ?st) = i * unat ?st" if "i * unat ?st < 2 ^ 64"
      by (subst unat_mult_no_wrap) (use that u in simp_all)
    show "\<not> (of_nat i > size_max div ?st) \<and> \<not> (of_nat i * ?st \<ge> ?wb) \<longleftrightarrow> i * unat ?st < unat ?wb"
    proof (cases "i * unat ?st < 2 ^ 64")
      case True
      with mult_guard [OF that(2), of "of_nat i"] m [OF True] u show ?thesis by (simp add: word_le_nat_alt not_le)
    next
      case False
      then have "18446744073709551616 \<le> i * unat ?st" by simp
      then have "\<not> i * unat ?st < unat ?wb" using unat_lt_u64 [of ?wb] by linarith
      moreover have "of_nat i > size_max div ?st" using mult_guard [OF that(2), of "of_nat i"] u False by simp
      ultimately show ?thesis by simp
    qed
    assume l: "i * unat ?st < unat ?wb"
    then have "i * unat ?st < 18446744073709551616" using unat_lt_u64 [of ?wb] by linarith
    then have m': "unat (of_nat i * ?st) = i * unat ?st" using m by simp
    then have "of_nat i * ?st \<le> ?wb" using l by (simp add: word_le_nat_alt)
    then have "unat (?wb - of_nat i * ?st) = unat ?wb - i * unat ?st" using m' by (simp add: unat_sub_no_wrap)
    then have "unat (min ?st (?wb - of_nat i * ?st)) = min (unat ?st) (unat ?wb - i * unat ?st)"
      by (simp add: unat_min_word)
    then show "min ?st (?wb - of_nat i * ?st) = of_nat (min (unat ?st) (unat ?wb - i * unat ?st))"
      by (metis of_nat_unat ucast_id)
  qed
  show ?thesis
    unfolding shadow_slices_def Let_def
    using g b eq by (auto simp: image_iff simp del: of_nat_mult)
qed

section \<open>Counting\<close>

lemma bump_counts_snoc:
  "bump_counts (Suc n) seen cs = (let ds = bump_counts n seen cs in if seen ! n then ds[n := ds ! n + 1] else ds)"
  by (simp add: bump_counts_def Let_def)

lemma bump_counts_props:
  "n \<le> length cs \<Longrightarrow> length (bump_counts n seen cs) = length cs
    \<and> (\<forall>i < length cs. bump_counts n seen cs ! i = cs ! i + (if i < n \<and> seen ! i then 1 else 0))"
proof (induction n)
  case (Suc n)
  then have IH: "length (bump_counts n seen cs) = length cs"
    "\<And>i. i < length cs \<Longrightarrow> bump_counts n seen cs ! i = cs ! i + (if i < n \<and> seen ! i then 1 else 0)" by auto
  show ?case using Suc.prems by (auto simp: bump_counts_snoc Let_def IH nth_list_update less_Suc_eq)
qed (simp add: bump_counts_def)

lemma attribute_expert_frame:
  "es_prefetched (attribute_expert os o1 w pi pf st i) = es_prefetched st"
  "es_defer_wait_ns (attribute_expert os o1 w pi pf st i) = es_defer_wait_ns st"
  "es_requests (attribute_expert os o1 w pi pf st i) = es_requests st + 1"
  by (simp_all add: attribute_expert_def Let_def)

definition expert_resident :: "'o host \<Rightarrow> 'o \<Rightarrow> ggml_tensor \<Rightarrow> range list \<Rightarrow> nat \<Rightarrow> bool" where
  "expert_resident os o1 w pinned i \<longleftrightarrow>
     list_ex (in_range (of_nat i * tn_nb w 2)) pinned \<or> range_resident os o1 (tn_data w + of_nat i * tn_nb w 2) (tn_nb w 2)"

definition expert_covered :: "ggml_tensor \<Rightarrow> (u64 \<times> u64) list \<Rightarrow> nat \<Rightarrow> bool" where
  "expert_covered w prefetched i \<longleftrightarrow> list_ex (\<lambda>r. in_range (of_nat i * tn_nb w 2) (fst r - tn_data w, snd r)) prefetched"

lemma attribute_expert_counts:
  "es_hits (attribute_expert os o1 w pi pf st i) = es_hits st + (if expert_resident os o1 w pi i then 1 else 0)"
  "es_misses (attribute_expert os o1 w pi pf st i) = es_misses st + (if expert_resident os o1 w pi i then 0 else 1)"
  "es_prefetch_hits (attribute_expert os o1 w pi pf st i) = es_prefetch_hits st
     + (if expert_resident os o1 w pi i \<and> expert_covered w pf i then 1 else 0)"
  by (auto simp: attribute_expert_def Let_def expert_resident_def expert_covered_def)

lemma attribute_experts_counts:
  "es_requests (foldl (attribute_expert os o1 w pi pf) st is) = es_requests st + of_nat (length is)"
  "es_hits (foldl (attribute_expert os o1 w pi pf) st is)
     = es_hits st + of_nat (length (filter (expert_resident os o1 w pi) is))"
  "es_misses (foldl (attribute_expert os o1 w pi pf) st is)
     = es_misses st + of_nat (length (filter (\<lambda>i. \<not> expert_resident os o1 w pi i) is))"
  "es_prefetch_hits (foldl (attribute_expert os o1 w pi pf) st is)
     = es_prefetch_hits st + of_nat (length (filter (\<lambda>i. expert_resident os o1 w pi i \<and> expert_covered w pf i) is))"
  by (induction "is" arbitrary: st) (simp_all add: attribute_expert_frame attribute_expert_counts)

section \<open>Properties\<close>

text \<open>
  C18. Feeding the cache shadow is pure bookkeeping and exact: for a well-formed shadow it always
  succeeds; the new shadow is the LRU policy run, in ascending order, over exactly the selected
  experts whose slice starts inside the tensor, with exact sizes; and nothing outside the shadow,
  its trace and the entry number changes, in particular no page is touched and no counter moves.
\<close>

theorem shadow_lane_is_lru_run:
  assumes "lru_ok (ps_cache_sim s)" and "\<forall>t. ps_trace s = Some t \<longrightarrow> trace_ok t"
    and "cs_capacity_bytes (lru_stats (ps_cache_sim s)) > 0"
    and "1 < tn_ne w 2" "tn_ne w 2 < 2 ^ 63" and "tn_data w \<noteq> 0" "tn_data ids \<noteq> 0"
  shows "\<exists>c t n rs sl. attribute_kernel_entry os mem s (Some w) (Some ids) True False False
        = Some (s\<lparr>ps_cache_sim := c, ps_trace := t, ps_trace_entry := n\<rparr>)
    \<and> run_accesses lru_access (ps_cache_sim s) (shadow_requests w sl) = Some (rs, c)
    \<and> sorted (map fst sl) \<and> distinct (map fst sl)
    \<and> set sl = {(i, of_nat (i * unat (tn_nb w 2)), of_nat (min (unat (tn_nb w 2)) (unat (tn_nbytes w) - i * unat (tn_nb w 2)))) | i.
         i \<in> selected_experts mem (nat (tn_ne w 2)) ids \<and> i * unat (tn_nb w 2) < unat (tn_nbytes w) \<and> tn_nb w 2 \<noteq> 0}"
proof -
  let ?seen = "entry_seen mem (nat (tn_ne w 2)) ids"
  let ?sl = "shadow_slices w ?seen"
  let ?e = "case ps_trace s of None \<Rightarrow> 0 | Some _ \<Rightarrow> ps_trace_entry s"
  obtain c t where ct: "shadow_feed w ids ?e (ps_epoch s) ?sl (ps_cache_sim s, ps_trace s) = Some (c, t)"
    using shadow_feed_defined [OF assms(1,2)] by blast
  obtain rs where "run_accesses lru_access (ps_cache_sim s) (shadow_requests w ?sl) = Some (rs, c)"
    using shadow_feed_run [OF ct] by blast
  moreover have "\<exists>n. attribute_kernel_entry os mem s (Some w) (Some ids) True False False
        = Some (s\<lparr>ps_cache_sim := c, ps_trace := t, ps_trace_entry := n\<rparr>)"
  proof (cases "ps_trace s")
    case None
    then have "attribute_kernel_entry os mem s (Some w) (Some ids) True False False
        = Some (s\<lparr>ps_cache_sim := c, ps_trace := t\<rparr>)"
      using assms(3-7) ct by (simp add: attribute_kernel_entry_def shadow_lane_def Let_def)
    also have "s\<lparr>ps_cache_sim := c, ps_trace := t\<rparr> = s\<lparr>ps_cache_sim := c, ps_trace := t, ps_trace_entry := ps_trace_entry s\<rparr>"
      by simp
    finally show ?thesis by blast
  next
    case (Some tr)
    then have "attribute_kernel_entry os mem s (Some w) (Some ids) True False False
        = Some (s\<lparr>ps_trace_entry := ps_trace_entry s + 1, ps_cache_sim := c, ps_trace := t\<rparr>)"
      using assms(3-7) ct by (simp add: attribute_kernel_entry_def shadow_lane_def Let_def)
    also have "s\<lparr>ps_trace_entry := ps_trace_entry s + 1, ps_cache_sim := c, ps_trace := t\<rparr>
        = s\<lparr>ps_cache_sim := c, ps_trace := t, ps_trace_entry := ps_trace_entry s + 1\<rparr>"
      by simp
    finally show ?thesis by blast
  qed
  moreover have "sorted (map fst ?sl)" "distinct (map fst ?sl)"
    by (simp_all add: shadow_slices_def Let_def comp_def distinct_map inj_on_def sorted_wrt_filter)
  moreover have "set ?sl = {(i, of_nat (i * unat (tn_nb w 2)), of_nat (min (unat (tn_nb w 2)) (unat (tn_nbytes w) - i * unat (tn_nb w 2)))) | i.
         i \<in> selected_experts mem (nat (tn_ne w 2)) ids \<and> i * unat (tn_nb w 2) < unat (tn_nbytes w) \<and> tn_nb w 2 \<noteq> 0}"
    by (rule set_eqI, subst shadow_slice_iff)
      (use assms(5) in \<open>auto simp: entry_seen_nth, auto simp: selected_experts_def entry_seen_nth\<close>)
  ultimately show ?thesis by blast
qed

text \<open>
  Residency telemetry counts expert slices, not kernel entries: one entry adds the number of
  distinct routed experts to \<open>requests\<close>, splits them exactly into \<open>hits\<close> and
  \<open>misses\<close> by residency, and adds the prefetched ones among the hits to
  \<open>prefetch_hits\<close>.
\<close>

theorem attribution_counts_experts:
  assumes "1 < tn_ne w 2" and "tn_data w \<noteq> 0" "tn_data ids \<noteq> 0" and "stats_enabled os"
  shows "\<exists>H P s'. attribute_kernel_entry os mem s (Some w) (Some ids) False True False = Some s'
    \<and> P \<subseteq> H \<and> H \<subseteq> selected_experts mem (nat (tn_ne w 2)) ids
    \<and> es_requests (ps_stats s') = es_requests (ps_stats s) + of_nat (card (selected_experts mem (nat (tn_ne w 2)) ids))
    \<and> es_hits (ps_stats s') = es_hits (ps_stats s) + of_nat (card H)
    \<and> es_misses (ps_stats s') = es_misses (ps_stats s) + of_nat (card (selected_experts mem (nat (tn_ne w 2)) ids - H))
    \<and> es_prefetch_hits (ps_stats s') = es_prefetch_hits (ps_stats s) + of_nat (card P)"
proof -
  let ?n = "nat (tn_ne w 2)"
  let ?S = "selected_experts mem ?n ids" and ?xs = "filter (\<lambda>i. entry_seen mem ?n ids ! i) [0..<?n]"
  let ?pin = "case ps_resident s (tn_data w) of None \<Rightarrow> [] | Some rs \<Rightarrow> rs"
  let ?R = "expert_resident os (ps_os s) w ?pin" and ?C = "expert_covered w (entry_prefetched s w)"
  have len: "length (filter Q ?xs) = card {i \<in> ?S. Q i}" for Q
  proof -
    have "distinct (filter Q ?xs)" by simp
    then have "length (filter Q ?xs) = card (set (filter Q ?xs))" by (rule distinct_card [symmetric])
    then show ?thesis by (simp only: set_filter [of Q ?xs] seen_filter)
  qed
  have at: "attribute_kernel_entry os mem s (Some w) (Some ids) False True False
      = Some (residency_lane os w (entry_seen mem ?n ids) s)"
    using assms by (simp add: attribute_kernel_entry_def Let_def)
  let ?s' = "residency_lane os w (entry_seen mem ?n ids) s"
  have diff: "?S - {i \<in> ?S. ?R i} = {i \<in> ?S. \<not> ?R i}" by auto
  have st: "ps_stats ?s' = foldl (attribute_expert os (ps_os s) w ?pin (entry_prefetched s w)) (ps_stats s) ?xs"
    by (simp add: residency_lane_def Let_def)
  have c1: "es_requests (ps_stats ?s') = es_requests (ps_stats s) + of_nat (card ?S)"
    by (simp only: st attribute_experts_counts(1) seen_filter_length)
  have c2: "es_hits (ps_stats ?s') = es_hits (ps_stats s) + of_nat (card {i \<in> ?S. ?R i})"
    by (simp only: st attribute_experts_counts(2) len [of ?R])
  have c3: "es_misses (ps_stats ?s') = es_misses (ps_stats s) + of_nat (card {i \<in> ?S. \<not> ?R i})"
    by (simp only: st attribute_experts_counts(3) len [of "\<lambda>i. \<not> ?R i"])
  have c4: "es_prefetch_hits (ps_stats ?s') = es_prefetch_hits (ps_stats s) + of_nat (card {i \<in> ?S. ?R i \<and> ?C i})"
    by (simp only: st attribute_experts_counts(4) len [of "\<lambda>i. ?R i \<and> ?C i"])
  show ?thesis
    by (rule exI [of _ "{i \<in> ?S. ?R i}"], rule exI [of _ "{i \<in> ?S. ?R i \<and> ?C i}"], rule exI [of _ ?s'])
      (use at c1 c2 c3 c4 in \<open>simp only: diff\<close>, blast)
qed

text \<open>
  The histogram counts each routed expert of an entry once: after the lane the count of expert
  \<open>i\<close> under the tensor's name is one higher exactly when the entry routes to \<open>i\<close>, counts of
  other tensors are untouched, and nothing but the histogram changes.
\<close>

theorem histogram_counts_distinct_experts:
  assumes "1 < tn_ne w 2" and "tn_data w \<noteq> 0" "tn_data ids \<noteq> 0"
  shows "\<exists>cs n r. attribute_kernel_entry os mem s (Some w) (Some ids) False False True
        = Some (s\<lparr>ps_histogram := (ps_histogram s)(tn_name w := Some cs), ps_histogram_entries := n, ps_histogram_token_rows := r\<rparr>)
    \<and> nat (tn_ne w 2) \<le> length cs \<and> n = ps_histogram_entries s + 1
    \<and> (\<forall>i. (if i < length cs then cs ! i else 0)
          = (case ps_histogram s (tn_name w) of Some ds \<Rightarrow> if i < length ds then ds ! i else 0 | None \<Rightarrow> 0)
            + (if i \<in> selected_experts mem (nat (tn_ne w 2)) ids then 1 else 0))"
proof -
  let ?n = "nat (tn_ne w 2)"
  let ?seen = "entry_seen mem ?n ids"
  let ?old = "case ps_histogram s (tn_name w) of None \<Rightarrow> [] | Some cs \<Rightarrow> cs"
  let ?cs = "bump_counts ?n ?seen (resize_counts ?n ?old)"
  have r: "?n \<le> length (resize_counts ?n ?old)"
    "(if i < length (resize_counts ?n ?old) then resize_counts ?n ?old ! i else 0)
      = (if i < length ?old then ?old ! i else 0)" for i
    by (auto simp: resize_counts_def nth_append)
  note b = bump_counts_props [OF r(1), of ?seen]
  have eq: "(if i < length ?cs then ?cs ! i else 0) = (if i < length ?old then ?old ! i else 0)
            + (if i \<in> selected_experts mem ?n ids then 1 else 0)" for i
  proof (cases "i < length (resize_counts ?n ?old)")
    case True
    moreover have "i < ?n \<and> ?seen ! i \<longleftrightarrow> i \<in> selected_experts mem ?n ids"
      using entry_seen_nth [of i ?n mem ids] by (auto simp: selected_experts_def)
    ultimately show ?thesis using b r(2) [of i] by simp
  next
    case False
    then have "i \<notin> selected_experts mem ?n ids" using r(1) by (auto simp: selected_experts_def)
    with False b r(2) [of i] show ?thesis by simp
  qed
  have at: "attribute_kernel_entry os mem s (Some w) (Some ids) False False True = Some (s\<lparr>ps_histogram := (ps_histogram s)(tn_name w := Some ?cs),
      ps_histogram_entries := ps_histogram_entries s + 1,
      ps_histogram_token_rows := ps_histogram_token_rows s + of_int (tn_ne ids 1)\<rparr>)"
    using assms by (simp add: attribute_kernel_entry_def histogram_lane_def Let_def)
  show ?thesis
    by (intro exI conjI, rule at) (use r(1) b eq in \<open>auto split: option.split\<close>)
qed

section \<open>Witnesses\<close>

definition demo_host :: "unit host" where
  "demo_host = \<lparr>os_page = 4096, os_mincore = (\<lambda>_ _ _. None), os_madvise = (\<lambda>_ _ _ _. (True, ())),
     os_mmap = (\<lambda>_ _. (None, ())), os_munmap = (\<lambda>_ _ _. ()), os_getenv = (\<lambda>_. None),
     os_fopen = (\<lambda>_ _. (None, ())), os_fclose = (\<lambda>_ _. ()), os_now = (\<lambda>_. 0)\<rparr>"

definition demo_state :: "unit prefetch_state" where
  "demo_state = (state_new ())\<lparr>ps_cache_sim := lru_new 64\<rparr>"

lemma demo_state_simps [simp]:
  "ps_cache_sim demo_state = lru_new 64" "ps_trace demo_state = None" "ps_histogram demo_state = (\<lambda>_. None)"
  "ps_stats demo_state = engine_stats_init" "ps_os demo_state = ()" "ps_histogram_entries demo_state = 0"
  by (simp_all add: demo_state_def state_new_def)

lemma demo_selected: "selected_experts demo_mem 4 demo_ids = {3}"
  by (auto simp: selected_experts_def demo_ids_list)

lemma demo_weights_simps [simp]:
  "tn_ne demo_weights 2 = 4" "tn_data demo_weights = 65536" "tn_nb demo_weights 2 = 16" "tn_nbytes demo_weights = 64"
  "tn_data demo_ids = 4096" "stats_enabled demo_host" "tn_name demo_weights = ''w''"
  by (simp_all add: demo_weights_def demo_ids_def stats_enabled_def demo_host_def)

lemma shadow_lane_is_lru_run_witness:
  "\<exists>s' rs. attribute_kernel_entry demo_host demo_mem demo_state (Some demo_weights) (Some demo_ids) True False False = Some s'
    \<and> run_accesses lru_access (lru_new 64) [(slice_key demo_weights 3, 16)] = Some (rs, ps_cache_sim s')"
proof -
  have cap: "cs_capacity_bytes (lru_stats (lru_new 64)) > 0" by (simp add: lru_new_def lru_reset_def)
  from shadow_lane_is_lru_run [of demo_state demo_weights demo_ids demo_host demo_mem] cap demo_selected
  obtain c t n rs sl where
    at: "attribute_kernel_entry demo_host demo_mem demo_state (Some demo_weights) (Some demo_ids) True False False
        = Some (demo_state\<lparr>ps_cache_sim := c, ps_trace := t, ps_trace_entry := n\<rparr>)"
    and run: "run_accesses lru_access (lru_new 64) (shadow_requests demo_weights sl) = Some (rs, c)"
    and d: "distinct (map fst sl)" and sl: "set sl = {(3, 48, 16)}"
    by auto
  have "length sl = 1" using d sl distinct_card [of sl] by (simp add: distinct_map)
  with sl have "sl = [(3, 48, 16)]" by (cases sl) auto
  with run have "run_accesses lru_access (lru_new 64) [(slice_key demo_weights 3, 16)] = Some (rs, c)"
    by (simp only: shadow_requests_def list.map prod.case)
  then show ?thesis by (simp add: at)
qed

lemma attribution_counts_experts_witness:
  "\<exists>s'. attribute_kernel_entry demo_host demo_mem demo_state (Some demo_weights) (Some demo_ids) False True False = Some s'
    \<and> es_requests (ps_stats s') = 1"
  using attribution_counts_experts [of demo_weights demo_ids demo_host demo_mem demo_state] demo_selected
  by (auto simp: engine_stats_init_def)

lemma histogram_counts_distinct_experts_witness:
  "\<exists>s' cs. attribute_kernel_entry demo_host demo_mem demo_state (Some demo_weights) (Some demo_ids) False False True = Some s'
    \<and> ps_histogram s' ''w'' = Some cs \<and> cs ! 3 = 1 \<and> cs ! 2 = 0"
proof -
  from histogram_counts_distinct_experts [of demo_weights demo_ids demo_host demo_mem demo_state] demo_selected
  obtain cs n r where
    at: "attribute_kernel_entry demo_host demo_mem demo_state (Some demo_weights) (Some demo_ids) False False True
        = Some (demo_state\<lparr>ps_histogram := (ps_histogram demo_state)(''w'' := Some cs), ps_histogram_entries := n, ps_histogram_token_rows := r\<rparr>)"
    and len: "4 \<le> length cs" and c: "\<And>i. (if i < length cs then cs ! i else 0) = (if i = 3 then 1 else 0)"
    by auto
  have "cs ! 3 = 1" "cs ! 2 = 0" using c [of 3] c [of 2] len by simp_all
  then show ?thesis by (simp add: at)
qed

end
