(* ===== verification/Prefetch_Workers.thy ===== *)
theory Prefetch_Workers
  imports Kernel_Entry
begin

text \<open>
  The worker pool under every interleaving (\<open>prefetch_pool\<close> in
  \<open>ggml/src/ggml-moe-prefetch.cpp\<close>). The steps are those of the threads that share the pool:
  a worker, an enqueuing thread, the collector of read chunks, a waiter that blocks or wakes up
  without a reason, a shutdown, and the rest of the system changing the state of the operating
  system. The first invariant is that a ticket's counter is the number of its jobs that are queued
  or not yet counted by a worker; with it a released waiter knows that its jobs are over. The
  second is that no wake-up is lost: whoever is blocked has work, and with it the notification,
  still ahead.
\<close>

section \<open>Steps\<close>

inductive pool_step :: "'o host \<Rightarrow> 'o \<times> prefetch_pool \<Rightarrow> 'o \<times> prefetch_pool \<Rightarrow> bool" for os where
  worker: "worker_step os i op = Some op' \<Longrightarrow> pool_step os op op'"
| ticket: "pool_step os (o1, p) (o1, snd (get_ticket p a))"
| enqueue: "t < length (pl_heap p) \<Longrightarrow> \<not> pl_shutdown p \<Longrightarrow> list_all (\<lambda>j. jb_tk j = t) jobs
    \<Longrightarrow> pool_step os (o1, p) (o1, push_jobs (begin_epoch p t ep track pr) t jobs urgent)"
| collect: "t < length (pl_heap p) \<Longrightarrow> pool_step os (o1, p) (o2, (upd_ticket p t (\<lambda>tk. tk\<lparr>tk_read_chunks := []\<rparr>))\<lparr>pl_n_colded := n\<rparr>)"
| wait: "t < length (pl_heap p) \<Longrightarrow> pl_waiting p me = None \<Longrightarrow> \<not> wait_over p t \<Longrightarrow> pool_step os (o1, p) (o1, block me t p)"
| spurious: "pool_step os (o1, p) (o1, p\<lparr>pl_waiting := (pl_waiting p)(me := None)\<rparr>)"
| shutdown: "pool_step os (o1, p) (o1, pool_shutdown p)"
| environment: "pool_step os (o1, p) (o2, p)"

inductive_cases pool_stepE: "pool_step os op op'"

abbreviation pool_steps :: "'o host \<Rightarrow> 'o \<times> prefetch_pool \<Rightarrow> 'o \<times> prefetch_pool \<Rightarrow> bool" where
  "pool_steps os \<equiv> (pool_step os)\<^sup>*\<^sup>*"

section \<open>The ticket invariant\<close>

text \<open>Jobs of ticket \<open>t\<close> in the queue, and in the hands of workers that have not yet counted them.\<close>

definition queued :: "prefetch_pool \<Rightarrow> nat \<Rightarrow> nat" where
  "queued p t = length (filter (\<lambda>j. jb_tk j = t) (pl_queue p))"

fun uncounted :: "worker \<Rightarrow> nat \<Rightarrow> bool" where
  "uncounted (W_Popped j) t \<longleftrightarrow> jb_tk j = t"
| "uncounted (W_Probed j r) t \<longleftrightarrow> jb_tk j = t"
| "uncounted _ t \<longleftrightarrow> False"

definition outstanding :: "prefetch_pool \<Rightarrow> nat \<Rightarrow> nat" where
  "outstanding p t = queued p t + length (filter (\<lambda>w. uncounted w t) (pl_workers p))"

fun worker_ticket :: "worker \<Rightarrow> nat option" where
  "worker_ticket (W_Popped j) = Some (jb_tk j)"
| "worker_ticket (W_Probed j r) = Some (jb_tk j)"
| "worker_ticket (W_Counted j r l) = Some (jb_tk j)"
| "worker_ticket _ = None"

definition worker_in :: "nat \<Rightarrow> worker \<Rightarrow> bool" where
  "worker_in n w \<longleftrightarrow> (\<forall>t. worker_ticket w = Some t \<longrightarrow> t < n)"

definition tickets_valid :: "prefetch_pool \<Rightarrow> bool" where
  "tickets_valid p \<longleftrightarrow> list_all (\<lambda>j. jb_tk j < length (pl_heap p)) (pl_queue p)
     \<and> list_all (worker_in (length (pl_heap p))) (pl_workers p)
     \<and> (\<forall>a t. pl_tickets p a = Some t \<longrightarrow> t < length (pl_heap p))"

definition pool_inv :: "prefetch_pool \<Rightarrow> bool" where
  "pool_inv p \<longleftrightarrow> tickets_valid p \<and> (\<forall>t < length (pl_heap p). tk_pending (pl_heap p ! t) = of_nat (outstanding p t))"

lemma upd_ticket_simps [simp]:
  "pl_queue (upd_ticket p t f) = pl_queue p" "pl_workers (upd_ticket p t f) = pl_workers p"
  "pl_shutdown (upd_ticket p t f) = pl_shutdown p" "pl_tickets (upd_ticket p t f) = pl_tickets p"
  "pl_heap (upd_ticket p t f) = (pl_heap p)[t := f (pl_heap p ! t)]" "pl_waiting (upd_ticket p t f) = pl_waiting p"
  by (simp_all add: upd_ticket_def)

lemma set_worker_simps [simp]:
  "pl_queue (set_worker p i w) = pl_queue p" "pl_workers (set_worker p i w) = (pl_workers p)[i := w]"
  "pl_shutdown (set_worker p i w) = pl_shutdown p" "pl_tickets (set_worker p i w) = pl_tickets p"
  "pl_heap (set_worker p i w) = pl_heap p" "pl_waiting (set_worker p i w) = pl_waiting p"
  by (simp_all add: set_worker_def)

lemma notify_simps [simp]:
  "pl_queue (notify_done p) = pl_queue p" "pl_workers (notify_done p) = pl_workers p"
  "pl_shutdown (notify_done p) = pl_shutdown p" "pl_tickets (notify_done p) = pl_tickets p"
  "pl_heap (notify_done p) = pl_heap p" "pl_waiting (notify_done p) = (\<lambda>_. None)"
  "pl_queue (notify_work p) = pl_queue p" "pl_workers (notify_work p) = map wake (pl_workers p)"
  "pl_shutdown (notify_work p) = pl_shutdown p" "pl_tickets (notify_work p) = pl_tickets p"
  "pl_heap (notify_work p) = pl_heap p" "pl_waiting (notify_work p) = pl_waiting p"
  by (simp_all add: notify_done_def notify_work_def)

lemma block_simps [simp]:
  "pl_queue (block me t p) = pl_queue p" "pl_workers (block me t p) = pl_workers p"
  "pl_shutdown (block me t p) = pl_shutdown p" "pl_tickets (block me t p) = pl_tickets p"
  "pl_heap (block me t p) = pl_heap p" "pl_waiting (block me t p) = (pl_waiting p)(me := Some t)"
  by (simp_all add: block_def)

lemma wake_simps [simp]:
  "uncounted (wake w) t = uncounted w t" "worker_ticket (wake w) = worker_ticket w" "wake w \<noteq> W_Asleep"
  "wake w = W_Exited \<longleftrightarrow> w = W_Exited" "wake w = W_Counted j r l \<longleftrightarrow> w = W_Counted j r l"
  by (simp_all add: wake_def)

lemma wake_counted [simp]: "W_Counted j r l \<in> wake ` ws \<longleftrightarrow> W_Counted j r l \<in> ws"
  "W_Exited \<in> wake ` ws \<longleftrightarrow> W_Exited \<in> ws" "W_Asleep \<notin> wake ` ws"
proof -
  have "wake ` ws \<subseteq> insert W_Idle ws" "w \<in> ws \<Longrightarrow> w \<noteq> W_Asleep \<Longrightarrow> w \<in> wake ` ws" for w
    by (auto simp: wake_def image_iff split: if_splits)
  then show "W_Counted j r l \<in> wake ` ws \<longleftrightarrow> W_Counted j r l \<in> ws" "W_Exited \<in> wake ` ws \<longleftrightarrow> W_Exited \<in> ws" by blast+
  show "W_Asleep \<notin> wake ` ws" by (auto simp: wake_def split: if_splits)
qed

lemma worker_read_frame:
  "pl_queue (snd (fst (worker_read os op j))) = pl_queue (snd op)"
  "pl_workers (snd (fst (worker_read os op j))) = pl_workers (snd op)"
  "pl_shutdown (snd (fst (worker_read os op j))) = pl_shutdown (snd op)"
  "pl_tickets (snd (fst (worker_read os op j))) = pl_tickets (snd op)"
  "pl_heap (snd (fst (worker_read os op j))) = pl_heap (snd op)"
  "pl_waiting (snd (fst (worker_read os op j))) = pl_waiting (snd op)"
  by (simp_all add: worker_read_def Let_def case_prod_unfold)

lemma filter_update_length:
  assumes "i < length xs"
  shows "length (filter P (xs[i := y])) + (if P (xs ! i) then 1 else 0) = length (filter P xs) + (if P y then 1 else 0)"
proof -
  have xs: "xs = take i xs @ xs ! i # drop (Suc i) xs" using assms by (rule id_take_nth_drop)
  have "xs[i := y] = take i xs @ y # drop (Suc i) xs" using assms by (rule upd_conv_take_nth_drop)
  then have "length (filter P (xs[i := y])) = length (filter P (take i xs)) + (if P y then 1 else 0) + length (filter P (drop (Suc i) xs))"
    by simp
  moreover have "length (filter P xs) = length (filter P (take i xs)) + (if P (xs ! i) then 1 else 0) + length (filter P (drop (Suc i) xs))"
    by (subst xs) simp
  ultimately show ?thesis by simp
qed

text \<open>What a worker's change of stage does to the outstanding jobs.\<close>

lemma outstanding_set_worker:
  assumes "i < length (pl_workers p)"
  shows "outstanding (set_worker p i w) t + (if uncounted (pl_workers p ! i) t then 1 else 0)
    = outstanding p t + (if uncounted w t then 1 else 0)"
  using filter_update_length [OF assms, of "\<lambda>w. uncounted w t" w] by (simp add: outstanding_def queued_def)

lemma outstanding_cong:
  "pl_queue p' = pl_queue p \<Longrightarrow> pl_workers p' = pl_workers p \<Longrightarrow> outstanding p' t = outstanding p t"
  by (simp add: outstanding_def queued_def)

lemma pool_inv_notify [simp]: "pool_inv (notify_done p) = pool_inv p" "pool_inv (notify_work p) = pool_inv p"
  by (simp_all add: pool_inv_def tickets_valid_def outstanding_def queued_def worker_in_def list_all_iff
      filter_map comp_def)

lemma tickets_valid_set_worker:
  assumes "tickets_valid p" and "worker_in (length (pl_heap p)) w"
  shows "tickets_valid (set_worker p i w)"
  using assms by (auto simp: tickets_valid_def list_all_iff dest!: set_update_subset_insert [THEN subsetD])

lemma tickets_valid_cong:
  "pl_queue p' = pl_queue p \<Longrightarrow> pl_workers p' = pl_workers p \<Longrightarrow> pl_tickets p' = pl_tickets p
    \<Longrightarrow> length (pl_heap p') = length (pl_heap p) \<Longrightarrow> tickets_valid p' = tickets_valid p"
  by (simp add: tickets_valid_def)

lemma worker_ticket_valid:
  assumes "tickets_valid p" and "i < length (pl_workers p)" and "worker_ticket (pl_workers p ! i) = Some t"
  shows "t < length (pl_heap p)"
  using assms by (auto simp: tickets_valid_def list_all_length worker_in_def)

text \<open>The pool after a worker has appended its chunk and notified.\<close>

definition published :: "prefetch_pool \<Rightarrow> job \<Rightarrow> bool \<Rightarrow> u32 \<Rightarrow> prefetch_pool" where
  "published p j r l =
     (let p = (if r \<and> tk_track_reads (pl_heap p ! jb_tk j)
               then upd_ticket p (jb_tk j) (\<lambda>tk. tk\<lparr>tk_read_chunks := tk_read_chunks tk @ [(jb_addr j, jb_len j)]\<rparr>) else p)
      in if l = 1 then notify_done p else p)"

lemma published_simps [simp]:
  "pl_queue (published p j r l) = pl_queue p" "pl_workers (published p j r l) = pl_workers p"
  "pl_shutdown (published p j r l) = pl_shutdown p" "pl_tickets (published p j r l) = pl_tickets p"
  "length (pl_heap (published p j r l)) = length (pl_heap p)"
  "pl_waiting (published p j r l) = (if l = 1 then \<lambda>_. None else pl_waiting p)"
  by (simp_all add: published_def Let_def)

lemma published_pending:
  "u < length (pl_heap p) \<Longrightarrow> tk_pending (pl_heap (published p j r l) ! u) = tk_pending (pl_heap p ! u)"
  by (cases "u = jb_tk j") (simp_all add: published_def Let_def)

text \<open>One worker step, by the stage of the worker.\<close>

lemma worker_step_cases [consumes 1, case_names exit sleep pop read count publish]:
  assumes "worker_step os i (o1, p) = Some (o2, p')"
  obtains (exit) "i < length (pl_workers p)" "pl_workers p ! i = W_Idle" "pl_shutdown p" "o2 = o1" "p' = set_worker p i W_Exited"
  | (sleep) "i < length (pl_workers p)" "pl_workers p ! i = W_Idle" "\<not> pl_shutdown p" "pl_queue p = []" "o2 = o1"
      "p' = set_worker p i W_Asleep"
  | (pop) j q where "i < length (pl_workers p)" "pl_workers p ! i = W_Idle" "\<not> pl_shutdown p" "pl_queue p = j # q" "o2 = o1"
      "p' = set_worker (p\<lparr>pl_queue := q\<rparr>) i (W_Popped j)"
  | (read) j p2 r where "i < length (pl_workers p)" "pl_workers p ! i = W_Popped j" "worker_read os (o1, p) j = ((o2, p2), r)"
      "p' = set_worker p2 i (W_Probed j r)"
  | (count) j r where "i < length (pl_workers p)" "pl_workers p ! i = W_Probed j r" "o2 = o1"
      "p' = set_worker (upd_ticket p (jb_tk j) (\<lambda>tk. tk\<lparr>tk_pending := tk_pending tk - 1\<rparr>)) i
         (W_Counted j r (tk_pending (pl_heap p ! jb_tk j)))"
  | (publish) j r l where "i < length (pl_workers p)" "pl_workers p ! i = W_Counted j r l" "o2 = o1"
      "p' = set_worker (published p j r l) i W_Idle"
proof (cases "pl_workers p ! i")
  case W_Idle
  with assms show ?thesis
    by (auto simp: worker_step_def Let_def split: if_splits list.splits intro: that(1-3))
next
  case (W_Popped j)
  obtain o3 p2 r where rd: "worker_read os (o1, p) j = ((o3, p2), r)" by (metis prod.exhaust)
  with assms W_Popped show ?thesis
    by (intro that(4) [of j p2 r]) (auto simp: worker_step_def Let_def split: if_splits)
qed (use assms in \<open>auto simp: worker_step_def Let_def published_def split: if_splits intro: that(5,6)\<close>)

lemma worker_in_simps [simp]:
  "worker_in n W_Idle" "worker_in n W_Asleep" "worker_in n W_Exited" "worker_in n (wake w) = worker_in n w" "worker_in n (W_Popped j) \<longleftrightarrow> jb_tk j < n"
  "worker_in n (W_Probed j r) \<longleftrightarrow> jb_tk j < n" "worker_in n (W_Counted j r l) \<longleftrightarrow> jb_tk j < n"
  by (simp_all add: worker_in_def)

lemma worker_step_inv:
  assumes "worker_step os i (o1, p) = Some (o2, p')" and "pool_inv p"
  shows "pool_inv p' \<and> length (pl_heap p') = length (pl_heap p)"
proof -
  have tv: "tickets_valid p" and pend: "\<And>t. t < length (pl_heap p) \<Longrightarrow> tk_pending (pl_heap p ! t) = of_nat (outstanding p t)"
    using assms(2) by (auto simp: pool_inv_def)
  have hd: "worker_in (length (pl_heap p)) (pl_workers p ! i)" if "i < length (pl_workers p)"
    using tv that by (auto simp: tickets_valid_def list_all_length)
  from assms(1) show ?thesis
  proof (cases rule: worker_step_cases)
    case exit
    have "outstanding (set_worker p i W_Exited) t = outstanding p t" for t
      using outstanding_set_worker [OF exit(1), of W_Exited t] exit(2) by simp
    with exit tickets_valid_set_worker [OF tv, of W_Exited i] pend show ?thesis by (simp add: pool_inv_def)
  next
    case sleep
    have "outstanding (set_worker p i W_Asleep) t = outstanding p t" for t
      using outstanding_set_worker [OF sleep(1), of W_Asleep t] sleep(2) by simp
    with sleep tickets_valid_set_worker [OF tv, of W_Asleep i] pend show ?thesis by (simp add: pool_inv_def)
  next
    case (pop j q)
    let ?p = "p\<lparr>pl_queue := q\<rparr>"
    have tq: "tickets_valid ?p" "jb_tk j < length (pl_heap p)" using tv pop(4) by (auto simp: tickets_valid_def)
    have "outstanding (set_worker ?p i (W_Popped j)) t = outstanding p t" for t
      using outstanding_set_worker [of i ?p "W_Popped j" t] pop by (auto simp: outstanding_def queued_def)
    with pop tickets_valid_set_worker [OF tq(1), of "W_Popped j" i] tq(2) pend show ?thesis by (simp add: pool_inv_def)
  next
    case (read j p2 r)
    have fr: "pl_queue p2 = pl_queue p" "pl_workers p2 = pl_workers p" "pl_tickets p2 = pl_tickets p" "pl_heap p2 = pl_heap p"
      using worker_read_frame [of os "(o1, p)" j] read(3) by simp_all
    have "outstanding (set_worker p2 i (W_Probed j r)) t = outstanding p t" for t
      using outstanding_set_worker [of i p2 "W_Probed j r" t] read(1,2) fr outstanding_cong [of p2 p t] by simp
    moreover have "tickets_valid p2" using tv tickets_valid_cong [of p2 p] fr by simp
    ultimately show ?thesis using read(1,2,4) fr tickets_valid_set_worker [of p2 "W_Probed j r" i] pend hd
      by (simp add: pool_inv_def)
  next
    case (count j r)
    let ?t = "jb_tk j" and ?p = "upd_ticket p (jb_tk j) (\<lambda>tk. tk\<lparr>tk_pending := tk_pending tk - 1\<rparr>)"
    let ?w = "W_Counted j r (tk_pending (pl_heap p ! jb_tk j))"
    have t: "?t < length (pl_heap p)" using hd count(1,2) by simp
    have out: "outstanding (set_worker ?p i ?w) u + (if u = ?t then 1 else 0) = outstanding p u" for u
      using outstanding_set_worker [of i ?p ?w u] count(1,2) outstanding_cong [of ?p p u] by auto
    have "tickets_valid ?p" using tv tickets_valid_cong [of ?p p] by simp
    then have "tickets_valid (set_worker ?p i ?w)" using tickets_valid_set_worker [of ?p ?w i] t by simp
    moreover have "tk_pending (pl_heap (set_worker ?p i ?w) ! u) = of_nat (outstanding (set_worker ?p i ?w) u)"
      if "u < length (pl_heap p)" for u
    proof (cases "u = ?t")
      case True
      have "outstanding p u = Suc (outstanding (set_worker ?p i ?w) u)" using out [of u] True by simp
      then have "(of_nat (outstanding p u) :: u32) - 1 = of_nat (outstanding (set_worker ?p i ?w) u)" by (simp only: of_nat_Suc) simp
      moreover have "tk_pending (pl_heap (set_worker ?p i ?w) ! u) = tk_pending (pl_heap p ! u) - 1"
        using True t by simp
      ultimately show ?thesis using pend [OF that] by (simp only:)
    next
      case False
      then show ?thesis using out [of u] pend [OF that] by simp
    qed
    ultimately show ?thesis using count(4) by (simp add: pool_inv_def)
  next
    case (publish j r l)
    let ?p = "published p j r l"
    have "outstanding (set_worker ?p i W_Idle) t = outstanding p t" for t
      using outstanding_set_worker [of i ?p W_Idle t] publish(1,2) outstanding_cong [of ?p p t] by simp
    moreover have "tickets_valid ?p" using tv tickets_valid_cong [of ?p p] by simp
    ultimately show ?thesis using publish(4) tickets_valid_set_worker [of ?p W_Idle i] pend
      by (simp add: pool_inv_def published_pending)
  qed
qed

text \<open>The other threads.\<close>

lemma get_ticket_inv:
  assumes "pool_inv p"
  shows "pool_inv (snd (get_ticket p a))" and "fst (get_ticket p a) < length (pl_heap (snd (get_ticket p a)))"
    and "pl_shutdown (snd (get_ticket p a)) = pl_shutdown p"
proof -
  have "pool_inv (snd (get_ticket p a)) \<and> fst (get_ticket p a) < length (pl_heap (snd (get_ticket p a)))
    \<and> pl_shutdown (snd (get_ticket p a)) = pl_shutdown p"
  proof (cases "pl_tickets p a")
    case (Some t)
    with assms show ?thesis by (auto simp: get_ticket_def pool_inv_def tickets_valid_def)
  next
    case None
    let ?p = "snd (get_ticket p a)" and ?n = "length (pl_heap p)"
    have eq: "pl_queue ?p = pl_queue p" "pl_workers ?p = pl_workers p" "pl_heap ?p = pl_heap p @ [ticket_new]"
      "pl_tickets ?p = (pl_tickets p)(a := Some ?n)" "pl_shutdown ?p = pl_shutdown p" "fst (get_ticket p a) = ?n"
      using None by (simp_all add: get_ticket_def)
    have tv: "tickets_valid p" using assms by (simp add: pool_inv_def)
    have "queued p ?n = 0" using tv by (auto simp: tickets_valid_def queued_def list_all_iff filter_empty_conv)
    moreover have "uncounted w ?n \<Longrightarrow> worker_ticket w = Some ?n" for w by (cases w) auto
    then have "\<not> uncounted w ?n" if "w \<in> set (pl_workers p)" for w
      using tv that by (auto simp: tickets_valid_def worker_in_def list_all_iff)
    ultimately have "outstanding p ?n = 0" by (simp add: outstanding_def filter_empty_conv)
    moreover have "outstanding ?p t = outstanding p t" for t by (rule outstanding_cong) (simp_all add: eq)
    moreover have "worker_in ?n w \<Longrightarrow> worker_in (Suc ?n) w" for w by (auto simp: worker_in_def intro: less_SucI)
    then have "tickets_valid ?p" using tv by (auto simp: tickets_valid_def eq list_all_iff less_SucI)
    ultimately show ?thesis using assms by (auto simp: pool_inv_def eq nth_append less_Suc_eq ticket_new_def)
  qed
  then show "pool_inv (snd (get_ticket p a))" "fst (get_ticket p a) < length (pl_heap (snd (get_ticket p a)))"
    "pl_shutdown (snd (get_ticket p a)) = pl_shutdown p" by simp_all
qed

text \<open>An update of a ticket that leaves its counter alone.\<close>

lemma upd_ticket_inv:
  assumes "pool_inv p" and "\<And>tk. tk_pending (f tk) = tk_pending tk"
  shows "pool_inv (upd_ticket p t f)"
proof -
  have "outstanding (upd_ticket p t f) u = outstanding p u" for u by (rule outstanding_cong) simp_all
  moreover have "tickets_valid (upd_ticket p t f) = tickets_valid p" by (rule tickets_valid_cong) simp_all
  moreover have "tk_pending ((pl_heap p)[t := f (pl_heap p ! t)] ! u) = tk_pending (pl_heap p ! u)" if "u < length (pl_heap p)" for u
    using that assms(2) by (cases "u = t") simp_all
  ultimately show ?thesis using assms(1) by (simp add: pool_inv_def)
qed

lemma push_jobs_inv:
  assumes "pool_inv p" and "t < length (pl_heap p)" and "list_all (\<lambda>j. jb_tk j = t) jobs"
  shows "pool_inv (push_jobs p t jobs urgent)"
proof (cases "jobs = []")
  case False
  let ?p = "push_jobs p t jobs urgent"
  have eq: "pl_workers ?p = map wake (pl_workers p)" "pl_tickets ?p = pl_tickets p"
    "pl_queue ?p = (if urgent then jobs @ pl_queue p else pl_queue p @ jobs)"
    "pl_heap ?p = (pl_heap p)[t := (pl_heap p ! t)\<lparr>tk_pending := tk_pending (pl_heap p ! t) + of_nat (length jobs)\<rparr>]"
    using False by (simp_all add: push_jobs_def Let_def)
  have "filter (\<lambda>j. jb_tk j = t) jobs = jobs" "u \<noteq> t \<Longrightarrow> filter (\<lambda>j. jb_tk j = u) jobs = []" for u
    using assms(3) by (auto simp: list_all_iff filter_empty_conv)
  then have out: "outstanding ?p u = outstanding p u + (if u = t then length jobs else 0)" for u
    by (auto simp: outstanding_def queued_def eq filter_map comp_def)
  have "tickets_valid ?p" using assms by (auto simp: tickets_valid_def pool_inv_def eq list_all_iff)
  moreover have "tk_pending (pl_heap ?p ! u) = of_nat (outstanding ?p u)" if "u < length (pl_heap p)" for u
    using assms(1) that by (cases "u = t") (simp_all add: pool_inv_def out eq)
  moreover have "length (pl_heap ?p) = length (pl_heap p)" by (simp add: eq)
  ultimately show ?thesis by (simp add: pool_inv_def)
qed (use assms in \<open>simp add: push_jobs_def\<close>)

lemma drop_queue_inv:
  assumes "pool_inv p" and "pl_queue p = j # q"
  shows "pool_inv ((upd_ticket p (jb_tk j) (\<lambda>tk. tk\<lparr>tk_pending := tk_pending tk - 1\<rparr>))\<lparr>pl_queue := q\<rparr>)"
proof -
  let ?p = "(upd_ticket p (jb_tk j) (\<lambda>tk. tk\<lparr>tk_pending := tk_pending tk - 1\<rparr>))\<lparr>pl_queue := q\<rparr>"
  have out: "outstanding p u = outstanding ?p u + (if u = jb_tk j then 1 else 0)" for u
    using assms(2) by (auto simp: outstanding_def queued_def)
  have "tickets_valid ?p" using assms by (auto simp: tickets_valid_def pool_inv_def)
  moreover have "tk_pending (pl_heap ?p ! u) = of_nat (outstanding ?p u)" if "u < length (pl_heap p)" for u
    using assms(1) that out [of u] by (cases "u = jb_tk j") (simp_all add: pool_inv_def)
  ultimately show ?thesis by (simp add: pool_inv_def)
qed

lemma shutdown_inv: "pool_inv p \<Longrightarrow> pool_inv (pool_shutdown p) \<and> pl_queue (pool_shutdown p) = []
    \<and> pl_workers (pool_shutdown p) = map wake (pl_workers p) \<and> pl_shutdown (pool_shutdown p)
    \<and> pl_waiting (pool_shutdown p) = (\<lambda>_. None) \<and> length (pl_heap (pool_shutdown p)) = length (pl_heap p)"
proof -
  let ?f = "\<lambda>p j. upd_ticket p (jb_tk j) (\<lambda>tk. tk\<lparr>tk_pending := tk_pending tk - 1\<rparr>)"
  have comm: "(foldl ?f p q)\<lparr>pl_queue := r\<rparr> = foldl ?f (p\<lparr>pl_queue := r\<rparr>) q" for p q r
  proof (induction q arbitrary: p)
    case (Cons j q)
    have "(?f p j)\<lparr>pl_queue := r\<rparr> = ?f (p\<lparr>pl_queue := r\<rparr>) j" by (simp add: upd_ticket_def)
    with Cons [of "?f p j"] show ?case by simp
  qed simp
  have fr: "pl_workers (foldl ?f p q) = pl_workers p" "pl_shutdown (foldl ?f p q) = pl_shutdown p"
    "length (pl_heap (foldl ?f p q)) = length (pl_heap p)" for p q
    by (induction q arbitrary: p) simp_all
  have main: "pool_inv p \<Longrightarrow> pl_queue p = q \<Longrightarrow> pool_inv ((foldl ?f p q)\<lparr>pl_queue := []\<rparr>)" for q p
  proof (induction q arbitrary: p)
    case Nil
    then show ?case by (cases p) simp
  next
    case (Cons j q)
    note inv = drop_queue_inv [OF Cons.prems]
    from Cons.IH [OF inv] have "pool_inv ((foldl ?f ((?f p j)\<lparr>pl_queue := q\<rparr>) q)\<lparr>pl_queue := []\<rparr>)" by simp
    then show ?case by (simp add: comm)
  qed
  assume "pool_inv p"
  then have "pool_inv (p\<lparr>pl_shutdown := True\<rparr>)"
    by (simp add: pool_inv_def tickets_valid_def outstanding_def queued_def)
  from main [OF this] show ?thesis by (simp add: pool_shutdown_def Let_def fr)
qed

lemma pool_step_inv: "pool_step os op op' \<Longrightarrow> pool_inv (snd op) \<Longrightarrow> pool_inv (snd op')"
proof (induction rule: pool_step.induct)
  case (worker i op op')
  obtain o1 p o2 p' where "op = (o1, p)" "op' = (o2, p')" by (metis prod.exhaust)
  with worker worker_step_inv [of os i o1 p o2 p'] show ?case by simp
next
  case (enqueue t p jobs o1 ep track pr urgent)
  have "pool_inv (begin_epoch p t ep track pr)"
    unfolding begin_epoch_def by (rule upd_ticket_inv) (use enqueue in simp_all)
  with push_jobs_inv [of "begin_epoch p t ep track pr"] enqueue show ?case by (simp add: begin_epoch_def)
next
  case (collect t p o1 o2 n)
  have "pool_inv (upd_ticket p t (\<lambda>tk. tk\<lparr>tk_read_chunks := []\<rparr>))" by (rule upd_ticket_inv) (use collect in simp_all)
  then show ?case by (simp add: pool_inv_def tickets_valid_def outstanding_def queued_def)
next
  case (wait t p me o1)
  then show ?case by (simp add: pool_inv_def tickets_valid_def outstanding_def queued_def)
next
  case (spurious o1 p me)
  then show ?case by (simp add: pool_inv_def tickets_valid_def outstanding_def queued_def)
qed (simp_all add: get_ticket_inv shutdown_inv)

lemma pool_steps_inv: "pool_steps os op op' \<Longrightarrow> pool_inv (snd op) \<Longrightarrow> pool_inv (snd op')"
  by (induction rule: rtranclp_induct) (auto dest: pool_step_inv)

lemma pool_start_inv: "pool_inv (pool_start pool_new n)"
  by (simp add: pool_start_def pool_new_def pool_shutdown_def pool_inv_def tickets_valid_def list_all_iff)

section \<open>No wake-up is lost\<close>

text \<open>
  A worker sleeps only while there is no job and no shutdown. A thread blocked on a ticket is
  blocked while the pool runs and while a job of the ticket is outstanding, or the worker that
  counted the last one has not notified yet.
\<close>

definition notifier :: "prefetch_pool \<Rightarrow> nat \<Rightarrow> bool" where
  "notifier p t \<longleftrightarrow> (\<exists>j r. W_Counted j r 1 \<in> set (pl_workers p) \<and> jb_tk j = t)"

definition sleep_ok :: "prefetch_pool \<Rightarrow> bool" where
  "sleep_ok p \<longleftrightarrow> (W_Asleep \<in> set (pl_workers p) \<longrightarrow> pl_queue p = [] \<and> \<not> pl_shutdown p)"

definition blocked_ok :: "prefetch_pool \<Rightarrow> nat \<Rightarrow> bool" where
  "blocked_ok p t \<longleftrightarrow> t < length (pl_heap p) \<and> \<not> pl_shutdown p \<and> (0 < outstanding p t \<or> notifier p t)"

definition wakeups_ok :: "prefetch_pool \<Rightarrow> bool" where
  "wakeups_ok p \<longleftrightarrow> sleep_ok p \<and> (\<forall>me t. pl_waiting p me = Some t \<longrightarrow> blocked_ok p t)"

lemma kept_worker: "x \<in> set ws \<Longrightarrow> x \<noteq> ws ! i \<Longrightarrow> x \<in> set (ws[i := y])"
  by (metis in_set_conv_nth length_list_update nth_list_update_neq)

lemma sleep_ok_set_worker:
  "sleep_ok p \<Longrightarrow> w \<noteq> W_Asleep \<Longrightarrow> sleep_ok (set_worker p i w)"
  using set_update_subset_insert [of "pl_workers p" i w] by (auto simp: sleep_ok_def)

lemma notifier_set_worker:
  "notifier p t \<Longrightarrow> (\<And>j r. pl_workers p ! i = W_Counted j r 1 \<Longrightarrow> jb_tk j \<noteq> t) \<Longrightarrow> notifier (set_worker p i w) t"
  using kept_worker [of _ "pl_workers p" i w] by (auto simp: notifier_def) metis

lemma blocked_ok_set_worker:
  assumes "blocked_ok p t" and "i < length (pl_workers p)" and "uncounted w t = uncounted (pl_workers p ! i) t"
    and "\<And>j r. pl_workers p ! i \<noteq> W_Counted j r 1"
  shows "blocked_ok (set_worker p i w) t"
  using assms outstanding_set_worker [OF assms(2), of w t] notifier_set_worker [of p t i w]
  by (auto simp: blocked_ok_def split: if_splits)

lemma wakeups_cong:
  assumes "pl_queue q = pl_queue p" and "pl_workers q = pl_workers p" and "pl_shutdown q = pl_shutdown p"
    and "length (pl_heap q) = length (pl_heap p)"
  shows "sleep_ok q = sleep_ok p" and "blocked_ok q t = blocked_ok p t"
  using assms outstanding_cong [OF assms(1,2)] by (simp_all add: sleep_ok_def blocked_ok_def notifier_def)

lemma worker_step_waiting:
  assumes "worker_step os i (o1, p) = Some (o2, p')"
  shows "pl_waiting p' = pl_waiting p \<or> pl_waiting p' = (\<lambda>_. None)"
  using assms
proof (cases rule: worker_step_cases)
  case (read j p2 r)
  then show ?thesis using worker_read_frame [of os "(o1, p)" j] by simp
qed simp_all

lemma worker_step_wakeups:
  assumes "worker_step os i (o1, p) = Some (o2, p')" and "pool_inv p" and "wakeups_ok p"
  shows "wakeups_ok p'"
proof -
  have sl: "sleep_ok p" and bl: "\<And>me t. pl_waiting p me = Some t \<Longrightarrow> blocked_ok p t"
    using assms(3) by (auto simp: wakeups_ok_def)
  from assms(1) show ?thesis
  proof (cases rule: worker_step_cases)
    case exit
    have "pl_waiting p me \<noteq> Some t" for me t using bl [of me t] exit(3) by (auto simp: blocked_ok_def)
    with sleep_ok_set_worker [OF sl, of W_Exited i] exit(5) show ?thesis by (simp add: wakeups_ok_def)
  next
    case sleep
    have "blocked_ok p' t" if "pl_waiting p me = Some t" for me t
      using blocked_ok_set_worker [OF bl [OF that] sleep(1), of W_Asleep] sleep(2,6) by simp
    with sleep(3,4,6) show ?thesis by (simp add: wakeups_ok_def sleep_ok_def)
  next
    case (pop j q)
    let ?p = "p\<lparr>pl_queue := q\<rparr>"
    have "W_Asleep \<notin> set (pl_workers p)" using sl pop(4) by (auto simp: sleep_ok_def)
    then have "sleep_ok p'" using sleep_ok_set_worker [of ?p "W_Popped j" i] pop(6) by (simp add: sleep_ok_def)
    moreover have "blocked_ok p' t" if "pl_waiting p me = Some t" for me t
    proof -
      have "outstanding p' t = outstanding p t"
        using outstanding_set_worker [of i ?p "W_Popped j" t] pop by (auto simp: outstanding_def queued_def)
      moreover have "notifier p t \<Longrightarrow> notifier p' t"
        using notifier_set_worker [of ?p t i "W_Popped j"] pop(2,6) by (simp add: notifier_def)
      ultimately show ?thesis using bl [OF that] pop(6) by (auto simp: blocked_ok_def)
    qed
    ultimately show ?thesis using pop(6) by (simp add: wakeups_ok_def)
  next
    case (read j p2 r)
    have fr: "pl_queue p2 = pl_queue p" "pl_workers p2 = pl_workers p" "pl_shutdown p2 = pl_shutdown p"
      "pl_heap p2 = pl_heap p" "pl_waiting p2 = pl_waiting p"
      using worker_read_frame [of os "(o1, p)" j] read(3) by simp_all
    note cong = wakeups_cong [of p2 p, OF fr(1-3)]
    have "blocked_ok p' t" if "pl_waiting p me = Some t" for me t
      using blocked_ok_set_worker [of p2 t i "W_Probed j r"] bl [OF that] cong(2) fr read(1,2,4) by simp
    with sleep_ok_set_worker [of p2 "W_Probed j r" i] sl cong(1) fr read(4) show ?thesis by (simp add: wakeups_ok_def)
  next
    case (count j r)
    let ?p = "upd_ticket p (jb_tk j) (\<lambda>tk. tk\<lparr>tk_pending := tk_pending tk - 1\<rparr>)"
      and ?l = "tk_pending (pl_heap p ! jb_tk j)"
    let ?w = "W_Counted j r ?l"
    note cong = wakeups_cong [of ?p p]
    have out: "outstanding p' t + (if jb_tk j = t then 1 else 0) = outstanding p t" for t
      using outstanding_set_worker [of i ?p ?w t] count outstanding_cong [of ?p p t] by simp
    have "blocked_ok p' t" if w: "pl_waiting p me = Some t" for me t
    proof (cases "jb_tk j = t \<and> outstanding p t = 1")
      case True
      have "t < length (pl_heap p)" using bl [OF w] by (simp add: blocked_ok_def)
      then have "?l = 1" using True assms(2) by (auto simp: pool_inv_def)
      moreover have "?w \<in> set (pl_workers p')" using count(1,4) by (simp add: set_update_memI)
      ultimately have "notifier p' t" using True unfolding notifier_def by metis
      with bl [OF w] count(4) show ?thesis by (simp add: blocked_ok_def)
    next
      case False
      have "notifier p t \<Longrightarrow> notifier p' t"
        using notifier_set_worker [of ?p t i ?w] count(2,4) by (simp add: notifier_def)
      with bl [OF w] count(4) out [of t] False show ?thesis by (auto simp: blocked_ok_def split: if_splits)
    qed
    with sleep_ok_set_worker [of ?p ?w i] sl cong(1) count(4) show ?thesis by (simp add: wakeups_ok_def)
  next
    case (publish j r l)
    let ?p = "published p j r l"
    note cong = wakeups_cong [of ?p p]
    have "blocked_ok p' t" if "pl_waiting p' me = Some t" for me t
    proof -
      have l: "l \<noteq> 1" "pl_waiting p me = Some t" using that publish(4) by (auto split: if_splits)
      with blocked_ok_set_worker [of ?p t i W_Idle] bl [OF l(2)] cong(2) publish(1,2,4) show ?thesis by simp
    qed
    with sleep_ok_set_worker [of ?p W_Idle i] sl cong(1) publish(4) show ?thesis by (simp add: wakeups_ok_def)
  qed
qed

text \<open>The other threads: an enqueue and a shutdown notify the workers, a shutdown also the waiters.\<close>

lemma blocked_grows:
  assumes "blocked_ok p t" and "length (pl_heap p) \<le> length (pl_heap q)" and "pl_shutdown q = pl_shutdown p"
    and "outstanding p t \<le> outstanding q t" and "notifier p t \<Longrightarrow> notifier q t"
  shows "blocked_ok q t"
  using assms by (auto simp: blocked_ok_def)

lemma push_jobs_wakeups:
  assumes "wakeups_ok p"
  shows "wakeups_ok (push_jobs p t jobs urgent)"
proof (cases "jobs = []")
  case False
  let ?p = "push_jobs p t jobs urgent"
  have eq: "pl_workers ?p = map wake (pl_workers p)" "pl_shutdown ?p = pl_shutdown p" "pl_waiting ?p = pl_waiting p"
    "pl_queue ?p = (if urgent then jobs @ pl_queue p else pl_queue p @ jobs)" "length (pl_heap ?p) = length (pl_heap p)"
    using False by (simp_all add: push_jobs_def Let_def)
  have "outstanding p u \<le> outstanding ?p u" for u by (simp add: outstanding_def queued_def eq filter_map comp_def)
  moreover have "notifier ?p u = notifier p u" for u by (simp add: notifier_def eq)
  ultimately show ?thesis
    using assms blocked_grows [of p _ ?p] by (auto simp: wakeups_ok_def sleep_ok_def eq)
qed (use assms in \<open>simp add: push_jobs_def\<close>)

lemma get_ticket_wakeups:
  assumes "wakeups_ok p"
  shows "wakeups_ok (snd (get_ticket p a))"
proof -
  let ?p = "snd (get_ticket p a)"
  have eq: "pl_workers ?p = pl_workers p" "pl_shutdown ?p = pl_shutdown p" "pl_waiting ?p = pl_waiting p"
    "pl_queue ?p = pl_queue p" "length (pl_heap p) \<le> length (pl_heap ?p)"
    by (simp_all add: get_ticket_def split: option.split)
  have "notifier ?p u = notifier p u" for u by (simp add: notifier_def eq)
  moreover have "outstanding ?p u = outstanding p u" for u by (rule outstanding_cong) (simp_all add: eq)
  ultimately show ?thesis
    using assms blocked_grows [of p _ ?p] eq(5) by (auto simp: wakeups_ok_def sleep_ok_def eq(1-4))
qed

lemma upd_ticket_wakeups [simp]: "wakeups_ok (upd_ticket p t f) = wakeups_ok p"
  by (simp add: wakeups_ok_def wakeups_cong [of "upd_ticket p t f" p])

lemma block_wakeups:
  assumes "wakeups_ok p" and "t < length (pl_heap p)" and "\<not> pl_shutdown p" and "0 < outstanding p t \<or> pl_waiting p me = Some t"
  shows "wakeups_ok (block me t p)"
proof -
  have "sleep_ok (block me t p) = sleep_ok p" "blocked_ok (block me t p) u = blocked_ok p u" for u
    by (simp_all add: wakeups_cong [of "block me t p" p])
  with assms show ?thesis by (auto simp: wakeups_ok_def) (auto simp: blocked_ok_def)
qed

lemma outstanding_positive:
  assumes "pool_inv p" and "t < length (pl_heap p)" and "\<not> ticket_done p t"
  shows "0 < outstanding p t"
  using assms by (cases "outstanding p t") (auto simp: ticket_done_def pool_inv_def)

lemma pool_step_wakeups: "pool_step os op op' \<Longrightarrow> pool_inv (snd op) \<Longrightarrow> wakeups_ok (snd op) \<Longrightarrow> wakeups_ok (snd op')"
proof (induction rule: pool_step.induct)
  case (worker i op op')
  obtain o1 p o2 p' where "op = (o1, p)" "op' = (o2, p')" by (metis prod.exhaust)
  with worker worker_step_wakeups [of os i o1 p o2 p'] show ?case by simp
next
  case (collect t p o1 o2 n)
  let ?q = "upd_ticket p t (\<lambda>tk. tk\<lparr>tk_read_chunks := []\<rparr>)"
  have "wakeups_ok ?q" using collect by simp
  then show ?case by (simp add: wakeups_ok_def wakeups_cong [of "?q\<lparr>pl_n_colded := n\<rparr>" ?q])
next
  case (wait t p me o1)
  then show ?case using outstanding_positive [of p t] block_wakeups [of p t me] by (simp add: wait_over_def)
next
  case (spurious o1 p me)
  let ?q = "p\<lparr>pl_waiting := (pl_waiting p)(me := None)\<rparr>"
  from spurious show ?case by (simp add: wakeups_ok_def wakeups_cong [of ?q p])
next
  case (shutdown o1 p)
  then show ?case by (simp add: wakeups_ok_def sleep_ok_def shutdown_inv)
qed (simp_all add: get_ticket_wakeups push_jobs_wakeups begin_epoch_def)

lemma pool_steps_wakeups:
  "pool_steps os op op' \<Longrightarrow> pool_inv (snd op) \<Longrightarrow> wakeups_ok (snd op) \<Longrightarrow> wakeups_ok (snd op')"
  by (induction rule: rtranclp_induct) (auto dest: pool_step_wakeups pool_steps_inv)

lemma pool_start_wakeups: "wakeups_ok (pool_start pool_new n)"
  by (simp add: pool_start_def pool_new_def pool_shutdown_def wakeups_ok_def sleep_ok_def)

section \<open>Progress\<close>

text \<open>Every worker step lowers this cost, whatever the schedule.\<close>

fun stage_cost :: "worker \<Rightarrow> nat" where
  "stage_cost (W_Popped j) = 4"
| "stage_cost (W_Probed j r) = 3"
| "stage_cost (W_Counted j r l) = 2"
| "stage_cost W_Idle = 1"
| "stage_cost W_Asleep = 0"
| "stage_cost W_Exited = 0"

definition pool_cost :: "prefetch_pool \<Rightarrow> nat" where
  "pool_cost p = 4 * length (pl_queue p) + sum_list (map stage_cost (pl_workers p))"

lemma sum_list_update_cost:
  "i < length xs \<Longrightarrow> sum_list (map f (xs[i := y])) + f (xs ! i) = sum_list (map f xs) + f y" for f :: "'a \<Rightarrow> nat"
proof (induction xs arbitrary: i)
  case (Cons x xs)
  then show ?case by (cases i) (auto simp: algebra_simps)
qed simp

lemma pool_cost_set_worker:
  "i < length (pl_workers p) \<Longrightarrow> pool_cost (set_worker p i w) + stage_cost (pl_workers p ! i) = pool_cost p + stage_cost w"
  using sum_list_update_cost [of i "pl_workers p" stage_cost w] by (simp add: pool_cost_def)

lemma worker_step_progress:
  assumes "worker_step os i (o1, p) = Some (o2, p')"
  shows "pool_cost p' < pool_cost p" and "outstanding p' t \<le> outstanding p t" and "pl_shutdown p' = pl_shutdown p"
    and "length (pl_workers p') = length (pl_workers p)"
    and "\<not> pl_shutdown p \<Longrightarrow> W_Exited \<notin> set (pl_workers p) \<Longrightarrow> W_Exited \<notin> set (pl_workers p')"
proof -
  have upd: "W_Exited \<notin> set (ws[k := w])" if "W_Exited \<notin> set ws" "w \<noteq> W_Exited" for ws k w
    using that set_update_subset_insert [of ws k w] by auto
  have cost: "pool_cost q = pool_cost p" if "pl_queue q = pl_queue p" "pl_workers q = pl_workers p" for q
    using that by (simp add: pool_cost_def)
  from assms have "pool_cost p' < pool_cost p \<and> outstanding p' t \<le> outstanding p t \<and> pl_shutdown p' = pl_shutdown p
    \<and> length (pl_workers p') = length (pl_workers p)
    \<and> (\<not> pl_shutdown p \<longrightarrow> W_Exited \<notin> set (pl_workers p) \<longrightarrow> W_Exited \<notin> set (pl_workers p'))"
  proof (cases rule: worker_step_cases)
    case exit
    with pool_cost_set_worker [OF exit(1), of W_Exited] outstanding_set_worker [OF exit(1), of W_Exited t] show ?thesis by simp
  next
    case sleep
    with pool_cost_set_worker [OF sleep(1), of W_Asleep] outstanding_set_worker [OF sleep(1), of W_Asleep t] upd
    show ?thesis by simp
  next
    case (pop j q)
    let ?p = "p\<lparr>pl_queue := q\<rparr>"
    have "pool_cost ?p + 4 = pool_cost p" using pop(4) by (simp add: pool_cost_def)
    moreover have "outstanding ?p t + (if jb_tk j = t then 1 else 0) = outstanding p t"
      using pop(4) by (simp add: outstanding_def queued_def)
    ultimately show ?thesis
      using pool_cost_set_worker [of i ?p "W_Popped j"] outstanding_set_worker [of i ?p "W_Popped j" t] pop upd by auto
  next
    case (read j p2 r)
    have fr: "pl_queue p2 = pl_queue p" "pl_workers p2 = pl_workers p" "pl_shutdown p2 = pl_shutdown p"
      using worker_read_frame [of os "(o1, p)" j] read(3) by simp_all
    then show ?thesis
      using pool_cost_set_worker [of i p2 "W_Probed j r"] outstanding_set_worker [of i p2 "W_Probed j r" t] read upd
        cost [of p2] outstanding_cong [of p2 p t] by auto
  next
    case (count j r)
    let ?p = "upd_ticket p (jb_tk j) (\<lambda>tk. tk\<lparr>tk_pending := tk_pending tk - 1\<rparr>)"
    show ?thesis
      using pool_cost_set_worker [of i ?p "W_Counted j r (tk_pending (pl_heap p ! jb_tk j))"]
        outstanding_set_worker [of i ?p "W_Counted j r (tk_pending (pl_heap p ! jb_tk j))" t] count upd
        cost [of ?p] outstanding_cong [of ?p p t] by (auto split: if_splits)
  next
    case (publish j r l)
    let ?p = "published p j r l"
    have fr: "pl_queue ?p = pl_queue p" "pl_workers ?p = pl_workers p" "pl_shutdown ?p = pl_shutdown p" by simp_all
    then show ?thesis
      using pool_cost_set_worker [of i ?p W_Idle] outstanding_set_worker [of i ?p W_Idle t] publish upd
        cost [OF fr(1,2)] outstanding_cong [OF fr(1,2), of t] by auto
  qed
  then show "pool_cost p' < pool_cost p" "outstanding p' t \<le> outstanding p t" "pl_shutdown p' = pl_shutdown p"
    "length (pl_workers p') = length (pl_workers p)"
    "\<not> pl_shutdown p \<Longrightarrow> W_Exited \<notin> set (pl_workers p) \<Longrightarrow> W_Exited \<notin> set (pl_workers p')" by simp_all
qed

text \<open>A pool in service: well formed, not shut down, and none of its workers gone.\<close>

definition pool_live :: "prefetch_pool \<Rightarrow> bool" where
  "pool_live p \<longleftrightarrow> pool_inv p \<and> \<not> pl_shutdown p \<and> pl_workers p \<noteq> [] \<and> W_Exited \<notin> set (pl_workers p)"

lemma worker_step_live:
  assumes "worker_step os i op = Some op'" and "pool_live (snd op)"
  shows "pool_live (snd op')" and "length (pl_heap (snd op')) = length (pl_heap (snd op))"
    and "pool_cost (snd op') < pool_cost (snd op)" and "outstanding (snd op') t \<le> outstanding (snd op) t"
proof -
  obtain o1 p o2 p' where op: "op = (o1, p)" "op' = (o2, p')" by (metis prod.exhaust)
  note st = assms(1) [unfolded op]
  from worker_step_inv [OF st] worker_step_progress [OF st] assms(2)
  show "pool_live (snd op')" "length (pl_heap (snd op')) = length (pl_heap (snd op))"
    "pool_cost (snd op') < pool_cost (snd op)" "outstanding (snd op') t \<le> outstanding (snd op) t"
    by (auto simp: op pool_live_def)
qed

text \<open>A pool whose workers all sleep or are gone is the only one that stands still.\<close>

lemma worker_enabled:
  assumes "i < length (pl_workers p)" and "pl_workers p ! i \<noteq> W_Asleep" and "pl_workers p ! i \<noteq> W_Exited"
  shows "worker_step os i (o1, p) \<noteq> None"
  using assms by (cases "pl_workers p ! i") (simp_all add: worker_step_def Let_def case_prod_unfold split: list.split)

lemma ticket_done_iff:
  assumes "pool_inv p" and "t < length (pl_heap p)" and "outstanding p t < 2 ^ 31"
  shows "ticket_done p t \<longleftrightarrow> outstanding p t = 0"
proof -
  have "sint (of_nat (outstanding p t) :: u32) = int (outstanding p t)"
    using assms(3) by (simp add: signed_of_nat signed_take_bit_int_eq_self)
  then show ?thesis using assms(1,2) by (simp add: ticket_done_def pool_inv_def)
qed

lemma run_workers_live:
  "run_workers os sched op = Some op' \<Longrightarrow> pool_live (snd op) \<Longrightarrow>
    pool_live (snd op') \<and> length (pl_heap (snd op')) = length (pl_heap (snd op))
    \<and> length sched + pool_cost (snd op') \<le> pool_cost (snd op) \<and> outstanding (snd op') t \<le> outstanding (snd op) t"
proof (induction sched arbitrary: op)
  case (Cons i sched)
  from Cons.prems(1) obtain op1 where st: "worker_step os i op = Some op1" and rest: "run_workers os sched op1 = Some op'"
    by (auto split: option.splits)
  note live = worker_step_live [OF st Cons.prems(2)]
  from Cons.IH [OF rest live(1)] live(2,3) live(4) [of t] show ?case by auto
qed simp

lemma run_workers_append:
  "run_workers os (xs @ ys) op = (case run_workers os xs op of None \<Rightarrow> None | Some op' \<Rightarrow> run_workers os ys op')"
  by (induction xs arbitrary: op) (simp_all split: option.split)

lemma run_workers_to_rest:
  "\<exists>sched o2 p2. run_workers os sched (o1, p) = Some (o2, p2) \<and> (\<forall>i. worker_step os i (o2, p2) = None)"
proof (induction "pool_cost p" arbitrary: o1 p rule: less_induct)
  case less
  show ?case
  proof (cases "\<forall>i. worker_step os i (o1, p) = None")
    case True
    then show ?thesis by (intro exI [of _ "[]"]) simp
  next
    case False
    then obtain i o2 p2 where st: "worker_step os i (o1, p) = Some (o2, p2)" by auto
    from less [OF worker_step_progress(1) [OF st], of o2] obtain sched o3 p3 where
      "run_workers os sched (o2, p2) = Some (o3, p3)" "\<forall>i. worker_step os i (o3, p3) = None" by blast
    with st show ?thesis by (intro exI [of _ "i # sched"] exI [of _ o3] exI [of _ p3]) simp
  qed
qed

text \<open>Who is blocked does not matter to the workers.\<close>

lemma worker_step_blind:
  assumes "worker_step os i (o1, p) = Some (o2, p')"
  shows "\<exists>w'. worker_step os i (o1, p\<lparr>pl_waiting := w\<rparr>) = Some (o2, p'\<lparr>pl_waiting := w'\<rparr>)"
  using assms
proof (cases rule: worker_step_cases)
  case (read j p2 r)
  have "worker_read os (o1, p\<lparr>pl_waiting := w\<rparr>) j = ((o2, p2\<lparr>pl_waiting := w\<rparr>), r)"
    using read(3) by (auto simp: worker_read_def Let_def split: if_splits prod.splits)
  with read(1,2,4) show ?thesis
    by (intro exI [of _ w]) (simp add: worker_step_def Let_def set_worker_def)
next
  case (publish j r l)
  then show ?thesis
    by (intro exI [of _ "if l = 1 then \<lambda>_. None else w"])
      (simp add: worker_step_def published_def Let_def set_worker_def upd_ticket_def notify_done_def)
qed (auto intro!: exI [of _ w] simp: worker_step_def Let_def set_worker_def upd_ticket_def)

text \<open>A pool at rest has no job outstanding and nobody blocked.\<close>

lemma at_rest:
  assumes "pool_live p" and "wakeups_ok p" and "\<forall>i. worker_step os i (o1, p) = None"
  shows "outstanding p t = 0" and "pl_waiting p me = None"
proof -
  have asleep: "\<forall>w \<in> set (pl_workers p). w = W_Asleep"
    using worker_enabled [of _ p os o1] assms(1,3) by (fastforce simp: in_set_conv_nth pool_live_def)
  then have "W_Asleep \<in> set (pl_workers p)" using assms(1) by (cases "pl_workers p") (auto simp: pool_live_def)
  then have "pl_queue p = []" using assms(2) by (simp add: wakeups_ok_def sleep_ok_def)
  moreover have "filter (\<lambda>w. uncounted w u) (pl_workers p) = []" for u using asleep by (auto simp: filter_empty_conv)
  ultimately have out: "outstanding p u = 0" for u by (simp add: outstanding_def queued_def)
  then show "outstanding p t = 0" by simp
  have "\<not> notifier p u" for u using asleep by (auto simp: notifier_def)
  with assms(2) out show "pl_waiting p me = None"
    by (cases "pl_waiting p me") (auto simp: wakeups_ok_def blocked_ok_def)
qed

lemma wait_loop_now:
  assumes "pool_live p" and "t < length (pl_heap p)" and "outstanding p t < 2 ^ 31" and "pl_waiting p me = None"
  shows "wait_over p t \<longleftrightarrow> outstanding p t = 0"
    and "outstanding p t = 0 \<Longrightarrow> wait_loop os sched me t (o1, p) = Some (o1, p)"
  using ticket_done_iff [of p t] assms by (simp_all add: wait_loop.simps wait_over_def pool_live_def)

lemma wait_released:
  assumes "pool_live p" and "wakeups_ok p" and "t < length (pl_heap p)" and "outstanding p t < 2 ^ 31"
    and "pl_waiting p me = None \<or> pl_waiting p me = Some t"
    and "run_workers os sched (o1, p\<lparr>pl_waiting := w\<rparr>) = Some (o2, p2)" and "\<forall>i. worker_step os i (o2, p2) = None"
  shows "\<exists>o3 p3. wait_loop os sched me t (o1, p) = Some (o3, p3) \<and> outstanding p3 t = 0"
  using assms(1-6)
proof (induction sched arbitrary: o1 p w)
  case Nil
  have "worker_step os i (o1, p) = None" for i
  proof (rule ccontr)
    assume "worker_step os i (o1, p) \<noteq> None"
    then obtain o3 p3 where "worker_step os i (o1, p) = Some (o3, p3)" by auto
    from worker_step_blind [OF this, of w] Nil.prems(6) assms(7) show False by auto
  qed
  with at_rest [OF Nil.prems(1,2), of os o1] have "outstanding p t = 0" "pl_waiting p me = None" by simp_all
  with wait_loop_now(2) [OF Nil.prems(1,3,4), of me os "[]" o1] show ?case by auto
next
  case (Cons i sched)
  show ?case
  proof (cases "pl_waiting p me = None \<and> outstanding p t = 0")
    case True
    with wait_loop_now(2) [OF Cons.prems(1,3,4), of me os "i # sched" o1] show ?thesis by auto
  next
    case False
    let ?q = "block me t p"
    have q: "pool_live ?q" "outstanding ?q t = outstanding p t"
      using Cons.prems(1) outstanding_cong [of ?q p]
      by (simp_all add: pool_live_def pool_inv_def tickets_valid_cong [of ?q p])
    have qw: "wakeups_ok ?q"
      using block_wakeups [OF Cons.prems(2,3), of me] False Cons.prems(1,5) by (auto simp: pool_live_def)
    from Cons.prems(6) obtain o3 p3 where st: "worker_step os i (o1, p\<lparr>pl_waiting := w\<rparr>) = Some (o3, p3)"
      and rest: "run_workers os sched (o3, p3) = Some (o2, p2)" by (auto split: option.splits)
    from worker_step_blind [OF st, of "pl_waiting ?q"] obtain w' where
      stq: "worker_step os i (o1, ?q) = Some (o3, p3\<lparr>pl_waiting := w'\<rparr>)" by (auto simp: block_def)
    let ?q' = "p3\<lparr>pl_waiting := w'\<rparr>"
    note live = worker_step_live [OF stq, unfolded snd_conv, OF q(1)]
    have wq: "wakeups_ok ?q'" using worker_step_wakeups [OF stq _ qw] q(1) by (simp add: pool_live_def)
    have me: "pl_waiting ?q' me = None \<or> pl_waiting ?q' me = Some t" using worker_step_waiting [OF stq] by auto
    have run: "run_workers os sched (o3, ?q'\<lparr>pl_waiting := pl_waiting p3\<rparr>) = Some (o2, p2)" using rest by simp
    have t: "t < length (pl_heap ?q')" "outstanding ?q' t < 2 ^ 31" using live(2) live(4) [of t] q(2) Cons.prems(3,4) by auto
    from Cons.IH [OF live(1) wq t me run]
    have "\<exists>o4 p4. wait_loop os sched me t (o3, ?q') = Some (o4, p4) \<and> outstanding p4 t = 0" .
    moreover have "wait_loop os (i # sched) me t (o1, p) = wait_loop os sched me t (o3, ?q')"
      using False stq wait_loop_now(1) [OF Cons.prems(1,3,4), of me] Cons.prems(5)
      by (auto simp: wait_loop.simps [of os "i # sched"])
    ultimately show ?thesis by simp
  qed
qed

text \<open>Workers leave only after a shutdown.\<close>

lemma get_ticket_frame: "pl_workers (snd (get_ticket p a)) = pl_workers p"
  by (simp add: get_ticket_def split: option.split)

lemma push_jobs_frame:
  "W_Exited \<in> set (pl_workers (push_jobs p t jobs u)) \<longleftrightarrow> W_Exited \<in> set (pl_workers p)"
  "length (pl_workers (push_jobs p t jobs u)) = length (pl_workers p)" "pl_shutdown (push_jobs p t jobs u) = pl_shutdown p"
  "length (pl_heap (push_jobs p t jobs u)) = length (pl_heap p)"
  by (simp_all add: push_jobs_def Let_def)

lemma begin_epoch_frame:
  "pl_workers (begin_epoch p t e r pr) = pl_workers p" "pl_shutdown (begin_epoch p t e r pr) = pl_shutdown p"
  "length (pl_heap (begin_epoch p t e r pr)) = length (pl_heap p)" "pl_queue (begin_epoch p t e r pr) = pl_queue p"
  by (simp_all add: begin_epoch_def)

lemma pool_steps_workers:
  assumes "pool_steps os op op'" and "pool_inv (snd op)" and "W_Exited \<notin> set (pl_workers (snd op))"
  shows "length (pl_workers (snd op')) = length (pl_workers (snd op))
    \<and> (\<not> pl_shutdown (snd op') \<longrightarrow> W_Exited \<notin> set (pl_workers (snd op')))"
  using assms(1)
proof (induction rule: rtranclp_induct)
  case (step y z)
  have "pool_inv (snd y)" using pool_steps_inv [OF step(1) assms(2)] .
  with step(2,3) show ?case
  proof (induction rule: pool_step.induct)
    case (worker i y z)
    obtain o1 p o2 p' where op: "y = (o1, p)" "z = (o2, p')" by (metis prod.exhaust)
    from worker_step_progress [OF worker(1) [unfolded op]] worker(2) show ?case by (auto simp: op)
  qed (auto simp: get_ticket_frame get_ticket_inv push_jobs_frame begin_epoch_frame shutdown_inv)
qed (use assms(3) in simp)

section \<open>The engine calls are steps of the pool\<close>

lemma enqueue_ranges_steps:
  assumes "enqueue_ranges s w ranges urgent track = Some (b, s')" and "ps_pool s = Some p" and "pool_inv p"
  shows "\<exists>p'. ps_pool s' = Some p' \<and> pool_steps os (ps_os s, p) (ps_os s', p')"
proof -
  obtain t p1 where g: "get_ticket p (tn_ptr w) = (t, p1)" by fastforce
  have st: "pool_steps os (ps_os s, p) (ps_os s, p1)" using pool_step.ticket [of os "ps_os s" p "tn_ptr w"] g by auto
  have t: "t < length (pl_heap p1)" "pl_shutdown p1 = pl_shutdown p" using get_ticket_inv [OF assms(3), of "tn_ptr w"] g by simp_all
  have jobs: "list_all (\<lambda>j. jb_tk j = t) (map (mk_job w t) cs)" for cs by (simp add: list_all_iff mk_job_def)
  have step: "pool_steps os (ps_os s, p)
      (ps_os s, push_jobs (begin_epoch p1 t ep track pr) t (map (mk_job w t) cs) u)"
    if "\<not> pl_shutdown p" for cs ep pr u
    by (rule rtranclp.rtrancl_into_rtrancl [OF st]) (rule pool_step.enqueue, use t that jobs in simp_all)
  from assms(1,2) show ?thesis
    by (auto simp: enqueue_ranges_def g Let_def intro: st step split: if_splits option.splits)
qed

lemma cold_steps:
  assumes "ps_pool s = Some p" and "pool_inv p"
  shows "\<exists>p'. ps_pool (ggml_moe_prefetch_cold os s w) = Some p' \<and> pool_steps os (ps_os s, p) (ps_os (ggml_moe_prefetch_cold os s w), p')"
proof (cases "pl_tickets p (tn_ptr w)")
  case (Some t)
  then have "t < length (pl_heap p)" using assms(2) by (auto simp: pool_inv_def tickets_valid_def)
  note step = r_into_rtranclp [of "pool_step os", OF pool_step.collect [OF this]]
  show ?thesis using assms(1) Some by (auto simp: ggml_moe_prefetch_cold_def Let_def intro: step)
qed (use assms(1) in \<open>auto simp: ggml_moe_prefetch_cold_def\<close>)

lemma run_workers_steps: "run_workers os sched op = Some op' \<Longrightarrow> pool_steps os op op'"
proof (induction sched arbitrary: op)
  case (Cons i sched)
  then obtain op1 where "worker_step os i op = Some op1" "run_workers os sched op1 = Some op'" by (auto split: option.splits)
  with Cons.IH pool_step.worker [of os i op op1] show ?case by (meson converse_rtranclp_into_rtranclp)
qed simp

section \<open>Properties\<close>

text \<open>
  C2. Under every interleaving of workers, enqueues, collection, shutdown and changes of the
  operating system, the counter of each ticket is exactly the number of its jobs that are queued
  or in the hands of a worker that has not counted them.
\<close>

theorem ticket_counter_exact:
  assumes "pool_steps os (o1, pool_start pool_new n) (o2, p)" and "t < length (pl_heap p)"
  shows "tk_pending (pl_heap p ! t) = of_nat (outstanding p t)"
  using pool_steps_inv [OF assms(1)] pool_start_inv assms(2) by (simp add: pool_inv_def)

definition demo_job :: job where
  "demo_job = \<lparr>jb_addr = 65536, jb_len = 64, jb_tk = 0\<rparr>"

definition demo_pool :: prefetch_pool where
  "demo_pool = push_jobs (begin_epoch (snd (get_ticket (pool_start pool_new 1) 1)) 0 1 True []) 0 [demo_job] False"

lemma demo_pool_reachable: "pool_steps demo_host ((), pool_start pool_new 1) ((), demo_pool)"
proof -
  let ?p = "snd (get_ticket (pool_start pool_new 1) 1)"
  have "pool_step demo_host ((), pool_start pool_new 1) ((), ?p)" by (rule pool_step.ticket)
  moreover have "pool_step demo_host ((), ?p) ((), demo_pool)"
    unfolding demo_pool_def
    by (rule pool_step.enqueue) (simp_all add: get_ticket_def pool_start_def pool_new_def pool_shutdown_def demo_job_def)
  ultimately show ?thesis by (metis rtranclp.simps)
qed

lemma demo_pool_simps:
  "pl_queue demo_pool = [demo_job]" "pl_workers demo_pool = [W_Idle]" "\<not> pl_shutdown demo_pool" "length (pl_heap demo_pool) = 1"
  by (simp_all add: demo_pool_def push_jobs_def begin_epoch_def get_ticket_def pool_start_def pool_new_def pool_shutdown_def
      Let_def wake_def)

lemma ticket_counter_exact_witness: "tk_pending (pl_heap demo_pool ! 0) = 1"
  using ticket_counter_exact [OF demo_pool_reachable, of 0]
  by (simp add: demo_pool_simps outstanding_def queued_def) (simp add: demo_job_def)

text \<open>
  C8. A waiter is always released, although it sleeps until it is notified. In a pool in service,
  a thread that calls the wait or is already blocked in it (\<open>pl_waiting\<close>), after whatever
  happened before (enqueues, other waiters, collections, spurious wake-ups): every run of the
  workers is bounded by the cost of the pool; when the workers have no step left, the waiter has
  been notified and has returned; any run can be continued until it returns; and when it returns,
  no job of its ticket is queued or unread.
\<close>

theorem wait_always_returns:
  assumes "pool_steps os (o0, pool_start pool_new n) (o1, p)" and "0 < n" and "\<not> pl_shutdown p"
    and "t < length (pl_heap p)" and "outstanding p t < 2 ^ 31" and "pl_waiting p me = None \<or> pl_waiting p me = Some t"
    and "run_workers os sched (o1, p) = Some (o2, p2)"
  shows "length sched \<le> pool_cost p
    \<and> ((\<forall>i. worker_step os i (o2, p2) = None) \<longrightarrow>
        (\<exists>o3 p3. wait_loop os sched me t (o1, p) = Some (o3, p3) \<and> outstanding p3 t = 0))
    \<and> (\<exists>more o3 p3. wait_loop os (sched @ more) me t (o1, p) = Some (o3, p3) \<and> outstanding p3 t = 0
        \<and> length (sched @ more) \<le> pool_cost p)"
proof -
  have inv: "pool_inv p" using pool_steps_inv [OF assms(1)] pool_start_inv by simp
  have wk: "wakeups_ok p" using pool_steps_wakeups [OF assms(1)] pool_start_inv pool_start_wakeups by simp
  have "W_Exited \<notin> set (pl_workers (pool_start pool_new n))" by (simp add: pool_start_def)
  then have "W_Exited \<notin> set (pl_workers p)" "length (pl_workers p) = n"
    using pool_steps_workers [OF assms(1)] pool_start_inv assms(3) by (simp_all add: pool_start_def)
  then have live: "pool_live p" using inv assms(2,3) by (auto simp: pool_live_def)
  note released = wait_released [OF live wk assms(4,5,6), where w = "pl_waiting p", simplified]
  have bounded: "length sched' \<le> pool_cost p" if "run_workers os sched' (o1, p) = Some op'" for sched' op'
    using run_workers_live [OF that, of t] live by auto
  obtain more o3 p3 where more: "run_workers os more (o2, p2) = Some (o3, p3)" "\<forall>i. worker_step os i (o3, p3) = None"
    using run_workers_to_rest [of os o2 p2] by blast
  have run: "run_workers os (sched @ more) (o1, p) = Some (o3, p3)" using assms(7) more(1) by (simp add: run_workers_append)
  show ?thesis using bounded [OF assms(7)] released [OF assms(7)] released [OF run more(2)] bounded [OF run] by blast
qed

lemma wait_always_returns_witness:
  "\<exists>sched o3 p3. wait_loop demo_host sched 0 0 ((), demo_pool) = Some (o3, p3) \<and> length sched \<le> 5 \<and> outstanding p3 0 = 0"
proof -
  have "pl_waiting demo_pool 0 = None" "outstanding demo_pool 0 = 1" "pool_cost demo_pool = 5"
    by (simp_all add: demo_pool_simps outstanding_def queued_def pool_cost_def) (simp_all add: demo_pool_def demo_job_def
      push_jobs_def begin_epoch_def get_ticket_def pool_start_def pool_new_def pool_shutdown_def Let_def)
  with wait_always_returns [OF demo_pool_reachable _ demo_pool_simps(3), of 0 0 "[]"] show ?thesis
    by (auto simp: demo_pool_simps)
qed

text \<open>
  C9. An accepted enqueue queues exactly the bytes of its ranges, in order and in chunks of at most
  two megabytes, in front when urgent and behind otherwise, counts every range as prefetched
  (full-tensor lookahead included), and is idempotent within the epoch: any further enqueue of
  the tensor is a no-op.
\<close>

theorem enqueue_exact_once:
  assumes "ps_pool s = Some p" and "is_mapped s (tn_data w) (tn_nbytes w)" and "\<not> pl_shutdown p" and "pool_inv p"
    and "get_ticket p (tn_ptr w) = (t, p1)" and "tk_epoch (pl_heap p1 ! t) \<noteq> ps_epoch s"
    and "urgent \<or> length (pl_queue p) \<le> prefetch_max_queue"
    and "\<forall>(a, l) \<in> set ranges. unat a + unat l + 2097152 \<le> 2 ^ 64"
  shows "\<exists>s' p' jobs cs. enqueue_ranges s w ranges urgent track = Some (True, s') \<and> ps_pool s' = Some p'
    \<and> pl_queue p' = (if urgent then jobs @ pl_queue p else pl_queue p @ jobs)
    \<and> list_all2 (\<lambda>j (a, l). jb_addr j = tn_data w + a \<and> unat (jb_len j) = unat l \<and> jb_tk j = t) jobs cs
    \<and> concat (map (\<lambda>(a, l). [unat a..<unat a + unat l]) cs) = concat (map (\<lambda>(a, l). [unat a..<unat a + unat l]) ranges)
    \<and> list_all (\<lambda>(a, l). 0 < l \<and> l \<le> prefetch_chunk) cs
    \<and> es_prefetched (ps_stats s') = es_prefetched (ps_stats s) + of_nat (length ranges)
    \<and> (\<forall>rs u tr. enqueue_ranges s' w rs u tr = Some (True, s'))"
proof -
  from range_chunks_spec [of ranges] assms(8) obtain cs where cs: "range_chunks ranges = Some cs"
    "concat (map (\<lambda>(a, l). [unat a..<unat a + unat l]) cs) = concat (map (\<lambda>(a, l). [unat a..<unat a + unat l]) ranges)"
    "\<forall>(a, l) \<in> set cs. 0 < l \<and> l \<le> prefetch_chunk" by (auto simp: prefetch_chunk_def)
  let ?jobs = "map (mk_job w t) cs"
  let ?b = "begin_epoch p1 t (ps_epoch s) track (map (\<lambda>(a, l). (tn_data w + a, l)) ranges)"
  let ?p = "push_jobs ?b t ?jobs urgent"
  let ?s = "s\<lparr>ps_stats := (ps_stats s)\<lparr>es_prefetched := es_prefetched (ps_stats s) + of_nat (length ranges)\<rparr>, ps_pool := Some ?p\<rparr>"
  have q1: "pl_queue p1 = pl_queue p" "pl_tickets p1 (tn_ptr w) = Some t" "t < length (pl_heap p1)" "\<not> pl_shutdown p1"
    using assms(3,5) get_ticket_inv [OF assms(4), of "tn_ptr w"]
    by (auto simp: get_ticket_def split: option.splits)
  have eq: "enqueue_ranges s w ranges urgent track = Some (True, ?s)"
    using assms(1-3,5-7) q1 cs(1) by (auto simp: enqueue_ranges_def Let_def)
  have len: "unat (ucast l :: u32) = unat l" if "l \<le> prefetch_chunk" for l :: u64
    using that by (simp add: prefetch_chunk_def word_le_nat_alt unsigned_ucast_eq take_bit_nat_eq_self)
  have jobs: "list_all2 (\<lambda>j (a, l). jb_addr j = tn_data w + a \<and> unat (jb_len j) = unat l \<and> jb_tk j = t) ?jobs cs"
    using cs(3) len by (auto simp: list_all2_conv_all_nth mk_job_def case_prod_unfold)
  have q: "pl_queue ?p = (if urgent then ?jobs @ pl_queue p else pl_queue p @ ?jobs)"
    by (auto simp: push_jobs_def Let_def begin_epoch_def q1(1))
  have again: "get_ticket ?p (tn_ptr w) = (t, ?p)" "tk_epoch (pl_heap ?p ! t) = ps_epoch s" "\<not> pl_shutdown ?p"
    using q1 by (auto simp: push_jobs_def Let_def begin_epoch_def get_ticket_def)
  have m: "is_mapped ?s (tn_data w) (tn_nbytes w)" using assms(2) by (simp add: is_mapped_def)
  have "enqueue_ranges ?s w rs u tr = Some (True, ?s)" for rs u tr
    using again m by (simp add: enqueue_ranges_def)
  with eq q jobs cs(2,3) show ?thesis
    by (intro exI [of _ ?s] exI [of _ ?p] exI [of _ ?jobs] exI [of _ cs]) (auto simp: list_all_iff)
qed

definition queue_state :: "unit prefetch_state" where
  "queue_state = (state_new ())\<lparr>ps_pool := Some (pool_start pool_new 1),
     ps_mappings := [\<lparr>me_base = 65536, me_size = 4096\<rparr>]\<rparr>"

lemma enqueue_exact_once_witness:
  "\<exists>s'. enqueue_ranges queue_state demo_weights [(0, 16), (32, 16)] True False = Some (True, s')
    \<and> es_prefetched (ps_stats s') = 2 \<and> enqueue_ranges s' demo_weights [(0, 64)] False True = Some (True, s')"
proof -
  let ?p = "pool_start pool_new 1"
  have p: "ps_pool queue_state = Some ?p" "is_mapped queue_state (tn_data demo_weights) (tn_nbytes demo_weights)"
    "\<not> pl_shutdown ?p" "length (pl_queue ?p) \<le> prefetch_max_queue" "es_prefetched (ps_stats queue_state) = 0"
    "ps_epoch queue_state = 1"
    by (simp_all add: queue_state_def state_new_def is_mapped_def pool_start_def pool_new_def pool_shutdown_def engine_stats_init_def)
  have t: "get_ticket ?p (tn_ptr demo_weights) = (0, snd (get_ticket ?p (tn_ptr demo_weights)))"
    "tk_epoch (pl_heap (snd (get_ticket ?p (tn_ptr demo_weights))) ! 0) = 0"
    by (simp_all add: get_ticket_def pool_start_def pool_new_def pool_shutdown_def ticket_new_def)
  have r: "\<forall>(a, l) \<in> set [(0, 16), (32, 16) :: range]. unat a + unat l + 2097152 \<le> 2 ^ 64" by simp
  have e: "tk_epoch (pl_heap (snd (get_ticket ?p (tn_ptr demo_weights))) ! 0) \<noteq> ps_epoch queue_state" by (simp only: t(2) p(6)) simp
  from enqueue_exact_once [OF p(1-3) pool_start_inv t(1) e _ r, of True False] p(5) show ?thesis
    by (auto simp: numeral_2_eq_2)
qed

section \<open>A chunk read before the wait ends can miss its reclamation\<close>

text \<open>
  A worker counts its job before it publishes the chunk it read (\<open>pending.fetch_sub\<close> precedes
  the lock that guards \<open>read_chunks\<close>). In the schedule below the wait begins after the count: it
  returns at once, without taking the lock, \<open>ggml_moe_prefetch_cold\<close> collects an empty list, and
  the chunk is published afterwards.
\<close>

definition race_pool :: prefetch_pool where
  "race_pool = set_worker (upd_ticket (demo_pool\<lparr>pl_queue := [], pl_n_jobs := 1, pl_bytes_populated := 4096\<rparr>) 0
     (\<lambda>tk. tk\<lparr>tk_pending := 0\<rparr>)) 0 (W_Counted demo_job True 1)"

definition race_state :: "unit prefetch_state" where
  "race_state = (state_new ())\<lparr>ps_pool := Some race_pool\<rparr>"

lemma race_run: "run_workers demo_host [0, 0, 0] ((), demo_pool) = Some ((), race_pool)"
  by (simp add: worker_step_def race_pool_def demo_pool_def push_jobs_def begin_epoch_def get_ticket_def pool_start_def
      pool_new_def pool_shutdown_def ticket_new_def Let_def demo_job_def set_worker_def upd_ticket_def notify_work_def
      notify_done_def wake_def worker_read_def chunk_resident_def demo_host_def page_floor_def page_count_def prefetch_chunk_def)

lemma race_pool_simps:
  "pl_tickets race_pool (tn_ptr demo_weights) = Some 0" "ticket_done race_pool 0" "tk_track_reads (pl_heap race_pool ! 0)"
  "tk_read_chunks (pl_heap race_pool ! 0) = []" "pl_n_colded race_pool = 0" "length (pl_heap race_pool) = 1"
  "pl_workers race_pool = [W_Counted demo_job True 1]"
  by (simp_all add: race_pool_def demo_pool_def push_jobs_def begin_epoch_def get_ticket_def pool_start_def pool_new_def
      pool_shutdown_def ticket_new_def Let_def ticket_done_def demo_weights_def notify_work_def notify_done_def wake_def)
    (simp_all add: upd_ticket_def set_worker_def)

lemma cold_misses_last_chunk:
  "\<exists>p2 o3 p3. ggml_moe_prefetch_wait demo_host [] race_state demo_weights = Some race_state
    \<and> ps_pool (ggml_moe_prefetch_cold demo_host race_state demo_weights) = Some p2 \<and> pl_n_colded p2 = 0
    \<and> worker_step demo_host 0 ((), p2) = Some (o3, p3) \<and> tk_read_chunks (pl_heap p3 ! 0) = [(65536, 64)]"
  by (simp add: ggml_moe_prefetch_wait_def ggml_moe_prefetch_cold_def race_state_def state_new_def Let_def
      race_pool_simps advise_all_def worker_step_def upd_ticket_def set_worker_def notify_done_def)
    (simp add: demo_job_def race_pool_simps nth_list_update)

end
