(* ===== verification/Ordered_Map.thy ===== *)
theory Ordered_Map
  imports Pin_Prelude
begin

text \<open>\<open>std::map\<close> as its list of entries in ascending order of keys.\<close>

fun om_insert :: "'k::linorder \<Rightarrow> 'v \<Rightarrow> ('k \<times> 'v) list \<Rightarrow> ('k \<times> 'v) list" where
  "om_insert k v [] = [(k, v)]"
| "om_insert k v ((k', v') # m) =
     (if k < k' then (k, v) # (k', v') # m else if k = k' then (k, v) # m else (k', v') # om_insert k v m)"

definition om_emplace :: "'k::linorder \<Rightarrow> 'v \<Rightarrow> ('k \<times> 'v) list \<Rightarrow> ('k \<times> 'v) list option" where
  "om_emplace k v m = (if map_of m k = None then Some (om_insert k v m) else None)"

lemma map_of_om_insert [simp]: "map_of (om_insert k v m) = (map_of m)(k \<mapsto> v)"
  by (induction m rule: om_insert.induct) auto

lemma set_fst_om_insert [simp]: "fst ` set (om_insert k v m) = insert k (fst ` set m)"
  by (induction m rule: om_insert.induct) auto

lemma sorted_om_insert:
  "sorted_wrt (<) (map fst m) \<Longrightarrow> sorted_wrt (<) (map fst (om_insert k v m))"
proof (induction m rule: om_insert.induct)
  case (2 k v k' v' m)
  have "set (map fst (om_insert k v m)) = insert k (set (map fst m))" by (simp only: set_map set_fst_om_insert)
  with 2 show ?case by (auto simp del: set_map)
qed simp

lemma map_of_iff_sorted:
  "sorted_wrt (<) (map fst m) \<Longrightarrow> map_of m k = Some v \<longleftrightarrow> (k, v) \<in> set m" for k :: "'k::linorder"
  by (metis map_of_eq_Some_iff strict_sorted_iff)

lemma om_insert_new: "k \<notin> fst ` set m \<Longrightarrow> set (om_insert k v m) = insert (k, v) (set m) \<and> length (om_insert k v m) = Suc (length m)"
  by (induction m rule: om_insert.induct) auto

end
