(* ===== verification/Expert_Manifest.thy ===== *)
theory Expert_Manifest
  imports Complex_Main Decimal_Text Ordered_Map
begin

text \<open>
  The expert manifest (\<open>src/llama-expert-manifest.h\<close> and \<open>.cpp\<close>): which experts of which
  layer are kept resident, in order of saliency. The JSON library is a parameter: \<open>parse\<close>
  returns the value or the text of its error. A JSON object is the list of its members in the
  order of iteration; the file system is a function that returns the contents and whether the
  read ended well.
\<close>

section \<open>JSON values\<close>

datatype json = J_Null | J_Bool bool | J_Unsigned u64 | J_Integer int | J_Float rat | J_String string
  | J_Array "json list" | J_Object "(string \<times> json) list"

section \<open>Parsing\<close>

record llama_expert_manifest =
  mf_layers :: "(u32 \<times> u32 list) list"
  mf_source :: string

definition manifest_error :: "string \<Rightarrow> string \<Rightarrow> 'a throws" where
  "manifest_error source message = Inl (''expert manifest '' @ [CHR 0x27] @ source @ [CHR 0x27] @ '': '' @ message)"

definition quoted :: "string \<Rightarrow> string" where
  "quoted s = [CHR 0x27] @ s @ [CHR 0x27]"

definition parse_layer_key :: "string \<Rightarrow> string \<Rightarrow> u32 throws" where
  "parse_layer_key key source =
     (if key = [] \<or> hd key = CHR ''-'' \<or> hd key = CHR ''+''
      then manifest_error source (''invalid layer key '' @ quoted key @ '' (expected a non-negative integer)'')
      else case from_chars_u32 key of (ec, layer, rest) \<Rightarrow>
        if ec \<noteq> Ok_Errc \<or> rest \<noteq> []
        then manifest_error source (''invalid layer key '' @ quoted key @ '' (expected a non-negative integer)'')
        else Inr layer)"

definition parse_expert_id :: "json \<Rightarrow> u32 \<Rightarrow> nat \<Rightarrow> string \<Rightarrow> u32 throws" where
  "parse_expert_id v layer index source =
     (let location = ''expert id at layer '' @ dec_word layer @ '', index '' @ dec_nat index in
      case v of
        J_Unsigned i \<Rightarrow> if i > 0xFFFFFFFF then manifest_error source (location @ '' is too large'') else Inr (ucast i)
      | J_Integer i \<Rightarrow> if i < 0 then manifest_error source (location @ '' must be >= 0'')
                      else if i > 0xFFFFFFFF then manifest_error source (location @ '' is too large'')
                      else Inr (of_int i)
      | _ \<Rightarrow> manifest_error source (location @ '' must be an integer''))"

text \<open>The loop over the ids of a layer; \<open>done\<close> holds the ids so far, which are the set \<open>seen\<close>.\<close>

fun parse_ids :: "string \<Rightarrow> u32 \<Rightarrow> u32 list \<Rightarrow> json list \<Rightarrow> u32 list throws" where
  "parse_ids source layer done [] = Inr done"
| "parse_ids source layer done (v # vs) = ebind (parse_expert_id v layer (length done) source) (\<lambda>i.
     if i \<in> set done
     then manifest_error source (''duplicate expert id '' @ dec_word i @ '' in layer '' @ dec_word layer)
     else parse_ids source layer (done @ [i]) vs)"

fun parse_layers :: "string \<Rightarrow> (u32 \<times> u32 list) list \<Rightarrow> (string \<times> json) list \<Rightarrow> (u32 \<times> u32 list) list throws" where
  "parse_layers source layers [] = Inr layers"
| "parse_layers source layers ((key, v) # ms) = ebind (parse_layer_key key source) (\<lambda>layer.
     case v of
       J_Array vs \<Rightarrow>
         if vs = [] then manifest_error source (''expert-id list for layer '' @ dec_word layer @ '' must not be empty'')
         else ebind (parse_ids source layer [] vs) (\<lambda>ids.
           case om_emplace layer ids layers of
             None \<Rightarrow> manifest_error source (''duplicate layer '' @ dec_word layer)
           | Some layers \<Rightarrow> parse_layers source layers ms)
     | _ \<Rightarrow> manifest_error source (''layer '' @ dec_word layer @ '' must contain an expert-id array''))"

definition wrappers :: "string list" where
  "wrappers = [''layers'', ''pinned_experts'', ''kept_experts'']"

fun select_wrapper :: "string \<Rightarrow> (string \<times> json) list \<Rightarrow> (string \<times> json) option \<Rightarrow> string list \<Rightarrow> (string \<times> json) option throws" where
  "select_wrapper source members sel [] = Inr sel"
| "select_wrapper source members sel (w # ws) =
     (case map_of members w of
        None \<Rightarrow> select_wrapper source members sel ws
      | Some v \<Rightarrow> if sel \<noteq> None then manifest_error source ''multiple wrapper keys are not allowed''
                  else select_wrapper source members (Some (w, v)) ws)"

definition llama_expert_manifest_parse ::
  "(string \<Rightarrow> string + json) \<Rightarrow> string \<Rightarrow> string \<Rightarrow> llama_expert_manifest throws" where
  "llama_expert_manifest_parse parse json_text source =
     (case parse json_text of
        Inl what \<Rightarrow> manifest_error source (''invalid JSON: '' @ what)
      | Inr doc \<Rightarrow>
        (case doc of
           J_Object members \<Rightarrow> ebind (select_wrapper source members None wrappers) (\<lambda>sel.
             case (case sel of None \<Rightarrow> doc | Some (_, v) \<Rightarrow> v) of
               J_Object layer_map \<Rightarrow>
                 if layer_map = [] then manifest_error source ''layer map must not be empty''
                 else ebind (parse_layers source [] layer_map) (\<lambda>layers.
                   Inr \<lparr>mf_layers = layers, mf_source = source\<rparr>)
             | _ \<Rightarrow> manifest_error source ((case sel of None \<Rightarrow> ''root'' | Some (w, _) \<Rightarrow> w)
                       @ '' must contain a layer-to-expert object''))
         | _ \<Rightarrow> manifest_error source ''root must be a JSON object''))"

definition llama_expert_manifest_load ::
  "(string \<Rightarrow> string + json) \<Rightarrow> (string \<Rightarrow> (string \<times> bool) option) \<Rightarrow> string \<Rightarrow> llama_expert_manifest throws" where
  "llama_expert_manifest_load parse read_file path =
     (case read_file path of
        None \<Rightarrow> manifest_error path ''cannot open file''
      | Some (contents, ok) \<Rightarrow> if \<not> ok then manifest_error path ''failed while reading file''
                               else llama_expert_manifest_parse parse contents path)"

section \<open>Validation and selection\<close>

definition validate_layer :: "string \<Rightarrow> u32 \<Rightarrow> u32 \<Rightarrow> int \<Rightarrow> u32 \<times> u32 list \<Rightarrow> unit throws" where
  "validate_layer source n_layers n_experts resident entry =
     (let layer = fst entry; ids = snd entry in
      if layer \<ge> n_layers
      then manifest_error source (''layer '' @ dec_word layer @ '' is outside model layer range [0, '' @ dec_word n_layers @ '')'')
      else if resident > sint (of_nat (length ids) :: u32)
      then manifest_error source (''resident expert count '' @ dec_int resident @ '' exceeds layer '' @ dec_word layer
             @ '' list length '' @ dec_nat (length ids))
      else case filter (\<lambda>i. i \<ge> n_experts) ids of
        [] \<Rightarrow> Inr ()
      | i # _ \<Rightarrow> manifest_error source (''expert id '' @ dec_word i @ '' in layer '' @ dec_word layer
             @ '' is outside model expert range [0, '' @ dec_word n_experts @ '')''))"

fun validate_layers :: "string \<Rightarrow> u32 \<Rightarrow> u32 \<Rightarrow> int \<Rightarrow> (u32 \<times> u32 list) list \<Rightarrow> unit throws" where
  "validate_layers source n_layers n_experts resident [] = Inr ()"
| "validate_layers source n_layers n_experts resident (e # es) =
     ebind (validate_layer source n_layers n_experts resident e) (\<lambda>_. validate_layers source n_layers n_experts resident es)"

definition llama_expert_manifest_validate :: "llama_expert_manifest \<Rightarrow> u32 \<Rightarrow> u32 \<Rightarrow> int \<Rightarrow> unit throws" where
  "llama_expert_manifest_validate m n_layers n_experts resident =
     (if resident < 0 then manifest_error (mf_source m) ''resident expert count must be >= 0''
      else validate_layers (mf_source m) n_layers n_experts resident (mf_layers m))"

definition llama_expert_manifest_select :: "llama_expert_manifest \<Rightarrow> u32 \<Rightarrow> nat \<Rightarrow> u32 list throws" where
  "llama_expert_manifest_select m layer k =
     (case map_of (mf_layers m) layer of
        None \<Rightarrow> manifest_error (mf_source m) (''layer '' @ dec_word layer @ '' is not present'')
      | Some ids \<Rightarrow> Inr (take (min k (length ids)) ids))"

section \<open>What is accepted\<close>

text \<open>The meaning of the members of a layer map, without order of evaluation or messages.\<close>

definition json_id :: "json \<Rightarrow> nat option" where
  "json_id v = (case v of J_Unsigned i \<Rightarrow> if unat i < 2 ^ 32 then Some (unat i) else None
     | J_Integer i \<Rightarrow> if 0 \<le> i \<and> i < 2 ^ 32 then Some (nat i) else None | _ \<Rightarrow> None)"

definition key_layer :: "string \<Rightarrow> nat option" where
  "key_layer key = (if key \<noteq> [] \<and> list_all is_digit key \<and> read_digits key < 2 ^ 32 then Some (read_digits key) else None)"

definition layer_member :: "string \<times> json \<Rightarrow> (u32 \<times> u32 list) option" where
  "layer_member m = (case (key_layer (fst m), snd m) of
       (Some n, J_Array vs) \<Rightarrow>
          if vs \<noteq> [] \<and> list_all (\<lambda>v. json_id v \<noteq> None) vs \<and> distinct (map json_id vs)
          then Some (of_nat n, map (\<lambda>v. of_nat (the (json_id v))) vs) else None
     | _ \<Rightarrow> None)"

lemma manifest_error_neq [simp]: "manifest_error s m \<noteq> Inr x" "Inr x \<noteq> manifest_error s m"
  by (simp_all add: manifest_error_def)

lemma parse_layer_key_iff: "parse_layer_key key source = Inr layer \<longleftrightarrow> (\<exists>n. key_layer key = Some n \<and> layer = of_nat n)"
proof (cases "key = [] \<or> hd key = CHR ''-'' \<or> hd key = CHR ''+''")
  case True
  then have "key_layer key = None" by (cases key) (auto simp: key_layer_def)
  with True show ?thesis by (auto simp: parse_layer_key_def)
next
  case False
  have "parse_layer_key key source = Inr layer \<longleftrightarrow> from_chars_u32 key = (Ok_Errc, layer, [])"
    using False by (auto simp: parse_layer_key_def split: prod.splits)
  with from_chars_Ok_iff [of key layer] show ?thesis by (auto simp: key_layer_def)
qed

lemma parse_expert_id_iff: "parse_expert_id v layer n source = Inr i \<longleftrightarrow> (\<exists>k. json_id v = Some k \<and> i = of_nat k)"
proof (cases v)
  case (J_Unsigned x)
  have "\<not> x > 0xFFFFFFFF \<longleftrightarrow> unat x < 2 ^ 32" by (auto simp: word_less_nat_alt not_less)
  with J_Unsigned show ?thesis by (auto simp: parse_expert_id_def json_id_def)
next
  case (J_Integer x)
  then show ?thesis by (auto simp: parse_expert_id_def json_id_def)
qed (simp_all add: parse_expert_id_def json_id_def)

lemma json_id_bound: "json_id v = Some k \<Longrightarrow> k < 2 ^ 32"
  by (auto simp: json_id_def split: json.splits if_splits)

lemma unat_u32_of_nat: "k < 2 ^ 32 \<Longrightarrow> unat (of_nat k :: u32) = k"
  by (simp add: unat_of_nat)

lemma u32_of_nat_inj: "j < 2 ^ 32 \<Longrightarrow> k < 2 ^ 32 \<Longrightarrow> (of_nat j :: u32) = of_nat k \<longleftrightarrow> j = k"
  by (metis unat_u32_of_nat)

lemma parse_ids_iff:
  "parse_ids source layer acc vs = Inr ids \<longleftrightarrow>
     list_all (\<lambda>v. json_id v \<noteq> None) vs \<and> ids = acc @ map (\<lambda>v. of_nat (the (json_id v))) vs
     \<and> distinct (map (\<lambda>v. of_nat (the (json_id v)) :: u32) vs)
     \<and> set acc \<inter> set (map (\<lambda>v. of_nat (the (json_id v))) vs) = {}"
proof (induction vs arbitrary: acc)
  case (Cons v vs)
  show ?case
  proof (cases "json_id v")
    case None
    then have "\<not> (\<exists>i. parse_expert_id v layer (length acc) source = Inr i)" by (simp add: parse_expert_id_iff)
    with None show ?thesis by (cases "parse_expert_id v layer (length acc) source") auto
  next
    case (Some k)
    then have "parse_expert_id v layer (length acc) source = Inr (of_nat k)" by (simp add: parse_expert_id_iff)
    with Some show ?thesis by (auto simp: Cons.IH)
  qed
qed auto

lemma distinct_ids:
  assumes "list_all (\<lambda>v. json_id v \<noteq> None) vs"
  shows "distinct (map (\<lambda>v. of_nat (the (json_id v)) :: u32) vs) \<longleftrightarrow> distinct (map json_id vs)"
  using assms
proof (induction vs)
  case (Cons v vs)
  have "json_id v = json_id u \<longleftrightarrow> (of_nat (the (json_id v)) :: u32) = of_nat (the (json_id u))" if "u \<in> set vs" for u
  proof -
    from Cons.prems that obtain j k where jk: "json_id v = Some j" "json_id u = Some k" by (auto simp: list_all_iff)
    with u32_of_nat_inj [of j k] json_id_bound show ?thesis by auto
  qed
  then show ?case using Cons by (auto simp: image_iff)
qed simp

lemma parse_layers_step:
  "parse_layers source layers ((key, v) # ms) = Inr out \<longleftrightarrow>
     (\<exists>l ids. layer_member (key, v) = Some (l, ids) \<and> map_of layers l = None
        \<and> parse_layers source (om_insert l ids layers) ms = Inr out)"
proof (cases "key_layer key")
  case None
  then have "\<not> (\<exists>l. parse_layer_key key source = Inr l)" by (simp add: parse_layer_key_iff)
  with None show ?thesis by (cases "parse_layer_key key source") (auto simp: layer_member_def)
next
  case (Some n)
  then have k: "parse_layer_key key source = Inr (of_nat n)" by (simp add: parse_layer_key_iff)
  show ?thesis
  proof (cases v)
    case (J_Array vs)
    show ?thesis
    proof (cases "parse_ids source (of_nat n) [] vs")
      case (Inl e)
      then have "\<not> (\<exists>ids. parse_ids source (of_nat n) [] vs = Inr ids)" by simp
      then have "\<not> (list_all (\<lambda>v. json_id v \<noteq> None) vs \<and> distinct (map json_id vs))"
        using distinct_ids [of vs] by (auto simp: parse_ids_iff)
      with Inl k J_Array Some show ?thesis by (auto simp: layer_member_def)
    next
      case (Inr ids)
      then have "list_all (\<lambda>v. json_id v \<noteq> None) vs" "distinct (map json_id vs)" "ids = map (\<lambda>v. of_nat (the (json_id v))) vs"
        using distinct_ids [of vs] by (auto simp: parse_ids_iff)
      with Inr k J_Array Some show ?thesis by (auto simp: layer_member_def om_emplace_def)
    qed
  qed (use k Some in \<open>simp_all add: layer_member_def\<close>)
qed

lemma parse_layers_iff:
  "parse_layers source layers ms = Inr out \<longleftrightarrow>
     (\<exists>es. map layer_member ms = map Some es \<and> distinct (map fst es)
        \<and> set (map fst es) \<inter> dom (map_of layers) = {} \<and> out = foldl (\<lambda>m e. om_insert (fst e) (snd e) m) layers es)"
proof (induction ms arbitrary: layers)
  case (Cons m ms)
  obtain key v where m: "m = (key, v)" by fastforce
  show ?case
    unfolding m parse_layers_step Cons.IH
  proof (intro iffI; elim exE conjE)
    fix l ids es assume "layer_member (key, v) = Some (l, ids)" "map_of layers l = None" "map layer_member ms = map Some es"
      "distinct (map fst es)" "set (map fst es) \<inter> dom (map_of (om_insert l ids layers)) = {}"
      "out = foldl (\<lambda>m e. om_insert (fst e) (snd e) m) (om_insert l ids layers) es"
    then show "\<exists>es. map layer_member ((key, v) # ms) = map Some es \<and> distinct (map fst es)
        \<and> set (map fst es) \<inter> dom (map_of layers) = {} \<and> out = foldl (\<lambda>m e. om_insert (fst e) (snd e) m) layers es"
      by (intro exI [of _ "(l, ids) # es"]) auto
  next
    fix es assume es: "map layer_member ((key, v) # ms) = map Some es" "distinct (map fst es)"
        "set (map fst es) \<inter> dom (map_of layers) = {}" "out = foldl (\<lambda>m e. om_insert (fst e) (snd e) m) layers es"
    then obtain l ids es' where "es = (l, ids) # es'" by (cases es) auto
    with es show "\<exists>l ids. layer_member (key, v) = Some (l, ids) \<and> map_of layers l = None \<and>
         (\<exists>es. map layer_member ms = map Some es \<and> distinct (map fst es) \<and>
            set (map fst es) \<inter> dom (map_of (om_insert l ids layers)) = {} \<and>
            out = foldl (\<lambda>m e. om_insert (fst e) (snd e) m) (om_insert l ids layers) es)"
      by (intro exI [of _ l] exI [of _ ids] conjI exI [of _ es']) auto
  qed
qed auto

lemma foldl_om_insert:
  assumes "distinct (map fst es)" and "set (map fst es) \<inter> dom (map_of m) = {}" and "sorted_wrt (<) (map fst m)"
  shows "sorted_wrt (<) (map fst (foldl (\<lambda>m e. om_insert (fst e) (snd e) m) m es))
    \<and> set (foldl (\<lambda>m e. om_insert (fst e) (snd e) m) m es) = set m \<union> set es"
  using assms
proof (induction es arbitrary: m)
  case (Cons e es)
  let ?m = "om_insert (fst e) (snd e) m"
  have s: "sorted_wrt (<) (map fst ?m)" using sorted_om_insert [OF Cons.prems(3)] .
  have new: "map_of m (fst e) = None" using Cons.prems(2) by auto
  have "x \<in> set ?m \<longleftrightarrow> x \<in> insert e (set m)" for x
    using map_of_iff_sorted [OF s, of "fst x" "snd x"] map_of_iff_sorted [OF Cons.prems(3), of "fst x" "snd x"] new
    by (cases x; cases e) (auto split: if_splits)
  then have "set ?m = insert e (set m)" by blast
  moreover have "set (map fst es) \<inter> dom (map_of ?m) = {}" "distinct (map fst es)" using Cons.prems(1,2) by auto
  note Cons.IH [OF this(2,1) s]
  ultimately show ?case by simp
qed simp

text \<open>The object that holds the layers: the root, or the one wrapper it has.\<close>

definition manifest_body :: "(string \<times> json) list \<Rightarrow> (string \<times> json) list option" where
  "manifest_body members = (case filter (\<lambda>w. map_of members w \<noteq> None) wrappers of
       [] \<Rightarrow> Some members
     | [w] \<Rightarrow> (case map_of members w of Some (J_Object lm) \<Rightarrow> Some lm | _ \<Rightarrow> None)
     | _ \<Rightarrow> None)"

lemma filter_single: "filter P xs = [x] \<Longrightarrow> P x"
  by (metis filter_eq_ConsD)

lemma select_wrapper_iff:
  "select_wrapper source members sel ws = Inr r \<longleftrightarrow>
     (case (sel, filter (\<lambda>w. map_of members w \<noteq> None) ws) of
        (_, []) \<Rightarrow> r = sel
      | (None, [w]) \<Rightarrow> r = Some (w, the (map_of members w))
      | _ \<Rightarrow> False)"
proof (induction ws arbitrary: sel)
  case (Cons w ws)
  then show ?case by (cases sel) (auto split: option.splits list.splits)
qed (auto split: option.splits)

section \<open>Properties\<close>

text \<open>
  A manifest parses exactly when the document is an object with at most one of the three
  wrappers whose layer map is a non-empty object in which every key is a decimal 32-bit number
  (each number once) and every value a non-empty array of distinct 32-bit expert ids; the result
  then holds those layers in ascending order with each list of ids verbatim.
\<close>

theorem manifest_parse_iff:
  "llama_expert_manifest_parse parse txt source = Inr m \<longleftrightarrow>
     (\<exists>members lm es. parse txt = Inr (J_Object members) \<and> manifest_body members = Some lm \<and> lm \<noteq> []
        \<and> map layer_member lm = map Some es \<and> distinct (map fst es)
        \<and> sorted_wrt (<) (map fst (mf_layers m)) \<and> set (mf_layers m) = set es \<and> mf_source m = source)"
proof -
  let ?f = "\<lambda>es :: (u32 \<times> u32 list) list. foldl (\<lambda>m e. om_insert (fst e) (snd e) m) [] es"
  have unique: "mf_layers m = ?f es \<longleftrightarrow> sorted_wrt (<) (map fst (mf_layers m)) \<and> set (mf_layers m) = set es"
    if "distinct (map fst es)" for es
  proof -
    have f: "sorted_wrt (<) (map fst (?f es))" "set (?f es) = set es" using foldl_om_insert [of es "[]"] that by auto
    have u: "xs = ys" if "sorted_wrt (<) (map fst xs)" "sorted_wrt (<) (map fst ys)" "set xs = set ys"
      for xs ys :: "(u32 \<times> u32 list) list"
      by (rule map_sorted_distinct_set_unique [of fst]) (use that in \<open>auto simp: strict_sorted_iff distinct_map\<close>)
    show ?thesis
    proof
      assume "mf_layers m = ?f es"
      with f show "sorted_wrt (<) (map fst (mf_layers m)) \<and> set (mf_layers m) = set es" by simp
    next
      assume "sorted_wrt (<) (map fst (mf_layers m)) \<and> set (mf_layers m) = set es"
      then show "mf_layers m = ?f es" using u [of "mf_layers m" "?f es"] f by simp
    qed
  qed
  have layers: "parse_layers source [] lm = Inr ls \<longleftrightarrow>
      (\<exists>es. map layer_member lm = map Some es \<and> distinct (map fst es) \<and> ls = ?f es)" for lm ls
    by (simp add: parse_layers_iff)
  have body: "(\<exists>sel. select_wrapper source members None wrappers = Inr sel
        \<and> (case sel of None \<Rightarrow> J_Object members | Some (_, v) \<Rightarrow> v) = J_Object lm) \<longleftrightarrow> manifest_body members = Some lm"
    for members lm
  proof (cases "filter (\<lambda>w. map_of members w \<noteq> None) wrappers")
    case Nil
    then show ?thesis by (simp only: select_wrapper_iff manifest_body_def) auto
  next
    case (Cons w ws)
    show ?thesis
    proof (cases ws)
      case Nil
      with Cons filter_single obtain v where v: "map_of members w = Some v" by force
      show ?thesis unfolding select_wrapper_iff manifest_body_def Cons Nil by (cases v) (simp_all add: v)
    next
      case (Cons w' ws')
      then show ?thesis
        unfolding select_wrapper_iff manifest_body_def \<open>filter _ wrappers = w # ws\<close> by simp
    qed
  qed
  have parse: "llama_expert_manifest_parse parse txt source = Inr m \<longleftrightarrow>
     (\<exists>members lm ls. parse txt = Inr (J_Object members) \<and> manifest_body members = Some lm \<and> lm \<noteq> []
        \<and> parse_layers source [] lm = Inr ls \<and> m = \<lparr>mf_layers = ls, mf_source = source\<rparr>)"
  proof (cases "\<exists>members. parse txt = Inr (J_Object members)")
    case True
    then obtain members where members: "parse txt = Inr (J_Object members)" by blast
    have tail: "(case v of
         J_Object lm \<Rightarrow> if lm = [] then manifest_error source ''layer map must not be empty''
           else ebind (parse_layers source [] lm) (\<lambda>layers. Inr \<lparr>mf_layers = layers, mf_source = source\<rparr>)
       | _ \<Rightarrow> manifest_error source msg) = Inr m \<longleftrightarrow>
       (\<exists>lm ls. v = J_Object lm \<and> lm \<noteq> [] \<and> parse_layers source [] lm = Inr ls \<and> m = \<lparr>mf_layers = ls, mf_source = source\<rparr>)"
      for v msg
      by (cases v) (auto simp: ebind_Inr_iff)
    have "llama_expert_manifest_parse parse txt source = Inr m \<longleftrightarrow>
      (\<exists>sel. select_wrapper source members None wrappers = Inr sel \<and>
        (\<exists>lm ls. (case sel of None \<Rightarrow> J_Object members | Some (_, v) \<Rightarrow> v) = J_Object lm \<and> lm \<noteq> []
           \<and> parse_layers source [] lm = Inr ls \<and> m = \<lparr>mf_layers = ls, mf_source = source\<rparr>))"
      unfolding llama_expert_manifest_parse_def members sum.case json.case ebind_Inr_iff tail ..
    also have "\<dots> \<longleftrightarrow> (\<exists>lm ls. manifest_body members = Some lm \<and> lm \<noteq> []
           \<and> parse_layers source [] lm = Inr ls \<and> m = \<lparr>mf_layers = ls, mf_source = source\<rparr>)"
      unfolding body [symmetric] by blast
    finally show ?thesis by (simp add: members)
  next
    case False
    then show ?thesis unfolding llama_expert_manifest_parse_def
      by (cases "parse txt"; cases "projr (parse txt)") simp_all
  qed
  have "m = \<lparr>mf_layers = ls, mf_source = source\<rparr> \<longleftrightarrow> mf_layers m = ls \<and> mf_source m = source" for ls by (cases m) auto
  then show ?thesis unfolding parse layers using unique by (metis (no_types, lifting))
qed

text \<open>
  C35. After a successful validation every layer is inside the model, every id is inside the expert
  range, and the resident prefix of a layer has exactly the requested length: selection returns
  the first ids of the manifest unchanged.
\<close>

theorem validated_selection:
  assumes "llama_expert_manifest_validate m n_layers n_experts k = Inr ()" and "map_of (mf_layers m) layer = Some ids"
  shows "layer < n_layers \<and> 0 \<le> k \<and> (\<forall>i \<in> set ids. i < n_experts)
    \<and> llama_expert_manifest_select m layer (nat k) = Inr (take (nat k) ids) \<and> length (take (nat k) ids) = nat k"
proof -
  have all: "validate_layers src nl ne k es = Inr () \<Longrightarrow> e \<in> set es \<Longrightarrow> validate_layer src nl ne k e = Inr ()" for src nl ne es e
    by (induction es) (auto simp: ebind_Inr_iff)
  have k: "0 \<le> k" "validate_layers (mf_source m) n_layers n_experts k (mf_layers m) = Inr ()"
    using assms(1) by (auto simp: llama_expert_manifest_validate_def split: if_splits)
  from all [OF k(2) map_of_SomeD [OF assms(2)]]
  have v: "layer < n_layers" "k \<le> sint (of_nat (length ids) :: u32)" "filter (\<lambda>i. i \<ge> n_experts) ids = []"
    by (auto simp: validate_layer_def Let_def not_le not_less split: if_splits list.splits)
  have "sint (of_nat (length ids) :: u32) \<le> int (length ids)"
  proof -
    have "signed_take_bit 31 (int (length ids)) \<le> int (length ids)"
      by (simp add: signed_take_bit_eq_take_bit_minus take_bit_eq_mod) (smt (verit) of_nat_0_le_iff zmod_le_nonneg_dividend)
    then show ?thesis by (simp add: signed_of_nat)
  qed
  with v(2) k(1) have "nat k \<le> length ids" by simp
  with v(1,3) k(1) assms(2) show ?thesis by (auto simp: llama_expert_manifest_select_def filter_empty_conv not_le)
qed

definition demo_manifest :: llama_expert_manifest where
  "demo_manifest = \<lparr>mf_layers = [(2, [3, 6, 2]), (5, [7, 4])], mf_source = ''m''\<rparr>"

lemma validated_selection_witness:
  "llama_expert_manifest_select demo_manifest 5 2 = Inr [7, 4] \<and> length [7, 4 :: u32] = 2"
proof -
  have "llama_expert_manifest_validate demo_manifest 8 16 2 = Inr ()"
    by (simp add: llama_expert_manifest_validate_def demo_manifest_def validate_layer_def Let_def signed_of_nat signed_take_bit_int_eq_self)
  moreover have "map_of (mf_layers demo_manifest) 5 = Some [7, 4]" by (simp add: demo_manifest_def)
  ultimately have "llama_expert_manifest_select demo_manifest 5 (nat 2) = Inr (take (nat 2) [7, 4])"
    using validated_selection by blast
  then show ?thesis by simp
qed

end
