(* ===== verification/Expert_Stats.thy ===== *)
theory Expert_Stats
  imports Expert_Manifest Prefetch_State "HOL-Library.List_Lexorder" "HOL-Library.Char_ord"
begin

text \<open>
  The expert-store statistics and their advisories (\<open>src/llama-expert-stats.h\<close> and
  \<open>.cpp\<close>), with the JSON values they dump, and the raw-logit summary of the verifier
  (\<open>examples/server/server-verifier-trace.h\<close>).

  A \<open>double\<close> is the rational it stands for: \<open>fl\<close> rounds to 53 significant bits, ties to
  even, in the range of normal numbers (a quotient of 64-bit counters never leaves it). The
  thresholds of the advisories are the rounded decimals of the source.
\<close>

section \<open>Rounding\<close>

definition round_even :: "rat \<Rightarrow> int" where
  "round_even x = (let f = \<lfloor>x\<rfloor>; d = x - of_int f in
     if d < 1/2 then f else if d > 1/2 then f + 1 else if even f then f else f + 1)"

definition pow2 :: "int \<Rightarrow> rat" where
  "pow2 e = 2 powi e"

text \<open>The binary exponent: the number \<open>e\<close> with \<open>2^e \<le> q < 2^(e+1)\<close>, by search.\<close>

function exp_down :: "rat \<Rightarrow> int \<Rightarrow> int" where
  "exp_down q e = (if q < pow2 e \<and> e > -200 then exp_down q (e - 1) else e)"
  by pat_completeness auto
termination
  by (relation "measure (\<lambda>(q, e). nat (e + 200))") auto

declare exp_down.simps [simp del]

text \<open>The quotients of the module lie between \<open>2^-64\<close> and \<open>2^64\<close>.\<close>

definition exponent :: "rat \<Rightarrow> int" where
  "exponent q = exp_down q 200"

definition fl :: "rat \<Rightarrow> rat" where
  "fl q = (if q = 0 then 0 else
     let s = pow2 (52 - exponent q) in of_int (round_even (q * s)) / s)"

definition u64_double :: "u64 \<Rightarrow> rat" where
  "u64_double n = fl (of_nat (unat n))"

definition double_div :: "rat \<Rightarrow> rat \<Rightarrow> rat" where
  "double_div a b = fl (a / b)"

section \<open>Counters\<close>

record llama_expert_layer_stats =
  ls_requests :: u64
  ls_hits :: u64
  ls_misses :: u64
  ls_prefetched :: u64
  ls_prefetch_hits :: u64

definition layer_stats_init :: llama_expert_layer_stats where
  "layer_stats_init = \<lparr>ls_requests = 0, ls_hits = 0, ls_misses = 0, ls_prefetched = 0, ls_prefetch_hits = 0\<rparr>"

record llama_expert_store_stats =
  xs_layers :: "(u32 \<times> llama_expert_layer_stats) list"
  xs_resident_bytes :: u64
  xs_capacity_bytes :: u64
  xs_defer_wait_ns :: u64
  xs_decode_ns :: u64

definition store_stats_init :: llama_expert_store_stats where
  "store_stats_init = \<lparr>xs_layers = [], xs_resident_bytes = 0, xs_capacity_bytes = 0, xs_defer_wait_ns = 0, xs_decode_ns = 0\<rparr>"

text \<open>\<open>auto & entry = layers[layer]\<close> and an update of the entry.\<close>

definition upd_layer :: "llama_expert_store_stats \<Rightarrow> u32 \<Rightarrow> (llama_expert_layer_stats \<Rightarrow> llama_expert_layer_stats) \<Rightarrow> llama_expert_store_stats" where
  "upd_layer s layer f =
     s\<lparr>xs_layers := om_insert layer (f (case map_of (xs_layers s) layer of None \<Rightarrow> layer_stats_init | Some e \<Rightarrow> e)) (xs_layers s)\<rparr>"

definition record_hit :: "llama_expert_store_stats \<Rightarrow> u32 \<Rightarrow> llama_expert_store_stats" where
  "record_hit s layer = upd_layer s layer (\<lambda>e. e\<lparr>ls_requests := ls_requests e + 1, ls_hits := ls_hits e + 1\<rparr>)"

definition record_miss :: "llama_expert_store_stats \<Rightarrow> u32 \<Rightarrow> llama_expert_store_stats" where
  "record_miss s layer = upd_layer s layer (\<lambda>e. e\<lparr>ls_requests := ls_requests e + 1, ls_misses := ls_misses e + 1\<rparr>)"

definition record_prefetch :: "llama_expert_store_stats \<Rightarrow> u32 \<Rightarrow> bool \<Rightarrow> llama_expert_store_stats" where
  "record_prefetch s layer arrived_in_time = upd_layer s layer (\<lambda>e.
     let e = e\<lparr>ls_prefetched := ls_prefetched e + 1\<rparr> in
     if arrived_in_time then e\<lparr>ls_prefetch_hits := ls_prefetch_hits e + 1\<rparr> else e)"

definition add_defer_wait :: "llama_expert_store_stats \<Rightarrow> u64 \<Rightarrow> llama_expert_store_stats" where
  "add_defer_wait s ns = s\<lparr>xs_defer_wait_ns := xs_defer_wait_ns s + ns\<rparr>"

definition add_decode_time :: "llama_expert_store_stats \<Rightarrow> u64 \<Rightarrow> llama_expert_store_stats" where
  "add_decode_time s ns = s\<lparr>xs_decode_ns := xs_decode_ns s + ns\<rparr>"

definition total_of :: "(llama_expert_layer_stats \<Rightarrow> u64) \<Rightarrow> llama_expert_store_stats \<Rightarrow> u64" where
  "total_of f s = foldl (\<lambda>total e. total + f (snd e)) 0 (xs_layers s)"

definition total_requests :: "llama_expert_store_stats \<Rightarrow> u64" where "total_requests = total_of ls_requests"
definition total_hits :: "llama_expert_store_stats \<Rightarrow> u64" where "total_hits = total_of ls_hits"
definition total_misses :: "llama_expert_store_stats \<Rightarrow> u64" where "total_misses = total_of ls_misses"
definition total_prefetched :: "llama_expert_store_stats \<Rightarrow> u64" where "total_prefetched = total_of ls_prefetched"
definition total_prefetch_hits :: "llama_expert_store_stats \<Rightarrow> u64" where "total_prefetch_hits = total_of ls_prefetch_hits"

definition store_stats_reset :: "llama_expert_store_stats \<Rightarrow> llama_expert_store_stats" where
  "store_stats_reset s = s\<lparr>xs_layers := [], xs_resident_bytes := 0, xs_capacity_bytes := 0, xs_defer_wait_ns := 0, xs_decode_ns := 0\<rparr>"

section \<open>Advisories\<close>

record llama_expert_stats_advisory =
  ad_thrashing :: bool
  ad_prefetch_misjudging :: bool
  ad_io_bound :: bool
  ad_miss_rate :: rat
  ad_prefetch_hit_rate :: rat
  ad_defer_wait_ratio :: rat
  ad_thrashing_layers :: "u32 list"

definition rate :: "u64 \<Rightarrow> u64 \<Rightarrow> rat" where
  "rate a b = (if b > 0 then double_div (u64_double a) (u64_double b) else 0)"

definition llama_expert_stats_evaluate :: "llama_expert_store_stats \<Rightarrow> llama_expert_stats_advisory" where
  "llama_expert_stats_evaluate s =
     (let miss_rate = rate (total_misses s) (total_requests s);
          prefetch_hit_rate = rate (total_prefetch_hits s) (total_prefetched s);
          defer_wait_ratio = rate (xs_defer_wait_ns s) (xs_decode_ns s)
      in \<lparr>ad_thrashing = miss_rate > fl (70/100),
          ad_prefetch_misjudging = (total_prefetched s > 0 \<and> prefetch_hit_rate < fl (80/100)),
          ad_io_bound = (xs_decode_ns s > 0 \<and> defer_wait_ratio > fl (40/100)),
          ad_miss_rate = miss_rate, ad_prefetch_hit_rate = prefetch_hit_rate, ad_defer_wait_ratio = defer_wait_ratio,
          ad_thrashing_layers = map fst (filter (\<lambda>e. ls_requests (snd e) \<noteq> 0 \<and>
             rate (ls_misses (snd e)) (ls_requests (snd e)) > fl (70/100)) (xs_layers s))\<rparr>)"

section \<open>JSON\<close>

text \<open>An object built from an initializer list; the library keeps members in key order.\<close>

definition json_obj :: "(string \<times> json) list \<Rightarrow> json" where
  "json_obj ms = J_Object (foldl (\<lambda>m e. om_insert (fst e) (snd e) m) [] ms)"

definition llama_expert_stats_to_json :: "(json \<Rightarrow> string) \<Rightarrow> llama_expert_store_stats \<Rightarrow> llama_expert_stats_advisory \<Rightarrow> string" where
  "llama_expert_stats_to_json dump s ad = dump (json_obj [
     (''totals'', json_obj [(''requests'', J_Unsigned (total_requests s)), (''hits'', J_Unsigned (total_hits s)),
        (''misses'', J_Unsigned (total_misses s)), (''prefetched'', J_Unsigned (total_prefetched s)),
        (''prefetch_hits'', J_Unsigned (total_prefetch_hits s))]),
     (''budget'', json_obj [(''resident_bytes'', J_Unsigned (xs_resident_bytes s)), (''capacity_bytes'', J_Unsigned (xs_capacity_bytes s))]),
     (''advisories'', J_Array ((if ad_thrashing ad then [J_String ''thrashing''] else [])
        @ (if ad_prefetch_misjudging ad then [J_String ''prefetch_misjudging''] else [])
        @ (if ad_io_bound ad then [J_String ''io_bound''] else []))),
     (''layers'', json_obj (map (\<lambda>(layer, e). (dec_word layer, json_obj [
        (''requests'', J_Unsigned (ls_requests e)), (''hits'', J_Unsigned (ls_hits e)), (''misses'', J_Unsigned (ls_misses e)),
        (''prefetched'', J_Unsigned (ls_prefetched e)), (''prefetch_hits'', J_Unsigned (ls_prefetch_hits e))])) (xs_layers s)))])"

text \<open>The histogram of the snapshot as the code iterates it: tensor names in order.\<close>

definition llama_moe_prefetch_stats_json ::
  "ggml_moe_prefetch_stats \<Rightarrow> (string \<times> u64 list) list \<Rightarrow> u64 \<Rightarrow> u64 \<Rightarrow> json" where
  "llama_moe_prefetch_stats_json st tensors kernel_entries token_rows =
     (let e = st_engine st; c = st_cache_sim st in
      json_obj ([
       (''requests'', J_Unsigned (es_requests e)), (''hits'', J_Unsigned (es_hits e)), (''misses'', J_Unsigned (es_misses e)),
       (''prefetched'', J_Unsigned (es_prefetched e)), (''prefetch_hits'', J_Unsigned (es_prefetch_hits e)),
       (''defer_wait_ns'', J_Unsigned (es_defer_wait_ns e)), (''resident_bytes'', J_Unsigned (es_resident_bytes e)),
       (''capacity_bytes'', J_Unsigned (es_capacity_bytes e)), (''hit_rate'', J_Float (rate (es_hits e) (es_requests e))),
       (''prefetch_hit_rate'', J_Float (rate (es_prefetch_hits e) (es_prefetched e))),
       (''defer_wait_seconds'', J_Float (double_div (u64_double (es_defer_wait_ns e)) 1000000000)),
       (''cache_sim'', json_obj [
          (''requests'', J_Unsigned (cs_requests c)), (''hits'', J_Unsigned (cs_hits c)), (''misses'', J_Unsigned (cs_misses c)),
          (''evictions'', J_Unsigned (cs_evictions c)), (''evicted_bytes'', J_Unsigned (cs_evicted_bytes c)),
          (''bypasses'', J_Unsigned (cs_bypasses c)), (''resident_bytes'', J_Unsigned (cs_resident_bytes c)),
          (''capacity_bytes'', J_Unsigned (cs_capacity_bytes c)), (''hit_rate'', J_Float (rate (cs_hits c) (cs_requests c)))])]
       @ (if tensors \<noteq> [] \<or> kernel_entries > 0
          then [(''expert_histogram'', json_obj [(''kernel_entries'', J_Unsigned kernel_entries), (''token_rows'', J_Unsigned token_rows),
                  (''tensors'', json_obj (map (\<lambda>(name, cs). (name, J_Array (map J_Unsigned cs))) tensors))])]
          else [])))"

definition llama_moe_prefetch_stats_to_json ::
  "(json \<Rightarrow> string) \<Rightarrow> ggml_moe_prefetch_stats \<Rightarrow> (string \<times> u64 list) list \<Rightarrow> u64 \<Rightarrow> u64 \<Rightarrow> string" where
  "llama_moe_prefetch_stats_to_json dump2 st tensors kernel_entries token_rows =
     dump2 (llama_moe_prefetch_stats_json st tensors kernel_entries token_rows) @ nl"

section \<open>Facts on rounding\<close>

lemma round_even_near: "of_int (round_even x) \<le> x + 1/2 \<and> x - 1/2 \<le> of_int (round_even x)"
proof -
  have f: "of_int \<lfloor>x\<rfloor> \<le> x" "x < of_int \<lfloor>x\<rfloor> + 1" by linarith+
  consider "x - of_int \<lfloor>x\<rfloor> < 1/2" | "x - of_int \<lfloor>x\<rfloor> > 1/2" | "x - of_int \<lfloor>x\<rfloor> = 1/2" by linarith
  then show ?thesis
  proof cases
    case 1
    then have "round_even x = \<lfloor>x\<rfloor>" by (simp add: round_even_def Let_def)
    with 1 f show ?thesis by linarith
  next
    case 2
    then have "round_even x = \<lfloor>x\<rfloor> + 1" by (simp add: round_even_def Let_def)
    then have "(of_int (round_even x) :: rat) = of_int \<lfloor>x\<rfloor> + 1" by simp
    with 2 f show ?thesis by linarith
  next
    case 3
    then have "round_even x = \<lfloor>x\<rfloor> \<or> round_even x = \<lfloor>x\<rfloor> + 1" by (simp add: round_even_def Let_def)
    then have "(of_int (round_even x) :: rat) = of_int \<lfloor>x\<rfloor> \<or> (of_int (round_even x) :: rat) = of_int \<lfloor>x\<rfloor> + 1" by auto
    with 3 show ?thesis by linarith
  qed
qed

lemma round_even_int [simp]: "round_even (of_int i) = i"
  by (simp add: round_even_def)

lemma round_even_mono: "x \<le> y \<Longrightarrow> round_even x \<le> round_even y"
proof -
  assume le: "x \<le> y"
  then have f: "\<lfloor>x\<rfloor> \<le> \<lfloor>y\<rfloor>" by (rule floor_mono)
  show ?thesis
  proof (cases "\<lfloor>x\<rfloor> = \<lfloor>y\<rfloor>")
    case True
    with le show ?thesis by (auto simp: round_even_def Let_def)
  next
    case False
    then have "\<lfloor>x\<rfloor> + 1 \<le> \<lfloor>y\<rfloor>" using f by linarith
    moreover have "round_even x \<le> \<lfloor>x\<rfloor> + 1" "\<lfloor>y\<rfloor> \<le> round_even y" by (auto simp: round_even_def Let_def)
    ultimately show ?thesis by linarith
  qed
qed

lemma pow2_pos [simp]: "0 < pow2 e"
  by (simp add: pow2_def)

lemma pow2_nonzero [simp]: "pow2 e \<noteq> 0"
  using pow2_pos [of e] by linarith

lemma pow2_add: "pow2 (a + b) = pow2 a * pow2 b"
  by (simp add: pow2_def power_int_add)

lemma pow2_mono: "a \<le> b \<Longrightarrow> pow2 a \<le> pow2 b"
  unfolding pow2_def by (rule power_int_increasing) simp_all

lemma exp_down_spec:
  assumes "pow2 (-200) \<le> q" and "q < pow2 (e + 1)" and "-200 \<le> e"
  shows "pow2 (exp_down q e) \<le> q \<and> q < pow2 (exp_down q e + 1)"
  using assms
proof (induction q e rule: exp_down.induct)
  case (1 q e)
  show ?case
  proof (cases "q < pow2 e \<and> e > -200")
    case True
    with 1 have "pow2 (exp_down q (e - 1)) \<le> q \<and> q < pow2 (exp_down q (e - 1) + 1)" by simp
    with True show ?thesis by (subst (1 2) exp_down.simps) simp
  next
    case False
    have "pow2 e \<le> q"
    proof (cases "e = -200")
      case True
      with "1.prems"(1) show ?thesis by simp
    next
      case e: False
      with False "1.prems"(3) show ?thesis by linarith
    qed
    with False "1.prems"(2) show ?thesis by (subst (1 2) exp_down.simps) (simp only: if_False)
  qed
qed

definition normal :: "rat \<Rightarrow> bool" where
  "normal q \<longleftrightarrow> pow2 (-200) \<le> q \<and> q < pow2 201"

lemma exponent_spec: "normal q \<Longrightarrow> pow2 (exponent q) \<le> q \<and> q < pow2 (exponent q + 1)"
  unfolding exponent_def normal_def by (rule exp_down_spec) simp_all

lemma exponent_unique:
  assumes "normal q" and "pow2 e \<le> q" and "q < pow2 (e + 1)"
  shows "exponent q = e"
proof -
  note s = exponent_spec [OF assms(1)]
  have "\<not> exponent q + 1 \<le> e" using pow2_mono [of "exponent q + 1" e] s assms(2) by linarith
  moreover have "\<not> e + 1 \<le> exponent q" using pow2_mono [of "e + 1" "exponent q"] s assms(3) by linarith
  ultimately show ?thesis by linarith
qed

lemma normal_pos: "normal q \<Longrightarrow> 0 < q"
  using pow2_pos [of "-200"] unfolding normal_def by linarith

lemma fl_normal: "normal q \<Longrightarrow> fl q = of_int (round_even (q * pow2 (52 - exponent q))) / pow2 (52 - exponent q)"
  using normal_pos [of q] by (simp add: fl_def Let_def)

lemma pow2_52: "pow2 52 = 4503599627370496" "pow2 53 = 9007199254740992"
  by (simp_all add: pow2_def power_int_def)

lemma fl_binade:
  assumes "normal q"
  shows "pow2 (exponent q) \<le> fl q" and "fl q \<le> pow2 (exponent q + 1)"
proof -
  let ?e = "exponent q" and ?s = "pow2 (52 - exponent q)"
  have es: "pow2 ?e * ?s = of_int (2 ^ 52)" "pow2 (?e + 1) * ?s = of_int (2 ^ 53)"
    using pow2_add [of ?e "52 - ?e"] pow2_add [of "?e + 1" "52 - ?e"] by (simp_all add: pow2_52)
  note sp = exponent_spec [OF assms]
  have "pow2 ?e * ?s \<le> q * ?s" "q * ?s \<le> pow2 (?e + 1) * ?s"
    using sp by (simp_all add: mult_right_mono less_imp_le)
  then have "of_int (2 ^ 52) \<le> q * ?s" "q * ?s \<le> of_int (2 ^ 53)" by (simp_all only: es)
  from this [THEN round_even_mono] have "2 ^ 52 \<le> round_even (q * ?s)" "round_even (q * ?s) \<le> 2 ^ 53"
    by (simp_all only: round_even_int)
  then have "pow2 ?e * ?s \<le> of_int (round_even (q * ?s))" "of_int (round_even (q * ?s)) \<le> pow2 (?e + 1) * ?s"
    unfolding es by (simp_all only: of_int_le_iff)
  then show "pow2 ?e \<le> fl q" "fl q \<le> pow2 (?e + 1)"
    by (simp_all add: fl_normal [OF assms] pos_le_divide_eq pos_divide_le_eq)
qed

lemma fl_mono:
  assumes "normal p" and "normal q" and "p \<le> q"
  shows "fl p \<le> fl q"
proof (cases "exponent p = exponent q")
  case True
  have "p * pow2 (52 - exponent q) \<le> q * pow2 (52 - exponent q)" using assms(3) by (simp add: mult_right_mono)
  from round_even_mono [OF this] show ?thesis
    unfolding fl_normal [OF assms(1)] fl_normal [OF assms(2)] True
    by (intro divide_right_mono) (simp_all add: less_imp_le)
next
  case False
  have "\<not> exponent q + 1 \<le> exponent p"
    using pow2_mono [of "exponent q + 1" "exponent p"] exponent_spec [OF assms(1)] exponent_spec [OF assms(2)] assms(3)
    by linarith
  then have "pow2 (exponent p + 1) \<le> pow2 (exponent q)" using False by (intro pow2_mono) linarith
  with fl_binade(2) [OF assms(1)] fl_binade(1) [OF assms(2)] show ?thesis by linarith
qed

lemma fl_nat:
  assumes "n < 2 ^ 53"
  shows "fl (of_nat n) = of_nat n"
proof (cases "n = 0")
  case False
  have "pow2 (-200) \<le> pow2 0" "pow2 53 \<le> pow2 201" by (rule pow2_mono; simp)+
  moreover have "(of_nat n :: rat) < pow2 53" "pow2 0 \<le> of_nat n"
    using assms False by (simp_all add: pow2_52 pow2_def)
  ultimately have nm: "normal (of_nat n)" by (simp add: normal_def)
  have "\<not> 53 \<le> exponent (of_nat n :: rat)"
    using pow2_mono [of 53 "exponent (of_nat n :: rat)"] exponent_spec [OF nm] \<open>(of_nat n :: rat) < pow2 53\<close> by linarith
  then have P: "pow2 (52 - exponent (of_nat n :: rat)) = 2 ^ nat (52 - exponent (of_nat n :: rat))"
    by (simp add: pow2_def power_int_def)
  have r: "round_even (of_nat n * 2 ^ k) = int n * 2 ^ k" for k
    using round_even_int [of "int n * 2 ^ k"] by simp
  show ?thesis unfolding fl_normal [OF nm] P r by simp
qed (simp add: fl_def)

section \<open>The thresholds\<close>

text \<open>The exponents of the thresholds and of values a little apart from them.\<close>

lemma fl_at:
  assumes "pow2 e \<le> q" and "q < pow2 (e + 1)" and "-200 \<le> e" and "e \<le> 200"
  shows "normal q" and "fl q = of_int (round_even (q * pow2 (52 - e))) / pow2 (52 - e)"
proof -
  show n: "normal q" using assms pow2_mono [of "-200" e] pow2_mono [of "e + 1" 201] by (simp add: normal_def)
  show "fl q = of_int (round_even (q * pow2 (52 - e))) / pow2 (52 - e)"
    unfolding fl_normal [OF n] exponent_unique [OF n assms(1,2)] ..
qed

lemma pow2_small: "pow2 (-1) = 1/2" "pow2 (-2) = 1/4" "pow2 0 = 1" "pow2 54 = 18014398509481984"
  by (simp_all add: pow2_def power_int_def power_divide)

definition gap :: rat where "gap = 3 / 2 ^ 54"

lemma round_even_nearest: "of_int n - 1/2 < x \<Longrightarrow> x < of_int n + 1/2 \<Longrightarrow> round_even x = n" for x :: rat
proof -
  assume a: "of_int n - 1/2 < x" "x < of_int n + 1/2"
  have "(of_int (round_even x) :: rat) < of_int (n + 1)" "of_int (n - 1) < (of_int (round_even x) :: rat)"
    using round_even_near [of x] a unfolding of_int_add of_int_diff by linarith+
  then show ?thesis unfolding of_int_less_iff by linarith
qed

lemma fl_half:
  assumes "1/2 \<le> q" and "q < 1" and "of_int n - 1/2 < q * 9007199254740992" and "q * 9007199254740992 < of_int n + 1/2"
  shows "normal q \<and> fl q = of_int n / 9007199254740992"
  using fl_at [of "-1" q] round_even_nearest [OF assms(3,4)] assms(1,2) by (simp add: pow2_small pow2_52)

lemma fl_quarter:
  assumes "1/4 \<le> q" and "q < 1/2" and "of_int n - 1/2 < q * 18014398509481984" and "q * 18014398509481984 < of_int n + 1/2"
  shows "normal q \<and> fl q = of_int n / 18014398509481984"
  using fl_at [of "-2" q] round_even_nearest [OF assms(3,4)] assms(1,2) by (simp add: pow2_small)

lemma fl_thresholds:
  assumes "t = 7/10 \<or> t = 8/10 \<or> t = 4/10"
  shows "fl (t - gap) < fl t" and "fl t < fl (t + gap)" and "normal (t - gap)" and "normal (t + gap)" and "normal t" and "0 < fl t"
proof -
  have "fl (t - gap) < fl t \<and> fl t < fl (t + gap) \<and> normal (t - gap) \<and> normal (t + gap) \<and> normal t \<and> 0 < fl t"
    using assms
  proof (elim disjE)
    assume t: "t = 7/10"
    show ?thesis unfolding t gap_def using fl_half [of "7/10" 6305039478318694]
        fl_half [of "7/10 - 3/2^54" 6305039478318693] fl_half [of "7/10 + 3/2^54" 6305039478318696]
      by simp
  next
    assume t: "t = 8/10"
    show ?thesis unfolding t gap_def using fl_half [of "8/10" 7205759403792794]
        fl_half [of "8/10 - 3/2^54" 7205759403792792] fl_half [of "8/10 + 3/2^54" 7205759403792795]
      by simp
  next
    assume t: "t = 4/10"
    show ?thesis unfolding t gap_def using fl_quarter [of "4/10" 7205759403792794]
        fl_quarter [of "4/10 - 3/2^54" 7205759403792791] fl_quarter [of "4/10 + 3/2^54" 7205759403792797]
      by simp
  qed
  then show "fl (t - gap) < fl t" "fl t < fl (t + gap)" "normal (t - gap)" "normal (t + gap)" "normal t" "0 < fl t" by simp_all
qed

lemma quotient_normal:
  assumes "0 < a" and "a < 2 ^ 53" and "0 < b" and "b < 2 ^ 49"
  shows "normal (of_nat a / of_nat b)"
proof -
  have b: "0 < (of_nat b :: rat)" using assms(3) by simp
  have "(of_nat b :: rat) < of_nat (2 ^ 49)" "(of_nat a :: rat) < of_nat (2 ^ 53)" using assms by (simp_all only: of_nat_less_iff)
  then have le: "(of_nat b :: rat) \<le> 562949953421312" "(of_nat a :: rat) < 9007199254740992" by simp_all
  have a: "1 \<le> (of_nat a :: rat)" "1 \<le> (of_nat b :: rat)" using assms(1,3) by simp_all
  have "(of_nat a :: rat) / of_nat b \<le> of_nat a" using a by (simp add: pos_divide_le_eq mult_le_cancel_left1)
  then have "(of_nat a :: rat) / of_nat b < pow2 53" using le(2) unfolding pow2_52 by linarith
  moreover have "(1 :: rat) / 2 ^ 49 \<le> of_nat a / of_nat b"
  proof -
    have "(1 :: rat) / 2 ^ 49 = 1 / 562949953421312" by simp
    then have "(1 :: rat) / 2 ^ 49 * of_nat b \<le> 1" using le(1) by simp
    then have "(1 :: rat) / 2 ^ 49 * of_nat b \<le> of_nat a" using a(1) by linarith
    then show ?thesis using b by (simp add: pos_le_divide_eq)
  qed
  moreover have "pow2 (-200) \<le> pow2 (-49)" "pow2 53 \<le> pow2 201" by (rule pow2_mono; simp)+
  moreover have "pow2 (-49) = 1 / 2 ^ 49" by (simp add: pow2_def power_int_def power_divide)
  ultimately show ?thesis unfolding normal_def by linarith
qed

lemma quotient_gap:
  assumes "0 < b" and "b < 2 ^ 49" and "t = of_nat k / 10"
  shows "t < of_nat a / of_nat b \<Longrightarrow> t + gap \<le> of_nat a / of_nat b"
    and "of_nat a / of_nat b < t \<Longrightarrow> of_nat a / of_nat b \<le> t - gap"
proof -
  have b: "0 < (of_nat b :: rat)" using assms(1) by simp
  have "15 * b \<le> 2 ^ 53" using assms(2) by simp
  then have "of_nat (15 * b) \<le> (of_nat (2 ^ 53) :: rat)" by (simp only: of_nat_le_iff)
  then have g: "gap * (10 * of_nat b) \<le> 1" by (simp add: gap_def)
  have q: "of_nat a / of_nat b - t = (of_nat (10 * a) - of_nat (k * b)) / (10 * of_nat b)"
    using b by (simp add: assms(3) field_simps)
  {
    assume "t < of_nat a / of_nat b"
    then have "0 < (of_nat (10 * a) - of_nat (k * b)) / (10 * (of_nat b :: rat))" using q by linarith
    then have "0 < (of_nat (10 * a) - of_nat (k * b) :: rat)" using b by (simp only: zero_less_divide_iff) auto
    then have "k * b + 1 \<le> 10 * a" by (simp only: diff_gt_0_iff_gt of_nat_less_iff)
    then have "(of_nat (k * b + 1) :: rat) \<le> of_nat (10 * a)" by (simp only: of_nat_le_iff)
    then have "gap * (10 * of_nat b) \<le> of_nat (10 * a) - of_nat (k * b)" using g by simp
    then have "gap \<le> (of_nat (10 * a) - of_nat (k * b)) / (10 * of_nat b)" using b by (simp add: pos_le_divide_eq)
    then show "t + gap \<le> of_nat a / of_nat b" using q by linarith
  next
    assume "of_nat a / of_nat b < t"
    then have "(of_nat (10 * a) - of_nat (k * b)) / (10 * (of_nat b :: rat)) < 0" using q by linarith
    then have "(of_nat (10 * a) - of_nat (k * b) :: rat) < 0" using b by (simp only: divide_less_0_iff) auto
    then have "10 * a + 1 \<le> k * b" by (simp only: diff_less_0_iff_less of_nat_less_iff)
    then have "(of_nat (10 * a + 1) :: rat) \<le> of_nat (k * b)" by (simp only: of_nat_le_iff)
    then have "of_nat (10 * a) - of_nat (k * b) \<le> - gap * (10 * of_nat b)" using g by simp
    then have "(of_nat (10 * a) - of_nat (k * b)) / (10 * of_nat b) \<le> - gap" using b by (simp add: pos_divide_le_eq)
    then show "of_nat a / of_nat b \<le> t - gap" using q by linarith
  }
qed

lemma threshold_exact:
  assumes "a < 2 ^ 53" and "0 < b" and "b < 2 ^ 49" and "k = 7 \<or> k = 8 \<or> k = 4"
  shows "fl (of_nat a / of_nat b) > fl (of_nat k / 10) \<longleftrightarrow> 10 * a > k * b"
    and "fl (of_nat a / of_nat b) < fl (of_nat k / 10) \<longleftrightarrow> 10 * a < k * b"
proof -
  let ?t = "of_nat k / 10 :: rat" and ?q = "of_nat a / of_nat b :: rat"
  have t: "?t = 7/10 \<or> ?t = 8/10 \<or> ?t = 4/10" using assms(4) by auto
  note th = fl_thresholds [OF t]
  have b: "0 < (of_nat b :: rat)" using assms(2) by simp
  have "?t < ?q \<longleftrightarrow> (of_nat (k * b) :: rat) < of_nat (10 * a)" "?q < ?t \<longleftrightarrow> (of_nat (10 * a) :: rat) < of_nat (k * b)"
    using b by (simp_all add: field_simps)
  then have cmp: "?t < ?q \<longleftrightarrow> k * b < 10 * a" "?q < ?t \<longleftrightarrow> 10 * a < k * b" by (simp_all only: of_nat_less_iff)
  have qn: "0 < a \<Longrightarrow> normal ?q" using quotient_normal assms(1-3) by blast
  have up: "fl ?t < fl ?q" if "?t < ?q"
  proof -
    have "0 < a" using that t by (cases "a = 0") auto
    from fl_mono [OF th(4) qn [OF this] quotient_gap(1) [OF assms(2,3) refl that]] th(2) show ?thesis by linarith
  qed
  have down: "fl ?q < fl ?t" if "?q < ?t"
  proof (cases "a = 0")
    case True
    then show ?thesis using th(6) by (simp add: fl_def)
  next
    case False
    then have "0 < a" by simp
    from fl_mono [OF qn [OF this] th(3) quotient_gap(2) [OF assms(2,3) refl that]] th(1) show ?thesis by linarith
  qed
  have eq: "fl ?q = fl ?t" if "?q = ?t" using that by (rule arg_cong)
  have tri: "?t < ?q \<or> ?q < ?t \<or> ?q = ?t" by linarith
  have "fl ?q > fl ?t \<longleftrightarrow> ?t < ?q" using up down eq tri by (metis less_asym less_irrefl)
  then show "fl ?q > fl ?t \<longleftrightarrow> 10 * a > k * b" using cmp by simp
  have "fl ?q < fl ?t \<longleftrightarrow> ?q < ?t" using up down eq tri by (metis less_asym less_irrefl)
  then show "fl ?q < fl ?t \<longleftrightarrow> 10 * a < k * b" using cmp by simp
qed

lemma rate_exact:
  assumes "unat a < 2 ^ 49" and "unat b < 2 ^ 49" and "k = 7 \<or> k = 8 \<or> k = 4"
  shows "rate a b > fl (of_nat k / 10) \<longleftrightarrow> 0 < unat b \<and> 10 * unat a > k * unat b"
    and "0 < unat b \<Longrightarrow> rate a b < fl (of_nat k / 10) \<longleftrightarrow> 10 * unat a < k * unat b"
proof -
  have d: "u64_double a = of_nat (unat a)" "u64_double b = of_nat (unat b)"
  proof -
    have "unat a < 2 ^ 53" "unat b < 2 ^ 53" using assms(1,2) by simp_all
    from this [THEN fl_nat] show "u64_double a = of_nat (unat a)" "u64_double b = of_nat (unat b)"
      by (simp_all only: u64_double_def)
  qed
  have "(of_nat k / 10 :: rat) = 7/10 \<or> (of_nat k / 10 :: rat) = 8/10 \<or> (of_nat k / 10 :: rat) = 4/10" using assms(3) by auto
  from fl_thresholds(6) [OF this] have pos: "0 < fl (of_nat k / 10)" .
  have a53: "unat a < 2 ^ 53" using assms(1) by simp
  show "rate a b > fl (of_nat k / 10) \<longleftrightarrow> 0 < unat b \<and> 10 * unat a > k * unat b"
    using threshold_exact(1) [OF a53 _ assms(2,3)] pos
    by (cases "0 < unat b") (auto simp: rate_def double_div_def d unat_gt_0 word_gt_0)
  show "rate a b < fl (of_nat k / 10) \<longleftrightarrow> 10 * unat a < k * unat b" if "0 < unat b"
    using threshold_exact(2) [OF a53 that assms(2,3)] that by (simp add: rate_def double_div_def d unat_gt_0 word_gt_0)
qed

text \<open>Recording keeps the totals consistent: every request is a hit or a miss.\<close>

datatype stats_op = S_Hit u32 | S_Miss u32 | S_Prefetch u32 bool | S_Defer u64 | S_Decode u64 | S_Reset

fun stats_step :: "llama_expert_store_stats \<Rightarrow> stats_op \<Rightarrow> llama_expert_store_stats" where
  "stats_step s (S_Hit l) = record_hit s l"
| "stats_step s (S_Miss l) = record_miss s l"
| "stats_step s (S_Prefetch l t) = record_prefetch s l t"
| "stats_step s (S_Defer n) = add_defer_wait s n"
| "stats_step s (S_Decode n) = add_decode_time s n"
| "stats_step s S_Reset = store_stats_reset s"

lemma total_of_shift: "foldl (\<lambda>total e. total + f (snd e)) (x :: u64) es = x + foldl (\<lambda>total e. total + f (snd e)) 0 es"
proof (induction es arbitrary: x)
  case (Cons e es)
  from Cons [of "x + f (snd e)"] Cons [of "f (snd e)"] show ?case by simp
qed simp

lemma total_om_insert:
  "sorted_wrt (<) (map fst m) \<Longrightarrow> foldl (\<lambda>total e. total + f (snd e)) (0 :: u64) (om_insert k v m)
     = foldl (\<lambda>total e. total + f (snd e)) 0 m - (case map_of m k of None \<Rightarrow> 0 | Some e \<Rightarrow> f e) + f v"
proof (induction k v m rule: om_insert.induct)
  case (2 k v k' v' m)
  have none: "map_of m k = None" if "k < k' \<or> k = k'"
    using that "2.prems" by (force simp: map_of_eq_None_iff)
  show ?case
    using 2 none total_of_shift [of f "f v'" m] total_of_shift [of f "f v'" "om_insert k v m"]
      total_of_shift [of f "f v" m] total_of_shift [of f "f v + f v'" m]
    by (auto split: option.splits)
qed simp

definition stats_ok :: "llama_expert_store_stats \<Rightarrow> bool" where
  "stats_ok s \<longleftrightarrow> sorted_wrt (<) (map fst (xs_layers s)) \<and> total_requests s = total_hits s + total_misses s"

lemma total_upd_layer:
  assumes "sorted_wrt (<) (map fst (xs_layers s))"
  shows "total_of g (upd_layer s l f) = total_of g s
    - (case map_of (xs_layers s) l of None \<Rightarrow> 0 | Some e \<Rightarrow> g e)
    + g (f (case map_of (xs_layers s) l of None \<Rightarrow> layer_stats_init | Some e \<Rightarrow> e))"
  using total_om_insert [OF assms] by (simp add: total_of_def upd_layer_def)

lemma upd_layer_ok:
  assumes "stats_ok s"
    and "\<And>e. ls_requests (f e) - ls_requests e = (ls_hits (f e) - ls_hits e) + (ls_misses (f e) - ls_misses e)"
  shows "stats_ok (upd_layer s l f)"
proof -
  have so: "sorted_wrt (<) (map fst (xs_layers s))" and tot: "total_of ls_requests s = total_of ls_hits s + total_of ls_misses s"
    using assms(1) by (simp_all add: stats_ok_def total_requests_def total_hits_def total_misses_def)
  let ?e = "case map_of (xs_layers s) l of None \<Rightarrow> layer_stats_init | Some e \<Rightarrow> e"
  have up: "total_of g (upd_layer s l f) = total_of g s + (g (f ?e) - g ?e)" if "g layer_stats_init = 0" for g
    using total_upd_layer [OF so, of g l f] that by (simp split: option.splits)
  have "sorted_wrt (<) (map fst (xs_layers (upd_layer s l f)))" using sorted_om_insert [OF so] by (simp add: upd_layer_def)
  moreover have "total_of ls_requests (upd_layer s l f) = total_of ls_hits (upd_layer s l f) + total_of ls_misses (upd_layer s l f)"
    unfolding up [of ls_requests, unfolded layer_stats_init_def, simplified, folded layer_stats_init_def]
      up [of ls_hits, unfolded layer_stats_init_def, simplified, folded layer_stats_init_def]
      up [of ls_misses, unfolded layer_stats_init_def, simplified, folded layer_stats_init_def]
    using assms(2) [of ?e] tot by simp
  ultimately show ?thesis by (simp add: stats_ok_def total_requests_def total_hits_def total_misses_def)
qed

lemma stats_step_ok: "stats_ok s \<Longrightarrow> stats_ok (stats_step s x)"
proof (cases x)
  case (S_Prefetch l t)
  then show "stats_ok s \<Longrightarrow> ?thesis" by (auto simp: record_prefetch_def Let_def intro!: upd_layer_ok)
qed (auto simp: record_hit_def record_miss_def intro: upd_layer_ok,
     auto simp: stats_ok_def add_defer_wait_def add_decode_time_def store_stats_reset_def
      total_requests_def total_hits_def total_misses_def total_of_def)

lemma stats_run_ok: "stats_ok (foldl stats_step store_stats_init ops)"
proof (induction ops rule: rev_induct)
  case Nil
  show ?case by (simp add: stats_ok_def store_stats_init_def total_requests_def total_hits_def total_misses_def total_of_def)
qed (simp add: stats_step_ok)

section \<open>Properties\<close>

text \<open>
  C39. The advisories decide their thresholds exactly, in spite of the rounding of the quotients
  and of the decimal constants: with counters below \<open>2^49\<close>, thrashing is more than 70 percent
  misses, prefetch misjudging is less than 80 percent of the prefetched experts in time, and
  I/O-bound is more than 40 percent of the decode time spent waiting; and the layers reported as
  thrashing are exactly those above 70 percent, in ascending order.
\<close>

theorem advisory_thresholds_exact:
  assumes "unat (total_misses s) < 2 ^ 49" "unat (total_requests s) < 2 ^ 49" "unat (total_prefetched s) < 2 ^ 49"
    "unat (total_prefetch_hits s) < 2 ^ 49" "unat (xs_defer_wait_ns s) < 2 ^ 49" "unat (xs_decode_ns s) < 2 ^ 49"
    and "\<forall>(l, e) \<in> set (xs_layers s). unat (ls_misses e) < 2 ^ 49 \<and> unat (ls_requests e) < 2 ^ 49"
  shows "(ad_thrashing (llama_expert_stats_evaluate s)
        \<longleftrightarrow> 0 < unat (total_requests s) \<and> 10 * unat (total_misses s) > 7 * unat (total_requests s))
    \<and> (ad_prefetch_misjudging (llama_expert_stats_evaluate s)
        \<longleftrightarrow> 0 < unat (total_prefetched s) \<and> 10 * unat (total_prefetch_hits s) < 8 * unat (total_prefetched s))
    \<and> (ad_io_bound (llama_expert_stats_evaluate s)
        \<longleftrightarrow> 0 < unat (xs_decode_ns s) \<and> 10 * unat (xs_defer_wait_ns s) > 4 * unat (xs_decode_ns s))
    \<and> ad_thrashing_layers (llama_expert_stats_evaluate s)
        = map fst (filter (\<lambda>(l, e). 0 < unat (ls_requests e) \<and> 10 * unat (ls_misses e) > 7 * unat (ls_requests e)) (xs_layers s))"
proof -
  have c: "(70/100 :: rat) = of_nat 7 / 10" "(80/100 :: rat) = of_nat 8 / 10" "(40/100 :: rat) = of_nat 4 / 10" by simp_all
  have z: "b > 0 \<longleftrightarrow> 0 < unat b" for b :: u64 by (simp add: word_less_nat_alt)
  have "filter (\<lambda>e. ls_requests (snd e) \<noteq> 0 \<and> rate (ls_misses (snd e)) (ls_requests (snd e)) > fl (of_nat 7 / 10)) (xs_layers s)
      = filter (\<lambda>(l, e). 0 < unat (ls_requests e) \<and> 10 * unat (ls_misses e) > 7 * unat (ls_requests e)) (xs_layers s)"
  proof (rule filter_cong [OF refl])
    fix x assume "x \<in> set (xs_layers s)"
    with assms(7) have b: "unat (ls_misses (snd x)) < 2 ^ 49" "unat (ls_requests (snd x)) < 2 ^ 49" by (cases x; auto)+
    show "(ls_requests (snd x) \<noteq> 0 \<and> rate (ls_misses (snd x)) (ls_requests (snd x)) > fl (of_nat 7 / 10))
      = (case x of (l, e) \<Rightarrow> 0 < unat (ls_requests e) \<and> 10 * unat (ls_misses e) > 7 * unat (ls_requests e))"
      using rate_exact(1) [OF b, of 7] by (cases x) (auto simp: unat_gt_0)
  qed
  then show ?thesis
    unfolding llama_expert_stats_evaluate_def Let_def c z
    using rate_exact(1) [OF assms(1,2), of 7] rate_exact(2) [OF assms(4,3), of 8] rate_exact(1) [OF assms(5,6), of 4]
    by (simp only: llama_expert_stats_advisory.simps) blast
qed

lemma advisory_thresholds_exact_witness:
  "\<not> ad_thrashing (llama_expert_stats_evaluate store_stats_init)
    \<and> ad_thrashing_layers (llama_expert_stats_evaluate (foldl stats_step store_stats_init [S_Miss 3, S_Hit 1])) = [3]"
proof -
  have a: "\<not> ad_thrashing (llama_expert_stats_evaluate store_stats_init)"
    using advisory_thresholds_exact [of store_stats_init]
    by (simp add: store_stats_init_def total_misses_def total_requests_def total_prefetched_def total_prefetch_hits_def total_of_def)
  let ?s = "foldl stats_step store_stats_init [S_Miss 3, S_Hit 1]"
  have s: "?s = store_stats_init\<lparr>xs_layers := [(1, layer_stats_init\<lparr>ls_requests := 1, ls_hits := 1\<rparr>),
      (3, layer_stats_init\<lparr>ls_requests := 1, ls_misses := 1\<rparr>)]\<rparr>"
    by (simp add: record_miss_def record_hit_def upd_layer_def store_stats_init_def layer_stats_init_def)
  have "ad_thrashing_layers (llama_expert_stats_evaluate ?s) = [3]"
    unfolding s using advisory_thresholds_exact [of "store_stats_init\<lparr>xs_layers := [(1, layer_stats_init\<lparr>ls_requests := 1, ls_hits := 1\<rparr>),
      (3, layer_stats_init\<lparr>ls_requests := 1, ls_misses := 1\<rparr>)]\<rparr>"]
    by (simp add: store_stats_init_def layer_stats_init_def total_misses_def total_requests_def total_prefetched_def
        total_prefetch_hits_def total_of_def)
  with a show ?thesis by simp
qed

text \<open>
  However the statistics are driven, requests are hits plus misses in every total.
\<close>

theorem stats_requests_split:
  "total_requests (foldl stats_step store_stats_init ops)
    = total_hits (foldl stats_step store_stats_init ops) + total_misses (foldl stats_step store_stats_init ops)"
  using stats_run_ok [of ops] by (simp add: stats_ok_def)

end
