(* ===== verification/Verifier_Trace.thy ===== *)
theory Verifier_Trace
  imports Expert_Stats
begin

text \<open>
  The raw-logit summary of the verifier (\<open>examples/server/server-verifier-trace.h\<close>): the two
  best tokens of a row of target logits, the decision label, the traced window and the request
  limit. A \<open>float\<close> is the rational it stands for, \<open>None\<close> when it is not finite.
\<close>

record server_verifier_logits =
  vl_valid :: bool
  vl_argmax :: int
  vl_runner_up :: int
  vl_top :: rat
  vl_second :: rat
  vl_margin :: rat
  vl_has_proposal :: bool
  vl_proposal_logit :: rat

definition verifier_logits_init :: server_verifier_logits where
  "verifier_logits_init = \<lparr>vl_valid = False, vl_argmax = -1, vl_runner_up = -1, vl_top = 0, vl_second = 0,
     vl_margin = 0, vl_has_proposal = False, vl_proposal_logit = 0\<rparr>"

definition verifier_take :: "server_verifier_logits \<Rightarrow> int \<Rightarrow> rat \<Rightarrow> server_verifier_logits" where
  "verifier_take out i l =
     (if vl_argmax out < 0 \<or> l > vl_top out
      then out\<lparr>vl_runner_up := vl_argmax out, vl_second := vl_top out, vl_argmax := i, vl_top := l\<rparr>
      else if vl_runner_up out < 0 \<or> l > vl_second out then out\<lparr>vl_runner_up := i, vl_second := l\<rparr>
      else out)"

text \<open>The loop; \<open>None\<close> when a logit is not finite.\<close>

fun verifier_scan :: "server_verifier_logits \<Rightarrow> int \<Rightarrow> rat option list \<Rightarrow> server_verifier_logits option" where
  "verifier_scan out i [] = Some out"
| "verifier_scan out i (None # ls) = None"
| "verifier_scan out i (Some l # ls) = verifier_scan (verifier_take out i l) (i + 1) ls"

definition double_minus :: "rat \<Rightarrow> rat \<Rightarrow> rat" where
  "double_minus a b = (if a \<ge> b then fl (a - b) else - fl (b - a))"

definition server_verifier_summarize :: "rat option list option \<Rightarrow> int \<Rightarrow> int \<Rightarrow> server_verifier_logits" where
  "server_verifier_summarize logits count proposal = (case logits of
       None \<Rightarrow> verifier_logits_init
     | Some ls \<Rightarrow>
        if count < 2 \<or> proposal < -1 \<or> proposal \<ge> count then verifier_logits_init
        else (case verifier_scan verifier_logits_init 0 (take (nat count) ls) of
            None \<Rightarrow> verifier_logits_init
          | Some out \<Rightarrow>
              out\<lparr>vl_margin := double_minus (vl_top out) (vl_second out),
                  vl_has_proposal := proposal \<ge> 0,
                  vl_proposal_logit := (if proposal \<ge> 0 then the (ls ! nat proposal) else 0),
                  vl_valid := True\<rparr>))"

definition server_verifier_decision :: "u64 \<Rightarrow> u64 \<Rightarrow> int \<Rightarrow> int \<Rightarrow> string" where
  "server_verifier_decision row draft_size proposal selected =
     (if row \<ge> draft_size then ''bonus'' else if proposal = selected then ''accepted'' else ''rejected'')"

definition server_verifier_in_window :: "int \<Rightarrow> bool" where
  "server_verifier_in_window pos = (pos \<ge> 1 \<and> pos \<le> 128)"

record server_verifier_request_limit =
  rl_task :: int
  rl_written :: u64

definition request_limit_init :: server_verifier_request_limit where
  "request_limit_init = \<lparr>rl_task = -1, rl_written = 0\<rparr>"

definition request_admit :: "server_verifier_request_limit \<Rightarrow> int \<Rightarrow> bool \<times> server_verifier_request_limit" where
  "request_admit r current_task =
     (let r = (if current_task \<noteq> rl_task r then r\<lparr>rl_task := current_task, rl_written := 0\<rparr> else r)
      in if rl_written r \<ge> 128 then (False, r) else (True, r\<lparr>rl_written := rl_written r + 1\<rparr>))"

section \<open>The two best tokens\<close>

text \<open>\<open>a\<close> is the first of the largest values among the positions in \<open>P\<close>.\<close>

definition first_best :: "rat list \<Rightarrow> (nat \<Rightarrow> bool) \<Rightarrow> nat \<Rightarrow> bool" where
  "first_best vs P a \<longleftrightarrow> a < length vs \<and> P a \<and> (\<forall>j < length vs. P j \<longrightarrow> vs ! j \<le> vs ! a \<and> (j < a \<longrightarrow> vs ! j < vs ! a))"

definition scan_ok :: "rat list \<Rightarrow> server_verifier_logits \<Rightarrow> bool" where
  "scan_ok vs out \<longleftrightarrow>
     (if vs = [] then vl_argmax out = -1
      else \<exists>a. vl_argmax out = int a \<and> vl_top out = vs ! a \<and> first_best vs (\<lambda>_. True) a
        \<and> (if length vs = 1 then vl_runner_up out = -1
           else \<exists>r. vl_runner_up out = int r \<and> vl_second out = vs ! r \<and> first_best vs (\<lambda>j. j \<noteq> a) r))"

lemma first_best_snoc_new:
  assumes "\<forall>j < length vs. P j \<longrightarrow> vs ! j < v" and "P (length vs)"
  shows "first_best (vs @ [v]) P (length vs)"
  using assms by (auto simp: first_best_def nth_append less_Suc_eq intro: less_imp_le)

lemma first_best_snoc_old:
  assumes "first_best vs P a" and "P (length vs) \<longrightarrow> v \<le> vs ! a"
  shows "first_best (vs @ [v]) P a"
  using assms by (auto simp: first_best_def nth_append less_Suc_eq)

lemma first_best_less: "first_best vs P a \<Longrightarrow> a < length vs"
  by (simp add: first_best_def)

lemma verifier_take_ok:
  assumes "scan_ok vs out"
  shows "scan_ok (vs @ [v]) (verifier_take out (int (length vs)) v)"
proof (cases "vs = []")
  case True
  then show ?thesis using assms by (simp add: scan_ok_def verifier_take_def first_best_def)
next
  case ne: False
  with assms obtain a where a: "vl_argmax out = int a" "vl_top out = vs ! a" "first_best vs (\<lambda>_. True) a"
    and r: "if length vs = 1 then vl_runner_up out = -1
           else \<exists>r. vl_runner_up out = int r \<and> vl_second out = vs ! r \<and> first_best vs (\<lambda>j. j \<noteq> a) r"
    by (auto simp: scan_ok_def)
  have al: "a < length vs" using first_best_less [OF a(3)] .
  have len: "length (vs @ [v]) \<noteq> 1" "vs @ [v] \<noteq> []" using ne by simp_all
  show ?thesis
  proof (cases "v > vs ! a")
    case True
    have "\<forall>j < length vs. vs ! j < v" using a(3) True by (auto simp: first_best_def intro: le_less_trans)
    then have b: "first_best (vs @ [v]) (\<lambda>_. True) (length vs)" by (intro first_best_snoc_new) simp_all
    have "first_best (vs @ [v]) (\<lambda>j. j \<noteq> length vs) a"
      using a(3) al by (auto simp: first_best_def nth_append less_Suc_eq)
    with b True a al len show ?thesis
      unfolding scan_ok_def by (auto simp: verifier_take_def nth_append)
  next
    case False
    then have b: "first_best (vs @ [v]) (\<lambda>_. True) a" using first_best_snoc_old [OF a(3)] by simp
    show ?thesis
    proof (cases "length vs = 1")
      case True
      then have "first_best (vs @ [v]) (\<lambda>j. j \<noteq> a) (length vs)" using al by (intro first_best_snoc_new) auto
      with True False a al b len r show ?thesis
        unfolding scan_ok_def by (auto simp: verifier_take_def nth_append)
    next
      case two: False
      with r obtain q where q: "vl_runner_up out = int q" "vl_second out = vs ! q" "first_best vs (\<lambda>j. j \<noteq> a) q" by auto
      have ql: "q < length vs" using first_best_less [OF q(3)] .
      show ?thesis
      proof (cases "v > vs ! q")
        case True
        have "\<forall>j < length vs. j \<noteq> a \<longrightarrow> vs ! j < v" using q(3) True by (auto simp: first_best_def intro: le_less_trans)
        then have "first_best (vs @ [v]) (\<lambda>j. j \<noteq> a) (length vs)" using al by (intro first_best_snoc_new) auto
        with True False a al b len q ql show ?thesis
          unfolding scan_ok_def by (auto simp: verifier_take_def nth_append)
      next
        case low: False
        then have "first_best (vs @ [v]) (\<lambda>j. j \<noteq> a) q" using first_best_snoc_old [OF q(3)] by simp
        with low False a al b len q ql show ?thesis
          unfolding scan_ok_def by (auto simp: verifier_take_def nth_append)
      qed
    qed
  qed
qed

lemma verifier_scan_ok:
  "scan_ok vs out \<Longrightarrow> \<exists>out'. verifier_scan out (int (length vs)) (map Some ws) = Some out' \<and> scan_ok (vs @ ws) out'"
proof (induction ws arbitrary: vs out)
  case (Cons w ws)
  from Cons.IH [OF verifier_take_ok [OF Cons.prems, of w]] show ?case by (simp add: add.commute)
qed simp

lemma verifier_scan_none: "None \<in> set ls \<Longrightarrow> verifier_scan out i ls = None"
  by (induction out i ls rule: verifier_scan.induct) auto

lemma first_best_gap: "first_best vs (\<lambda>_. True) a \<Longrightarrow> r < length vs \<Longrightarrow> vs ! r \<le> vs ! a"
  by (simp add: first_best_def)

lemma verifier_scan_init:
  assumes "2 \<le> length vs"
  obtains out a r where "verifier_scan verifier_logits_init 0 (map Some vs) = Some out"
    "vl_argmax out = int a" "vl_top out = vs ! a" "first_best vs (\<lambda>_. True) a"
    "vl_runner_up out = int r" "vl_second out = vs ! r" "first_best vs (\<lambda>j. j \<noteq> a) r"
proof -
  have "scan_ok [] verifier_logits_init" by (simp add: scan_ok_def verifier_logits_init_def)
  from verifier_scan_ok [OF this, of vs] obtain out where out: "verifier_scan verifier_logits_init 0 (map Some vs) = Some out" "scan_ok vs out"
    by auto
  have "vs \<noteq> []" "length vs \<noteq> 1" using assms by auto
  with out that show ?thesis by (auto simp: scan_ok_def)
qed

lemma verifier_summary_fields:
  assumes "2 \<le> count \<and> -1 \<le> proposal \<and> proposal < count \<and> None \<notin> set (take (nat count) ls)"
    and "nat count \<le> length ls"
  shows "vl_valid (server_verifier_summarize (Some ls) count proposal) \<and>
      (\<exists>a r. let vs = map the (take (nat count) ls); out = server_verifier_summarize (Some ls) count proposal in
         vl_argmax out = int a \<and> first_best vs (\<lambda>_. True) a \<and> vl_top out = vs ! a
       \<and> vl_runner_up out = int r \<and> first_best vs (\<lambda>j. j \<noteq> a) r \<and> vl_second out = vs ! r
       \<and> vl_margin out = fl (vs ! a - vs ! r)
       \<and> vl_proposal_logit out = (if 0 \<le> proposal then vs ! nat proposal else 0))"
proof -
  define vs where "vs = map the (take (nat count) ls)"
  have vs: "take (nat count) ls = map Some vs"
    using assms(1) unfolding vs_def by (auto simp: list_eq_iff_nth_eq in_set_conv_nth)
  have "2 \<le> nat count" using assms(1) by linarith
  then have len: "2 \<le> length vs" using assms(2) by (simp add: vs_def)
  obtain out a r where outs: "verifier_scan verifier_logits_init 0 (map Some vs) = Some out"
    "vl_argmax out = int a" "vl_top out = vs ! a" "first_best vs (\<lambda>_. True) a"
    "vl_runner_up out = int r" "vl_second out = vs ! r" "first_best vs (\<lambda>j. j \<noteq> a) r"
    using verifier_scan_init [OF len] .
  have le: "vs ! r \<le> vs ! a" using first_best_gap [OF outs(4) first_best_less [OF outs(7)]] .
  have pl: "0 \<le> proposal \<Longrightarrow> the (ls ! nat proposal) = vs ! nat proposal"
    using assms by (simp add: vs_def)
  have "server_verifier_summarize (Some ls) count proposal =
      out\<lparr>vl_margin := fl (vs ! a - vs ! r), vl_has_proposal := 0 \<le> proposal,
          vl_proposal_logit := (if 0 \<le> proposal then vs ! nat proposal else 0), vl_valid := True\<rparr>"
    using assms(1) outs(1-3) outs(6) le pl by (simp add: server_verifier_summarize_def vs double_minus_def)
  then show ?thesis unfolding vs_def [symmetric] Let_def using outs by (intro conjI exI [of _ a] exI [of _ r]) auto
qed

section \<open>Properties\<close>

text \<open>
  C40. The verifier summary is valid exactly when the row has at least two logits, all finite, and
  the proposal is -1 or a token of the row; then it names the first of the largest logits and the
  first of the largest others (so ties go to the lower token), with their values.
\<close>

theorem verifier_summary_two_best:
  assumes "nat count \<le> length ls"
  shows "(vl_valid (server_verifier_summarize (Some ls) count proposal)
      \<longleftrightarrow> 2 \<le> count \<and> -1 \<le> proposal \<and> proposal < count \<and> None \<notin> set (take (nat count) ls))
    \<and> (vl_valid (server_verifier_summarize (Some ls) count proposal) \<longrightarrow>
      (\<exists>a r. let vs = map the (take (nat count) ls); out = server_verifier_summarize (Some ls) count proposal in
         vl_argmax out = int a \<and> first_best vs (\<lambda>_. True) a \<and> vl_top out = vs ! a
       \<and> vl_runner_up out = int r \<and> first_best vs (\<lambda>j. j \<noteq> a) r \<and> vl_second out = vs ! r
       \<and> vl_margin out = fl (vs ! a - vs ! r)
       \<and> vl_proposal_logit out = (if 0 \<le> proposal then vs ! nat proposal else 0)))"
proof (cases "2 \<le> count \<and> -1 \<le> proposal \<and> proposal < count \<and> None \<notin> set (take (nat count) ls)")
  case False
  then have "\<not> vl_valid (server_verifier_summarize (Some ls) count proposal)"
    by (auto simp: server_verifier_summarize_def verifier_logits_init_def verifier_scan_none split: option.split)
  then show ?thesis using False by simp
next
  case True
  from verifier_summary_fields [OF this assms] show ?thesis using True by blast
qed

lemma verifier_summary_two_best_witness:
  "vl_argmax (server_verifier_summarize (Some [Some 1, Some 5, Some 5, Some 2]) 4 3) = 1
   \<and> vl_valid (server_verifier_summarize (Some [Some 1, Some 5, Some 5, Some 2]) 4 3)"
  using verifier_summary_two_best [of 4 "[Some 1, Some 5, Some 5, Some 2]" 3]
  by (auto simp: server_verifier_summarize_def verifier_logits_init_def verifier_take_def)

end
