(* ===== verification/Grammar_Utf8.thy ===== *)
theory Grammar_Utf8
  imports Decimal_Text "HOL-Library.Char_ord"
begin

text \<open>
  UTF-8 in the grammar engine (\<open>src/llama-grammar.cpp\<close>): the decoder of one character and the
  decoder of a piece that may begin and end inside a character, a reference decoder that reads a
  byte at a time, and the proof that on well-formed text the two agree for any cutting into
  pieces. A \<open>const char *\<close> into a NUL-terminated text is the text that is left, so that
  \<open>*pos == 0\<close> is the empty list.
\<close>

section \<open>Bytes\<close>

definition byte :: "char \<Rightarrow> u32" where
  "byte c = of_char c"

definition c_str :: "string \<Rightarrow> string" where
  "c_str s = takeWhile (\<lambda>c. c \<noteq> CHR 0x00) s"

definition cur :: "string \<Rightarrow> char" where
  "cur s = (case s of [] \<Rightarrow> CHR 0x00 | c # _ \<Rightarrow> c)"

definition cur1 :: "string \<Rightarrow> char" where
  "cur1 s = cur (tl s)"

section \<open>UTF-8\<close>

record llama_partial_utf8 =
  pu_value :: u32
  pu_remain :: int

definition utf8_len :: "char \<Rightarrow> nat" where
  "utf8_len c = [1, 1, 1, 1, 1, 1, 1, 1, 1, 1, 1, 1, 2, 2, 3, 4] ! (of_char c div 16)"

text \<open>At most \<open>k\<close> further bytes, fewer when the text ends.\<close>

fun utf8_tail :: "nat \<Rightarrow> u32 \<Rightarrow> string \<Rightarrow> u32 \<times> string" where
  "utf8_tail 0 v s = (v, s)"
| "utf8_tail (Suc k) v [] = (v, [])"
| "utf8_tail (Suc k) v (c # s) = utf8_tail k (push_bit 6 v + (byte c AND 0x3F)) s"

text \<open>The decoder of one character; the mask is \<open>(1 << (8 - len)) - 1\<close>.\<close>

definition decode_utf8_char :: "string \<Rightarrow> u32 \<times> string" where
  "decode_utf8_char src =
     (let n = utf8_len (cur src) in utf8_tail (n - 1) (byte (cur src) AND (2 ^ (8 - n) - 1)) (tl src))"

text \<open>The first loop of the decoder of a piece; \<open>None\<close> is the invalid sequence.\<close>

fun utf8_resume :: "u32 \<Rightarrow> int \<Rightarrow> string \<Rightarrow> (u32 \<times> int \<times> string) option" where
  "utf8_resume v n [] = Some (v, n, [])"
| "utf8_resume v n (c # s) =
     (if n > 0 then
        if drop_bit 6 (byte c) \<noteq> 2 then None
        else utf8_resume (push_bit 6 v + (byte c AND 0x3F)) (n - 1) s
      else Some (v, n, c # s))"

definition utf8_follow :: "char \<Rightarrow> int" where
  "utf8_follow c = [1, 1, 1, 1, 1, 1, 1, 1, 0, 0, 0, 0, 2, 2, 3, 4] ! (of_char c div 16) - 1"

text \<open>The inner loop: the bytes that follow a first byte, whatever they are.\<close>

fun utf8_take :: "u32 \<Rightarrow> int \<Rightarrow> string \<Rightarrow> u32 \<times> int \<times> string" where
  "utf8_take v n [] = (v, n, [])"
| "utf8_take v n (c # s) =
     (if n > 0 then utf8_take (push_bit 6 v + (byte c AND 0x3F)) (n - 1) s else (v, n, c # s))"

lemma utf8_take_length: "(v', n', s') = utf8_take v n s \<Longrightarrow> length s' \<le> length s"
  by (induction v n s rule: utf8_take.induct) (auto split: if_splits)

text \<open>The second loop; \<open>cps\<close> is the vector of code points.\<close>

function utf8_loop :: "u32 list \<Rightarrow> u32 \<Rightarrow> int \<Rightarrow> string \<Rightarrow> u32 list \<times> llama_partial_utf8" where
  "utf8_loop cps v n [] = (cps @ [0], \<lparr>pu_value = v, pu_remain = n\<rparr>)"
| "utf8_loop cps v n (c # s) =
     (let n = utf8_follow c in
      if n < 0 then ([0], \<lparr>pu_value = 0, pu_remain = n\<rparr>)
      else case utf8_take (byte c AND (2 ^ nat (7 - n) - 1)) n s of (v, n, s) \<Rightarrow>
        utf8_loop (if n = 0 then cps @ [v] else cps) v n s)"
  by pat_completeness auto
termination
  by (relation "measure (\<lambda>(_, _, _, s). length s)") (auto simp: less_Suc_eq_le dest: utf8_take_length utf8_take_length [OF sym] split: prod.splits)

definition decode_utf8 :: "string \<Rightarrow> llama_partial_utf8 \<Rightarrow> u32 list \<times> llama_partial_utf8" where
  "decode_utf8 src p = (case utf8_resume (pu_value p) (pu_remain p) (c_str src) of
       None \<Rightarrow> ([0], \<lparr>pu_value = 0, pu_remain = -1\<rparr>)
     | Some (v, n, s) \<Rightarrow> utf8_loop (if pu_remain p > 0 \<and> n = 0 then [v] else []) v n s)"

section \<open>Decoding piece by piece\<close>

text \<open>
  The reference decoder reads a byte at a time: the bits so far, how many bytes are missing, and
  the code point a byte completes.
\<close>

definition cont_byte :: "char \<Rightarrow> bool" where
  "cont_byte c \<longleftrightarrow> drop_bit 6 (byte c) = 2"

fun utf8_ok :: "int \<Rightarrow> string \<Rightarrow> bool" where
  "utf8_ok n [] \<longleftrightarrow> True"
| "utf8_ok n (c # s) \<longleftrightarrow> c \<noteq> CHR 0x00 \<and>
     (if n > 0 then cont_byte c \<and> utf8_ok (n - 1) s else utf8_follow c \<ge> 0 \<and> utf8_ok (utf8_follow c) s)"

definition push_byte :: "u32 \<Rightarrow> int \<Rightarrow> char \<Rightarrow> u32 \<times> int" where
  "push_byte v n c =
     (if n > 0 then (push_bit 6 v + (byte c AND 0x3F), n - 1)
      else (byte c AND (2 ^ nat (7 - utf8_follow c) - 1), utf8_follow c))"

fun bytes_decode :: "u32 \<times> int \<Rightarrow> string \<Rightarrow> u32 list \<times> u32 \<times> int" where
  "bytes_decode (v, n) [] = ([], v, n)"
| "bytes_decode (v, n) (c # s) =
     (let (v', n') = push_byte v n c; (cps, r) = bytes_decode (v', n') s in
      (if n' = 0 then v' # cps else cps, r))"

lemma bytes_decode_append:
  "bytes_decode p (s @ t) = (let (cs, q) = bytes_decode p s; (ds, r) = bytes_decode q t in (cs @ ds, r))"
proof (induction s arbitrary: p)
  case Nil
  then show ?case by (cases p) (simp add: case_prod_beta)
next
  case (Cons c s)
  obtain v n where p: "p = (v, n)" by (cases p)
  show ?case using Cons.IH unfolding p by (cases "push_byte v n c") (simp add: case_prod_beta Let_def)
qed

lemma utf8_ok_append:
  "utf8_ok n (s @ t) \<longleftrightarrow> utf8_ok n s \<and> utf8_ok (snd (snd (bytes_decode (v, n) s))) t"
proof (induction s arbitrary: v n)
  case (Cons c s)
  show ?case
    using Cons.IH [where n = "snd (push_byte v n c)" and v = "fst (push_byte v n c)"]
    by (auto simp: push_byte_def case_prod_beta split: if_splits)
qed simp

text \<open>The inner loop reads the rest of one character.\<close>

lemma utf8_loops_done [simp]:
  "n \<le> 0 \<Longrightarrow> utf8_take v n s = (v, n, s)" "n \<le> 0 \<Longrightarrow> utf8_resume v n s = Some (v, n, s)"
  by (cases s; simp)+

lemma utf8_take_decode:
  assumes "n \<ge> 0" "utf8_ok n s" "utf8_take v n s = (v', n', t)"
  shows "0 \<le> n' \<and> utf8_ok n' t \<and> (0 < n' \<longrightarrow> t = []) \<and>
    bytes_decode (v, n) s = (let (cs, r) = bytes_decode (v', n') t in (if 0 < n \<and> n' = 0 then v' # cs else cs, r))"
  using assms
proof (induction v n s rule: utf8_take.induct)
  case (2 v n c s)
  show ?case
  proof (cases "n > 0")
    case True
    then show ?thesis using "2.IH" "2.prems"
      by (cases "n = 1") (auto simp: push_byte_def case_prod_beta Let_def split: if_splits)
  next
    case False
    then show ?thesis using "2.prems" by (auto simp: case_prod_beta)
  qed
qed auto

lemma utf8_resume_decode:
  assumes "utf8_ok n s"
  shows "\<exists>v' n' t. utf8_resume v n s = Some (v', n', t) \<and> (0 \<le> n \<longrightarrow> 0 \<le> n') \<and> utf8_ok n' t \<and> (0 < n' \<longrightarrow> t = []) \<and>
    bytes_decode (v, n) s = (let (cs, r) = bytes_decode (v', n') t in (if 0 < n \<and> n' = 0 then v' # cs else cs, r))"
  using assms
proof (induction v n s rule: utf8_resume.induct)
  case (2 v n c s)
  show ?case
  proof (cases "n > 0")
    case True
    then have c: "drop_bit 6 (byte c) = 2" "utf8_ok (n - 1) s" using "2.prems" by (auto simp: cont_byte_def)
    from "2.IH" [OF True _ c(2)] c(1) True show ?thesis
      by (cases "n = 1") (auto simp: push_byte_def case_prod_beta Let_def)
  next
    case False
    then show ?thesis using "2.prems" by (auto simp: case_prod_beta)
  qed
qed auto

lemma utf8_loop_decode:
  assumes "0 < n \<longrightarrow> s = []" "utf8_ok n s"
  shows "utf8_loop cps v n s = (let (cs, v', n') = bytes_decode (v, n) s in (cps @ cs @ [0], \<lparr>pu_value = v', pu_remain = n'\<rparr>))"
  using assms
proof (induction cps v n s rule: utf8_loop.induct)
  case (2 cps v n c s)
  then have n: "\<not> 0 < n" "0 \<le> utf8_follow c" "utf8_ok (utf8_follow c) s" by auto
  obtain v' n' t where t: "utf8_take (byte c AND (2 ^ nat (7 - utf8_follow c) - 1)) (utf8_follow c) s = (v', n', t)"
    by (metis prod_cases3)
  from utf8_take_decode [OF n(2,3) t] have d: "0 \<le> n'" "utf8_ok n' t" "0 < n' \<longrightarrow> t = []"
    and b: "bytes_decode (byte c AND (2 ^ nat (7 - utf8_follow c) - 1), utf8_follow c) s =
      (let (cs, r) = bytes_decode (v', n') t in (if 0 < utf8_follow c \<and> n' = 0 then v' # cs else cs, r))" by auto
  have same: "\<not> 0 < utf8_follow c \<Longrightarrow> v' = byte c AND (2 ^ nat (7 - utf8_follow c) - 1) \<and> n' = 0"
    using t n(2) by (cases s) (auto split: if_splits)
  have loop: "utf8_loop cps v n (c # s) = utf8_loop (if n' = 0 then cps @ [v'] else cps) v' n' t"
    using n(2) t by (simp add: Let_def)
  have "utf8_loop (if n' = 0 then cps @ [v'] else cps) v' n' t =
      (let (cs, v'', n'') = bytes_decode (v', n') t in ((if n' = 0 then cps @ [v'] else cps) @ cs @ [0], \<lparr>pu_value = v'', pu_remain = n''\<rparr>))"
    using "2.IH" [OF refl _ t [symmetric] refl d(3,2)] n(2) by simp
  moreover have "bytes_decode (v, n) (c # s) = (let (cs, r) = bytes_decode (v', n') t in (if n' = 0 then v' # cs else cs, r))"
    using n(1,2) b same by (auto simp: push_byte_def case_prod_beta Let_def)
  ultimately show ?case unfolding loop by (simp add: case_prod_beta Let_def)
qed simp

lemma utf8_ok_no_nul: "utf8_ok n s \<Longrightarrow> c_str s = s"
  unfolding c_str_def by (induction n s rule: utf8_ok.induct) (auto split: if_splits)

lemma decode_utf8_eq:
  assumes "utf8_ok (pu_remain p) s" "0 \<le> pu_remain p"
  shows "decode_utf8 s p =
    (let (cs, v, n) = bytes_decode (pu_value p, pu_remain p) s in (cs @ [0], \<lparr>pu_value = v, pu_remain = n\<rparr>))"
proof -
  from utf8_resume_decode [OF assms(1), of "pu_value p"] assms(2) obtain v' n' t
    where "utf8_resume (pu_value p) (pu_remain p) s = Some (v', n', t)" "utf8_ok n' t" "0 < n' \<longrightarrow> t = []"
      "bytes_decode (pu_value p, pu_remain p) s =
        (let (cs, r) = bytes_decode (v', n') t in (if 0 < pu_remain p \<and> n' = 0 then v' # cs else cs, r))" by blast
  then show ?thesis
    by (simp add: decode_utf8_def utf8_ok_no_nul [OF assms(1)] utf8_loop_decode case_prod_beta Let_def)
qed

section \<open>Encoded text\<close>

text \<open>The standard encoding of a code point, as the reference for the decoder.\<close>

definition utf8_encode :: "nat \<Rightarrow> string" where
  "utf8_encode k =
     (if k < 0x80 then [char_of k]
      else if k < 0x800 then [char_of (0xC0 + k div 64), char_of (0x80 + k mod 64)]
      else if k < 0x10000 then [char_of (0xE0 + k div 4096), char_of (0x80 + k div 64 mod 64), char_of (0x80 + k mod 64)]
      else [char_of (0xF0 + k div 262144), char_of (0x80 + k div 4096 mod 64), char_of (0x80 + k div 64 mod 64), char_of (0x80 + k mod 64)])"

definition scalar :: "nat \<Rightarrow> bool" where
  "scalar k \<longleftrightarrow> 0 < k \<and> k < 0x110000"

lemma byte_char_of: "k < 256 \<Longrightarrow> byte (char_of k) = of_nat k"
  unfolding byte_def by (metis of_nat_of_char of_char_of mod_less)

lemma char_of_nonzero: "0 < k \<Longrightarrow> k < 256 \<Longrightarrow> char_of k \<noteq> CHR 0x00" for k :: nat
  using of_char_of [of k] by (auto simp del: of_char_of dest: dvd_imp_le)

lemma byte_low_bits: "k < 256 \<Longrightarrow> byte (char_of k) AND 2 ^ n - 1 = of_nat (k mod 2 ^ n)" for k :: nat
proof -
  assume "k < 256"
  then have "byte (char_of k) AND 2 ^ n - 1 = take_bit n (of_nat k)"
    by (simp only: byte_char_of mask_eq_exp_minus_1 take_bit_eq_mask)
  then show ?thesis by (simp only: take_bit_of_nat) (simp only: take_bit_eq_mod)
qed

lemma nat_below_16: "n < 16 \<Longrightarrow> n \<in> {0,1,2,3,4,5,6,7,8,9,10,11,12,13,14,15}" for n :: nat
  by (cases n; simp; arith)

lemma follow_lead: "k < 256 \<Longrightarrow> utf8_follow (char_of k) =
    (if k < 128 then 0 else if k < 192 then -1 else if k < 224 then 1 else if k < 240 then 2 else 3)" for k :: nat
proof -
  assume k: "k < 256"
  then have "k div 16 < 16" by simp
  then have "k div 16 \<in> {0,1,2,3,4,5,6,7,8,9,10,11,12,13,14,15}" by (rule nat_below_16)
  with k show ?thesis by (auto simp: utf8_follow_def)
qed

lemma cont_byte_char: "k < 64 \<Longrightarrow> cont_byte (char_of (128 + k))" for k :: nat
proof -
  assume k: "k < 64"
  then have u: "unat (of_nat (128 + k) :: u32) = 128 + k" by (simp only: unat_of_nat) simp
  have "unat (drop_bit 6 (of_nat (128 + k) :: u32)) = drop_bit 6 (128 + k)"
    unfolding unat_drop_bit_eq u ..
  also have "\<dots> = 2" using k by (simp add: drop_bit_eq_div)
  finally show ?thesis using k by (simp only: cont_byte_def byte_char_of word_unat_eq_iff) simp
qed

lemma push_cont: "0 < n \<Longrightarrow> k < 64 \<Longrightarrow> push_byte v n (char_of (128 + k)) = (v * 64 + of_nat k, n - 1)" for k :: nat
proof -
  assume n: "0 < n" "k < 64"
  have "(128 + k) mod 64 = k" using n(2) by (simp add: mod_add_eq [symmetric])
  then show ?thesis using n byte_low_bits [of "128 + k" 6] by (simp add: push_byte_def push_bit_eq_mult mult.commute)
qed

lemma push_lead: "k < 256 \<Longrightarrow> n \<le> 0 \<Longrightarrow> push_byte v n (char_of k) = (of_nat (k mod 2 ^ nat (7 - utf8_follow (char_of k))), utf8_follow (char_of k))" for k :: nat
  by (simp add: push_byte_def byte_low_bits)

lemma bits_of_scalar:
  fixes k :: nat
  shows "k < 2048 \<Longrightarrow> of_nat ((192 + k div 64) mod 64) * 64 + of_nat (k mod 64) = (of_nat k :: u32)"
    and "k < 65536 \<Longrightarrow> (of_nat ((224 + k div 4096) mod 32) * 64 + of_nat (k div 64 mod 64)) * 64 + of_nat (k mod 64) = (of_nat k :: u32)"
    and "k < 1114112 \<Longrightarrow> ((of_nat ((240 + k div 262144) mod 16) * 64 + of_nat (k div 4096 mod 64)) * 64 + of_nat (k div 64 mod 64)) * 64
      + of_nat (k mod 64) = (of_nat k :: u32)"
proof -
  have q: "k div 4096 = k div 64 div 64" "k div 262144 = k div 64 div 64 div 64" by (simp_all add: div_mult2_eq [symmetric])
  have "k < 2048 \<Longrightarrow> (192 + k div 64) mod 64 = k div 64" by (simp add: mod_add_eq [symmetric, of 192])
  then have n: "k < 2048 \<Longrightarrow> ((192 + k div 64) mod 64) * 64 + k mod 64 = k" by (simp only: div_mult_mod_eq)
  have "k < 65536 \<Longrightarrow> (224 + k div 4096) mod 32 = k div 4096" by (simp add: mod_add_eq [symmetric, of 224])
  then have m: "k < 65536 \<Longrightarrow> (((224 + k div 4096) mod 32) * 64 + k div 64 mod 64) * 64 + k mod 64 = k"
    by (simp only: q div_mult_mod_eq)
  have "k < 1114112 \<Longrightarrow> (240 + k div 262144) mod 16 = k div 262144" by (simp add: mod_add_eq [symmetric, of 240])
  then have l: "k < 1114112 \<Longrightarrow> ((((240 + k div 262144) mod 16) * 64 + k div 4096 mod 64) * 64 + k div 64 mod 64) * 64 + k mod 64 = k"
    by (simp only: q div_mult_mod_eq)
  have w: "of_nat a * 64 + of_nat b = (of_nat (a * 64 + b) :: u32)" for a b by simp
  show "k < 2048 \<Longrightarrow> of_nat ((192 + k div 64) mod 64) * 64 + of_nat (k mod 64) = (of_nat k :: u32)"
    unfolding w using n by simp
  show "k < 65536 \<Longrightarrow> (of_nat ((224 + k div 4096) mod 32) * 64 + of_nat (k div 64 mod 64)) * 64 + of_nat (k mod 64) = (of_nat k :: u32)"
    unfolding w using m by simp
  show "k < 1114112 \<Longrightarrow> ((of_nat ((240 + k div 262144) mod 16) * 64 + of_nat (k div 4096 mod 64)) * 64 + of_nat (k div 64 mod 64)) * 64
      + of_nat (k mod 64) = (of_nat k :: u32)"
    unfolding w using l by simp
qed

lemma bytes_decode_char:
  assumes "scalar k" "n \<le> 0"
  shows "\<exists>v'. bytes_decode (v, n) (utf8_encode k) = ([of_nat k], v', 0)"
    and "utf8_ok n (utf8_encode k)"
proof -
  have b: "k < 2048 \<Longrightarrow> 192 + k div 64 < 224" "k < 65536 \<Longrightarrow> 224 + k div 4096 < 240" "240 + k div 262144 < 256"
    using assms(1) by (auto simp: scalar_def)
  note lead = push_lead follow_lead push_cont
  consider "k < 128" | "128 \<le> k" "k < 2048" | "2048 \<le> k" "k < 65536" | "65536 \<le> k" "k < 1114112"
    using assms(1) unfolding scalar_def by linarith
  then show "\<exists>v'. bytes_decode (v, n) (utf8_encode k) = ([of_nat k], v', 0)"
  proof cases
    case 1
    then show ?thesis using assms by (simp add: utf8_encode_def lead)
  next
    case 2
    then show ?thesis using assms(2) b(1) bits_of_scalar(1) [of k] by (simp add: utf8_encode_def lead)
  next
    case 3
    then show ?thesis using assms(2) b(2) bits_of_scalar(2) [of k] by (simp add: utf8_encode_def lead)
  next
    case 4
    then show ?thesis using assms(2) b(3) bits_of_scalar(3) [of k] by (simp add: utf8_encode_def lead)
  qed
  show "utf8_ok n (utf8_encode k)"
    using assms b
    by (auto simp add: utf8_encode_def scalar_def char_of_nonzero follow_lead cont_byte_char)
qed

lemma bytes_decode_text:
  assumes "list_all scalar cs" "n \<le> 0"
  shows "utf8_ok n (concat (map utf8_encode cs)) \<and> (\<exists>v' n'. n' \<le> 0 \<and> (n = 0 \<longrightarrow> n' = 0) \<and> bytes_decode (v, n) (concat (map utf8_encode cs)) = (map of_nat cs, v', n'))"
  using assms
proof (induction cs arbitrary: v n)
  case (Cons k cs)
  then obtain v' where k: "bytes_decode (v, n) (utf8_encode k) = ([of_nat k], v', 0)" "utf8_ok n (utf8_encode k)"
    using bytes_decode_char(1) [of k n v] bytes_decode_char(2) [of k n] by auto
  from Cons.IH [of 0 v'] Cons.prems(1) k show ?case
    by (auto simp: utf8_ok_append [where v = v] bytes_decode_append)
qed auto

lemma bytes_decode_nonneg: "utf8_ok n s \<Longrightarrow> 0 \<le> n \<Longrightarrow> 0 \<le> snd (snd (bytes_decode (v, n) s))"
proof (induction s arbitrary: v n)
  case (Cons c s)
  then show ?case
    using Cons.IH [of "snd (push_byte v n c)" "fst (push_byte v n c)"]
    by (auto simp: push_byte_def case_prod_beta split: if_splits)
qed simp

text \<open>What the grammar engine feeds on when the pieces of a text arrive one after the other.\<close>

fun decode_pieces :: "llama_partial_utf8 \<Rightarrow> string list \<Rightarrow> u32 list \<times> llama_partial_utf8" where
  "decode_pieces p [] = ([], p)"
| "decode_pieces p (s # ss) =
     (let (cps, p') = decode_utf8 s p; (ds, q) = decode_pieces p' ss in (butlast cps @ ds, q))"

lemma decode_pieces_eq:
  assumes "utf8_ok (pu_remain p) (concat ss)" "0 \<le> pu_remain p"
  shows "decode_pieces p ss =
    (let (cs, v, n) = bytes_decode (pu_value p, pu_remain p) (concat ss) in (cs, \<lparr>pu_value = v, pu_remain = n\<rparr>))"
  using assms
proof (induction ss arbitrary: p)
  case (Cons s ss)
  obtain cs v n where b: "bytes_decode (pu_value p, pu_remain p) s = (cs, v, n)" by (metis prod_cases3)
  from Cons.prems have ok: "utf8_ok (pu_remain p) s" "utf8_ok n (concat ss)" "0 \<le> n"
    using bytes_decode_nonneg [of "pu_remain p" s "pu_value p"] by (auto simp: utf8_ok_append [where v = "pu_value p"] b)
  have "decode_utf8 s p = (cs @ [0], \<lparr>pu_value = v, pu_remain = n\<rparr>)"
    using decode_utf8_eq [OF ok(1) Cons.prems(2)] by (simp add: b)
  then show ?case using Cons.IH [of "\<lparr>pu_value = v, pu_remain = n\<rparr>"] ok
    by (simp add: bytes_decode_append b case_prod_beta Let_def)
qed simp

lemma pieces_decoded:
  assumes "concat pieces = concat (map utf8_encode cs)" and "list_all scalar cs" and "pu_remain p = 0"
  shows "fst (decode_pieces p pieces) = map of_nat cs \<and> pu_remain (snd (decode_pieces p pieces)) = 0"
  using bytes_decode_text [OF assms(2), of 0 "pu_value p"] decode_pieces_eq [of p pieces] assms(1,3) by auto

section \<open>Properties\<close>

text \<open>
  Decoding does not depend on how a text is cut into pieces: whatever the pieces, even inside
  a character, the code points read are those the text encodes, and no byte is left over.
\<close>

theorem utf8_pieces_decode:
  assumes "concat pieces = concat (map utf8_encode cs)" and "list_all scalar cs" and "pu_remain p = 0"
  shows "fst (decode_pieces p pieces) = map of_nat cs \<and> pu_remain (snd (decode_pieces p pieces)) = 0"
  using pieces_decoded [OF assms] .

lemma utf8_pieces_decode_witness:
  "fst (decode_pieces \<lparr>pu_value = 0, pu_remain = 0\<rparr> [[CHR 0xE2, CHR 0x82], [CHR 0xAC, CHR ''x'']]) = [8364, 120]"
proof -
  have "concat [[CHR 0xE2, CHR 0x82], [CHR 0xAC, CHR ''x'']] = concat (map utf8_encode [8364, 120])"
    by (simp add: utf8_encode_def char_of_def bit_Suc_0_iff)
  from utf8_pieces_decode [OF this] show ?thesis by (simp add: scalar_def)
qed

end
