(* ===== verification/Grammar_Text.thy ===== *)
theory Grammar_Text
  imports Grammar_Utf8
begin

text \<open>
  The lexical helpers of the grammar parser (\<open>src/llama-grammar.cpp\<close>): white space and comments,
  names, integers, escapes, characters and tokens. Each returns what it read and the text that is
  left, or the message of the exception.
\<close>

section \<open>Lexical helpers\<close>

definition is_digit_char :: "char \<Rightarrow> bool" where
  "is_digit_char c \<longleftrightarrow> CHR ''0'' \<le> c \<and> c \<le> CHR ''9''"

definition is_word_char :: "char \<Rightarrow> bool" where
  "is_word_char c \<longleftrightarrow> (CHR ''a'' \<le> c \<and> c \<le> CHR ''z'') \<or> (CHR ''A'' \<le> c \<and> c \<le> CHR ''Z'') \<or> c = CHR ''-'' \<or> is_digit_char c"

definition hex_digit :: "char \<Rightarrow> u32 option" where
  "hex_digit c =
     (if CHR ''a'' \<le> c \<and> c \<le> CHR ''f'' then Some (byte c - byte (CHR ''a'') + 10)
      else if CHR ''A'' \<le> c \<and> c \<le> CHR ''F'' then Some (byte c - byte (CHR ''A'') + 10)
      else if CHR ''0'' \<le> c \<and> c \<le> CHR ''9'' then Some (byte c - byte (CHR ''0''))
      else None)"

text \<open>The loop of \<open>parse_hex\<close>; \<open>None\<close> when it stops before \<open>size\<close> digits.\<close>

fun hex_loop :: "nat \<Rightarrow> u32 \<Rightarrow> string \<Rightarrow> (u32 \<times> string) option" where
  "hex_loop 0 v s = Some (v, s)"
| "hex_loop (Suc k) v [] = None"
| "hex_loop (Suc k) v (c # s) = (case hex_digit c of None \<Rightarrow> None | Some d \<Rightarrow> hex_loop k (push_bit 4 v + d) s)"

definition parse_hex :: "string \<Rightarrow> nat \<Rightarrow> (u32 \<times> string) throws" where
  "parse_hex src n = (case hex_loop n 0 src of
       None \<Rightarrow> Inl (''expecting '' @ dec_nat n @ '' hex chars at '' @ src)
     | Some r \<Rightarrow> Inr r)"

definition is_newline :: "char \<Rightarrow> bool" where
  "is_newline c \<longleftrightarrow> c = CHR 0x0D \<or> c = CHR 0x0A"

text \<open>\<open>parse_space\<close>; \<open>comment\<close> tells that the loop is inside a \<open>#\<close> comment.\<close>

fun space_loop :: "bool \<Rightarrow> bool \<Rightarrow> string \<Rightarrow> string" where
  "space_loop nl comment [] = []"
| "space_loop nl True (c # s) = (if is_newline c then (if nl then space_loop nl False s else c # s) else space_loop nl True s)"
| "space_loop nl False (c # s) =
     (if c = CHR '' '' \<or> c = CHR 0x09 then space_loop nl False s
      else if c = CHR ''#'' then space_loop nl True s
      else if nl \<and> is_newline c then space_loop nl False s
      else c # s)"

definition parse_space :: "string \<Rightarrow> bool \<Rightarrow> string" where
  "parse_space src newline_ok = space_loop newline_ok False src"

definition parse_name :: "string \<Rightarrow> (string \<times> string) throws" where
  "parse_name src =
     (let pos = dropWhile is_word_char src in
      if pos = src then Inl (''expecting name at '' @ src) else Inr (takeWhile is_word_char src, pos))"

definition parse_int :: "string \<Rightarrow> (string \<times> string) throws" where
  "parse_int src =
     (let pos = dropWhile is_digit_char src in
      if pos = src then Inl (''expecting integer at '' @ src) else Inr (takeWhile is_digit_char src, pos))"

text \<open>\<open>std::stoul\<close> and \<open>std::stoull\<close> on a run of digits, for a 64-bit \<open>unsigned long\<close>.\<close>

definition stoull :: "string \<Rightarrow> string \<Rightarrow> u64 throws" where
  "stoull name ds = (if int (read_digits ds) \<ge> 2 ^ 64 then Inl name else Inr (of_nat (read_digits ds)))"

definition parse_char :: "string \<Rightarrow> (u32 \<times> string) throws" where
  "parse_char src =
     (if src = [] then Inl ''unexpected end of input''
      else if cur src = CHR 0x5C then
        (let c = cur1 src; pos = drop 2 src in
         if c = CHR ''x'' then parse_hex pos 2
         else if c = CHR ''u'' then parse_hex pos 4
         else if c = CHR ''U'' then parse_hex pos 8
         else if c = CHR ''t'' then Inr (9, pos)
         else if c = CHR ''r'' then Inr (13, pos)
         else if c = CHR ''n'' then Inr (10, pos)
         else if c = CHR 0x5C \<or> c = CHR 0x22 \<or> c = CHR ''['' \<or> c = CHR '']'' then Inr (byte c, pos)
         else Inl (''unknown escape at '' @ src))
      else Inr (decode_utf8_char src))"

text \<open>
  \<open>parse_token\<close>: \<open>vocab\<close> is the tokenizer of the vocabulary (\<open>None\<close> for a null pointer),
  which returns the tokens of a piece of text.
\<close>

definition parse_token :: "(string \<Rightarrow> u32 list) option \<Rightarrow> string \<Rightarrow> (u32 \<times> string) throws" where
  "parse_token vocab src =
     (if cur src \<noteq> CHR ''<'' then Inl (''expecting '' @ [CHR 0x27] @ ''<'' @ [CHR 0x27] @ '' at '' @ src)
      else let pos = tl src in
      if cur pos = CHR ''['' then
        ebind (parse_int (tl pos)) (\<lambda>(ds, pos).
        ebind (stoull ''stoul'' ds) (\<lambda>n.
        if cur pos \<noteq> CHR '']'' then Inl (''expecting '' @ [CHR 0x27] @ '']'' @ [CHR 0x27] @ '' at '' @ pos)
        else if cur1 pos \<noteq> CHR ''>'' then Inl (''expecting '' @ [CHR 0x27] @ ''>'' @ [CHR 0x27] @ '' at '' @ tl pos)
        else Inr (ucast n, drop 2 pos)))
      else case vocab of
        None \<Rightarrow> Inl (''no vocab to parse token at '' @ src)
      | Some tokenize \<Rightarrow>
          (let pos = dropWhile (\<lambda>c. c \<noteq> CHR ''>'') pos in
           if cur pos \<noteq> CHR ''>'' then Inl (''expecting '' @ [CHR 0x27] @ ''>'' @ [CHR 0x27] @ '' at '' @ pos)
           else let piece = takeWhile (\<lambda>c. c \<noteq> CHR ''>'') src @ ''>'' in
             case tokenize piece of
               [t] \<Rightarrow> Inr (t, tl pos)
             | _ \<Rightarrow> Inl (''invalid token '' @ [CHR 0x27] @ piece @ [CHR 0x27])))"

end
