(* ===== verification/Grammar_Parser.thy ===== *)
theory Grammar_Parser
  imports Grammar_Text Ordered_Map "HOL-Library.List_Lexorder"
begin

text \<open>
  The grammar parser (\<open>llama_grammar_parser\<close> of \<open>src/llama-grammar.h\<close> and \<open>.cpp\<close>): symbol
  table, rule table, the recursive descent over the text and the check that every rule is defined.
  The nested calls are bounded by fuel; \<open>Fuel_Out\<close> is not an outcome of the code, and
  \<open>Grammar_Parser_Proofs\<close> shows that \<open>grammar_parse\<close> never returns it.
\<close>

section \<open>Elements and rules\<close>

datatype llama_gretype = LLAMA_GRETYPE_END | LLAMA_GRETYPE_ALT | LLAMA_GRETYPE_RULE_REF
  | LLAMA_GRETYPE_CHAR | LLAMA_GRETYPE_CHAR_NOT | LLAMA_GRETYPE_CHAR_RNG_UPPER | LLAMA_GRETYPE_CHAR_ALT
  | LLAMA_GRETYPE_CHAR_ANY | LLAMA_GRETYPE_TOKEN | LLAMA_GRETYPE_TOKEN_NOT

record llama_grammar_element =
  ge_type :: llama_gretype
  ge_value :: u32

type_synonym llama_grammar_rule = "llama_grammar_element list"
type_synonym llama_grammar_rules = "llama_grammar_rule list"

abbreviation element :: "llama_gretype \<Rightarrow> u32 \<Rightarrow> llama_grammar_element" where
  "element t v \<equiv> \<lparr>ge_type = t, ge_value = v\<rparr>"

record llama_grammar_parser =
  gp_symbol_ids :: "(string \<times> u32) list"
  gp_rules :: llama_grammar_rules

definition llama_grammar_parser_new :: llama_grammar_parser where
  "llama_grammar_parser_new = \<lparr>gp_symbol_ids = [], gp_rules = []\<rparr>"

datatype parse_error = Throw string | Abort string | Fuel_Out

type_synonym 'a parses = "parse_error + 'a"

definition throwing :: "'a throws \<Rightarrow> 'a parses" where
  "throwing r = (case r of Inl e \<Rightarrow> Inl (Throw e) | Inr x \<Rightarrow> Inr x)"

section \<open>Symbols and rules\<close>

definition next_symbol_id :: "llama_grammar_parser \<Rightarrow> u32" where
  "next_symbol_id p = of_nat (length (gp_symbol_ids p))"

definition get_symbol_id :: "string \<Rightarrow> llama_grammar_parser \<Rightarrow> u32 \<times> llama_grammar_parser" where
  "get_symbol_id name p = (case map_of (gp_symbol_ids p) name of
       Some i \<Rightarrow> (i, p)
     | None \<Rightarrow> (next_symbol_id p, p\<lparr>gp_symbol_ids := om_insert name (next_symbol_id p) (gp_symbol_ids p)\<rparr>))"

definition generated_name :: "string \<Rightarrow> u32 \<Rightarrow> string" where
  "generated_name base_name next_id = base_name @ ''_'' @ dec_word next_id"

definition generate_symbol_id :: "string \<Rightarrow> llama_grammar_parser \<Rightarrow> u32 \<times> llama_grammar_parser" where
  "generate_symbol_id base_name p =
     (next_symbol_id p,
      p\<lparr>gp_symbol_ids := om_insert (generated_name base_name (next_symbol_id p)) (next_symbol_id p) (gp_symbol_ids p)\<rparr>)"

definition resize_rules :: "nat \<Rightarrow> llama_grammar_rules \<Rightarrow> llama_grammar_rules" where
  "resize_rules n rs = take n rs @ replicate (n - length rs) []"

definition add_rule :: "u32 \<Rightarrow> llama_grammar_rule \<Rightarrow> llama_grammar_parser \<Rightarrow> llama_grammar_parser" where
  "add_rule rule_id rule p =
     (let rs = (if length (gp_rules p) \<le> unat rule_id then resize_rules (unat (rule_id + 1)) (gp_rules p) else gp_rules p)
      in p\<lparr>gp_rules := rs[unat rule_id := rule]\<rparr>)"

section \<open>Repetitions\<close>

definition max_repetition_threshold :: u64 where
  "max_repetition_threshold = 2000"

definition uint64_max :: u64 where
  "uint64_max = -1"

text \<open>The loop over the optional repetitions: \<open>k\<close> rounds are left, \<open>first\<close> is \<open>i == 0\<close>.\<close>

fun opt_loop :: "string \<Rightarrow> llama_grammar_rule \<Rightarrow> bool \<Rightarrow> bool \<Rightarrow> nat \<Rightarrow> u32 \<times> llama_grammar_parser \<Rightarrow> u32 \<times> llama_grammar_parser" where
  "opt_loop rule_name prev_rule no_max first 0 (last_id, p) = (last_id, p)"
| "opt_loop rule_name prev_rule no_max first (Suc k) (last_id, p) =
     (let (rec_id, p) = generate_symbol_id rule_name p;
          ref = (if \<not> first \<or> no_max then [element LLAMA_GRETYPE_RULE_REF (if no_max then rec_id else last_id)] else []);
          rec_rule = prev_rule @ ref @ [element LLAMA_GRETYPE_ALT 0, element LLAMA_GRETYPE_END 0]
      in opt_loop rule_name prev_rule no_max False k (rec_id, add_rule rec_id rec_rule p))"

text \<open>The locals of \<open>parse_sequence\<close>.\<close>

record sequence_state =
  sq_pos :: string
  sq_rule :: llama_grammar_rule
  sq_last :: nat
  sq_nprev :: u64

definition handle_repetitions ::
  "string \<Rightarrow> u64 \<Rightarrow> u64 \<Rightarrow> sequence_state \<Rightarrow> llama_grammar_parser \<Rightarrow> (sequence_state \<times> llama_grammar_parser) parses" where
  "handle_repetitions rule_name min_times max_times q p =
     (let no_max = (max_times = uint64_max) in
      if sq_last q = length (sq_rule q)
      then Inl (Throw (''expecting preceding item to */+/?/{ at '' @ sq_pos q))
      else
        let prev_rule = drop (sq_last q) (sq_rule q);
            total_rules = (if \<not> no_max \<and> max_times > 0 then max_times else if min_times > 0 then min_times else 1) in
        if sq_nprev q * total_rules \<ge> max_repetition_threshold
        then Inl (Throw ''number of rules that are going to be repeated multiplied by the new repetition exceeds sane defaults, please reduce the number of repetitions or rule complexity'')
        else
          let rule = (if min_times = 0 then take (sq_last q) (sq_rule q)
                      else sq_rule q @ concat (replicate (unat min_times - 1) prev_rule));
              n_opt = (if no_max then 1 else max_times - min_times);
              (last_id, p) = opt_loop rule_name prev_rule no_max True (unat n_opt) (0, p);
              rule = (if n_opt > 0 then rule @ [element LLAMA_GRETYPE_RULE_REF last_id] else rule);
              n_prev = sq_nprev q * total_rules
          in if n_prev \<ge> 1 then Inr (q\<lparr>sq_rule := rule, sq_nprev := n_prev\<rparr>, p)
             else Inl (Abort ''n_prev_rules >= 1''))"

section \<open>Literals and character classes\<close>

lemma hex_loop_length: "hex_loop n v s = Some (w, t) \<Longrightarrow> length t \<le> length s"
  by (induction n v s rule: hex_loop.induct) (auto split: option.splits)

lemma utf8_tail_length: "length (snd (utf8_tail n v s)) \<le> length s"
  by (induction n v s rule: utf8_tail.induct) auto

lemma parse_char_shorter: "parse_char s = Inr (v, t) \<Longrightarrow> length t < length s"
proof -
  assume p: "parse_char s = Inr (v, t)"
  then have ne: "s \<noteq> []" by (auto simp: parse_char_def)
  have hex: "parse_hex u n = Inr (v, t) \<Longrightarrow> length t \<le> length u" for u n
    by (auto simp: parse_hex_def split: option.splits dest: hex_loop_length)
  show ?thesis
  proof (cases "cur s = CHR 0x5C")
    case True
    then have "tl s \<noteq> [] \<or> (v, t) \<in> {}" using p ne
      by (cases s) (auto simp: parse_char_def cur1_def cur_def split: list.splits)
    then have "length (drop 2 s) < length s" using ne by (cases s) auto
    moreover have "length t \<le> length (drop 2 s)"
      using p ne True hex [of "drop 2 s"] by (auto simp: parse_char_def Let_def split: if_splits)
    ultimately show ?thesis by linarith
  next
    case False
    then have "t = snd (decode_utf8_char s)" using p ne by (auto simp: parse_char_def)
    then have "length t \<le> length (tl s)" unfolding decode_utf8_char_def Let_def by (simp only: utf8_tail_length)
    then show ?thesis using ne by (cases s) auto
  qed
qed

function literal_loop :: "string \<Rightarrow> llama_grammar_rule \<Rightarrow> (string \<times> llama_grammar_rule) throws" where
  "literal_loop pos rule =
     (if cur pos = CHR 0x22 then Inr (pos, rule)
      else if pos = [] then Inl ''unexpected end of input''
      else case parse_char pos of
        Inl e \<Rightarrow> Inl e
      | Inr (c, pos') \<Rightarrow> literal_loop pos' (rule @ [element LLAMA_GRETYPE_CHAR c]))"
  by pat_completeness auto
termination
  by (relation "measure (\<lambda>(pos, _). length pos)") (auto dest: parse_char_shorter)

declare literal_loop.simps [simp del]

text \<open>
  One round of the loop over a character class reads a character and, after a dash that does not
  close the class, the upper end of a range.
\<close>

definition class_item :: "llama_gretype \<Rightarrow> string \<Rightarrow> (string \<times> llama_grammar_rule) throws" where
  "class_item t pos =
     ebind (parse_char pos) (\<lambda>(c, pos).
       if cur pos = CHR ''-'' \<and> cur1 pos \<noteq> CHR '']'' then
         if tl pos = [] then Inl ''unexpected end of input''
         else ebind (parse_char (tl pos)) (\<lambda>(d, pos).
           Inr (pos, [element t c, element LLAMA_GRETYPE_CHAR_RNG_UPPER d]))
       else Inr (pos, [element t c]))"

lemma class_item_shorter: "class_item t pos = Inr (pos', es) \<Longrightarrow> length pos' < length pos"
  by (auto simp: class_item_def ebind_Inr_iff split: if_splits dest!: parse_char_shorter)

function class_loop :: "llama_gretype \<Rightarrow> nat \<Rightarrow> string \<Rightarrow> llama_grammar_rule \<Rightarrow> (string \<times> llama_grammar_rule) throws" where
  "class_loop start_type last_sym_start pos rule =
     (if cur pos = CHR '']'' then Inr (pos, rule)
      else if pos = [] then Inl ''unexpected end of input''
      else case class_item (if last_sym_start < length rule then LLAMA_GRETYPE_CHAR_ALT else start_type) pos of
        Inl e \<Rightarrow> Inl e
      | Inr (pos', es) \<Rightarrow> class_loop start_type last_sym_start pos' (rule @ es))"
  by pat_completeness auto
termination
  by (relation "measure (\<lambda>(_, _, pos, _). length pos)") (auto dest: class_item_shorter)

declare class_loop.simps [simp del]

section \<open>Sequences and alternates\<close>

definition seq_char :: "string \<Rightarrow> string" where
  "seq_char c = [CHR 0x27] @ c @ [CHR 0x27]"

text \<open>The repetition in braces: the bounds and the text after the closing brace.\<close>

definition brace_bounds :: "bool \<Rightarrow> string \<Rightarrow> (u64 \<times> u64 \<times> string) throws" where
  "brace_bounds is_nested pos =
     (if \<not> is_digit_char (cur pos) then Inl (''expecting an int at '' @ pos)
      else
        ebind (parse_int pos) (\<lambda>(ds, int_end).
        ebind (stoull ''stoull'' ds) (\<lambda>min_times.
        let pos = parse_space int_end is_nested in
        ebind
          (if cur pos = CHR ''}'' then Inr (min_times, parse_space (tl pos) is_nested)
           else if cur pos = CHR '','' then
             (let pos = parse_space (tl pos) is_nested in
              ebind
                (if is_digit_char (cur pos)
                 then ebind (parse_int pos) (\<lambda>(ds, int_end).
                      ebind (stoull ''stoull'' ds) (\<lambda>max_times. Inr (max_times, parse_space int_end is_nested)))
                 else Inr (uint64_max, pos))
                (\<lambda>(max_times, pos).
                  if cur pos \<noteq> CHR ''}'' then Inl (''expecting '' @ seq_char ''}'' @ '' at '' @ pos)
                  else Inr (max_times, parse_space (tl pos) is_nested)))
           else Inl (''expecting '' @ seq_char '','' @ '' at '' @ pos))
          (\<lambda>(max_times, pos).
            if min_times > max_repetition_threshold \<or> (max_times \<noteq> uint64_max \<and> max_times > max_repetition_threshold)
            then Inl ''number of repetitions exceeds sane defaults, please reduce the number of repetitions''
            else Inr (min_times, max_times, pos)))))"

text \<open>
  One item of a sequence other than a group; \<open>None\<close> is the \<open>break\<close>. \<open>push_symbol\<close> are the
  assignments every symbol shares.
\<close>

definition push_symbol :: "llama_grammar_rule \<Rightarrow> string \<Rightarrow> sequence_state \<Rightarrow> sequence_state" where
  "push_symbol es pos q = \<lparr>sq_pos = pos, sq_rule = sq_rule q @ es, sq_last = length (sq_rule q), sq_nprev = 1\<rparr>"

definition sequence_item ::
  "(string \<Rightarrow> u32 list) option \<Rightarrow> string \<Rightarrow> bool \<Rightarrow> sequence_state \<Rightarrow> llama_grammar_parser \<Rightarrow> (sequence_state \<times> llama_grammar_parser) option parses" where
  "sequence_item vocab rule_name is_nested q p =
     (let pos = sq_pos q; c = cur pos; rule = sq_rule q in
      if c = CHR 0x22 then
        ebind (throwing (literal_loop (tl pos) rule)) (\<lambda>(pos, rule').
          Inr (Some (\<lparr>sq_pos = parse_space (tl pos) is_nested, sq_rule = rule', sq_last = length rule, sq_nprev = 1\<rparr>, p)))
      else if c = CHR ''['' then
        (let (start_type, pos) = (if cur1 pos = CHR ''^'' then (LLAMA_GRETYPE_CHAR_NOT, drop 2 pos) else (LLAMA_GRETYPE_CHAR, tl pos)) in
         ebind (throwing (class_loop start_type (length rule) pos rule)) (\<lambda>(pos, rule').
           Inr (Some (\<lparr>sq_pos = parse_space (tl pos) is_nested, sq_rule = rule', sq_last = length rule, sq_nprev = 1\<rparr>, p))))
      else if c = CHR ''<'' \<or> c = CHR ''!'' then
        (let (t, pos) = (if c = CHR ''!'' then (LLAMA_GRETYPE_TOKEN_NOT, tl pos) else (LLAMA_GRETYPE_TOKEN, pos)) in
         ebind (throwing (parse_token vocab pos)) (\<lambda>(v, token_end).
           Inr (Some (push_symbol [element t v] (parse_space token_end is_nested) q, p))))
      else if is_word_char c then
        ebind (throwing (parse_name pos)) (\<lambda>(name, name_end).
          let (ref_rule_id, p) = get_symbol_id name p in
          Inr (Some (push_symbol [element LLAMA_GRETYPE_RULE_REF ref_rule_id] (parse_space name_end is_nested) q, p)))
      else if c = CHR ''.'' then
        Inr (Some (push_symbol [element LLAMA_GRETYPE_CHAR_ANY 0] (parse_space (tl pos) is_nested) q, p))
      else if c = CHR ''*'' \<or> c = CHR ''+'' \<or> c = CHR ''?'' then
        (let q = q\<lparr>sq_pos := parse_space (tl pos) is_nested\<rparr> in
         ebind (handle_repetitions rule_name (if c = CHR ''+'' then 1 else 0) (if c = CHR ''?'' then 1 else uint64_max) q p)
           (\<lambda>qp. Inr (Some qp)))
      else if c = CHR ''{'' then
        ebind (throwing (brace_bounds is_nested (parse_space (tl pos) is_nested))) (\<lambda>(min_times, max_times, pos).
          ebind (handle_repetitions rule_name min_times max_times (q\<lparr>sq_pos := pos\<rparr>) p) (\<lambda>qp. Inr (Some qp)))
      else Inr None)"

definition start_sequence :: "string \<Rightarrow> llama_grammar_rule \<Rightarrow> sequence_state" where
  "start_sequence pos rule = \<lparr>sq_pos = pos, sq_rule = rule, sq_last = length rule, sq_nprev = 1\<rparr>"

text \<open>
  \<open>sequence_loop\<close> is the loop of \<open>parse_sequence\<close>, \<open>alternates_loop\<close> that of
  \<open>parse_alternates\<close>.
\<close>

fun parse_alternates ::
    "nat \<Rightarrow> (string \<Rightarrow> u32 list) option \<Rightarrow> string \<Rightarrow> bool \<Rightarrow> string \<Rightarrow> u32 \<Rightarrow> llama_grammar_parser \<Rightarrow> (string \<times> llama_grammar_parser) parses"
  and alternates_loop ::
    "nat \<Rightarrow> (string \<Rightarrow> u32 list) option \<Rightarrow> string \<Rightarrow> bool \<Rightarrow> sequence_state \<Rightarrow> llama_grammar_parser \<Rightarrow> (sequence_state \<times> llama_grammar_parser) parses"
  and sequence_loop ::
    "nat \<Rightarrow> (string \<Rightarrow> u32 list) option \<Rightarrow> string \<Rightarrow> bool \<Rightarrow> sequence_state \<Rightarrow> llama_grammar_parser \<Rightarrow> (sequence_state \<times> llama_grammar_parser) parses"
where
  "parse_alternates 0 vocab rule_name is_nested src rule_id p = Inl Fuel_Out"
| "parse_alternates (Suc f) vocab rule_name is_nested src rule_id p =
     ebind (sequence_loop f vocab rule_name is_nested (start_sequence src []) p) (\<lambda>(q, p).
     ebind (alternates_loop f vocab rule_name is_nested q p) (\<lambda>(q, p).
       Inr (sq_pos q, add_rule rule_id (sq_rule q @ [element LLAMA_GRETYPE_END 0]) p)))"
| "alternates_loop 0 vocab rule_name is_nested q p = Inl Fuel_Out"
| "alternates_loop (Suc f) vocab rule_name is_nested q p =
     (if cur (sq_pos q) = CHR ''|''
      then ebind (sequence_loop f vocab rule_name is_nested
                   (start_sequence (parse_space (tl (sq_pos q)) True) (sq_rule q @ [element LLAMA_GRETYPE_ALT 0])) p)
             (\<lambda>(q, p). alternates_loop f vocab rule_name is_nested q p)
      else Inr (q, p))"
| "sequence_loop 0 vocab rule_name is_nested q p = Inl Fuel_Out"
| "sequence_loop (Suc f) vocab rule_name is_nested q p =
     (if sq_pos q = [] then Inr (q, p)
      else if cur (sq_pos q) = CHR ''('' then
        (let pos = parse_space (tl (sq_pos q)) True;
             n_rules_before = next_symbol_id p;
             (sub_rule_id, p) = generate_symbol_id rule_name p in
         ebind (parse_alternates f vocab rule_name True pos sub_rule_id p) (\<lambda>(pos, p).
           if cur pos \<noteq> CHR '')'' then Inl (Throw (''expecting '' @ seq_char '')'' @ '' at '' @ pos))
           else sequence_loop f vocab rule_name is_nested
             \<lparr>sq_pos = parse_space (tl pos) is_nested,
              sq_rule = sq_rule q @ [element LLAMA_GRETYPE_RULE_REF sub_rule_id],
              sq_last = length (sq_rule q),
              sq_nprev = ucast (max 1 (next_symbol_id p - n_rules_before))\<rparr> p))
      else
        ebind (sequence_item vocab rule_name is_nested q p) (\<lambda>r. case r of
          None \<Rightarrow> Inr (q, p)
        | Some (q, p) \<Rightarrow> sequence_loop f vocab rule_name is_nested q p))"

section \<open>Rules and the whole grammar\<close>

definition seq_fuel :: "string \<Rightarrow> nat" where
  "seq_fuel src = 2 * length src + 3"

definition parse_rule :: "(string \<Rightarrow> u32 list) option \<Rightarrow> string \<Rightarrow> llama_grammar_parser \<Rightarrow> (string \<times> llama_grammar_parser) parses" where
  "parse_rule vocab src p =
     ebind (throwing (parse_name src)) (\<lambda>(name, name_end).
     let pos = parse_space name_end False; (rule_id, p) = get_symbol_id name p in
     if take 3 pos \<noteq> ''::='' then Inl (Throw (''expecting ::= at '' @ pos))
     else
       let pos = parse_space (drop 3 pos) True in
       ebind (parse_alternates (seq_fuel pos) vocab name False pos rule_id p) (\<lambda>(pos, p).
         if cur pos = CHR 0x0D then Inr (parse_space (drop (if cur1 pos = CHR 0x0A then 2 else 1) pos) True, p)
         else if cur pos = CHR 0x0A then Inr (parse_space (tl pos) True, p)
         else if pos \<noteq> [] then Inl (Throw (''expecting newline or end at '' @ pos))
         else Inr (parse_space pos True, p)))"

fun rules_loop :: "nat \<Rightarrow> (string \<Rightarrow> u32 list) option \<Rightarrow> string \<Rightarrow> llama_grammar_parser \<Rightarrow> llama_grammar_parser parses" where
  "rules_loop 0 vocab pos p = Inl Fuel_Out"
| "rules_loop (Suc f) vocab pos p =
     (if pos = [] then Inr p
      else ebind (parse_rule vocab pos p) (\<lambda>(pos, p). rules_loop f vocab pos p))"

text \<open>The check that every rule is defined; the first error found, if any.\<close>

definition undefined_ref :: "llama_grammar_parser \<Rightarrow> llama_grammar_element \<Rightarrow> string option" where
  "undefined_ref p e =
     (if ge_type e = LLAMA_GRETYPE_RULE_REF
         \<and> (unat (ge_value e) \<ge> length (gp_rules p) \<or> gp_rules p ! unat (ge_value e) = [])
      then map_option (\<lambda>kv. ''Undefined rule identifier '' @ seq_char (fst kv)) (find (\<lambda>kv. snd kv = ge_value e) (gp_symbol_ids p))
      else None)"

definition check_rule :: "llama_grammar_parser \<Rightarrow> llama_grammar_rule \<Rightarrow> string option" where
  "check_rule p rule =
     (if rule = [] then Some ''Undefined rule''
      else case List.map_filter (undefined_ref p) rule of [] \<Rightarrow> None | e # _ \<Rightarrow> Some e)"

definition check_rules :: "llama_grammar_parser \<Rightarrow> unit parses" where
  "check_rules p = (case List.map_filter (check_rule p) (gp_rules p) of [] \<Rightarrow> Inr () | e # _ \<Rightarrow> Inl (Throw e))"

text \<open>The \<open>try\<close> block of \<open>parse\<close>.\<close>

definition grammar_parse :: "(string \<Rightarrow> u32 list) option \<Rightarrow> string \<Rightarrow> llama_grammar_parser \<Rightarrow> llama_grammar_parser parses" where
  "grammar_parse vocab src p =
     (let pos = parse_space src True in
      ebind (rules_loop (length pos + 1) vocab pos p) (\<lambda>p. ebind (check_rules p) (\<lambda>_. Inr p)))"

text \<open>
  \<open>parse\<close>: \<open>None\<close> is the result false, after which \<open>rules\<close> is empty (the symbol table it
  leaves is not read by the callers). An assertion that fails ends the process.
\<close>

definition llama_grammar_parser_parse ::
  "(string \<Rightarrow> u32 list) option \<Rightarrow> string \<Rightarrow> llama_grammar_parser \<Rightarrow> llama_grammar_parser option parses" where
  "llama_grammar_parser_parse vocab src p = (case grammar_parse vocab (c_str src) p of
       Inr p \<Rightarrow> Inr (Some p)
     | Inl (Throw e) \<Rightarrow> Inr None
     | Inl e \<Rightarrow> Inl e)"

end
