(* ===== verification/Grammar_Parser_Proofs.thy ===== *)
theory Grammar_Parser_Proofs
  imports Grammar_Parser
begin

text \<open>
  Lemmas on the grammar parser: it always ends without a failed assertion, and a grammar it
  accepts is closed and well formed.
\<close>

section \<open>The parser ends\<close>

text \<open>Neither out of fuel nor a failed assertion.\<close>

definition no_fault :: "'a parses \<Rightarrow> bool" where
  "no_fault r \<longleftrightarrow> (\<forall>e. r = Inl e \<longrightarrow> (\<exists>m. e = Throw m))"

named_theorems no_fault_intros

lemma no_fault_basic [simp]: "no_fault (Inr x)" "no_fault (Inl (Throw m))" "no_fault (throwing r)"
  by (auto simp: no_fault_def throwing_def split: sum.splits)

lemma no_fault_bad [simp]: "\<not> no_fault (Inl Fuel_Out)" "\<not> no_fault (Inl (Abort m))"
  by (auto simp: no_fault_def)

lemma no_fault_ebind [no_fault_intros]:
  "no_fault r \<Longrightarrow> (\<And>x. r = Inr x \<Longrightarrow> no_fault (f x)) \<Longrightarrow> no_fault (ebind r f)"
  by (cases r) (auto simp: no_fault_def)

lemma throwing_Inr_iff [simp]: "throwing r = Inr x \<longleftrightarrow> r = Inr x"
  by (auto simp: throwing_def split: sum.splits)

lemma space_loop_length: "length (space_loop nl c s) \<le> length s"
  by (induction nl c s rule: space_loop.induct) auto

lemma parse_space_length: "length (parse_space s nl) \<le> length s"
  by (simp add: parse_space_def space_loop_length)

lemma parse_space_tl: "s \<noteq> [] \<Longrightarrow> length (parse_space (tl s) nl) < length s"
  using parse_space_length [of "tl s" nl] by (cases s) auto

lemma dropWhile_shorter: "dropWhile P s \<noteq> s \<Longrightarrow> length (dropWhile P s) < length s"
  by (cases s) (auto simp: le_imp_less_Suc length_dropWhile_le split: if_splits)

lemma parse_name_length: "parse_name s = Inr (n, t) \<Longrightarrow> length t < length s"
  by (auto simp: parse_name_def Let_def dropWhile_shorter split: if_splits)

lemma parse_int_length: "parse_int s = Inr (n, t) \<Longrightarrow> length t < length s"
  by (auto simp: parse_int_def Let_def dropWhile_shorter split: if_splits)

lemma literal_loop_length: "literal_loop pos rule = Inr (pos', rule') \<Longrightarrow> length pos' \<le> length pos \<and> pos' \<noteq> []"
proof (induction pos rule rule: literal_loop.induct)
  case (1 pos rule)
  show ?case
  proof (cases "cur pos = CHR 0x22 \<or> pos = []")
    case True
    then show ?thesis using "1.prems" by (auto simp: literal_loop.simps [of pos] cur_def split: if_splits)
  next
    case False
    with "1.prems" obtain c t where t: "parse_char pos = Inr (c, t)" "literal_loop t (rule @ [element LLAMA_GRETYPE_CHAR c]) = Inr (pos', rule')"
      by (auto simp: literal_loop.simps [of pos] split: sum.splits)
    with "1.IH" [OF _ _ t(1) refl] parse_char_shorter [OF t(1)] False show ?thesis by auto
  qed
qed

lemma class_loop_length: "class_loop t n pos rule = Inr (pos', rule') \<Longrightarrow> length pos' \<le> length pos \<and> pos' \<noteq> []"
proof (induction t n pos rule rule: class_loop.induct)
  case (1 t n pos rule)
  show ?case
  proof (cases "cur pos = CHR '']'' \<or> pos = []")
    case True
    then show ?thesis using "1.prems" by (auto simp: class_loop.simps [of _ _ pos] cur_def split: if_splits)
  next
    case False
    with "1.prems" obtain u es where u: "class_item (if n < length rule then LLAMA_GRETYPE_CHAR_ALT else t) pos = Inr (u, es)" "class_loop t n u (rule @ es) = Inr (pos', rule')"
      by (auto simp: class_loop.simps [of _ _ pos] split: sum.splits)
    with "1.IH" [OF _ _ u(1) refl] class_item_shorter [OF u(1)] False show ?thesis by auto
  qed
qed

lemma parse_token_length: "parse_token v pos = Inr (t, rest) \<Longrightarrow> length rest < length pos"
proof -
  assume p: "parse_token v pos = Inr (t, rest)"
  then have ne: "cur pos = CHR ''<''" "pos \<noteq> []" by (auto simp: parse_token_def cur_def split: if_splits)
  have d: "length (tl (dropWhile P (tl pos))) < length pos" for P
    using length_dropWhile_le [of P "tl pos"] ne(2) by (cases pos) auto
  show ?thesis
  proof (cases "cur (tl pos) = CHR ''[''")
    case True
    with p ne obtain ds q where q: "parse_int (tl (tl pos)) = Inr (ds, q)" "rest = drop 2 q"
      by (auto simp: parse_token_def Let_def ebind_Inr_iff split: if_splits)
    from parse_int_length [OF q(1)] q(2) ne(2) show ?thesis by (cases pos) auto
  next
    case False
    with p ne d [of "\<lambda>c. c \<noteq> CHR ''>''"] show ?thesis
      by (auto simp: parse_token_def Let_def split: if_splits option.splits list.splits)
  qed
qed

lemma brace_bounds_ok:
  assumes "brace_bounds nl pos = Inr (m, n, rest)"
  shows "length rest < length pos" and "m \<le> max_repetition_threshold"
    and "n = uint64_max \<or> n \<le> max_repetition_threshold"
proof -
  from assms obtain ds e where e: "parse_int pos = Inr (ds, e)"
    by (auto simp: brace_bounds_def Let_def ebind_Inr_iff split: if_splits)
  note sp = parse_space_length [of e nl] parse_space_length [of "tl (parse_space e nl)" nl]
  have tl_le: "length (tl xs) \<le> length xs" for xs :: string by simp
  have sq: "length (parse_space (tl xs) nl) \<le> length xs" for xs
    using parse_space_length [of "tl xs" nl] tl_le [of xs] by linarith
  have "length rest \<le> length (parse_space e nl)"
    using assms e sq parse_space_length
    by (auto simp: brace_bounds_def Let_def ebind_Inr_iff split: if_splits dest!: parse_int_length)
      (meson le_trans less_imp_le)+
  with parse_int_length [OF e] sp(1) show "length rest < length pos" by linarith
  show "m \<le> max_repetition_threshold" "n = uint64_max \<or> n \<le> max_repetition_threshold"
    using assms by (auto simp: brace_bounds_def Let_def ebind_Inr_iff not_less split: if_splits)
qed

text \<open>The factor \<open>n_prev_rules\<close> stays positive and small enough not to wrap.\<close>

definition nprev_ok :: "sequence_state \<Rightarrow> bool" where
  "nprev_ok q \<longleftrightarrow> 1 \<le> unat (sq_nprev q) \<and> unat (sq_nprev q) < 2 ^ 32"

lemma handle_repetitions_ok:
  assumes "nprev_ok q" and "min_times \<le> max_repetition_threshold"
    and "max_times = uint64_max \<or> max_times \<le> max_repetition_threshold"
  shows "no_fault (handle_repetitions rule_name min_times max_times q p)"
    and "handle_repetitions rule_name min_times max_times q p = Inr (q', p') \<Longrightarrow> nprev_ok q' \<and> sq_pos q' = sq_pos q"
proof -
  define total :: u64 where "total = (if max_times \<noteq> uint64_max \<and> max_times > 0 then max_times else if min_times > 0 then min_times else 1)"
  have t: "1 \<le> unat total" "unat total \<le> 2000"
    using assms(2,3) unfolding total_def max_repetition_threshold_def
    by (auto simp: word_le_nat_alt word_less_nat_alt word_gt_0 unat_gt_0 Suc_le_eq)
  have "unat (sq_nprev q) * unat total \<le> 2 ^ 32 * 2000"
    using assms(1) t(2) unfolding nprev_ok_def by (intro mult_mono) auto
  then have prod: "unat (sq_nprev q * total) = unat (sq_nprev q) * unat total" by (intro unat_mult_u64) simp
  have ge: "1 \<le> sq_nprev q * total"
    using assms(1) t(1) by (simp add: word_le_nat_alt prod nprev_ok_def)
  have small: "\<not> max_repetition_threshold \<le> sq_nprev q * total \<Longrightarrow> unat (sq_nprev q * total) < 2 ^ 32"
    by (simp add: max_repetition_threshold_def word_le_nat_alt)
  show "no_fault (handle_repetitions rule_name min_times max_times q p)"
    using ge unfolding total_def by (auto simp: handle_repetitions_def Let_def split: prod.split)
  show "nprev_ok q' \<and> sq_pos q' = sq_pos q" if "handle_repetitions rule_name min_times max_times q p = Inr (q', p')"
    using that ge small unfolding total_def
    by (auto simp: handle_repetitions_def Let_def nprev_ok_def word_le_nat_alt split: if_splits prod.splits)
qed

lemma sequence_item_cases [consumes 1, case_names literal char_class token rule_ref any repetition]:
  assumes "sequence_item vocab rule_name nl q p = Inr (Some (q', p'))"
  obtains pos rule' where "sq_pos q \<noteq> []" "literal_loop (tl (sq_pos q)) (sq_rule q) = Inr (pos, rule')" "p' = p"
      "q' = \<lparr>sq_pos = parse_space (tl pos) nl, sq_rule = rule', sq_last = length (sq_rule q), sq_nprev = 1\<rparr>"
  | t pos0 pos rule' where "t = LLAMA_GRETYPE_CHAR \<or> t = LLAMA_GRETYPE_CHAR_NOT" "length pos0 < length (sq_pos q)" "p' = p"
      "class_loop t (length (sq_rule q)) pos0 (sq_rule q) = Inr (pos, rule')"
      "q' = \<lparr>sq_pos = parse_space (tl pos) nl, sq_rule = rule', sq_last = length (sq_rule q), sq_nprev = 1\<rparr>"
  | t pos0 v rest where "t = LLAMA_GRETYPE_TOKEN \<or> t = LLAMA_GRETYPE_TOKEN_NOT" "length pos0 \<le> length (sq_pos q)" "p' = p"
      "parse_token vocab pos0 = Inr (v, rest)" "q' = push_symbol [element t v] (parse_space rest nl) q"
  | name rest i where "parse_name (sq_pos q) = Inr (name, rest)" "get_symbol_id name p = (i, p')"
      "q' = push_symbol [element LLAMA_GRETYPE_RULE_REF i] (parse_space rest nl) q"
  | "sq_pos q \<noteq> []" "p' = p" "q' = push_symbol [element LLAMA_GRETYPE_CHAR_ANY 0] (parse_space (tl (sq_pos q)) nl) q"
  | m n pos where "length pos < length (sq_pos q)" "m \<le> max_repetition_threshold" "n = uint64_max \<or> n \<le> max_repetition_threshold"
      "handle_repetitions rule_name m n (q\<lparr>sq_pos := pos\<rparr>) p = Inr (q', p')"
proof -
  let ?c = "cur (sq_pos q)"
  have ne: "?c \<noteq> CHR 0x00 \<Longrightarrow> sq_pos q \<noteq> []" by (auto simp: cur_def)
  have tl_less: "?c \<noteq> CHR 0x00 \<Longrightarrow> length (tl (sq_pos q)) < length (sq_pos q)" using ne by (cases "sq_pos q") auto
  have drop_less: "?c \<noteq> CHR 0x00 \<Longrightarrow> length (drop 2 (sq_pos q)) < length (sq_pos q)" using ne by (cases "sq_pos q") auto
  have sp: "?c \<noteq> CHR 0x00 \<Longrightarrow> length (parse_space (tl (sq_pos q)) nl) < length (sq_pos q)" using parse_space_tl ne by blast
  have thr: "1 \<le> max_repetition_threshold" by (simp add: max_repetition_threshold_def)
  consider "?c = CHR 0x22" | "?c = CHR ''[''" | "?c = CHR ''<'' \<or> ?c = CHR ''!''"
    | "?c \<noteq> CHR 0x22" "?c \<noteq> CHR ''[''" "?c \<noteq> CHR ''<''" "?c \<noteq> CHR ''!''" "is_word_char ?c"
    | "?c = CHR ''.''" "\<not> is_word_char ?c" | "?c = CHR ''*'' \<or> ?c = CHR ''+'' \<or> ?c = CHR ''?''" "\<not> is_word_char ?c"
    | "?c = CHR ''{''" "\<not> is_word_char ?c"
    using assms by (auto simp: sequence_item_def Let_def split: if_splits)
  then show thesis
  proof cases
    case 1
    with assms ne that(1) show thesis by (auto simp: sequence_item_def Let_def ebind_Inr_iff)
  next
    case 2
    define t where "t = (if cur1 (sq_pos q) = CHR ''^'' then LLAMA_GRETYPE_CHAR_NOT else LLAMA_GRETYPE_CHAR)"
    define pos0 where "pos0 = (if cur1 (sq_pos q) = CHR ''^'' then drop 2 (sq_pos q) else tl (sq_pos q))"
    from 2 assms obtain pos rule' where "class_loop t (length (sq_rule q)) pos0 (sq_rule q) = Inr (pos, rule')" "p' = p"
      "q' = \<lparr>sq_pos = parse_space (tl pos) nl, sq_rule = rule', sq_last = length (sq_rule q), sq_nprev = 1\<rparr>"
      by (auto simp: sequence_item_def Let_def ebind_Inr_iff t_def pos0_def split: if_splits)
    moreover have "length pos0 < length (sq_pos q)" using 2 tl_less drop_less by (simp add: pos0_def)
    ultimately show thesis using that(2) [of t pos0] by (simp add: t_def)
  next
    case 3
    define t where "t = (if cur (sq_pos q) = CHR ''!'' then LLAMA_GRETYPE_TOKEN_NOT else LLAMA_GRETYPE_TOKEN)"
    define pos0 where "pos0 = (if cur (sq_pos q) = CHR ''!'' then tl (sq_pos q) else sq_pos q)"
    from 3 assms obtain v rest where "p' = p" "parse_token vocab pos0 = Inr (v, rest)" "q' = push_symbol [element t v] (parse_space rest nl) q"
      by (auto simp: sequence_item_def Let_def ebind_Inr_iff t_def pos0_def split: if_splits)
    moreover have "length pos0 \<le> length (sq_pos q)" by (simp add: pos0_def)
    ultimately show thesis using that(3) [of t pos0] by (simp add: t_def)
  next
    case 4
    with assms obtain name rest where n: "parse_name (sq_pos q) = Inr (name, rest)" "p' = snd (get_symbol_id name p)"
      "q' = push_symbol [element LLAMA_GRETYPE_RULE_REF (fst (get_symbol_id name p))] (parse_space rest nl) q"
      by (auto simp: sequence_item_def Let_def ebind_Inr_iff case_prod_beta)
    then show thesis by (intro that(4) [OF n(1) _ n(3)]) simp
  next
    case 5
    with assms ne that(5) show thesis by (auto simp: sequence_item_def Let_def)
  next
    case 6
    define m :: u64 where "m = (if cur (sq_pos q) = CHR ''+'' then 1 else 0)"
    define n where "n = (if cur (sq_pos q) = CHR ''?'' then 1 else uint64_max)"
    from 6 assms have "handle_repetitions rule_name m n (q\<lparr>sq_pos := parse_space (tl (sq_pos q)) nl\<rparr>) p = Inr (q', p')"
      by (auto simp: sequence_item_def Let_def ebind_Inr_iff m_def n_def split: if_splits)
    moreover have "length (parse_space (tl (sq_pos q)) nl) < length (sq_pos q)" using 6 sp by auto
    ultimately show thesis using that(6) [of _ m n] thr by (simp add: m_def n_def split: if_splits)
  next
    case 7
    then obtain m n pos where b: "brace_bounds nl (parse_space (tl (sq_pos q)) nl) = Inr (m, n, pos)"
      "handle_repetitions rule_name m n (q\<lparr>sq_pos := pos\<rparr>) p = Inr (q', p')"
      using assms by (auto simp: sequence_item_def Let_def ebind_Inr_iff)
    have "length pos < length (sq_pos q)" using brace_bounds_ok(1) [OF b(1)] sp 7 by simp
    then show thesis using that(6) [OF _ brace_bounds_ok(2,3) [OF b(1)] b(2)] by simp
  qed
qed

lemma sequence_item_ok:
  assumes "nprev_ok q"
  shows "no_fault (sequence_item vocab rule_name nl q p)"
    and "sequence_item vocab rule_name nl q p = Inr (Some (q', p')) \<Longrightarrow> length (sq_pos q') < length (sq_pos q) \<and> nprev_ok q'"
proof -
  have ok1: "nprev_ok (q\<lparr>sq_pos := x\<rparr>)" for x using assms by (simp add: nprev_ok_def)
  have thr: "1 \<le> max_repetition_threshold" by (simp add: max_repetition_threshold_def)
  show "no_fault (sequence_item vocab rule_name nl q p)"
    unfolding sequence_item_def Let_def
    by (auto intro!: no_fault_intros handle_repetitions_ok(1) [OF ok1] simp: thr dest: brace_bounds_ok split: prod.splits)
  have sp: "xs \<noteq> [] \<Longrightarrow> length xs \<le> n \<Longrightarrow> length (parse_space (tl xs) nl) < n" for xs n
    using parse_space_tl [of xs nl] by simp
  assume "sequence_item vocab rule_name nl q p = Inr (Some (q', p'))"
  then show "length (sq_pos q') < length (sq_pos q) \<and> nprev_ok q'"
  proof (cases rule: sequence_item_cases)
    case (literal pos rule')
    then show ?thesis using literal_loop_length [OF literal(2)] sp [of pos "length (sq_pos q)"] by (auto simp: nprev_ok_def)
  next
    case (char_class t pos0 pos rule')
    then show ?thesis using class_loop_length [OF char_class(4)] sp [of pos "length (sq_pos q)"] by (auto simp: nprev_ok_def)
  next
    case (token t pos0 v rest)
    then show ?thesis using parse_token_length [OF token(4)] parse_space_length [of rest nl] by (auto simp: nprev_ok_def push_symbol_def)
  next
    case (rule_ref name rest i)
    then show ?thesis using parse_name_length [OF rule_ref(1)] parse_space_length [of rest nl] by (auto simp: nprev_ok_def push_symbol_def)
  next
    case any
    then show ?thesis using parse_space_tl [OF any(1), of nl] by (auto simp: nprev_ok_def push_symbol_def)
  next
    case (repetition m n pos)
    then show ?thesis using handle_repetitions_ok(2) [OF ok1 repetition(2,3,4)] by simp
  qed
qed

text \<open>Successful calls move forward in the text.\<close>

lemma nprev_ok_start [simp]: "nprev_ok (start_sequence pos rule)"
  by (simp add: nprev_ok_def start_sequence_def)

lemma start_sequence_sel [simp]: "sq_pos (start_sequence pos rule) = pos" "sq_rule (start_sequence pos rule) = rule"
    "sq_last (start_sequence pos rule) = length rule"
  by (simp_all add: start_sequence_def)

lemma nprev_ok_group: "nprev_ok \<lparr>sq_pos = pos, sq_rule = rule, sq_last = n, sq_nprev = ucast (max 1 (x :: u32))\<rparr>"
proof -
  have "unat (ucast (max 1 x) :: u64) = unat (max 1 x)"
    using unat_lt_u32 [of "max 1 x"] by (simp add: unsigned_ucast_eq take_bit_eq_mod del: unat_lt_u32)
  moreover have "1 \<le> unat (max 1 x)" by (simp add: unat_max_word)
  ultimately show ?thesis by (simp add: nprev_ok_def)
qed

lemma cur_eq_ne: "cur s = c \<Longrightarrow> c \<noteq> CHR 0x00 \<Longrightarrow> s \<noteq> []"
  by (auto simp: cur_def)

lemma parse_space_cur: "cur s = c \<Longrightarrow> c \<noteq> CHR 0x00 \<Longrightarrow> length (parse_space (tl s) nl) < length s"
  using cur_eq_ne parse_space_tl by blast

definition group_state :: "sequence_state \<Rightarrow> string \<Rightarrow> u32 \<Rightarrow> u32 \<Rightarrow> sequence_state" where
  "group_state q pos sub_rule_id n =
     \<lparr>sq_pos = pos, sq_rule = sq_rule q @ [element LLAMA_GRETYPE_RULE_REF sub_rule_id], sq_last = length (sq_rule q), sq_nprev = ucast (max 1 n)\<rparr>"

lemma group_state_ok [simp]: "nprev_ok (group_state q pos i n)" "sq_pos (group_state q pos i n) = pos"
  by (simp_all add: group_state_def nprev_ok_group)

lemma sequence_loop_cases [consumes 1, case_names stop group item]:
  assumes "sequence_loop (Suc f) vocab rule_name nl q p = Inr (q', p')"
  obtains "q' = q" "p' = p"
  | i p1 pos p2 n where "cur (sq_pos q) = CHR ''(''" "generate_symbol_id rule_name p = (i, p1)"
      "parse_alternates f vocab rule_name True (parse_space (tl (sq_pos q)) True) i p1 = Inr (pos, p2)"
      "cur pos = CHR '')''" "sequence_loop f vocab rule_name nl (group_state q (parse_space (tl pos) nl) i n) p2 = Inr (q', p')"
  | q1 p1 where "sq_pos q \<noteq> []" "cur (sq_pos q) \<noteq> CHR ''(''" "sequence_item vocab rule_name nl q p = Inr (Some (q1, p1))" "sequence_loop f vocab rule_name nl q1 p1 = Inr (q', p')"
proof (cases "sq_pos q = []")
  case True
  with assms that(1) show thesis by simp
next
  case False
  show thesis
  proof (cases "cur (sq_pos q) = CHR ''(''")
    case True
    obtain i p1 where i: "generate_symbol_id rule_name p = (i, p1)" by (cases "generate_symbol_id rule_name p")
    with True False assms obtain pos p2 where a: "parse_alternates f vocab rule_name True (parse_space (tl (sq_pos q)) True) i p1 = Inr (pos, p2)"
      "cur pos = CHR '')''"
      "sequence_loop f vocab rule_name nl (group_state q (parse_space (tl pos) nl) i (next_symbol_id p2 - next_symbol_id p)) p2 = Inr (q', p')"
      by (auto simp: ebind_Inr_iff group_state_def split: if_splits)
    from that(2) [OF True i a] show thesis .
  next
    case no: False
    with False assms that(1,3) show thesis
      by (auto simp: ebind_Inr_iff split: option.splits)
  qed
qed

lemma alternates_cases:
  assumes "parse_alternates (Suc f) vocab rule_name nl src rule_id p = Inr (pos, p')"
  obtains q1 p1 q2 p2 where "sequence_loop f vocab rule_name nl (start_sequence src []) p = Inr (q1, p1)"
    "alternates_loop f vocab rule_name nl q1 p1 = Inr (q2, p2)" "pos = sq_pos q2"
    "p' = add_rule rule_id (sq_rule q2 @ [element LLAMA_GRETYPE_END 0]) p2"
  using assms by (auto simp: ebind_Inr_iff)

definition next_alternate :: "sequence_state \<Rightarrow> sequence_state" where
  "next_alternate q = start_sequence (parse_space (tl (sq_pos q)) True) (sq_rule q @ [element LLAMA_GRETYPE_ALT 0])"

lemma alternates_loop_cases [consumes 1, case_names stop more]:
  assumes "alternates_loop (Suc f) vocab rule_name nl q p = Inr (q', p')"
  obtains "q' = q" "p' = p"
  | q1 p1 where "cur (sq_pos q) = CHR ''|''" "sequence_loop f vocab rule_name nl (next_alternate q) p = Inr (q1, p1)"
      "alternates_loop f vocab rule_name nl q1 p1 = Inr (q', p')"
  using assms by (cases "cur (sq_pos q) = CHR ''|''") (auto simp: ebind_Inr_iff next_alternate_def)

lemma next_alternate_pos: "cur (sq_pos q) = CHR ''|'' \<Longrightarrow> length (sq_pos (next_alternate q)) < length (sq_pos q)"
  using parse_space_cur [of "sq_pos q" _ True] by (simp add: next_alternate_def)

lemma nprev_ok_next [simp]: "nprev_ok (next_alternate q)"
  by (simp add: next_alternate_def)

lemma parse_forward_all:
  "(\<forall>rule_name nl src rule_id p pos p'.
      parse_alternates f vocab rule_name nl src rule_id p = Inr (pos, p') \<longrightarrow> length pos \<le> length src)
 \<and> (\<forall>rule_name nl q p q' p'.
      alternates_loop f vocab rule_name nl q p = Inr (q', p') \<longrightarrow> length (sq_pos q') \<le> length (sq_pos q))
 \<and> (\<forall>rule_name nl q p q' p'.
      sequence_loop f vocab rule_name nl q p = Inr (q', p') \<longrightarrow> nprev_ok q \<longrightarrow> length (sq_pos q') \<le> length (sq_pos q))"
proof (induction f)
  case (Suc f)
  note IH = Suc [THEN conjunct1, rule_format] Suc [THEN conjunct2, THEN conjunct1, rule_format]
    Suc [THEN conjunct2, THEN conjunct2, rule_format]
  show ?case
  proof (intro conjI allI impI)
    fix rule_name nl src rule_id p pos p'
    assume "parse_alternates (Suc f) vocab rule_name nl src rule_id p = Inr (pos, p')"
    then show "length pos \<le> length src"
      by (rule alternates_cases) (use IH(2,3) in fastforce)
  next
    fix rule_name nl q p q' p'
    assume "alternates_loop (Suc f) vocab rule_name nl q p = Inr (q', p')"
    then show "length (sq_pos q') \<le> length (sq_pos q)"
    proof (cases rule: alternates_loop_cases)
      case (more q1 p1)
      from IH(3) [OF more(2)] IH(2) [OF more(3)] next_alternate_pos [OF more(1)] show ?thesis by simp
    qed simp
  next
    fix rule_name nl q p q' p'
    assume "sequence_loop (Suc f) vocab rule_name nl q p = Inr (q', p')" and n: "nprev_ok q"
    then show "length (sq_pos q') \<le> length (sq_pos q)"
    proof (cases rule: sequence_loop_cases)
      case (group i p1 pos p2 n)
      from IH(1) [OF group(3)] IH(3) [OF group(5)] parse_space_cur [OF group(1), of True] parse_space_cur [OF group(4), of nl]
      show ?thesis by simp
    next
      case (item q1 p1)
      from IH(3) [OF item(4)] sequence_item_ok(2) [OF n item(3)] show ?thesis by simp
    qed simp
  qed
qed simp

lemmas parse_forward = parse_forward_all [THEN conjunct1, rule_format]
  parse_forward_all [THEN conjunct2, THEN conjunct1, rule_format]
  parse_forward_all [THEN conjunct2, THEN conjunct2, rule_format]

text \<open>With enough fuel no call fails for lack of it, and no assertion fails.\<close>

lemma parse_no_fault_all:
  "(\<forall>rule_name nl src rule_id p. 2 * length src + 3 \<le> f \<longrightarrow> no_fault (parse_alternates f vocab rule_name nl src rule_id p))
 \<and> (\<forall>rule_name nl q p. 2 * length (sq_pos q) + 1 \<le> f \<longrightarrow> no_fault (alternates_loop f vocab rule_name nl q p))
 \<and> (\<forall>rule_name nl q p. 2 * length (sq_pos q) + 2 \<le> f \<longrightarrow> nprev_ok q \<longrightarrow> no_fault (sequence_loop f vocab rule_name nl q p))"
proof (induction f)
  case (Suc f)
  note IH = Suc [THEN conjunct1, rule_format] Suc [THEN conjunct2, THEN conjunct1, rule_format]
    Suc [THEN conjunct2, THEN conjunct2, rule_format]
  show ?case
  proof (intro conjI allI impI)
    fix rule_name nl rule_id p and src :: string
    assume f: "2 * length src + 3 \<le> Suc f"
    have "no_fault (alternates_loop f vocab rule_name nl q p1)"
      if "sequence_loop f vocab rule_name nl (start_sequence src []) p = Inr (q, p1)" for q p1
      using parse_forward(3) [OF that] f by (intro IH(2)) simp
    moreover have "no_fault (sequence_loop f vocab rule_name nl (start_sequence src []) p)" using f by (intro IH(3)) auto
    ultimately show "no_fault (parse_alternates (Suc f) vocab rule_name nl src rule_id p)"
      by (auto intro!: no_fault_intros)
  next
    fix rule_name nl p and q :: sequence_state
    assume f: "2 * length (sq_pos q) + 1 \<le> Suc f"
    show "no_fault (alternates_loop (Suc f) vocab rule_name nl q p)"
    proof (cases "cur (sq_pos q) = CHR ''|''")
      case True
      have "no_fault (alternates_loop f vocab rule_name nl q1 p1)"
        if "sequence_loop f vocab rule_name nl (next_alternate q) p = Inr (q1, p1)" for q1 p1
        using parse_forward(3) [OF that] next_alternate_pos [OF True] f by (intro IH(2)) simp
      moreover have "no_fault (sequence_loop f vocab rule_name nl (next_alternate q) p)"
        using next_alternate_pos [OF True] f by (intro IH(3)) auto
      ultimately show ?thesis using True by (auto simp: next_alternate_def intro!: no_fault_intros)
    qed simp
  next
    fix rule_name nl p and q :: sequence_state
    assume f: "2 * length (sq_pos q) + 2 \<le> Suc f" and n: "nprev_ok q"
    show "no_fault (sequence_loop (Suc f) vocab rule_name nl q p)"
    proof (cases "sq_pos q \<noteq> [] \<and> cur (sq_pos q) = CHR ''(''")
      case True
      note sp = parse_space_cur [of "sq_pos q" "CHR ''(''" True]
      obtain i p1 where i: "generate_symbol_id rule_name p = (i, p1)" by (cases "generate_symbol_id rule_name p")
      have "no_fault (parse_alternates f vocab rule_name True (parse_space (tl (sq_pos q)) True) i p1)"
        using sp True f by (intro IH(1)) auto
      moreover have "no_fault (sequence_loop f vocab rule_name nl (group_state q (parse_space (tl pos) nl) i m) p2)"
        if "parse_alternates f vocab rule_name True (parse_space (tl (sq_pos q)) True) i p1 = Inr (pos, p2)" "cur pos = CHR '')''" for pos p2 m
        using parse_forward(1) [OF that(1)] parse_space_cur [OF that(2), of nl] sp True f by (intro IH(3)) auto
      ultimately show ?thesis using True i
        by (auto simp: group_state_def intro!: no_fault_intros)
    next
      case False
      have "no_fault (sequence_loop f vocab rule_name nl q1 p1)" if "sequence_item vocab rule_name nl q p = Inr (Some (q1, p1))" for q1 p1
        using sequence_item_ok(2) [OF n that] f by (intro IH(3)) auto
      then show ?thesis using False sequence_item_ok(1) [OF n]
        by (auto intro!: no_fault_intros split: option.split)
    qed
  qed
qed simp

lemmas parse_no_fault = parse_no_fault_all [THEN conjunct1, rule_format]

lemma parse_rule_ok:
  shows "no_fault (parse_rule vocab src p)"
    and "parse_rule vocab src p = Inr (pos, p') \<Longrightarrow> length pos < length src"
proof -
  show "no_fault (parse_rule vocab src p)"
    unfolding parse_rule_def Let_def
    by (auto intro!: no_fault_intros parse_no_fault simp: seq_fuel_def split: prod.splits)
  assume "parse_rule vocab src p = Inr (pos, p')"
  then obtain name name_end rule_id p1 pos2 p2 where n: "parse_name src = Inr (name, name_end)"
    and a: "parse_alternates (seq_fuel (parse_space (drop 3 (parse_space name_end False)) True)) vocab name False
        (parse_space (drop 3 (parse_space name_end False)) True) rule_id p1 = Inr (pos2, p2)"
    and e: "pos = parse_space (drop (if cur1 pos2 = CHR 0x0A then 2 else 1) pos2) True \<or> pos = parse_space (tl pos2) True
        \<or> pos = parse_space pos2 True"
    unfolding parse_rule_def Let_def by (auto simp: ebind_Inr_iff case_prod_beta split: if_splits)
  have le: "length (parse_space xs nl) \<le> n" if "length xs \<le> n" for xs nl n
    using parse_space_length [of xs nl] that by simp
  have "length pos \<le> length pos2" using e by (auto intro!: le)
  also have "\<dots> \<le> length (parse_space (drop 3 (parse_space name_end False)) True)" using parse_forward(1) [OF a] .
  also have "\<dots> \<le> length name_end"
    using parse_space_length [of name_end False] by (intro le) simp
  also have "\<dots> < length src" using parse_name_length [OF n] .
  finally show "length pos < length src" .
qed

lemma rules_loop_ok: "length pos < f \<Longrightarrow> no_fault (rules_loop f vocab pos p)"
proof (induction f arbitrary: pos p)
  case (Suc f)
  show ?case
    by (auto intro!: no_fault_intros parse_rule_ok(1) Suc.IH dest!: parse_rule_ok(2) simp: case_prod_beta)
      (use Suc.prems in simp)
qed simp

lemma check_rules_ok: "no_fault (check_rules p)"
  by (simp add: check_rules_def split: list.split)

end
