(* ===== verification/Grammar_Wf.thy ===== *)
theory Grammar_Wf
  imports Grammar_Parser_Proofs
begin

text \<open>
  The shape of the rules the parser produces: a rule is a list of alternates closed by one
  \<open>END\<close>, a range end or a class alternate follows a character, and every reference names a
  defined rule. Also the symbol table as an injection into the rule numbers.
\<close>

section \<open>Well-formed rules\<close>

definition is_char_type :: "llama_gretype \<Rightarrow> bool" where
  "is_char_type t \<longleftrightarrow> t = LLAMA_GRETYPE_CHAR \<or> t = LLAMA_GRETYPE_CHAR_NOT \<or> t = LLAMA_GRETYPE_CHAR_ALT"

text \<open>Which element may follow an element of type \<open>prev\<close>.\<close>

definition may_follow :: "llama_gretype \<Rightarrow> llama_gretype \<Rightarrow> bool" where
  "may_follow prev t \<longleftrightarrow> t \<noteq> LLAMA_GRETYPE_END
     \<and> (t = LLAMA_GRETYPE_CHAR_RNG_UPPER \<longrightarrow> is_char_type prev)
     \<and> (t = LLAMA_GRETYPE_CHAR_ALT \<longrightarrow> is_char_type prev \<or> prev = LLAMA_GRETYPE_CHAR_RNG_UPPER)"

fun wf_from :: "nat \<Rightarrow> llama_gretype \<Rightarrow> llama_grammar_rule \<Rightarrow> bool" where
  "wf_from n prev [] \<longleftrightarrow> True"
| "wf_from n prev (e # es) \<longleftrightarrow> may_follow prev (ge_type e) \<and> (ge_type e = LLAMA_GRETYPE_RULE_REF \<longrightarrow> unat (ge_value e) < n)
     \<and> wf_from n (ge_type e) es"

abbreviation wf_body :: "nat \<Rightarrow> llama_grammar_rule \<Rightarrow> bool" where
  "wf_body n es \<equiv> wf_from n LLAMA_GRETYPE_END es"

definition wf_rule :: "nat \<Rightarrow> llama_grammar_rule \<Rightarrow> bool" where
  "wf_rule n rule \<longleftrightarrow> (\<exists>body. rule = body @ [element LLAMA_GRETYPE_END 0] \<and> wf_body n body)"

definition wf_rules :: "llama_grammar_rules \<Rightarrow> bool" where
  "wf_rules rs \<longleftrightarrow> (\<forall>rule \<in> set rs. wf_rule (length rs) rule)"

fun last_type :: "llama_gretype \<Rightarrow> llama_grammar_rule \<Rightarrow> llama_gretype" where
  "last_type t [] = t"
| "last_type t (e # es) = last_type (ge_type e) es"

lemma wf_from_append [simp]: "wf_from n t (as @ bs) \<longleftrightarrow> wf_from n t as \<and> wf_from n (last_type t as) bs"
  by (induction n t as rule: wf_from.induct) auto

lemma last_type_append [simp]: "last_type t (as @ bs) = last_type (last_type t as) bs"
  by (induction t as rule: last_type.induct) auto

lemma wf_body_from: "wf_body n es \<Longrightarrow> wf_from n t es"
  by (cases es) (auto simp: may_follow_def is_char_type_def)

lemma wf_from_mono: "wf_from m t es \<Longrightarrow> m \<le> n \<Longrightarrow> wf_from n t es"
  by (induction m t es rule: wf_from.induct) auto

lemma wf_rule_mono: "wf_rule m rule \<Longrightarrow> m \<le> n \<Longrightarrow> wf_rule n rule"
  using wf_from_mono by (auto simp: wf_rule_def)

lemma wf_body_append: "wf_body n as \<Longrightarrow> wf_body n bs \<Longrightarrow> wf_body n (as @ bs)"
  by (simp add: wf_body_from)

lemma wf_body_concat: "wf_body n es \<Longrightarrow> wf_body n (concat (replicate k es))"
  by (induction k) (auto simp: wf_body_from)

section \<open>The state of the parser\<close>

definition plain_name :: "string \<Rightarrow> bool" where
  "plain_name s \<longleftrightarrow> CHR ''_'' \<notin> set s"

text \<open>
  The symbol numbers are the numbers below the size of the table, each given once; a generated
  name carries its own number, so it never meets an older name.
\<close>

definition symbols_ok :: "(string \<times> u32) list \<Rightarrow> bool" where
  "symbols_ok ids \<longleftrightarrow> sorted_wrt (<) (map fst ids) \<and> length ids < 2 ^ 32
     \<and> (unat \<circ> snd) ` set ids = {..<length ids}
     \<and> (\<forall>(s, i) \<in> set ids. plain_name s \<or> (\<exists>b. plain_name b \<and> s = generated_name b i))"

definition parser_ok :: "llama_grammar_parser \<Rightarrow> bool" where
  "parser_ok p \<longleftrightarrow> symbols_ok (gp_symbol_ids p) \<and> length (gp_rules p) \<le> length (gp_symbol_ids p)
     \<and> (\<forall>rule \<in> set (gp_rules p). rule = [] \<or> wf_rule (length (gp_symbol_ids p)) rule)"

definition n_symbols :: "llama_grammar_parser \<Rightarrow> nat" where
  "n_symbols p = length (gp_symbol_ids p)"

lemma parser_ok_new: "parser_ok llama_grammar_parser_new"
  by (simp add: parser_ok_def symbols_ok_def llama_grammar_parser_new_def lessThan_0)

lemma generated_name_inj:
  assumes "plain_name b" "plain_name c" "generated_name b i = generated_name c j"
  shows "i = j"
proof -
  let ?P = "\<lambda>x. x \<noteq> CHR ''_''"
  have "tl (dropWhile ?P (generated_name d k)) = dec_word k" if "plain_name d" for d k
    using that by (simp add: generated_name_def plain_name_def dropWhile_append)
  then have "dec_word i = dec_word j" using assms by metis
  then show ?thesis by (simp add: dec_word_def dec_nat_inj word_unat_eq_iff)
qed

lemma generated_not_plain: "\<not> plain_name (generated_name b i)"
  by (simp add: plain_name_def generated_name_def)

lemma next_symbol_id_unat: "n_symbols p < 2 ^ 32 \<Longrightarrow> unat (next_symbol_id p) = n_symbols p"
  by (simp add: next_symbol_id_def n_symbols_def unat_of_nat)

lemma symbols_insert:
  assumes "symbols_ok ids" "s \<notin> fst ` set ids" "Suc (length ids) < 2 ^ 32"
    and "plain_name s \<or> (\<exists>b. plain_name b \<and> s = generated_name b (of_nat (length ids)))"
  shows "symbols_ok (om_insert s (of_nat (length ids)) ids)" and "length (om_insert s (of_nat (length ids)) ids) = Suc (length ids)"
proof -
  note new = om_insert_new [OF assms(2), of "of_nat (length ids)"]
  have u: "unat (of_nat (length ids) :: u32) = length ids" using assms(3) by (simp add: unat_of_nat)
  show "length (om_insert s (of_nat (length ids)) ids) = Suc (length ids)" using new by simp
  show "symbols_ok (om_insert s (of_nat (length ids)) ids)"
    using assms(1,3,4) new u unfolding symbols_ok_def
    by (auto simp: sorted_om_insert lessThan_Suc simp del: set_fst_om_insert)
qed

section \<open>The symbol table only grows\<close>

lemma om_insert_length: "length m \<le> length (om_insert k v m)"
  by (induction m rule: om_insert.induct) auto

lemma n_symbols_add_rule [simp]: "n_symbols (add_rule i rule p) = n_symbols p"
  by (simp add: n_symbols_def add_rule_def Let_def)

lemma n_symbols_get: "get_symbol_id name p = (i, p') \<Longrightarrow> n_symbols p \<le> n_symbols p'"
  by (auto simp: get_symbol_id_def n_symbols_def om_insert_length split: option.splits)

lemma n_symbols_generate: "generate_symbol_id name p = (i, p') \<Longrightarrow> n_symbols p \<le> n_symbols p'"
  by (auto simp: generate_symbol_id_def n_symbols_def om_insert_length)

lemma n_symbols_opt_loop: "opt_loop nm prev nomax first k (l, p) = (l', p') \<Longrightarrow> n_symbols p \<le> n_symbols p'"
proof (induction nm prev nomax first k "(l, p)" arbitrary: l p rule: opt_loop.induct)
  case (2 nm prev nomax first k l p)
  obtain i p1 where g: "generate_symbol_id nm p = (i, p1)" by (cases "generate_symbol_id nm p")
  from 2(2) "2.hyps" [OF g [symmetric] refl refl refl] n_symbols_generate [OF g] show ?case by (auto simp: g)
qed simp

lemma handle_repetitions_cases:
  assumes "handle_repetitions nm m n q p = Inr (q', p')"
  obtains no_max k l kept np where "opt_loop nm (drop (sq_last q) (sq_rule q)) no_max True k (0, p) = (l, p')"
    "kept = take (sq_last q) (sq_rule q) \<or> (\<exists>j. kept = sq_rule q @ concat (replicate j (drop (sq_last q) (sq_rule q))))"
    "q' = q\<lparr>sq_rule := kept @ (if 0 < k then [element LLAMA_GRETYPE_RULE_REF l] else []), sq_nprev := np\<rparr>"
proof -
  define no_max where "no_max = (n = uint64_max)"
  define k where "k = unat (if no_max then 1 else n - m)"
  define kept where "kept = (if m = 0 then take (sq_last q) (sq_rule q)
      else sq_rule q @ concat (replicate (unat m - 1) (drop (sq_last q) (sq_rule q))))"
  obtain l p1 where o: "opt_loop nm (drop (sq_last q) (sq_rule q)) no_max True k (0, p) = (l, p1)"
    by (cases "opt_loop nm (drop (sq_last q) (sq_rule q)) no_max True k (0, p)")
  have k: "(if no_max then 1 else n - m) > 0 \<longleftrightarrow> 0 < k" by (simp add: k_def unat_gt_0 word_gt_0)
  define total where "total = (if \<not> no_max \<and> n > 0 then n else if m > 0 then m else 1)"
  have "p' = p1" "q' = q\<lparr>sq_rule := kept @ (if 0 < k then [element LLAMA_GRETYPE_RULE_REF l] else []), sq_nprev := sq_nprev q * total\<rparr>"
    using assms o k
    unfolding handle_repetitions_def Let_def no_max_def [symmetric] k_def [symmetric] kept_def [symmetric] total_def [symmetric]
    by (auto split: if_split_asm)
  moreover have "kept = take (sq_last q) (sq_rule q) \<or> (\<exists>j. kept = sq_rule q @ concat (replicate j (drop (sq_last q) (sq_rule q))))"
    by (auto simp: kept_def)
  ultimately show thesis using that o by blast
qed

lemma n_symbols_handle: "handle_repetitions nm m n q p = Inr (q', p') \<Longrightarrow> n_symbols p \<le> n_symbols p'"
  by (erule handle_repetitions_cases) (auto dest: n_symbols_opt_loop)

lemma n_symbols_item: "sequence_item vocab nm nl q p = Inr (Some (q', p')) \<Longrightarrow> n_symbols p \<le> n_symbols p'"
  by (erule sequence_item_cases) (auto dest: n_symbols_get n_symbols_handle)

lemma n_symbols_parse_all:
  "(\<forall>rule_name nl src rule_id p pos p'.
      parse_alternates f vocab rule_name nl src rule_id p = Inr (pos, p') \<longrightarrow> n_symbols p \<le> n_symbols p')
 \<and> (\<forall>rule_name nl q p q' p'.
      alternates_loop f vocab rule_name nl q p = Inr (q', p') \<longrightarrow> n_symbols p \<le> n_symbols p')
 \<and> (\<forall>rule_name nl q p q' p'.
      sequence_loop f vocab rule_name nl q p = Inr (q', p') \<longrightarrow> n_symbols p \<le> n_symbols p')"
proof (induction f)
  case (Suc f)
  note IH = Suc [THEN conjunct1, rule_format] Suc [THEN conjunct2, THEN conjunct1, rule_format]
    Suc [THEN conjunct2, THEN conjunct2, rule_format]
  show ?case
  proof (intro conjI allI impI)
    fix rule_name nl src rule_id p pos p'
    assume "parse_alternates (Suc f) vocab rule_name nl src rule_id p = Inr (pos, p')"
    then show "n_symbols p \<le> n_symbols p'"
      by (rule alternates_cases) (use IH(2,3) in fastforce)
  next
    fix rule_name nl p q' p' and q :: sequence_state
    assume "alternates_loop (Suc f) vocab rule_name nl q p = Inr (q', p')"
    then show "n_symbols p \<le> n_symbols p'"
    proof (cases rule: alternates_loop_cases)
      case (more q1 p1)
      from IH(3) [OF more(2)] IH(2) [OF more(3)] show ?thesis by simp
    qed simp
  next
    fix rule_name nl p q' p' and q :: sequence_state
    assume "sequence_loop (Suc f) vocab rule_name nl q p = Inr (q', p')"
    then show "n_symbols p \<le> n_symbols p'"
    proof (cases rule: sequence_loop_cases)
      case (group i p1 pos p2 n)
      from n_symbols_generate [OF group(2)] IH(1) [OF group(3)] IH(3) [OF group(5)] show ?thesis by simp
    next
      case (item q1 p1)
      from IH(3) [OF item(4)] n_symbols_item [OF item(3)] show ?thesis by simp
    qed simp
  qed
qed simp

lemmas n_symbols_parse = n_symbols_parse_all [THEN conjunct1, rule_format]
  n_symbols_parse_all [THEN conjunct2, THEN conjunct1, rule_format]
  n_symbols_parse_all [THEN conjunct2, THEN conjunct2, rule_format]

section \<open>Operations keep the parser well formed\<close>

lemma parser_ok_symbols:
  "parser_ok p \<Longrightarrow> symbols_ok ids \<Longrightarrow> n_symbols p \<le> length ids \<Longrightarrow> parser_ok (p\<lparr>gp_symbol_ids := ids\<rparr>)"
  unfolding parser_ok_def n_symbols_def by (auto intro: wf_rule_mono)

lemma get_symbol_id_ok:
  assumes "get_symbol_id name p = (i, p')" "parser_ok p" "plain_name name" "n_symbols p' < 2 ^ 32"
  shows "parser_ok p' \<and> unat i < n_symbols p'"
proof (cases "map_of (gp_symbol_ids p) name")
  case None
  let ?ids = "gp_symbol_ids p"
  have new: "name \<notin> fst ` set ?ids" using None by (simp add: map_of_eq_None_iff)
  have p': "i = of_nat (length ?ids)" "p' = p\<lparr>gp_symbol_ids := om_insert name (of_nat (length ?ids)) ?ids\<rparr>"
    using assms(1) None by (auto simp: get_symbol_id_def next_symbol_id_def)
  have small: "Suc (length ?ids) < 2 ^ 32" using assms(4) om_insert_new [OF new] by (simp add: p' n_symbols_def)
  have "symbols_ok ?ids" using assms(2) by (simp add: parser_ok_def)
  note ins = symbols_insert [OF this new small disjI1 [OF assms(3)]]
  have "unat i < n_symbols p'" using ins(2) small by (simp add: p' n_symbols_def unat_of_nat)
  moreover have "parser_ok p'"
    unfolding p' using ins assms(2) by (intro parser_ok_symbols) (simp_all add: n_symbols_def)
  ultimately show ?thesis by simp
next
  case (Some j)
  then have "(name, j) \<in> set (gp_symbol_ids p)" by (rule map_of_SomeD)
  then have "unat j \<in> (unat \<circ> snd) ` set (gp_symbol_ids p)" by force
  with Some assms(1,2) show ?thesis by (auto simp: get_symbol_id_def parser_ok_def symbols_ok_def n_symbols_def)
qed

lemma generate_symbol_id_ok:
  assumes "generate_symbol_id base p = (i, p')" "parser_ok p" "plain_name base" "n_symbols p' < 2 ^ 32"
  shows "parser_ok p' \<and> unat i < n_symbols p'"
proof -
  let ?ids = "gp_symbol_ids p" and ?i = "of_nat (length (gp_symbol_ids p)) :: u32"
  have syms: "symbols_ok ?ids" using assms(2) by (simp add: parser_ok_def)
  then have u: "unat ?i = length ?ids" by (simp add: symbols_ok_def unat_of_nat)
  have new: "generated_name base ?i \<notin> fst ` set ?ids"
  proof
    assume "generated_name base ?i \<in> fst ` set ?ids"
    then obtain j where j: "(generated_name base ?i, j) \<in> set ?ids" by force
    with syms generated_not_plain obtain b where "plain_name b" "generated_name base ?i = generated_name b j"
      unfolding symbols_ok_def by fastforce
    then have "?i = j" using generated_name_inj assms(3) by blast
    moreover have "unat j \<in> (unat \<circ> snd) ` set ?ids" using j by force
    ultimately show False using syms u by (auto simp: symbols_ok_def)
  qed
  have p': "i = ?i" "p' = p\<lparr>gp_symbol_ids := om_insert (generated_name base ?i) ?i ?ids\<rparr>"
    using assms(1) by (auto simp: generate_symbol_id_def next_symbol_id_def)
  have small: "Suc (length ?ids) < 2 ^ 32" using assms(4) om_insert_new [OF new] by (simp add: p' n_symbols_def)
  have "plain_name (generated_name base ?i) \<or> (\<exists>b. plain_name b \<and> generated_name base ?i = generated_name b ?i)"
    using assms(3) by blast
  note ins = symbols_insert [OF syms new small this]
  have "unat i < n_symbols p'" using ins(2) u by (simp add: p' n_symbols_def)
  moreover have "parser_ok p'"
    unfolding p' using ins assms(2) by (intro parser_ok_symbols) (simp_all add: n_symbols_def)
  ultimately show ?thesis by simp
qed

lemma add_rule_ok:
  assumes "parser_ok p" "unat i < n_symbols p" "wf_rule (n_symbols p) rule"
  shows "parser_ok (add_rule i rule p)"
proof -
  have n: "n_symbols p < 2 ^ 32" using assms(1) by (simp add: parser_ok_def symbols_ok_def n_symbols_def)
  have i: "unat (i + 1) = Suc (unat i)" using assms(2) n by (simp add: unat_word_ariths)
  define rs where "rs = (if length (gp_rules p) \<le> unat i then resize_rules (Suc (unat i)) (gp_rules p) else gp_rules p)"
  have r: "add_rule i rule p = p\<lparr>gp_rules := rs[unat i := rule]\<rparr>" by (simp add: add_rule_def rs_def i Let_def)
  have len: "length rs \<le> n_symbols p" using assms(1,2) by (auto simp: rs_def resize_rules_def parser_ok_def n_symbols_def)
  have "set (rs[unat i := rule]) \<subseteq> insert rule (insert [] (set (gp_rules p)))"
    using set_update_subset_insert [of rs "unat i" rule] set_take_subset [of "Suc (unat i)" "gp_rules p"]
    by (auto simp: rs_def resize_rules_def split: if_splits)
  then show ?thesis using assms(1,3) len unfolding r parser_ok_def n_symbols_def by auto
qed

lemma opt_loop_ok:
  assumes "opt_loop nm prev no_max first k (l, p) = (l', p')" "parser_ok p" "plain_name nm" "n_symbols p' < 2 ^ 32"
    "wf_body (n_symbols p) prev" "\<not> first \<longrightarrow> unat l < n_symbols p"
  shows "parser_ok p' \<and> (0 < k \<or> \<not> first \<longrightarrow> unat l' < n_symbols p')"
  using assms
proof (induction k arbitrary: first l p)
  case (Suc k)
  obtain i p1 where g: "generate_symbol_id nm p = (i, p1)" by (cases "generate_symbol_id nm p")
  define ref where "ref = (if \<not> first \<or> no_max then [element LLAMA_GRETYPE_RULE_REF (if no_max then i else l)] else [])"
  define rule where "rule = prev @ ref @ [element LLAMA_GRETYPE_ALT 0, element LLAMA_GRETYPE_END 0]"
  have o: "opt_loop nm prev no_max False k (i, add_rule i rule p1) = (l', p')"
    using Suc.prems(1) by (simp add: g rule_def ref_def Let_def)
  have grow: "n_symbols p \<le> n_symbols p1" using n_symbols_generate [OF g] .
  have small: "n_symbols p1 < 2 ^ 32" using n_symbols_opt_loop [OF o] Suc.prems(4) by simp
  from generate_symbol_id_ok [OF g Suc.prems(2,3) small] have p1: "parser_ok p1" "unat i < n_symbols p1" by auto
  have "wf_body (n_symbols p1) prev" using Suc.prems(5) grow by (rule wf_from_mono)
  then have "wf_rule (n_symbols p1) rule"
    using p1(2) Suc.prems(6) grow unfolding wf_rule_def rule_def ref_def
    by (intro exI [of _ "prev @ ref @ [element LLAMA_GRETYPE_ALT 0]"])
      (auto simp: may_follow_def ref_def)
  then have "parser_ok (add_rule i rule p1)" using p1 by (intro add_rule_ok)
  from Suc.IH [OF o this Suc.prems(3,4)] p1(2) \<open>wf_body (n_symbols p1) prev\<close> show ?case by simp
qed auto

definition sequence_ok :: "nat \<Rightarrow> sequence_state \<Rightarrow> bool" where
  "sequence_ok n q \<longleftrightarrow> sq_last q \<le> length (sq_rule q) \<and> wf_body n (take (sq_last q) (sq_rule q)) \<and> wf_body n (drop (sq_last q) (sq_rule q))"

lemma sequence_ok_rule: "sequence_ok n q \<Longrightarrow> wf_body n (sq_rule q)"
  unfolding sequence_ok_def by (metis append_take_drop_id wf_body_append)

lemma sequence_ok_mono: "sequence_ok m q \<Longrightarrow> m \<le> n \<Longrightarrow> sequence_ok n q"
  by (auto simp: sequence_ok_def intro: wf_from_mono)

lemma sequence_ok_push:
  "wf_body n rule \<Longrightarrow> wf_body n es \<Longrightarrow> sequence_ok n \<lparr>sq_pos = pos, sq_rule = rule @ es, sq_last = length rule, sq_nprev = k\<rparr>"
  by (simp add: sequence_ok_def)

lemma handle_repetitions_wf:
  assumes "handle_repetitions nm m n q p = Inr (q', p')" "parser_ok p" "plain_name nm" "n_symbols p' < 2 ^ 32"
    "sequence_ok (n_symbols p) q"
  shows "parser_ok p' \<and> sequence_ok (n_symbols p') q'"
proof -
  from assms(1) obtain no_max k l kept np where o: "opt_loop nm (drop (sq_last q) (sq_rule q)) no_max True k (0, p) = (l, p')"
    and kept: "kept = take (sq_last q) (sq_rule q) \<or> (\<exists>j. kept = sq_rule q @ concat (replicate j (drop (sq_last q) (sq_rule q))))"
    and q': "q' = q\<lparr>sq_rule := kept @ (if 0 < k then [element LLAMA_GRETYPE_RULE_REF l] else []), sq_nprev := np\<rparr>"
    by (rule handle_repetitions_cases)
  have prev: "wf_body (n_symbols p) (drop (sq_last q) (sq_rule q))" using assms(5) by (simp add: sequence_ok_def)
  from opt_loop_ok [OF o assms(2,3,4) prev] have p': "parser_ok p'" "0 < k \<longrightarrow> unat l < n_symbols p'" by auto
  have q: "sequence_ok (n_symbols p') q" using assms(5) n_symbols_handle [OF assms(1)] by (rule sequence_ok_mono)
  let ?t = "take (sq_last q) (sq_rule q)" and ?d = "drop (sq_last q) (sq_rule q)"
  have ref: "wf_body (n_symbols p') (if 0 < k then [element LLAMA_GRETYPE_RULE_REF l] else [])"
    using p'(2) by (simp add: may_follow_def)
  obtain es where es: "kept = ?t @ es" "wf_body (n_symbols p') es"
  proof (cases "kept = ?t")
    case True
    with that [of "[]"] show thesis by simp
  next
    case False
    with kept obtain j where "kept = sq_rule q @ concat (replicate j ?d)" by auto
    then have "kept = ?t @ ?d @ concat (replicate j ?d)" by (metis append_assoc append_take_drop_id)
    moreover have "wf_body (n_symbols p') (?d @ concat (replicate j ?d))"
      using q by (intro wf_body_append wf_body_concat) (simp_all add: sequence_ok_def)
    ultimately show thesis using that by blast
  qed
  have "length ?t = sq_last q" using q by (simp add: sequence_ok_def)
  then have "take (sq_last q) (sq_rule q') = ?t" "drop (sq_last q) (sq_rule q') = es @ (if 0 < k then [element LLAMA_GRETYPE_RULE_REF l] else [])"
    "sq_last q' = sq_last q" "sq_last q \<le> length (sq_rule q')"
    by (auto simp: q' es(1))
  moreover have "wf_body (n_symbols p') ?t" using q by (simp add: sequence_ok_def)
  ultimately show ?thesis using p'(1) es(2) ref unfolding sequence_ok_def by (metis wf_body_append)
qed

lemma literal_loop_wf: "literal_loop pos rule = Inr (pos', rule') \<Longrightarrow> \<exists>es. rule' = rule @ es \<and> wf_body n es"
proof (induction pos rule rule: literal_loop.induct)
  case (1 pos rule)
  show ?case
  proof (cases "cur pos = CHR 0x22 \<or> pos = []")
    case True
    then show ?thesis using "1.prems" by (auto simp: literal_loop.simps [of pos] cur_def split: if_splits)
  next
    case False
    with "1.prems" obtain c t where t: "parse_char pos = Inr (c, t)" "literal_loop t (rule @ [element LLAMA_GRETYPE_CHAR c]) = Inr (pos', rule')"
      by (auto simp: literal_loop.simps [of pos] split: sum.splits)
    with "1.IH" [OF _ _ t(1) refl] False obtain es where "rule' = rule @ element LLAMA_GRETYPE_CHAR c # es" "wf_body n es" by auto
    then show ?thesis by (intro exI [of _ "element LLAMA_GRETYPE_CHAR c # es"]) (simp add: may_follow_def wf_body_from)
  qed
qed

lemma class_item_wf:
  "class_item t pos = Inr (pos', es) \<Longrightarrow> is_char_type t \<Longrightarrow> may_follow prev t
    \<Longrightarrow> wf_from n prev es \<and> (is_char_type (last_type prev es) \<or> last_type prev es = LLAMA_GRETYPE_CHAR_RNG_UPPER) \<and> es \<noteq> []"
  by (auto simp: class_item_def ebind_Inr_iff is_char_type_def may_follow_def split: if_splits)

lemma class_loop_wf:
  assumes "class_loop t k pos rule = Inr (pos', rule')" "t = LLAMA_GRETYPE_CHAR \<or> t = LLAMA_GRETYPE_CHAR_NOT" "k \<le> length rule"
    "k < length rule \<longrightarrow> is_char_type prev \<or> prev = LLAMA_GRETYPE_CHAR_RNG_UPPER"
  shows "\<exists>es. rule' = rule @ es \<and> wf_from n prev es"
  using assms
proof (induction t k pos rule arbitrary: prev rule: class_loop.induct)
  case (1 t k pos rule)
  show ?case
  proof (cases "cur pos = CHR '']'' \<or> pos = []")
    case True
    then show ?thesis using "1.prems"(1) by (auto simp: class_loop.simps [of _ _ pos] cur_def split: if_splits)
  next
    case False
    let ?t = "if k < length rule then LLAMA_GRETYPE_CHAR_ALT else t"
    from False "1.prems"(1) obtain u es where u: "class_item ?t pos = Inr (u, es)" "class_loop t k u (rule @ es) = Inr (pos', rule')"
      by (auto simp: class_loop.simps [of _ _ pos] split: sum.splits)
    have "is_char_type ?t" "may_follow prev ?t" using "1.prems"(2,4) by (auto simp: is_char_type_def may_follow_def)
    from class_item_wf [OF u(1) this, of n] have es: "wf_from n prev es" "es \<noteq> []"
      "is_char_type (last_type prev es) \<or> last_type prev es = LLAMA_GRETYPE_CHAR_RNG_UPPER" by auto
    from "1.IH" [OF _ _ u(1) refl u(2) "1.prems"(2), of "last_type prev es"] es False "1.prems"(3)
    obtain fs where "rule' = (rule @ es) @ fs" "wf_from n (last_type prev es) fs" by auto
    with es(1) show ?thesis by (intro exI [of _ "es @ fs"]) simp
  qed
qed

lemma parse_name_plain: "parse_name s = Inr (name, rest) \<Longrightarrow> plain_name name"
proof -
  assume "parse_name s = Inr (name, rest)"
  then have "name = takeWhile is_word_char s" by (auto simp: parse_name_def Let_def split: if_splits)
  then have "\<forall>c \<in> set name. is_word_char c" by (auto dest: set_takeWhileD)
  moreover have "\<not> is_word_char (CHR ''_'')" by (simp add: is_word_char_def is_digit_char_def less_eq_char_def)
  ultimately show ?thesis by (auto simp: plain_name_def)
qed

lemma sequence_item_wf:
  assumes "sequence_item vocab nm nl q p = Inr (Some (q', p'))" "parser_ok p" "plain_name nm" "n_symbols p' < 2 ^ 32"
    "sequence_ok (n_symbols p) q"
  shows "parser_ok p' \<and> sequence_ok (n_symbols p') q'"
proof -
  note rule = sequence_ok_rule [OF assms(5)]
  from assms(1) show ?thesis
  proof (cases rule: sequence_item_cases)
    case (literal pos rule')
    with literal_loop_wf [OF literal(2), of "n_symbols p"] assms(2) rule show ?thesis by (auto intro: sequence_ok_push)
  next
    case (char_class t pos0 pos rule')
    with class_loop_wf [OF char_class(4,1), of LLAMA_GRETYPE_END "n_symbols p"] assms(2) rule show ?thesis
      by (auto intro: sequence_ok_push)
  next
    case (token t pos0 v rest)
    with assms(2) rule show ?thesis unfolding push_symbol_def by (auto intro!: sequence_ok_push simp: may_follow_def)
  next
    case (rule_ref name rest i)
    from get_symbol_id_ok [OF rule_ref(2) assms(2) parse_name_plain [OF rule_ref(1)] assms(4)]
    have "parser_ok p'" "unat i < n_symbols p'" by auto
    moreover have "wf_body (n_symbols p') (sq_rule q)" using rule n_symbols_get [OF rule_ref(2)] by (rule wf_from_mono)
    ultimately show ?thesis using rule_ref(3) unfolding push_symbol_def by (auto intro!: sequence_ok_push simp: may_follow_def)
  next
    case any
    with assms(2) rule show ?thesis unfolding push_symbol_def by (auto intro!: sequence_ok_push simp: may_follow_def)
  next
    case (repetition m n pos)
    from handle_repetitions_wf [OF repetition(4) assms(2,3,4)] assms(5) show ?thesis by (simp add: sequence_ok_def)
  qed
qed

lemma sequence_ok_start: "wf_body n rule \<Longrightarrow> sequence_ok n (start_sequence pos rule)"
  by (simp add: sequence_ok_def start_sequence_def)

lemma parse_wf_all:
  "(\<forall>rule_name nl src rule_id p pos p'.
      parse_alternates f vocab rule_name nl src rule_id p = Inr (pos, p') \<longrightarrow> parser_ok p \<longrightarrow> plain_name rule_name
        \<longrightarrow> n_symbols p' < 2 ^ 32 \<longrightarrow> unat rule_id < n_symbols p \<longrightarrow> parser_ok p')
 \<and> (\<forall>rule_name nl q p q' p'.
      alternates_loop f vocab rule_name nl q p = Inr (q', p') \<longrightarrow> parser_ok p \<longrightarrow> plain_name rule_name
        \<longrightarrow> n_symbols p' < 2 ^ 32 \<longrightarrow> sequence_ok (n_symbols p) q \<longrightarrow> parser_ok p' \<and> sequence_ok (n_symbols p') q')
 \<and> (\<forall>rule_name nl q p q' p'.
      sequence_loop f vocab rule_name nl q p = Inr (q', p') \<longrightarrow> parser_ok p \<longrightarrow> plain_name rule_name
        \<longrightarrow> n_symbols p' < 2 ^ 32 \<longrightarrow> sequence_ok (n_symbols p) q \<longrightarrow> parser_ok p' \<and> sequence_ok (n_symbols p') q')"
proof (induction f)
  case (Suc f)
  note IH = Suc [THEN conjunct1, rule_format] Suc [THEN conjunct2, THEN conjunct1, rule_format]
    Suc [THEN conjunct2, THEN conjunct2, rule_format]
  show ?case
  proof (intro conjI allI impI)
    fix rule_name nl rule_id p pos p' and src :: string
    assume a: "parse_alternates (Suc f) vocab rule_name nl src rule_id p = Inr (pos, p')"
      and p: "parser_ok p" "plain_name rule_name" "n_symbols p' < 2 ^ 32" "unat rule_id < n_symbols p"
    from a obtain q1 p1 q2 p2 where s: "sequence_loop f vocab rule_name nl (start_sequence src []) p = Inr (q1, p1)"
      "alternates_loop f vocab rule_name nl q1 p1 = Inr (q2, p2)"
      "p' = add_rule rule_id (sq_rule q2 @ [element LLAMA_GRETYPE_END 0]) p2" by (rule alternates_cases)
    note grow = n_symbols_parse(3) [OF s(1)] n_symbols_parse(2) [OF s(2)]
    have "n_symbols p2 < 2 ^ 32" "n_symbols p1 < 2 ^ 32" using p(3) grow by (simp_all add: s(3))
    with IH(3) [OF s(1) p(1,2) _ sequence_ok_start] IH(2) [OF s(2) _ p(2)]
    have q2: "parser_ok p2" "sequence_ok (n_symbols p2) q2" by auto
    then have "wf_rule (n_symbols p2) (sq_rule q2 @ [element LLAMA_GRETYPE_END 0])"
      using sequence_ok_rule by (auto simp: wf_rule_def)
    with q2(1) show "parser_ok p'" using p(4) grow unfolding s(3) by (intro add_rule_ok) simp_all
  next
    fix rule_name nl p q' p' and q :: sequence_state
    assume a: "alternates_loop (Suc f) vocab rule_name nl q p = Inr (q', p')"
      and p: "parser_ok p" "plain_name rule_name" "n_symbols p' < 2 ^ 32" "sequence_ok (n_symbols p) q"
    have goal: "parser_ok p' \<and> sequence_ok (n_symbols p') q'"
      using a
    proof (cases rule: alternates_loop_cases)
      case (more q1 p1)
      have "n_symbols p1 < 2 ^ 32" using n_symbols_parse(2) [OF more(3)] p(3) by simp
      moreover have "sequence_ok (n_symbols p) (next_alternate q)"
        using sequence_ok_rule [OF p(4)] unfolding next_alternate_def by (intro sequence_ok_start) (simp add: may_follow_def)
      ultimately have "parser_ok p1" "sequence_ok (n_symbols p1) q1" using IH(3) [OF more(2) p(1,2)] by auto
      then show ?thesis using IH(2) [OF more(3) _ p(2,3)] by simp
    qed (use p in simp)
    then show "parser_ok p'" "sequence_ok (n_symbols p') q'" by simp_all
  next
    fix rule_name nl p q' p' and q :: sequence_state
    assume a: "sequence_loop (Suc f) vocab rule_name nl q p = Inr (q', p')"
      and p: "parser_ok p" "plain_name rule_name" "n_symbols p' < 2 ^ 32" "sequence_ok (n_symbols p) q"
    have goal: "parser_ok p' \<and> sequence_ok (n_symbols p') q'"
      using a
    proof (cases rule: sequence_loop_cases)
      case (group i p1 pos p2 n)
      note grow = n_symbols_generate [OF group(2)] n_symbols_parse(1) [OF group(3)] n_symbols_parse(3) [OF group(5)]
      have "n_symbols p1 < 2 ^ 32" "n_symbols p2 < 2 ^ 32" using grow p(3) by simp_all
      with generate_symbol_id_ok [OF group(2) p(1,2)] IH(1) [OF group(3) _ p(2)]
      have p2: "parser_ok p2" "unat i < n_symbols p2" using grow by auto
      have "wf_body (n_symbols p2) (sq_rule q)" using sequence_ok_rule [OF p(4)] grow by (elim wf_from_mono) simp
      then have "sequence_ok (n_symbols p2) (group_state q (parse_space (tl pos) nl) i n)"
        using p2(2) unfolding group_state_def by (intro sequence_ok_push) (simp_all add: may_follow_def)
      with IH(3) [OF group(5) p2(1) p(2,3)] show ?thesis by simp
    next
      case (item q1 p1)
      have "n_symbols p1 < 2 ^ 32" using n_symbols_parse(3) [OF item(4)] p(3) by simp
      with sequence_item_wf [OF item(3) p(1,2) _ p(4)] IH(3) [OF item(4) _ p(2,3)] show ?thesis by simp
    qed (use p in simp)
    then show "parser_ok p'" "sequence_ok (n_symbols p') q'" by simp_all
  qed
qed simp

lemma parse_rule_cases:
  assumes "parse_rule vocab src p = Inr (pos, p')"
  obtains name name_end i p1 pos0 pos2 where "parse_name src = Inr (name, name_end)" "get_symbol_id name p = (i, p1)"
    "parse_alternates (seq_fuel pos0) vocab name False pos0 i p1 = Inr (pos2, p')"
proof -
  from assms obtain name name_end where n: "parse_name src = Inr (name, name_end)" by (auto simp: parse_rule_def ebind_Inr_iff)
  obtain i p1 where g: "get_symbol_id name p = (i, p1)" by (cases "get_symbol_id name p")
  define pos0 where "pos0 = parse_space (drop 3 (parse_space name_end False)) True"
  from assms n g obtain pos2 p2 where "parse_alternates (seq_fuel pos0) vocab name False pos0 i p1 = Inr (pos2, p2)" "p2 = p'"
    unfolding pos0_def by (auto simp: parse_rule_def Let_def ebind_Inr_iff split: if_splits)
  with that [OF n g] show thesis by simp
qed

lemma n_symbols_rule: "parse_rule vocab src p = Inr (pos, p') \<Longrightarrow> n_symbols p \<le> n_symbols p'"
  by (erule parse_rule_cases) (auto dest!: n_symbols_get n_symbols_parse(1))

lemma n_symbols_rules: "rules_loop f vocab pos p = Inr p' \<Longrightarrow> n_symbols p \<le> n_symbols p'"
proof (induction f arbitrary: pos p)
  case (Suc f)
  show ?case
  proof (cases "pos = []")
    case False
    with Suc.prems obtain pos1 p1 where r: "parse_rule vocab pos p = Inr (pos1, p1)" "rules_loop f vocab pos1 p1 = Inr p'"
      by (auto simp: ebind_Inr_iff)
    from n_symbols_rule [OF r(1)] Suc.IH [OF r(2)] show ?thesis by simp
  qed (use Suc.prems in simp)
qed simp

lemma parse_rule_wf:
  assumes "parse_rule vocab src p = Inr (pos, p')" "parser_ok p" "n_symbols p' < 2 ^ 32"
  shows "parser_ok p'"
proof -
  from assms(1) obtain name name_end i p1 pos0 pos2 where n: "parse_name src = Inr (name, name_end)" "get_symbol_id name p = (i, p1)"
    "parse_alternates (seq_fuel pos0) vocab name False pos0 i p1 = Inr (pos2, p')" by (rule parse_rule_cases)
  note plain = parse_name_plain [OF n(1)]
  have "n_symbols p1 < 2 ^ 32" using n_symbols_parse(1) [OF n(3)] assms(3) by simp
  from get_symbol_id_ok [OF n(2) assms(2) plain this] have "parser_ok p1" "unat i < n_symbols p1" by auto
  then show "parser_ok p'" using parse_wf_all [THEN conjunct1, rule_format, OF n(3) _ plain assms(3)] by simp
qed

lemma rules_loop_wf:
  "rules_loop f vocab pos p = Inr p' \<Longrightarrow> parser_ok p \<Longrightarrow> n_symbols p' < 2 ^ 32 \<Longrightarrow> parser_ok p'"
proof (induction f arbitrary: pos p)
  case (Suc f)
  show ?case
  proof (cases "pos = []")
    case False
    with Suc.prems(1) obtain pos1 p1 where r: "parse_rule vocab pos p = Inr (pos1, p1)" "rules_loop f vocab pos1 p1 = Inr p'"
      by (auto simp: ebind_Inr_iff)
    from parse_rule_wf [OF r(1) Suc.prems(2)] n_symbols_rules [OF r(2)] Suc.prems(3) have "parser_ok p1" by simp
    from Suc.IH [OF r(2) this Suc.prems(3)] show ?thesis .
  qed (use Suc.prems in simp)
qed simp

section \<open>The final check\<close>

lemma map_filter_Nil: "List.map_filter f xs = [] \<longleftrightarrow> (\<forall>x \<in> set xs. f x = None)"
  by (induction xs) (auto simp: List.map_filter_simps split: option.split)

lemma undefined_ref_found:
  assumes "parser_ok p" "undefined_ref p e = None" "ge_type e = LLAMA_GRETYPE_RULE_REF" "unat (ge_value e) < n_symbols p"
  shows "unat (ge_value e) < length (gp_rules p)"
proof (rule ccontr)
  assume no: "\<not> unat (ge_value e) < length (gp_rules p)"
  have "unat (ge_value e) \<in> (unat \<circ> snd) ` set (gp_symbol_ids p)"
    using assms(1,4) by (simp add: parser_ok_def symbols_ok_def n_symbols_def)
  then obtain kv where "kv \<in> set (gp_symbol_ids p)" "snd kv = ge_value e" by (auto simp: word_unat_eq_iff)
  then have "find (\<lambda>kv. snd kv = ge_value e) (gp_symbol_ids p) \<noteq> None" unfolding find_None_iff by blast
  with assms(2,3) no show False by (auto simp: undefined_ref_def)
qed

lemma wf_from_refs:
  "wf_from m t es \<Longrightarrow> (\<And>e. e \<in> set es \<Longrightarrow> ge_type e = LLAMA_GRETYPE_RULE_REF \<Longrightarrow> unat (ge_value e) < n) \<Longrightarrow> wf_from n t es"
  by (induction m t es rule: wf_from.induct) auto

lemma wf_from_refs_lt: "wf_from m t es \<Longrightarrow> e \<in> set es \<Longrightarrow> ge_type e = LLAMA_GRETYPE_RULE_REF \<Longrightarrow> unat (ge_value e) < m"
  by (induction m t es rule: wf_from.induct) auto

lemma check_rules_wf:
  assumes "parser_ok p" "check_rules p = Inr ()"
  shows "wf_rules (gp_rules p)"
  unfolding wf_rules_def
proof
  fix rule assume r: "rule \<in> set (gp_rules p)"
  have "List.map_filter (check_rule p) (gp_rules p) = []" using assms(2) by (auto simp: check_rules_def split: list.splits)
  with r have c: "check_rule p rule = None" by (simp add: map_filter_Nil)
  then have ne: "rule \<noteq> []" and u: "\<forall>e \<in> set rule. undefined_ref p e = None"
    by (auto simp: check_rule_def map_filter_Nil split: if_splits list.splits)
  with r assms(1) obtain body where b: "rule = body @ [element LLAMA_GRETYPE_END 0]" "wf_body (n_symbols p) body"
    by (auto simp: parser_ok_def wf_rule_def n_symbols_def)
  have "wf_body (length (gp_rules p)) body"
    using b(2)
  proof (rule wf_from_refs)
    fix e assume e: "e \<in> set body" "ge_type e = LLAMA_GRETYPE_RULE_REF"
    show "unat (ge_value e) < length (gp_rules p)"
      using undefined_ref_found [OF assms(1) _ e(2) wf_from_refs_lt [OF b(2) e]] u e(1) b(1) by simp
  qed
  with b(1) show "wf_rule (length (gp_rules p)) rule" by (auto simp: wf_rule_def)
qed

lemma parsed_grammar_ok:
  assumes "llama_grammar_parser_parse vocab src llama_grammar_parser_new = Inr (Some p)" and "length (gp_symbol_ids p) < 2 ^ 32"
  shows "wf_rules (gp_rules p) \<and> symbols_ok (gp_symbol_ids p) \<and> length (gp_rules p) \<le> length (gp_symbol_ids p)"
proof -
  from assms(1) obtain f pos where r: "rules_loop f vocab pos llama_grammar_parser_new = Inr p" "check_rules p = Inr ()"
    by (auto simp: llama_grammar_parser_parse_def grammar_parse_def Let_def ebind_Inr_iff simp del: rules_loop.simps
      split: sum.splits parse_error.splits)
  have p: "parser_ok p" using rules_loop_wf [OF r(1) parser_ok_new] assms(2) by (simp add: n_symbols_def)
  with check_rules_wf [OF p r(2)] show ?thesis by (simp add: parser_ok_def)
qed

section \<open>Properties\<close>

text \<open>
  The grammar parser ends on every text, nested groups and unclosed brackets included, and
  neither of its assertions can fail: it returns a parser or reports failure.
\<close>

theorem grammar_parser_returns: "\<exists>r. llama_grammar_parser_parse vocab src p = Inr r"
proof -
  have "no_fault (grammar_parse vocab (c_str src) p)"
    unfolding grammar_parse_def Let_def by (intro no_fault_intros rules_loop_ok check_rules_ok) simp_all
  then show ?thesis
    by (auto simp: llama_grammar_parser_parse_def no_fault_def split: sum.split parse_error.split)
qed

text \<open>
  C29. A grammar that parses is well typed: every rule is a list of alternates closed by one
  \<open>END\<close>, range ends and class alternates only follow a character, every reference names a rule
  of the table, and the symbols are numbered without gaps or repetitions (as long as there are
  fewer than \<open>2^32\<close> symbols).
\<close>

theorem parsed_grammar_wf:
  assumes "llama_grammar_parser_parse vocab src llama_grammar_parser_new = Inr (Some p)" and "length (gp_symbol_ids p) < 2 ^ 32"
  shows "wf_rules (gp_rules p) \<and> symbols_ok (gp_symbol_ids p) \<and> length (gp_rules p) \<le> length (gp_symbol_ids p)"
  using parsed_grammar_ok [OF assms] .

definition demo_grammar :: string where
  "demo_grammar = ''root ::= [a-c]+ b | .'' @ [CHR 0x0A] @ ''b ::= root?''"

definition demo_parser :: llama_grammar_parser where
  "demo_parser = (case llama_grammar_parser_parse None demo_grammar llama_grammar_parser_new of Inr (Some p) \<Rightarrow> p | _ \<Rightarrow> llama_grammar_parser_new)"

lemma demo_parse: "llama_grammar_parser_parse None demo_grammar llama_grammar_parser_new = Inr (Some demo_parser) \<and> length (gp_symbol_ids demo_parser) = 4"
  by code_simp

lemma parsed_grammar_wf_witness: "wf_rules (gp_rules demo_parser) \<and> symbols_ok (gp_symbol_ids demo_parser)"
  using parsed_grammar_wf [OF conjunct1 [OF demo_parse]] demo_parse by simp

end
