(* ===== verification/Grammar_Machine.thy ===== *)
theory Grammar_Machine
  imports Grammar_Wf
begin

text \<open>
  The pushdown machine of the grammar engine (\<open>src/llama-grammar.cpp\<close>): matching of one element,
  the expansion of a stack until a terminal is on top, acceptance of a character and rejection of
  candidate tokens. A pointer to an element is the number of its rule and its offset; a stack has
  its top at the end, like the vector of the code. A result is \<open>None\<close> when the code does not
  return, \<open>Inl\<close> when it fails.
\<close>

section \<open>Results\<close>

datatype machine_error = Aborted string | Thrown string | Undefined_Behaviour

type_synonym 'a machine = "(machine_error + 'a) option"

definition mret :: "'a \<Rightarrow> 'a machine" where
  "mret x = Some (Inr x)"

definition mfail :: "machine_error \<Rightarrow> 'a machine" where
  "mfail e = Some (Inl e)"

definition mbind :: "'a machine \<Rightarrow> ('a \<Rightarrow> 'b machine) \<Rightarrow> 'b machine" where
  "mbind m f = (case m of None \<Rightarrow> None | Some (Inl e) \<Rightarrow> Some (Inl e) | Some (Inr x) \<Rightarrow> f x)"

fun mfold :: "('a \<Rightarrow> 'b \<Rightarrow> 'b machine) \<Rightarrow> 'a list \<Rightarrow> 'b \<Rightarrow> 'b machine" where
  "mfold f [] b = mret b"
| "mfold f (x # xs) b = mbind (f x b) (\<lambda>b. mfold f xs b)"

section \<open>Positions and elements\<close>

type_synonym grammar_pos = "nat \<times> nat"
type_synonym llama_grammar_stack = "grammar_pos list"
type_synonym llama_grammar_stacks = "llama_grammar_stack list"

definition elem :: "llama_grammar_rules \<Rightarrow> grammar_pos \<Rightarrow> llama_grammar_element" where
  "elem rs pos = rs ! fst pos ! snd pos"

definition pos_plus :: "grammar_pos \<Rightarrow> nat \<Rightarrow> grammar_pos" where
  "pos_plus pos k = (fst pos, snd pos + k)"

definition is_end_elem :: "llama_grammar_element \<Rightarrow> bool" where
  "is_end_elem e \<longleftrightarrow> ge_type e = LLAMA_GRETYPE_END \<or> ge_type e = LLAMA_GRETYPE_ALT"

definition llama_grammar_is_end_of_sequence :: "llama_grammar_rules \<Rightarrow> grammar_pos \<Rightarrow> bool" where
  "llama_grammar_is_end_of_sequence rs pos = is_end_elem (elem rs pos)"

section \<open>Matching\<close>

text \<open>
  The loop over the elements of a character class: what was found so far, and how many elements
  the loop has read.
\<close>

function match_char_loop :: "u32 \<Rightarrow> bool \<Rightarrow> llama_grammar_rule \<Rightarrow> bool \<times> nat" where
  "match_char_loop chr found es =
     (case es of
        e # e1 # _ \<Rightarrow>
          (let (found, k) =
             (if ge_type e1 = LLAMA_GRETYPE_CHAR_RNG_UPPER then (found \<or> (ge_value e \<le> chr \<and> chr \<le> ge_value e1), 2)
              else if ge_type e = LLAMA_GRETYPE_CHAR_ANY then (True, 1)
              else (found \<or> ge_value e = chr, 1)) in
           case drop k es of
             e' # _ \<Rightarrow> if ge_type e' = LLAMA_GRETYPE_CHAR_ALT
                 then (let (found, n) = match_char_loop chr found (drop k es) in (found, k + n)) else (found, k)
           | [] \<Rightarrow> (found, k))
      | _ \<Rightarrow> (found, 0))"
  by pat_completeness auto
termination
  by (relation "measure (\<lambda>(_, _, es). length es)") (auto split: if_splits)

declare match_char_loop.simps [simp del]

definition is_positive :: "llama_grammar_element \<Rightarrow> bool" where
  "is_positive e \<longleftrightarrow> ge_type e = LLAMA_GRETYPE_CHAR \<or> ge_type e = LLAMA_GRETYPE_CHAR_ANY"

definition llama_grammar_match_char :: "llama_grammar_rules \<Rightarrow> grammar_pos \<Rightarrow> u32 \<Rightarrow> (bool \<times> grammar_pos) machine" where
  "llama_grammar_match_char rs pos chr =
     (let e = elem rs pos in
      if \<not> (is_positive e \<or> ge_type e = LLAMA_GRETYPE_CHAR_NOT) then mfail (Aborted ''match_char'')
      else let (found, n) = match_char_loop chr False (drop (snd pos) (rs ! fst pos)) in
        mret (found = is_positive e, pos_plus pos n))"

function match_partial_loop :: "bool \<Rightarrow> u32 \<Rightarrow> u32 \<Rightarrow> llama_grammar_rule \<Rightarrow> bool" where
  "match_partial_loop is_positive_char low high es =
     (case es of
        e # e1 # _ \<Rightarrow>
          if ge_type e1 = LLAMA_GRETYPE_CHAR_RNG_UPPER then
            if ge_value e \<le> high \<and> low \<le> ge_value e1 then is_positive_char
            else if drop 2 es \<noteq> [] \<and> ge_type (hd (drop 2 es)) = LLAMA_GRETYPE_CHAR_ALT
              then match_partial_loop is_positive_char low high (drop 2 es) else \<not> is_positive_char
          else if ge_type e = LLAMA_GRETYPE_CHAR_ANY then True
          else if low \<le> ge_value e \<and> ge_value e \<le> high then is_positive_char
          else if ge_type e1 = LLAMA_GRETYPE_CHAR_ALT
            then match_partial_loop is_positive_char low high (drop 1 es) else \<not> is_positive_char
      | _ \<Rightarrow> \<not> is_positive_char)"
  by pat_completeness auto
termination
  by (relation "measure (\<lambda>(_, _, _, es). length es)") auto

declare match_partial_loop.simps [simp del]

text \<open>The code points a partial sequence can still become.\<close>

definition partial_range :: "llama_partial_utf8 \<Rightarrow> u32 \<times> u32" where
  "partial_range p =
     (let n = nat (pu_remain p);
          low = push_bit (n * 6) (pu_value p);
          high = low OR (2 ^ (n * 6) - 1)
      in (if low = 0 then (if n = 2 then 2 ^ 11 else if n = 3 then 2 ^ 16 else low) else low, high))"

definition llama_grammar_match_partial_char :: "llama_grammar_rules \<Rightarrow> grammar_pos \<Rightarrow> llama_partial_utf8 \<Rightarrow> bool machine" where
  "llama_grammar_match_partial_char rs pos p =
     (let e = elem rs pos in
      if \<not> (is_positive e \<or> ge_type e = LLAMA_GRETYPE_CHAR_NOT) then mfail (Aborted ''match_partial_char'')
      else if pu_remain p < 0 \<or> (pu_remain p = 1 \<and> pu_value p < 2) then mret False
      else case partial_range p of (low, high) \<Rightarrow>
        mret (match_partial_loop (is_positive e) low high (drop (snd pos) (rs ! fst pos))))"

definition is_token_elem :: "llama_grammar_element \<Rightarrow> bool" where
  "is_token_elem e \<longleftrightarrow> ge_type e = LLAMA_GRETYPE_TOKEN \<or> ge_type e = LLAMA_GRETYPE_TOKEN_NOT"

text \<open>\<open>llama_grammar_match_token\<close>, at a token element as its assertion requires.\<close>

definition llama_grammar_match_token :: "llama_grammar_rules \<Rightarrow> grammar_pos \<Rightarrow> u32 \<Rightarrow> bool" where
  "llama_grammar_match_token rs pos token =
     (if ge_type (elem rs pos) = LLAMA_GRETYPE_TOKEN then ge_value (elem rs pos) = token
      else if ge_type (elem rs pos) = LLAMA_GRETYPE_TOKEN_NOT then ge_value (elem rs pos) \<noteq> token
      else False)"

section \<open>Expansion of stacks\<close>

text \<open>Where the alternates of a rule begin.\<close>

function alternate_starts :: "llama_grammar_rule \<Rightarrow> nat \<Rightarrow> nat list" where
  "alternate_starts rule i =
     i # (let j = i + length (takeWhile (\<lambda>e. \<not> is_end_elem e) (drop i rule)) in
          if j < length rule \<and> ge_type (rule ! j) = LLAMA_GRETYPE_ALT then alternate_starts rule (j + 1) else [])"
  by pat_completeness auto
termination
  by (relation "measure (\<lambda>(rule, i). length rule - i)") auto

declare alternate_starts.simps [simp del]

definition next_stack :: "llama_grammar_rules \<Rightarrow> llama_grammar_stack \<Rightarrow> grammar_pos \<Rightarrow> llama_grammar_stack" where
  "next_stack rs stack pos = butlast stack @ (if llama_grammar_is_end_of_sequence rs pos then [] else [pos])"

text \<open>The stacks a rule reference on top is replaced by, in the order they are pushed.\<close>

definition expansions :: "llama_grammar_rules \<Rightarrow> llama_grammar_stack \<Rightarrow> llama_grammar_stack list" where
  "expansions rs stack =
     (let pos = last stack; rule_id = unat (ge_value (elem rs pos)) in
      map (\<lambda>i. next_stack rs stack (pos_plus pos 1) @ (if llama_grammar_is_end_of_sequence rs (rule_id, i) then [] else [(rule_id, i)]))
        (alternate_starts (rs ! rule_id) 0))"

definition is_terminal :: "llama_grammar_element \<Rightarrow> bool" where
  "is_terminal e \<longleftrightarrow> is_positive e \<or> ge_type e = LLAMA_GRETYPE_CHAR_NOT \<or> is_token_elem e"

definition push_new :: "'a \<Rightarrow> 'a list \<Rightarrow> 'a list" where
  "push_new s ss = (if s \<in> set ss then ss else ss @ [s])"

text \<open>The loop of \<open>llama_grammar_advance_stack\<close>; the last entry of \<open>todo\<close> is the head of the list.\<close>

partial_function (option) advance_loop ::
  "llama_grammar_rules \<Rightarrow> llama_grammar_stacks \<Rightarrow> llama_grammar_stacks \<Rightarrow> llama_grammar_stacks \<Rightarrow> llama_grammar_stacks machine" where
  "advance_loop rs todo seen new_stacks =
     (case todo of
        [] \<Rightarrow> Some (Inr new_stacks)
      | stack # todo \<Rightarrow>
          if stack \<in> set seen then advance_loop rs todo seen new_stacks
          else if stack = [] then advance_loop rs todo (stack # seen) (push_new stack new_stacks)
          else if ge_type (elem rs (last stack)) = LLAMA_GRETYPE_RULE_REF
            then advance_loop rs (rev (expansions rs stack) @ todo) (stack # seen) new_stacks
          else if is_terminal (elem rs (last stack)) then advance_loop rs todo (stack # seen) (push_new stack new_stacks)
          else Some (Inl (Aborted ''fatal error'')))"

declare advance_loop.simps [code]

definition llama_grammar_advance_stack ::
  "llama_grammar_rules \<Rightarrow> llama_grammar_stack \<Rightarrow> llama_grammar_stacks \<Rightarrow> llama_grammar_stacks machine" where
  "llama_grammar_advance_stack rs stack new_stacks = advance_loop rs [stack] [] new_stacks"

section \<open>Acceptance of a character\<close>

definition llama_grammar_accept_chr ::
  "llama_grammar_rules \<Rightarrow> u32 \<Rightarrow> llama_grammar_stack \<Rightarrow> llama_grammar_stacks \<Rightarrow> llama_grammar_stacks machine" where
  "llama_grammar_accept_chr rs chr stack new_stacks =
     (if stack = [] then mret new_stacks
      else if is_token_elem (elem rs (last stack)) then mret new_stacks
      else mbind (llama_grammar_match_char rs (last stack) chr) (\<lambda>(matched, pos).
        if matched then llama_grammar_advance_stack rs (next_stack rs stack pos) new_stacks else mret new_stacks))"

text \<open>\<open>llama_grammar_accept\<close> on the stacks of the grammar.\<close>

definition accept_stacks :: "llama_grammar_rules \<Rightarrow> u32 \<Rightarrow> llama_grammar_stacks \<Rightarrow> llama_grammar_stacks machine" where
  "accept_stacks rs chr stacks = mfold (llama_grammar_accept_chr rs chr) stacks []"

section \<open>Rejection of candidates\<close>

text \<open>\<open>code_points\<close> is a pointer into a vector closed by 0.\<close>

record llama_grammar_candidate =
  cd_index :: nat
  cd_vector :: "u32 list"
  cd_offset :: nat
  cd_partial_utf8 :: llama_partial_utf8
  cd_id :: u32

definition code_point :: "llama_grammar_candidate \<Rightarrow> u32" where
  "code_point tok = cd_vector tok ! cd_offset tok"

text \<open>
  The three cases of \<open>llama_grammar_reject_candidates_for_stack\<close> decide for one candidate:
  rejected, accepted, or (\<open>None\<close>) passed on with the next code point.
\<close>

definition reject_empty :: "llama_grammar_candidate \<Rightarrow> bool" where
  "reject_empty tok \<longleftrightarrow> code_point tok \<noteq> 0 \<or> pu_remain (cd_partial_utf8 tok) \<noteq> 0"

definition reject_token :: "llama_grammar_rules \<Rightarrow> grammar_pos \<Rightarrow> llama_grammar_candidate \<Rightarrow> bool" where
  "reject_token rs pos tok \<longleftrightarrow>
     (if code_point tok = 0 then pu_remain (cd_partial_utf8 tok) \<noteq> 0 else \<not> llama_grammar_match_token rs pos (cd_id tok))"

definition reject_char :: "llama_grammar_rules \<Rightarrow> grammar_pos \<Rightarrow> llama_grammar_candidate \<Rightarrow> bool option machine" where
  "reject_char rs pos tok =
     (if code_point tok = 0 then
        if pu_remain (cd_partial_utf8 tok) = 0 then mret (Some False)
        else mbind (llama_grammar_match_partial_char rs pos (cd_partial_utf8 tok)) (\<lambda>b. mret (Some (\<not> b)))
      else mbind (llama_grammar_match_char rs pos (code_point tok)) (\<lambda>(b, _). mret (if b then None else Some True)))"

text \<open>The loop that splits the candidates into rejects and next candidates.\<close>

fun split_candidates ::
  "llama_grammar_rules \<Rightarrow> grammar_pos \<Rightarrow> llama_grammar_candidate list \<Rightarrow> (llama_grammar_candidate list \<times> llama_grammar_candidate list) machine" where
  "split_candidates rs pos [] = mret ([], [])"
| "split_candidates rs pos (tok # toks) =
     mbind (reject_char rs pos tok) (\<lambda>r. mbind (split_candidates rs pos toks) (\<lambda>(rejects, nexts). mret (case r of
         None \<Rightarrow> (rejects, tok\<lparr>cd_offset := cd_offset tok + 1\<rparr> # nexts)
       | Some True \<Rightarrow> (tok # rejects, nexts)
       | Some False \<Rightarrow> (rejects, nexts))))"

text \<open>
  The two functions call each other with one code point less: \<open>d\<close> bounds the depth, \<open>None\<close>
  past it.
\<close>

fun reject_for_stack ::
    "nat \<Rightarrow> llama_grammar_rules \<Rightarrow> llama_grammar_stack \<Rightarrow> llama_grammar_candidate list \<Rightarrow> llama_grammar_candidate list machine"
where
  "reject_for_stack 0 rs stack cands = None"
| "reject_for_stack (Suc d) rs stack cands =
     (if stack = [] then mret (filter reject_empty cands)
      else
        let pos = last stack in
        if is_token_elem (elem rs pos) then mret (filter (reject_token rs pos) cands)
        else
          mbind (split_candidates rs pos cands) (\<lambda>(rejects, next_candidates).
          mbind (llama_grammar_match_char rs pos 0) (\<lambda>(_, pos_after).
          mbind (llama_grammar_advance_stack rs (next_stack rs stack pos_after) []) (\<lambda>next_stacks.
          if next_stacks = [] then mfail (Aborted ''!stacks.empty()'')
          else
            mbind (if next_candidates = [] then mret []
                   else mfold (reject_for_stack d rs) next_stacks next_candidates) (\<lambda>next_rejects.
              mret (rejects @ map (\<lambda>tok. tok\<lparr>cd_offset := cd_offset tok - 1\<rparr>) next_rejects))))))"

definition reject_fuel :: "llama_grammar_candidate list \<Rightarrow> nat" where
  "reject_fuel cands = Max (insert 0 (set (map (\<lambda>tok. length (cd_vector tok)) cands))) + 1"

definition llama_grammar_reject_candidates ::
  "llama_grammar_rules \<Rightarrow> llama_grammar_stacks \<Rightarrow> llama_grammar_candidate list \<Rightarrow> llama_grammar_candidate list machine" where
  "llama_grammar_reject_candidates rs stacks cands =
     (if stacks = [] then mfail (Aborted ''!stacks.empty()'')
      else if cands = [] then mret []
      else mfold (reject_for_stack (reject_fuel cands) rs) stacks cands)"

end
