(* ===== verification/Grammar_Language.thy ===== *)
theory Grammar_Language
  imports Grammar_Machine
begin

text \<open>
  The language of a grammar, as a derivation relation over the rules, and the proof that the
  pushdown machine follows it: expanding a stack loses and adds nothing, and accepting a character
  is the derivative of the language by that character.
\<close>

section \<open>Results of the machine\<close>

lemma mbind_simps [simp]: "mbind None f = None" "mbind (Some (Inl e)) f = Some (Inl e)" "mbind (Some (Inr x)) f = f x"
    "mbind (mret x) f = f x" "mbind (mfail e) f = mfail e"
  by (simp_all add: mbind_def mret_def mfail_def)

lemma mbind_returns: "mbind m f = Some (Inr y) \<longleftrightarrow> (\<exists>x. m = Some (Inr x) \<and> f x = Some (Inr y))"
  by (auto simp: mbind_def split: option.splits sum.splits)

lemma mret_returns [simp]: "mret x = Some (Inr y) \<longleftrightarrow> x = y" "mfail e \<noteq> Some (Inr y)"
  by (auto simp: mret_def mfail_def)

section \<open>Positions\<close>

definition proper_type :: "llama_gretype \<Rightarrow> bool" where
  "proper_type t \<longleftrightarrow> t \<noteq> LLAMA_GRETYPE_CHAR_ALT \<and> t \<noteq> LLAMA_GRETYPE_CHAR_RNG_UPPER"

text \<open>A position a stack may hold, or the end of a sequence.\<close>

definition pos_ok :: "llama_grammar_rules \<Rightarrow> grammar_pos \<Rightarrow> bool" where
  "pos_ok rs pos \<longleftrightarrow> fst pos < length rs \<and> snd pos < length (rs ! fst pos) \<and> proper_type (ge_type (elem rs pos))"

definition stack_ok :: "llama_grammar_rules \<Rightarrow> llama_grammar_stack \<Rightarrow> bool" where
  "stack_ok rs stack \<longleftrightarrow> (\<forall>pos \<in> set stack. pos_ok rs pos \<and> \<not> llama_grammar_is_end_of_sequence rs pos)"

lemma wf_from_nth:
  "wf_from n t es \<Longrightarrow> i < length es \<Longrightarrow>
    may_follow (if i = 0 then t else ge_type (es ! (i - 1))) (ge_type (es ! i))
    \<and> (ge_type (es ! i) = LLAMA_GRETYPE_RULE_REF \<longrightarrow> unat (ge_value (es ! i)) < n)"
proof (induction n t es arbitrary: i rule: wf_from.induct)
  case (2 n t e es)
  show ?case
  proof (cases i)
    case (Suc k)
    have "ge_type ((e # es) ! (i - 1)) = (if k = 0 then ge_type e else ge_type (es ! (k - 1)))" using Suc by (cases k) auto
    with "2.IH" [of k] "2.prems" Suc show ?thesis by simp
  qed (use 2 in simp)
qed simp

lemma wf_rule_nth:
  assumes "wf_rule n rule" "i < length rule"
  shows "ge_type (rule ! i) = LLAMA_GRETYPE_END \<longleftrightarrow> Suc i = length rule"
    and "ge_type (rule ! i) = LLAMA_GRETYPE_RULE_REF \<Longrightarrow> unat (ge_value (rule ! i)) < n"
    and "i = 0 \<Longrightarrow> proper_type (ge_type (rule ! i))"
    and "0 < i \<Longrightarrow> ge_type (rule ! i) = LLAMA_GRETYPE_CHAR_RNG_UPPER \<Longrightarrow> is_char_type (ge_type (rule ! (i - 1)))"
    and "0 < i \<Longrightarrow> ge_type (rule ! i) = LLAMA_GRETYPE_CHAR_ALT \<Longrightarrow>
      is_char_type (ge_type (rule ! (i - 1))) \<or> ge_type (rule ! (i - 1)) = LLAMA_GRETYPE_CHAR_RNG_UPPER"
proof -
  from assms(1) obtain body where b: "rule = body @ [element LLAMA_GRETYPE_END 0]" "wf_body n body" by (auto simp: wf_rule_def)
  have at_end: "\<not> i < length body \<Longrightarrow> i = length body \<and> rule ! i = element LLAMA_GRETYPE_END 0"
    using assms(2) b(1) by (auto simp: nth_append)
  have inside: "i < length body \<Longrightarrow> rule ! i = body ! i \<and> rule ! (i - 1) = body ! (i - 1)" using b(1) by (auto simp: nth_append)
  note nth = wf_from_nth [OF b(2), of i]
  show "ge_type (rule ! i) = LLAMA_GRETYPE_END \<longleftrightarrow> Suc i = length rule"
    using at_end inside nth b(1) by (cases "i < length body") (auto simp: may_follow_def)
  show "ge_type (rule ! i) = LLAMA_GRETYPE_RULE_REF \<Longrightarrow> unat (ge_value (rule ! i)) < n"
    using at_end inside nth by (cases "i < length body") auto
  show "i = 0 \<Longrightarrow> proper_type (ge_type (rule ! i))"
    using at_end inside nth by (cases "i < length body") (auto simp: may_follow_def proper_type_def is_char_type_def)
  show "0 < i \<Longrightarrow> ge_type (rule ! i) = LLAMA_GRETYPE_CHAR_RNG_UPPER \<Longrightarrow> is_char_type (ge_type (rule ! (i - 1)))"
    using at_end inside nth by (cases "i < length body") (auto simp: may_follow_def)
  show "0 < i \<Longrightarrow> ge_type (rule ! i) = LLAMA_GRETYPE_CHAR_ALT \<Longrightarrow>
      is_char_type (ge_type (rule ! (i - 1))) \<or> ge_type (rule ! (i - 1)) = LLAMA_GRETYPE_CHAR_RNG_UPPER"
    using at_end inside nth by (cases "i < length body") (auto simp: may_follow_def)
qed

lemma wf_rules_nth: "wf_rules rs \<Longrightarrow> r < length rs \<Longrightarrow> wf_rule (length rs) (rs ! r)"
  by (simp add: wf_rules_def)

lemma next_pos_ok:
  assumes "wf_rules rs" "pos_ok rs pos" "\<not> llama_grammar_is_end_of_sequence rs pos" "\<not> is_char_type (ge_type (elem rs pos))"
  shows "pos_ok rs (pos_plus pos 1)"
proof -
  let ?rule = "rs ! fst pos"
  have wf: "wf_rule (length rs) ?rule" using assms(1,2) by (simp add: wf_rules_nth pos_ok_def)
  have i: "snd pos < length ?rule" "Suc (snd pos) \<noteq> length ?rule"
    using assms(2,3) wf_rule_nth(1) [OF wf, of "snd pos"]
    by (auto simp: pos_ok_def llama_grammar_is_end_of_sequence_def is_end_elem_def elem_def)
  then have j: "Suc (snd pos) < length ?rule" by simp
  have "ge_type (?rule ! snd pos) \<noteq> LLAMA_GRETYPE_CHAR_RNG_UPPER" using assms(2) by (simp add: pos_ok_def proper_type_def elem_def)
  with wf_rule_nth(4,5) [OF wf j] assms(4) have "proper_type (ge_type (?rule ! Suc (snd pos)))"
    by (auto simp: proper_type_def elem_def)
  with assms(2) j show ?thesis by (simp add: pos_ok_def pos_plus_def elem_def)
qed

lemma alternate_starts_ok:
  assumes "wf_rule n rule" "i < length rule" "proper_type (ge_type (rule ! i))" "j \<in> set (alternate_starts rule i)"
  shows "j < length rule \<and> proper_type (ge_type (rule ! j))"
  using assms
proof (induction rule i rule: alternate_starts.induct)
  case (1 rule i)
  define k where "k = i + length (takeWhile (\<lambda>e. \<not> is_end_elem e) (drop i rule))"
  from 1(5) consider "j = i" | "k < length rule" "ge_type (rule ! k) = LLAMA_GRETYPE_ALT" "j \<in> set (alternate_starts rule (k + 1))"
    by (subst (asm) alternate_starts.simps) (auto simp: k_def Let_def split: if_splits)
  then show ?case
  proof cases
    case 2
    have k: "Suc k \<noteq> length rule" using wf_rule_nth(1) [OF 1(2) 2(1)] 2(2) by simp
    with 2(1) have l: "Suc k < length rule" by simp
    have "proper_type (ge_type (rule ! Suc k))"
      using wf_rule_nth(4,5) [OF 1(2) l] 2(2) by (auto simp: proper_type_def is_char_type_def)
    with "1.IH" [OF k_def _ 1(2)] 2 l show ?thesis by simp
  qed (use 1 in simp)
qed

lemma rule_start_ok: "wf_rule n rule \<Longrightarrow> 0 < length rule \<and> proper_type (ge_type (rule ! 0))"
  using wf_rule_nth(3) [of n rule 0] by (auto simp: wf_rule_def)

lemma rule_alternates_ok:
  assumes "wf_rules rs" "r < length rs" "i \<in> set (alternate_starts (rs ! r) 0)"
  shows "pos_ok rs (r, i)"
  using alternate_starts_ok [OF wf_rules_nth [OF assms(1,2)] _ _ assms(3)] rule_start_ok [OF wf_rules_nth [OF assms(1,2)]] assms(2)
  by (simp add: pos_ok_def elem_def)

section \<open>Character classes\<close>

text \<open>
  The class that begins at an element: the modifiers that follow it belong to it; a code point is
  in the class when it is in one of its ranges.
\<close>

definition class_length :: "llama_grammar_rule \<Rightarrow> nat" where
  "class_length es = 1 + length (takeWhile (\<lambda>e. \<not> proper_type (ge_type e)) (tl es))"

definition in_range :: "llama_grammar_rule \<Rightarrow> nat \<Rightarrow> u32 \<Rightarrow> bool" where
  "in_range es i c \<longleftrightarrow> ge_type (es ! i) \<noteq> LLAMA_GRETYPE_CHAR_RNG_UPPER \<and>
     (if ge_type (es ! Suc i) = LLAMA_GRETYPE_CHAR_RNG_UPPER then ge_value (es ! i) \<le> c \<and> c \<le> ge_value (es ! Suc i)
      else ge_type (es ! i) = LLAMA_GRETYPE_CHAR_ANY \<or> ge_value (es ! i) = c)"

definition in_class :: "llama_grammar_rule \<Rightarrow> u32 \<Rightarrow> bool" where
  "in_class es c \<longleftrightarrow> (\<exists>i < class_length es. in_range es i c)"

lemma class_length_step:
  assumes "es = e # e1 # rest"
  shows "class_length es = (if proper_type (ge_type e1) then 1 else 1 + class_length (e1 # rest))"
  using assms by (simp add: class_length_def)

lemma in_class_step:
  assumes "es = e # e1 # rest"
  shows "in_class es c \<longleftrightarrow> in_range es 0 c \<or> (\<not> proper_type (ge_type e1) \<and> in_class (e1 # rest) c)"
proof -
  have "in_range es (Suc i) c \<longleftrightarrow> in_range (e1 # rest) i c" for i using assms by (simp add: in_range_def)
  then show ?thesis
    unfolding in_class_def class_length_step [OF assms] by (auto simp: less_Suc_eq_0_disj)
qed

text \<open>A tail of a rule: what follows is closed by the \<open>END\<close>, and a range end never follows a range end.\<close>

definition rule_tail :: "llama_grammar_rule \<Rightarrow> bool" where
  "rule_tail es \<longleftrightarrow> es \<noteq> [] \<and> ge_type (List.last es) = LLAMA_GRETYPE_END
     \<and> (\<forall>i. Suc i < length es \<longrightarrow> ge_type (es ! i) = LLAMA_GRETYPE_CHAR_RNG_UPPER \<longrightarrow> ge_type (es ! Suc i) \<noteq> LLAMA_GRETYPE_CHAR_RNG_UPPER)
     \<and> (\<forall>i. Suc i < length es \<longrightarrow> ge_type (es ! i) = LLAMA_GRETYPE_CHAR_ANY \<longrightarrow> proper_type (ge_type (es ! Suc i)))"

lemma rule_tail_step: "rule_tail (e # es) \<Longrightarrow> es \<noteq> [] \<Longrightarrow> rule_tail es"
  unfolding rule_tail_def by (auto simp: all_conj_distrib)

lemma rule_tail_drop:
  assumes "wf_rule n rule" "i < length rule"
  shows "rule_tail (drop i rule)"
proof -
  have nth: "Suc j < length (drop i rule) \<Longrightarrow> Suc (i + j) < length rule" for j by simp
  have "List.last (drop i rule) = rule ! (length rule - 1)" using assms(2) by (simp add: last_conv_nth)
  moreover have "ge_type (rule ! (length rule - 1)) = LLAMA_GRETYPE_END"
    using wf_rule_nth(1) [OF assms(1), of "length rule - 1"] assms(2) by simp
  moreover have "ge_type (rule ! (i + j)) = LLAMA_GRETYPE_CHAR_RNG_UPPER \<Longrightarrow> ge_type (rule ! Suc (i + j)) \<noteq> LLAMA_GRETYPE_CHAR_RNG_UPPER"
    if "Suc (i + j) < length rule" for j
    using wf_rule_nth(4) [OF assms(1) that] by (auto simp: is_char_type_def)
  moreover have "ge_type (rule ! (i + j)) = LLAMA_GRETYPE_CHAR_ANY \<Longrightarrow> proper_type (ge_type (rule ! Suc (i + j)))"
    if "Suc (i + j) < length rule" for j
    using wf_rule_nth(4,5) [OF assms(1) that] by (auto simp: is_char_type_def proper_type_def)
  ultimately show ?thesis using assms(2) nth by (auto simp: rule_tail_def)
qed

lemma match_char_loop_spec:
  assumes "rule_tail es" "ge_type (hd es) \<noteq> LLAMA_GRETYPE_END" "ge_type (hd es) \<noteq> LLAMA_GRETYPE_CHAR_RNG_UPPER"
  shows "match_char_loop c found es = (found \<or> in_class es c, class_length es)"
  using assms
proof (induction c found es rule: match_char_loop.induct)
  case (1 c found es)
  obtain e e1 rest where es: "es = e # e1 # rest"
    using 1(2,3) by (cases es; cases "tl es") (auto simp: rule_tail_def)
  have tail1: "rule_tail (e1 # rest)" using 1(2) rule_tail_step es by blast
  show ?case
  proof (cases "ge_type e1 = LLAMA_GRETYPE_CHAR_RNG_UPPER")
    case True
    obtain e2 rest2 where r: "rest = e2 # rest2" using tail1 True by (cases rest) (auto simp: rule_tail_def)
    have tail2: "rule_tail (e2 # rest2)" using tail1 rule_tail_step r by blast
    have e2: "ge_type e2 \<noteq> LLAMA_GRETYPE_CHAR_RNG_UPPER" using 1(2) True es r unfolding rule_tail_def by fastforce
    have improper: "\<not> proper_type (ge_type e1)" using True by (simp add: proper_type_def)
    let ?f = "found \<or> ge_value e \<le> c \<and> c \<le> ge_value e1"
    have IH: "ge_type e2 = LLAMA_GRETYPE_CHAR_ALT \<Longrightarrow>
        match_char_loop c ?f (e2 # rest2) = (?f \<or> in_class (e2 # rest2) c, class_length (e2 # rest2))"
      using "1.IH" [OF es refl refl, of ?f 2 e2 rest2] tail2 True by (simp add: es r)
    have loop: "match_char_loop c found es =
        (if ge_type e2 = LLAMA_GRETYPE_CHAR_ALT then (?f \<or> in_class (e2 # rest2) c, 2 + class_length (e2 # rest2)) else (?f, 2))"
      using IH True by (subst match_char_loop.simps) (simp add: es r)
    have "in_range es 0 c \<longleftrightarrow> ge_value e \<le> c \<and> c \<le> ge_value e1" using True 1(4) by (simp add: in_range_def es)
    moreover have "\<not> in_range (e1 # rest) 0 c" using True by (simp add: in_range_def)
    ultimately show ?thesis unfolding loop in_class_step [OF es] class_length_step [OF es]
      using in_class_step [of "e1 # rest" e1 e2 rest2 c] class_length_step [of "e1 # rest" e1 e2 rest2] improper e2
      by (auto simp: r proper_type_def)
  next
    case no: False
    have alt: "\<not> proper_type (ge_type e1) \<longleftrightarrow> ge_type e1 = LLAMA_GRETYPE_CHAR_ALT" using no by (simp add: proper_type_def)
    let ?f = "found \<or> ge_type e = LLAMA_GRETYPE_CHAR_ANY \<or> ge_value e = c"
    have "ge_type e1 = LLAMA_GRETYPE_CHAR_ALT \<Longrightarrow> ge_type e \<noteq> LLAMA_GRETYPE_CHAR_ANY"
      using 1(2) es alt unfolding rule_tail_def by fastforce
    then have IH: "ge_type e1 = LLAMA_GRETYPE_CHAR_ALT \<Longrightarrow>
        match_char_loop c ?f (e1 # rest) = (?f \<or> in_class (e1 # rest) c, class_length (e1 # rest))"
      using "1.IH" [OF es refl refl, of ?f 1 e1 rest] tail1 no by (simp add: es)
    have loop: "match_char_loop c found es =
        (if ge_type e1 = LLAMA_GRETYPE_CHAR_ALT then (?f \<or> in_class (e1 # rest) c, 1 + class_length (e1 # rest)) else (?f, 1))"
      using IH no by (subst match_char_loop.simps) (auto simp: es)
    have "in_range es 0 c \<longleftrightarrow> ge_type e = LLAMA_GRETYPE_CHAR_ANY \<or> ge_value e = c" using no 1(4) by (simp add: in_range_def es)
    then show ?thesis unfolding loop in_class_step [OF es] class_length_step [OF es] using alt by auto
  qed
qed

lemma match_char_eq:
  assumes "wf_rules rs" "pos_ok rs pos" "is_positive (elem rs pos) \<or> ge_type (elem rs pos) = LLAMA_GRETYPE_CHAR_NOT"
  shows "llama_grammar_match_char rs pos c =
      mret (in_class (drop (snd pos) (rs ! fst pos)) c = is_positive (elem rs pos), pos_plus pos (class_length (drop (snd pos) (rs ! fst pos))))"
proof -
  have "rule_tail (drop (snd pos) (rs ! fst pos))"
    using assms(1,2) by (intro rule_tail_drop [of "length rs"]) (auto simp: pos_ok_def wf_rules_nth)
  moreover have "hd (drop (snd pos) (rs ! fst pos)) = elem rs pos"
    using assms(2) by (simp add: hd_drop_conv_nth pos_ok_def elem_def)
  ultimately show ?thesis
    using match_char_loop_spec assms(3) by (auto simp: llama_grammar_match_char_def is_positive_def Let_def)
qed

lemma class_length_bound: "rule_tail es \<Longrightarrow> ge_type (hd es) \<noteq> LLAMA_GRETYPE_END \<Longrightarrow>
   class_length es < length es \<and> proper_type (ge_type (es ! class_length es))"
proof -
  assume a: "rule_tail es" "ge_type (hd es) \<noteq> LLAMA_GRETYPE_END"
  then obtain e es' where es: "es = e # es'" "es' \<noteq> []" by (cases es; cases "tl es") (auto simp: rule_tail_def)
  let ?P = "\<lambda>e. \<not> proper_type (ge_type e)"
  have "\<not> ?P (List.last es')" using a(1) es by (simp add: rule_tail_def proper_type_def)
  then have "\<exists>x \<in> set es'. \<not> ?P x" using es(2) last_in_set by blast
  then have l: "length (takeWhile ?P es') < length es'" 
    by (metis le_neq_implies_less length_takeWhile_le takeWhile_eq_all_conv takeWhile_eq_take take_all_iff le_refl)
  then show ?thesis using nth_length_takeWhile [OF l] by (simp add: class_length_def es(1))
qed

lemma after_class_ok:
  assumes "wf_rules rs" "pos_ok rs pos" "ge_type (elem rs pos) \<noteq> LLAMA_GRETYPE_END"
  shows "pos_ok rs (pos_plus pos (class_length (drop (snd pos) (rs ! fst pos))))"
proof -
  have "rule_tail (drop (snd pos) (rs ! fst pos))"
    using assms(1,2) by (intro rule_tail_drop [of "length rs"]) (auto simp: pos_ok_def wf_rules_nth)
  moreover have "hd (drop (snd pos) (rs ! fst pos)) = elem rs pos"
    using assms(2) by (simp add: hd_drop_conv_nth pos_ok_def elem_def)
  ultimately have "class_length (drop (snd pos) (rs ! fst pos)) < length (drop (snd pos) (rs ! fst pos))
      \<and> proper_type (ge_type (drop (snd pos) (rs ! fst pos) ! class_length (drop (snd pos) (rs ! fst pos))))"
    using assms(3) by (intro class_length_bound) simp_all
  then show ?thesis using assms(2) by (auto simp: pos_ok_def pos_plus_def elem_def)
qed

section \<open>Stacks stay in bounds\<close>

lemma stack_ok_simps [simp]: "stack_ok rs []"
    "stack_ok rs (s @ t) \<longleftrightarrow> stack_ok rs s \<and> stack_ok rs t"
    "stack_ok rs [pos] \<longleftrightarrow> pos_ok rs pos \<and> \<not> llama_grammar_is_end_of_sequence rs pos"
  by (auto simp: stack_ok_def)

lemma stack_ok_butlast: "stack_ok rs s \<Longrightarrow> stack_ok rs (butlast s)"
  by (auto simp: stack_ok_def dest: in_set_butlastD)

lemma stack_ok_last: "stack_ok rs s \<Longrightarrow> s \<noteq> [] \<Longrightarrow> pos_ok rs (last s) \<and> \<not> llama_grammar_is_end_of_sequence rs (last s)"
  by (simp add: stack_ok_def)

lemma next_stack_ok: "stack_ok rs s \<Longrightarrow> pos_ok rs pos \<Longrightarrow> stack_ok rs (next_stack rs s pos)"
  by (simp add: next_stack_def stack_ok_butlast)

definition expands :: "llama_grammar_rules \<Rightarrow> llama_grammar_stack \<Rightarrow> llama_grammar_stack \<Rightarrow> bool" where
  "expands rs s s' \<longleftrightarrow> s \<noteq> [] \<and> ge_type (elem rs (last s)) = LLAMA_GRETYPE_RULE_REF \<and> s' \<in> set (expansions rs s)"

definition normal :: "llama_grammar_rules \<Rightarrow> llama_grammar_stack \<Rightarrow> bool" where
  "normal rs s \<longleftrightarrow> s = [] \<or> is_terminal (elem rs (last s))"

definition closure :: "llama_grammar_rules \<Rightarrow> llama_grammar_stack \<Rightarrow> llama_grammar_stack set" where
  "closure rs s = {s'. (expands rs)\<^sup>*\<^sup>* s s' \<and> normal rs s'}"

definition rule_of_ref :: "llama_grammar_rules \<Rightarrow> grammar_pos \<Rightarrow> nat" where
  "rule_of_ref rs pos = unat (ge_value (elem rs pos))"

definition push_pos :: "llama_grammar_rules \<Rightarrow> llama_grammar_stack \<Rightarrow> grammar_pos \<Rightarrow> llama_grammar_stack" where
  "push_pos rs s pos = s @ (if llama_grammar_is_end_of_sequence rs pos then [] else [pos])"

lemma expansions_eq:
  "expansions rs s = map (\<lambda>i. push_pos rs (push_pos rs (butlast s) (pos_plus (last s) 1)) (rule_of_ref rs (last s), i))
     (alternate_starts (rs ! rule_of_ref rs (last s)) 0)"
  by (simp add: expansions_def Let_def push_pos_def next_stack_def rule_of_ref_def)

lemma ref_rule_ok: "wf_rules rs \<Longrightarrow> pos_ok rs pos \<Longrightarrow> ge_type (elem rs pos) = LLAMA_GRETYPE_RULE_REF \<Longrightarrow> rule_of_ref rs pos < length rs"
  using wf_rule_nth(2) [OF wf_rules_nth, of rs "fst pos" "snd pos"] by (simp add: pos_ok_def elem_def rule_of_ref_def)

lemma push_pos_ok: "stack_ok rs s \<Longrightarrow> pos_ok rs pos \<Longrightarrow> stack_ok rs (push_pos rs s pos)"
  by (simp add: push_pos_def)

lemma expands_ok: "wf_rules rs \<Longrightarrow> stack_ok rs s \<Longrightarrow> expands rs s s' \<Longrightarrow> stack_ok rs s'"
proof -
  assume a: "wf_rules rs" "stack_ok rs s" "expands rs s s'"
  then have top: "pos_ok rs (last s)" "\<not> llama_grammar_is_end_of_sequence rs (last s)" "ge_type (elem rs (last s)) = LLAMA_GRETYPE_RULE_REF"
    using stack_ok_last by (auto simp: expands_def)
  then have nxt: "pos_ok rs (pos_plus (last s) 1)" using a(1) by (intro next_pos_ok) (simp_all add: is_char_type_def)
  from a(3) obtain i where i: "i \<in> set (alternate_starts (rs ! rule_of_ref rs (last s)) 0)"
    "s' = push_pos rs (push_pos rs (butlast s) (pos_plus (last s) 1)) (rule_of_ref rs (last s), i)"
    by (auto simp: expands_def expansions_eq)
  have "pos_ok rs (rule_of_ref rs (last s), i)" using rule_alternates_ok [OF a(1) ref_rule_ok [OF a(1) top(1,3)] i(1)] .
  then show ?thesis unfolding i(2) using nxt a(2) by (intro push_pos_ok stack_ok_butlast)
qed

lemma expands_star_ok: "(expands rs)\<^sup>*\<^sup>* s s' \<Longrightarrow> wf_rules rs \<Longrightarrow> stack_ok rs s \<Longrightarrow> stack_ok rs s'"
  by (induction rule: rtranclp_induct) (auto intro: expands_ok)

lemma closure_ok: "wf_rules rs \<Longrightarrow> stack_ok rs s \<Longrightarrow> s' \<in> closure rs s \<Longrightarrow> stack_ok rs s'"
  by (auto simp: closure_def dest: expands_star_ok)

section \<open>The expansion loop computes the closure\<close>

lemma normal_no_expand: "normal rs s \<Longrightarrow> \<not> expands rs s s'"
  by (auto simp: normal_def expands_def is_terminal_def is_positive_def is_token_elem_def)

lemma closure_normal: "normal rs s \<Longrightarrow> closure rs s = {s}"
  unfolding closure_def using normal_no_expand by (auto elim: converse_rtranclpE)

lemma closure_expand:
  "s \<noteq> [] \<Longrightarrow> ge_type (elem rs (last s)) = LLAMA_GRETYPE_RULE_REF \<Longrightarrow> closure rs s = (\<Union>s' \<in> set (expansions rs s). closure rs s')"
proof -
  assume s: "s \<noteq> []" "ge_type (elem rs (last s)) = LLAMA_GRETYPE_RULE_REF"
  have "\<not> normal rs s" using s by (auto simp: normal_def is_terminal_def is_positive_def is_token_elem_def)
  then have "s' \<in> closure rs s \<longleftrightarrow> (\<exists>t. expands rs s t \<and> s' \<in> closure rs t)" for s'
    unfolding closure_def by (auto elim: converse_rtranclpE intro: converse_rtranclp_into_rtranclp)
  then show ?thesis using s by (auto simp: expands_def)
qed

lemma set_push_new [simp]: "set (push_new s ss) = insert s (set ss)"
  by (auto simp: push_new_def)

text \<open>
  What the loop still owes: the stacks of \<open>seen\<close> have their successors in \<open>seen\<close> or
  \<open>todo\<close>, and the normal ones are in the result.
\<close>

definition loop_inv :: "llama_grammar_rules \<Rightarrow> llama_grammar_stacks \<Rightarrow> llama_grammar_stacks \<Rightarrow> llama_grammar_stacks \<Rightarrow> bool" where
  "loop_inv rs todo seen new_stacks \<longleftrightarrow>
     (\<forall>s \<in> set seen. (normal rs s \<longrightarrow> s \<in> set new_stacks) \<and> (\<forall>s'. expands rs s s' \<longrightarrow> s' \<in> set seen \<union> set todo))"

lemma loop_inv_step:
  assumes "loop_inv rs (s # todo) seen new_stacks"
  shows "s \<in> set seen \<Longrightarrow> loop_inv rs todo seen new_stacks"
    and "normal rs s \<Longrightarrow> loop_inv rs todo (s # seen) (push_new s new_stacks)"
    and "s \<noteq> [] \<Longrightarrow> ge_type (elem rs (last s)) = LLAMA_GRETYPE_RULE_REF \<Longrightarrow> loop_inv rs (rev (expansions rs s) @ todo) (s # seen) new_stacks"
  using assms normal_no_expand [of rs s]
  by (auto simp: loop_inv_def expands_def normal_def is_terminal_def is_positive_def is_token_elem_def)

lemma loop_inv_done:
  assumes "loop_inv rs [] seen new_stacks" "s \<in> set seen"
  shows "closure rs s \<subseteq> set new_stacks"
proof
  fix t assume "t \<in> closure rs s"
  then have "(expands rs)\<^sup>*\<^sup>* s t" "normal rs t" by (auto simp: closure_def)
  from this(1) assms(2) have "t \<in> set seen"
    by (induction rule: rtranclp_induct) (use assms(1) in \<open>auto simp: loop_inv_def\<close>)
  with \<open>normal rs t\<close> assms(1) show "t \<in> set new_stacks" by (auto simp: loop_inv_def)
qed

definition loop_result :: "llama_grammar_stacks \<Rightarrow> llama_grammar_rules \<Rightarrow> llama_grammar_stacks \<Rightarrow> llama_grammar_stacks \<Rightarrow> llama_grammar_stacks \<Rightarrow> bool" where
  "loop_result res rs todo seen new_stacks \<longleftrightarrow>
     set new_stacks \<subseteq> set res \<and> set res \<subseteq> set new_stacks \<union> (\<Union>s \<in> set todo. closure rs s)
     \<and> (loop_inv rs todo seen new_stacks \<longrightarrow> (\<forall>s \<in> set seen \<union> set todo. closure rs s \<subseteq> set res))"

lemma loop_result_step:
  shows "s \<in> set seen \<Longrightarrow> loop_result res rs todo seen new_stacks \<Longrightarrow> loop_result res rs (s # todo) seen new_stacks"
    and "normal rs s \<Longrightarrow> loop_result res rs todo (s # seen) (push_new s new_stacks) \<Longrightarrow> loop_result res rs (s # todo) seen new_stacks"
    and "s \<noteq> [] \<Longrightarrow> ge_type (elem rs (last s)) = LLAMA_GRETYPE_RULE_REF \<Longrightarrow>
      loop_result res rs (rev (expansions rs s) @ todo) (s # seen) new_stacks \<Longrightarrow> loop_result res rs (s # todo) seen new_stacks"
  using loop_inv_step [of rs s todo seen new_stacks] closure_normal [of rs s] closure_expand [of s rs]
  unfolding loop_result_def by auto

lemma advance_loop_sound:
  assumes "advance_loop rs todo seen new_stacks = Some (Inr res)"
  shows "loop_result res rs todo seen new_stacks"
proof -
  have "(Inr res :: machine_error + llama_grammar_stacks) = Inr res \<longrightarrow> loop_result res rs todo seen new_stacks"
  proof (rule advance_loop.raw_induct [where P = "\<lambda>rs todo seen new_stacks r. r = Inr res \<longrightarrow> loop_result res rs todo seen new_stacks", OF _ assms],
      intro impI)
    fix advance rs todo seen new_stacks and r :: "machine_error + llama_grammar_stacks"
    assume IH: "\<And>rs todo seen new_stacks r. advance rs todo seen new_stacks = Some r \<Longrightarrow> r = Inr res \<longrightarrow> loop_result res rs todo seen new_stacks"
      and eq: "(case todo of [] \<Rightarrow> Some (Inr new_stacks)
      | stack # todo \<Rightarrow>
          if stack \<in> set seen then advance rs todo seen new_stacks
          else if stack = [] then advance rs todo (stack # seen) (push_new stack new_stacks)
          else if ge_type (elem rs (last stack)) = LLAMA_GRETYPE_RULE_REF
            then advance rs (rev (expansions rs stack) @ todo) (stack # seen) new_stacks
          else if is_terminal (elem rs (last stack)) then advance rs todo (stack # seen) (push_new stack new_stacks)
          else Some (Inl (Aborted ''fatal error''))) = Some r" and r: "r = Inr res"
    show "loop_result res rs todo seen new_stacks"
    proof (cases todo)
      case Nil
      with eq r show ?thesis using loop_inv_done [of rs seen new_stacks] by (auto simp: loop_result_def)
    next
      case (Cons s rest)
      then show ?thesis
        using eq r IH loop_result_step [where s = s and rs = rs and todo = rest and seen = seen and new_stacks = new_stacks and res = res]
        by (auto simp: normal_def split: if_splits)
    qed
  qed
  then show ?thesis by simp
qed

lemma advance_stack_closure:
  "llama_grammar_advance_stack rs s new_stacks = Some (Inr res) \<Longrightarrow> set res = set new_stacks \<union> closure rs s"
  using advance_loop_sound [of rs "[s]" "[]" new_stacks res]
  by (auto simp: llama_grammar_advance_stack_def loop_inv_def loop_result_def)

section \<open>The language of a grammar\<close>

text \<open>
  \<open>matches rs pos w\<close>: the elements from \<open>pos\<close> to the end of its alternate derive \<open>w\<close>.
  A token element derives no text.
\<close>

inductive matches :: "llama_grammar_rules \<Rightarrow> grammar_pos \<Rightarrow> u32 list \<Rightarrow> bool" for rs where
  m_end: "llama_grammar_is_end_of_sequence rs pos \<Longrightarrow> matches rs pos []"
| m_ref: "ge_type (elem rs pos) = LLAMA_GRETYPE_RULE_REF \<Longrightarrow> i \<in> set (alternate_starts (rs ! rule_of_ref rs pos) 0)
    \<Longrightarrow> matches rs (rule_of_ref rs pos, i) u \<Longrightarrow> matches rs (pos_plus pos 1) v \<Longrightarrow> matches rs pos (u @ v)"
| m_char: "is_positive (elem rs pos) \<or> ge_type (elem rs pos) = LLAMA_GRETYPE_CHAR_NOT
    \<Longrightarrow> in_class (drop (snd pos) (rs ! fst pos)) c = is_positive (elem rs pos)
    \<Longrightarrow> matches rs (pos_plus pos (class_length (drop (snd pos) (rs ! fst pos)))) v \<Longrightarrow> matches rs pos (c # v)"

text \<open>The language of a stack, top first in the reversed list.\<close>

fun stack_words :: "llama_grammar_rules \<Rightarrow> llama_grammar_stack \<Rightarrow> u32 list \<Rightarrow> bool" where
  "stack_words rs [] w \<longleftrightarrow> w = []"
| "stack_words rs (pos # s) w \<longleftrightarrow> (\<exists>u v. w = u @ v \<and> matches rs pos u \<and> stack_words rs s v)"

definition stack_lang :: "llama_grammar_rules \<Rightarrow> llama_grammar_stack \<Rightarrow> u32 list \<Rightarrow> bool" where
  "stack_lang rs s w = stack_words rs (rev s) w"

lemma stack_lang_simps [simp]: "stack_lang rs [] w \<longleftrightarrow> w = []"
    "stack_lang rs (s @ [pos]) w \<longleftrightarrow> (\<exists>u v. w = u @ v \<and> matches rs pos u \<and> stack_lang rs s v)"
  by (simp_all add: stack_lang_def)

lemma end_types: "llama_grammar_is_end_of_sequence rs pos \<longleftrightarrow> ge_type (elem rs pos) = LLAMA_GRETYPE_END \<or> ge_type (elem rs pos) = LLAMA_GRETYPE_ALT"
  by (simp add: llama_grammar_is_end_of_sequence_def is_end_elem_def)

lemma matches_end: "llama_grammar_is_end_of_sequence rs pos \<Longrightarrow> matches rs pos w \<longleftrightarrow> w = []"
  by (auto simp: end_types is_positive_def elim: matches.cases intro: m_end)

lemma matches_ref:
  "ge_type (elem rs pos) = LLAMA_GRETYPE_RULE_REF \<Longrightarrow>
     matches rs pos w \<longleftrightarrow> (\<exists>i \<in> set (alternate_starts (rs ! rule_of_ref rs pos) 0). \<exists>u v. w = u @ v
       \<and> matches rs (rule_of_ref rs pos, i) u \<and> matches rs (pos_plus pos 1) v)"
  by (subst matches.simps) (auto simp: end_types is_positive_def)

lemma matches_char:
  "is_positive (elem rs pos) \<or> ge_type (elem rs pos) = LLAMA_GRETYPE_CHAR_NOT \<Longrightarrow>
     matches rs pos w \<longleftrightarrow> (\<exists>c v. w = c # v \<and> in_class (drop (snd pos) (rs ! fst pos)) c = is_positive (elem rs pos)
       \<and> matches rs (pos_plus pos (class_length (drop (snd pos) (rs ! fst pos)))) v)"
  by (subst matches.simps) (auto simp: end_types is_positive_def)

lemma matches_token: "is_token_elem (elem rs pos) \<Longrightarrow> \<not> matches rs pos w"
  by (auto simp: end_types is_positive_def is_token_elem_def elim: matches.cases)

lemma push_pos_lang: "stack_lang rs (push_pos rs s pos) w \<longleftrightarrow> (\<exists>u v. w = u @ v \<and> matches rs pos u \<and> stack_lang rs s v)"
  by (auto simp: push_pos_def matches_end)

lemma next_stack_push: "next_stack rs s pos = push_pos rs (butlast s) pos"
  by (simp add: next_stack_def push_pos_def)

lemma stack_lang_last:
  "s \<noteq> [] \<Longrightarrow> stack_lang rs s w \<longleftrightarrow> (\<exists>u v. w = u @ v \<and> matches rs (last s) u \<and> stack_lang rs (butlast s) v)"
  using stack_lang_simps(2) [of rs "butlast s" "last s" w] by simp

lemma split_reassoc:
  "(\<exists>u v. w = u @ v \<and> (\<exists>i \<in> A. \<exists>x y. u = x @ y \<and> P i x \<and> Q y) \<and> R v)
    \<longleftrightarrow> (\<exists>i \<in> A. \<exists>u v. w = u @ v \<and> P i u \<and> (\<exists>x y. v = x @ y \<and> Q x \<and> R y))"
  by (auto; metis append_assoc)

lemma expand_lang:
  "s \<noteq> [] \<Longrightarrow> ge_type (elem rs (last s)) = LLAMA_GRETYPE_RULE_REF \<Longrightarrow>
     stack_lang rs s w \<longleftrightarrow> (\<exists>s' \<in> set (expansions rs s). stack_lang rs s' w)"
  unfolding stack_lang_last [of s] matches_ref expansions_eq set_map bex_simps push_pos_lang
  by (rule split_reassoc)

lemma expands_star_lang: "(expands rs)\<^sup>*\<^sup>* s s' \<Longrightarrow> stack_lang rs s' w \<Longrightarrow> stack_lang rs s w"
proof (induction rule: converse_rtranclp_induct)
  case (step s t)
  then show ?case using expand_lang [of s rs w] by (auto simp: expands_def)
qed

definition reaches :: "llama_grammar_rules \<Rightarrow> llama_grammar_stack \<Rightarrow> u32 list \<Rightarrow> bool" where
  "reaches rs s w \<longleftrightarrow> (\<exists>s' \<in> closure rs s. stack_lang rs s' w)"

lemma reaches_expand: "expands rs s s' \<Longrightarrow> reaches rs s' w \<Longrightarrow> reaches rs s w"
  unfolding reaches_def closure_def by (auto intro: converse_rtranclp_into_rtranclp)

lemma matches_reaches:
  "matches rs pos u \<Longrightarrow> reaches rs s v \<Longrightarrow> stack_lang rs s v \<Longrightarrow> reaches rs (push_pos rs s pos) (u @ v)"
proof (induction arbitrary: s v rule: matches.induct)
  case (m_end pos)
  then show ?case by (simp add: push_pos_def)
next
  case (m_ref pos i u1 u2)
  have no_end: "\<not> llama_grammar_is_end_of_sequence rs pos" using m_ref(1) by (simp add: end_types)
  let ?s1 = "push_pos rs s (pos_plus pos 1)"
  have "reaches rs ?s1 (u2 @ v)" using m_ref.IH(2) m_ref.prems .
  moreover have "stack_lang rs ?s1 (u2 @ v)" using m_ref(4) m_ref.prems(2) by (auto simp: push_pos_lang)
  ultimately have "reaches rs (push_pos rs ?s1 (rule_of_ref rs pos, i)) (u1 @ u2 @ v)" by (rule m_ref.IH(1))
  moreover have "expands rs (push_pos rs s pos) (push_pos rs ?s1 (rule_of_ref rs pos, i))"
    using m_ref(1,2) no_end by (auto simp: expands_def expansions_eq push_pos_def)
  ultimately show ?case using reaches_expand by simp
next
  case (m_char pos c u)
  have no_end: "\<not> llama_grammar_is_end_of_sequence rs pos" using m_char(1) by (auto simp: end_types is_positive_def)
  then have p: "push_pos rs s pos = s @ [pos]" by (simp add: push_pos_def)
  have "normal rs (s @ [pos])" using m_char(1) by (auto simp: normal_def is_terminal_def)
  moreover have "matches rs pos (c # u)" using m_char(1,2,3) by (rule matches.m_char)
  then have "stack_lang rs (s @ [pos]) ((c # u) @ v)" using m_char.prems(2) unfolding stack_lang_simps by blast
  ultimately show ?case unfolding p reaches_def closure_normal [OF \<open>normal rs (s @ [pos])\<close>] by simp
qed

lemma stack_lang_reaches: "stack_ok rs s \<Longrightarrow> stack_lang rs s w \<Longrightarrow> reaches rs s w"
proof (induction s arbitrary: w rule: rev_induct)
  case Nil
  then show ?case by (simp add: reaches_def closure_normal [of rs "[]"] normal_def)
next
  case (snoc pos s)
  then obtain u v where w: "w = u @ v" "matches rs pos u" "stack_lang rs s v" by auto
  have "push_pos rs s pos = s @ [pos]" using snoc.prems(1) by (simp add: push_pos_def)
  with matches_reaches [OF w(2) snoc.IH [OF _ w(3)] w(3)] snoc.prems(1) w(1) show ?case by simp
qed

lemma closure_lang: "stack_ok rs s \<Longrightarrow> stack_lang rs s w \<longleftrightarrow> (\<exists>s' \<in> closure rs s. stack_lang rs s' w)"
  using stack_lang_reaches expands_star_lang by (auto simp: reaches_def closure_def)

section \<open>Acceptance is a derivative\<close>

text \<open>A set of stacks as the machine keeps it, and its language.\<close>

definition stacks_ok :: "llama_grammar_rules \<Rightarrow> llama_grammar_stacks \<Rightarrow> bool" where
  "stacks_ok rs stacks \<longleftrightarrow> (\<forall>s \<in> set stacks. stack_ok rs s \<and> normal rs s)"

definition stacks_lang :: "llama_grammar_rules \<Rightarrow> llama_grammar_stacks \<Rightarrow> u32 list \<Rightarrow> bool" where
  "stacks_lang rs stacks w \<longleftrightarrow> (\<exists>s \<in> set stacks. stack_lang rs s w)"

lemma advance_stacks_ok:
  assumes "llama_grammar_advance_stack rs s new_stacks = Some (Inr res)" "wf_rules rs" "stack_ok rs s" "stacks_ok rs new_stacks"
  shows "stacks_ok rs res" and "stacks_lang rs res w \<longleftrightarrow> stacks_lang rs new_stacks w \<or> stack_lang rs s w"
  using advance_stack_closure [OF assms(1)] assms(2-4) closure_lang [OF assms(3), of w]
  by (auto simp: stacks_ok_def stacks_lang_def intro: closure_ok simp: closure_def)

lemma normal_cases:
  assumes "normal rs s" "s \<noteq> []"
  obtains "is_token_elem (elem rs (last s))" | "is_positive (elem rs (last s)) \<or> ge_type (elem rs (last s)) = LLAMA_GRETYPE_CHAR_NOT"
    "\<not> is_token_elem (elem rs (last s))"
  using assms by (auto simp: normal_def is_terminal_def is_token_elem_def is_positive_def)

lemma accept_chr_ok:
  assumes "llama_grammar_accept_chr rs c s new_stacks = Some (Inr res)" "wf_rules rs" "stack_ok rs s" "normal rs s" "stacks_ok rs new_stacks"
  shows "stacks_ok rs res \<and> (\<forall>w. stacks_lang rs res w \<longleftrightarrow> stacks_lang rs new_stacks w \<or> stack_lang rs s (c # w))"
proof (cases "s = []")
  case True
  with assms(1,5) show ?thesis by (simp add: llama_grammar_accept_chr_def)
next
  case ne: False
  from assms(4) ne show ?thesis
  proof (cases rule: normal_cases)
    case 1
    then show ?thesis using assms(1,5) ne by (auto simp: llama_grammar_accept_chr_def stack_lang_last matches_token)
  next
    case 2
    let ?pos = "last s" and ?cls = "drop (snd (last s)) (rs ! fst (last s))"
    let ?after = "pos_plus ?pos (class_length ?cls)" and ?hit = "in_class ?cls c = is_positive (elem rs ?pos)"
    have pos: "pos_ok rs ?pos" using stack_ok_last [OF assms(3) ne] by simp
    have after: "pos_ok rs ?after" using 2 pos assms(2) by (intro after_class_ok) (auto simp: is_positive_def)
    have lang: "stack_lang rs s (c # w) \<longleftrightarrow> ?hit \<and> stack_lang rs (next_stack rs s ?after) w" for w
      unfolding stack_lang_last [OF ne] matches_char [OF 2(1)] next_stack_push push_pos_lang by (auto simp: Cons_eq_append_conv)
    show ?thesis
    proof (cases ?hit)
      case True
      then have "llama_grammar_advance_stack rs (next_stack rs s ?after) new_stacks = Some (Inr res)"
        using assms(1) ne 2 by (simp add: llama_grammar_accept_chr_def match_char_eq [OF assms(2) pos 2(1)])
      from advance_stacks_ok [OF this assms(2) next_stack_ok [OF assms(3) after] assms(5)] True lang show ?thesis by simp
    next
      case False
      then have "res = new_stacks"
        using assms(1) ne 2 by (simp add: llama_grammar_accept_chr_def match_char_eq [OF assms(2) pos 2(1)])
      with False lang assms(5) show ?thesis by simp
    qed
  qed
qed

lemma mfold_accept_ok:
  assumes "mfold (llama_grammar_accept_chr rs c) stacks new_stacks = Some (Inr res)" "wf_rules rs" "stacks_ok rs stacks" "stacks_ok rs new_stacks"
  shows "stacks_ok rs res \<and> (\<forall>w. stacks_lang rs res w \<longleftrightarrow> stacks_lang rs new_stacks w \<or> stacks_lang rs stacks (c # w))"
  using assms
proof (induction stacks arbitrary: new_stacks)
  case Nil
  then show ?case by (simp add: stacks_lang_def)
next
  case (Cons s stacks)
  then obtain mid where m: "llama_grammar_accept_chr rs c s new_stacks = Some (Inr mid)" "mfold (llama_grammar_accept_chr rs c) stacks mid = Some (Inr res)"
    by (auto simp: mbind_returns)
  have s: "stack_ok rs s" "normal rs s" "stacks_ok rs stacks" using Cons.prems(3) by (auto simp: stacks_ok_def)
  note mid = accept_chr_ok [OF m(1) Cons.prems(2) s(1,2) Cons.prems(4)]
  from Cons.IH [OF m(2) Cons.prems(2) s(3) conjunct1 [OF mid]] mid show ?case by (auto simp: stacks_lang_def)
qed

lemma accept_stacks_ok:
  assumes "accept_stacks rs c stacks = Some (Inr res)" "wf_rules rs" "stacks_ok rs stacks"
  shows "stacks_ok rs res" and "stacks_lang rs res w \<longleftrightarrow> stacks_lang rs stacks (c # w)"
  using mfold_accept_ok [OF assms(1) [unfolded accept_stacks_def] assms(2,3)]
  by (auto simp: stacks_ok_def stacks_lang_def)

text \<open>The code points of a text, one after the other.\<close>

definition accept_all :: "llama_grammar_rules \<Rightarrow> u32 list \<Rightarrow> llama_grammar_stacks \<Rightarrow> llama_grammar_stacks machine" where
  "accept_all rs cs stacks = mfold (accept_stacks rs) cs stacks"

lemma accept_all_ok:
  assumes "accept_all rs cs stacks = Some (Inr res)" "wf_rules rs" "stacks_ok rs stacks"
  shows "stacks_ok rs res \<and> (\<forall>w. stacks_lang rs res w \<longleftrightarrow> stacks_lang rs stacks (cs @ w))"
  using assms unfolding accept_all_def
proof (induction cs arbitrary: stacks)
  case (Cons c cs)
  then obtain mid where m: "accept_stacks rs c stacks = Some (Inr mid)" "mfold (accept_stacks rs) cs mid = Some (Inr res)"
    by (auto simp: mbind_returns)
  from Cons.IH [OF m(2) Cons.prems(2) accept_stacks_ok(1) [OF m(1) Cons.prems(2,3)]] accept_stacks_ok(2) [OF m(1) Cons.prems(2,3)]
  show ?case by simp
qed simp

text \<open>Among stacks the machine keeps, only the empty one derives the empty text.\<close>

lemma matches_terminal_nonempty: "is_terminal (elem rs pos) \<Longrightarrow> \<not> matches rs pos []"
  by (auto simp: is_terminal_def matches_token matches_char)

lemma stacks_lang_Nil: "stacks_ok rs stacks \<Longrightarrow> stacks_lang rs stacks [] \<longleftrightarrow> [] \<in> set stacks"
proof -
  assume ok: "stacks_ok rs stacks"
  have "s = []" if "s \<in> set stacks" "stack_lang rs s []" for s
  proof (rule ccontr)
    assume "s \<noteq> []"
    with that have "matches rs (last s) []" "is_terminal (elem rs (last s))"
      using ok by (auto simp: stack_lang_last stacks_ok_def normal_def)
    then show False using matches_terminal_nonempty by blast
  qed
  then show ?thesis by (auto simp: stacks_lang_def) (metis stack_lang_simps(1))
qed

end
