(* ===== verification/Grammar_Engine.thy ===== *)
theory Grammar_Engine
  imports Grammar_Language
begin

text \<open>
  The grammar object (\<open>struct llama_grammar\<close> of \<open>src/llama-grammar.h\<close>) and its operations:
  construction with the left recursion check, cloning, masking of candidate tokens, acceptance of
  tokens and the triggers of lazy grammars. The vocabulary is a parameter (\<open>token_to_piece\<close> and
  \<open>is_eog\<close>), as are the matches of the regular expressions.
\<close>

section \<open>Left recursion\<close>

record left_recursion =
  lr_visited :: "bool list"
  lr_in_progress :: "bool list"
  lr_may_be_empty :: "bool list"

text \<open>The first loop: whether an alternate of the rule is written empty.\<close>

fun empty_alternate :: "bool \<Rightarrow> llama_grammar_rule \<Rightarrow> bool" where
  "empty_alternate at_rule_start [] = False"
| "empty_alternate at_rule_start (e # es) =
     (if is_end_elem e then (if at_rule_start then True else empty_alternate True es) else empty_alternate False es)"

text \<open>
  \<open>d\<close> bounds the depth of the calls. \<open>llama_grammar_detect_elems\<close> is the second loop, with
  \<open>recurse_into_nonterminal\<close>.
\<close>

function llama_grammar_detect_left_recursion ::
    "nat \<Rightarrow> llama_grammar_rules \<Rightarrow> nat \<Rightarrow> left_recursion \<Rightarrow> (bool \<times> left_recursion) option"
  and llama_grammar_detect_elems ::
    "nat \<Rightarrow> llama_grammar_rules \<Rightarrow> bool \<Rightarrow> llama_grammar_rule \<Rightarrow> left_recursion \<Rightarrow> (bool \<times> left_recursion) option"
where
  "llama_grammar_detect_left_recursion 0 rs i st = None"
| "llama_grammar_detect_left_recursion (Suc d) rs i st =
     (if lr_in_progress st ! i then Some (True, st)
      else
        let st = st\<lparr>lr_in_progress := (lr_in_progress st)[i := True]\<rparr>;
            st = (if empty_alternate True (rs ! i) then st\<lparr>lr_may_be_empty := (lr_may_be_empty st)[i := True]\<rparr> else st)
        in case llama_grammar_detect_elems d rs True (rs ! i) st of
             None \<Rightarrow> None
           | Some (True, st) \<Rightarrow> Some (True, st)
           | Some (False, st) \<Rightarrow>
               Some (False, st\<lparr>lr_in_progress := (lr_in_progress st)[i := False], lr_visited := (lr_visited st)[i := True]\<rparr>))"
| "llama_grammar_detect_elems d rs recurse [] st = Some (False, st)"
| "llama_grammar_detect_elems d rs recurse (e # es) st =
     (if ge_type e = LLAMA_GRETYPE_RULE_REF \<and> recurse then
        case llama_grammar_detect_left_recursion d rs (unat (ge_value e)) st of
          None \<Rightarrow> None
        | Some (True, st) \<Rightarrow> Some (True, st)
        | Some (False, st) \<Rightarrow> llama_grammar_detect_elems d rs (lr_may_be_empty st ! unat (ge_value e)) es st
      else llama_grammar_detect_elems d rs (is_end_elem e) es st)"
  by pat_completeness auto
termination
  by (relation "measures [\<lambda>x. case x of Inl (d, _) \<Rightarrow> 2 * d | Inr (d, _) \<Rightarrow> 2 * d + 1, \<lambda>x. case x of Inl _ \<Rightarrow> 0 | Inr (_, _, _, es, _) \<Rightarrow> length es]")
    auto

text \<open>The loop over the rules that are not visited yet.\<close>

fun detect_loop :: "llama_grammar_rules \<Rightarrow> nat list \<Rightarrow> left_recursion \<Rightarrow> bool option" where
  "detect_loop rs [] st = Some False"
| "detect_loop rs (i # is) st =
     (if lr_visited st ! i then detect_loop rs is st
      else case llama_grammar_detect_left_recursion (length rs + 1) rs i st of
        None \<Rightarrow> None
      | Some (True, _) \<Rightarrow> Some True
      | Some (False, st) \<Rightarrow> detect_loop rs is st)"

definition has_left_recursion :: "llama_grammar_rules \<Rightarrow> bool option" where
  "has_left_recursion rs =
     (let no = replicate (length rs) False in
      detect_loop rs [0..<length rs] \<lparr>lr_visited = no, lr_in_progress = no, lr_may_be_empty = no\<rparr>)"

section \<open>The grammar object\<close>

record llama_grammar =
  gr_rules :: llama_grammar_rules
  gr_stacks :: llama_grammar_stacks
  gr_partial_utf8 :: llama_partial_utf8
  gr_lazy :: bool
  gr_awaiting_trigger :: bool
  gr_trigger_buffer :: string
  gr_trigger_positions :: "(u32 \<times> nat \<times> nat) list"
  gr_trigger_tokens :: "u32 list"
  gr_trigger_patterns :: "string list"

definition copy_rule :: "llama_grammar_rule \<Rightarrow> llama_grammar_rule" where
  "copy_rule rule = takeWhile (\<lambda>e. ge_type e \<noteq> LLAMA_GRETYPE_END) rule @ [element LLAMA_GRETYPE_END 0]"

text \<open>The loop over the alternates of the start rule.\<close>

definition initial_stacks :: "llama_grammar_rules \<Rightarrow> nat \<Rightarrow> llama_grammar_stacks machine" where
  "initial_stacks rs start =
     mfold (\<lambda>i stacks. llama_grammar_advance_stack rs (if llama_grammar_is_end_of_sequence rs (start, i) then [] else [(start, i)]) stacks)
       (alternate_starts (rs ! start) 0) []"

text \<open>
  The common end of the two constructors: \<open>None\<close> inside the result is the null pointer of an
  unsupported grammar. A start rule outside the table reads past the vector.
\<close>

definition init_from_rules :: "llama_grammar_rules \<Rightarrow> nat \<Rightarrow> (llama_grammar_rules \<times> llama_grammar_stacks) option machine" where
  "init_from_rules grammar_rules start =
     (let rs = map copy_rule grammar_rules in
      case has_left_recursion rs of
        None \<Rightarrow> None
      | Some True \<Rightarrow> mret None
      | Some False \<Rightarrow>
          if start \<ge> length rs then mfail Undefined_Behaviour
          else mbind (initial_stacks rs start) (\<lambda>stacks. mret (Some (rs, stacks))))"

definition grammar_object :: "llama_grammar_rules \<Rightarrow> llama_grammar_stacks \<Rightarrow> bool \<Rightarrow> u32 list \<Rightarrow> string list \<Rightarrow> llama_grammar" where
  "grammar_object rs stacks lazy trigger_tokens trigger_patterns =
     \<lparr>gr_rules = rs, gr_stacks = stacks, gr_partial_utf8 = \<lparr>pu_value = 0, pu_remain = 0\<rparr>, gr_lazy = lazy, gr_awaiting_trigger = lazy,
      gr_trigger_buffer = [], gr_trigger_positions = [], gr_trigger_tokens = trigger_tokens, gr_trigger_patterns = trigger_patterns\<rparr>"

definition llama_grammar_init_rules :: "llama_grammar_rules \<Rightarrow> nat \<Rightarrow> llama_grammar option machine" where
  "llama_grammar_init_rules rules start_rule_index =
     mbind (init_from_rules rules start_rule_index) (\<lambda>r. mret (map_option (\<lambda>(rs, stacks). grammar_object rs stacks False [] []) r))"

definition llama_grammar_init_impl ::
  "(string \<Rightarrow> u32 list) option \<Rightarrow> string \<Rightarrow> string \<Rightarrow> bool \<Rightarrow> string list \<Rightarrow> u32 list \<Rightarrow> llama_grammar option machine" where
  "llama_grammar_init_impl vocab grammar_str grammar_root lazy trigger_patterns trigger_tokens =
     (case llama_grammar_parser_parse vocab grammar_str llama_grammar_parser_new of
        Inl _ \<Rightarrow> mfail (Aborted ''parse'')
      | Inr None \<Rightarrow> mret None
      | Inr (Some p) \<Rightarrow>
          if gp_rules p = [] then mret None
          else case map_of (gp_symbol_ids p) grammar_root of
            None \<Rightarrow> mret None
          | Some start \<Rightarrow>
              mbind (init_from_rules (gp_rules p) (unat start)) (\<lambda>r.
                mret (map_option (\<lambda>(rs, stacks). grammar_object rs stacks lazy trigger_tokens trigger_patterns) r)))"

text \<open>
  The clone: its rules are a copy of the vectors, and the loop redirects every pointer of a stack to
  the same place of the copy, so rule number and offset do not change.
\<close>

definition redirect :: "llama_grammar_rules \<Rightarrow> grammar_pos \<Rightarrow> grammar_pos" where
  "redirect rs pos =
     (case filter (\<lambda>p. p = pos) (concat (map (\<lambda>r. map (\<lambda>i. (r, i)) [0..<length (rs ! r)]) [0..<length rs])) of
        [] \<Rightarrow> pos
      | ps \<Rightarrow> last ps)"

definition llama_grammar_clone_impl :: "llama_grammar \<Rightarrow> llama_grammar" where
  "llama_grammar_clone_impl g = g\<lparr>gr_stacks := map (map (redirect (gr_rules g))) (gr_stacks g)\<rparr>"

section \<open>Acceptance\<close>

definition llama_grammar_accept :: "llama_grammar \<Rightarrow> u32 \<Rightarrow> llama_grammar machine" where
  "llama_grammar_accept g chr = mbind (accept_stacks (gr_rules g) chr (gr_stacks g)) (\<lambda>stacks. mret (g\<lparr>gr_stacks := stacks\<rparr>))"

definition llama_grammar_accept_str :: "llama_grammar \<Rightarrow> string \<Rightarrow> llama_grammar machine" where
  "llama_grammar_accept_str g piece =
     (case decode_utf8 piece (gr_partial_utf8 g) of (code_points, partial) \<Rightarrow>
        mbind (mfold (\<lambda>c g. llama_grammar_accept g c) (butlast code_points) g) (\<lambda>g.
          let g = g\<lparr>gr_partial_utf8 := partial\<rparr> in
          if gr_stacks g = [] then mfail (Thrown (''Unexpected empty grammar stack after accepting piece: '' @ piece))
          else mret g))"

text \<open>The loop over the code points of a token, from one stack, until no stack is left.\<close>

fun accept_code_points :: "llama_grammar_rules \<Rightarrow> u32 list \<Rightarrow> llama_grammar_stacks \<Rightarrow> llama_grammar_stacks machine" where
  "accept_code_points rs [] stacks = mret stacks"
| "accept_code_points rs (c # cs) stacks =
     mbind (mfold (llama_grammar_accept_chr rs c) stacks []) (\<lambda>next_stacks.
       if next_stacks = [] then mret [] else accept_code_points rs cs next_stacks)"

definition accept_token_stack :: "llama_grammar_rules \<Rightarrow> u32 \<Rightarrow> u32 list \<Rightarrow> llama_grammar_stack \<Rightarrow> llama_grammar_stacks \<Rightarrow> llama_grammar_stacks machine" where
  "accept_token_stack rs token cs stack stacks_new =
     (if stack = [] then mret stacks_new
      else
        let pos = last stack in
        if is_token_elem (elem rs pos) then
          if llama_grammar_match_token rs pos token
          then llama_grammar_advance_stack rs (next_stack rs stack (pos_plus pos 1)) stacks_new
          else mret stacks_new
        else mbind (accept_code_points rs cs [stack]) (\<lambda>survivors. mret (foldl (\<lambda>new s. push_new s new) stacks_new survivors)))"

definition llama_grammar_accept_token :: "llama_grammar \<Rightarrow> u32 \<Rightarrow> string \<Rightarrow> llama_grammar machine" where
  "llama_grammar_accept_token g token piece =
     (case decode_utf8 piece (gr_partial_utf8 g) of (code_points, partial) \<Rightarrow>
        mbind (mfold (accept_token_stack (gr_rules g) token (butlast code_points)) (gr_stacks g) []) (\<lambda>stacks_new.
          if stacks_new = []
          then mfail (Thrown (''Unexpected empty grammar stack after accepting piece: '' @ piece @ '' ('' @ dec_int (sint token) @ '')''))
          else mret (g\<lparr>gr_stacks := stacks_new, gr_partial_utf8 := partial\<rparr>)))"

section \<open>Triggers\<close>

text \<open>
  \<open>llama_grammar_trigger_pattern::find\<close>. A match of the regular expression library is the list
  of position and length of the whole match and of the groups (length 0 for a group that did not
  take part); \<open>regex_match\<close> and \<open>regex_search\<close> are parameters.
\<close>

record regex_engine =
  regex_match :: "string \<Rightarrow> string \<Rightarrow> (nat \<times> nat) list option"
  regex_search :: "string \<Rightarrow> string \<Rightarrow> (nat \<times> nat) list option"

definition find_start_pos :: "(nat \<times> nat) list \<Rightarrow> nat" where
  "find_start_pos m = (case filter (\<lambda>(_, n). n > 0) (tl m) of [] \<Rightarrow> fst (hd m) | (start, _) # _ \<Rightarrow> start)"

definition trigger_pattern_find :: "regex_engine \<Rightarrow> string \<Rightarrow> string \<Rightarrow> nat option" where
  "trigger_pattern_find rx pattern input =
     (case (if pattern \<noteq> [] \<and> hd pattern = CHR ''^'' \<and> List.last pattern = CHR ''$'' then regex_match rx pattern input else None) of
        Some m \<Rightarrow> Some (find_start_pos m)
      | None \<Rightarrow> map_option find_start_pos (regex_search rx pattern input))"

text \<open>The first pattern that matches, in the order of the list.\<close>

definition first_trigger :: "regex_engine \<Rightarrow> string list \<Rightarrow> string \<Rightarrow> nat option" where
  "first_trigger rx patterns input = (case List.map_filter (\<lambda>pattern. trigger_pattern_find rx pattern input) patterns of
       [] \<Rightarrow> None
     | start # _ \<Rightarrow> Some start)"

text \<open>The pieces replayed when a pattern matches from \<open>start\<close>.\<close>

definition replay_pieces :: "string \<Rightarrow> nat \<Rightarrow> (u32 \<times> nat \<times> nat) list \<Rightarrow> (u32 \<times> string) list" where
  "replay_pieces buffer start positions =
     map (\<lambda>(tok, tok_start, tok_end).
            let piece_start = (if tok_start < start then start else tok_start) in (tok, take (tok_end - piece_start) (drop piece_start buffer)))
       (filter (\<lambda>(_, _, tok_end). \<not> tok_end \<le> start) positions)"

record llama_vocab =
  vocab_token_to_piece :: "u32 \<Rightarrow> string"
  vocab_is_eog :: "u32 \<Rightarrow> bool"

definition llama_grammar_accept_impl :: "regex_engine \<Rightarrow> llama_vocab \<Rightarrow> llama_grammar \<Rightarrow> u32 \<Rightarrow> llama_grammar machine" where
  "llama_grammar_accept_impl rx vocab g token =
     (let piece = vocab_token_to_piece vocab token in
      if gr_awaiting_trigger g then
        if token \<in> set (gr_trigger_tokens g) then
          llama_grammar_accept_token (g\<lparr>gr_awaiting_trigger := False, gr_trigger_buffer := []\<rparr>) token piece
        else
          let n = length (gr_trigger_buffer g);
              g = g\<lparr>gr_trigger_positions := gr_trigger_positions g @ [(token, n, n + length piece)],
                    gr_trigger_buffer := gr_trigger_buffer g @ piece\<rparr> in
          (case first_trigger rx (gr_trigger_patterns g) (gr_trigger_buffer g) of
             None \<Rightarrow> mret g
           | Some start \<Rightarrow>
               mbind (mfold (\<lambda>(tok, tok_piece) g. llama_grammar_accept_token g tok tok_piece)
                        (replay_pieces (gr_trigger_buffer g) start (gr_trigger_positions g)) (g\<lparr>gr_awaiting_trigger := False\<rparr>)) (\<lambda>g.
                 mret (g\<lparr>gr_trigger_buffer := [], gr_trigger_positions := []\<rparr>)))
      else if vocab_is_eog vocab token then
        if [] \<in> set (gr_stacks g) then mret g else mfail (Aborted ''fatal error'')
      else llama_grammar_accept_token g token piece)"

section \<open>Masking of candidates\<close>

text \<open>
  \<open>candidates\<close> are the tokens of the array in order; the result says which logits are set to
  minus infinity.
\<close>

definition masked_at_once :: "llama_vocab \<Rightarrow> bool \<Rightarrow> u32 \<Rightarrow> bool" where
  "masked_at_once vocab allow_eog token =
     (if vocab_is_eog vocab token then \<not> allow_eog
      else let piece = vocab_token_to_piece vocab token in piece = [] \<or> hd piece = CHR 0x00)"

definition grammar_candidate :: "llama_vocab \<Rightarrow> llama_grammar \<Rightarrow> nat \<Rightarrow> u32 \<Rightarrow> llama_grammar_candidate" where
  "grammar_candidate vocab g i token =
     (let decoded = decode_utf8 (vocab_token_to_piece vocab token) (gr_partial_utf8 g) in
      \<lparr>cd_index = i, cd_vector = fst decoded, cd_offset = 0, cd_partial_utf8 = snd decoded, cd_id = token\<rparr>)"

definition grammar_candidates :: "llama_vocab \<Rightarrow> llama_grammar \<Rightarrow> u32 list \<Rightarrow> llama_grammar_candidate list" where
  "grammar_candidates vocab g candidates =
     map (\<lambda>(i, token). grammar_candidate vocab g i token)
       (filter (\<lambda>(i, token). \<not> vocab_is_eog vocab token \<and> \<not> masked_at_once vocab False token) (zip [0..<length candidates] candidates))"

definition llama_grammar_sample_impl :: "llama_vocab \<Rightarrow> llama_grammar \<Rightarrow> u32 list \<Rightarrow> bool list machine" where
  "llama_grammar_sample_impl vocab g candidates =
     (if gr_awaiting_trigger g then mret (map (\<lambda>_. False) candidates)
      else
        let allow_eog = ([] \<in> set (gr_stacks g)) in
        mbind (llama_grammar_reject_candidates (gr_rules g) (gr_stacks g) (grammar_candidates vocab g candidates)) (\<lambda>rejects.
          mret (map (\<lambda>(i, token). masked_at_once vocab allow_eog token \<or> i \<in> cd_index ` set rejects)
            (zip [0..<length candidates] candidates))))"

end
