(* ===== verification/Grammar_Sound.thy ===== *)
theory Grammar_Sound
  imports Grammar_Engine
begin

text \<open>
  The grammar object recognises the language of its grammar: from the text of the grammar and the
  pieces of the generated text to the decision that the text may end.
\<close>

section \<open>Construction\<close>

lemma copy_rule_wf: "wf_rule n rule \<Longrightarrow> copy_rule rule = rule"
proof -
  assume wf: "wf_rule n rule"
  then obtain body where b: "rule = body @ [element LLAMA_GRETYPE_END 0]" by (auto simp: wf_rule_def)
  have "ge_type (body ! i) \<noteq> LLAMA_GRETYPE_END" if "i < length body" for i
    using wf_rule_nth(1) [OF wf, of i] that by (auto simp: b nth_append)
  then have "\<forall>e \<in> set body. ge_type e \<noteq> LLAMA_GRETYPE_END" by (auto simp: in_set_conv_nth)
  then have "takeWhile (\<lambda>e. ge_type e \<noteq> LLAMA_GRETYPE_END) rule = body" unfolding b by (subst takeWhile_append2) auto
  then show ?thesis by (simp add: copy_rule_def b)
qed

lemma copy_rules_wf: "wf_rules rs \<Longrightarrow> map copy_rule rs = rs"
  by (auto simp: wf_rules_def intro!: map_idI dest: copy_rule_wf)

lemma init_from_rules_returns:
  assumes "init_from_rules rules start = Some (Inr (Some (rs, stacks)))" "wf_rules rules"
  shows "rs = rules" "start < length rs" "initial_stacks rs start = Some (Inr stacks)" "has_left_recursion rs = Some False"
  using assms
  by (auto simp: init_from_rules_def copy_rules_wf Let_def mbind_returns split: option.splits bool.splits if_splits)

lemma initial_fold_ok:
  assumes "mfold (\<lambda>i stacks. llama_grammar_advance_stack rs (push_pos rs [] (start, i)) stacks) is new_stacks = Some (Inr res)"
    "wf_rules rs" "\<forall>i \<in> set is. pos_ok rs (start, i)" "stacks_ok rs new_stacks"
  shows "stacks_ok rs res \<and> (\<forall>w. stacks_lang rs res w \<longleftrightarrow> stacks_lang rs new_stacks w \<or> (\<exists>i \<in> set is. matches rs (start, i) w))"
  using assms
proof (induction "is" arbitrary: new_stacks)
  case (Cons i "is")
  then obtain mid where m: "llama_grammar_advance_stack rs (push_pos rs [] (start, i)) new_stacks = Some (Inr mid)"
    "mfold (\<lambda>i stacks. llama_grammar_advance_stack rs (push_pos rs [] (start, i)) stacks) is mid = Some (Inr res)"
    by (auto simp: mbind_returns)
  have ok: "stack_ok rs (push_pos rs [] (start, i))" using Cons.prems(3) by (intro push_pos_ok) simp_all
  have lang: "stack_lang rs (push_pos rs [] (start, i)) w \<longleftrightarrow> matches rs (start, i) w" for w by (simp add: push_pos_lang)
  note mid = advance_stacks_ok [OF m(1) Cons.prems(2) ok Cons.prems(4)]
  from Cons.IH [OF m(2) Cons.prems(2) _ mid(1)] Cons.prems(3) mid(2) lang show ?case by auto
qed simp

text \<open>The language of a rule.\<close>

definition derives :: "llama_grammar_rules \<Rightarrow> nat \<Rightarrow> u32 list \<Rightarrow> bool" where
  "derives rs r w \<longleftrightarrow> (\<exists>i \<in> set (alternate_starts (rs ! r) 0). matches rs (r, i) w)"

lemma initial_stacks_ok:
  assumes "initial_stacks rs start = Some (Inr stacks)" "wf_rules rs" "start < length rs"
  shows "stacks_ok rs stacks" and "stacks_lang rs stacks w \<longleftrightarrow> derives rs start w"
proof -
  have "mfold (\<lambda>i stacks. llama_grammar_advance_stack rs (push_pos rs [] (start, i)) stacks) (alternate_starts (rs ! start) 0) [] = Some (Inr stacks)"
    using assms(1) by (simp add: initial_stacks_def push_pos_def)
  from initial_fold_ok [OF this assms(2)] rule_alternates_ok [OF assms(2,3)]
  show "stacks_ok rs stacks" "stacks_lang rs stacks w \<longleftrightarrow> derives rs start w"
    by (auto simp: stacks_ok_def stacks_lang_def derives_def)
qed

section \<open>Pieces of text\<close>

lemma mfold_append: "mfold f (xs @ ys) b = mbind (mfold f xs b) (\<lambda>b. mfold f ys b)"
  by (induction xs arbitrary: b) (auto simp: mbind_def mret_def split: option.splits sum.splits)

lemma accept_object:
  "llama_grammar_accept g c = Some (Inr g1) \<longleftrightarrow>
     (\<exists>stacks. accept_stacks (gr_rules g) c (gr_stacks g) = Some (Inr stacks) \<and> g1 = g\<lparr>gr_stacks := stacks\<rparr>)"
  by (auto simp: llama_grammar_accept_def mbind_returns)

lemma accept_chars_object:
  "mfold (\<lambda>c g. llama_grammar_accept g c) cs g = Some (Inr g') \<longleftrightarrow>
     (\<exists>stacks. accept_all (gr_rules g) cs (gr_stacks g) = Some (Inr stacks) \<and> g' = g\<lparr>gr_stacks := stacks\<rparr>)"
proof (induction cs arbitrary: g)
  case Nil
  then show ?case by (auto simp: accept_all_def)
next
  case (Cons c cs)
  show ?case by (auto simp: mbind_returns accept_object Cons.IH accept_all_def)
qed

lemma accept_pieces_object:
  assumes "mfold (\<lambda>piece g. llama_grammar_accept_str g piece) pieces g = Some (Inr g')"
  shows "gr_rules g' = gr_rules g
    \<and> accept_all (gr_rules g) (fst (decode_pieces (gr_partial_utf8 g) pieces)) (gr_stacks g) = Some (Inr (gr_stacks g'))
    \<and> gr_partial_utf8 g' = snd (decode_pieces (gr_partial_utf8 g) pieces)"
  using assms
proof (induction pieces arbitrary: g)
  case Nil
  then show ?case by (simp add: accept_all_def)
next
  case (Cons piece pieces)
  obtain cps p where d: "decode_utf8 piece (gr_partial_utf8 g) = (cps, p)" by (cases "decode_utf8 piece (gr_partial_utf8 g)")
  from Cons.prems obtain g1 where g1: "llama_grammar_accept_str g piece = Some (Inr g1)"
    "mfold (\<lambda>piece g. llama_grammar_accept_str g piece) pieces g1 = Some (Inr g')" by (auto simp: mbind_returns)
  from g1(1) d obtain stacks where s: "accept_all (gr_rules g) (butlast cps) (gr_stacks g) = Some (Inr stacks)"
    "g1 = g\<lparr>gr_stacks := stacks, gr_partial_utf8 := p\<rparr>"
    by (auto simp: llama_grammar_accept_str_def mbind_returns accept_chars_object Let_def split: if_splits)
  from Cons.IH [OF g1(2)] s d show ?case
    by (auto simp: accept_all_def mfold_append case_prod_beta split: prod.splits)
qed

section \<open>No failed assertion\<close>

lemma advance_loop_no_abort:
  assumes "advance_loop rs todo seen new_stacks = Some r" "wf_rules rs" "\<forall>s \<in> set todo. stack_ok rs s"
  shows "\<exists>res. r = Inr res"
proof -
  have "wf_rules rs \<longrightarrow> (\<forall>s \<in> set todo. stack_ok rs s) \<longrightarrow> (\<exists>res. r = Inr res)"
  proof (rule advance_loop.raw_induct [where P = "\<lambda>rs todo seen new_stacks r. wf_rules rs \<longrightarrow> (\<forall>s \<in> set todo. stack_ok rs s) \<longrightarrow> (\<exists>res. r = Inr res)",
        OF _ assms(1)], intro impI)
    fix advance rs todo seen new_stacks and r :: "machine_error + llama_grammar_stacks"
    assume IH: "\<And>rs todo seen new_stacks r. advance rs todo seen new_stacks = Some r \<Longrightarrow>
          wf_rules rs \<longrightarrow> (\<forall>s \<in> set todo. stack_ok rs s) \<longrightarrow> (\<exists>res. r = Inr res)"
      and eq: "(case todo of [] \<Rightarrow> Some (Inr new_stacks)
      | stack # todo \<Rightarrow>
          if stack \<in> set seen then advance rs todo seen new_stacks
          else if stack = [] then advance rs todo (stack # seen) (push_new stack new_stacks)
          else if ge_type (elem rs (last stack)) = LLAMA_GRETYPE_RULE_REF
            then advance rs (rev (expansions rs stack) @ todo) (stack # seen) new_stacks
          else if is_terminal (elem rs (last stack)) then advance rs todo (stack # seen) (push_new stack new_stacks)
          else Some (Inl (Aborted ''fatal error''))) = Some r"
      and wf: "wf_rules rs" and ok: "\<forall>s \<in> set todo. stack_ok rs s"
    show "\<exists>res. r = Inr res"
    proof (cases todo)
      case Nil
      with eq show ?thesis by auto
    next
      case (Cons s rest)
      have s: "stack_ok rs s" "\<forall>t \<in> set rest. stack_ok rs t" using ok Cons by auto
      show ?thesis
      proof (cases "s \<in> set seen \<or> s = []")
        case True
        with eq IH wf s Cons show ?thesis by (auto split: if_splits)
      next
        case no: False
        show ?thesis
        proof (cases "ge_type (elem rs (last s)) = LLAMA_GRETYPE_RULE_REF")
          case True
          have "\<forall>t \<in> set (rev (expansions rs s) @ rest). stack_ok rs t"
            using expands_ok [OF wf s(1)] True no s(2) by (auto simp: expands_def)
          with IH [of rs "rev (expansions rs s) @ rest" "s # seen" new_stacks r] eq wf no True Cons show ?thesis by auto
        next
          case False
          have "is_terminal (elem rs (last s))"
            using stack_ok_last [OF s(1)] no False
            by (cases "ge_type (elem rs (last s))")
              (auto simp: pos_ok_def proper_type_def end_types is_terminal_def is_positive_def is_token_elem_def)
          with eq IH wf s no False Cons show ?thesis by (auto split: if_splits)
        qed
      qed
    qed
  qed
  with assms(2,3) show ?thesis by blast
qed

lemma advance_no_abort: "wf_rules rs \<Longrightarrow> stack_ok rs s \<Longrightarrow> llama_grammar_advance_stack rs s new_stacks \<noteq> Some (Inl e)"
  using advance_loop_no_abort [of rs "[s]" "[]" new_stacks "Inl e"] by (auto simp: llama_grammar_advance_stack_def)

lemma accept_chr_no_abort:
  assumes "wf_rules rs" "stack_ok rs s" "normal rs s"
  shows "llama_grammar_accept_chr rs c s new_stacks \<noteq> Some (Inl e)"
proof (cases "s = []")
  case ne: False
  from assms(3) ne show ?thesis
  proof (cases rule: normal_cases)
    case 2
    have pos: "pos_ok rs (last s)" using stack_ok_last [OF assms(2) ne] by simp
    have "pos_ok rs (pos_plus (last s) (class_length (drop (snd (last s)) (rs ! fst (last s)))))"
      using 2 pos assms(1) by (intro after_class_ok) (auto simp: is_positive_def)
    with 2 ne advance_no_abort [OF assms(1) next_stack_ok [OF assms(2)]] show ?thesis
      by (simp add: llama_grammar_accept_chr_def match_char_eq [OF assms(1) pos 2(1)] mret_def)
  qed (simp add: llama_grammar_accept_chr_def mret_def)
qed (simp add: llama_grammar_accept_chr_def mret_def)

lemma accept_fold_no_abort:
  assumes "wf_rules rs" "stacks_ok rs stacks" "stacks_ok rs new_stacks"
  shows "mfold (llama_grammar_accept_chr rs c) stacks new_stacks \<noteq> Some (Inl e)"
  using assms(2,3)
proof (induction stacks arbitrary: new_stacks)
  case (Cons s stacks)
  then have s: "stack_ok rs s" "normal rs s" "stacks_ok rs stacks" by (auto simp: stacks_ok_def)
  show ?case
  proof (cases "llama_grammar_accept_chr rs c s new_stacks")
    case (Some r)
    with accept_chr_no_abort [OF assms(1) s(1,2), of c new_stacks] obtain mid where m: "llama_grammar_accept_chr rs c s new_stacks = Some (Inr mid)"
      by (cases r) auto
    with accept_chr_ok [OF m assms(1) s(1,2) Cons.prems(2)] Cons.IH [OF s(3), of mid] show ?thesis by simp
  qed simp
qed (simp add: mret_def)

lemma accept_all_no_abort:
  assumes "wf_rules rs" "stacks_ok rs stacks"
  shows "accept_all rs cs stacks \<noteq> Some (Inl e)"
  using assms(2) unfolding accept_all_def
proof (induction cs arbitrary: stacks)
  case (Cons c cs)
  show ?case
  proof (cases "accept_stacks rs c stacks")
    case (Some r)
    then obtain mid where m: "accept_stacks rs c stacks = Some (Inr mid)"
      using accept_fold_no_abort [OF assms(1) Cons.prems, of "[]" c] by (cases r) (auto simp: accept_stacks_def stacks_ok_def)
    with Cons.IH [OF accept_stacks_ok(1) [OF m assms(1) Cons.prems]] show ?thesis by simp
  qed simp
qed (simp add: mret_def)

text \<open>A refused piece: some beginning of the code points leaves no stack at all.\<close>

lemma accept_chars_refused:
  "mfold (\<lambda>c g. llama_grammar_accept g c) cs g = Some (Inl e) \<Longrightarrow> accept_all (gr_rules g) cs (gr_stacks g) = Some (Inl e)"
proof (induction cs arbitrary: g)
  case (Cons c cs)
  show ?case
  proof (cases "accept_stacks (gr_rules g) c (gr_stacks g)")
    case (Some r)
    with Cons.prems show ?thesis
      using Cons.IH [of "g\<lparr>gr_stacks := projr r\<rparr>"]
      by (cases r) (simp_all add: accept_all_def llama_grammar_accept_def mbind_def mret_def)
  qed (use Cons.prems in \<open>simp add: llama_grammar_accept_def mbind_def\<close>)
qed (simp add: mret_def)

lemma accept_str_refused:
  assumes "llama_grammar_accept_str g piece = Some (Inl e)" and "wf_rules (gr_rules g)" and "stacks_ok (gr_rules g) (gr_stacks g)"
  shows "accept_all (gr_rules g) (butlast (fst (decode_utf8 piece (gr_partial_utf8 g)))) (gr_stacks g) = Some (Inr [])
    \<and> (\<exists>msg. e = Thrown msg)"
proof -
  obtain cps p where d: "decode_utf8 piece (gr_partial_utf8 g) = (cps, p)" by fastforce
  let ?fed = "mfold (\<lambda>c g. llama_grammar_accept g c) (butlast cps) g"
  have "?fed \<noteq> Some (Inl x)" for x
    using accept_chars_refused [of "butlast cps" g x] accept_all_no_abort [OF assms(2,3)] by blast
  then obtain g1 where "?fed = Some (Inr g1)" "gr_stacks g1 = []" "\<exists>msg. e = Thrown msg"
    using assms(1) d
    by (auto simp: llama_grammar_accept_str_def mbind_def mret_def mfail_def Let_def split: option.splits sum.splits if_splits)
  with accept_chars_object [of "butlast cps" g g1] d show ?thesis by auto
qed

lemma accept_pieces_refused:
  assumes "mfold (\<lambda>piece g. llama_grammar_accept_str g piece) pieces g = Some (Inl e)"
    and "wf_rules (gr_rules g)" and "stacks_ok (gr_rules g) (gr_stacks g)"
  shows "\<exists>us vs msg. fst (decode_pieces (gr_partial_utf8 g) pieces) = us @ vs
    \<and> accept_all (gr_rules g) us (gr_stacks g) = Some (Inr []) \<and> e = Thrown msg"
  using assms
proof (induction pieces arbitrary: g)
  case (Cons piece pieces)
  obtain cps p where d: "decode_utf8 piece (gr_partial_utf8 g) = (cps, p)" by fastforce
  from Cons.prems(1) consider (now) "llama_grammar_accept_str g piece = Some (Inl e)"
    | (later) g1 where "llama_grammar_accept_str g piece = Some (Inr g1)"
        "mfold (\<lambda>piece g. llama_grammar_accept_str g piece) pieces g1 = Some (Inl e)"
    by (auto simp: mbind_def split: option.splits sum.splits)
  then show ?case
  proof cases
    case now
    from accept_str_refused [OF now Cons.prems(2,3)] d show ?thesis by (auto split: prod.split)
  next
    case later
    have "mfold (\<lambda>piece g. llama_grammar_accept_str g piece) [piece] g = Some (Inr g1)"
      using later(1) by (simp add: mbind_def mret_def)
    from accept_pieces_object [OF this] d have g1: "gr_rules g1 = gr_rules g" "gr_partial_utf8 g1 = p"
      "accept_all (gr_rules g) (butlast cps) (gr_stacks g) = Some (Inr (gr_stacks g1))" by auto
    have "stacks_ok (gr_rules g1) (gr_stacks g1)" using accept_all_ok [OF g1(3) Cons.prems(2,3)] g1(1) by simp
    with Cons.IH [OF later(2)] Cons.prems(2) g1 obtain us vs msg where
      us: "fst (decode_pieces p pieces) = us @ vs" "accept_all (gr_rules g) us (gr_stacks g1) = Some (Inr [])" "e = Thrown msg"
      by auto
    have "accept_all (gr_rules g) (butlast cps @ us) (gr_stacks g) = Some (Inr [])"
      using g1(3) us(2) by (simp add: accept_all_def mfold_append mbind_def)
    then show ?thesis using us(1,3) d
      by (intro exI [of _ "butlast cps @ us"] exI [of _ vs] exI [of _ msg]) (simp add: case_prod_beta)
  qed
qed (simp add: mret_def)

lemma init_object_ok:
  assumes "llama_grammar_parser_parse vocab src llama_grammar_parser_new = Inr (Some p)" "length (gp_symbol_ids p) < 2 ^ 32"
    "map_of (gp_symbol_ids p) root = Some start"
    "llama_grammar_init_impl vocab src root lazy patterns tokens = Some (Inr (Some g))"
  shows "gr_rules g = gp_rules p" and "wf_rules (gr_rules g)" and "stacks_ok (gr_rules g) (gr_stacks g)"
    and "stacks_lang (gr_rules g) (gr_stacks g) w \<longleftrightarrow> derives (gr_rules g) (unat start) w"
    and "gr_partial_utf8 g = \<lparr>pu_value = 0, pu_remain = 0\<rparr>" and "has_left_recursion (gr_rules g) = Some False"
proof -
  have wf: "wf_rules (gp_rules p)" using parsed_grammar_ok [OF assms(1,2)] by simp
  from assms(1,3,4) obtain rs stacks where i: "init_from_rules (gp_rules p) (unat start) = Some (Inr (Some (rs, stacks)))"
    "g = grammar_object rs stacks lazy tokens patterns"
    by (auto simp: llama_grammar_init_impl_def mbind_returns split: if_splits)
  note init = init_from_rules_returns [OF i(1) wf]
  note stacks = initial_stacks_ok [OF init(3) _ init(2)]
  show "gr_rules g = gp_rules p" "wf_rules (gr_rules g)" "stacks_ok (gr_rules g) (gr_stacks g)"
    "stacks_lang (gr_rules g) (gr_stacks g) w \<longleftrightarrow> derives (gr_rules g) (unat start) w"
    "gr_partial_utf8 g = \<lparr>pu_value = 0, pu_remain = 0\<rparr>" "has_left_recursion (gr_rules g) = Some False"
    using init wf stacks by (simp_all add: i(2) grammar_object_def)
qed

section \<open>Properties\<close>

text \<open>
  C1. A grammar object recognises its grammar. Feed it a text in pieces, however cut (even inside
  a character), and let the calls return: when every piece is accepted, the text may end (the empty
  stack is there, so an end-of-generation token is allowed) exactly when the grammar derives the
  text from its root rule; when a piece is refused, it is by the exception for an empty set of
  stacks, never a failed assertion, and the grammar derives neither the text nor any continuation
  of it. So a text that the grammar derives, or that can be continued to one, is never refused.
\<close>

theorem grammar_recognises_language:
  assumes "llama_grammar_parser_parse vocab src llama_grammar_parser_new = Inr (Some p)" and "length (gp_symbol_ids p) < 2 ^ 32"
    and "map_of (gp_symbol_ids p) root = Some start"
    and "llama_grammar_init_impl vocab src root lazy patterns tokens = Some (Inr (Some g))"
    and "concat pieces = concat (map utf8_encode cs)" and "list_all scalar cs"
    and "mfold (\<lambda>piece g. llama_grammar_accept_str g piece) pieces g = Some r"
  shows "case r of
      Inr g' \<Rightarrow> [] \<in> set (gr_stacks g') \<longleftrightarrow> derives (gp_rules p) (unat start) (map of_nat cs)
    | Inl e \<Rightarrow> (\<exists>msg. e = Thrown msg) \<and> (\<forall>v. \<not> derives (gp_rules p) (unat start) (map of_nat cs @ v))"
proof -
  note g = init_object_ok [OF assms(1-4)]
  note decoded = pieces_decoded [OF assms(5,6), of "gr_partial_utf8 g"]
  show ?thesis
  proof (cases r)
    case (Inr g')
    have all: "accept_all (gr_rules g) (map of_nat cs) (gr_stacks g) = Some (Inr (gr_stacks g'))"
      using accept_pieces_object [OF assms(7) [unfolded Inr]] decoded by (simp add: g(5))
    from accept_all_ok [OF all g(2,3)] have "stacks_ok (gr_rules g) (gr_stacks g')"
      "stacks_lang (gr_rules g) (gr_stacks g') [] \<longleftrightarrow> stacks_lang (gr_rules g) (gr_stacks g) (map of_nat cs)" by auto
    with stacks_lang_Nil g(1,4) Inr show ?thesis by auto
  next
    case (Inl e)
    from accept_pieces_refused [OF assms(7) [unfolded Inl] g(2,3)] decoded obtain us vs msg where
      us: "map of_nat cs = us @ vs" "accept_all (gr_rules g) us (gr_stacks g) = Some (Inr [])" "e = Thrown msg"
      by (auto simp: g(5))
    have "\<not> stacks_lang (gr_rules g) (gr_stacks g) (us @ w)" for w
      using accept_all_ok [OF us(2) g(2,3)] by (simp add: stacks_lang_def)
    with us(1,3) g(1,4) Inl show ?thesis by simp
  qed
qed

definition demo_object :: llama_grammar where
  "demo_object = (case llama_grammar_init_impl None demo_grammar ''root'' False [] [] of
     Some (Inr (Some g)) \<Rightarrow> g | _ \<Rightarrow> grammar_object [] [] False [] [])"

definition demo_fed :: llama_grammar where
  "demo_fed = (case mfold (\<lambda>piece g. llama_grammar_accept_str g piece) [''a'', ''b''] demo_object of
     Some (Inr g) \<Rightarrow> g | _ \<Rightarrow> demo_object)"

lemma demo_object_init: "llama_grammar_init_impl None demo_grammar ''root'' False [] [] = Some (Inr (Some demo_object))"
  by code_simp

lemma demo_object_fed: "mfold (\<lambda>piece g. llama_grammar_accept_str g piece) [''a'', ''b''] demo_object = Some (Inr demo_fed)"
  by code_simp

lemma demo_root: "map_of (gp_symbol_ids demo_parser) ''root'' = Some 0"
  by code_simp

lemma demo_small: "length (gp_symbol_ids demo_parser) < 2 ^ 32"
  using demo_parse by simp

lemmas demo_object_ok = init_object_ok [OF conjunct1 [OF demo_parse] demo_small demo_root demo_object_init]

lemma grammar_recognises_language_witness: "derives (gp_rules demo_parser) 0 [97, 98]"
proof -
  have pieces: "concat [''a'', ''b''] = concat (map utf8_encode [97, 98])" by code_simp
  have ended: "[] \<in> set (gr_stacks demo_fed)" by code_simp
  from grammar_recognises_language [OF conjunct1 [OF demo_parse] demo_small demo_root demo_object_init pieces _ demo_object_fed]
  show ?thesis by (simp add: scalar_def ended)
qed

end
