(* ===== verification/Grammar_Masking.thy ===== *)
theory Grammar_Masking
  imports Grammar_Sound
begin

text \<open>
  Masking of candidate tokens against acceptance: which candidates the recursion over stacks and
  code points rejects, and that the sampler leaves a token exactly when accepting it succeeds.
\<close>

section \<open>Which candidates survive\<close>

abbreviation class_at :: "llama_grammar_rules \<Rightarrow> grammar_pos \<Rightarrow> llama_grammar_rule" where
  "class_at rs pos \<equiv> drop (snd pos) (rs ! fst pos)"

definition hits :: "llama_grammar_rules \<Rightarrow> grammar_pos \<Rightarrow> u32 \<Rightarrow> bool" where
  "hits rs pos c \<longleftrightarrow> in_class (class_at rs pos) c = is_positive (elem rs pos)"

definition after_class :: "llama_grammar_rules \<Rightarrow> llama_grammar_stack \<Rightarrow> llama_grammar_stack" where
  "after_class rs s = next_stack rs s (pos_plus (last s) (class_length (class_at rs (last s))))"

text \<open>The stacks after a character, from a set of stacks.\<close>

definition stack_step :: "llama_grammar_rules \<Rightarrow> u32 \<Rightarrow> llama_grammar_stack \<Rightarrow> llama_grammar_stack set" where
  "stack_step rs c s =
     (if s \<noteq> [] \<and> \<not> is_token_elem (elem rs (last s)) \<and> hits rs (last s) c then closure rs (after_class rs s) else {})"

text \<open>
  A stack takes the rest of a candidate: the code points that are left, the incomplete sequence at
  its end and the id of the token.
\<close>

fun takes :: "llama_grammar_rules \<Rightarrow> u32 \<Rightarrow> llama_partial_utf8 \<Rightarrow> u32 list \<Rightarrow> llama_grammar_stack \<Rightarrow> bool" where
  "takes rs i p [] s \<longleftrightarrow>
     pu_remain p = 0 \<or> (s \<noteq> [] \<and> \<not> is_token_elem (elem rs (last s)) \<and> llama_grammar_match_partial_char rs (last s) p = mret True)"
| "takes rs i p (c # cs) s \<longleftrightarrow>
     (if s \<noteq> [] \<and> is_token_elem (elem rs (last s)) then llama_grammar_match_token rs (last s) i
      else \<exists>s' \<in> stack_step rs c s. takes rs i p cs s')"

definition cand_rest :: "llama_grammar_candidate \<Rightarrow> u32 list" where
  "cand_rest tok = takeWhile (\<lambda>c. c \<noteq> 0) (drop (cd_offset tok) (cd_vector tok))"

definition cand_ok :: "llama_grammar_candidate \<Rightarrow> bool" where
  "cand_ok tok \<longleftrightarrow> 0 \<in> set (drop (cd_offset tok) (cd_vector tok))"

definition cand_taken :: "llama_grammar_rules \<Rightarrow> llama_grammar_stack \<Rightarrow> llama_grammar_candidate \<Rightarrow> bool" where
  "cand_taken rs s tok \<longleftrightarrow> takes rs (cd_id tok) (cd_partial_utf8 tok) (cand_rest tok) s"

lemma cand_rest_cases:
  assumes "cand_ok tok"
  shows "code_point tok = 0 \<Longrightarrow> cand_rest tok = []"
    and "code_point tok \<noteq> 0 \<Longrightarrow> cand_rest tok = code_point tok # cand_rest (tok\<lparr>cd_offset := cd_offset tok + 1\<rparr>)
      \<and> cand_ok (tok\<lparr>cd_offset := cd_offset tok + 1\<rparr>)"
proof -
  have l: "cd_offset tok < length (cd_vector tok)" using assms by (auto simp: cand_ok_def intro: ccontr)
  then have d: "drop (cd_offset tok) (cd_vector tok) = code_point tok # drop (cd_offset tok + 1) (cd_vector tok)"
    by (simp add: code_point_def Cons_nth_drop_Suc)
  show "code_point tok = 0 \<Longrightarrow> cand_rest tok = []"
    unfolding cand_rest_def d by simp
  show "code_point tok \<noteq> 0 \<Longrightarrow> cand_rest tok = code_point tok # cand_rest (tok\<lparr>cd_offset := cd_offset tok + 1\<rparr>)
      \<and> cand_ok (tok\<lparr>cd_offset := cd_offset tok + 1\<rparr>)"
    using assms unfolding cand_rest_def cand_ok_def d by simp
qed

lemma match_char_hits:
  assumes "wf_rules rs" "stack_ok rs s" "s \<noteq> []" "normal rs s" "\<not> is_token_elem (elem rs (last s))"
  shows "llama_grammar_match_char rs (last s) c = mret (hits rs (last s) c, pos_plus (last s) (class_length (class_at rs (last s))))"
  using match_char_eq [OF assms(1), of "last s" c] stack_ok_last [OF assms(2,3)] assms(3,4,5)
  by (auto simp: hits_def normal_def is_terminal_def)

lemma after_class_stack_ok:
  assumes "wf_rules rs" "stack_ok rs s" "s \<noteq> []"
  shows "stack_ok rs (after_class rs s)"
proof -
  have "ge_type (elem rs (last s)) \<noteq> LLAMA_GRETYPE_END" using stack_ok_last [OF assms(2,3)] by (auto simp: end_types)
  then show ?thesis
    unfolding after_class_def using stack_ok_last [OF assms(2,3)] assms(1,2) by (intro next_stack_ok after_class_ok) simp_all
qed

lemma stack_step_ok:
  assumes "wf_rules rs" "stack_ok rs s" "s' \<in> stack_step rs c s"
  shows "stack_ok rs s' \<and> normal rs s'"
proof -
  have "s \<noteq> []" "s' \<in> closure rs (after_class rs s)" using assms(3) by (auto simp: stack_step_def split: if_splits)
  with after_class_stack_ok [OF assms(1,2)] show ?thesis using closure_ok [OF assms(1)] by (auto simp: closure_def)
qed

section \<open>The recursion over stacks and code points\<close>

lemma split_candidates_sets:
  assumes "split_candidates rs (last s) cands = Some (Inr (rejects, nexts))" "wf_rules rs" "stack_ok rs s" "s \<noteq> []" "normal rs s"
    "\<not> is_token_elem (elem rs (last s))" "\<forall>tok \<in> set cands. cand_ok tok"
  shows "set rejects = {tok \<in> set cands. if code_point tok = 0 then \<not> cand_taken rs s tok else \<not> hits rs (last s) (code_point tok)}
    \<and> set nexts = (\<lambda>tok. tok\<lparr>cd_offset := cd_offset tok + 1\<rparr>) ` {tok \<in> set cands. code_point tok \<noteq> 0 \<and> hits rs (last s) (code_point tok)}"
  using assms
proof (induction cands arbitrary: rejects nexts)
  case (Cons tok cands)
  note hit = match_char_hits [OF assms(2,3,4,5,6)]
  from Cons.prems(1) obtain r rej nx where r: "reject_char rs (last s) tok = Some (Inr r)" "split_candidates rs (last s) cands = Some (Inr (rej, nx))"
    "(rejects, nexts) = (case r of None \<Rightarrow> (rej, tok\<lparr>cd_offset := cd_offset tok + 1\<rparr> # nx) | Some True \<Rightarrow> (tok # rej, nx) | Some False \<Rightarrow> (rej, nx))"
    by (auto simp: mbind_returns)
  have ok: "cand_ok tok" using Cons.prems(7) by simp
  have r_eq: "r = (if code_point tok = 0 then Some (\<not> cand_taken rs s tok) else if hits rs (last s) (code_point tok) then None else Some True)"
    using r(1) assms(4,6) cand_rest_cases(1) [OF ok]
    by (auto simp: reject_char_def hit cand_taken_def mbind_returns mret_def split: if_splits)
  note IH = Cons.IH [OF r(2) Cons.prems(2-6)]
  show ?case using r(3) IH Cons.prems(7) unfolding r_eq
    by (cases "code_point tok = 0"; cases "cand_taken rs s tok"; cases "hits rs (last s) (code_point tok)") auto
qed auto

lemma restore_offset:
  "(\<lambda>tok. tok\<lparr>cd_offset := cd_offset tok - 1\<rparr>) ` {tok \<in> (\<lambda>tok. tok\<lparr>cd_offset := cd_offset tok + 1\<rparr>) ` A. P tok}
    = {tok \<in> A. P (tok\<lparr>cd_offset := cd_offset tok + 1\<rparr>)}"
proof -
  have "{tok \<in> (\<lambda>tok. tok\<lparr>cd_offset := cd_offset tok + 1\<rparr>) ` A. P tok}
      = (\<lambda>tok. tok\<lparr>cd_offset := cd_offset tok + 1\<rparr>) ` {tok \<in> A. P (tok\<lparr>cd_offset := cd_offset tok + 1\<rparr>)}" by auto
  then show ?thesis by (simp add: image_image)
qed

lemma reject_for_stack_set:
  assumes "reject_for_stack d rs s cands = Some (Inr rejects)" "wf_rules rs" "stack_ok rs s" "normal rs s" "\<forall>tok \<in> set cands. cand_ok tok"
  shows "set rejects = {tok \<in> set cands. \<not> cand_taken rs s tok}"
  using assms
proof (induction d arbitrary: s cands rejects)
  case (Suc d)
  show ?case
  proof (cases "s = []")
    case True
    have "reject_empty tok \<longleftrightarrow> \<not> cand_taken rs [] tok" if "cand_ok tok" for tok
      using cand_rest_cases [OF that] by (cases "code_point tok = 0") (auto simp: reject_empty_def cand_taken_def stack_step_def)
    with Suc.prems(1,5) True show ?thesis by auto
  next
    case ne: False
    show ?thesis
    proof (cases "is_token_elem (elem rs (last s))")
      case True
      have "reject_token rs (last s) tok \<longleftrightarrow> \<not> cand_taken rs s tok" if "cand_ok tok" for tok
        using cand_rest_cases [OF that] True ne by (cases "code_point tok = 0") (auto simp: reject_token_def cand_taken_def)
      with Suc.prems(1,5) True ne show ?thesis by auto
    next
      case no: False
      note hit = match_char_hits [OF Suc.prems(2,3) ne Suc.prems(4) no]
      have after: "next_stack rs s (pos_plus (last s) (class_length (class_at rs (last s)))) = after_class rs s" by (simp add: after_class_def)
      from Suc.prems(1) ne no obtain rej nx stacks nrej where
        split: "split_candidates rs (last s) cands = Some (Inr (rej, nx))"
        and adv: "llama_grammar_advance_stack rs (after_class rs s) [] = Some (Inr stacks)"
        and nrej: "(if nx = [] then mret [] else mfold (reject_for_stack d rs) stacks nx) = Some (Inr nrej)"
        and rejects: "rejects = rej @ map (\<lambda>tok. tok\<lparr>cd_offset := cd_offset tok - 1\<rparr>) nrej"
        by (auto simp: mbind_returns hit after Let_def split: if_splits)
      note sets = split_candidates_sets [OF split Suc.prems(2,3) ne Suc.prems(4) no Suc.prems(5)]
      have nx_ok: "\<forall>tok \<in> set nx. cand_ok tok"
        using sets cand_rest_cases(2) Suc.prems(5) by auto
      have clos: "set stacks = closure rs (after_class rs s)" using advance_stack_closure [OF adv] by simp
      have stacks: "\<forall>t \<in> set stacks. stack_ok rs t \<and> normal rs t"
        using clos closure_ok [OF Suc.prems(2) after_class_stack_ok [OF Suc.prems(2,3) ne]] by (auto simp: closure_def)
      have fold: "set res = {tok \<in> set toks. \<forall>t \<in> set ts. \<not> cand_taken rs t tok}"
        if "mfold (reject_for_stack d rs) ts toks = Some (Inr res)" "set ts \<subseteq> set stacks" "\<forall>tok \<in> set toks. cand_ok tok" for ts toks res
        using that
      proof (induction ts arbitrary: toks)
        case (Cons t ts)
        then obtain mid where m: "reject_for_stack d rs t toks = Some (Inr mid)" "mfold (reject_for_stack d rs) ts mid = Some (Inr res)"
          by (auto simp: mbind_returns)
        from Suc.IH [OF m(1) Suc.prems(2)] stacks Cons.prems have "set mid = {tok \<in> set toks. \<not> cand_taken rs t tok}" by auto
        with Cons.IH [OF m(2)] Cons.prems show ?case by auto
      qed auto
      have nrej_set: "set nrej = {tok \<in> set nx. \<forall>t \<in> set stacks. \<not> cand_taken rs t tok}"
        using nrej fold [OF _ subset_refl nx_ok] by (auto split: if_splits)
      have taken: "cand_taken rs s tok \<longleftrightarrow> hits rs (last s) (code_point tok) \<and> (\<exists>t \<in> set stacks. cand_taken rs t (tok\<lparr>cd_offset := cd_offset tok + 1\<rparr>))"
        if "tok \<in> set cands" "code_point tok \<noteq> 0" for tok
        using cand_rest_cases(2) [of tok] that Suc.prems(5) ne no by (auto simp: cand_taken_def stack_step_def clos)
      show ?thesis
        unfolding rejects set_append set_map nrej_set conjunct1 [OF sets] conjunct2 [OF sets]
        restore_offset [of "{tok \<in> set cands. code_point tok \<noteq> 0 \<and> hits rs (last s) (code_point tok)}" "\<lambda>tok. \<forall>t \<in> set stacks. \<not> cand_taken rs t tok"]
        using taken by auto
    qed
  qed
qed simp

lemma reject_candidates_set:
  assumes "llama_grammar_reject_candidates rs stacks cands = Some (Inr rejects)" "wf_rules rs" "stacks_ok rs stacks" "\<forall>tok \<in> set cands. cand_ok tok"
  shows "set rejects = {tok \<in> set cands. \<forall>s \<in> set stacks. \<not> cand_taken rs s tok}"
proof -
  have "set res = {tok \<in> set toks. \<forall>t \<in> set ts. \<not> cand_taken rs t tok}"
    if "mfold (reject_for_stack d rs) ts toks = Some (Inr res)" "set ts \<subseteq> set stacks" "\<forall>tok \<in> set toks. cand_ok tok" for d ts toks res
    using that
  proof (induction ts arbitrary: toks)
    case (Cons t ts)
    then obtain mid where m: "reject_for_stack d rs t toks = Some (Inr mid)" "mfold (reject_for_stack d rs) ts mid = Some (Inr res)"
      by (auto simp: mbind_returns)
    from reject_for_stack_set [OF m(1) assms(2)] assms(3) Cons.prems have "set mid = {tok \<in> set toks. \<not> cand_taken rs t tok}"
      by (auto simp: stacks_ok_def)
    with Cons.IH [OF m(2)] Cons.prems show ?case by auto
  qed auto
  from this [OF _ subset_refl assms(4)] assms(1) show ?thesis by (auto simp: llama_grammar_reject_candidates_def split: if_splits)
qed

section \<open>Acceptance of a token\<close>

definition no_tokens :: "llama_grammar_rules \<Rightarrow> bool" where
  "no_tokens rs \<longleftrightarrow> (\<forall>rule \<in> set rs. \<forall>e \<in> set rule. \<not> is_token_elem e)"

lemma no_tokens_top:
  assumes "no_tokens rs" "stack_ok rs s" "s \<noteq> []"
  shows "\<not> is_token_elem (elem rs (last s))"
proof -
  have "fst (last s) < length rs" "snd (last s) < length (rs ! fst (last s))" using stack_ok_last [OF assms(2,3)] by (auto simp: pos_ok_def)
  then have "rs ! fst (last s) \<in> set rs" "elem rs (last s) \<in> set (rs ! fst (last s))" by (auto simp: elem_def)
  with assms(1) show ?thesis by (auto simp: no_tokens_def)
qed

lemma accept_chr_set:
  assumes "llama_grammar_accept_chr rs c s new_stacks = Some (Inr res)" "wf_rules rs" "stack_ok rs s" "normal rs s"
  shows "set res = set new_stacks \<union> stack_step rs c s"
proof (cases "s = [] \<or> is_token_elem (elem rs (last s))")
  case True
  with assms(1) show ?thesis by (auto simp: llama_grammar_accept_chr_def stack_step_def split: if_splits)
next
  case False
  then have ne: "s \<noteq> []" "\<not> is_token_elem (elem rs (last s))" by auto
  note hit = match_char_hits [OF assms(2,3) ne(1) assms(4) ne(2), of c]
  show ?thesis
    using assms(1) ne advance_stack_closure [of rs "after_class rs s" new_stacks res]
    by (auto simp: llama_grammar_accept_chr_def hit stack_step_def after_class_def split: if_splits)
qed

lemma accept_fold_set:
  assumes "mfold (llama_grammar_accept_chr rs c) stacks new_stacks = Some (Inr res)" "wf_rules rs" "stacks_ok rs stacks"
  shows "set res = set new_stacks \<union> (\<Union>s \<in> set stacks. stack_step rs c s)"
  using assms
proof (induction stacks arbitrary: new_stacks)
  case (Cons s stacks)
  then obtain mid where m: "llama_grammar_accept_chr rs c s new_stacks = Some (Inr mid)" "mfold (llama_grammar_accept_chr rs c) stacks mid = Some (Inr res)"
    by (auto simp: mbind_returns)
  have s: "stack_ok rs s" "normal rs s" "stacks_ok rs stacks" using Cons.prems(3) by (auto simp: stacks_ok_def)
  from accept_chr_set [OF m(1) Cons.prems(2) s(1,2)] Cons.IH [OF m(2) Cons.prems(2) s(3)] show ?case by auto
qed simp

lemma accept_code_points_takes:
  assumes "accept_code_points rs cs stacks = Some r" "wf_rules rs" "stacks_ok rs stacks" "no_tokens rs" "pu_remain p = 0"
  shows "\<exists>res. r = Inr res \<and> (res \<noteq> [] \<longleftrightarrow> (\<exists>s \<in> set stacks. takes rs i p cs s))"
  using assms(1,3)
proof (induction cs arbitrary: stacks)
  case Nil
  then show ?case using assms(5) by (auto simp: mret_def ex_in_conv)
next
  case (Cons c cs)
  obtain q where q: "mfold (llama_grammar_accept_chr rs c) stacks [] = Some q" using Cons.prems(1) by (auto simp: mbind_def split: option.splits)
  have "q \<noteq> Inl e" for e using accept_fold_no_abort [OF assms(2) Cons.prems(2), of "[]"] q by (auto simp: stacks_ok_def)
  then obtain nx where nx: "mfold (llama_grammar_accept_chr rs c) stacks [] = Some (Inr nx)" using q by (cases q) auto
  have set_nx: "set nx = (\<Union>s \<in> set stacks. stack_step rs c s)" using accept_fold_set [OF nx assms(2) Cons.prems(2)] by simp
  have ok: "stacks_ok rs nx" using stack_step_ok [OF assms(2)] Cons.prems(2) set_nx by (auto simp: stacks_ok_def)
  have step: "(\<exists>s \<in> set stacks. takes rs i p (c # cs) s) \<longleftrightarrow> (\<exists>t \<in> set nx. takes rs i p cs t)"
    unfolding set_nx using Cons.prems(2) no_tokens_top [OF assms(4)] by (auto simp: stacks_ok_def)
  show ?case
  proof (cases "nx = []")
    case True
    with Cons.prems(1) nx step show ?thesis by (auto simp: mret_def)
  next
    case False
    with Cons.prems(1) nx have "accept_code_points rs cs nx = Some r" by simp
    from Cons.IH [OF this ok] step show ?thesis by simp
  qed
qed

lemma foldl_push_new [simp]: "set (foldl (\<lambda>new s. push_new s new) ss ts) = set ss \<union> set ts"
  by (induction ts arbitrary: ss) auto

lemma accept_token_fold_takes:
  assumes "mfold (accept_token_stack rs token cs) stacks new_stacks = Some r" "wf_rules rs" "stacks_ok rs stacks" "no_tokens rs"
    "pu_remain p = 0" "cs \<noteq> []"
  shows "\<exists>res. r = Inr res \<and> (res \<noteq> [] \<longleftrightarrow> new_stacks \<noteq> [] \<or> (\<exists>s \<in> set stacks. takes rs i p cs s))"
  using assms(1,3)
proof (induction stacks arbitrary: new_stacks)
  case Nil
  then show ?case by (auto simp: mret_def)
next
  case (Cons s stacks)
  have s: "stack_ok rs s" "normal rs s" "stacks_ok rs stacks" using Cons.prems(2) by (auto simp: stacks_ok_def)
  show ?case
  proof (cases "s = []")
    case True
    then have "accept_token_stack rs token cs s new_stacks = mret new_stacks" by (simp add: accept_token_stack_def)
    with Cons.prems(1) have "mfold (accept_token_stack rs token cs) stacks new_stacks = Some r" by simp
    moreover have "\<not> takes rs i p cs s" using True assms(6) by (cases cs) (auto simp: stack_step_def)
    ultimately show ?thesis using Cons.IH s(3) by simp
  next
    case ne: False
    have no: "\<not> is_token_elem (elem rs (last s))" using no_tokens_top [OF assms(4) s(1) ne] .
    obtain q where q: "accept_code_points rs cs [s] = Some q"
      using Cons.prems(1) ne no by (auto simp: accept_token_stack_def Let_def mbind_def split: option.splits)
    have "stacks_ok rs [s]" using s(1,2) by (simp add: stacks_ok_def)
    from accept_code_points_takes [OF q assms(2) this assms(4,5), of i] obtain res where res: "q = Inr res" "res \<noteq> [] \<longleftrightarrow> takes rs i p cs s" by auto
    have "accept_token_stack rs token cs s new_stacks = mret (foldl (\<lambda>new s. push_new s new) new_stacks res)"
      using ne no q res(1) by (simp add: accept_token_stack_def Let_def)
    with Cons.prems(1) have "mfold (accept_token_stack rs token cs) stacks (foldl (\<lambda>new s. push_new s new) new_stacks res) = Some r" by simp
    from Cons.IH [OF this s(3)] res(2) show ?thesis
      using foldl_push_new [of new_stacks res] by (metis Un_empty list.set_intros(1) set_ConsD set_empty2 list.set_intros(2))
  qed
qed

section \<open>The sampler\<close>

lemma utf8_loop_closed: "\<exists>cs. fst (utf8_loop cps v n s) = cs @ [0]"
  by (induction cps v n s rule: utf8_loop.induct) (auto simp: Let_def split: prod.split)

lemma decode_utf8_closed: "\<exists>cs. fst (decode_utf8 s p) = cs @ [0]"
  unfolding decode_utf8_def using utf8_loop_closed by (auto split: option.split)

lemma decode_utf8_empty: "c_str s = [] \<Longrightarrow> fst (decode_utf8 s p) = [0]"
  by (simp add: decode_utf8_def)

lemma grammar_candidates_ok: "tok \<in> set (grammar_candidates vocab g candidates) \<Longrightarrow> cand_ok tok"
proof -
  assume "tok \<in> set (grammar_candidates vocab g candidates)"
  then obtain i token where "tok = grammar_candidate vocab g i token" by (auto simp: grammar_candidates_def)
  with decode_utf8_closed [of "vocab_token_to_piece vocab token" "gr_partial_utf8 g"] show ?thesis
    by (auto simp: cand_ok_def grammar_candidate_def Let_def)
qed

lemma grammar_candidates_at:
  assumes "i < length candidates" "\<not> vocab_is_eog vocab (candidates ! i)" "\<not> masked_at_once vocab False (candidates ! i)"
  shows "tok \<in> set (grammar_candidates vocab g candidates) \<and> cd_index tok = i \<longleftrightarrow> tok = grammar_candidate vocab g i (candidates ! i)"
proof -
  have "set (grammar_candidates vocab g candidates) = {grammar_candidate vocab g j (candidates ! j) | j. j < length candidates
      \<and> \<not> vocab_is_eog vocab (candidates ! j) \<and> \<not> masked_at_once vocab False (candidates ! j)}"
    by (auto simp: grammar_candidates_def in_set_zip image_iff)
      (metis add.left_neutral length_upt minus_nat.diff_0 nth_upt)
  moreover have "cd_index (grammar_candidate vocab g j t) = j" for j t by (simp add: grammar_candidate_def Let_def)
  ultimately show ?thesis using assms by auto
qed

section \<open>Properties\<close>

text \<open>
  C3. For a grammar without token elements the sampler and the acceptance of a token agree: a
  candidate that ends on a character boundary is left unmasked exactly when accepting it succeeds,
  so a token the sampler offers never fails afterwards and no token the grammar allows is masked.
\<close>

theorem sampler_agrees_with_acceptance:
  assumes "wf_rules (gr_rules g)" and "stacks_ok (gr_rules g) (gr_stacks g)" and "no_tokens (gr_rules g)" and "\<not> gr_awaiting_trigger g"
    and "llama_grammar_sample_impl vocab g candidates = Some (Inr masks)"
    and "i < length candidates" and "\<not> vocab_is_eog vocab (candidates ! i)"
    and "decode_utf8 (vocab_token_to_piece vocab (candidates ! i)) (gr_partial_utf8 g) = (cs @ [0], p)"
    and "cs \<noteq> []" and "0 \<notin> set cs" and "pu_remain p = 0"
    and "llama_grammar_accept_token g (candidates ! i) (vocab_token_to_piece vocab (candidates ! i)) = Some r"
  shows "\<not> masks ! i \<longleftrightarrow> (\<exists>g'. r = Inr g')"
proof -
  let ?token = "candidates ! i" and ?piece = "vocab_token_to_piece vocab (candidates ! i)" and ?rs = "gr_rules g"
  define tok where "tok = grammar_candidate vocab g i ?token"
  have tok: "tok = \<lparr>cd_index = i, cd_vector = cs @ [0], cd_offset = 0, cd_partial_utf8 = p, cd_id = ?token\<rparr>"
    by (simp add: tok_def grammar_candidate_def assms(8))
  have "c_str ?piece \<noteq> []" using decode_utf8_empty [of ?piece "gr_partial_utf8 g"] assms(8,9) by auto
  then have piece: "?piece \<noteq> []" "hd ?piece \<noteq> CHR 0x00" unfolding c_str_def by (cases ?piece; auto)+
  then have visible: "\<not> masked_at_once vocab b ?token" for b using assms(7) by (simp add: masked_at_once_def)
  note at = grammar_candidates_at [OF assms(6,7) visible, of _ g, folded tok_def]
  from assms(4,5) obtain rejects where rej: "llama_grammar_reject_candidates ?rs (gr_stacks g) (grammar_candidates vocab g candidates) = Some (Inr rejects)"
    and masks: "masks = map (\<lambda>(i, token). masked_at_once vocab ([] \<in> set (gr_stacks g)) token \<or> i \<in> cd_index ` set rejects) (zip [0..<length candidates] candidates)"
    by (auto simp: llama_grammar_sample_impl_def mbind_returns Let_def)
  note rejected = reject_candidates_set [OF rej assms(1,2)]
  have "masks ! i \<longleftrightarrow> i \<in> cd_index ` set rejects" using assms(6) visible by (simp add: masks)
  also have "\<dots> \<longleftrightarrow> tok \<in> set rejects" 
  proof
    assume "i \<in> cd_index ` set rejects"
    then obtain t where "t \<in> set rejects" "cd_index t = i" by auto
    with rejected grammar_candidates_ok at [of t] show "tok \<in> set rejects" by auto
  next
    assume "tok \<in> set rejects"
    with at [of tok] show "i \<in> cd_index ` set rejects" by auto
  qed
  also have "\<dots> \<longleftrightarrow> (\<forall>s \<in> set (gr_stacks g). \<not> cand_taken ?rs s tok)"
    using rejected grammar_candidates_ok at [of tok] by auto
  also have "\<dots> \<longleftrightarrow> (\<forall>s \<in> set (gr_stacks g). \<not> takes ?rs ?token p cs s)"
  proof -
    have "takeWhile (\<lambda>c. c \<noteq> 0) (cs @ [0]) = cs" using assms(10) by (induction cs) auto
    then have "cand_rest tok = cs" by (simp add: cand_rest_def tok)
    then show ?thesis by (simp add: cand_taken_def tok)
  qed
  finally have mask: "masks ! i \<longleftrightarrow> (\<forall>s \<in> set (gr_stacks g). \<not> takes ?rs ?token p cs s)" .
  obtain q where q: "mfold (accept_token_stack ?rs ?token cs) (gr_stacks g) [] = Some q"
    using assms(12) by (auto simp: llama_grammar_accept_token_def assms(8) mbind_def split: option.splits)
  from accept_token_fold_takes [OF q assms(1,2,3,11,9), of ?token] obtain res where
    "q = Inr res" "res \<noteq> [] \<longleftrightarrow> (\<exists>s \<in> set (gr_stacks g). takes ?rs ?token p cs s)" by auto
  then have "(\<exists>g'. r = Inr g') \<longleftrightarrow> (\<exists>s \<in> set (gr_stacks g). takes ?rs ?token p cs s)"
    using assms(12) q by (auto simp: llama_grammar_accept_token_def assms(8) mret_def mfail_def)
  with mask show ?thesis by blast
qed

definition demo_vocab :: llama_vocab where
  "demo_vocab = \<lparr>vocab_token_to_piece = (\<lambda>t. if t = 7 then ''ab'' else if t = 8 then ''zz'' else []), vocab_is_eog = (\<lambda>t. t = 9)\<rparr>"

lemma accept_demo: "llama_grammar_accept_token demo_object 7 ''ab'' \<noteq> None"
  by code_simp

lemma sampler_agrees_with_acceptance_witness:
  "llama_grammar_sample_impl demo_vocab demo_object [7, 8, 9] = Some (Inr [False, True, True])
   \<and> (\<exists>g'. llama_grammar_accept_token demo_object 7 ''ab'' = Some (Inr g'))"
proof -
  have sample: "llama_grammar_sample_impl demo_vocab demo_object [7, 8, 9] = Some (Inr [False, True, True])" by code_simp
  obtain r where r: "llama_grammar_accept_token demo_object 7 ''ab'' = Some r"
    using accept_demo by blast
  have tokens: "no_tokens (gr_rules demo_object)" by code_simp
  have idle: "\<not> gr_awaiting_trigger demo_object" by code_simp
  have decoded: "decode_utf8 ''ab'' (gr_partial_utf8 demo_object) = ([97, 98] @ [0], \<lparr>pu_value = 98, pu_remain = 0\<rparr>)" by code_simp
  show ?thesis
    using sampler_agrees_with_acceptance [OF demo_object_ok(2,3) tokens idle sample, of 0 "[97, 98]" "\<lparr>pu_value = 98, pu_remain = 0\<rparr>" r]
      sample decoded r by (simp add: demo_vocab_def)
qed

end
