(* ===== verification/Grammar_Recursion.thy ===== *)
theory Grammar_Recursion
  imports Grammar_Sound
begin

text \<open>
  When the expansion of a stack returns: the left recursion check is enough for grammars in which
  every rule that can derive the empty text has an alternate written empty, and it is not enough
  without that condition.
\<close>

section \<open>Left corners\<close>

text \<open>The rules that may be expanded first when a stack has \<open>pos\<close> on top.\<close>

inductive heads :: "llama_grammar_rules \<Rightarrow> grammar_pos \<Rightarrow> nat \<Rightarrow> bool" for rs where
  h_here: "ge_type (elem rs pos) = LLAMA_GRETYPE_RULE_REF \<Longrightarrow> heads rs pos (rule_of_ref rs pos)"
| h_skip: "ge_type (elem rs pos) = LLAMA_GRETYPE_RULE_REF \<Longrightarrow> derives rs (rule_of_ref rs pos) [] \<Longrightarrow> heads rs (pos_plus pos 1) r
    \<Longrightarrow> heads rs pos r"

definition left_corner :: "llama_grammar_rules \<Rightarrow> nat \<Rightarrow> nat \<Rightarrow> bool" where
  "left_corner rs r' r \<longleftrightarrow> (\<exists>i \<in> set (alternate_starts (rs ! r) 0). heads rs (r, i) r')"

abbreviation settles :: "llama_grammar_rules \<Rightarrow> llama_grammar_stack \<Rightarrow> bool" where
  "settles rs \<equiv> Wellfounded.accp (\<lambda>s' s. expands rs s s')"

lemma settlesI: "(\<And>s'. expands rs s s' \<Longrightarrow> settles rs s') \<Longrightarrow> settles rs s"
  by (rule accp.accI)

definition rule_settles :: "llama_grammar_rules \<Rightarrow> nat \<Rightarrow> bool" where
  "rule_settles rs r \<longleftrightarrow> (\<forall>i \<in> set (alternate_starts (rs ! r) 0). \<forall>base.
     (matches rs (r, i) [] \<longrightarrow> settles rs base) \<longrightarrow> settles rs (push_pos rs base (r, i)))"

lemma pos_settles:
  assumes "wf_rules rs" "pos_ok rs pos" "\<And>r. heads rs pos r \<Longrightarrow> rule_settles rs r" "matches rs pos [] \<longrightarrow> settles rs base"
  shows "settles rs (push_pos rs base pos)"
  using assms(2,3,4)
proof (induction "length (rs ! fst pos) - snd pos" arbitrary: pos rule: less_induct)
  case less
  show ?case
  proof (cases "llama_grammar_is_end_of_sequence rs pos")
    case True
    with less.prems(3) m_end [OF True] show ?thesis by (simp add: push_pos_def)
  next
    case no_end: False
    then have p: "push_pos rs base pos = base @ [pos]" by (simp add: push_pos_def)
    show ?thesis
    proof (cases "ge_type (elem rs pos) = LLAMA_GRETYPE_RULE_REF")
      case True
      let ?r = "rule_of_ref rs pos" and ?base = "push_pos rs base (pos_plus pos 1)"
      have nxt: "pos_ok rs (pos_plus pos 1)" using assms(1) less.prems(1) no_end True by (intro next_pos_ok) (simp_all add: is_char_type_def)
      have r: "rule_settles rs ?r" using less.prems(2) h_here [OF True] by blast
      have base: "settles rs ?base" if "derives rs ?r []"
      proof (rule less.hyps)
        show "length (rs ! fst (pos_plus pos 1)) - snd (pos_plus pos 1) < length (rs ! fst pos) - snd pos"
          using less.prems(1) by (auto simp: pos_plus_def pos_ok_def)
        show "pos_ok rs (pos_plus pos 1)" using nxt .
        show "rule_settles rs r" if "heads rs (pos_plus pos 1) r" for r
          using less.prems(2) h_skip [OF True \<open>derives rs ?r []\<close> that] by blast
        show "matches rs (pos_plus pos 1) [] \<longrightarrow> settles rs base"
        proof
          assume rest: "matches rs (pos_plus pos 1) []"
          from that obtain i where "i \<in> set (alternate_starts (rs ! ?r) 0)" "matches rs (?r, i) []" by (auto simp: derives_def)
          from m_ref [OF True this rest] have "matches rs pos []" by (simp only: append_Nil)
          with less.prems(3) show "settles rs base" by blast
        qed
      qed
      show ?thesis unfolding p
      proof (rule settlesI)
        fix s' assume "expands rs (base @ [pos]) s'"
        then obtain i where i: "i \<in> set (alternate_starts (rs ! ?r) 0)" "s' = push_pos rs ?base (?r, i)"
          by (auto simp: expands_def expansions_eq)
        have "matches rs (?r, i) [] \<longrightarrow> settles rs ?base" using base i(1) by (auto simp: derives_def)
        with r i show "settles rs s'" by (auto simp: rule_settles_def)
      qed
    next
      case False
      then show ?thesis unfolding p by - (rule settlesI, simp add: expands_def)
    qed
  qed
qed

lemma heads_lt: "heads rs pos r \<Longrightarrow> wf_rules rs \<Longrightarrow> pos_ok rs pos \<Longrightarrow> r < length rs"
proof (induction rule: heads.induct)
  case (h_here pos)
  then show ?case using ref_rule_ok by blast
next
  case (h_skip pos r)
  then show ?case using next_pos_ok [of rs pos] by (auto simp: end_types is_char_type_def)
qed

lemma rule_settlesI:
  assumes "wf_rules rs" "Wellfounded.accp (left_corner rs) r" "r < length rs"
  shows "rule_settles rs r"
  using assms(2,3)
proof (induction rule: accp_induct_rule)
  case (1 r)
  show ?case unfolding rule_settles_def
  proof (intro ballI allI impI)
    fix i base assume i: "i \<in> set (alternate_starts (rs ! r) 0)" and b: "matches rs (r, i) [] \<longrightarrow> settles rs base"
    show "settles rs (push_pos rs base (r, i))"
    proof (rule pos_settles [OF assms(1) _ _ b])
      show ok: "pos_ok rs (r, i)" using rule_alternates_ok [OF assms(1) 1(3) i] .
      show "rule_settles rs r'" if "heads rs (r, i) r'" for r'
        using 1(2) [of r'] heads_lt [OF that assms(1) ok] that i by (auto simp: left_corner_def)
    qed
  qed
qed

lemma stack_settles:
  assumes "wf_rules rs" "\<forall>r < length rs. Wellfounded.accp (left_corner rs) r" "stack_ok rs s"
  shows "settles rs s"
  using assms(3)
proof (induction s rule: rev_induct)
  case Nil
  then show ?case by - (rule settlesI, simp add: expands_def)
next
  case (snoc pos s)
  have pos: "pos_ok rs pos" and rest: "stack_ok rs s" using snoc.prems by (auto simp: stack_ok_def)
  have "settles rs (push_pos rs s pos)"
  proof (rule pos_settles [OF assms(1) pos])
    show "rule_settles rs r" if "heads rs pos r" for r
      using rule_settlesI [OF assms(1)] assms(2) heads_lt [OF that assms(1) pos] by blast
    show "matches rs pos [] \<longrightarrow> settles rs s" using snoc.IH [OF rest] by blast
  qed
  moreover have "push_pos rs s pos = s @ [pos]" using snoc.prems by (simp add: push_pos_def)
  ultimately show ?case by (simp only:)
qed

section \<open>The expansion loop returns\<close>

lemma finite_reach: "settles rs s \<Longrightarrow> finite {t. (expands rs)\<^sup>*\<^sup>* s t}"
proof (induction rule: accp_induct_rule)
  case (1 s)
  have "{t. (expands rs)\<^sup>*\<^sup>* s t} = insert s (\<Union>s' \<in> {s' \<in> set (expansions rs s). expands rs s s'}. {t. (expands rs)\<^sup>*\<^sup>* s' t})"
    by (auto elim: converse_rtranclpE intro: converse_rtranclp_into_rtranclp simp: expands_def)
  also have "finite \<dots>" using 1(2) by auto
  finally show ?case .
qed

lemma advance_loop_defined:
  assumes "finite U" "set todo \<subseteq> U" "\<And>s s'. s \<in> U \<Longrightarrow> expands rs s s' \<Longrightarrow> s' \<in> U"
  shows "advance_loop rs todo seen new_stacks \<noteq> None"
  using assms(2)
proof (induction "(card (U - set seen), length todo)" arbitrary: todo seen new_stacks rule: wf_induct_rule [OF wf_lex_prod [OF wf_less wf_less]])
  case (1 todo seen new_stacks)
  show ?case
  proof (cases todo)
    case Nil
    then show ?thesis by (simp add: advance_loop.simps)
  next
    case (Cons s rest)
    note IH = "1.hyps"
    have s: "s \<in> U" "set rest \<subseteq> U" using 1(2) Cons by auto
    have shrink: "s \<notin> set seen \<Longrightarrow> card (U - set (s # seen)) < card (U - set seen)"
      using assms(1) s(1) by (intro psubset_card_mono) auto
    have seen: "s \<in> set seen \<Longrightarrow> advance_loop rs rest seen new_stacks \<noteq> None" using s(2) Cons by (intro IH) auto
    have new: "s \<notin> set seen \<Longrightarrow> set todo' \<subseteq> U \<Longrightarrow> advance_loop rs todo' (s # seen) ns \<noteq> None" for todo' ns
      using shrink by (intro IH) auto
    have exp: "ge_type (elem rs (last s)) = LLAMA_GRETYPE_RULE_REF \<Longrightarrow> s \<noteq> [] \<Longrightarrow> set (rev (expansions rs s) @ rest) \<subseteq> U"
      using assms(3) [OF s(1)] s(2) by (auto simp: expands_def)
    show ?thesis
      unfolding Cons by (subst advance_loop.simps) (use seen new exp s(2) in \<open>auto split: if_splits\<close>)
  qed
qed

lemma advance_returns:
  assumes "wf_rules rs" "\<forall>r < length rs. Wellfounded.accp (left_corner rs) r" "stack_ok rs s"
  shows "\<exists>res. llama_grammar_advance_stack rs s new_stacks = Some (Inr res) \<and> set res = set new_stacks \<union> closure rs s"
proof -
  have "advance_loop rs [s] [] new_stacks \<noteq> None"
    using finite_reach [OF stack_settles [OF assms]]
    by (rule advance_loop_defined) (auto intro: rtranclp.rtrancl_into_rtrancl)
  then obtain r where r: "llama_grammar_advance_stack rs s new_stacks = Some r" by (auto simp: llama_grammar_advance_stack_def)
  with advance_no_abort [OF assms(1,3)] obtain res where "r = Inr res" by (cases r) auto
  with r advance_stack_closure show ?thesis by auto
qed

section \<open>The check bounds the left corners\<close>

text \<open>The references the check descends into, with the final values of its flags.\<close>

fun descends :: "llama_grammar_rules \<Rightarrow> bool \<Rightarrow> llama_grammar_rule \<Rightarrow> nat set" where
  "descends rs recurse [] = {}"
| "descends rs recurse (e # es) =
     (if ge_type e = LLAMA_GRETYPE_RULE_REF \<and> recurse
      then insert (unat (ge_value e)) (descends rs (empty_alternate True (rs ! unat (ge_value e))) es)
      else descends rs (is_end_elem e) es)"

abbreviation checked :: "llama_grammar_rules \<Rightarrow> nat \<Rightarrow> bool" where
  "checked rs \<equiv> Wellfounded.accp (\<lambda>r' r. r' \<in> descends rs True (rs ! r))"

definition check_ok :: "llama_grammar_rules \<Rightarrow> left_recursion \<Rightarrow> bool" where
  "check_ok rs st \<longleftrightarrow> length (lr_visited st) = length rs \<and> length (lr_in_progress st) = length rs \<and> length (lr_may_be_empty st) = length rs
     \<and> (\<forall>r < length rs. (lr_may_be_empty st ! r \<longrightarrow> empty_alternate True (rs ! r)) \<and> (lr_visited st ! r \<longrightarrow> checked rs r))"

definition check_later :: "left_recursion \<Rightarrow> left_recursion \<Rightarrow> bool" where
  "check_later st st' \<longleftrightarrow> lr_in_progress st' = lr_in_progress st \<and> (\<forall>r. lr_may_be_empty st ! r \<longrightarrow> lr_may_be_empty st' ! r)"

abbreviation refs_below :: "nat \<Rightarrow> llama_grammar_rule \<Rightarrow> bool" where
  "refs_below n es \<equiv> \<forall>e \<in> set es. ge_type e = LLAMA_GRETYPE_RULE_REF \<longrightarrow> unat (ge_value e) < n"

lemma wf_refs_below: "wf_rules rs \<Longrightarrow> r < length rs \<Longrightarrow> refs_below (length rs) (rs ! r)"
  using wf_rule_nth(2) [OF wf_rules_nth] by (metis in_set_conv_nth)

lemma detect_sound:
  "llama_grammar_detect_left_recursion d rs i st = Some (False, st') \<Longrightarrow> wf_rules rs \<Longrightarrow> i < length rs \<Longrightarrow> check_ok rs st \<Longrightarrow>
     check_ok rs st' \<and> check_later st st' \<and> checked rs i \<and> (empty_alternate True (rs ! i) \<longrightarrow> lr_may_be_empty st' ! i)"
  "llama_grammar_detect_elems d rs recurse es st = Some (False, st') \<Longrightarrow> wf_rules rs \<Longrightarrow> refs_below (length rs) es \<Longrightarrow> check_ok rs st \<Longrightarrow>
     check_ok rs st' \<and> check_later st st' \<and> (\<forall>r \<in> descends rs recurse es. checked rs r)"
proof (induction d rs i st and d rs recurse es st arbitrary: st' and st'
    rule: llama_grammar_detect_left_recursion_llama_grammar_detect_elems.induct)
  case (2 d rs i st)
  define st1 where "st1 = st\<lparr>lr_in_progress := (lr_in_progress st)[i := True]\<rparr>"
  define st2 where "st2 = (if empty_alternate True (rs ! i) then st1\<lparr>lr_may_be_empty := (lr_may_be_empty st1)[i := True]\<rparr> else st1)"
  from 2(2) obtain st3 where idle: "\<not> lr_in_progress st ! i" and e: "llama_grammar_detect_elems d rs True (rs ! i) st2 = Some (False, st3)"
    and st': "st' = st3\<lparr>lr_in_progress := (lr_in_progress st3)[i := False], lr_visited := (lr_visited st3)[i := True]\<rparr>"
    by (auto simp: st1_def st2_def Let_def split: if_splits option.splits bool.splits)
  have ok2: "check_ok rs st2" using 2(4,5) by (auto simp: check_ok_def st1_def st2_def nth_list_update split: if_splits)
  have later2: "\<forall>r. lr_may_be_empty st ! r \<longrightarrow> lr_may_be_empty st2 ! r"
    using 2(4,5) by (auto simp: check_ok_def st1_def st2_def nth_list_update)
  from 2(1) [OF idle st1_def st2_def e 2(3) wf_refs_below [OF 2(3,4)] ok2]
  have IH: "check_ok rs st3" "check_later st2 st3" "\<forall>r \<in> descends rs True (rs ! i). checked rs r" by auto
  have checked: "checked rs i" using IH(3) by (blast intro: accp.accI)
  have prog: "(lr_in_progress st3)[i := False] = lr_in_progress st"
    using IH(2) idle list_update_id [of "lr_in_progress st" i] by (simp add: check_later_def st2_def st1_def)
  have "check_ok rs st'" using IH(1) checked 2(4) by (auto simp: st' check_ok_def nth_list_update split: if_splits)
  moreover have "check_later st st'" using IH(2) later2 prog by (auto simp: st' check_later_def)
  moreover have "empty_alternate True (rs ! i) \<longrightarrow> lr_may_be_empty st' ! i"
    using IH(2) 2(4,5) by (auto simp: st' check_later_def st2_def st1_def check_ok_def)
  ultimately show ?case using checked by blast
next
  case (4 d rs recurse e es st)
  show ?case
  proof (cases "ge_type e = LLAMA_GRETYPE_RULE_REF \<and> recurse")
    case True
    let ?r = "unat (ge_value e)"
    have r: "?r < length rs" using True 4(6) by simp
    from 4(4) True obtain st1 where st1: "llama_grammar_detect_left_recursion d rs ?r st = Some (False, st1)"
      "llama_grammar_detect_elems d rs (lr_may_be_empty st1 ! ?r) es st1 = Some (False, st')"
      by (auto split: option.splits bool.splits)
    from 4(1) [OF True st1(1) 4(5) r 4(7)] have one: "check_ok rs st1" "check_later st st1" "checked rs ?r"
      "empty_alternate True (rs ! ?r) = lr_may_be_empty st1 ! ?r" using r by (auto simp: check_ok_def)
    from 4(2) [OF True st1(1) _ _ st1(2) 4(5) _ one(1)] 4(6)
    have "check_ok rs st'" "check_later st1 st'" "\<forall>r \<in> descends rs (lr_may_be_empty st1 ! ?r) es. checked rs r" by auto
    with one True show ?thesis by (auto simp: check_later_def)
  next
    case False
    from 4(3) [OF False _ 4(5) _ 4(7), of st'] 4(4,6) False show ?thesis by auto
  qed
qed (auto simp: check_later_def)

lemma detect_loop_sound:
  assumes "detect_loop rs is st = Some False" "wf_rules rs" "\<forall>i \<in> set is. i < length rs" "check_ok rs st"
  shows "\<forall>i \<in> set is. checked rs i"
  using assms
proof (induction "is" arbitrary: st)
  case (Cons i "is")
  show ?case
  proof (cases "lr_visited st ! i")
    case True
    with Cons.prems have "checked rs i" by (auto simp: check_ok_def)
    with True Cons.IH [of st] Cons.prems show ?thesis by simp
  next
    case False
    with Cons.prems(1) obtain st1 where st1: "llama_grammar_detect_left_recursion (length rs + 1) rs i st = Some (False, st1)"
      "detect_loop rs is st1 = Some False" by (auto split: option.splits bool.splits simp del: llama_grammar_detect_left_recursion.simps)
    from detect_sound(1) [OF st1(1) Cons.prems(2) _ Cons.prems(4)] Cons.prems(3) have "check_ok rs st1" "checked rs i" by auto
    with Cons.IH [OF st1(2) Cons.prems(2)] Cons.prems(3) show ?thesis by simp
  qed
qed simp

lemma accepted_grammar_checked:
  "has_left_recursion rs = Some False \<Longrightarrow> wf_rules rs \<Longrightarrow> \<forall>i < length rs. checked rs i"
  using detect_loop_sound [of rs "[0..<length rs]"] by (auto simp: has_left_recursion_def Let_def check_ok_def)

section \<open>Left corners are descended into\<close>

text \<open>Every rule that derives the empty text has an alternate written empty.\<close>

abbreviation empty_shown :: "llama_grammar_rules \<Rightarrow> bool" where
  "empty_shown rs \<equiv> \<forall>r < length rs. derives rs r [] \<longrightarrow> empty_alternate True (rs ! r)"

lemma descends_suffix: "is_end_elem e \<Longrightarrow> descends rs True es \<subseteq> descends rs recurse (xs @ e # es)"
proof (induction xs arbitrary: recurse)
  case Nil
  then show ?case by (auto simp: is_end_elem_def)
qed auto

lemma alternate_starts_cases:
  "j \<in> set (alternate_starts rule i) \<Longrightarrow> j = i \<or> (\<exists>k. j = Suc k \<and> k < length rule \<and> is_end_elem (rule ! k))"
proof (induction rule i rule: alternate_starts.induct)
  case (1 rule i)
  define k where "k = i + length (takeWhile (\<lambda>e. \<not> is_end_elem e) (drop i rule))"
  from 1(2) consider "j = i" | "k < length rule" "ge_type (rule ! k) = LLAMA_GRETYPE_ALT" "j \<in> set (alternate_starts rule (k + 1))"
    by (subst (asm) alternate_starts.simps) (auto simp: k_def Let_def split: if_splits)
  then show ?case
  proof cases
    case 2
    with 1(1) [OF k_def] show ?thesis by (auto simp: is_end_elem_def)
  qed simp
qed

lemma heads_descended:
  "heads rs pos r \<Longrightarrow> wf_rules rs \<Longrightarrow> empty_shown rs \<Longrightarrow> pos_ok rs pos \<Longrightarrow> r \<in> descends rs True (drop (snd pos) (rs ! fst pos))"
proof (induction rule: heads.induct)
  case (h_here pos)
  then have "drop (snd pos) (rs ! fst pos) = elem rs pos # drop (Suc (snd pos)) (rs ! fst pos)"
    by (simp add: pos_ok_def elem_def Cons_nth_drop_Suc)
  with h_here show ?case by (simp add: rule_of_ref_def)
next
  case (h_skip pos r)
  have d: "drop (snd pos) (rs ! fst pos) = elem rs pos # drop (Suc (snd pos)) (rs ! fst pos)"
    using h_skip.prems(3) by (simp add: pos_ok_def elem_def Cons_nth_drop_Suc)
  have nxt: "pos_ok rs (pos_plus pos 1)"
    using h_skip.hyps(1) h_skip.prems by (intro next_pos_ok) (auto simp: end_types is_char_type_def)
  have shown: "empty_alternate True (rs ! rule_of_ref rs pos)"
    using h_skip.hyps(2) h_skip.prems(2) ref_rule_ok [OF h_skip.prems(1,3) h_skip.hyps(1)] by blast
  have "r \<in> descends rs True (drop (Suc (snd pos)) (rs ! fst pos))"
    using h_skip.IH [OF h_skip.prems(1,2) nxt] by (simp add: pos_plus_def)
  with shown h_skip.hyps(1) show ?case unfolding d by (simp add: rule_of_ref_def)
qed

lemma left_corner_descended:
  assumes "wf_rules rs" "empty_shown rs" "r < length rs" "left_corner rs r' r"
  shows "r' \<in> descends rs True (rs ! r)"
proof -
  from assms(4) obtain i where i: "i \<in> set (alternate_starts (rs ! r) 0)" "heads rs (r, i) r'" by (auto simp: left_corner_def)
  have r': "r' \<in> descends rs True (drop i (rs ! r))"
    using heads_descended [OF i(2) assms(1,2) rule_alternates_ok [OF assms(1,3) i(1)]] by simp
  from alternate_starts_cases [OF i(1)] show ?thesis
  proof
    assume "\<exists>k. i = Suc k \<and> k < length (rs ! r) \<and> is_end_elem (rs ! r ! k)"
    then obtain k where k: "i = Suc k" "k < length (rs ! r)" "is_end_elem (rs ! r ! k)" by blast
    from descends_suffix [OF k(3), of rs "drop i (rs ! r)" True "take k (rs ! r)"] id_take_nth_drop [OF k(2)] r'
    show ?thesis by (auto simp: k(1))
  qed (use r' in simp)
qed

lemma left_corners_end:
  assumes "wf_rules rs" "empty_shown rs" "has_left_recursion rs = Some False"
  shows "\<forall>r < length rs. Wellfounded.accp (left_corner rs) r"
proof (intro allI impI)
  fix r assume "r < length rs"
  with accepted_grammar_checked [OF assms(3,1)] have "checked rs r" by blast
  then show "r < length rs \<Longrightarrow> Wellfounded.accp (left_corner rs) r"
  proof (induction rule: accp_induct_rule)
    case (1 r)
    show ?case
    proof (rule accp.accI)
      fix r' assume c: "left_corner rs r' r"
      have "r' < length rs"
        using c heads_lt [OF _ assms(1) rule_alternates_ok [OF assms(1) 1(3)]] by (auto simp: left_corner_def)
      with 1(2) left_corner_descended [OF assms(1,2) 1(3) c] show "Wellfounded.accp (left_corner rs) r'" by blast
    qed
  qed
qed

section \<open>The check returns\<close>

definition idle :: "left_recursion \<Rightarrow> nat" where
  "idle st = length (filter Not (lr_in_progress st))"

lemma idle_update: "i < length xs \<Longrightarrow> \<not> xs ! i \<Longrightarrow> Suc (length (filter Not (xs[i := True]))) = length (filter Not xs)"
  by (simp add: upd_conv_take_nth_drop) (subst (3) id_take_nth_drop [of i xs], simp_all)

lemma detect_returns:
  "wf_rules rs \<Longrightarrow> i < length rs \<Longrightarrow> check_ok rs st \<Longrightarrow> idle st < d \<Longrightarrow> llama_grammar_detect_left_recursion d rs i st \<noteq> None"
  "wf_rules rs \<Longrightarrow> refs_below (length rs) es \<Longrightarrow> check_ok rs st \<Longrightarrow> idle st < d \<Longrightarrow> llama_grammar_detect_elems d rs recurse es st \<noteq> None"
proof (induction d rs i st and d rs recurse es st rule: llama_grammar_detect_left_recursion_llama_grammar_detect_elems.induct)
  case (2 d rs i st)
  show ?case
  proof (cases "lr_in_progress st ! i")
    case False
    define st1 where "st1 = st\<lparr>lr_in_progress := (lr_in_progress st)[i := True]\<rparr>"
    define st2 where "st2 = (if empty_alternate True (rs ! i) then st1\<lparr>lr_may_be_empty := (lr_may_be_empty st1)[i := True]\<rparr> else st1)"
    have ok2: "check_ok rs st2" using 2(3,4) by (auto simp: check_ok_def st1_def st2_def nth_list_update split: if_splits)
    have "Suc (idle st2) = idle st"
      using idle_update [OF _ False] 2(3,4) by (simp add: check_ok_def idle_def st1_def st2_def)
    with 2(5) have "idle st2 < d" by simp
    from 2(1) [OF False st1_def st2_def 2(2) wf_refs_below [OF 2(2,3)] ok2 this] obtain found st3 where
      "llama_grammar_detect_elems d rs True (rs ! i) st2 = Some (found, st3)" by auto
    with False show ?thesis
      by (cases "empty_alternate True (rs ! i)"; cases found) (simp_all add: st1_def st2_def Let_def)
  qed simp
next
  case (4 d rs recurse e es st)
  show ?case
  proof (cases "ge_type e = LLAMA_GRETYPE_RULE_REF \<and> recurse")
    case True
    have r: "unat (ge_value e) < length rs" using True 4(5) by simp
    from 4(1) [OF True 4(4) r 4(6,7)] obtain found st1 where
      st1: "llama_grammar_detect_left_recursion d rs (unat (ge_value e)) st = Some (found, st1)" by auto
    show ?thesis
    proof (cases found)
      case False
      with detect_sound(1) [OF _ 4(4) r 4(6)] st1 have "check_ok rs st1" "idle st1 = idle st" by (auto simp: check_later_def idle_def)
      with 4(2) [OF True st1 refl] 4(4-7) True False st1 show ?thesis by auto
    qed (use True st1 in auto)
  next
    case False
    with 4(3) [OF False] 4(4-7) show ?thesis by auto
  qed
qed auto

lemma detect_loop_returns:
  assumes "wf_rules rs" "\<forall>i \<in> set is. i < length rs" "check_ok rs st"
  shows "detect_loop rs is st \<noteq> None"
  using assms(2,3)
proof (induction "is" arbitrary: st)
  case (Cons i "is")
  have "idle st < length rs + 1"
    using length_filter_le [of Not "lr_in_progress st"] Cons.prems(2) by (simp add: idle_def check_ok_def del: length_filter_le)
  with detect_returns(1) [OF assms(1) _ Cons.prems(2), of i "length rs + 1"] Cons.prems(1)
  obtain found st1 where st1: "llama_grammar_detect_left_recursion (length rs + 1) rs i st = Some (found, st1)" by auto
  show ?case
  proof (cases found)
    case False
    with detect_sound(1) [OF _ assms(1) _ Cons.prems(2), of "length rs + 1" i st1] st1 Cons.prems(1) have "check_ok rs st1"
      by (simp del: llama_grammar_detect_left_recursion.simps)
    with st1 False Cons.IH [of st1] Cons.IH [of st] Cons.prems show ?thesis
      by (simp del: llama_grammar_detect_left_recursion.simps)
  qed (use st1 Cons.IH [of st] Cons.prems in \<open>auto simp del: llama_grammar_detect_left_recursion.simps\<close>)
qed simp

lemma has_left_recursion_returns: "wf_rules rs \<Longrightarrow> has_left_recursion rs \<noteq> None"
  using detect_loop_returns [of rs "[0..<length rs]"] by (auto simp: has_left_recursion_def Let_def check_ok_def)

section \<open>Every operation of the object returns\<close>

abbreviation bounded_corners :: "llama_grammar_rules \<Rightarrow> bool" where
  "bounded_corners rs \<equiv> \<forall>r < length rs. Wellfounded.accp (left_corner rs) r"

lemma accept_chr_returns:
  assumes "wf_rules rs" "bounded_corners rs" "stack_ok rs s" "normal rs s"
  shows "\<exists>res. llama_grammar_accept_chr rs c s new_stacks = Some (Inr res)"
proof (cases "s = []")
  case ne: False
  from assms(4) ne show ?thesis
  proof (cases rule: normal_cases)
    case 2
    have pos: "pos_ok rs (last s)" using stack_ok_last [OF assms(3) ne] by simp
    have "pos_ok rs (pos_plus (last s) (class_length (drop (snd (last s)) (rs ! fst (last s)))))"
      using 2 pos assms(1) by (intro after_class_ok) (auto simp: is_positive_def)
    from advance_returns [OF assms(1,2) next_stack_ok [OF assms(3) this], of new_stacks] 2 ne show ?thesis
      by (auto simp: llama_grammar_accept_chr_def match_char_eq [OF assms(1) pos 2(1)] mret_def)
  qed (simp add: llama_grammar_accept_chr_def mret_def)
qed (simp add: llama_grammar_accept_chr_def mret_def)

lemma accept_fold_returns:
  assumes "wf_rules rs" "bounded_corners rs" "stacks_ok rs stacks" "stacks_ok rs new_stacks"
  shows "\<exists>res. mfold (llama_grammar_accept_chr rs c) stacks new_stacks = Some (Inr res)"
  using assms(3,4)
proof (induction stacks arbitrary: new_stacks)
  case (Cons s stacks)
  then have s: "stack_ok rs s" "normal rs s" "stacks_ok rs stacks" by (auto simp: stacks_ok_def)
  from accept_chr_returns [OF assms(1,2) s(1,2)] obtain mid where m: "llama_grammar_accept_chr rs c s new_stacks = Some (Inr mid)" by blast
  with accept_chr_ok [OF m assms(1) s(1,2) Cons.prems(2)] Cons.IH [OF s(3), of mid] show ?case by simp
qed (simp add: mret_def)

lemma accept_stacks_returns:
  "wf_rules rs \<Longrightarrow> bounded_corners rs \<Longrightarrow> stacks_ok rs stacks \<Longrightarrow> \<exists>res. accept_stacks rs c stacks = Some (Inr res)"
  using accept_fold_returns [of rs stacks "[]" c] by (simp add: accept_stacks_def stacks_ok_def)

lemma accept_chars_return:
  assumes "wf_rules (gr_rules g)" "bounded_corners (gr_rules g)" "stacks_ok (gr_rules g) (gr_stacks g)"
  shows "\<exists>stacks. mfold (\<lambda>c g. llama_grammar_accept g c) cs g = Some (Inr (g\<lparr>gr_stacks := stacks\<rparr>)) \<and> stacks_ok (gr_rules g) stacks"
  using assms
proof (induction cs arbitrary: g)
  case Nil
  then show ?case by (auto simp: mret_def intro: exI [of _ "gr_stacks g"])
next
  case (Cons c cs)
  from accept_stacks_returns [OF Cons.prems] obtain mid where m: "accept_stacks (gr_rules g) c (gr_stacks g) = Some (Inr mid)" by blast
  note ok = accept_stacks_ok(1) [OF m Cons.prems(1,3)]
  from Cons.IH [of "g\<lparr>gr_stacks := mid\<rparr>"] Cons.prems(1,2) ok m show ?case
    by (simp add: llama_grammar_accept_def mret_def)
qed

lemma accept_str_returns:
  assumes "wf_rules (gr_rules g)" "bounded_corners (gr_rules g)" "stacks_ok (gr_rules g) (gr_stacks g)"
  shows "\<exists>r. llama_grammar_accept_str g piece = Some r
    \<and> (\<forall>e. r = Inl e \<longrightarrow> (\<exists>msg. e = Thrown msg)) \<and> (\<forall>g'. r = Inr g' \<longrightarrow> gr_rules g' = gr_rules g \<and> stacks_ok (gr_rules g) (gr_stacks g'))"
proof -
  obtain cps p where d: "decode_utf8 piece (gr_partial_utf8 g) = (cps, p)" by (cases "decode_utf8 piece (gr_partial_utf8 g)")
  from accept_chars_return [OF assms, of "butlast cps"] d show ?thesis
    by (auto simp: llama_grammar_accept_str_def mret_def mfail_def Let_def)
qed

lemma accept_pieces_return:
  assumes "wf_rules (gr_rules g)" "bounded_corners (gr_rules g)" "stacks_ok (gr_rules g) (gr_stacks g)"
  shows "\<exists>r. mfold (\<lambda>piece g. llama_grammar_accept_str g piece) pieces g = Some r \<and> (\<forall>e. r = Inl e \<longrightarrow> (\<exists>msg. e = Thrown msg))"
  using assms
proof (induction pieces arbitrary: g)
  case (Cons piece pieces)
  from accept_str_returns [OF Cons.prems, of piece] obtain r where r: "llama_grammar_accept_str g piece = Some r"
    "\<forall>e. r = Inl e \<longrightarrow> (\<exists>msg. e = Thrown msg)" "\<forall>g'. r = Inr g' \<longrightarrow> gr_rules g' = gr_rules g \<and> stacks_ok (gr_rules g) (gr_stacks g')" by blast
  show ?case
  proof (cases r)
    case (Inl e)
    with r show ?thesis by simp
  next
    case (Inr g1)
    have g1: "gr_rules g1 = gr_rules g" "stacks_ok (gr_rules g1) (gr_stacks g1)" using r(3) Inr by simp_all
    from Cons.IH [OF _ _ g1(2)] Cons.prems(1,2) g1(1)
    have "\<exists>r. mfold (\<lambda>piece g. llama_grammar_accept_str g piece) pieces g1 = Some r \<and> (\<forall>e. r = Inl e \<longrightarrow> (\<exists>msg. e = Thrown msg))" by simp
    with r(1) Inr show ?thesis by simp
  qed
qed (simp add: mret_def)

lemma initial_fold_returns:
  assumes "wf_rules rs" "bounded_corners rs" "\<forall>i \<in> set is. pos_ok rs (start, i)"
  shows "\<exists>res. mfold (\<lambda>i stacks. llama_grammar_advance_stack rs (push_pos rs [] (start, i)) stacks) is new_stacks = Some (Inr res)"
  using assms(3)
proof (induction "is" arbitrary: new_stacks)
  case (Cons i "is")
  have "stack_ok rs (push_pos rs [] (start, i))" using Cons.prems by (intro push_pos_ok) simp_all
  from advance_returns [OF assms(1,2) this, of new_stacks] Cons.IH Cons.prems show ?case by auto
qed (simp add: mret_def)

lemma initial_stacks_return:
  assumes "wf_rules rs" "bounded_corners rs" "start < length rs"
  shows "\<exists>stacks. initial_stacks rs start = Some (Inr stacks)"
  using initial_fold_returns [OF assms(1,2), of "alternate_starts (rs ! start) 0" start "[]"] rule_alternates_ok [OF assms(1,3)]
  by (simp add: initial_stacks_def push_pos_def)

section \<open>Properties\<close>

text \<open>
  C10. No grammar operation hangs or fails an assertion when every rule that derives the empty text has an alternate
  written empty: the construction returns a grammar or the null pointer, and then any sequence of pieces is
  accepted or ends in the exception of the empty stack list.
\<close>

theorem grammar_operations_return:
  assumes "llama_grammar_parser_parse vocab src llama_grammar_parser_new = Inr (Some p)" and "length (gp_symbol_ids p) < 2 ^ 32"
    and "map_of (gp_symbol_ids p) root = Some start" and "unat start < length (gp_rules p)"
    and "list_all (\<lambda>r. derives (gp_rules p) r [] \<longrightarrow> empty_alternate True (gp_rules p ! r)) [0..<length (gp_rules p)]"
  shows "\<exists>made. llama_grammar_init_impl vocab src root lazy patterns tokens = Some (Inr made)
    \<and> (\<forall>g pieces. made = Some g \<longrightarrow>
        (\<exists>r. mfold (\<lambda>piece g. llama_grammar_accept_str g piece) pieces g = Some r \<and> (\<forall>e. r = Inl e \<longrightarrow> (\<exists>msg. e = Thrown msg))))"
proof -
  have wf: "wf_rules (gp_rules p)" using parsed_grammar_ok [OF assms(1,2)] by simp
  have ne: "gp_rules p \<noteq> []" using assms(4) by auto
  have shown: "empty_shown (gp_rules p)" using assms(5) by (simp add: list_all_iff)
  show ?thesis
  proof (cases "has_left_recursion (gp_rules p)")
    case None
    with has_left_recursion_returns [OF wf] show ?thesis by simp
  next
    case (Some found)
    show ?thesis
    proof (cases found)
      case True
      with Some assms(1,3) ne wf show ?thesis
        by (auto simp: llama_grammar_init_impl_def init_from_rules_def copy_rules_wf mret_def)
    next
      case False
      with Some have "has_left_recursion (gp_rules p) = Some False" by simp
      note ends = left_corners_end [OF wf shown this]
      from initial_stacks_return [OF wf ends assms(4)] obtain stacks where s: "initial_stacks (gp_rules p) (unat start) = Some (Inr stacks)" by blast
      note ok = initial_stacks_ok(1) [OF s wf assms(4)]
      from accept_pieces_return [of "grammar_object (gp_rules p) stacks lazy tokens patterns"] wf ends ok s Some False assms(1,3,4) ne
      show ?thesis
        by (auto simp: llama_grammar_init_impl_def init_from_rules_def copy_rules_wf mret_def grammar_object_def)
    qed
  qed
qed

definition right_recursive :: string where
  "right_recursive = ''root ::= [a] root | [b]''"

definition right_parser :: llama_grammar_parser where
  "right_parser = (case llama_grammar_parser_parse None right_recursive llama_grammar_parser_new of
     Inr (Some p) \<Rightarrow> p | _ \<Rightarrow> llama_grammar_parser_new)"

lemma right_parse: "llama_grammar_parser_parse None right_recursive llama_grammar_parser_new = Inr (Some right_parser)"
    "gp_symbol_ids right_parser = [(''root'', 0)]"
    "gp_rules right_parser = [[element LLAMA_GRETYPE_CHAR 97, element LLAMA_GRETYPE_RULE_REF 0, element LLAMA_GRETYPE_ALT 0,
       element LLAMA_GRETYPE_CHAR 98, element LLAMA_GRETYPE_END 0]]"
  by code_simp+

lemma right_starts: "alternate_starts (gp_rules right_parser ! 0) 0 = [0, 3]"
  by code_simp

lemma right_not_empty: "\<not> derives (gp_rules right_parser) 0 []"
  unfolding derives_def right_starts
  by (simp add: right_parse matches_char elem_def is_positive_def)

lemma grammar_operations_return_witness:
  "\<exists>g. llama_grammar_init_impl None right_recursive ''root'' False [] [] = Some (Inr g)"
  using grammar_operations_return [OF right_parse(1), of "''root''" 0 False "[]" "[]"] right_not_empty
  by (auto simp: right_parse)

section \<open>A hidden left recursion\<close>

text \<open>
  \<open>ws\<close> may be empty through the rule of its repetition only, so the check does not see that
  \<open>root\<close> can begin with \<open>root\<close>.
\<close>

definition hidden_recursion :: string where
  "hidden_recursion = ''root ::= ws root [z] | [x]'' @ [CHR 0x0A] @ ''ws ::= [ ]*''"

definition hidden_parser :: llama_grammar_parser where
  "hidden_parser = (case llama_grammar_parser_parse None hidden_recursion llama_grammar_parser_new of
     Inr (Some p) \<Rightarrow> p | _ \<Rightarrow> llama_grammar_parser_new)"

definition hidden_rules :: llama_grammar_rules where
  "hidden_rules =
     [[element LLAMA_GRETYPE_RULE_REF 1, element LLAMA_GRETYPE_RULE_REF 0, element LLAMA_GRETYPE_CHAR 122, element LLAMA_GRETYPE_ALT 0,
       element LLAMA_GRETYPE_CHAR 120, element LLAMA_GRETYPE_END 0],
      [element LLAMA_GRETYPE_RULE_REF 2, element LLAMA_GRETYPE_END 0],
      [element LLAMA_GRETYPE_CHAR 32, element LLAMA_GRETYPE_RULE_REF 2, element LLAMA_GRETYPE_ALT 0, element LLAMA_GRETYPE_END 0]]"

lemma hidden_parse: "llama_grammar_parser_parse None hidden_recursion llama_grammar_parser_new = Inr (Some hidden_parser)"
    "gp_rules hidden_parser = hidden_rules" "length (gp_symbol_ids hidden_parser) = 3" "map_of (gp_symbol_ids hidden_parser) ''root'' = Some 0"
  by code_simp+

lemma hidden_starts: "alternate_starts (hidden_rules ! 0) 0 = [0, 4]" "alternate_starts (hidden_rules ! 1) 0 = [0]"
    "alternate_starts (hidden_rules ! 2) 0 = [0, 3]"
  by code_simp+

lemma hidden_unchecked: "has_left_recursion hidden_rules = Some False"
  by code_simp

lemma hidden_wf: "wf_rules hidden_rules"
  using parsed_grammar_ok [OF hidden_parse(1)] hidden_parse(2,3) by simp

lemma hidden_elems: "elem hidden_rules (0, 0) = element LLAMA_GRETYPE_RULE_REF 1" "elem hidden_rules (0, 1) = element LLAMA_GRETYPE_RULE_REF 0"
    "elem hidden_rules (0, 2) = element LLAMA_GRETYPE_CHAR 122" "elem hidden_rules (1, 0) = element LLAMA_GRETYPE_RULE_REF 2"
    "elem hidden_rules (1, 1) = element LLAMA_GRETYPE_END 0" "elem hidden_rules (2, 0) = element LLAMA_GRETYPE_CHAR 32"
    "elem hidden_rules (2, 3) = element LLAMA_GRETYPE_END 0"
  by code_simp+

lemma hidden_rule_of: "rule_of_ref hidden_rules (0, 0) = 1" "rule_of_ref hidden_rules (0, 1) = 0" "rule_of_ref hidden_rules (1, 0) = 2"
  by (simp_all add: rule_of_ref_def hidden_elems del: One_nat_def)

lemma hidden_expansions:
  "expansions hidden_rules (base @ [(0, 0)]) = map (\<lambda>i. push_pos hidden_rules (base @ [(0, 1)]) (1, i)) [0]"
  "expansions hidden_rules (base @ [(1, 0)]) = map (\<lambda>i. push_pos hidden_rules base (2, i)) [0, 3]"
  "expansions hidden_rules (base @ [(0, 1)]) = map (\<lambda>i. push_pos hidden_rules (base @ [(0, 2)]) (0, i)) [0, 4]"
  unfolding expansions_eq last_snoc butlast_snoc hidden_rule_of hidden_starts
  by (simp_all add: pos_plus_def push_pos_def end_types hidden_elems del: One_nat_def flip: One_nat_def numeral_2_eq_2)

lemma hidden_steps:
  "expands hidden_rules (base @ [(0, 0)]) (base @ [(0, 1), (1, 0)])"
  "expands hidden_rules (base @ [(1, 0)]) (base @ [(2, 0)])"
  "expands hidden_rules (base @ [(1, 0)]) base"
  "expands hidden_rules (base @ [(0, 1)]) (base @ [(0, 2), (0, 0)])"
  unfolding expands_def hidden_expansions
  by (simp_all add: push_pos_def end_types hidden_elems del: One_nat_def)

lemma hidden_loop: "(expands hidden_rules)\<^sup>*\<^sup>* (base @ [(0, 0)]) (base @ [(0, 2), (0, 0)])"
proof -
  have "expands hidden_rules (base @ [(0, 1), (1, 0)]) (base @ [(0, 1)])" using hidden_steps(3) [of "base @ [(0, 1)]"] by simp
  from converse_rtranclp_into_rtranclp [OF hidden_steps(1) converse_rtranclp_into_rtranclp [OF this r_into_rtranclp [of "expands hidden_rules", OF hidden_steps(4)]]]
  show ?thesis .
qed

lemma hidden_reaches: "(expands hidden_rules)\<^sup>*\<^sup>* [(0, 0)] (replicate n (0, 2) @ [(0, 0)])"
proof (induction n)
  case (Suc n)
  have "replicate n (0, 2) @ [(0, 2), (0, 0)] = replicate (Suc n) (0, 2) @ [(0::nat, 0::nat)]"
    by (simp add: replicate_append_same flip: append_Cons)
  with Suc hidden_loop [of "replicate n (0, 2)"] show ?case by (metis rtranclp_trans)
qed simp

lemma hidden_closure: "replicate n (0, 2) @ [(0, 1), (2, 0)] \<in> closure hidden_rules [(0, 0)]"
proof -
  let ?base = "replicate n (0::nat, 2::nat)"
  have "expands hidden_rules (?base @ [(0, 1), (1, 0)]) (?base @ [(0, 1), (2, 0)])" using hidden_steps(2) [of "?base @ [(0, 1)]"] by simp
  from rtranclp.rtrancl_into_rtrancl [OF rtranclp.rtrancl_into_rtrancl [OF hidden_reaches hidden_steps(1)] this]
  have "(expands hidden_rules)\<^sup>*\<^sup>* [(0, 0)] (?base @ [(0, 1), (2, 0)])" .
  then show ?thesis by (simp add: closure_def normal_def is_terminal_def is_positive_def hidden_elems)
qed

lemma hidden_closure_infinite: "infinite (closure hidden_rules [(0, 0)])"
proof -
  have "inj (\<lambda>n. replicate n (0, 2) @ [(0::nat, 1::nat), (2, 0)])" by (rule injI, drule arg_cong [of _ _ length]) simp
  then have "infinite (range (\<lambda>n. replicate n (0, 2) @ [(0::nat, 1::nat), (2, 0)]))" using finite_imageD infinite_UNIV_nat by blast
  with hidden_closure show ?thesis by (meson finite_subset image_subsetI)
qed

lemma hidden_advance: "llama_grammar_advance_stack hidden_rules [(0, 0)] [] = None"
proof (rule ccontr)
  assume "llama_grammar_advance_stack hidden_rules [(0, 0)] [] \<noteq> None"
  then obtain r where r: "llama_grammar_advance_stack hidden_rules [(0, 0)] [] = Some r" by blast
  have ok: "stack_ok hidden_rules [(0, 0)]"
    by (simp add: stack_ok_def pos_ok_def proper_type_def end_types hidden_elems) (simp add: hidden_rules_def)
  from r advance_no_abort [OF hidden_wf ok] obtain res where res: "r = Inr res" by (cases r) auto
  from advance_stack_closure [of hidden_rules "[(0, 0)]" "[]" res] r res have "set res = closure hidden_rules [(0, 0)]" by simp
  with hidden_closure_infinite show False by (metis finite_set)
qed

text \<open>
  C36. The condition of the previous property is needed: for this grammar the left recursion check finds nothing, and
  the construction of the grammar object does not return.
\<close>

theorem hidden_left_recursion_hangs:
  "has_left_recursion (gp_rules hidden_parser) = Some False \<and> llama_grammar_init_impl None hidden_recursion ''root'' False [] [] = None"
proof -
  have wf: "map copy_rule hidden_rules = hidden_rules" by (rule copy_rules_wf [OF hidden_wf])
  have "\<not> llama_grammar_is_end_of_sequence hidden_rules (0, 0)" by (simp add: end_types hidden_elems)
  with hidden_advance have "initial_stacks hidden_rules 0 = None" by (simp add: initial_stacks_def hidden_starts mbind_def)
  moreover have "0 < length hidden_rules" by (simp add: hidden_rules_def)
  ultimately show ?thesis
    using hidden_parse hidden_unchecked wf by (auto simp: llama_grammar_init_impl_def init_from_rules_def mbind_def)
qed

end
