(* ===== verification/Grammar_Trigger.thy ===== *)
theory Grammar_Trigger
  imports Grammar_Sound
begin

text \<open>
  Lazy grammars: what \<open>llama_grammar_accept_impl\<close> remembers while it waits for a trigger, and the
  text it replays when a pattern matches.
\<close>

section \<open>Positions of the tokens in the buffer\<close>

fun tiles :: "nat \<Rightarrow> (u32 \<times> nat \<times> nat) list \<Rightarrow> nat \<Rightarrow> bool" where
  "tiles a [] b \<longleftrightarrow> a = b"
| "tiles a ((tok, s, e) # ps) b \<longleftrightarrow> s = a \<and> a \<le> e \<and> tiles e ps b"

lemma tiles_append: "tiles a (ps @ qs) c \<longleftrightarrow> (\<exists>b. tiles a ps b \<and> tiles b qs c)"
  by (induction ps arbitrary: a) auto

lemma tiles_ends: "tiles a ps b \<Longrightarrow> (tok, s, e) \<in> set ps \<Longrightarrow> a \<le> e"
  by (induction ps arbitrary: a) fastforce+

lemma tiles_le: "tiles a ps b \<Longrightarrow> a \<le> b"
  by (induction ps arbitrary: a) fastforce+

lemma take_drop_join: "a \<le> b \<Longrightarrow> take (b - a) (drop a xs) @ drop b xs = drop a xs"
  by (metis append_take_drop_id drop_drop le_add_diff_inverse2)

lemma replay_text:
  "tiles a ps (length buffer) \<Longrightarrow> start \<le> length buffer \<Longrightarrow>
     concat (map snd (replay_pieces buffer start ps)) = drop (max a start) buffer"
proof (induction ps arbitrary: a)
  case (Cons p ps)
  obtain tok s e where p: "p = (tok, s, e)" by (cases p)
  from Cons.prems(1) have t: "s = a" "a \<le> e" "tiles e ps (length buffer)" by (simp_all add: p)
  from Cons.IH [OF t(3) Cons.prems(2)] show ?case
  proof (cases "e \<le> start")
    case True
    with Cons.IH [OF t(3) Cons.prems(2)] t show ?thesis by (simp add: replay_pieces_def p max_def)
  next
    case False
    then have "max e start = e" "(if s < start then start else s) = max a start" "max a start \<le> e" using t by auto
    with Cons.IH [OF t(3) Cons.prems(2)] False take_drop_join [of "max a start" e buffer] show ?thesis
      by (simp add: replay_pieces_def p Let_def)
  qed
qed (simp add: replay_pieces_def max_def)

lemma replay_tokens: "tiles a ps b \<Longrightarrow> \<exists>k. map fst (replay_pieces buffer start ps) = drop k (map fst ps)"
proof (induction ps arbitrary: a)
  case (Cons p ps)
  obtain tok s e where p: "p = (tok, s, e)" by (cases p)
  from Cons.prems have t: "tiles e ps b" by (simp add: p)
  show ?case
  proof (cases "e \<le> start")
    case True
    from Cons.IH [OF t] obtain k where "map fst (replay_pieces buffer start ps) = drop k (map fst ps)" by blast
    with True have "map fst (replay_pieces buffer start (p # ps)) = drop (Suc k) (map fst (p # ps))" by (simp add: replay_pieces_def p)
    then show ?thesis ..
  next
    case False
    with tiles_ends [OF t] have "filter (\<lambda>(_, _, tok_end). \<not> tok_end \<le> start) (p # ps) = p # ps"
      by (fastforce simp: p filter_id_conv)
    then have "map fst (replay_pieces buffer start (p # ps)) = drop 0 (map fst (p # ps))"
      by (simp add: replay_pieces_def case_prod_beta comp_def Let_def)
    then show ?thesis ..
  qed
qed (simp add: replay_pieces_def)

section \<open>Waiting for the trigger\<close>

text \<open>\<open>g1\<close> is \<open>g\<close> after the tokens \<open>fed\<close>, none of which triggered.\<close>

definition waited :: "llama_vocab \<Rightarrow> llama_grammar \<Rightarrow> u32 list \<Rightarrow> llama_grammar \<Rightarrow> bool" where
  "waited vocab g fed g1 \<longleftrightarrow>
     (\<exists>positions. g1 = g\<lparr>gr_trigger_buffer := concat (map (vocab_token_to_piece vocab) fed), gr_trigger_positions := positions\<rparr>
       \<and> map fst positions = fed \<and> tiles 0 positions (length (concat (map (vocab_token_to_piece vocab) fed))))"

lemma accept_token_awaiting:
  "llama_grammar_accept_token g token piece = Some (Inr g') \<Longrightarrow> gr_awaiting_trigger g' = gr_awaiting_trigger g"
  by (auto simp: llama_grammar_accept_token_def mbind_returns split: prod.splits if_splits)

lemma accept_tokens_awaiting:
  "mfold (\<lambda>(tok, piece) g. llama_grammar_accept_token g tok piece) ts g = Some (Inr g') \<Longrightarrow> gr_awaiting_trigger g' = gr_awaiting_trigger g"
  by (induction ts arbitrary: g) (auto simp: mbind_returns dest: accept_token_awaiting)

lemma accept_impl_waits:
  assumes "llama_grammar_accept_impl rx vocab g1 token = Some (Inr g2)" "gr_awaiting_trigger g2"
  shows "gr_awaiting_trigger g1 \<and> (waited vocab g fed g1 \<longrightarrow> waited vocab g (fed @ [token]) g2)"
proof -
  let ?piece = "vocab_token_to_piece vocab token" and ?n = "length (gr_trigger_buffer g1)"
  have awaiting: "gr_awaiting_trigger g1"
    using assms by (auto simp: llama_grammar_accept_impl_def Let_def dest: accept_token_awaiting split: if_splits)
  with assms have "g2 = g1\<lparr>gr_trigger_positions := gr_trigger_positions g1 @ [(token, ?n, ?n + length ?piece)],
      gr_trigger_buffer := gr_trigger_buffer g1 @ ?piece\<rparr>"
    by (auto simp: llama_grammar_accept_impl_def Let_def mbind_returns
        dest: accept_token_awaiting accept_tokens_awaiting split: if_splits option.splits)
  moreover have "waited vocab g (fed @ [token]) g2" if "waited vocab g fed g1"
  proof -
    from that obtain ps where "g1 = g\<lparr>gr_trigger_buffer := concat (map (vocab_token_to_piece vocab) fed), gr_trigger_positions := ps\<rparr>"
      "map fst ps = fed" "tiles 0 ps (length (concat (map (vocab_token_to_piece vocab) fed)))" by (auto simp: waited_def)
    with calculation show ?thesis
      unfolding waited_def
      by (intro exI [of _ "ps @ [(token, ?n, ?n + length ?piece)]"]) (cases g, simp add: tiles_append)
  qed
  ultimately show ?thesis using awaiting by blast
qed

lemma mfold_waits:
  assumes "mfold (\<lambda>token g. llama_grammar_accept_impl rx vocab g token) fed g1 = Some (Inr g2)" "gr_awaiting_trigger g2"
  shows "gr_awaiting_trigger g1 \<and> (waited vocab g before g1 \<longrightarrow> waited vocab g (before @ fed) g2)"
  using assms
proof (induction fed arbitrary: g1 before)
  case (Cons token fed)
  from Cons.prems(1) obtain mid where m: "llama_grammar_accept_impl rx vocab g1 token = Some (Inr mid)"
    "mfold (\<lambda>token g. llama_grammar_accept_impl rx vocab g token) fed mid = Some (Inr g2)" by (auto simp: mbind_returns)
  from Cons.IH [OF m(2) Cons.prems(2), of "before @ [token]"] accept_impl_waits [OF m(1), of g before] show ?case by simp
qed simp

section \<open>Properties\<close>

text \<open>
  C30. When a pattern triggers a lazy grammar, the grammar is fed the text from the start of the match to the end of
  the buffer, nothing lost and nothing repeated, as pieces of the last tokens in their order; until then its stacks
  do not move.
\<close>

theorem trigger_replays_match:
  assumes "gr_awaiting_trigger g" and "gr_trigger_buffer g = []" and "gr_trigger_positions g = []"
    and "mfold (\<lambda>token g. llama_grammar_accept_impl rx vocab g token) fed g = Some (Inr g1)" and "gr_awaiting_trigger g1"
    and "token \<notin> set (gr_trigger_tokens g)"
    and "first_trigger rx (gr_trigger_patterns g) (concat (map (vocab_token_to_piece vocab) (fed @ [token]))) = Some start"
    and "start \<le> length (concat (map (vocab_token_to_piece vocab) (fed @ [token])))"
  shows "\<exists>positions replayed skipped.
      llama_grammar_accept_impl rx vocab g1 token =
        mbind (mfold (\<lambda>(tok, piece) g. llama_grammar_accept_token g tok piece) replayed
            (g\<lparr>gr_awaiting_trigger := False, gr_trigger_buffer := concat (map (vocab_token_to_piece vocab) (fed @ [token])),
               gr_trigger_positions := positions\<rparr>))
          (\<lambda>g. mret (g\<lparr>gr_trigger_buffer := [], gr_trigger_positions := []\<rparr>))
      \<and> concat (map snd replayed) = drop start (concat (map (vocab_token_to_piece vocab) (fed @ [token])))
      \<and> fed @ [token] = skipped @ map fst replayed"
proof -
  let ?text = "\<lambda>ts. concat (map (vocab_token_to_piece vocab) ts)"
  have "waited vocab g [] g" using assms(2,3) by (simp add: waited_def)
  with mfold_waits [OF assms(4,5), of g "[]"] have "waited vocab g fed g1" by simp
  then obtain ps where g1: "g1 = g\<lparr>gr_trigger_buffer := ?text fed, gr_trigger_positions := ps\<rparr>" "map fst ps = fed" "tiles 0 ps (length (?text fed))"
    by (auto simp: waited_def)
  define qs where "qs = ps @ [(token, length (?text fed), length (?text (fed @ [token])))]"
  have t: "tiles 0 qs (length (?text (fed @ [token])))" using g1(3) by (auto simp: qs_def tiles_append)
  have tokens: "map fst qs = fed @ [token]" by (simp add: qs_def g1(2))
  have order: "g\<lparr>gr_trigger_positions := p, gr_trigger_buffer := b, gr_awaiting_trigger := False\<rparr>
      = g\<lparr>gr_awaiting_trigger := False, gr_trigger_buffer := b, gr_trigger_positions := p\<rparr>" for p b by (cases g) simp
  let ?replayed = "replay_pieces (?text (fed @ [token])) start qs"
  from replay_tokens [OF t, of "?text (fed @ [token])" start] tokens obtain k where "map fst ?replayed = drop k (fed @ [token])" by metis
  then have "fed @ [token] = take k (fed @ [token]) @ map fst ?replayed" by (simp only: append_take_drop_id)
  moreover have "concat (map snd ?replayed) = drop start (?text (fed @ [token]))" using replay_text [OF t assms(8)] by simp
  moreover have "llama_grammar_accept_impl rx vocab g1 token =
      mbind (mfold (\<lambda>(tok, piece) g. llama_grammar_accept_token g tok piece) ?replayed
            (g\<lparr>gr_awaiting_trigger := False, gr_trigger_buffer := ?text (fed @ [token]), gr_trigger_positions := qs\<rparr>))
          (\<lambda>g. mret (g\<lparr>gr_trigger_buffer := [], gr_trigger_positions := []\<rparr>))"
    using assms(1,6,7) by (simp add: llama_grammar_accept_impl_def g1(1) Let_def qs_def order)
  ultimately show ?thesis by blast
qed

text \<open>
  A lazy grammar for "ab" with one pattern, and an engine that finds the first "a". Token numbers are
  the character codes, so the piece of token 97 is "a".
\<close>

definition demo_engine :: regex_engine where
  "demo_engine = \<lparr>regex_match = (\<lambda>_ _. None),
     regex_search = (\<lambda>_ input. let n = length (takeWhile (\<lambda>c. c \<noteq> CHR ''a'') input) in if n < length input then Some [(n, 1)] else None)\<rparr>"

definition demo_vocab :: llama_vocab where
  "demo_vocab = \<lparr>vocab_token_to_piece = (\<lambda>token. if token < 128 then [char_of (unat token)] else ''xya''), vocab_is_eog = (\<lambda>_. False)\<rparr>"

definition demo_lazy :: llama_grammar where
  "demo_lazy = (case llama_grammar_init_impl None ''root ::= [a][b]'' ''root'' True [''a''] [] of
     Some (Inr (Some g)) \<Rightarrow> g | _ \<Rightarrow> grammar_object [] [] True [] [])"

definition demo_waiting :: llama_grammar where
  "demo_waiting = (case mfold (\<lambda>token g. llama_grammar_accept_impl demo_engine demo_vocab g token) [120] demo_lazy of
     Some (Inr g) \<Rightarrow> g | _ \<Rightarrow> demo_lazy)"

lemma trigger_replays_match_witness:
  "\<exists>replayed :: (u32 \<times> string) list. concat (map snd replayed) = ''a'' \<and> llama_grammar_accept_impl demo_engine demo_vocab demo_waiting 200 \<noteq> None"
proof -
  have fed: "mfold (\<lambda>token g. llama_grammar_accept_impl demo_engine demo_vocab g token) [120] demo_lazy = Some (Inr demo_waiting)"
    by code_simp
  have waiting: "gr_awaiting_trigger demo_lazy" "gr_trigger_buffer demo_lazy = []" "gr_trigger_positions demo_lazy = []"
    "gr_awaiting_trigger demo_waiting" "200 \<notin> set (gr_trigger_tokens demo_lazy)" by code_simp+
  have start: "first_trigger demo_engine (gr_trigger_patterns demo_lazy) (concat (map (vocab_token_to_piece demo_vocab) ([120] @ [200]))) = Some 3"
    by code_simp
  have whole: "concat (map (vocab_token_to_piece demo_vocab) ([120] @ [200])) = ''xxya''" by code_simp
  have returns: "llama_grammar_accept_impl demo_engine demo_vocab demo_waiting 200 \<noteq> None" by code_simp
  have bound: "3 \<le> length (concat (map (vocab_token_to_piece demo_vocab) ([120] @ [200])))" unfolding whole by simp
  from trigger_replays_match [OF waiting(1-3) fed waiting(4,5) start bound] have
    "\<exists>replayed :: (u32 \<times> string) list. concat (map snd replayed) = drop 3 (concat (map (vocab_token_to_piece demo_vocab) ([120] @ [200])))"
    by (elim exE conjE) (rule exI)
  with returns show ?thesis unfolding whole by simp
qed

end
