(* ===== verification/Kv_Cache.thy ===== *)
theory Kv_Cache
  imports Pin_Prelude
begin

text \<open>
  The cells of the key/value cache (\<open>src/llama-context.h\<close>) and the operations on sequences of
  \<open>src/llama.cpp\<close>. Positions and sequence ids are C++ \<open>int\<close>s, held as integers: a sum that
  leaves 32 bits is an error value, as are failed assertions. The tensors behind the cells are not
  part of the state, except that the recurrent state tensors \<open>s_l\<close> are there with their number
  of slots.
\<close>

section \<open>Cells and cache\<close>

record llama_kv_cell =
  kc_pos :: int
  kc_delta :: int
  kc_src :: int
  kc_seq_id :: "int set"

definition llama_kv_cell_new :: llama_kv_cell where
  "llama_kv_cell_new = \<lparr>kc_pos = -1, kc_delta = 0, kc_src = 0, kc_seq_id = {}\<rparr>"

definition has_seq_id :: "llama_kv_cell \<Rightarrow> int \<Rightarrow> bool" where
  "has_seq_id c seq_id = (seq_id \<in> kc_seq_id c)"

definition cell_is_empty :: "llama_kv_cell \<Rightarrow> bool" where
  "cell_is_empty c = (kc_seq_id c = {})"

text \<open>\<open>kv_s_l\<close> holds \<open>ne[1]\<close> of each state tensor, \<open>None\<close> for a null pointer.\<close>

record llama_kv_cache =
  kv_has_shift :: bool
  kv_do_defrag :: bool
  kv_do_copy :: bool
  kv_recurrent :: bool
  kv_hybrid :: bool
  kv_position_strict :: bool
  kv_head :: u32
  kv_size :: u32
  kv_used :: u32
  kv_row_count :: "u32 list"
  kv_sink_rows :: u32
  kv_window_swa :: u32
  kv_head_swa :: u32
  kv_pos_base_swa :: int
  kv_n :: u32
  kv_cells :: "llama_kv_cell list"
  kv_s_l :: "u32 option list"

datatype kv_error = Kv_Assert string | Kv_Overflow

type_synonym 'a kv = "kv_error + 'a"

definition any_compacted :: "llama_kv_cache \<Rightarrow> bool" where
  "any_compacted c = (kv_row_count c \<noteq> [])"

definition live_swa :: "llama_kv_cache \<Rightarrow> u32" where
  "live_swa c = kv_head_swa c - kv_sink_rows c"

definition get_padding :: "bool \<Rightarrow> u32" where
  "get_padding flash_attn = (if flash_attn then 256 else 32)"

section \<open>Positions\<close>

definition pos_max :: int where
  "pos_max = 2 ^ 31 - 1"

definition pos_add :: "int \<Rightarrow> int \<Rightarrow> int kv" where
  "pos_add a b = (if - (2 ^ 31) \<le> a + b \<and> a + b \<le> pos_max then Inr (a + b) else Inl Kv_Overflow)"

text \<open>The range every operation starts from: a negative bound means unbounded.\<close>

definition range_start :: "int \<Rightarrow> int" where
  "range_start p0 = (if p0 < 0 then 0 else p0)"

definition range_end :: "int \<Rightarrow> int" where
  "range_end p1 = (if p1 < 0 then pos_max else p1)"

definition cell_in :: "int \<Rightarrow> int \<Rightarrow> llama_kv_cell \<Rightarrow> bool" where
  "cell_in p0 p1 c = (kc_pos c \<ge> p0 \<and> kc_pos c < p1)"

section \<open>Recurrent state slots\<close>

fun state_slots :: "u32 \<Rightarrow> u32 option list \<Rightarrow> u32 kv" where
  "state_slots n_slots [] = Inr n_slots"
| "state_slots n_slots (None # ts) = state_slots n_slots ts"
| "state_slots n_slots (Some layer_slots # ts) =
     (if n_slots = 0 then state_slots layer_slots ts
      else if n_slots = layer_slots then state_slots n_slots ts
      else Inl (Kv_Assert ''n_slots == layer_slots''))"

definition llama_kv_qnext_state_slots :: "llama_kv_cache \<Rightarrow> u32 kv" where
  "llama_kv_qnext_state_slots c = state_slots 0 (kv_s_l c)"

definition llama_kv_has_qnext_state_storage :: "llama_kv_cache \<Rightarrow> bool kv" where
  "llama_kv_has_qnext_state_storage c =
     (if kv_position_strict c then Inr False else ebind (llama_kv_qnext_state_slots c) (\<lambda>n. Inr (n > 0)))"

definition llama_kv_qnext_seq_id_in_range :: "llama_kv_cache \<Rightarrow> int \<Rightarrow> bool kv" where
  "llama_kv_qnext_seq_id_in_range c seq_id =
     ebind (llama_kv_qnext_state_slots c) (\<lambda>n_slots. Inr (n_slots > 0 \<and> seq_id \<ge> 0 \<and> of_int seq_id < n_slots))"

section \<open>The loop over the cells\<close>

text \<open>
  The loops that may free cells share their frame: the body gives the new cell, whether the used
  counter goes down, and whether the cell is a candidate for the new head (the first one wins;
  \<open>size\<close> stands for none).
\<close>

fun cells_loop ::
  "(u32 \<Rightarrow> llama_kv_cell \<Rightarrow> (llama_kv_cell \<times> bool \<times> bool) kv) \<Rightarrow> u32 \<Rightarrow> u32 \<Rightarrow> llama_kv_cell list \<Rightarrow> u32 \<Rightarrow> u32
    \<Rightarrow> (llama_kv_cell list \<times> u32 \<times> u32) kv" where
  "cells_loop f n_cells i [] used new_head = Inr ([], used, new_head)"
| "cells_loop f n_cells i (c # cs) used new_head =
     ebind (f i c) (\<lambda>(c, down, freed).
     ebind (cells_loop f n_cells (i + 1) cs (if down then used - 1 else used) (if freed \<and> new_head = n_cells then i else new_head))
       (\<lambda>(cs, used, new_head). Inr (c # cs, used, new_head)))"

definition lower_head :: "llama_kv_cache \<Rightarrow> u32 \<Rightarrow> u32" where
  "lower_head c new_head = (if new_head \<noteq> kv_size c \<and> new_head < kv_head c then new_head else kv_head c)"

section \<open>Clearing\<close>

fun cleared_cells :: "u32 \<Rightarrow> llama_kv_cell list \<Rightarrow> llama_kv_cell list" where
  "cleared_cells i [] = []"
| "cleared_cells i (c # cs) = c\<lparr>kc_pos := -1, kc_src := sint i, kc_seq_id := {}\<rparr> # cleared_cells (i + 1) cs"

definition llama_kv_cache_clear :: "llama_kv_cache \<Rightarrow> llama_kv_cache" where
  "llama_kv_cache_clear c =
     c\<lparr>kv_cells := cleared_cells 0 (kv_cells c), kv_head := 0, kv_used := 0, kv_head_swa := kv_sink_rows c, kv_pos_base_swa := 0\<rparr>"

section \<open>Removing\<close>

text \<open>The compacted window after the removal; \<open>None\<close> is the refusal.\<close>

definition compact_removal :: "llama_kv_cache \<Rightarrow> int \<Rightarrow> int \<Rightarrow> int \<Rightarrow> (u32 \<times> int) option kv" where
  "compact_removal c seq_id p0 p1 =
     (let keep = Inr (Some (kv_head_swa c, kv_pos_base_swa c)) in
      if any_compacted c \<and> seq_id \<le> 0 \<and> p1 > p0 then
        ebind (pos_add (kv_pos_base_swa c) (sint (live_swa c))) (\<lambda>cur_end.
        if \<not> (live_swa c > 0 \<or> kv_pos_base_swa c = 0) then Inl (Kv_Assert ''compacted window cannot be empty above position 0'')
        else if p0 < cur_end \<and> p1 > kv_pos_base_swa c then
          if p1 < cur_end then Inr None
          else if p0 = 0 then Inr (Some (kv_sink_rows c, 0))
          else ebind (if kv_pos_base_swa c = 0 then Inr 0 else pos_add (kv_pos_base_swa c) (sint (kv_window_swa c))) (\<lambda>rewind.
            if kv_pos_base_swa c = 0 \<or> p0 \<ge> rewind
            then Inr (Some (kv_sink_rows c + of_int (p0 - kv_pos_base_swa c), kv_pos_base_swa c))
            else Inr None)
        else keep)
      else keep)"

definition rm_cell :: "int \<Rightarrow> int \<Rightarrow> int \<Rightarrow> bool \<Rightarrow> u32 \<Rightarrow> llama_kv_cell \<Rightarrow> (llama_kv_cell \<times> bool \<times> bool) kv" where
  "rm_cell seq_id p0 p1 has_qnext_state i c =
     Inr (if cell_in p0 p1 c \<and> (seq_id < 0 \<or> has_seq_id c seq_id) then
            let d = c\<lparr>kc_seq_id := (if seq_id < 0 then {} else kc_seq_id c - {seq_id})\<rparr> in
            if cell_is_empty d
            then (d\<lparr>kc_pos := -1, kc_src := (if has_qnext_state then sint i else kc_src d)\<rparr>, kc_pos d \<ge> 0, True)
            else (d, False, False)
          else (c, False, False))"

text \<open>The early refusals of recurrent models.\<close>

definition rm_refused :: "llama_kv_cache \<Rightarrow> int \<Rightarrow> int \<Rightarrow> int \<Rightarrow> bool" where
  "rm_refused c seq_id p0 p1 =
     (kv_recurrent c \<and>
       (if seq_id \<ge> uint (kv_size c) then True
        else if 0 \<le> seq_id then
          (let pos = kc_pos (kv_cells c ! nat seq_id) in (0 < p0 \<and> p0 \<le> pos) \<or> (0 < p1 \<and> p1 \<le> pos))
        else p0 \<noteq> p1 \<and> (p0 \<noteq> 0 \<or> p1 \<noteq> pos_max)))"

definition llama_kv_cache_seq_rm :: "llama_kv_cache \<Rightarrow> int \<Rightarrow> int \<Rightarrow> int \<Rightarrow> (bool \<times> llama_kv_cache) kv" where
  "llama_kv_cache_seq_rm c seq_id p0 p1 =
     (let p0 = range_start p0; p1 = range_end p1 in
      if rm_refused c seq_id p0 p1 then Inr (False, c)
      else
        ebind (compact_removal c seq_id p0 p1) (\<lambda>r. case r of
          None \<Rightarrow> Inr (False, c)
        | Some (compact_head, compact_base) \<Rightarrow>
            ebind (llama_kv_has_qnext_state_storage c) (\<lambda>has_qnext_state.
            ebind (cells_loop (rm_cell seq_id p0 p1 has_qnext_state) (kv_size c) 0 (kv_cells c) (kv_used c) (kv_size c))
              (\<lambda>(cells, used, new_head).
                Inr (True, c\<lparr>kv_cells := cells, kv_used := used, kv_head := lower_head c new_head,
                             kv_head_swa := compact_head, kv_pos_base_swa := compact_base\<rparr>)))))"

section \<open>Copying\<close>

definition upd_cell :: "nat \<Rightarrow> (llama_kv_cell \<Rightarrow> llama_kv_cell) \<Rightarrow> llama_kv_cache \<Rightarrow> llama_kv_cache" where
  "upd_cell i f c = c\<lparr>kv_cells := (kv_cells c)[i := f (kv_cells c ! i)]\<rparr>"

definition id_in :: "int \<Rightarrow> llama_kv_cache \<Rightarrow> bool" where
  "id_in seq_id c = ((of_int seq_id :: u32) < kv_size c)"

definition cp_recurrent :: "llama_kv_cache \<Rightarrow> int \<Rightarrow> int \<Rightarrow> llama_kv_cache kv" where
  "cp_recurrent c src dst =
     (if id_in dst c \<and> id_in src c then
        let src = kc_src (kv_cells c ! nat src) in
        if \<not> id_in src c then Inl (Kv_Assert ''(uint32_t) seq_id_src < cache.n_cells'')
        else
          let c = upd_cell (nat dst) (\<lambda>d. d\<lparr>kc_src := src\<rparr>) c;
              c = upd_cell (nat dst) (\<lambda>d. d\<lparr>kc_seq_id :=
                    (if has_seq_id (kv_cells c ! nat src) src then insert dst (kc_seq_id d) else kc_seq_id d - {dst})\<rparr>) c;
              c = c\<lparr>kv_do_copy := True\<rparr>
          in Inr (upd_cell (nat dst) (\<lambda>d. d\<lparr>kc_pos := kc_pos (kv_cells c ! nat src)\<rparr>) c)
      else Inr c)"

text \<open>The recurrent state of a hybrid model; the source of the source becomes the source.\<close>

definition cp_state :: "llama_kv_cache \<Rightarrow> int \<Rightarrow> int \<Rightarrow> (int \<times> llama_kv_cache) kv" where
  "cp_state c src dst =
     (let src = kc_src (kv_cells c ! nat src) in
      if \<not> id_in src c then Inl (Kv_Assert ''(uint32_t) seq_id_src < cache.n_cells'')
      else
        let c = upd_cell (nat dst) (\<lambda>d. d\<lparr>kc_src := src\<rparr>) c;
            c = upd_cell (nat dst) (\<lambda>d. d\<lparr>kc_pos := kc_pos (kv_cells c ! nat src)\<rparr>) c
        in Inr (src, c\<lparr>kv_do_copy := True\<rparr>))"

definition cp_cell :: "int \<Rightarrow> int \<Rightarrow> int \<Rightarrow> int \<Rightarrow> llama_kv_cell \<Rightarrow> llama_kv_cell" where
  "cp_cell src dst p0 p1 c = (if has_seq_id c src \<and> cell_in p0 p1 c then c\<lparr>kc_seq_id := insert dst (kc_seq_id c)\<rparr> else c)"

definition llama_kv_cache_seq_cp :: "llama_kv_cache \<Rightarrow> int \<Rightarrow> int \<Rightarrow> int \<Rightarrow> int \<Rightarrow> llama_kv_cache kv" where
  "llama_kv_cache_seq_cp c src dst p0 p1 =
     (let p0 = range_start p0; p1 = range_end p1 in
      if kv_recurrent c then cp_recurrent c src dst
      else
        ebind (llama_kv_has_qnext_state_storage c) (\<lambda>has_qnext_state.
        ebind (if has_qnext_state then llama_kv_qnext_seq_id_in_range c dst else Inr False) (\<lambda>dst_ok.
        ebind (if dst_ok then llama_kv_qnext_seq_id_in_range c src else Inr False) (\<lambda>src_ok.
        ebind (if src_ok \<and> id_in dst c \<and> id_in src c then cp_state c src dst else Inr (src, c)) (\<lambda>(src, c).
          Inr (c\<lparr>kv_head := 0, kv_cells := map (cp_cell src dst p0 p1) (kv_cells c)\<rparr>))))))"

section \<open>Keeping one sequence\<close>

definition keep_cell :: "int \<Rightarrow> bool \<Rightarrow> u32 \<Rightarrow> llama_kv_cell \<Rightarrow> (llama_kv_cell \<times> bool \<times> bool) kv" where
  "keep_cell seq_id has_qnext_state i c =
     Inr (if \<not> has_seq_id c seq_id
          then (c\<lparr>kc_pos := -1, kc_src := (if has_qnext_state then sint i else kc_src c), kc_seq_id := {}\<rparr>, kc_pos c \<ge> 0, True)
          else (c\<lparr>kc_seq_id := {seq_id}\<rparr>, False, False))"

definition llama_kv_cache_seq_keep :: "llama_kv_cache \<Rightarrow> int \<Rightarrow> llama_kv_cache kv" where
  "llama_kv_cache_seq_keep c seq_id =
     ebind (llama_kv_has_qnext_state_storage c) (\<lambda>has_qnext_state.
     ebind (cells_loop (keep_cell seq_id has_qnext_state) (kv_size c) 0 (kv_cells c) (kv_used c) (kv_size c))
       (\<lambda>(cells, used, new_head). Inr (c\<lparr>kv_cells := cells, kv_used := used, kv_head := lower_head c new_head\<rparr>)))"

section \<open>Shifting and dividing positions\<close>

definition touches :: "int \<Rightarrow> int \<Rightarrow> int \<Rightarrow> llama_kv_cell \<Rightarrow> bool" where
  "touches seq_id p0 p1 c = (has_seq_id c seq_id \<and> cell_in p0 p1 c)"

definition add_cell :: "int \<Rightarrow> int \<Rightarrow> int \<Rightarrow> int \<Rightarrow> u32 \<Rightarrow> llama_kv_cell \<Rightarrow> (llama_kv_cell \<times> bool \<times> bool) kv" where
  "add_cell seq_id p0 p1 delta i c =
     (if touches seq_id p0 p1 c then
        ebind (pos_add (kc_pos c) delta) (\<lambda>pos.
        ebind (pos_add (kc_delta c) delta) (\<lambda>shift.
          let d = c\<lparr>kc_pos := pos, kc_delta := shift\<rparr> in
          if pos < 0 then Inr (d\<lparr>kc_pos := -1, kc_seq_id := {}\<rparr>, \<not> cell_is_empty d, True)
          else Inr (d, False, False)))
      else Inr (c, False, False))"

definition repositioning_allowed :: "llama_kv_cache \<Rightarrow> unit kv" where
  "repositioning_allowed c =
     (if kv_position_strict c then Inl (Kv_Assert ''!cache.s_l_position_strict'')
      else if any_compacted c then Inl (Kv_Assert ''!cache.any_compacted()'')
      else Inr ())"

definition recurrent_cell :: "llama_kv_cache \<Rightarrow> int \<Rightarrow> int \<Rightarrow> int \<Rightarrow> bool" where
  "recurrent_cell c seq_id p0 p1 =
     (0 \<le> seq_id \<and> seq_id < uint (kv_size c) \<and> touches seq_id p0 p1 (kv_cells c ! nat seq_id))"

definition llama_kv_cache_seq_add :: "llama_kv_cache \<Rightarrow> int \<Rightarrow> int \<Rightarrow> int \<Rightarrow> int \<Rightarrow> llama_kv_cache kv" where
  "llama_kv_cache_seq_add c seq_id p0 p1 delta =
     ebind (repositioning_allowed c) (\<lambda>_.
      let p0 = range_start p0; p1 = range_end p1 in
      if p0 = p1 then Inr c
      else if kv_recurrent c then
        if recurrent_cell c seq_id p0 p1
        then ebind (pos_add (kc_pos (kv_cells c ! nat seq_id)) delta) (\<lambda>pos. Inr (upd_cell (nat seq_id) (\<lambda>d. d\<lparr>kc_pos := pos\<rparr>) c))
        else Inr c
      else
        ebind (cells_loop (add_cell seq_id p0 p1 delta) (kv_size c) 0 (kv_cells c) (kv_used c) (kv_size c))
          (\<lambda>(cells, used, new_head).
            Inr (c\<lparr>kv_cells := cells, kv_used := used, kv_has_shift := kv_has_shift c \<or> list_ex (touches seq_id p0 p1) (kv_cells c),
                   kv_head := (if new_head \<noteq> kv_size c then new_head else 0)\<rparr>)))"

text \<open>\<open>/\<close> of C++ rounds towards zero; a zero divisor is undefined and the quotient of the least position by \<open>-1\<close> overflows.\<close>

definition c_div :: "int \<Rightarrow> int \<Rightarrow> int" where
  "c_div a d = sgn a * sgn d * (\<bar>a\<bar> div \<bar>d\<bar>)"

definition pos_div :: "int \<Rightarrow> int \<Rightarrow> int kv" where
  "pos_div a d = (if d = 0 then Inl (Kv_Assert ''division by zero'') else pos_add (c_div a d) 0)"

definition div_cell :: "int \<Rightarrow> int \<Rightarrow> int \<Rightarrow> int \<Rightarrow> llama_kv_cell \<Rightarrow> llama_kv_cell kv" where
  "div_cell seq_id p0 p1 d c =
     (if touches seq_id p0 p1 c then
        ebind (pos_div (kc_pos c) d) (\<lambda>pos.
        ebind (pos_add (kc_delta c) (pos - kc_pos c)) (\<lambda>shift. Inr (c\<lparr>kc_pos := pos, kc_delta := shift\<rparr>)))
      else Inr c)"

definition llama_kv_cache_seq_div :: "llama_kv_cache \<Rightarrow> int \<Rightarrow> int \<Rightarrow> int \<Rightarrow> int \<Rightarrow> llama_kv_cache kv" where
  "llama_kv_cache_seq_div c seq_id p0 p1 d =
     ebind (repositioning_allowed c) (\<lambda>_.
      let p0 = range_start p0; p1 = range_end p1 in
      if p0 = p1 then Inr c
      else if kv_recurrent c then
        if recurrent_cell c seq_id p0 p1
        then ebind (pos_div (kc_pos (kv_cells c ! nat seq_id)) d) (\<lambda>pos. Inr (upd_cell (nat seq_id) (\<lambda>e. e\<lparr>kc_pos := pos\<rparr>) c))
        else Inr c
      else
        ebind (emap (div_cell seq_id p0 p1 d) (kv_cells c)) (\<lambda>cells.
          Inr (c\<lparr>kv_cells := cells, kv_has_shift := kv_has_shift c \<or> list_ex (touches seq_id p0 p1) (kv_cells c)\<rparr>)))"

section \<open>Queries\<close>

definition llama_kv_cache_seq_pos_max :: "llama_kv_cache \<Rightarrow> int \<Rightarrow> int" where
  "llama_kv_cache_seq_pos_max c seq_id = foldl (\<lambda>result d. if has_seq_id d seq_id then max result (kc_pos d) else result) 0 (kv_cells c)"

definition llama_kv_cache_seq_pos_min :: "llama_kv_cache \<Rightarrow> int \<Rightarrow> int" where
  "llama_kv_cache_seq_pos_min c seq_id = (case filter (\<lambda>d. has_seq_id d seq_id) (kv_cells c) of [] \<Rightarrow> -1 | d # _ \<Rightarrow> kc_pos d)"

definition llama_kv_openpangu_state_pos :: "llama_kv_cache \<Rightarrow> int \<Rightarrow> int" where
  "llama_kv_openpangu_state_pos c seq_id = foldl (\<lambda>result d. if has_seq_id d seq_id then max result (kc_pos d) else result) (-1) (kv_cells c)"

definition llama_get_kv_cache_token_count :: "llama_kv_cache \<Rightarrow> nat" where
  "llama_get_kv_cache_token_count c = sum_list (map (\<lambda>d. card (kc_seq_id d)) (kv_cells c))"

definition llama_get_kv_cache_used_cells :: "llama_kv_cache \<Rightarrow> int" where
  "llama_get_kv_cache_used_cells c = sint (kv_used c)"

definition llama_kv_cache_defrag :: "llama_kv_cache \<Rightarrow> llama_kv_cache" where
  "llama_kv_cache_defrag c = (if kv_position_strict c \<or> any_compacted c then c else c\<lparr>kv_do_defrag := True\<rparr>)"

section \<open>The functions of the interface\<close>

definition kv_api_seq_cp :: "llama_kv_cache \<Rightarrow> int \<Rightarrow> int \<Rightarrow> int \<Rightarrow> int \<Rightarrow> llama_kv_cache kv" where
  "kv_api_seq_cp c src dst p0 p1 = (if src = dst then Inr c else llama_kv_cache_seq_cp c src dst p0 p1)"

definition kv_api_seq_add :: "llama_kv_cache \<Rightarrow> int \<Rightarrow> int \<Rightarrow> int \<Rightarrow> int \<Rightarrow> llama_kv_cache kv" where
  "kv_api_seq_add c seq_id p0 p1 delta = (if delta = 0 then Inr c else llama_kv_cache_seq_add c seq_id p0 p1 delta)"

definition kv_api_seq_div :: "llama_kv_cache \<Rightarrow> int \<Rightarrow> int \<Rightarrow> int \<Rightarrow> int \<Rightarrow> llama_kv_cache kv" where
  "kv_api_seq_div c seq_id p0 p1 d = (if d = 1 then Inr c else llama_kv_cache_seq_div c seq_id p0 p1 d)"

definition kv_api_seq_pos_min :: "llama_kv_cache \<Rightarrow> int \<Rightarrow> int" where
  "kv_api_seq_pos_min c seq_id =
     (if kv_hybrid c \<or> kv_recurrent c then llama_kv_cache_seq_pos_max c seq_id else llama_kv_cache_seq_pos_min c seq_id)"

section \<open>Finding a slot\<close>

text \<open>Token \<open>i\<close> of the batch has position \<open>bt_pos ! i\<close> and the sequences \<open>bt_seq_id ! i\<close>.\<close>

record llama_batch =
  bt_pos :: "int list"
  bt_seq_id :: "int list list"

definition n_tokens :: "llama_batch \<Rightarrow> u32" where
  "n_tokens b = of_nat (length (bt_pos b))"

text \<open>The recurrent case: state of the two loops, and whether they ran to the end.\<close>

record slot_state =
  ss_cells :: "llama_kv_cell list"
  ss_used :: u32
  ss_min :: int
  ss_max :: int

fun slot_seqs :: "u32 \<Rightarrow> int \<Rightarrow> int list \<Rightarrow> slot_state \<Rightarrow> bool \<times> slot_state" where
  "slot_seqs n_cells pos [] st = (True, st)"
| "slot_seqs n_cells pos (seq_id # ids) st =
     (if of_int seq_id < n_cells then
        let st = (if seq_id > ss_max st then st\<lparr>ss_max := seq_id\<rparr> else st);
            st = (if seq_id < ss_min st then st\<lparr>ss_min := seq_id\<rparr> else st);
            st = (if kc_pos (ss_cells st ! nat seq_id) < 0 \<and> 0 \<le> pos then st\<lparr>ss_used := ss_used st + 1\<rparr> else st)
        in slot_seqs n_cells pos ids (st\<lparr>ss_cells := (ss_cells st)[nat seq_id := (ss_cells st ! nat seq_id)\<lparr>kc_pos := pos\<rparr>]\<rparr>)
      else (False, st))"

fun slot_tokens :: "u32 \<Rightarrow> (int \<times> int list) list \<Rightarrow> slot_state \<Rightarrow> bool \<times> slot_state" where
  "slot_tokens n_cells [] st = (True, st)"
| "slot_tokens n_cells ((pos, ids) # toks) st =
     (case slot_seqs n_cells pos ids st of (True, st) \<Rightarrow> slot_tokens n_cells toks st | (False, st) \<Rightarrow> (False, st))"

definition find_slot_recurrent :: "llama_kv_cache \<Rightarrow> llama_batch \<Rightarrow> bool \<times> llama_kv_cache" where
  "find_slot_recurrent c b =
     (case slot_tokens (kv_size c) (zip (bt_pos b) (bt_seq_id b))
        \<lparr>ss_cells = kv_cells c, ss_used = kv_used c, ss_min = sint (kv_size c - 1), ss_max = 0\<rparr> of
        (ok, st) \<Rightarrow>
          let c = c\<lparr>kv_cells := ss_cells st, kv_used := ss_used st\<rparr> in
          if \<not> ok then (False, c)
          else (ss_max st \<ge> ss_min st, c\<lparr>kv_head := of_int (ss_min st), kv_n := of_int (ss_max st - ss_min st + 1)\<rparr>))"

text \<open>One cell per token. The scan gives the first cell that is taken.\<close>

fun first_taken :: "llama_kv_cell list \<Rightarrow> u32 \<Rightarrow> nat \<Rightarrow> nat \<Rightarrow> nat option" where
  "first_taken cells head i 0 = None"
| "first_taken cells head i (Suc k) =
     (if kc_pos (cells ! unat (head + of_nat i)) \<ge> 0 then Some i else first_taken cells head (Suc i) k)"

partial_function (option) slot_search :: "llama_kv_cell list \<Rightarrow> u32 \<Rightarrow> u32 \<Rightarrow> u32 \<Rightarrow> u32 \<Rightarrow> (bool \<times> u32) option" where
  "slot_search cells n_cells n head n_tested =
     (if head + n > n_cells then slot_search cells n_cells n 0 (n_tested + (n_cells - head))
      else case first_taken cells head 0 (unat n) of
        None \<Rightarrow> Some (True, head)
      | Some i \<Rightarrow>
          let head = head + of_nat i + 1; n_tested = n_tested + of_nat i + 1 in
          if n_tested \<ge> n_cells then Some (False, head) else slot_search cells n_cells n head n_tested)"

declare slot_search.simps [code]

fun fill_cells :: "llama_kv_cell list \<Rightarrow> nat \<Rightarrow> (int \<times> int list) list \<Rightarrow> llama_kv_cell list" where
  "fill_cells cells i [] = cells"
| "fill_cells cells i ((pos, ids) # toks) =
     fill_cells (cells[i := (cells ! i)\<lparr>kc_pos := pos, kc_seq_id := kc_seq_id (cells ! i) \<union> set ids\<rparr>]) (Suc i) toks"

definition llama_kv_cache_find_slot :: "llama_kv_cache \<Rightarrow> llama_batch \<Rightarrow> (bool \<times> llama_kv_cache) option" where
  "llama_kv_cache_find_slot c b =
     (if kv_recurrent c then Some (find_slot_recurrent c b)
      else if n_tokens b > kv_size c then Some (False, c)
      else case slot_search (kv_cells c) (kv_size c) (n_tokens b) (kv_head c) 0 of
        None \<Rightarrow> None
      | Some (False, head) \<Rightarrow> Some (False, c\<lparr>kv_head := head\<rparr>)
      | Some (True, head) \<Rightarrow>
          Some (True, c\<lparr>kv_head := head, kv_cells := fill_cells (kv_cells c) (unat head) (zip (bt_pos b) (bt_seq_id b)),
                        kv_used := kv_used c + n_tokens b\<rparr>))"

section \<open>The window of cells in use\<close>

definition cell_used :: "llama_kv_cell \<Rightarrow> bool" where
  "cell_used c = (kc_pos c \<ge> 0 \<and> \<not> cell_is_empty c)"

fun cell_max_from :: "llama_kv_cell list \<Rightarrow> nat \<Rightarrow> nat" where
  "cell_max_from cells 0 = 0"
| "cell_max_from cells (Suc i) = (if cell_used (cells ! i) then Suc i else cell_max_from cells i)"

definition llama_kv_cache_cell_max :: "llama_kv_cache \<Rightarrow> u32" where
  "llama_kv_cache_cell_max c = of_nat (cell_max_from (kv_cells c) (unat (kv_size c)))"

text \<open>
  The padded search looks at the last cell of each block. \<open>last\<close> is the end of the blocks seen;
  the inner loop is \<open>cell_max_above\<close>. The index goes down by \<open>pad\<close> and wraps when the n_cells is
  no multiple of it.
\<close>

fun cell_max_above :: "llama_kv_cell list \<Rightarrow> nat \<Rightarrow> nat \<Rightarrow> nat" where
  "cell_max_above cells i 0 = i"
| "cell_max_above cells i (Suc j) =
     (if Suc j > i then if cell_used (cells ! j) then Suc j else cell_max_above cells i j else i)"

partial_function (option) cell_max_pad_from :: "llama_kv_cell list \<Rightarrow> u32 \<Rightarrow> u32 \<Rightarrow> u32 \<Rightarrow> u32 option" where
  "cell_max_pad_from cells pad i last_i =
     (if i = 0 then Some 0
      else if unat i > length cells then None
      else if cell_used (cells ! (unat i - 1)) then Some (of_nat (cell_max_above cells (unat i) (unat last_i)))
      else cell_max_pad_from cells pad (i - pad) i)"

declare cell_max_pad_from.simps [code]

definition llama_kv_cache_cell_max_pad :: "llama_kv_cache \<Rightarrow> u32 \<Rightarrow> u32 option" where
  "llama_kv_cache_cell_max_pad c pad = cell_max_pad_from (kv_cells c) pad (kv_size c) (kv_size c)"

definition ggml_pad :: "u32 \<Rightarrow> u32 \<Rightarrow> u32" where
  "ggml_pad x n = ((x + n - 1) AND NOT (n - 1))"

text \<open>The end of the preparation of a batch: head heuristics, slot, window.\<close>

definition prepare_slot :: "bool \<Rightarrow> llama_kv_cache \<Rightarrow> llama_batch \<Rightarrow> (bool \<times> llama_kv_cache) option" where
  "prepare_slot flash_attn c b =
     (let c = (if kv_head c > kv_used c + 2 * n_tokens b then c\<lparr>kv_head := 0\<rparr> else c) in
      case llama_kv_cache_find_slot c b of
        None \<Rightarrow> None
      | Some (False, c) \<Rightarrow> Some (False, c)
      | Some (True, c) \<Rightarrow>
          if kv_recurrent c then Some (True, c)
          else
            let pad = get_padding flash_attn in
            case llama_kv_cache_cell_max_pad c pad of
              None \<Rightarrow> None
            | Some max_cell \<Rightarrow> Some (True, c\<lparr>kv_n := min (kv_size c) (max pad (ggml_pad max_cell pad))\<rparr>))"

end
