(* ===== verification/Kv_Ops.thy ===== *)
theory Kv_Ops
  imports Kv_Cache
begin

text \<open>
  The operations on sequences against their contract: which sequence holds which position in which
  cell, and the counter of used cells.
\<close>

section \<open>Contents and invariant\<close>

definition kv_entries :: "llama_kv_cache \<Rightarrow> (nat \<times> int \<times> int) set" where
  "kv_entries c = {(i, s, p). i < length (kv_cells c) \<and> s \<in> kc_seq_id (kv_cells c ! i) \<and> p = kc_pos (kv_cells c ! i)}"

definition n_used :: "llama_kv_cell list \<Rightarrow> nat" where
  "n_used cells = length (filter cell_used cells)"

definition cell_ok :: "llama_kv_cell \<Rightarrow> bool" where
  "cell_ok d \<longleftrightarrow> (kc_pos d \<ge> 0 \<longleftrightarrow> kc_seq_id d \<noteq> {})"

definition kv_ok :: "llama_kv_cache \<Rightarrow> bool" where
  "kv_ok c \<longleftrightarrow> \<not> kv_recurrent c \<and> length (kv_cells c) = unat (kv_size c) \<and> unat (kv_size c) < 2 ^ 31
     \<and> kv_head c \<le> kv_size c \<and> (\<forall>d \<in> set (kv_cells c). cell_ok d) \<and> kv_used c = of_nat (n_used (kv_cells c))"

lemma cell_ok_used: "cell_ok d \<Longrightarrow> cell_used d \<longleftrightarrow> kc_pos d \<ge> 0"
  by (auto simp: cell_ok_def cell_used_def cell_is_empty_def)

lemma n_used_simps [simp]: "n_used [] = 0" "n_used (d # ds) = (if cell_used d then 1 else 0) + n_used ds"
  by (simp_all add: n_used_def)

lemma n_used_le: "n_used cells \<le> length cells"
  by (simp add: n_used_def)

lemma kv_used_exact: "kv_ok c \<Longrightarrow> unat (kv_used c) = n_used (kv_cells c)"
  using n_used_le [of "kv_cells c"] by (simp add: kv_ok_def unat_of_nat)

section \<open>The loop over the cells\<close>

text \<open>A body that frees cells and adds none.\<close>

definition frees :: "(u32 \<Rightarrow> llama_kv_cell \<Rightarrow> (llama_kv_cell \<times> bool \<times> bool) kv) \<Rightarrow> bool" where
  "frees f \<longleftrightarrow> (\<forall>i d d' down freed. cell_ok d \<longrightarrow> f i d = Inr (d', down, freed) \<longrightarrow>
     cell_ok d' \<and> (cell_used d' \<longrightarrow> cell_used d) \<and> (down \<longleftrightarrow> cell_used d \<and> \<not> cell_used d'))"

lemma cells_loop_cells:
  "cells_loop f n i cs used nh = Inr (cs', used', nh') \<Longrightarrow>
     length cs' = length cs \<and> (\<forall>k < length cs. \<exists>down freed. f (i + of_nat k) (cs ! k) = Inr (cs' ! k, down, freed))"
proof (induction cs arbitrary: i used nh cs' used' nh')
  case (Cons d cs)
  from Cons.prems obtain d' down freed ds' where d: "f i d = Inr (d', down, freed)" "cs' = d' # ds'"
    and r: "cells_loop f n (i + 1) cs (if down then used - 1 else used) (if freed \<and> nh = n then i else nh) = Inr (ds', used', nh')"
    by (auto simp: ebind_Inr_iff)
  from Cons.IH [OF r] have IH: "length ds' = length cs" "\<And>k. k < length cs \<Longrightarrow> \<exists>down freed. f (i + 1 + of_nat k) (cs ! k) = Inr (ds' ! k, down, freed)"
    by auto
  have "\<exists>down freed. f (i + of_nat k) ((d # cs) ! k) = Inr (cs' ! k, down, freed)" if "k < length (d # cs)" for k
    using that d IH(2) [of "k - 1"] by (cases k) (auto simp: algebra_simps)
  with IH(1) d(2) show ?case by simp
qed simp

lemma cells_loop_used:
  "cells_loop f n i cs used nh = Inr (cs', used', nh') \<Longrightarrow> frees f \<Longrightarrow> \<forall>d \<in> set cs. cell_ok d \<Longrightarrow>
     (\<forall>d \<in> set cs'. cell_ok d) \<and> n_used cs' \<le> n_used cs \<and> used' = used - of_nat (n_used cs - n_used cs')"
proof (induction cs arbitrary: i used nh cs' used' nh')
  case (Cons d cs)
  from Cons.prems(1) obtain d' down freed ds' where d: "f i d = Inr (d', down, freed)" "cs' = d' # ds'"
    and r: "cells_loop f n (i + 1) cs (if down then used - 1 else used) (if freed \<and> nh = n then i else nh) = Inr (ds', used', nh')"
    by (auto simp: ebind_Inr_iff)
  have b: "cell_ok d'" "cell_used d' \<longrightarrow> cell_used d" "down \<longleftrightarrow> cell_used d \<and> \<not> cell_used d'"
    using Cons.prems(2) [unfolded frees_def, rule_format, OF _ d(1)] Cons.prems(3) by simp_all
  from Cons.IH [OF r Cons.prems(2)] Cons.prems(3) have IH: "\<forall>d \<in> set ds'. cell_ok d" "n_used ds' \<le> n_used cs"
    "used' = (if down then used - 1 else used) - of_nat (n_used cs - n_used ds')" by auto
  from b IH show ?case
    by (auto simp: d(2) Suc_diff_le algebra_simps of_nat_diff)
qed simp

lemma cells_loop_head:
  "cells_loop f n i cs used nh = Inr (cs', used', nh') \<Longrightarrow> nh' = nh \<or> (\<exists>k < length cs. nh' = i + of_nat k)"
proof (induction cs arbitrary: i used nh cs' used' nh')
  case (Cons d cs)
  from Cons.prems obtain d' down freed ds' where
    r: "cells_loop f n (i + 1) cs (if down then used - 1 else used) (if freed \<and> nh = n then i else nh) = Inr (ds', used', nh')"
    by (auto simp: ebind_Inr_iff)
  from Cons.IH [OF r] consider "nh' = nh" | "nh' = i" | k where "k < length cs" "nh' = i + 1 + of_nat k" by (auto split: if_splits)
  then show ?case
  proof cases
    case (3 k)
    then have "Suc k < length (d # cs)" "nh' = i + of_nat (Suc k)" by simp_all
    then show ?thesis by blast
  qed (auto intro: exI [of _ 0])
qed simp

text \<open>A loop that frees cells leaves a good cache and gives every cell its new contents.\<close>

lemma loop_ok:
  assumes "cells_loop f (kv_size c) 0 (kv_cells c) (kv_used c) (kv_size c) = Inr (cells, used, new_head)"
    and "frees f" and "kv_ok c" and "head \<in> {0, new_head, lower_head c new_head}"
  shows "kv_ok (c\<lparr>kv_cells := cells, kv_used := used, kv_head := head\<rparr>)"
proof -
  have ok: "\<forall>d \<in> set (kv_cells c). cell_ok d" "kv_used c = of_nat (n_used (kv_cells c))" using assms(3) by (auto simp: kv_ok_def)
  note cells = cells_loop_cells [OF assms(1)] and used = cells_loop_used [OF assms(1,2) ok(1)]
  have "new_head \<le> kv_size c"
    using cells_loop_head [OF assms(1)] assms(3) by (auto simp: kv_ok_def word_le_nat_alt unat_of_nat)
  moreover have "used = of_nat (n_used cells)" using used ok(2) by (simp add: of_nat_diff)
  ultimately show ?thesis using assms(3,4) cells used by (auto simp: kv_ok_def lower_head_def)
qed

lemma loop_cell:
  assumes "cells_loop f (kv_size c) 0 (kv_cells c) (kv_used c) (kv_size c) = Inr (cells, used, new_head)" "i < length (kv_cells c)"
  shows "\<exists>d' down freed. f (of_nat i) (kv_cells c ! i) = Inr (d', down, freed) \<and> cells ! i = d'"
  using cells_loop_cells [OF assms(1)] assms(2) by auto

section \<open>The contract\<close>

datatype kv_op = Kv_clear | Kv_rm int int int | Kv_cp int int int int | Kv_keep int | Kv_add int int int int | Kv_div int int int int

fun kv_exec :: "kv_op \<Rightarrow> llama_kv_cache \<Rightarrow> (bool \<times> llama_kv_cache) kv" where
  "kv_exec Kv_clear c = Inr (True, llama_kv_cache_clear c)"
| "kv_exec (Kv_rm s p0 p1) c = llama_kv_cache_seq_rm c s p0 p1"
| "kv_exec (Kv_cp src dst p0 p1) c = ebind (kv_api_seq_cp c src dst p0 p1) (\<lambda>c. Inr (True, c))"
| "kv_exec (Kv_keep s) c = ebind (llama_kv_cache_seq_keep c s) (\<lambda>c. Inr (True, c))"
| "kv_exec (Kv_add s p0 p1 delta) c = ebind (kv_api_seq_add c s p0 p1 delta) (\<lambda>c. Inr (True, c))"
| "kv_exec (Kv_div s p0 p1 d) c = ebind (kv_api_seq_div c s p0 p1 d) (\<lambda>c. Inr (True, c))"

text \<open>A position is in a range with the conventions of the interface.\<close>

definition pos_in :: "int \<Rightarrow> int \<Rightarrow> int \<Rightarrow> bool" where
  "pos_in p0 p1 p \<longleftrightarrow> range_start p0 \<le> p \<and> p < range_end p1"

definition repos :: "(nat \<times> int \<times> int) set \<Rightarrow> int \<Rightarrow> int \<Rightarrow> int \<Rightarrow> (int \<Rightarrow> int) \<Rightarrow> (nat \<times> int \<times> int) set" where
  "repos E s p0 p1 f = {(i, s', p'). \<exists>p. (i, s', p) \<in> E \<and> p' = (if (i, s, p) \<in> E \<and> pos_in p0 p1 p then f p else p) \<and> p' \<ge> 0}"

fun kv_spec :: "kv_op \<Rightarrow> (nat \<times> int \<times> int) set \<Rightarrow> (nat \<times> int \<times> int) set" where
  "kv_spec Kv_clear E = {}"
| "kv_spec (Kv_rm s p0 p1) E = {(i, s', p) \<in> E. \<not> ((s < 0 \<or> s' = s) \<and> pos_in p0 p1 p)}"
| "kv_spec (Kv_cp src dst p0 p1) E = E \<union> {(i, s, p). s = dst \<and> (i, src, p) \<in> E \<and> pos_in p0 p1 p}"
| "kv_spec (Kv_keep s) E = {(i, s', p) \<in> E. s' = s}"
| "kv_spec (Kv_add s p0 p1 delta) E = repos E s p0 p1 (\<lambda>p. p + delta)"
| "kv_spec (Kv_div s p0 p1 d) E = repos E s p0 p1 (\<lambda>p. p div d)"

text \<open>
  Where the contract holds: a copy only when no recurrent state is stored with the cells, a
  division by a positive number, and no more than one request per call that names no sequence.
\<close>

fun kv_allowed :: "llama_kv_cache \<Rightarrow> kv_op \<Rightarrow> bool" where
  "kv_allowed c (Kv_cp src dst p0 p1) \<longleftrightarrow> llama_kv_has_qnext_state_storage c = Inr False"
| "kv_allowed c (Kv_div s p0 p1 d) \<longleftrightarrow> 0 < d"
| "kv_allowed c op \<longleftrightarrow> True"

lemma entries_eqI:
  assumes "length (kv_cells c') = length (kv_cells c)"
    and "\<And>i s p. i < length (kv_cells c) \<Longrightarrow>
      (s \<in> kc_seq_id (kv_cells c' ! i) \<and> p = kc_pos (kv_cells c' ! i)) \<longleftrightarrow> (i, s, p) \<in> E"
    and "\<And>i s p. (i, s, p) \<in> E \<Longrightarrow> i < length (kv_cells c)"
  shows "kv_entries c' = E"
proof -
  have "(i, s, p) \<in> kv_entries c' \<longleftrightarrow> (i, s, p) \<in> E" for i s p
    using assms(1) assms(2) [of i s p] assms(3) [of i s p] by (auto simp: kv_entries_def)
  then show ?thesis by auto
qed

section \<open>Clearing\<close>

lemma cleared_cells_nth:
  "length (cleared_cells i cs) = length cs \<and> (\<forall>k < length cs. kc_pos (cleared_cells i cs ! k) = -1 \<and> kc_seq_id (cleared_cells i cs ! k) = {})"
proof (induction cs arbitrary: i)
  case (Cons d cs)
  then show ?case by (auto simp: nth_Cons split: nat.splits)
qed simp

lemma clear_spec: "kv_ok c \<Longrightarrow> kv_ok (llama_kv_cache_clear c) \<and> kv_entries (llama_kv_cache_clear c) = {}"
proof -
  assume ok: "kv_ok c"
  note cells = cleared_cells_nth [of 0 "kv_cells c"]
  have set: "kc_pos d = -1 \<and> kc_seq_id d = {}" if "d \<in> set (cleared_cells 0 (kv_cells c))" for d
    using that cells by (auto simp: in_set_conv_nth)
  then have "n_used (cleared_cells 0 (kv_cells c)) = 0"
    by (auto simp: n_used_def cell_used_def filter_empty_conv)
  with ok cells set show ?thesis by (auto simp: kv_ok_def kv_entries_def llama_kv_cache_clear_def cell_ok_def)
qed

section \<open>Removing\<close>

lemma rm_frees: "frees (rm_cell s p0 p1 q)"
  by (auto simp: frees_def rm_cell_def Let_def cell_ok_def cell_used_def cell_is_empty_def split: if_splits)

lemma seq_rm_spec:
  assumes "llama_kv_cache_seq_rm c s p0 p1 = Inr (removed, c')" "kv_ok c"
  shows "kv_ok c'" and "\<not> removed \<Longrightarrow> c' = c" and "removed \<Longrightarrow> kv_entries c' = kv_spec (Kv_rm s p0 p1) (kv_entries c)"
proof -
  let ?p0 = "range_start p0" and ?p1 = "range_end p1"
  have "kv_ok c' \<and> (\<not> removed \<longrightarrow> c' = c) \<and> (removed \<longrightarrow> kv_entries c' = kv_spec (Kv_rm s p0 p1) (kv_entries c))"
  proof (cases removed)
    case False
    with assms show ?thesis by (auto simp: llama_kv_cache_seq_rm_def Let_def ebind_Inr_iff split: if_splits option.splits prod.splits)
  next
    case True
    with assms(1) obtain h b q cells used nh where
      loop: "cells_loop (rm_cell s ?p0 ?p1 q) (kv_size c) 0 (kv_cells c) (kv_used c) (kv_size c) = Inr (cells, used, nh)"
      and c': "c' = c\<lparr>kv_cells := cells, kv_used := used, kv_head := lower_head c nh, kv_head_swa := h, kv_pos_base_swa := b\<rparr>"
      by (auto simp: llama_kv_cache_seq_rm_def Let_def ebind_Inr_iff split: if_splits option.splits prod.splits)
    have "kv_ok (c\<lparr>kv_cells := cells, kv_used := used, kv_head := lower_head c nh\<rparr>)"
      by (rule loop_ok [OF loop rm_frees assms(2)]) simp
    then have "kv_ok c'" by (simp add: c' kv_ok_def)
    moreover have "kv_entries c' = kv_spec (Kv_rm s p0 p1) (kv_entries c)"
    proof (rule entries_eqI)
      show "length (kv_cells c') = length (kv_cells c)" using cells_loop_cells [OF loop] by (simp add: c')
      fix i t p assume i: "i < length (kv_cells c)"
      from loop_cell [OF loop i] obtain d' down freed where d': "rm_cell s ?p0 ?p1 q (of_nat i) (kv_cells c ! i) = Inr (d', down, freed)" "kv_cells c' ! i = d'"
        by (auto simp: c')
      let ?e = "kv_cells c ! i"
      from d'(1) have "kc_seq_id d' = (if pos_in p0 p1 (kc_pos ?e) then if s < 0 then {} else kc_seq_id ?e - {s} else kc_seq_id ?e)"
        "kc_seq_id d' \<noteq> {} \<Longrightarrow> kc_pos d' = kc_pos ?e"
        by (auto simp: rm_cell_def Let_def cell_in_def pos_in_def has_seq_id_def cell_is_empty_def split: if_splits)
      with i d'(2) show "(t \<in> kc_seq_id (kv_cells c' ! i) \<and> p = kc_pos (kv_cells c' ! i)) \<longleftrightarrow> (i, t, p) \<in> kv_spec (Kv_rm s p0 p1) (kv_entries c)"
        by (fastforce simp: kv_entries_def split: if_splits)
    qed (auto simp: kv_entries_def)
    ultimately show ?thesis using True by simp
  qed
  then show "kv_ok c'" "\<not> removed \<Longrightarrow> c' = c" "removed \<Longrightarrow> kv_entries c' = kv_spec (Kv_rm s p0 p1) (kv_entries c)" by auto
qed

section \<open>Keeping one sequence\<close>

lemma keep_frees: "frees (keep_cell s q)"
  by (auto simp: frees_def keep_cell_def has_seq_id_def cell_ok_def cell_used_def cell_is_empty_def split: if_splits)

lemma seq_keep_spec:
  assumes "llama_kv_cache_seq_keep c s = Inr c'" "kv_ok c"
  shows "kv_ok c'" and "kv_entries c' = kv_spec (Kv_keep s) (kv_entries c)"
proof -
  from assms(1) obtain q cells used nh where
    loop: "cells_loop (keep_cell s q) (kv_size c) 0 (kv_cells c) (kv_used c) (kv_size c) = Inr (cells, used, nh)"
    and c': "c' = c\<lparr>kv_cells := cells, kv_used := used, kv_head := lower_head c nh\<rparr>"
    by (auto simp: llama_kv_cache_seq_keep_def ebind_Inr_iff)
  show "kv_ok c'" unfolding c' by (rule loop_ok [OF loop keep_frees assms(2)]) simp
  show "kv_entries c' = kv_spec (Kv_keep s) (kv_entries c)"
  proof (rule entries_eqI)
    show "length (kv_cells c') = length (kv_cells c)" using cells_loop_cells [OF loop] by (simp add: c')
    fix i t p assume i: "i < length (kv_cells c)"
    from loop_cell [OF loop i] obtain d' down freed where d': "keep_cell s q (of_nat i) (kv_cells c ! i) = Inr (d', down, freed)" "kv_cells c' ! i = d'"
      by (auto simp: c')
    from d'(1) have "kc_seq_id d' = kc_seq_id (kv_cells c ! i) \<inter> {s}" "s \<in> kc_seq_id (kv_cells c ! i) \<Longrightarrow> kc_pos d' = kc_pos (kv_cells c ! i)"
      by (auto simp: keep_cell_def has_seq_id_def split: if_splits)
    with i d'(2) show "(t \<in> kc_seq_id (kv_cells c' ! i) \<and> p = kc_pos (kv_cells c' ! i)) \<longleftrightarrow> (i, t, p) \<in> kv_spec (Kv_keep s) (kv_entries c)"
      by (auto simp: kv_entries_def)
  qed (auto simp: kv_entries_def)
qed

section \<open>Copying\<close>

lemma n_used_map: "(\<And>d. d \<in> set cs \<Longrightarrow> cell_used (f d) = cell_used d) \<Longrightarrow> n_used (map f cs) = n_used cs"
  by (induction cs) auto

lemma seq_cp_spec:
  assumes "llama_kv_cache_seq_cp c src dst p0 p1 = Inr c'" "kv_ok c" "llama_kv_has_qnext_state_storage c = Inr False"
  shows "kv_ok c'" and "kv_entries c' = kv_spec (Kv_cp src dst p0 p1) (kv_entries c)"
proof -
  have c': "c' = c\<lparr>kv_head := 0, kv_cells := map (cp_cell src dst (range_start p0) (range_end p1)) (kv_cells c)\<rparr>"
    using assms by (simp add: llama_kv_cache_seq_cp_def kv_ok_def Let_def)
  have "n_used (kv_cells c') = n_used (kv_cells c)" unfolding c'
    by (simp, rule n_used_map) (auto simp: cp_cell_def cell_used_def cell_is_empty_def has_seq_id_def)
  with assms(2) show "kv_ok c'"
    by (auto simp: c' kv_ok_def cp_cell_def cell_ok_def cell_in_def range_start_def split: if_splits)
  show "kv_entries c' = kv_spec (Kv_cp src dst p0 p1) (kv_entries c)"
    by (auto simp: c' kv_entries_def cp_cell_def pos_in_def cell_in_def has_seq_id_def split: if_splits)
qed

section \<open>Moving positions\<close>

lemma cell_entries_repos:
  assumes "i < length (kv_cells c)" "\<forall>d \<in> set (kv_cells c). cell_ok d"
    and "kc_seq_id d' = (if touches s (range_start p0) (range_end p1) (kv_cells c ! i) \<and> f (kc_pos (kv_cells c ! i)) < 0 then {}
      else kc_seq_id (kv_cells c ! i))"
    and "kc_seq_id d' \<noteq> {} \<Longrightarrow> kc_pos d' = (if touches s (range_start p0) (range_end p1) (kv_cells c ! i) then f (kc_pos (kv_cells c ! i))
      else kc_pos (kv_cells c ! i))"
  shows "(t \<in> kc_seq_id d' \<and> p = kc_pos d') \<longleftrightarrow> (i, t, p) \<in> repos (kv_entries c) s p0 p1 f"
proof -
  let ?e = "kv_cells c ! i"
  have ok: "cell_ok ?e" using assms(1,2) by simp
  have E: "(i, t, q) \<in> kv_entries c \<longleftrightarrow> t \<in> kc_seq_id ?e \<and> q = kc_pos ?e" for t q using assms(1) by (auto simp: kv_entries_def)
  have T: "touches s (range_start p0) (range_end p1) ?e \<longleftrightarrow> s \<in> kc_seq_id ?e \<and> pos_in p0 p1 (kc_pos ?e)"
    by (auto simp: touches_def has_seq_id_def cell_in_def pos_in_def)
  have R: "(i, t, p) \<in> repos (kv_entries c) s p0 p1 f \<longleftrightarrow>
      t \<in> kc_seq_id ?e \<and> p = (if touches s (range_start p0) (range_end p1) ?e then f (kc_pos ?e) else kc_pos ?e) \<and> p \<ge> 0"
    by (auto simp: repos_def E T)
  have pos: "kc_pos d' = (if touches s (range_start p0) (range_end p1) ?e then f (kc_pos ?e) else kc_pos ?e)" if "t \<in> kc_seq_id d'"
  proof (rule assms(4))
    show "kc_seq_id d' \<noteq> {}" using that by blast
  qed
  show ?thesis
  proof (cases "t \<in> kc_seq_id d'")
    case True
    from True assms(3) have "t \<in> kc_seq_id ?e" "\<not> (touches s (range_start p0) (range_end p1) ?e \<and> f (kc_pos ?e) < 0)"
      by (auto split: if_splits)
    moreover have "0 \<le> kc_pos ?e" using ok calculation(1) by (auto simp: cell_ok_def)
    ultimately show ?thesis using pos [OF True] True unfolding R by auto
  next
    case False
    with assms(3) have "t \<in> kc_seq_id ?e \<Longrightarrow> touches s (range_start p0) (range_end p1) ?e \<and> f (kc_pos ?e) < 0" by (auto split: if_splits)
    with False show ?thesis unfolding R by auto
  qed
qed

lemma add_frees: "frees (add_cell s p0 p1 delta)"
  by (auto simp: frees_def add_cell_def Let_def ebind_Inr_iff touches_def has_seq_id_def cell_ok_def cell_used_def cell_is_empty_def
      pos_add_def cell_in_def split: if_splits)

lemma repos_empty: "range_start p0 = range_end p1 \<Longrightarrow> kv_ok c \<Longrightarrow> repos (kv_entries c) s p0 p1 f = kv_entries c"
  by (auto simp: repos_def pos_in_def kv_entries_def kv_ok_def cell_ok_def)

lemma seq_add_spec:
  assumes "llama_kv_cache_seq_add c s p0 p1 delta = Inr c'" "kv_ok c"
  shows "kv_ok c'" and "kv_entries c' = kv_spec (Kv_add s p0 p1 delta) (kv_entries c)"
proof -
  have "kv_ok c' \<and> kv_entries c' = kv_spec (Kv_add s p0 p1 delta) (kv_entries c)"
  proof (cases "range_start p0 = range_end p1")
    case True
    with assms repos_empty [OF True assms(2)] show ?thesis
      by (simp add: llama_kv_cache_seq_add_def ebind_Inr_iff Let_def)
  next
    case False
    with assms obtain cells used nh where
      loop: "cells_loop (add_cell s (range_start p0) (range_end p1) delta) (kv_size c) 0 (kv_cells c) (kv_used c) (kv_size c) = Inr (cells, used, nh)"
      and c': "c' = c\<lparr>kv_cells := cells, kv_used := used, kv_has_shift := kv_has_shift c \<or> list_ex (touches s (range_start p0) (range_end p1)) (kv_cells c),
                     kv_head := (if nh \<noteq> kv_size c then nh else 0)\<rparr>"
      by (auto simp: llama_kv_cache_seq_add_def ebind_Inr_iff Let_def kv_ok_def)
    have "kv_ok (c\<lparr>kv_cells := cells, kv_used := used, kv_head := (if nh \<noteq> kv_size c then nh else 0)\<rparr>)"
      by (rule loop_ok [OF loop add_frees assms(2)]) simp
    then have "kv_ok c'" by (simp add: c' kv_ok_def)
    moreover have "kv_entries c' = kv_spec (Kv_add s p0 p1 delta) (kv_entries c)"
    proof (rule entries_eqI)
      show "length (kv_cells c') = length (kv_cells c)" using cells_loop_cells [OF loop] by (simp add: c')
      fix i t p assume i: "i < length (kv_cells c)"
      from loop_cell [OF loop i] obtain d' down freed where
        d': "add_cell s (range_start p0) (range_end p1) delta (of_nat i) (kv_cells c ! i) = Inr (d', down, freed)" "kv_cells c' ! i = d'"
        by (auto simp: c')
      have "(t \<in> kc_seq_id d' \<and> p = kc_pos d') \<longleftrightarrow> (i, t, p) \<in> repos (kv_entries c) s p0 p1 (\<lambda>p. p + delta)"
        using d'(1) assms(2) by (intro cell_entries_repos i) (auto simp: kv_ok_def add_cell_def pos_add_def Let_def ebind_Inr_iff split: if_splits)
      then
      show "(t \<in> kc_seq_id (kv_cells c' ! i) \<and> p = kc_pos (kv_cells c' ! i)) \<longleftrightarrow> (i, t, p) \<in> kv_spec (Kv_add s p0 p1 delta) (kv_entries c)"
        by (simp add: d'(2))
    qed (auto simp: kv_entries_def repos_def)
    ultimately show ?thesis by simp
  qed
  then show "kv_ok c'" "kv_entries c' = kv_spec (Kv_add s p0 p1 delta) (kv_entries c)" by auto
qed

lemma pos_div_eq: "0 < d \<Longrightarrow> 0 \<le> a \<Longrightarrow> pos_div a d = Inr b \<Longrightarrow> b = a div d"
  by (auto simp: pos_div_def c_div_def pos_add_def sgn_if split: if_splits)

lemma emap_nth: "emap f xs = Inr ys \<Longrightarrow> i < length xs \<Longrightarrow> f (xs ! i) = Inr (ys ! i)"
  by (induction xs arbitrary: ys i) (auto simp: ebind_Inr_iff nth_Cons split: nat.splits)

lemma div_cell_eq:
  assumes "div_cell s (range_start p0) (range_end p1) d e = Inr e'" "cell_ok e" "0 < d"
  shows "kc_seq_id e' = kc_seq_id e" and "kc_pos e' = (if touches s (range_start p0) (range_end p1) e then kc_pos e div d else kc_pos e)"
proof -
  have "kc_seq_id e' = kc_seq_id e \<and> kc_pos e' = (if touches s (range_start p0) (range_end p1) e then kc_pos e div d else kc_pos e)"
  proof (cases "touches s (range_start p0) (range_end p1) e")
    case True
    with assms(1) obtain pos where pos: "pos_div (kc_pos e) d = Inr pos" "kc_seq_id e' = kc_seq_id e" "kc_pos e' = pos"
      by (auto simp: div_cell_def ebind_Inr_iff)
    from True assms(2) have "0 \<le> kc_pos e" by (auto simp: touches_def has_seq_id_def cell_ok_def)
    with pos_div_eq [OF assms(3) _ pos(1)] pos True show ?thesis by simp
  qed (use assms(1) in \<open>simp add: div_cell_def\<close>)
  then show "kc_seq_id e' = kc_seq_id e" "kc_pos e' = (if touches s (range_start p0) (range_end p1) e then kc_pos e div d else kc_pos e)"
    by auto
qed

lemma n_used_nth: "length xs = length ys \<Longrightarrow> (\<And>i. i < length xs \<Longrightarrow> cell_used (xs ! i) = cell_used (ys ! i)) \<Longrightarrow> n_used xs = n_used ys"
proof (induction xs ys rule: list_induct2)
  case (Cons x xs y ys)
  from Cons.prems [of 0] Cons.prems [of "Suc i" for i] Cons.IH show ?case by simp
qed simp

lemma seq_div_spec:
  assumes "llama_kv_cache_seq_div c s p0 p1 d = Inr c'" "kv_ok c" "0 < d"
  shows "kv_ok c'" and "kv_entries c' = kv_spec (Kv_div s p0 p1 d) (kv_entries c)"
proof -
  have "kv_ok c' \<and> kv_entries c' = kv_spec (Kv_div s p0 p1 d) (kv_entries c)"
  proof (cases "range_start p0 = range_end p1")
    case True
    with assms repos_empty [OF True assms(2)] show ?thesis
      by (simp add: llama_kv_cache_seq_div_def ebind_Inr_iff Let_def)
  next
    case False
    with assms obtain cells where
      loop: "emap (div_cell s (range_start p0) (range_end p1) d) (kv_cells c) = Inr cells"
      and c': "c' = c\<lparr>kv_cells := cells, kv_has_shift := kv_has_shift c \<or> list_ex (touches s (range_start p0) (range_end p1)) (kv_cells c)\<rparr>"
      by (auto simp: llama_kv_cache_seq_div_def ebind_Inr_iff Let_def kv_ok_def)
    have ok: "cell_ok (kv_cells c ! i)" if "i < length (kv_cells c)" for i using assms(2) that by (simp add: kv_ok_def)
    have len: "length cells = length (kv_cells c)" by (rule emap_length [OF loop])
    note cell = div_cell_eq [OF emap_nth [OF loop] ok assms(3)]
    have good: "cell_ok (cells ! i) \<and> cell_used (cells ! i) = cell_used (kv_cells c ! i)" if i: "i < length (kv_cells c)" for i
      using cell [OF i i] ok [OF i] assms(3)
      by (auto simp: cell_ok_def cell_used_def cell_is_empty_def pos_imp_zdiv_neg_iff pos_imp_zdiv_nonneg_iff touches_def has_seq_id_def)
    have "n_used cells = n_used (kv_cells c)" using good by (intro n_used_nth) (simp_all add: len)
    with assms(2) good have "kv_ok c'" by (auto simp: c' kv_ok_def len in_set_conv_nth)
    moreover have "kv_entries c' = kv_spec (Kv_div s p0 p1 d) (kv_entries c)"
    proof (rule entries_eqI)
      show "length (kv_cells c') = length (kv_cells c)" by (simp add: c' len)
      fix i t p assume i: "i < length (kv_cells c)"
      have "(t \<in> kc_seq_id (cells ! i) \<and> p = kc_pos (cells ! i)) \<longleftrightarrow> (i, t, p) \<in> repos (kv_entries c) s p0 p1 (\<lambda>p. p div d)"
        using cell [OF i i] ok [OF i] assms(2,3)
        by (intro cell_entries_repos i) (auto simp: kv_ok_def cell_ok_def touches_def has_seq_id_def pos_imp_zdiv_neg_iff)
      then show "(t \<in> kc_seq_id (kv_cells c' ! i) \<and> p = kc_pos (kv_cells c' ! i)) \<longleftrightarrow> (i, t, p) \<in> kv_spec (Kv_div s p0 p1 d) (kv_entries c)"
        by (simp add: c')
    qed (auto simp: kv_entries_def repos_def)
    ultimately show ?thesis by simp
  qed
  then show "kv_ok c'" "kv_entries c' = kv_spec (Kv_div s p0 p1 d) (kv_entries c)" by auto
qed

lemma repos_id: "kv_ok c \<Longrightarrow> repos (kv_entries c) s p0 p1 (\<lambda>p. p) = kv_entries c"
  by (auto simp: repos_def kv_entries_def kv_ok_def cell_ok_def)

lemma kv_exec_spec:
  assumes "kv_exec op c = Inr (removed, c')" "kv_ok c" "kv_allowed c op"
  shows "kv_ok c'" and "kv_entries c' = (if removed then kv_spec op (kv_entries c) else kv_entries c)" and "\<not> removed \<Longrightarrow> c' = c"
proof -
  have "kv_ok c' \<and> (if removed then kv_entries c' = kv_spec op (kv_entries c) else c' = c)"
  proof (cases op)
    case Kv_clear
    with assms clear_spec show ?thesis by auto
  next
    case (Kv_rm s p0 p1)
    with assms seq_rm_spec [of c s p0 p1 removed c'] show ?thesis by auto
  next
    case (Kv_cp src dst p0 p1)
    with assms seq_cp_spec [of c src dst p0 p1 c'] show ?thesis by (auto simp: ebind_Inr_iff kv_api_seq_cp_def split: if_splits)
  next
    case (Kv_keep s)
    with assms seq_keep_spec [of c s c'] show ?thesis by (auto simp: ebind_Inr_iff)
  next
    case (Kv_add s p0 p1 delta)
    with assms seq_add_spec [of c s p0 p1 delta c'] repos_id [of c s p0 p1] show ?thesis by (auto simp: ebind_Inr_iff kv_api_seq_add_def split: if_splits)
  next
    case (Kv_div s p0 p1 d)
    with assms seq_div_spec [of c s p0 p1 d c'] repos_id [of c s p0 p1] show ?thesis by (auto simp: ebind_Inr_iff kv_api_seq_div_def split: if_splits)
  qed
  then show "kv_ok c'" "kv_entries c' = (if removed then kv_spec op (kv_entries c) else kv_entries c)" "\<not> removed \<Longrightarrow> c' = c"
    by (auto split: if_splits)
qed

text \<open>Without compacted layers no operation refuses, and none compacts.\<close>

lemma kv_exec_accepts:
  assumes "kv_exec op c = Inr (removed, c')" "kv_ok c" "\<not> any_compacted c"
  shows "removed \<and> \<not> any_compacted c'"
proof -
  have plain: "kv_row_count c = []" "\<not> kv_recurrent c" using assms(2,3) by (simp_all add: any_compacted_def kv_ok_def)
  have "removed \<and> kv_row_count c' = []"
  proof (cases op)
    case Kv_clear
    with assms(1) plain show ?thesis by (auto simp: llama_kv_cache_clear_def)
  next
    case (Kv_rm s p0 p1)
    have "rm_refused c s a b = False" "compact_removal c s a b = Inr (Some (kv_head_swa c, kv_pos_base_swa c))" for a b
      using plain by (simp_all add: rm_refused_def compact_removal_def any_compacted_def)
    with Kv_rm assms(1) plain show ?thesis by (auto simp: llama_kv_cache_seq_rm_def Let_def ebind_Inr_iff)
  next
    case (Kv_cp src dst p0 p1)
    have "kv_row_count c1 = kv_row_count c" if "cp_state c src dst = Inr (a, c1)" for a c1
      using that by (auto simp: cp_state_def upd_cell_def Let_def split: if_splits)
    with Kv_cp assms(1) plain show ?thesis
      by (auto simp: ebind_Inr_iff kv_api_seq_cp_def llama_kv_cache_seq_cp_def Let_def split: if_splits)
  next
    case (Kv_keep s)
    with assms(1) plain show ?thesis by (auto simp: ebind_Inr_iff llama_kv_cache_seq_keep_def)
  next
    case (Kv_add s p0 p1 delta)
    with assms(1) plain show ?thesis
      by (auto simp: ebind_Inr_iff kv_api_seq_add_def llama_kv_cache_seq_add_def Let_def split: if_splits)
  next
    case (Kv_div s p0 p1 d)
    with assms(1) plain show ?thesis
      by (auto simp: ebind_Inr_iff kv_api_seq_div_def llama_kv_cache_seq_div_def Let_def split: if_splits)
  qed
  then show ?thesis by (simp add: any_compacted_def)
qed

section \<open>The interface and its clients\<close>

text \<open>What a client of the sequence operations relies on.\<close>

locale sequence_store =
  fixes run :: "kv_op \<Rightarrow> 's \<Rightarrow> (bool \<times> 's) kv" and entries :: "'s \<Rightarrow> (nat \<times> int \<times> int) set" and ok :: "'s \<Rightarrow> bool"
    and allowed :: "'s \<Rightarrow> kv_op \<Rightarrow> bool"
  assumes step: "ok s \<Longrightarrow> allowed s op \<Longrightarrow> run op s = Inr (b, s') \<Longrightarrow> b \<and> ok s' \<and> entries s' = kv_spec op (entries s)"
    and allowed_rm: "allowed s (Kv_rm q p0 p1)" and allowed_add: "allowed s (Kv_add q p0 p1 delta)"
    and allowed_div: "0 < d \<Longrightarrow> allowed s (Kv_div q p0 p1 d)"

definition kv_plain :: "llama_kv_cache \<Rightarrow> bool" where
  "kv_plain c \<longleftrightarrow> kv_ok c \<and> \<not> any_compacted c"

interpretation kv: sequence_store kv_exec kv_entries kv_plain kv_allowed
proof (unfold_locales, goal_cases)
  case (1 c op b c')
  then show ?case using kv_exec_spec [of op c b c'] kv_exec_accepts [of op c b c'] by (auto simp: kv_plain_def)
qed simp_all

section \<open>Sequences of operations\<close>

fun kv_run :: "kv_op list \<Rightarrow> llama_kv_cache \<Rightarrow> llama_kv_cache kv" where
  "kv_run [] c = Inr c"
| "kv_run (op # ops) c = ebind (kv_exec op c) (\<lambda>(b, c). kv_run ops c)"

fun kv_positive :: "kv_op \<Rightarrow> bool" where
  "kv_positive (Kv_div s p0 p1 d) \<longleftrightarrow> 0 < d"
| "kv_positive op \<longleftrightarrow> True"

lemma has_storage_cong:
  "kv_s_l c' = kv_s_l c \<Longrightarrow> kv_position_strict c' = kv_position_strict c \<Longrightarrow>
     llama_kv_has_qnext_state_storage c' = llama_kv_has_qnext_state_storage c"
  by (simp add: llama_kv_has_qnext_state_storage_def llama_kv_qnext_state_slots_def)

lemma kv_exec_storage:
  assumes "kv_exec op c = Inr (b, c')"
  shows "kv_s_l c' = kv_s_l c \<and> kv_position_strict c' = kv_position_strict c"
proof (cases op)
  case Kv_clear
  with assms show ?thesis by (auto simp: llama_kv_cache_clear_def)
next
  case (Kv_rm s p0 p1)
  with assms show ?thesis
    by (auto simp: llama_kv_cache_seq_rm_def Let_def ebind_Inr_iff split: if_splits option.splits prod.splits)
next
  case (Kv_cp src dst p0 p1)
  have "kv_s_l c1 = kv_s_l c \<and> kv_position_strict c1 = kv_position_strict c" if "cp_state c src dst = Inr (a, c1)" for a c1
    using that by (auto simp: cp_state_def upd_cell_def Let_def split: if_splits)
  moreover have "kv_s_l c1 = kv_s_l c \<and> kv_position_strict c1 = kv_position_strict c" if "cp_recurrent c src dst = Inr c1" for c1
    using that by (auto simp: cp_recurrent_def upd_cell_def Let_def split: if_splits)
  ultimately show ?thesis using Kv_cp assms
    by (auto simp: ebind_Inr_iff kv_api_seq_cp_def llama_kv_cache_seq_cp_def Let_def split: if_splits)
next
  case (Kv_keep s)
  with assms show ?thesis by (auto simp: ebind_Inr_iff llama_kv_cache_seq_keep_def)
next
  case (Kv_add s p0 p1 delta)
  with assms show ?thesis
    by (auto simp: ebind_Inr_iff kv_api_seq_add_def llama_kv_cache_seq_add_def upd_cell_def Let_def split: if_splits)
next
  case (Kv_div s p0 p1 d)
  with assms show ?thesis
    by (auto simp: ebind_Inr_iff kv_api_seq_div_def llama_kv_cache_seq_div_def upd_cell_def Let_def split: if_splits)
qed

lemma used_is_card: "kv_ok c \<Longrightarrow> unat (kv_used c) = card (fst ` kv_entries c)"
proof -
  assume ok: "kv_ok c"
  have "cell_used (kv_cells c ! i) \<longleftrightarrow> kc_seq_id (kv_cells c ! i) \<noteq> {}" if "i < length (kv_cells c)" for i
    using ok that by (simp add: kv_ok_def cell_ok_def cell_used_def cell_is_empty_def)
  then have "fst ` kv_entries c = {i. i < length (kv_cells c) \<and> cell_used (kv_cells c ! i)}"
    by (auto simp: kv_entries_def image_iff)
  then show ?thesis using kv_used_exact [OF ok] by (simp add: n_used_def length_filter_conv_card)
qed

text \<open>A cache of eight cells whose first \<open>n\<close> hold the positions of sequence 0.\<close>

definition sample_cells :: "int \<Rightarrow> llama_kv_cell list" where
  "sample_cells n = map (\<lambda>i. if i < n then llama_kv_cell_new\<lparr>kc_pos := i, kc_seq_id := {0}\<rparr> else llama_kv_cell_new) [0, 1, 2, 3, 4, 5, 6, 7]"

definition sample_cache :: "int \<Rightarrow> llama_kv_cache" where
  "sample_cache n =
     \<lparr>kv_has_shift = False, kv_do_defrag = False, kv_do_copy = False, kv_recurrent = False, kv_hybrid = False,
      kv_position_strict = False, kv_head = 0, kv_size = 8, kv_used = of_int n, kv_row_count = [], kv_sink_rows = 0,
      kv_window_swa = 0, kv_head_swa = 0, kv_pos_base_swa = 0, kv_n = 0, kv_cells = sample_cells n, kv_s_l = []\<rparr>"

lemma sample_plain: "kv_plain (sample_cache 8)"
  by (simp add: kv_plain_def kv_ok_def any_compacted_def sample_cache_def sample_cells_def cell_ok_def cell_used_def
      cell_is_empty_def llama_kv_cell_new_def)

lemma kv_entries_code [code]:
  "kv_entries c = (\<Union>i \<in> set [0..<length (kv_cells c)]. (\<lambda>s. (i, s, kc_pos (kv_cells c ! i))) ` kc_seq_id (kv_cells c ! i))"
  by (auto simp: kv_entries_def)

text \<open>C5. Any sequence of operations on sequences does to the contents what the contract says, and
  the counter of used cells stays exact.\<close>

theorem kv_operations_refine:
  assumes "kv_plain c" "llama_kv_has_qnext_state_storage c = Inr False" "list_all kv_positive ops" "kv_run ops c = Inr c'"
  shows "kv_plain c' \<and> kv_entries c' = fold kv_spec ops (kv_entries c) \<and> unat (kv_used c') = card (fst ` kv_entries c')"
proof -
  have "kv_plain c' \<and> kv_entries c' = fold kv_spec ops (kv_entries c)"
    using assms
  proof (induction ops arbitrary: c)
    case (Cons op ops)
    then obtain b c1 where r: "kv_exec op c = Inr (b, c1)" "kv_run ops c1 = Inr c'" by (auto simp: ebind_Inr_iff)
    have "kv_allowed c op" using Cons.prems(2,3) by (cases op) simp_all
    from kv.step [OF Cons.prems(1) this r(1)] have "kv_plain c1" "kv_entries c1 = kv_spec op (kv_entries c)" by simp_all
    moreover have "llama_kv_has_qnext_state_storage c1 = Inr False"
      using has_storage_cong [of c1 c] kv_exec_storage [OF r(1)] Cons.prems(2) by simp
    ultimately show ?case using Cons.IH [OF _ _ _ r(2)] Cons.prems(3) by simp
  qed simp
  then show ?thesis by (simp add: used_is_card kv_plain_def)
qed

definition "sample_ops = [Kv_cp 0 1 0 3, Kv_rm 0 1 4, Kv_add 0 4 (-1) (-3), Kv_keep 0, Kv_div 0 0 (-1) 2]"

definition "sample_run = kv_run sample_ops (sample_cache 8)"

lemma sample_run_eval: "case sample_run of Inl e \<Rightarrow> False | Inr c \<Rightarrow> map kc_pos (kv_cells c) = [0, -1, -1, -1, 0, 1, 1, 2]"
  by code_simp

theorem kv_operations_refine_witness:
  "case kv_run sample_ops (sample_cache 8) of Inl e \<Rightarrow> False | Inr c \<Rightarrow>
    map kc_pos (kv_cells c) = [0, -1, -1, -1, 0, 1, 1, 2] \<and> kv_plain c \<and> unat (kv_used c) = card (fst ` kv_entries c)"
proof -
  from sample_run_eval obtain c' where r: "kv_run sample_ops (sample_cache 8) = Inr c'"
    "map kc_pos (kv_cells c') = [0, -1, -1, -1, 0, 1, 1, 2]"
    by (auto simp: sample_run_def split: sum.splits)
  have "llama_kv_has_qnext_state_storage (sample_cache 8) = Inr False"
    by (simp add: llama_kv_has_qnext_state_storage_def llama_kv_qnext_state_slots_def sample_cache_def)
  from kv_operations_refine [OF sample_plain this _ r(1)] r show ?thesis by (simp add: sample_ops_def)
qed

end
