(* ===== verification/Kv_Slots.thy ===== *)
theory Kv_Slots
  imports Kv_Ops
begin

text \<open>
  Slots for a batch: the search of \<open>llama_kv_cache_find_slot\<close> returns, finds a run of free cells
  exactly when there is one, and the cells it fills extend the contents of the cache by the batch.
\<close>

section \<open>The scan\<close>

definition free_run :: "llama_kv_cell list \<Rightarrow> nat \<Rightarrow> nat \<Rightarrow> bool" where
  "free_run cells n s \<longleftrightarrow> s + n \<le> length cells \<and> (\<forall>i < n. kc_pos (cells ! (s + i)) < 0)"

lemma free_run_not: "kc_pos (cells ! (h + i)) \<ge> 0 \<Longrightarrow> i < n \<Longrightarrow> h \<le> s \<Longrightarrow> s \<le> h + i \<Longrightarrow> \<not> free_run cells n s"
  by (auto simp: free_run_def not_less intro!: exI [of _ "h + i - s"])

lemma first_taken_None: "first_taken cells head i k = None \<longleftrightarrow> (\<forall>j. i \<le> j \<and> j < i + k \<longrightarrow> kc_pos (cells ! unat (head + of_nat j)) < 0)"
proof (induction k arbitrary: i)
  case (Suc k)
  have "(\<forall>j. i \<le> j \<and> j < i + Suc k \<longrightarrow> P j) \<longleftrightarrow> P i \<and> (\<forall>j. Suc i \<le> j \<and> j < Suc i + k \<longrightarrow> P j)" for P
    by (metis Suc_le_eq add_Suc_right add_Suc_shift le_neq_implies_less less_add_Suc1 order_refl Suc_leD)
  with Suc show ?case by (simp add: not_le)
qed simp

lemma first_taken_Some:
  "first_taken cells head i k = Some j \<Longrightarrow> i \<le> j \<and> j < i + k \<and> kc_pos (cells ! unat (head + of_nat j)) \<ge> 0"
  by (induction k arbitrary: i) (force split: if_splits)+

section \<open>The search\<close>

text \<open>
  The starts that are excluded after \<open>tested\<close> steps from \<open>h0\<close>: before the search wraps, after it
  has wrapped, and when it wraps once more.
\<close>

definition excluded :: "llama_kv_cell list \<Rightarrow> nat \<Rightarrow> nat \<Rightarrow> nat \<Rightarrow> nat \<Rightarrow> bool" where
  "excluded cells n h0 head tested \<longleftrightarrow>
     (tested + h0 = head \<and> (\<forall>s. h0 \<le> s \<and> s < head \<longrightarrow> \<not> free_run cells n s))
   \<or> (tested + h0 = length cells + head \<and> head \<le> h0 \<and> (\<forall>s. h0 \<le> s \<or> s < head \<longrightarrow> \<not> free_run cells n s))
   \<or> (tested + h0 = 2 * length cells \<and> head = 0 \<and> (\<forall>s. \<not> free_run cells n s))"

definition settled :: "llama_kv_cell list \<Rightarrow> nat \<Rightarrow> (bool \<times> u32) option \<Rightarrow> bool" where
  "settled cells n r \<longleftrightarrow> (\<exists>head. r = Some (True, head) \<and> free_run cells n (unat head))
     \<or> (\<exists>head. r = Some (False, head) \<and> unat head \<le> length cells \<and> (\<forall>s. \<not> free_run cells n s))"

lemma excluded_wrap:
  assumes "excluded cells n h0 head tested" "length cells < head + n" "head \<le> length cells" "n \<le> length cells"
  shows "excluded cells n h0 0 (tested + (length cells - head))"
proof -
  have late: "\<not> free_run cells n s" if "head \<le> s" for s using assms(2) that by (simp add: free_run_def)
  from assms(1) consider "tested + h0 = head" "\<forall>s. h0 \<le> s \<and> s < head \<longrightarrow> \<not> free_run cells n s"
    | "tested + h0 = length cells + head" "\<forall>s. h0 \<le> s \<or> s < head \<longrightarrow> \<not> free_run cells n s"
    | "tested + h0 = 2 * length cells" "head = 0" "\<forall>s. \<not> free_run cells n s"
    unfolding excluded_def by blast
  then show ?thesis
  proof cases
    case 1
    then have "\<not> free_run cells n s" if "h0 \<le> s" for s using that late by (cases "head \<le> s") auto
    with 1 assms(3) show ?thesis by (auto simp: excluded_def)
  next
    case 2
    then have "\<not> free_run cells n s" for s using late by (cases "head \<le> s") auto
    with 2 assms(3) show ?thesis by (auto simp: excluded_def)
  next
    case 3
    with assms(2,4) show ?thesis by simp
  qed
qed

lemma excluded_scan:
  assumes "excluded cells n h0 head tested" "head + n \<le> length cells" "i < n" "kc_pos (cells ! (head + i)) \<ge> 0" "h0 \<le> length cells"
    and "head' = head + i + 1" "tested' = tested + i + 1"
  shows "if length cells \<le> tested' then \<forall>s. \<not> free_run cells n s else excluded cells n h0 head' tested'"
proof -
  have here: "\<not> free_run cells n s" if "head \<le> s" "s < head'" for s
    using free_run_not [OF assms(4,3)] that assms(6) by simp
  from assms(1) consider "tested + h0 = head" "\<forall>s. h0 \<le> s \<and> s < head \<longrightarrow> \<not> free_run cells n s"
    | "tested + h0 = length cells + head" "head \<le> h0" "\<forall>s. h0 \<le> s \<or> s < head \<longrightarrow> \<not> free_run cells n s"
    | "tested + h0 = 2 * length cells" "head = 0" "\<forall>s. \<not> free_run cells n s"
    unfolding excluded_def by blast
  then show ?thesis
  proof cases
    case 1
    then have *: "\<not> free_run cells n s" if "h0 \<le> s" "s < head'" for s using that here by (cases "head \<le> s") auto
    have "\<not> free_run cells n s" if "length cells \<le> tested'" for s
      using * [of s] that assms(2,3,6,7) 1(1) by (cases "s < head'") (auto simp: free_run_def)
    with * 1(1) assms(6,7) show ?thesis by (auto simp: excluded_def)
  next
    case 2
    then have *: "\<not> free_run cells n s" if "h0 \<le> s \<or> s < head'" for s using that here by (cases "head \<le> s") auto
    have "\<not> free_run cells n s" if "length cells \<le> tested'" for s
      using * [of s] that assms(6,7) 2(1) by (cases "s < head'") auto
    with * 2(1) assms(6,7) show ?thesis by (auto simp: excluded_def)
  next
    case 3
    with assms(5,7) show ?thesis by auto
  qed
qed

lemma slot_search_settled:
  assumes "excluded cells (unat n) (unat h0) (unat head) (unat tested)" "length cells = unat n_cells" "unat n_cells \<le> 2 ^ 30"
    and "unat h0 \<le> unat n_cells" "unat head \<le> unat n_cells" "unat n \<le> unat n_cells"
  shows "settled cells (unat n) (slot_search cells n_cells n head tested)"
  using assms(1,5)
proof (induction "2 * (unat n_cells - unat tested) + (if head + n > n_cells then 1 else 0 :: nat)" arbitrary: head tested rule: less_induct)
  case less
  have hn: "unat (head + n) = unat head + unat n"
    using less.prems(2) assms(3,6) by (intro unat_add_lem [THEN iffD1]) simp
  have tb: "unat tested \<le> 2 * unat n_cells" using less.prems(1,2) assms(2) by (auto simp: excluded_def)
  show ?case
  proof (cases "head + n > n_cells")
    case True
    then have wrap: "length cells < unat head + unat n" by (simp add: word_less_nat_alt hn assms(2))
    have sub: "unat (n_cells - head) = unat n_cells - unat head" using less.prems(2) by (simp add: unat_sub word_le_nat_alt)
    have t: "unat (tested + (n_cells - head)) = unat tested + (unat n_cells - unat head)"
      using tb assms(3) by (subst unat_add_lem [THEN iffD1]) (simp_all add: sub)
    have "settled cells (unat n) (slot_search cells n_cells n 0 (tested + (n_cells - head)))"
    proof (rule less.hyps)
      show "excluded cells (unat n) (unat h0) (unat (0::u32)) (unat (tested + (n_cells - head)))"
        using excluded_wrap [OF less.prems(1) wrap] less.prems(2) assms(2,6) t by simp
      have "\<not> 0 + n > n_cells" using assms(6) by (simp add: word_less_nat_alt)
      then show "2 * (unat n_cells - unat (tested + (n_cells - head))) + (if 0 + n > n_cells then 1 else 0)
          < 2 * (unat n_cells - unat tested) + (if head + n > n_cells then 1 else 0 :: nat)"
        using True t by simp
    qed (use assms(6) in simp_all)
    then show ?thesis using True by (subst slot_search.simps) simp
  next
    case False
    then have fits: "unat head + unat n \<le> length cells" by (simp add: word_less_nat_alt hn assms(2) not_less)
    have idx: "unat (head + of_nat j) = unat head + j" if "j \<le> unat n" for j
      using that less.prems(2) assms(3,6) by (subst unat_add_lem [THEN iffD1]) (simp_all add: unat_of_nat)
    show ?thesis
    proof (cases "first_taken cells head 0 (unat n)")
      case None
      then have "free_run cells (unat n) (unat head)" using fits by (auto simp: first_taken_None free_run_def idx)
      moreover have "slot_search cells n_cells n head tested = Some (True, head)"
        using False None by (subst slot_search.simps) simp
      ultimately show ?thesis by (simp add: settled_def)
    next
      case (Some i)
      note first_taken_Some [OF Some]
      then have i: "i < unat n" "kc_pos (cells ! (unat head + i)) \<ge> 0" using idx [of i] by simp_all
      let ?head = "head + of_nat i + 1" and ?tested = "tested + of_nat i + 1"
      have oi: "unat (of_nat i + 1 :: u32) = i + 1" using i(1) assms(3,6) by (simp add: unat_word_ariths unat_of_nat)
      have h': "unat ?head = unat head + i + 1" 
        using idx [of "i + 1"] i(1) by (simp add: algebra_simps)
      have "unat (tested + (of_nat i + 1)) = unat tested + (i + 1)"
        using tb i(1) assms(3,6) by (subst unat_add_lem [THEN iffD1]) (simp_all add: oi)
      then have t': "unat ?tested = unat tested + i + 1" by (simp add: algebra_simps)
      from excluded_scan [OF less.prems(1) fits i _ h' t'] assms(2,4)
      have ex: "if length cells \<le> unat ?tested then \<forall>s. \<not> free_run cells (unat n) s
         else excluded cells (unat n) (unat h0) (unat ?head) (unat ?tested)" by simp
      show ?thesis
      proof (cases "?tested \<ge> n_cells")
        case True
        then have "slot_search cells n_cells n head tested = Some (False, ?head)"
          using False Some by (subst slot_search.simps) (simp add: Let_def)
        with True ex fits i h' show ?thesis by (simp add: settled_def word_le_nat_alt assms(2))
      next
        case ongoing: False
        then have s: "slot_search cells n_cells n head tested = slot_search cells n_cells n ?head ?tested"
          using False Some by (subst slot_search.simps) (simp add: Let_def)
        have "unat ?tested < unat n_cells" using ongoing by (simp add: word_le_nat_alt)
        moreover have "settled cells (unat n) (slot_search cells n_cells n ?head ?tested)"
          using ex fits i h' t' calculation assms(2) False by (intro less.hyps) auto
        ultimately show ?thesis by (simp add: s)
      qed
    qed
  qed
qed

section \<open>Filling the slot\<close>

lemma fill_cells_length [simp]: "length (fill_cells cells i toks) = length cells"
  by (induction cells i toks rule: fill_cells.induct) simp_all

lemma fill_cells_before: "k < i \<Longrightarrow> fill_cells cells i toks ! k = cells ! k"
  by (induction cells i toks rule: fill_cells.induct) simp_all

lemma fill_cells_nth:
  "i + length toks \<le> length cells \<Longrightarrow> k < length cells \<Longrightarrow>
     fill_cells cells i toks ! k =
       (if i \<le> k \<and> k < i + length toks
        then (cells ! k)\<lparr>kc_pos := fst (toks ! (k - i)), kc_seq_id := kc_seq_id (cells ! k) \<union> set (snd (toks ! (k - i)))\<rparr>
        else cells ! k)"
proof (induction cells i toks rule: fill_cells.induct)
  case (2 cells i pos ids toks)
  then show ?case
    by (cases "k = i") (auto simp: fill_cells_before nth_Cons' nth_list_update)
qed auto

text \<open>A batch that names a position and at least one sequence per token, in numbers the cache can hold.\<close>

definition batch_ok :: "llama_batch \<Rightarrow> bool" where
  "batch_ok b \<longleftrightarrow> length (bt_seq_id b) = length (bt_pos b) \<and> length (bt_pos b) < 2 ^ 31
     \<and> (\<forall>p \<in> set (bt_pos b). p \<ge> 0) \<and> (\<forall>ids \<in> set (bt_seq_id b). ids \<noteq> [])"

definition batch_entries :: "nat \<Rightarrow> llama_batch \<Rightarrow> (nat \<times> int \<times> int) set" where
  "batch_entries h b = {(h + k, q, bt_pos b ! k) |k q. k < length (bt_pos b) \<and> q \<in> set (bt_seq_id b ! k)}"

lemma n_used_update:
  "i < length cells \<Longrightarrow> \<not> cell_used (cells ! i) \<Longrightarrow> cell_used d \<Longrightarrow> n_used (cells[i := d]) = Suc (n_used cells)"
proof (induction cells arbitrary: i)
  case (Cons e cells)
  then show ?case by (cases i) auto
qed simp

lemma n_used_filled:
  assumes "free_run cells (length toks) i" "\<forall>d \<in> set cells. cell_ok d" "\<forall>(p, ids) \<in> set toks. 0 \<le> p \<and> ids \<noteq> []"
  shows "(\<forall>d \<in> set (fill_cells cells i toks). cell_ok d) \<and> n_used (fill_cells cells i toks) = n_used cells + length toks"
  using assms
proof (induction cells i toks rule: fill_cells.induct)
  case (2 cells i pos ids toks)
  let ?d = "(cells ! i)\<lparr>kc_pos := pos, kc_seq_id := kc_seq_id (cells ! i) \<union> set ids\<rparr>"
  have i: "i < length cells" "kc_pos (cells ! i) < 0" using 2(2) by (force simp: free_run_def)+
  have free: "free_run (cells[i := ?d]) (length toks) (Suc i)" using 2(2) by (force simp: free_run_def)
  have d: "cell_ok ?d" "cell_used ?d" using 2(4) by (simp_all add: cell_ok_def cell_used_def cell_is_empty_def)
  then have "\<forall>d \<in> set (cells[i := ?d]). cell_ok d" using 2(3) by (auto dest!: set_update_subset_insert [THEN subsetD])
  from 2(1) [OF free this] 2(4) have IH: "\<forall>d \<in> set (fill_cells cells i ((pos, ids) # toks)). cell_ok d"
    "n_used (fill_cells cells i ((pos, ids) # toks)) = n_used (cells[i := ?d]) + length toks" by simp_all
  have "\<not> cell_used (cells ! i)" using i(2) by (simp add: cell_used_def)
  then have "n_used (cells[i := ?d]) = Suc (n_used cells)"
    using i(1) d(2) by (intro n_used_update)
  with IH show ?case by simp
qed simp

section \<open>The operation\<close>

lemma find_slot_cases:
  assumes "kv_ok c" "unat (kv_size c) \<le> 2 ^ 30" "batch_ok b"
  obtains (big) "unat (kv_size c) < length (bt_pos b)" "llama_kv_cache_find_slot c b = Some (False, c)"
  | (full) head where "unat head \<le> length (kv_cells c)" "\<forall>s. \<not> free_run (kv_cells c) (length (bt_pos b)) s"
      "llama_kv_cache_find_slot c b = Some (False, c\<lparr>kv_head := head\<rparr>)"
  | (found) head where "free_run (kv_cells c) (length (bt_pos b)) (unat head)"
      "llama_kv_cache_find_slot c b = Some (True, c\<lparr>kv_head := head,
         kv_cells := fill_cells (kv_cells c) (unat head) (zip (bt_pos b) (bt_seq_id b)), kv_used := kv_used c + n_tokens b\<rparr>)"
proof -
  have n: "unat (n_tokens b) = length (bt_pos b)" using assms(3) by (simp add: n_tokens_def batch_ok_def unat_of_nat)
  have c: "\<not> kv_recurrent c" "length (kv_cells c) = unat (kv_size c)" "unat (kv_head c) \<le> unat (kv_size c)"
    using assms(1) by (simp_all add: kv_ok_def word_le_nat_alt)
  show thesis
  proof (cases "n_tokens b > kv_size c")
    case True
    with c(1) n show thesis by (intro big) (simp_all add: llama_kv_cache_find_slot_def word_less_nat_alt)
  next
    case False
    have "settled (kv_cells c) (unat (n_tokens b)) (slot_search (kv_cells c) (kv_size c) (n_tokens b) (kv_head c) 0)"
      using c(2,3) assms(2) False
      by (intro slot_search_settled [where ?h0.0 = "kv_head c"]) (auto simp: excluded_def word_less_nat_alt)
    then show thesis unfolding settled_def n
    proof (elim disjE exE conjE)
      fix head assume "slot_search (kv_cells c) (kv_size c) (n_tokens b) (kv_head c) 0 = Some (True, head)"
        "free_run (kv_cells c) (length (bt_pos b)) (unat head)"
      with c(1) False show thesis by (intro found) (simp_all add: llama_kv_cache_find_slot_def)
    next
      fix head assume "slot_search (kv_cells c) (kv_size c) (n_tokens b) (kv_head c) 0 = Some (False, head)"
        "unat head \<le> length (kv_cells c)" "\<forall>s. \<not> free_run (kv_cells c) (length (bt_pos b)) s"
      with c(1) False show thesis by (intro full) (simp_all add: llama_kv_cache_find_slot_def)
    qed
  qed
qed

lemma filled_ok:
  assumes "kv_ok c" "batch_ok b" "free_run (kv_cells c) (length (bt_pos b)) (unat head)"
    and c': "c' = c\<lparr>kv_head := head, kv_cells := fill_cells (kv_cells c) (unat head) (zip (bt_pos b) (bt_seq_id b)), kv_used := kv_used c + n_tokens b\<rparr>"
  shows "kv_ok c'" and "kv_entries c' = kv_entries c \<union> batch_entries (unat head) b"
proof -
  let ?toks = "zip (bt_pos b) (bt_seq_id b)"
  have len: "length ?toks = length (bt_pos b)" "length (bt_seq_id b) = length (bt_pos b)" using assms(2) by (simp_all add: batch_ok_def)
  have free: "free_run (kv_cells c) (length ?toks) (unat head)" using assms(3) by (simp only: len)
  have cells: "\<forall>d \<in> set (kv_cells c). cell_ok d" using assms(1) by (simp add: kv_ok_def)
  have toks: "\<forall>(p, ids) \<in> set ?toks. 0 \<le> p \<and> ids \<noteq> []" using assms(2) by (auto simp: batch_ok_def dest: set_zip_leftD set_zip_rightD)
  from n_used_filled [OF free cells toks] free assms(1) show "kv_ok c'"
    by (auto simp: c' kv_ok_def free_run_def word_le_nat_alt n_tokens_def len)
  have fits: "unat head + length ?toks \<le> length (kv_cells c)" using free by (simp only: free_run_def)
  have empty: "kc_seq_id (kv_cells c ! (unat head + k)) = {}" if "k < length (bt_pos b)" for k
  proof -
    have "kc_pos (kv_cells c ! (unat head + k)) < 0" "kv_cells c ! (unat head + k) \<in> set (kv_cells c)"
      using that assms(3) by (auto simp: free_run_def)
    then show ?thesis using cells by (auto simp: cell_ok_def)
  qed
  show "kv_entries c' = kv_entries c \<union> batch_entries (unat head) b"
  proof (rule entries_eqI)
    fix i q p assume i: "i < length (kv_cells c)"
    show "(q \<in> kc_seq_id (kv_cells c' ! i) \<and> p = kc_pos (kv_cells c' ! i)) \<longleftrightarrow> (i, q, p) \<in> kv_entries c \<union> batch_entries (unat head) b"
    proof (cases "unat head \<le> i \<and> i < unat head + length (bt_pos b)")
      case True
      then obtain k where k: "i = unat head + k" "k < length (bt_pos b)" by (metis add_less_cancel_left le_Suc_ex)
      have "kv_cells c' ! i = (kv_cells c ! i)\<lparr>kc_pos := bt_pos b ! k, kc_seq_id := set (bt_seq_id b ! k)\<rparr>"
        using fill_cells_nth [OF fits i] k empty [OF k(2)] by (simp add: c' len)
      moreover have "(i, q, p) \<in> batch_entries (unat head) b \<longleftrightarrow> q \<in> set (bt_seq_id b ! k) \<and> p = bt_pos b ! k"
        using k by (auto simp: batch_entries_def)
      moreover have "(i, q, p) \<notin> kv_entries c" using empty [OF k(2)] by (simp add: kv_entries_def k(1))
      ultimately show ?thesis by auto
    next
      case False
      have "kv_cells c' ! i = kv_cells c ! i" using fill_cells_nth [OF fits i] False by (simp add: c' len)
      moreover have "(i, q, p) \<notin> batch_entries (unat head) b" using False by (auto simp: batch_entries_def)
      ultimately show ?thesis using i by (auto simp: kv_entries_def)
    qed
  qed (use fits in \<open>auto simp: c' kv_entries_def batch_entries_def len\<close>)
qed

lemma find_slot_answer:
  assumes "kv_ok c" "unat (kv_size c) \<le> 2 ^ 30" "batch_ok b"
  shows "\<exists>found c'. llama_kv_cache_find_slot c b = Some (found, c') \<and> kv_ok c'
    \<and> (found \<longleftrightarrow> (\<exists>s. free_run (kv_cells c) (length (bt_pos b)) s))
    \<and> (if found then free_run (kv_cells c) (length (bt_pos b)) (unat (kv_head c')) \<and> kv_entries c' = kv_entries c \<union> batch_entries (unat (kv_head c')) b
       else kv_cells c' = kv_cells c \<and> kv_used c' = kv_used c)"
  using assms
proof (cases rule: find_slot_cases)
  case big
  with assms(1) show ?thesis by (auto simp: free_run_def kv_ok_def)
next
  case (full head)
  moreover have "kv_ok (c\<lparr>kv_head := head\<rparr>)" using full(1) assms(1) by (simp add: kv_ok_def word_le_nat_alt)
  ultimately show ?thesis by auto
next
  case (found head)
  with filled_ok [OF assms(1,3) found(1) refl] show ?thesis by auto
qed

text \<open>C7. The search for a slot returns; it fails only when no run of free cells is long enough, and
  otherwise adds the batch to the contents.\<close>

theorem find_slot_correct:
  assumes "kv_ok c" "unat (kv_size c) \<le> 2 ^ 30" "batch_ok b"
  shows "\<exists>found c'. llama_kv_cache_find_slot c b = Some (found, c') \<and> kv_ok c'
    \<and> (found \<longleftrightarrow> (\<exists>s. free_run (kv_cells c) (length (bt_pos b)) s))
    \<and> (if found then free_run (kv_cells c) (length (bt_pos b)) (unat (kv_head c')) \<and> kv_entries c' = kv_entries c \<union> batch_entries (unat (kv_head c')) b
       else kv_cells c' = kv_cells c \<and> kv_used c' = kv_used c)"
  by (rule find_slot_answer [OF assms])

definition "sample_batch = \<lparr>bt_pos = [4, 5], bt_seq_id = [[0], [0, 1]]\<rparr>"

definition "sample_slot = llama_kv_cache_find_slot (sample_cache 4\<lparr>kv_head := 7\<rparr>) sample_batch"

lemma sample_slot_eval: "case sample_slot of Some (True, c) \<Rightarrow> kv_head c = 4 \<and> map kc_pos (kv_cells c) = [0, 1, 2, 3, 4, 5, -1, -1] | _ \<Rightarrow> False"
  by code_simp

lemma batch_entries_code [code]:
  "batch_entries h b = (\<Union>k \<in> set [0..<length (bt_pos b)]. (\<lambda>q. (h + k, q, bt_pos b ! k)) ` set (bt_seq_id b ! k))"
  by (auto simp: batch_entries_def)

lemma sample_entries: "batch_entries 4 sample_batch = {(4, 0, 4), (5, 0, 5), (5, 1, 5)}"
  by code_simp

theorem find_slot_correct_witness:
  "case llama_kv_cache_find_slot (sample_cache 4\<lparr>kv_head := 7\<rparr>) sample_batch of
     Some (True, c) \<Rightarrow> kv_ok c \<and> kv_head c = 4 \<and> kv_entries c = kv_entries (sample_cache 4\<lparr>kv_head := 7\<rparr>) \<union> {(4, 0, 4), (5, 0, 5), (5, 1, 5)}
   | _ \<Rightarrow> False"
proof -
  from sample_slot_eval obtain c where r: "llama_kv_cache_find_slot (sample_cache 4\<lparr>kv_head := 7\<rparr>) sample_batch = Some (True, c)" "kv_head c = 4"
    by (auto simp: sample_slot_def split: option.splits prod.splits bool.splits)
  have ok: "kv_ok (sample_cache 4\<lparr>kv_head := 7\<rparr>)" "unat (kv_size (sample_cache 4\<lparr>kv_head := 7\<rparr>)) \<le> 2 ^ 30" "batch_ok sample_batch"
    by (simp_all add: kv_ok_def sample_cache_def sample_cells_def cell_ok_def cell_used_def cell_is_empty_def llama_kv_cell_new_def
        batch_ok_def sample_batch_def)
  from find_slot_correct [OF ok] obtain found c' where f:
    "llama_kv_cache_find_slot (sample_cache 4\<lparr>kv_head := 7\<rparr>) sample_batch = Some (found, c')" "kv_ok c'"
    "if found then free_run (kv_cells (sample_cache 4\<lparr>kv_head := 7\<rparr>)) (length (bt_pos sample_batch)) (unat (kv_head c'))
       \<and> kv_entries c' = kv_entries (sample_cache 4\<lparr>kv_head := 7\<rparr>) \<union> batch_entries (unat (kv_head c')) sample_batch
     else kv_cells c' = kv_cells (sample_cache 4\<lparr>kv_head := 7\<rparr>) \<and> kv_used c' = kv_used (sample_cache 4\<lparr>kv_head := 7\<rparr>)"
    by (elim exE conjE)
  from f(1) r(1) have "found" "c' = c" by (simp_all only: option.inject prod.inject)
  with f(2,3) r(2) have "kv_ok c \<and> kv_entries c = kv_entries (sample_cache 4\<lparr>kv_head := 7\<rparr>) \<union> batch_entries 4 sample_batch" by simp
  with r sample_entries show ?thesis by (simp only: option.case prod.case bool.case simp_thms)
qed

end
