(* ===== verification/Kv_Defrag.thy ===== *)
theory Kv_Defrag
  imports Kv_Slots
begin

text \<open>
  Defragmentation: \<open>llama_kv_cache_defrag_internal\<close> and \<open>llama_kv_cache_update_internal\<close> of
  \<open>src/llama.cpp\<close>, and the row copies that \<open>llm_build_context::build_defrag\<close> puts into the graph.
  The loops run over indices below the number of cells, held as naturals. A single move of a cell is
  a step of a relation, the loops are runs of it, and the invariant is proved by rule induction.
\<close>

section \<open>The loops\<close>

text \<open>\<open>df_ids\<close> is \<open>ids\<close>: cell \<open>i\<close> moves to \<open>ids[i]\<close>, and \<open>n_kv\<close> there means that it stays.\<close>

record defrag_state =
  df_cells :: "llama_kv_cell list"
  df_ids :: "nat list"
  df_head :: u32
  df_moves :: nat

fun hole_more :: "llama_kv_cell list \<Rightarrow> nat \<Rightarrow> nat \<Rightarrow> nat" where
  "hole_more cells i 0 = 0"
| "hole_more cells i (Suc k) = (if cell_is_empty (cells ! i) then Suc (hole_more cells (Suc i) k) else 0)"

text \<open>The scan from the end; \<open>k\<close> cells above \<open>i0\<close> are left.\<close>

fun back_search :: "llama_kv_cell list \<Rightarrow> nat list \<Rightarrow> nat \<Rightarrow> nat \<Rightarrow> nat \<Rightarrow> nat \<Rightarrow> nat \<Rightarrow> nat \<times> nat" where
  "back_search cells ids n_kv i0 nh nf 0 = (nf, i0)"
| "back_search cells ids n_kv i0 nh nf (Suc k) =
     (let is = i0 + Suc k in
      if cell_is_empty (cells ! is) \<or> ids ! is \<noteq> n_kv then back_search cells ids n_kv i0 nh nf k
      else if nf + 1 = nh then (nf + 1, is)
      else back_search cells ids n_kv i0 nh (nf + 1) k)"

text \<open>The moves into the hole; \<open>k\<close> cells from \<open>i1\<close> are left. The result says whether to stop.\<close>

fun move_cells :: "nat \<Rightarrow> nat \<Rightarrow> nat \<Rightarrow> nat \<Rightarrow> nat \<Rightarrow> nat \<Rightarrow> bool \<Rightarrow> nat \<Rightarrow> nat \<Rightarrow> defrag_state \<Rightarrow> bool \<times> defrag_state" where
  "move_cells n_kv used max_moves i0 nh nf cont i1 0 st = (False, st)"
| "move_cells n_kv used max_moves i0 nh nf cont i1 (Suc k) st =
     (if cell_is_empty (df_cells st ! i1) \<or> df_ids st ! i1 \<noteq> n_kv then
        if df_moves st = max_moves then (True, st)
        else move_cells n_kv used max_moves i0 nh nf False (Suc i1) k st
      else
        let st = st\<lparr>df_ids := (df_ids st)[i1 := i0 + nf],
                    df_cells := (df_cells st)[i0 + nf := df_cells st ! i1, i1 := llama_kv_cell_new],
                    df_head := of_nat used,
                    df_moves := (if cont then df_moves st else df_moves st + 1)\<rparr> in
        if nf + 1 = nh then (False, st)
        else move_cells n_kv used max_moves i0 nh (nf + 1) True (Suc i1) k st)"

function defrag_loop :: "nat \<Rightarrow> nat \<Rightarrow> nat \<Rightarrow> nat \<Rightarrow> defrag_state \<Rightarrow> defrag_state kv" where
  "defrag_loop n_kv used max_moves i0 st =
     (if i0 < used then
        if \<not> cell_is_empty (df_cells st ! i0) then defrag_loop n_kv used max_moves (i0 + 1) (st\<lparr>df_ids := (df_ids st)[i0 := i0]\<rparr>)
        else
          let nh = 1 + hole_more (df_cells st) (i0 + 1) (used - (i0 + 1)) in
          case back_search (df_cells st) (df_ids st) n_kv i0 nh 0 (n_kv - 1 - i0) of
            (nf, is) \<Rightarrow>
              if nf \<noteq> nh then Inl (Kv_Assert ''KV defrag bug: nf != nh'')
              else case move_cells n_kv used max_moves i0 nh 0 False is (n_kv - is) st of
                (stop, st) \<Rightarrow>
                  if stop \<or> df_moves st = max_moves then Inr st
                  else defrag_loop n_kv used max_moves (i0 + nh) st
      else Inr st)"
  by pat_completeness auto
termination
  by (relation "measure (\<lambda>(n_kv, used, max_moves, i0, st). used - i0)") simp_all

text \<open>The result carries \<open>ids\<close> for the graph when a cell moved.\<close>

definition llama_kv_cache_defrag_internal :: "nat \<Rightarrow> llama_kv_cache \<Rightarrow> (nat list option \<times> llama_kv_cache) kv" where
  "llama_kv_cache_defrag_internal max_moves c =
     (let n_kv = unat (llama_kv_cache_cell_max c); used = unat (kv_used c) in
      if \<not> used \<le> n_kv then Inl (Kv_Assert ''n_used <= n_kv'')
      else ebind (defrag_loop n_kv used max_moves 0
             \<lparr>df_cells = kv_cells c, df_ids = replicate n_kv n_kv, df_head = kv_head c, df_moves = 0\<rparr>) (\<lambda>st.
        Inr (if df_moves st = 0 then None else Some (df_ids st), c\<lparr>kv_cells := df_cells st, kv_head := df_head st\<rparr>)))"

text \<open>The bookkeeping of an update; \<open>apply_shift\<close> is a model with rotary positions.\<close>

definition llama_kv_cache_update_internal ::
  "bool \<Rightarrow> bool \<Rightarrow> nat \<Rightarrow> llama_kv_cache \<Rightarrow> (int \<times> nat list option \<times> llama_kv_cache) kv" where
  "llama_kv_cache_update_internal apply_shift can_shift max_moves c =
     (if apply_shift \<and> kv_has_shift c \<and> \<not> (can_shift \<and> \<not> any_compacted c) then Inr (1, None, c)
      else
        let c = (if apply_shift \<and> kv_has_shift c
                 then c\<lparr>kv_has_shift := False, kv_cells := map (\<lambda>d. d\<lparr>kc_delta := 0\<rparr>) (kv_cells c)\<rparr> else c) in
        ebind (if kv_recurrent c then Inr True else llama_kv_has_qnext_state_storage c) (\<lambda>states.
          let c = (if states \<and> kv_do_copy c
                   then c\<lparr>kv_do_copy := False, kv_cells := map (\<lambda>(i, d). d\<lparr>kc_src := int i\<rparr>) (enumerate 0 (kv_cells c))\<rparr> else c) in
          if kv_do_defrag c then
            ebind (llama_kv_cache_defrag_internal max_moves c) (\<lambda>(ids, c). Inr (0, ids, c\<lparr>kv_do_defrag := False\<rparr>))
          else Inr (0, None, c)))"

section \<open>The copies of the graph\<close>

fun run_more :: "nat list \<Rightarrow> nat \<Rightarrow> nat \<Rightarrow> nat \<Rightarrow> nat" where
  "run_more ids i target 0 = 0"
| "run_more ids i target (Suc k) = (if ids ! i = target then Suc (run_more ids (Suc i) (Suc target) k) else 0)"

text \<open>Each copy is \<open>nm\<close> rows from row \<open>i\<close> to row \<open>id\<close>.\<close>

function build_defrag :: "nat list \<Rightarrow> nat \<Rightarrow> (nat \<times> nat \<times> nat) list" where
  "build_defrag ids i =
     (if i < length ids then
        let d = ids ! i in
        if i = d \<or> d = length ids then build_defrag ids (i + 1)
        else let nm = 1 + run_more ids (i + 1) (d + 1) (length ids - (i + 1)) in (i, d, nm) # build_defrag ids (i + nm)
      else [])"
  by pat_completeness auto
termination
  by (relation "measure (\<lambda>(ids, i). length ids - i)") auto

definition copy_rows :: "(nat \<times> nat \<times> nat) \<Rightarrow> 'a list \<Rightarrow> 'a list" where
  "copy_rows m rows = (case m of (i, d, nm) \<Rightarrow> take d rows @ take nm (drop i rows) @ drop (d + nm) rows)"

definition run_copies :: "(nat \<times> nat \<times> nat) list \<Rightarrow> 'a list \<Rightarrow> 'a list" where
  "run_copies ms rows = fold copy_rows ms rows"

declare defrag_loop.simps [simp del] build_defrag.simps [simp del]

section \<open>Moves as steps\<close>

inductive defrag_step :: "nat \<Rightarrow> nat \<Rightarrow> llama_kv_cell list \<times> nat list \<Rightarrow> llama_kv_cell list \<times> nat list \<Rightarrow> bool"
  for n_kv m where
  mark: "i < m \<Longrightarrow> \<not> cell_is_empty (cells ! i) \<Longrightarrow> defrag_step n_kv m (cells, ids) (cells, ids[i := i])"
| move: "d < m \<Longrightarrow> m \<le> s \<Longrightarrow> s < n_kv \<Longrightarrow> cell_is_empty (cells ! d) \<Longrightarrow> \<not> cell_is_empty (cells ! s) \<Longrightarrow> ids ! s = n_kv \<Longrightarrow>
    defrag_step n_kv m (cells, ids) (cells[d := cells ! s, s := llama_kv_cell_new], ids[s := d])"

definition n_occupied :: "llama_kv_cell list \<Rightarrow> nat" where
  "n_occupied cells = length (filter (\<lambda>d. \<not> cell_is_empty d) cells)"

text \<open>What holds of the cells and \<open>ids\<close>, against the cells the run started from.\<close>

definition defrag_inv :: "nat \<Rightarrow> nat \<Rightarrow> llama_kv_cell list \<Rightarrow> llama_kv_cell list \<times> nat list \<Rightarrow> bool" where
  "defrag_inv n_kv m cells0 st \<longleftrightarrow> (case st of (cells, ids) \<Rightarrow>
     length cells = length cells0 \<and> length ids = n_kv \<and> n_occupied cells = n_occupied cells0
     \<and> (\<forall>i < m. (ids ! i = n_kv \<or> ids ! i = i) \<and> (\<not> cell_is_empty (cells0 ! i) \<longrightarrow> cells ! i = cells0 ! i))
     \<and> (\<forall>i. m \<le> i \<and> i < n_kv \<longrightarrow>
          ids ! i = n_kv \<and> cells ! i = cells0 ! i
        \<or> ids ! i < m \<and> \<not> cell_is_empty (cells0 ! i) \<and> cell_is_empty (cells0 ! (ids ! i))
            \<and> cells ! (ids ! i) = cells0 ! i \<and> cells ! i = llama_kv_cell_new)
     \<and> (\<forall>i j. m \<le> i \<and> i < n_kv \<and> m \<le> j \<and> j < n_kv \<and> ids ! i < m \<and> ids ! i = ids ! j \<longrightarrow> i = j)
     \<and> (\<forall>i. n_kv \<le> i \<and> i < length cells0 \<longrightarrow> cells ! i = cells0 ! i)
     \<and> (\<forall>i < m. cell_is_empty (cells0 ! i) \<and> (\<forall>s. m \<le> s \<and> s < n_kv \<longrightarrow> ids ! s \<noteq> i) \<longrightarrow> cells ! i = cells0 ! i))"

lemma new_is_empty [simp]: "cell_is_empty llama_kv_cell_new"
  by (simp add: cell_is_empty_def llama_kv_cell_new_def)

lemma n_occupied_simps [simp]: "n_occupied [] = 0" "n_occupied (d # ds) = (if cell_is_empty d then 0 else 1) + n_occupied ds"
  by (simp_all add: n_occupied_def)

lemma n_occupied_fill: "i < length cells \<Longrightarrow> cell_is_empty (cells ! i) \<Longrightarrow> \<not> cell_is_empty d \<Longrightarrow> n_occupied (cells[i := d]) = Suc (n_occupied cells)"
proof (induction cells arbitrary: i)
  case (Cons e cells)
  then show ?case by (cases i) auto
qed simp

lemma n_occupied_free: "i < length cells \<Longrightarrow> \<not> cell_is_empty (cells ! i) \<Longrightarrow> cell_is_empty d \<Longrightarrow> Suc (n_occupied (cells[i := d])) = n_occupied cells"
proof (induction cells arbitrary: i)
  case (Cons e cells)
  then show ?case by (cases i) auto
qed simp

lemma n_occupied_move:
  assumes "d < s" "s < length cells" "cell_is_empty (cells ! d)" "\<not> cell_is_empty (cells ! s)"
  shows "n_occupied (cells[d := cells ! s, s := llama_kv_cell_new]) = n_occupied cells"
proof -
  let ?c = "cells[d := cells ! s]"
  have "n_occupied ?c = Suc (n_occupied cells)" using assms by (intro n_occupied_fill) simp_all
  moreover have "Suc (n_occupied (?c[s := llama_kv_cell_new])) = n_occupied ?c" using assms by (intro n_occupied_free) simp_all
  ultimately show ?thesis by simp
qed

lemma defrag_inv_init: "n_kv \<le> length cells \<Longrightarrow> m \<le> n_kv \<Longrightarrow> defrag_inv n_kv m cells (cells, replicate n_kv n_kv)"
  by (auto simp: defrag_inv_def)

lemma defrag_inv_step:
  assumes "defrag_step n_kv m st st'" "defrag_inv n_kv m cells0 st" "n_kv \<le> length cells0" "m \<le> n_kv"
  shows "defrag_inv n_kv m cells0 st'"
  using assms
proof (induction rule: defrag_step.induct)
  case (mark i cells ids)
  have e: "ids[i := i] ! j = ids ! j" if "m \<le> j" for j using mark.hyps(1) that by simp
  have low: "ids[i := i] ! j = n_kv \<or> ids[i := i] ! j = j" if "j < m" for j
    using mark.prems(1) that mark.hyps(1) mark.prems(3) by (cases "j = i") (simp_all add: defrag_inv_def)
  show ?case unfolding defrag_inv_def split
  proof (intro conjI allI impI, goal_cases)
    case (4 j)
    then show ?case by (rule low)
  next
    case (6 j)
    with mark.prems(1) show ?case by (simp add: defrag_inv_def e)
  next
    case (7 j k)
    then have "ids[i := i] ! j = ids ! j" "ids[i := i] ! k = ids ! k" using e [of j] e [of k] by blast+
    with 7 have jk: "m \<le> j \<and> j < n_kv \<and> m \<le> k \<and> k < n_kv \<and> ids ! j < m \<and> ids ! j = ids ! k" by metis
    have "\<forall>i j. m \<le> i \<and> i < n_kv \<and> m \<le> j \<and> j < n_kv \<and> ids ! i < m \<and> ids ! i = ids ! j \<longrightarrow> i = j"
      using mark.prems(1) unfolding defrag_inv_def by blast
    with jk show ?case by blast
  next
    case (9 j)
    with mark.prems(1) show ?case by (simp add: defrag_inv_def e)
  qed (use mark.prems(1) in \<open>simp_all add: defrag_inv_def\<close>)
next
  case (move d s cells ids)
  have "d < s" using move.hyps(1,2) by simp
  from move.prems(1) have len: "length cells = length cells0" "length ids = n_kv" "n_occupied cells = n_occupied cells0"
    and low: "\<And>i. i < m \<Longrightarrow> (ids ! i = n_kv \<or> ids ! i = i) \<and> (\<not> cell_is_empty (cells0 ! i) \<longrightarrow> cells ! i = cells0 ! i)"
    and high: "\<And>i. m \<le> i \<Longrightarrow> i < n_kv \<Longrightarrow> ids ! i = n_kv \<and> cells ! i = cells0 ! i
        \<or> ids ! i < m \<and> \<not> cell_is_empty (cells0 ! i) \<and> cell_is_empty (cells0 ! (ids ! i))
            \<and> cells ! (ids ! i) = cells0 ! i \<and> cells ! i = llama_kv_cell_new"
    and inj: "\<And>i j. m \<le> i \<Longrightarrow> i < n_kv \<Longrightarrow> m \<le> j \<Longrightarrow> j < n_kv \<Longrightarrow> ids ! i < m \<Longrightarrow> ids ! i = ids ! j \<Longrightarrow> i = j"
    and past: "\<And>i. n_kv \<le> i \<Longrightarrow> i < length cells0 \<Longrightarrow> cells ! i = cells0 ! i"
    and hole: "\<And>i. i < m \<Longrightarrow> cell_is_empty (cells0 ! i) \<Longrightarrow> \<forall>s. m \<le> s \<and> s < n_kv \<longrightarrow> ids ! s \<noteq> i \<Longrightarrow> cells ! i = cells0 ! i"
    unfolding defrag_inv_def by auto
  let ?cells = "cells[d := cells ! s, s := llama_kv_cell_new]" and ?ids = "ids[s := d]"
  have d0: "cell_is_empty (cells0 ! d)" using low [OF move.hyps(1)] move.hyps(4) by metis
  have s0: "cells ! s = cells0 ! s" "\<not> cell_is_empty (cells0 ! s)"
    using high [OF move.hyps(2,3)] move.hyps(5) by auto
  have fresh: "ids ! i \<noteq> d" if "m \<le> i" "i < n_kv" for i
    using high [OF that] move.hyps(1,4) assms(4) by auto
  have c: "?cells ! j = (if j = s then llama_kv_cell_new else if j = d then cells ! s else cells ! j)" if "j < length cells0" for j
    using that len(1) \<open>d < s\<close> by (auto simp: nth_list_update)
  have e: "?ids ! j = (if j = s then d else ids ! j)" if "j < n_kv" for j
    using that len(2) by (auto simp: nth_list_update)
  show ?case unfolding defrag_inv_def split
  proof (intro conjI allI impI, goal_cases)
    case 3
    show ?case using n_occupied_move [OF \<open>d < s\<close> _ move.hyps(4,5)] move.hyps(3) len assms(3) by simp
  next
    case (4 i)
    then show ?case using low [of i] e [of i] move.hyps(2) assms(4) by auto
  next
    case (5 i)
    then show ?case using low [of i] c [of i] d0 move.hyps(2) assms(3,4) by auto
  next
    case (6 i)
    show ?case
    proof (cases "i = s")
      case True
      then show ?thesis using s0 d0 c [of s] c [of d] e [of s] move.hyps(1-3) assms(3) \<open>d < s\<close> by auto
    next
      case False
      then have "?ids ! i = ids ! i" "?cells ! i = cells ! i" using 6 e [of i] c [of i] move.hyps(1) assms(3) by auto
      moreover have "?cells ! (ids ! i) = cells ! (ids ! i)" if "ids ! i < m"
        using that c [of "ids ! i"] fresh [of i] 6 move.hyps(2) assms(3,4) by auto
      ultimately show ?thesis using high [of i] 6 by auto
    qed
  next
    case (7 i j)
    then have ij: "m \<le> i" "i < n_kv" "m \<le> j" "j < n_kv" and eq: "?ids ! i < m" "?ids ! i = ?ids ! j" by blast+
    show ?case using eq fresh [OF ij(1,2)] fresh [OF ij(3,4)] inj [OF ij] unfolding e [OF ij(2)] e [OF ij(4)]
      by (cases "i = s"; cases "j = s") simp_all
  next
    case (8 i)
    then show ?case using past [of i] c [of i] move.hyps(1,3) assms(4) by auto
  next
    case (9 i)
    then have "?ids ! s \<noteq> i" using move.hyps(2,3) by blast
    then have "i \<noteq> d" "i \<noteq> s" using e [of s] move.hyps(1-3) 9 by auto
    moreover have "ids ! t \<noteq> i" if "m \<le> t" "t < n_kv" for t
    proof -
      have "?ids ! t \<noteq> i" using 9 that by blast
      then show ?thesis using e [of t] that move.hyps(6) 9 assms(4) by (cases "t = s") auto
    qed
    ultimately show ?case using hole [of i] c [of i] 9 assms(3,4) by auto
  qed (use len in simp_all)
qed

lemma defrag_inv_steps:
  "(defrag_step n_kv m)\<^sup>*\<^sup>* st st' \<Longrightarrow> defrag_inv n_kv m cells0 st \<Longrightarrow> n_kv \<le> length cells0 \<Longrightarrow> m \<le> n_kv \<Longrightarrow> defrag_inv n_kv m cells0 st'"
  by (induction rule: rtranclp_induct) (auto intro: defrag_inv_step)

section \<open>The loops are runs of steps\<close>

definition cand :: "llama_kv_cell list \<Rightarrow> nat list \<Rightarrow> nat \<Rightarrow> nat \<Rightarrow> bool" where
  "cand cells ids n_kv j \<longleftrightarrow> \<not> cell_is_empty (cells ! j) \<and> ids ! j = n_kv"

lemma hole_more_empty: "j < hole_more cells i k \<Longrightarrow> cell_is_empty (cells ! (i + j))"
proof (induction cells i k arbitrary: j rule: hole_more.induct)
  case (2 cells i k)
  then show ?case by (cases j) (auto split: if_splits)
qed simp

lemma hole_more_le: "hole_more cells i k \<le> k"
  by (induction cells i k rule: hole_more.induct) auto

lemma back_search_finds:
  assumes "nf < nh" "nh \<le> nf + length (filter (cand cells ids n_kv) [m..<Suc (i0 + k)])" "i0 < m"
  shows "\<exists>is. back_search cells ids n_kv i0 nh nf k = (nh, is) \<and> m \<le> is \<and> is \<le> i0 + k
    \<and> nf + length (filter (cand cells ids n_kv) [is..<Suc (i0 + k)]) = nh"
  using assms
proof (induction cells ids n_kv i0 nh nf k rule: back_search.induct)
  case (2 cells ids n_kv i0 nh nf k)
  let ?is = "Suc (i0 + k)"
  have "m \<le> ?is" using "2.prems" by (cases "m \<le> ?is") simp_all
  then have last_one: "length (filter (cand cells ids n_kv) [a..<Suc ?is]) =
      length (filter (cand cells ids n_kv) [a..<?is]) + (if cand cells ids n_kv ?is then 1 else 0)" if "a \<le> ?is" for a
    using that by simp
  have cd: "cell_is_empty (cells ! ?is) \<or> ids ! ?is \<noteq> n_kv \<longleftrightarrow> \<not> cand cells ids n_kv ?is" by (auto simp: cand_def)
  consider "\<not> cand cells ids n_kv ?is" | "cand cells ids n_kv ?is" "nf + 1 = nh" | "cand cells ids n_kv ?is" "nf + 1 \<noteq> nh" by blast
  then show ?case
  proof cases
    case 1
    then have c1: "cell_is_empty (cells ! (i0 + Suc k)) \<or> ids ! (i0 + Suc k) \<noteq> n_kv" by (simp add: cand_def)
    from 1 have s: "back_search cells ids n_kv i0 nh nf (Suc k) = back_search cells ids n_kv i0 nh nf k" by (simp add: Let_def cd)
    have "\<exists>is. back_search cells ids n_kv i0 nh nf k = (nh, is) \<and> m \<le> is \<and> is \<le> i0 + k
        \<and> nf + length (filter (cand cells ids n_kv) [is..<Suc (i0 + k)]) = nh"
      by (rule "2.IH"(1) [OF refl c1 "2.prems"(1) _ "2.prems"(3)])
        (use 1 "2.prems"(2) last_one [OF \<open>m \<le> ?is\<close>] in \<open>simp del: upt_Suc\<close>)
    then obtain js where "back_search cells ids n_kv i0 nh nf k = (nh, js)" "m \<le> js" "js \<le> i0 + k"
        "nf + length (filter (cand cells ids n_kv) [js..<?is]) = nh" by (auto simp del: upt_Suc)
    with 1 s last_one [of js] show ?thesis by (auto intro!: exI [of _ js] simp del: upt_Suc)
  next
    case 2
    then have "back_search cells ids n_kv i0 nh nf (Suc k) = (nh, ?is)" by (simp add: Let_def cd)
    with 2 \<open>m \<le> ?is\<close> show ?thesis by auto
  next
    case 3
    then have c3: "\<not> (cell_is_empty (cells ! (i0 + Suc k)) \<or> ids ! (i0 + Suc k) \<noteq> n_kv)" by (simp add: cand_def)
    from 3 have s: "back_search cells ids n_kv i0 nh nf (Suc k) = back_search cells ids n_kv i0 nh (nf + 1) k" by (simp add: Let_def cd)
    have "\<exists>is. back_search cells ids n_kv i0 nh (nf + 1) k = (nh, is) \<and> m \<le> is \<and> is \<le> i0 + k
        \<and> nf + 1 + length (filter (cand cells ids n_kv) [is..<Suc (i0 + k)]) = nh"
      by (rule "2.IH"(2) [OF refl c3 3(2) _ _ "2.prems"(3)])
        (use 3 "2.prems" last_one [OF \<open>m \<le> ?is\<close>] in \<open>simp_all del: upt_Suc\<close>)
    then obtain js where "back_search cells ids n_kv i0 nh (nf + 1) k = (nh, js)" "m \<le> js" "js \<le> i0 + k"
        "nf + 1 + length (filter (cand cells ids n_kv) [js..<?is]) = nh" by (auto simp del: upt_Suc)
    with 3 s last_one [of js] show ?thesis by (auto intro!: exI [of _ js] simp del: upt_Suc)
  qed
qed simp

text \<open>The moves of one hole, which is the cells from \<open>i0 + nf\<close> to \<open>i0 + nh\<close>.\<close>

lemma move_cells_steps:
  assumes "i1 + k = n_kv" "n_kv \<le> length (df_cells st)" "length (df_ids st) = n_kv" "m \<le> i1" "i0 + nh \<le> m"
    and "nf < nh" "nf + length (filter (cand (df_cells st) (df_ids st) n_kv) [i1..<n_kv]) = nh"
    and "\<forall>j. i0 + nf \<le> j \<and> j < i0 + nh \<longrightarrow> cell_is_empty (df_cells st ! j)"
    and "move_cells n_kv m max_moves i0 nh nf cont i1 k st = (stop, st')"
  shows "(defrag_step n_kv m)\<^sup>*\<^sup>* (df_cells st, df_ids st) (df_cells st', df_ids st')
    \<and> (stop \<longrightarrow> df_moves st' = max_moves) \<and> df_moves st \<le> df_moves st' \<and> df_moves st' \<le> df_moves st + (nh - nf)
    \<and> (cont \<or> df_moves st < df_moves st' \<or> st' = st)
    \<and> (\<not> stop \<longrightarrow> (\<forall>j. i0 + nf \<le> j \<and> j < i0 + nh \<longrightarrow> \<not> cell_is_empty (df_cells st' ! j)))
    \<and> (\<forall>j < i0 + nf. df_cells st' ! j = df_cells st ! j) \<and> df_head st' \<in> {df_head st, of_nat m}"
  using assms
proof (induction k arbitrary: i1 nf cont st)
  case 0
  then show ?case by simp
next
  case (Suc k)
  let ?cells = "df_cells st" and ?ids = "df_ids st"
  have up: "[i1..<n_kv] = i1 # [Suc i1..<n_kv]" using Suc.prems(1) by (simp add: upt_conv_Cons)
  show ?case
  proof (cases "cand ?cells ?ids n_kv i1")
    case False
    show ?thesis
    proof (cases "df_moves st = max_moves")
      case True
      with False Suc.prems(9) have "stop" "st' = st" by (auto simp: cand_def)
      with True show ?thesis by simp
    next
      case go: False
      have r: "move_cells n_kv m max_moves i0 nh nf False (Suc i1) k st = (stop, st')"
        using Suc.prems(9) False go by (auto simp: cand_def)
      have "Suc i1 + k = n_kv" "m \<le> Suc i1" using Suc.prems(1,4) by simp_all
      moreover have "nf + length (filter (cand ?cells ?ids n_kv) [Suc i1..<n_kv]) = nh"
        using Suc.prems(7) False by (simp add: up)
      ultimately show ?thesis using Suc.IH [OF _ Suc.prems(2,3) _ Suc.prems(5,6) _ Suc.prems(8) r] by auto
    qed
  next
    case True
    let ?st = "st\<lparr>df_ids := ?ids[i1 := i0 + nf], df_cells := ?cells[i0 + nf := ?cells ! i1, i1 := llama_kv_cell_new],
      df_head := of_nat m, df_moves := (if cont then df_moves st else df_moves st + 1)\<rparr>"
    have d: "i0 + nf < m" "i1 < n_kv" "i0 + nf < i1" using Suc.prems(1,4,5,6) by simp_all
    have c: "df_cells ?st ! j = (if j = i1 then llama_kv_cell_new else if j = i0 + nf then ?cells ! i1 else ?cells ! j)" if "j \<le> i1" for j
      using that d Suc.prems(2) by (auto simp: nth_list_update)
    have one: "defrag_step n_kv m (?cells, ?ids) (df_cells ?st, df_ids ?st)"
      using d True Suc.prems(4,6,8) by (auto simp: cand_def intro: defrag_step.move)
    have full: "\<not> cell_is_empty (df_cells ?st ! (i0 + nf))" using c [of "i0 + nf"] d True by (simp add: cand_def)
    show ?thesis
    proof (cases "nf + 1 = nh")
      case filled: True
      then have "\<not> stop" "st' = ?st" using True Suc.prems(9) by (auto simp: cand_def Let_def)
      moreover have "\<not> cell_is_empty (df_cells ?st ! j)" if "i0 + nf \<le> j" "j < i0 + nh" for j
      proof -
        have j: "j = i0 + nf" using that filled by simp
        show ?thesis unfolding j by (rule full)
      qed
      moreover have "Suc 0 \<le> nh - nf" using Suc.prems(6) by simp
      ultimately show ?thesis using one c d by auto
    next
      case more: False
      have r: "move_cells n_kv m max_moves i0 nh (nf + 1) True (Suc i1) k ?st = (stop, st')"
        using Suc.prems(9) True more by (simp add: cand_def Let_def)
      have rest: "filter (cand (df_cells ?st) (df_ids ?st) n_kv) [Suc i1..<n_kv] = filter (cand ?cells ?ids n_kv) [Suc i1..<n_kv]"
        using d by (intro filter_cong) (auto simp: cand_def)
      have "(defrag_step n_kv m)\<^sup>*\<^sup>* (df_cells ?st, df_ids ?st) (df_cells st', df_ids st')
        \<and> (stop \<longrightarrow> df_moves st' = max_moves) \<and> df_moves ?st \<le> df_moves st' \<and> df_moves st' \<le> df_moves ?st + (nh - (nf + 1))
        \<and> (True \<or> df_moves ?st < df_moves st' \<or> st' = ?st)
        \<and> (\<not> stop \<longrightarrow> (\<forall>j. i0 + (nf + 1) \<le> j \<and> j < i0 + nh \<longrightarrow> \<not> cell_is_empty (df_cells st' ! j)))
        \<and> (\<forall>j < i0 + (nf + 1). df_cells st' ! j = df_cells ?st ! j) \<and> df_head st' \<in> {df_head ?st, of_nat m}"
      proof (rule Suc.IH [OF _ _ _ _ Suc.prems(5) _ _ _ r])
        show "\<forall>j. i0 + (nf + 1) \<le> j \<and> j < i0 + nh \<longrightarrow> cell_is_empty (df_cells ?st ! j)"
          using Suc.prems(4,5,8) c by auto
        show "nf + 1 + length (filter (cand (df_cells ?st) (df_ids ?st) n_kv) [Suc i1..<n_kv]) = nh"
          using Suc.prems(7) True unfolding rest by (simp add: up)
      qed (use Suc.prems(1-6) more in simp_all)
      then have IH: "(defrag_step n_kv m)\<^sup>*\<^sup>* (df_cells ?st, df_ids ?st) (df_cells st', df_ids st')"
        "stop \<longrightarrow> df_moves st' = max_moves" "df_moves ?st \<le> df_moves st' \<and> df_moves st' \<le> df_moves ?st + (nh - (nf + 1))"
        "\<not> stop \<Longrightarrow> i0 + (nf + 1) \<le> j \<Longrightarrow> j < i0 + nh \<Longrightarrow> \<not> cell_is_empty (df_cells st' ! j)"
        "j < i0 + (nf + 1) \<Longrightarrow> df_cells st' ! j = df_cells ?st ! j" "df_head st' \<in> {df_head ?st, of_nat m}" for j
        by blast+
      have "\<not> cell_is_empty (df_cells st' ! j)" if "\<not> stop" "i0 + nf \<le> j" "j < i0 + nh" for j
        using IH(4) [of j] IH(5) [of j] full that by (cases "j = i0 + nf") simp_all
      moreover have "df_cells st' ! j = ?cells ! j" if "j < i0 + nf" for j
        using IH(5) [of j] c [of j] d that by simp
      moreover have "(defrag_step n_kv m)\<^sup>*\<^sup>* (?cells, ?ids) (df_cells st', df_ids st')"
        by (rule converse_rtranclp_into_rtranclp [OF one IH(1)])
      moreover have "df_moves st \<le> df_moves st' \<and> df_moves st' \<le> df_moves st + (nh - nf) \<and> (cont \<or> df_moves st < df_moves st' \<or> st' = st)"
        using IH(3) Suc.prems(6) by (auto split: if_splits)
      moreover have "df_head st' \<in> {df_head st, of_nat m}" using IH(6) by simp
      ultimately show ?thesis using IH(2) by blast
    qed
  qed
qed

lemma n_occupied_upt: "n_occupied cells = length (filter (\<lambda>i. \<not> cell_is_empty (cells ! i)) [0..<length cells])"
proof -
  have "filter (\<lambda>d. \<not> cell_is_empty d) (map ((!) cells) [0..<length cells]) =
      map ((!) cells) (filter (\<lambda>i. \<not> cell_is_empty (cells ! i)) [0..<length cells])"
    by (simp add: filter_map comp_def)
  then show ?thesis by (simp add: n_occupied_def map_nth)
qed

lemma upt_split: "a \<le> b \<Longrightarrow> b \<le> c \<Longrightarrow> [a..<c] = [a..<b] @ [b..<c]"
  by (metis le_Suc_ex upt_add_eq_append)

text \<open>As many cells wait above \<open>m\<close> as there are holes below, when \<open>m\<close> cells are occupied.\<close>

lemma enough_cands:
  assumes "n_occupied cells = m" "m \<le> n_kv" "n_kv \<le> length cells" "\<forall>j. n_kv \<le> j \<and> j < length cells \<longrightarrow> cell_is_empty (cells ! j)"
    and "\<forall>j. i0 \<le> j \<and> j < i0 + nh \<longrightarrow> cell_is_empty (cells ! j)" "i0 + nh \<le> m"
  shows "nh \<le> length (filter (\<lambda>i. \<not> cell_is_empty (cells ! i)) [m..<n_kv])"
proof -
  let ?n = "\<lambda>a b. length (filter (\<lambda>i. \<not> cell_is_empty (cells ! i)) [a..<b])"
  have n: "?n a c = ?n a b + ?n b c" if "a \<le> b" "b \<le> c" for a b c using upt_split [OF that] by simp
  have "m = ?n 0 (length cells)" using assms(1) by (simp add: n_occupied_upt)
  also have "\<dots> = ?n 0 i0 + (?n i0 (i0 + nh) + (?n (i0 + nh) m + (?n m n_kv + ?n n_kv (length cells))))"
    using n [of 0 i0 "length cells"] n [of i0 "i0 + nh" "length cells"] n [of "i0 + nh" m "length cells"] n [of m n_kv "length cells"]
      assms(2,3,6) by simp
  also have "?n i0 (i0 + nh) = 0" using assms(5) by (simp add: filter_empty_conv)
  also have "?n n_kv (length cells) = 0" using assms(4) by (simp add: filter_empty_conv)
  finally have "m = ?n 0 i0 + (?n (i0 + nh) m + ?n m n_kv)" by simp
  moreover have "?n 0 i0 \<le> i0" using length_filter_le [of _ "[0..<i0]"] by simp
  moreover have "?n (i0 + nh) m \<le> m - (i0 + nh)" using length_filter_le [of _ "[i0 + nh..<m]"] by simp
  ultimately show ?thesis using assms(6) by linarith
qed

lemma defrag_loop_steps:
  assumes "n_kv \<le> length cells0" "m \<le> n_kv" "n_occupied cells0 = m"
    and "\<forall>j. n_kv \<le> j \<and> j < length cells0 \<longrightarrow> cell_is_empty (cells0 ! j)"
  shows "defrag_inv n_kv m cells0 (df_cells st, df_ids st) \<Longrightarrow> \<forall>j < i0. \<not> cell_is_empty (df_cells st ! j) \<Longrightarrow> i0 \<le> m \<Longrightarrow>
    \<exists>st'. defrag_loop n_kv m max_moves i0 st = Inr st'
      \<and> (defrag_step n_kv m)\<^sup>*\<^sup>* (df_cells st, df_ids st) (df_cells st', df_ids st')
      \<and> df_moves st \<le> df_moves st' \<and> df_moves st' \<le> df_moves st + (m - i0) \<and> (df_moves st' \<noteq> max_moves \<longrightarrow> (\<forall>j < m. \<not> cell_is_empty (df_cells st' ! j)))
      \<and> (df_moves st < df_moves st' \<or> df_cells st' = df_cells st) \<and> df_head st' \<in> {df_head st, of_nat m}"
proof (induction "m - i0" arbitrary: i0 st rule: less_induct)
  case less
  let ?cells = "df_cells st" and ?ids = "df_ids st"
  have len: "length ?cells = length cells0" "length ?ids = n_kv" "n_occupied ?cells = m"
    using less.prems(1) assms(3) by (simp_all add: defrag_inv_def)
  consider "\<not> i0 < m" | "i0 < m" "\<not> cell_is_empty (?cells ! i0)" | "i0 < m" "cell_is_empty (?cells ! i0)" by blast
  then show ?case
  proof cases
    case 1
    with less.prems(2,3) show ?thesis by (subst defrag_loop.simps) auto
  next
    case 2
    let ?st = "st\<lparr>df_ids := ?ids[i0 := i0]\<rparr>"
    have one: "defrag_step n_kv m (?cells, ?ids) (df_cells ?st, df_ids ?st)" using 2 by (simp add: defrag_step.mark)
    have "\<exists>st'. defrag_loop n_kv m max_moves (i0 + 1) ?st = Inr st'
      \<and> (defrag_step n_kv m)\<^sup>*\<^sup>* (df_cells ?st, df_ids ?st) (df_cells st', df_ids st')
      \<and> df_moves ?st \<le> df_moves st' \<and> df_moves st' \<le> df_moves ?st + (m - (i0 + 1)) \<and> (df_moves st' \<noteq> max_moves \<longrightarrow> (\<forall>j < m. \<not> cell_is_empty (df_cells st' ! j)))
      \<and> (df_moves ?st < df_moves st' \<or> df_cells st' = df_cells ?st) \<and> df_head st' \<in> {df_head ?st, of_nat m}"
      using 2 less.prems(2) defrag_inv_step [OF one less.prems(1) assms(1,2)] by (intro less.hyps) (auto simp: less_Suc_eq)
    moreover have "defrag_loop n_kv m max_moves i0 st = defrag_loop n_kv m max_moves (i0 + 1) ?st"
      using 2 by (subst defrag_loop.simps) simp
    moreover have "(defrag_step n_kv m)\<^sup>*\<^sup>* (?cells, ?ids) x" if "(defrag_step n_kv m)\<^sup>*\<^sup>* (df_cells ?st, df_ids ?st) x" for x
      by (rule converse_rtranclp_into_rtranclp [where r = "defrag_step n_kv m", OF one that])
    ultimately show ?thesis by auto
  next
    case 3
    define nh where "nh = 1 + hole_more ?cells (i0 + 1) (m - (i0 + 1))"
    have nh: "0 < nh" "i0 + nh \<le> m" using hole_more_le [of ?cells "i0 + 1" "m - (i0 + 1)"] 3(1) by (simp_all add: nh_def)
    have hole: "\<forall>j. i0 \<le> j \<and> j < i0 + nh \<longrightarrow> cell_is_empty (?cells ! j)"
    proof (intro allI impI)
      fix j assume j: "i0 \<le> j \<and> j < i0 + nh"
      show "cell_is_empty (?cells ! j)"
      proof (cases "j = i0")
        case False
        with j have "j - (i0 + 1) < hole_more ?cells (i0 + 1) (m - (i0 + 1))" "i0 + 1 + (j - (i0 + 1)) = j" by (auto simp: nh_def)
        then show ?thesis using hole_more_empty by metis
      qed (use 3 in simp)
    qed
    have above: "\<forall>j. n_kv \<le> j \<and> j < length ?cells \<longrightarrow> cell_is_empty (?cells ! j)"
      using less.prems(1) assms(4) by (simp add: defrag_inv_def)
    have free: "?ids ! j = n_kv" if "m \<le> j" "j < n_kv" "\<not> cell_is_empty (?cells ! j)" for j
      using less.prems(1) that by (auto simp: defrag_inv_def)
    have "filter (\<lambda>i. \<not> cell_is_empty (?cells ! i)) [m..<n_kv] = filter (cand ?cells ?ids n_kv) [m..<n_kv]"
      by (rule filter_cong) (auto simp: cand_def free)
    with enough_cands [OF len(3) assms(2) _ above hole nh(2)] assms(1) len(1)
    have "nh \<le> 0 + length (filter (cand ?cells ?ids n_kv) [m..<Suc (i0 + (n_kv - 1 - i0))])" using 3(1) assms(2) by simp
    from back_search_finds [OF nh(1) this 3(1)] obtain js where
      bs: "back_search ?cells ?ids n_kv i0 nh 0 (n_kv - 1 - i0) = (nh, js)" "m \<le> js" "js \<le> i0 + (n_kv - 1 - i0)"
        "length (filter (cand ?cells ?ids n_kv) [js..<Suc (i0 + (n_kv - 1 - i0))]) = nh" by auto
    have jslt: "js < n_kv" "Suc (i0 + (n_kv - 1 - i0)) = n_kv" using bs(3) 3(1) assms(2) by simp_all
    obtain stop st1 where mv: "move_cells n_kv m max_moves i0 nh 0 False js (n_kv - js) st = (stop, st1)" by fastforce
    have steps: "(defrag_step n_kv m)\<^sup>*\<^sup>* (?cells, ?ids) (df_cells st1, df_ids st1)
      \<and> (stop \<longrightarrow> df_moves st1 = max_moves) \<and> df_moves st \<le> df_moves st1
      \<and> df_moves st1 \<le> df_moves st + (nh - 0) \<and> (False \<or> df_moves st < df_moves st1 \<or> st1 = st)
      \<and> (\<not> stop \<longrightarrow> (\<forall>j. i0 + 0 \<le> j \<and> j < i0 + nh \<longrightarrow> \<not> cell_is_empty (df_cells st1 ! j)))
      \<and> (\<forall>j < i0 + 0. df_cells st1 ! j = ?cells ! j) \<and> df_head st1 \<in> {df_head st, of_nat m}"
      using jslt bs(2,4) assms(1) len nh hole by (intro move_cells_steps [OF _ _ _ _ _ _ _ _ mv]) simp_all
    have loop: "defrag_loop n_kv m max_moves i0 st =
        (if stop \<or> df_moves st1 = max_moves then Inr st1 else defrag_loop n_kv m max_moves (i0 + nh) st1)"
      unfolding defrag_loop.simps [of n_kv m max_moves i0 st] Let_def nh_def [symmetric] bs(1) prod.case mv
      using 3 by simp
    show ?thesis
    proof (cases "stop \<or> df_moves st1 = max_moves")
      case True
      moreover have "nh \<le> m - i0" using nh(2) by linarith
      ultimately show ?thesis using loop steps by auto
    next
      case False
      have inv: "defrag_inv n_kv m cells0 (df_cells st1, df_ids st1)"
        using steps by (intro defrag_inv_steps [OF _ less.prems(1) assms(1,2)]) simp
      have filled: "\<forall>j < i0 + nh. \<not> cell_is_empty (df_cells st1 ! j)"
        using steps less.prems(2) False by (metis add_0_right not_less)
      have "m - (i0 + nh) < m - i0" using nh(1) 3(1) by linarith
      from less.hyps [OF this inv filled nh(2)] obtain st' where
        "defrag_loop n_kv m max_moves (i0 + nh) st1 = Inr st'"
        "(defrag_step n_kv m)\<^sup>*\<^sup>* (df_cells st1, df_ids st1) (df_cells st', df_ids st')"
        "df_moves st1 \<le> df_moves st'" "df_moves st' \<le> df_moves st1 + (m - (i0 + nh))" "df_moves st' \<noteq> max_moves \<longrightarrow> (\<forall>j < m. \<not> cell_is_empty (df_cells st' ! j))"
        "df_moves st1 < df_moves st' \<or> df_cells st' = df_cells st1" "df_head st' \<in> {df_head st1, of_nat m}" by auto
      moreover from this(4) steps nh(2) have "df_moves st' \<le> df_moves st + (m - i0)" by linarith
      ultimately show ?thesis using loop steps False by (auto intro: rtranclp_trans)
    qed
  qed
qed

end
