(* ===== verification/Kv_Defrag_Proofs.thy ===== *)
theory Kv_Defrag_Proofs
  imports Kv_Defrag
begin

text \<open>
  What a defragmentation does to the contents of the cache and to the rows of its tensors, and that
  afterwards every free cell can be used.
\<close>

section \<open>Where a cell goes\<close>


text \<open>A finished run from \<open>cells0\<close>, where nothing is occupied from \<open>n_kv\<close> on.\<close>

definition defrag_result :: "nat \<Rightarrow> nat \<Rightarrow> llama_kv_cell list \<Rightarrow> llama_kv_cell list \<Rightarrow> nat list \<Rightarrow> bool" where
  "defrag_result n_kv m cells0 cells ids \<longleftrightarrow> defrag_inv n_kv m cells0 (cells, ids) \<and> n_kv \<le> length cells0 \<and> m \<le> n_kv
     \<and> (\<forall>j. n_kv \<le> j \<and> j < length cells0 \<longrightarrow> cell_is_empty (cells0 ! j))"

lemma inv_len: "defrag_result n_kv m cells0 cells ids \<Longrightarrow> length cells = length cells0 \<and> length ids = n_kv \<and> n_kv \<le> length cells0 \<and> m \<le> n_kv"
  by (simp add: defrag_result_def defrag_inv_def)

lemma inv_low: "defrag_result n_kv m cells0 cells ids \<Longrightarrow> i < m \<Longrightarrow>
    (ids ! i = n_kv \<or> ids ! i = i) \<and> (\<not> cell_is_empty (cells0 ! i) \<longrightarrow> cells ! i = cells0 ! i)"
  by (simp add: defrag_result_def defrag_inv_def)

lemma inv_high:
  assumes "defrag_result n_kv m cells0 cells ids" "m \<le> i" "i < n_kv"
  obtains "ids ! i = n_kv" "cells ! i = cells0 ! i"
  | "ids ! i < m" "\<not> cell_is_empty (cells0 ! i)" "cell_is_empty (cells0 ! (ids ! i))" "cells ! (ids ! i) = cells0 ! i" "cells ! i = llama_kv_cell_new"
  using assms unfolding defrag_result_def defrag_inv_def by blast


lemma inv_hole:
  assumes "defrag_result n_kv m cells0 cells ids" "i < m" "cell_is_empty (cells0 ! i)"
  obtains (same) "cells ! i = cells0 ! i" | (filled) s where "m \<le> s" "s < n_kv" "ids ! s = i"
  using assms unfolding defrag_result_def defrag_inv_def split by blast

lemma inv_above:
  "defrag_result n_kv m cells0 cells ids \<Longrightarrow> n_kv \<le> i \<Longrightarrow> i < length cells0 \<Longrightarrow> cells ! i = cells0 ! i \<and> cell_is_empty (cells0 ! i)"
  by (simp add: defrag_result_def defrag_inv_def)



lemma cells_come_from:
  assumes run: "defrag_result n_kv m cells0 cells ids" and j: "j < length cells0"
  shows "cells ! j = llama_kv_cell_new \<or> cells ! j \<in> set cells0"
proof -
  note len = inv_len [OF run]
  consider "n_kv \<le> j" | "m \<le> j" "j < n_kv" | "j < m" "\<not> cell_is_empty (cells0 ! j)" | "j < m" "cell_is_empty (cells0 ! j)" by linarith
  then show ?thesis
  proof cases
    case 1
    with inv_above [OF run] j show ?thesis by simp
  next
    case 2
    then show ?thesis by (cases rule: inv_high [OF run 2]) (use j in simp_all)
  next
    case 3
    with inv_low [OF run, of j] j show ?thesis by simp
  next
    case 4
    from run 4 show ?thesis
    proof (cases rule: inv_hole)
      case (filled s)
      then show ?thesis using 4(1) len by (cases rule: inv_high [OF run filled(1,2)]) auto
    qed (use j in simp)
  qed
qed


section \<open>The copies move the rows\<close>







section \<open>The whole operation\<close>

lemma cell_max_from_le: "cell_max_from cells n \<le> n"
  by (induction cells n rule: cell_max_from.induct) auto

lemma cell_max_from_above: "cell_max_from cells n \<le> j \<Longrightarrow> j < n \<Longrightarrow> \<not> cell_used (cells ! j)"
  by (induction cells n rule: cell_max_from.induct) (auto split: if_splits simp: less_Suc_eq)

lemma n_occupied_used: "\<forall>d \<in> set cells. cell_ok d \<Longrightarrow> n_occupied cells = n_used cells"
  by (induction cells) (auto simp: cell_ok_def cell_used_def cell_is_empty_def)

lemma n_occupied_le:
  assumes "n \<le> length cells" "\<forall>j. n \<le> j \<and> j < length cells \<longrightarrow> cell_is_empty (cells ! j)"
  shows "n_occupied cells \<le> n"
proof -
  have "filter (\<lambda>i. \<not> cell_is_empty (cells ! i)) [n..<length cells] = []" using assms(2) by (simp add: filter_empty_conv)
  then have "n_occupied cells = length (filter (\<lambda>i. \<not> cell_is_empty (cells ! i)) [0..<n])"
    using upt_split [of 0 n "length cells"] assms(1) by (simp add: n_occupied_upt)
  then show ?thesis using length_filter_le [of _ "[0..<n]"] by simp
qed

text \<open>The moves a defragmentation makes: runs of neighbouring cells that go into the same hole.\<close>

definition defrag_move_count :: "nat \<Rightarrow> llama_kv_cache \<Rightarrow> nat" where
  "defrag_move_count max_moves c =
     (let n_kv = unat (llama_kv_cache_cell_max c) in
      case defrag_loop n_kv (unat (kv_used c)) max_moves 0
         \<lparr>df_cells = kv_cells c, df_ids = replicate n_kv n_kv, df_head = kv_head c, df_moves = 0\<rparr> of
        Inl _ \<Rightarrow> 0 | Inr st \<Rightarrow> df_moves st)"

lemma defrag_internal_run:
  assumes "kv_ok c"
  obtains st :: defrag_state where
    "llama_kv_cache_defrag_internal max_moves c =
       Inr (if df_moves st = 0 then None else Some (df_ids st), c\<lparr>kv_cells := df_cells st, kv_head := df_head st\<rparr>)"
    "defrag_result (unat (llama_kv_cache_cell_max c)) (n_used (kv_cells c)) (kv_cells c) (df_cells st) (df_ids st)"
    "df_moves st \<noteq> max_moves \<longrightarrow> (\<forall>j < n_used (kv_cells c). \<not> cell_is_empty (df_cells st ! j))"
    "0 < df_moves st \<or> df_cells st = kv_cells c" "df_head st \<in> {kv_head c, of_nat (n_used (kv_cells c))}"
    "df_moves st \<le> n_used (kv_cells c)" "df_moves st = defrag_move_count max_moves c"
proof -
  define n_kv where "n_kv = unat (llama_kv_cache_cell_max c)"
  let ?m = "n_used (kv_cells c)"
  let ?st = "\<lparr>df_cells = kv_cells c, df_ids = replicate n_kv n_kv, df_head = kv_head c, df_moves = 0\<rparr>"
  have len: "length (kv_cells c) = unat (kv_size c)" using assms by (simp add: kv_ok_def)
  have ok: "\<forall>d \<in> set (kv_cells c). cell_ok d" using assms by (simp add: kv_ok_def)
  have "cell_max_from (kv_cells c) (unat (kv_size c)) < 2 ^ 32"
    using cell_max_from_le [of "kv_cells c" "unat (kv_size c)"] assms by (simp add: kv_ok_def)
  then have n: "n_kv = cell_max_from (kv_cells c) (unat (kv_size c))" by (simp add: n_kv_def llama_kv_cache_cell_max_def unat_of_nat)
  then have n_le: "n_kv \<le> length (kv_cells c)" using cell_max_from_le len by simp
  have above: "\<forall>j. n_kv \<le> j \<and> j < length (kv_cells c) \<longrightarrow> cell_is_empty (kv_cells c ! j)"
    using cell_max_from_above [of "kv_cells c" "unat (kv_size c)"] ok unfolding n len
    by (metis cell_ok_def cell_ok_used cell_is_empty_def len nth_mem)
  have occ: "n_occupied (kv_cells c) = ?m" by (rule n_occupied_used [OF ok])
  have m_le: "?m \<le> n_kv" using n_occupied_le [OF n_le above] occ by simp
  have m: "unat (kv_used c) = ?m" by (rule kv_used_exact [OF assms])
  from defrag_loop_steps [OF n_le m_le occ above, of ?st 0 max_moves] obtain st where
    st: "defrag_loop n_kv ?m max_moves 0 ?st = Inr st"
    "(defrag_step n_kv ?m)\<^sup>*\<^sup>* (kv_cells c, replicate n_kv n_kv) (df_cells st, df_ids st)"
    "df_moves st \<noteq> max_moves \<longrightarrow> (\<forall>j < ?m. \<not> cell_is_empty (df_cells st ! j))"
    "0 < df_moves st \<or> df_cells st = kv_cells c" "df_head st \<in> {kv_head c, of_nat ?m}" "df_moves st \<le> ?m"
    using defrag_inv_init [OF n_le m_le] by auto
  have "defrag_inv n_kv ?m (kv_cells c) (df_cells st, df_ids st)"
    by (rule defrag_inv_steps [OF st(2) defrag_inv_init [OF n_le m_le] n_le m_le])
  then have res: "defrag_result n_kv ?m (kv_cells c) (df_cells st) (df_ids st)"
    using n_le m_le above by (simp add: defrag_result_def)
  have "llama_kv_cache_defrag_internal max_moves c =
       Inr (if df_moves st = 0 then None else Some (df_ids st), c\<lparr>kv_cells := df_cells st, kv_head := df_head st\<rparr>)"
    using m_le st(1) by (simp add: llama_kv_cache_defrag_internal_def Let_def m flip: n_kv_def)
  moreover have "df_moves st = defrag_move_count max_moves c"
    using st(1) by (simp add: defrag_move_count_def Let_def m flip: n_kv_def)
  ultimately show thesis using res st(3-6) unfolding n_kv_def by (intro that)
qed

lemma defrag_kv_ok:
  assumes "kv_ok c" "defrag_result n_kv (n_used (kv_cells c)) (kv_cells c) cells ids" "head \<in> {kv_head c, of_nat (n_used (kv_cells c))}"
  shows "kv_ok (c\<lparr>kv_cells := cells, kv_head := head\<rparr>)"
proof -
  note len = inv_len [OF assms(2)]
  have "\<forall>d \<in> set cells. cell_ok d"
  proof
    fix d assume "d \<in> set cells"
    then obtain j where "j < length (kv_cells c)" "d = cells ! j" using len by (metis in_set_conv_nth)
    then consider "d = llama_kv_cell_new" | "d \<in> set (kv_cells c)" using cells_come_from [OF assms(2), of j] by blast
    then show "cell_ok d" using assms(1) by cases (auto simp: cell_ok_def llama_kv_cell_new_def kv_ok_def)
  qed
  moreover have "n_occupied cells = n_occupied (kv_cells c)" using assms(2) by (simp add: defrag_result_def defrag_inv_def)
  ultimately have n: "n_used cells = n_used (kv_cells c)" "\<forall>d \<in> set cells. cell_ok d"
    using n_occupied_used assms(1) by (auto simp: kv_ok_def)
  have "n_used (kv_cells c) \<le> unat (kv_size c)" using len assms(1) by (simp add: kv_ok_def)
  then have "(of_nat (n_used (kv_cells c)) :: u32) \<le> kv_size c" by (simp add: word_le_nat_alt unat_of_nat)
  with assms(1,3) n len show ?thesis by (auto simp: kv_ok_def)
qed



text \<open>With all cells at the front, a batch fits exactly when there are free cells enough.\<close>

lemma compact_free_run:
  assumes "kv_ok c" "\<forall>j < n_used (kv_cells c). \<not> cell_is_empty (kv_cells c ! j)" "n_used (kv_cells c) \<le> length (kv_cells c)"
    and "n_used (kv_cells c) + n \<le> length (kv_cells c)"
  shows "free_run (kv_cells c) n (n_used (kv_cells c))"
proof -
  let ?m = "n_used (kv_cells c)" and ?ne = "\<lambda>i. \<not> cell_is_empty (kv_cells c ! i)"
  have ok: "\<forall>d \<in> set (kv_cells c). cell_ok d" using assms(1) by (simp add: kv_ok_def)
  have front: "length (filter ?ne [0..<?m]) = ?m" using assms(2) by (simp add: filter_id_conv)
  have all: "length (filter ?ne [0..<length (kv_cells c)]) = ?m"
    using n_occupied_used [OF ok] n_occupied_upt [of "kv_cells c"] by (simp only:)
  have "length (filter ?ne [0..<?m]) + length (filter ?ne [?m..<length (kv_cells c)]) = length (filter ?ne [0..<length (kv_cells c)])"
    by (simp only: upt_split [of 0 ?m "length (kv_cells c)"] assms(3) le0 filter_append length_append)
  then have "filter ?ne [?m..<length (kv_cells c)] = []" unfolding front all by simp
  then have e: "cell_is_empty (kv_cells c ! j)" if "?m \<le> j" "j < length (kv_cells c)" for j using that by (auto simp: filter_empty_conv)
  then have "kc_pos (kv_cells c ! (?m + i)) < 0" if "i < n" for i
    using that assms(4) ok nth_mem [of "?m + i" "kv_cells c"] by (fastforce simp: cell_ok_def cell_is_empty_def not_le)
  with assms(4) show ?thesis by (auto simp: free_run_def)
qed


definition holed_cache :: llama_kv_cache where
  "holed_cache = (sample_cache 8)\<lparr>kv_used := 5, kv_cells := map (\<lambda>i. if i \<in> {1, 2, 4} then llama_kv_cell_new
      else llama_kv_cell_new\<lparr>kc_pos := i, kc_seq_id := {0}\<rparr>) [0, 1, 2, 3, 4, 5, 6, 7]\<rparr>"

lemma holed_ok: "kv_ok holed_cache" "unat (kv_size holed_cache) \<le> 2 ^ 30"
  by (simp_all add: kv_ok_def holed_cache_def sample_cache_def cell_ok_def cell_used_def cell_is_empty_def llama_kv_cell_new_def)

definition "holed_defrag = llama_kv_cache_defrag_internal 9 holed_cache"



text \<open>C20. After a defragmentation that made another number of moves than its limit, a batch finds a slot exactly
  when there are as many free cells as it has tokens. Only the moves it makes count against the limit, not the
  cells: a full cache with few holes needs few moves.\<close>

theorem defrag_makes_room:
  assumes "kv_ok c" "unat (kv_size c) \<le> 2 ^ 30" "batch_ok b" "defrag_move_count max_moves c \<noteq> max_moves"
    and "llama_kv_cache_defrag_internal max_moves c = Inr (ids, c')"
  shows "\<exists>found c''. llama_kv_cache_find_slot c' b = Some (found, c'')
    \<and> (found \<longleftrightarrow> unat (kv_used c) + length (bt_pos b) \<le> unat (kv_size c))"
proof -
  obtain st :: defrag_state where
    r: "llama_kv_cache_defrag_internal max_moves c =
       Inr (if df_moves st = 0 then None else Some (df_ids st), c\<lparr>kv_cells := df_cells st, kv_head := df_head st\<rparr>)" and
    st: "defrag_result (unat (llama_kv_cache_cell_max c)) (n_used (kv_cells c)) (kv_cells c) (df_cells st) (df_ids st)"
    "df_moves st \<noteq> max_moves \<longrightarrow> (\<forall>j < n_used (kv_cells c). \<not> cell_is_empty (df_cells st ! j))"
    "0 < df_moves st \<or> df_cells st = kv_cells c" "df_head st \<in> {kv_head c, of_nat (n_used (kv_cells c))}"
    "df_moves st \<le> n_used (kv_cells c)" "df_moves st = defrag_move_count max_moves c"
    by (rule defrag_internal_run [OF assms(1), of max_moves])
  from r assms(5) have c': "c' = c\<lparr>kv_cells := df_cells st, kv_head := df_head st\<rparr>" by (simp only: sum.inject prod.inject)
  have ok: "kv_ok c'" unfolding c' by (rule defrag_kv_ok [OF assms(1) st(1,4)])
  have u: "unat (kv_used c) = n_used (kv_cells c)" "n_used (kv_cells c') = n_used (kv_cells c)" "kv_size c' = kv_size c"
    using kv_used_exact [OF assms(1)] kv_used_exact [OF ok] c' by simp_all
  have len: "length (kv_cells c') = unat (kv_size c)" using ok u(3) by (simp add: kv_ok_def)
  have front: "\<forall>j < n_used (kv_cells c'). \<not> cell_is_empty (kv_cells c' ! j)" using c' st(2,6) u assms(4) by simp
  have "(\<exists>s. free_run (kv_cells c') (length (bt_pos b)) s) \<longleftrightarrow> unat (kv_used c) + length (bt_pos b) \<le> unat (kv_size c)"
  proof
    assume "unat (kv_used c) + length (bt_pos b) \<le> unat (kv_size c)"
    then show "\<exists>s. free_run (kv_cells c') (length (bt_pos b)) s"
      using compact_free_run [OF ok front] u len by auto
  next
    assume "\<exists>s. free_run (kv_cells c') (length (bt_pos b)) s"
    then obtain s where s: "free_run (kv_cells c') (length (bt_pos b)) s" ..
    have lz: "length (zip (bt_pos b) (bt_seq_id b)) = length (bt_pos b)" using assms(3) by (simp add: batch_ok_def)
    have "n_used (fill_cells (kv_cells c') s (zip (bt_pos b) (bt_seq_id b))) = n_used (kv_cells c') + length (zip (bt_pos b) (bt_seq_id b))"
      using s ok assms(3) unfolding lz
      by (intro n_used_filled [THEN conjunct2, of "kv_cells c'" "zip (bt_pos b) (bt_seq_id b)" s, unfolded lz])
         (auto simp: kv_ok_def batch_ok_def dest: set_zip_leftD set_zip_rightD)
    then show "unat (kv_used c) + length (bt_pos b) \<le> unat (kv_size c)"
      using n_used_le [of "fill_cells (kv_cells c') s (zip (bt_pos b) (bt_seq_id b))"] lz u len by simp
  qed
  moreover obtain found c'' where "llama_kv_cache_find_slot c' b = Some (found, c'')"
      "found \<longleftrightarrow> (\<exists>s. free_run (kv_cells c') (length (bt_pos b)) s)"
    using find_slot_answer [OF ok _ assms(3)] assms(2) u(3) by auto
  ultimately show ?thesis by auto
qed

definition "three_tokens = \<lparr>bt_pos = [8, 9, 10], bt_seq_id = [[0], [0], [0]]\<rparr>"

text \<open>The cache of five tokens needs two moves, so a limit of three is enough.\<close>

theorem defrag_makes_room_witness:
  "case llama_kv_cache_defrag_internal 3 holed_cache of
     Inr (ids, c) \<Rightarrow> (\<exists>c'. llama_kv_cache_find_slot c three_tokens = Some (True, c'))
   | _ \<Rightarrow> False"
proof -
  obtain ids c where r: "llama_kv_cache_defrag_internal 3 holed_cache = Inr (ids, c)"
    using defrag_internal_run [OF holed_ok(1), of 3] by blast
  have moves: "defrag_move_count 3 holed_cache \<noteq> 3" by code_simp
  have b: "batch_ok three_tokens" by (simp add: batch_ok_def three_tokens_def)
  have "unat (kv_used holed_cache) + length (bt_pos three_tokens) \<le> unat (kv_size holed_cache)"
    by (simp add: holed_cache_def sample_cache_def three_tokens_def)
  with defrag_makes_room [OF holed_ok b moves r] r show ?thesis by auto
qed

end
