(* ===== verification/Kv_Window.thy ===== *)
theory Kv_Window
  imports Kv_Slots
begin

text \<open>
  The window of cells a graph attends to: the padded search for the last used cell agrees with the
  plain one when the used cells lie at the front, and may miss used cells otherwise.
\<close>

section \<open>Padding\<close>

lemma and_not_low: "(w :: u32) AND NOT (mask k) = w - take_bit k w"
proof -
  have "NOT w AND take_bit k w = 0" by (rule bit_eqI) (auto simp: bit_simps)
  then have "w - take_bit k w = w AND NOT (take_bit k w)" by (rule disjunctive_diff_eq_and_not)
  also have "\<dots> = w AND NOT (mask k)" by (rule bit_eqI) (auto simp: bit_simps)
  finally show ?thesis by simp
qed

lemma pad_up:
  assumes "n - 1 = mask k" "unat n = 2 ^ k" "unat x + 2 ^ k < 2 ^ 32"
  shows "unat (ggml_pad x n) = (unat x + 2 ^ k - 1) div 2 ^ k * 2 ^ k"
proof -
  have "unat (x + n) = unat x + 2 ^ k" using assms(2,3) by (subst unat_add_lem [THEN iffD1]) simp_all
  moreover have "1 \<le> x + n" using calculation by (simp add: word_le_nat_alt Suc_le_eq)
  ultimately have w: "unat (x + n - 1) = unat x + 2 ^ k - 1" by (simp add: unat_sub)
  have le: "take_bit k (x + n - 1) \<le> x + n - 1"
    unfolding word_le_nat_alt unsigned_take_bit_eq by (rule take_bit_nat_less_eq_self)
  have "unat (ggml_pad x n) = unat (x + n - 1) - unat (take_bit k (x + n - 1))"
    unfolding ggml_pad_def assms(1) and_not_low by (rule unat_sub [OF le])
  also have "unat (take_bit k (x + n - 1)) = (unat x + 2 ^ k - 1) mod 2 ^ k"
    unfolding unsigned_take_bit_eq w by (rule take_bit_eq_mod)
  finally show ?thesis by (simp only: w minus_mod_eq_div_mult)
qed

lemma pad_at_least:
  assumes "unat x < 2 ^ 31"
  shows "unat x \<le> unat (ggml_pad x (get_padding fa))"
proof -
  define k :: nat where "k = (if fa then 8 else 5)"
  have n: "get_padding fa - 1 = mask k" "unat (get_padding fa) = 2 ^ k"
    by (simp_all add: get_padding_def k_def mask_eq_exp_minus_1)
  have "(2::nat) ^ k \<le> 256" by (simp add: k_def)
  with assms have "unat x + 2 ^ k < 2 ^ 32" by simp
  from pad_up [OF n this] have "unat (ggml_pad x (get_padding fa)) = (unat x + 2 ^ k - 1) div 2 ^ k * 2 ^ k" .
  moreover have "a \<le> (a + d - 1) div d * d" if "0 < d" for a d :: nat
    using div_mult_mod_eq [of "a + d - 1" d] mod_less_divisor [OF that, of "a + d - 1"] by linarith
  ultimately show ?thesis by simp
qed

section \<open>The padded search\<close>

text \<open>The used cells are exactly the first \<open>k\<close>.\<close>

definition front_packed :: "llama_kv_cell list \<Rightarrow> nat \<Rightarrow> bool" where
  "front_packed cells k \<longleftrightarrow> k \<le> length cells \<and> (\<forall>j < length cells. cell_used (cells ! j) \<longleftrightarrow> j < k)"

lemma cell_max_above_front:
  "front_packed cells k \<Longrightarrow> k \<le> j \<Longrightarrow> i \<le> k \<Longrightarrow> j \<le> length cells \<Longrightarrow> cell_max_above cells i j = k"
proof (induction j)
  case (Suc j)
  show ?case
  proof (cases "Suc j = k")
    case True
    then have "cell_used (cells ! j)" using Suc.prems by (simp add: front_packed_def)
    with True Suc.prems show ?thesis by auto
  next
    case False
    then have "\<not> cell_used (cells ! j)" using Suc.prems by (simp add: front_packed_def)
    with False Suc show ?thesis by auto
  qed
qed simp

lemma cell_max_pad_from_front:
  assumes "front_packed cells k" "0 < unat pad" "unat pad dvd unat i" "unat i \<le> unat last_i" "unat last_i \<le> length cells"
    and "k < unat last_i \<or> last_i = i \<and> k \<le> unat i" "unat last_i \<le> unat i + unat pad"
  shows "cell_max_pad_from cells pad i last_i = Some (if k < unat pad then 0 else of_nat k)"
  using assms(3-7)
proof (induction "unat i" arbitrary: i last_i rule: less_induct)
  case less
  consider "i = 0" | "i \<noteq> 0" "unat i \<le> k" | "i \<noteq> 0" "k < unat i" by linarith
  then show ?case
  proof cases
    case 1
    then have "k < unat pad" using less.prems(4,5) assms(2) by auto
    with 1 show ?thesis by (subst cell_max_pad_from.simps) simp
  next
    case 2
    then have "0 < unat i" by (simp add: unat_gt_0)
    then have "unat i - 1 < k" "unat i - 1 < length cells" using 2(2) less.prems(2,3) by linarith+
    then have "cell_used (cells ! (unat i - 1))" using assms(1) by (simp add: front_packed_def)
    moreover have "unat pad \<le> k" using 2 less.prems(1) dvd_imp_le [of "unat pad" "unat i"] by (simp add: unat_gt_0)
    moreover have "k \<le> unat last_i" using less.prems(4) by auto
    ultimately show ?thesis using 2 less.prems cell_max_above_front [OF assms(1), of "unat last_i" "unat i"]
      by (subst cell_max_pad_from.simps) simp
  next
    case 3
    then have "unat i - 1 < length cells" "\<not> unat i - 1 < k" using less.prems(2,3) by (auto simp: unat_gt_0)
    then have no: "\<not> cell_used (cells ! (unat i - 1))" using assms(1) by (simp add: front_packed_def)
    have ge: "unat pad \<le> unat i" using 3 less.prems(1) dvd_imp_le [of "unat pad" "unat i"] by (simp add: unat_gt_0)
    then have sub: "unat (i - pad) = unat i - unat pad" by (simp add: unat_sub word_le_nat_alt)
    have "cell_max_pad_from cells pad (i - pad) i = Some (if k < unat pad then 0 else of_nat k)"
      using less.prems 3 ge sub assms(2) by (intro less.hyps) (simp_all add: dvd_diff_nat)
    with 3 no less.prems show ?thesis by (subst cell_max_pad_from.simps) simp
  qed
qed

lemma front_packed_max: "front_packed cells k \<Longrightarrow> n = length cells \<Longrightarrow> cell_max_from cells n = k"
proof -
  assume p: "front_packed cells k" and n: "n = length cells"
  have "k \<le> i \<Longrightarrow> i \<le> length cells \<Longrightarrow> cell_max_from cells i = k" for i
  proof (induction i)
    case (Suc i)
    show ?case
    proof (cases "Suc i = k")
      case True
      with p Suc.prems show ?thesis by (auto simp: front_packed_def)
    next
      case False
      with p Suc show ?thesis by (auto simp: front_packed_def)
    qed
  qed simp
  with p n show ?thesis by (auto simp: front_packed_def)
qed

lemma padded_cell_max:
  assumes "front_packed (kv_cells c) k" "length (kv_cells c) = unat (kv_size c)" "0 < unat pad" "unat pad dvd unat (kv_size c)"
  shows "llama_kv_cache_cell_max_pad c pad = Some (if k < unat pad then 0 else of_nat k)" and "llama_kv_cache_cell_max c = of_nat k"
proof -
  have "k \<le> unat (kv_size c)" using assms(1,2) by (simp add: front_packed_def)
  then show "llama_kv_cache_cell_max_pad c pad = Some (if k < unat pad then 0 else of_nat k)"
    unfolding llama_kv_cache_cell_max_pad_def using assms by (intro cell_max_pad_from_front) simp_all
  show "llama_kv_cache_cell_max c = of_nat k"
    using front_packed_max [OF assms(1), of "unat (kv_size c)"] assms(2) by (simp add: llama_kv_cache_cell_max_def)
qed

text \<open>When the used cells lie at the front, the window prepared for a batch covers every used cell.\<close>

theorem window_covers:
  assumes "prepare_slot fa c b = Some (True, c')" "\<not> kv_recurrent c'"
    and "front_packed (kv_cells c') k" "length (kv_cells c') = unat (kv_size c')" "unat (kv_size c') < 2 ^ 31"
    and "unat (get_padding fa) dvd unat (kv_size c')"
  shows "\<forall>j < length (kv_cells c'). cell_used (kv_cells c' ! j) \<longrightarrow> j < unat (kv_n c')"
proof -
  let ?pad = "get_padding fa"
  let ?c = "if kv_head c > kv_used c + 2 * n_tokens b then c\<lparr>kv_head := 0\<rparr> else c"
  have rec: "kv_recurrent c1 = kv_recurrent c0" if "llama_kv_cache_find_slot c0 b = Some (f, c1)" for c0 c1 f
    using that by (auto simp: llama_kv_cache_find_slot_def find_slot_recurrent_def Let_def split: if_splits option.splits prod.splits bool.splits)
  obtain c1 where c1: "llama_kv_cache_find_slot ?c b = Some (True, c1)" "\<not> kv_recurrent c1"
    "case llama_kv_cache_cell_max_pad c1 ?pad of None \<Rightarrow> False | Some mx \<Rightarrow> c' = c1\<lparr>kv_n := min (kv_size c1) (max ?pad (ggml_pad mx ?pad))\<rparr>"
    using assms(1,2) unfolding prepare_slot_def Let_def by (auto split: option.splits prod.splits bool.splits if_splits)
  have pad: "0 < unat ?pad" by (simp add: get_padding_def)
  obtain mx where mx: "llama_kv_cache_cell_max_pad c1 ?pad = Some mx" "c' = c1\<lparr>kv_n := min (kv_size c1) (max ?pad (ggml_pad mx ?pad))\<rparr>"
    using c1(3) by (auto split: option.splits)
  have k: "k \<le> unat (kv_size c1)" using assms(3,4) mx(2) by (simp add: front_packed_def)
  have mx_eq: "mx = (if k < unat ?pad then 0 else of_nat k)"
    using padded_cell_max(1) [of c1 k ?pad] assms(3,4,6) mx pad by simp
  have ks: "unat (kv_size c1) < 2 ^ 31" using assms(5) mx(2) by simp
  have "k \<le> unat (max ?pad (ggml_pad mx ?pad))"
  proof (cases "k < unat ?pad")
    case True
    then show ?thesis by (simp add: max_def word_le_nat_alt)
  next
    case False
    then have "unat mx = k" using k ks by (simp add: mx_eq unat_of_nat)
    then have "k \<le> unat (ggml_pad mx ?pad)" using pad_at_least [of mx fa] k ks by simp
    then show ?thesis by (simp add: max_def word_le_nat_alt)
  qed
  with k have "k \<le> unat (kv_n c')" by (simp add: mx(2) min_def)
  with assms(3) show ?thesis by (auto simp: front_packed_def)
qed

text \<open>64 cells: \<open>free\<close> free ones, then nine tokens of sequence 1, then free cells.\<close>

definition window_cache :: "nat \<Rightarrow> llama_kv_cache" where
  "window_cache free = (sample_cache 0)\<lparr>kv_size := 64, kv_used := 9,
     kv_cells := replicate free llama_kv_cell_new
       @ map (\<lambda>p. llama_kv_cell_new\<lparr>kc_pos := p, kc_seq_id := {1}\<rparr>) [0, 1, 2, 3, 4, 5, 6, 7, 8]
       @ replicate (55 - free) llama_kv_cell_new\<rparr>"

definition "next_token = \<lparr>bt_pos = [9], bt_seq_id = [[1]]\<rparr>"

definition "packed_result = prepare_slot False (window_cache 0) next_token"

definition "split_result = prepare_slot False (window_cache 32) next_token"

lemma packed_eval:
  "case packed_result of Some (True, c) \<Rightarrow> kv_n c = 32 \<and> \<not> kv_recurrent c \<and> kv_size c = 64 \<and> length (kv_cells c) = 64
     \<and> map cell_used (kv_cells c) = replicate 10 True @ replicate 54 False | _ \<Rightarrow> False"
  by code_simp

lemma split_eval:
  "case split_result of Some (True, c) \<Rightarrow> kv_n c = 32 \<and> kv_head c = 0 \<and> length (kv_cells c) = 64
     \<and> map cell_used (kv_cells c) = True # replicate 31 False @ replicate 9 True @ replicate 23 False | _ \<Rightarrow> False"
  by code_simp

lemma used_map: "map cell_used cells = bs \<Longrightarrow> j < length bs \<Longrightarrow> cell_used (cells ! j) = bs ! j"
  by auto

theorem window_covers_witness:
  "case prepare_slot False (window_cache 0) next_token of
     Some (True, c') \<Rightarrow> kv_n c' = 32 \<and> (\<forall>j. \<not> (j < length (kv_cells c') \<and> cell_used (kv_cells c' ! j) \<and> \<not> j < unat (kv_n c')))
   | _ \<Rightarrow> False"
proof -
  from packed_eval obtain c where r: "prepare_slot False (window_cache 0) next_token = Some (True, c)" "kv_n c = 32" "\<not> kv_recurrent c"
    "kv_size c = 64" "length (kv_cells c) = 64" "map cell_used (kv_cells c) = replicate 10 True @ replicate 54 False"
    by (auto simp: packed_result_def split: option.splits prod.splits bool.splits)
  have "front_packed (kv_cells c) 10"
    using used_map [OF r(6)] r(5) by (auto simp: front_packed_def nth_append)
  from window_covers [OF r(1,3) this] r(4,5) have "\<forall>j < length (kv_cells c). cell_used (kv_cells c ! j) \<longrightarrow> j < unat (kv_n c)"
    by (simp add: get_padding_def)
  with r(1,2) show ?thesis by simp
qed

lemma window_cache_ok: "kv_ok (window_cache 32)"
  by (simp add: kv_ok_def window_cache_def sample_cache_def cell_ok_def llama_kv_cell_new_def n_used_def cell_used_def cell_is_empty_def)

text \<open>When cells at the front are free, the window prepared for a batch can miss cells the batch's own
  sequence uses.\<close>

theorem window_misses_cells:
  "kv_ok (window_cache 32) \<and> (case prepare_slot False (window_cache 32) next_token of
     Some (True, c') \<Rightarrow> unat (kv_n c') = 32 \<and> 40 < length (kv_cells c') \<and> cell_used (kv_cells c' ! 40)
   | _ \<Rightarrow> False)"
proof -
  from split_eval obtain c where r: "prepare_slot False (window_cache 32) next_token = Some (True, c)" "kv_n c = 32" "length (kv_cells c) = 64"
    "map cell_used (kv_cells c) = True # replicate 31 False @ replicate 9 True @ replicate 23 False"
    by (auto simp: split_result_def split: option.splits prod.splits bool.splits)
  then show ?thesis using used_map [OF r(4), of 40] window_cache_ok by (simp add: nth_append)
qed

end
