(* ===== verification/Context_Shift.thy ===== *)
theory Context_Shift
  imports Kv_Ops
begin

text \<open>
  The clients of the sequence operations in the generation loop of \<open>examples/main/main.cpp\<close>
  (and \<open>server_context::extend_context\<close>): the context shift and the self-extension, over any
  store that keeps the contract, and on the cache.
\<close>

section \<open>The cells and positions of one sequence\<close>

definition seq_cells :: "int \<Rightarrow> (nat \<times> int \<times> int) set \<Rightarrow> (nat \<times> int) set" where
  "seq_cells q E = {(i, p). (i, q, p) \<in> E}"

definition moved :: "(int \<Rightarrow> int) \<Rightarrow> (nat \<times> int) set \<Rightarrow> (nat \<times> int) set" where
  "moved f X = (\<lambda>(i, p). (i, f p)) ` X"

lemma moved_moved [simp]: "moved f (moved g X) = moved (\<lambda>p. f (g p)) X"
  by (auto simp: moved_def image_image case_prod_beta)

lemma moved_all: "(\<forall>(i, p) \<in> moved f X. P p) \<longleftrightarrow> (\<forall>(i, p) \<in> X. P (f p))"
  by (auto simp: moved_def)

lemma moved_cong: "(\<And>i p. (i, p) \<in> X \<Longrightarrow> f p = g p) \<Longrightarrow> moved f X = moved g X"
  by (force simp: moved_def)

lemma seq_cells_rm: "0 \<le> q \<Longrightarrow> 0 \<le> p0 \<Longrightarrow> 0 \<le> p1 \<Longrightarrow>
    seq_cells q (kv_spec (Kv_rm q p0 p1) E) = {(i, p) \<in> seq_cells q E. \<not> (p0 \<le> p \<and> p < p1)}"
  by (auto simp: seq_cells_def pos_in_def range_start_def range_end_def)

lemma seq_cells_repos:
  assumes "0 \<le> p0" "0 \<le> p1" "\<forall>(i, p) \<in> seq_cells q E. 0 \<le> (if p0 \<le> p \<and> p < p1 then f p else p)"
  shows "seq_cells q (repos E q p0 p1 f) = moved (\<lambda>p. if p0 \<le> p \<and> p < p1 then f p else p) (seq_cells q E)"
proof -
  have "(i, p') \<in> seq_cells q (repos E q p0 p1 f) \<longleftrightarrow>
      (\<exists>p. (i, p) \<in> seq_cells q E \<and> p' = (if p0 \<le> p \<and> p < p1 then f p else p) \<and> p' \<ge> 0)" for i p'
    using assms(1,2) by (auto simp: seq_cells_def repos_def pos_in_def range_start_def range_end_def)
  with assms(3) show ?thesis by (force simp: moved_def)
qed

section \<open>The two loops\<close>

definition context_shift :: "(kv_op \<Rightarrow> 's \<Rightarrow> (bool \<times> 's) kv) \<Rightarrow> int \<Rightarrow> int \<Rightarrow> 's \<Rightarrow> (int \<times> 's) kv" where
  "context_shift run n_keep n_past s =
     (let n_left = n_past - n_keep; n_discard = c_div n_left 2 in
      ebind (run (Kv_rm 0 n_keep (n_keep + n_discard)) s) (\<lambda>(_, s).
      ebind (run (Kv_add 0 (n_keep + n_discard) n_past (- n_discard)) s) (\<lambda>(_, s).
        Inr (n_past - n_discard, s))))"

definition extend_round ::
  "(kv_op \<Rightarrow> 's \<Rightarrow> (bool \<times> 's) kv) \<Rightarrow> int \<Rightarrow> int \<Rightarrow> int \<Rightarrow> int \<Rightarrow> 's \<Rightarrow> (int \<times> int \<times> 's) kv" where
  "extend_round run ga_n ga_w ga_i n_past s =
     (if ga_w = 0 \<or> ga_n = 0 then Inl (Kv_Assert ''division by zero'')
      else
        let ib = c_div (ga_n * ga_i) ga_w; bd = c_div ga_w ga_n * (ga_n - 1); dd = c_div ga_w ga_n - ib * bd - ga_w in
        ebind (run (Kv_add 0 ga_i n_past (ib * bd)) s) (\<lambda>(_, s).
        ebind (run (Kv_div 0 (ga_i + ib * bd) (ga_i + ib * bd + ga_w) ga_n) s) (\<lambda>(_, s).
        ebind (run (Kv_add 0 (ga_i + ib * bd + ga_w) (n_past + ib * bd) dd) s) (\<lambda>(_, s).
          Inr (ga_i + c_div ga_w ga_n, n_past - bd, s)))))"

partial_function (option) self_extend ::
  "(kv_op \<Rightarrow> 's \<Rightarrow> (bool \<times> 's) kv) \<Rightarrow> int \<Rightarrow> int \<Rightarrow> int \<Rightarrow> int \<Rightarrow> 's \<Rightarrow> (int \<times> int \<times> 's) kv option" where
  "self_extend run ga_n ga_w ga_i n_past s =
     (if n_past \<ge> ga_i + ga_w then
        case extend_round run ga_n ga_w ga_i n_past s of
          Inl e \<Rightarrow> Some (Inl e)
        | Inr (ga_i, n_past, s) \<Rightarrow> self_extend run ga_n ga_w ga_i n_past s
      else Some (Inr (ga_i, n_past, s)))"

declare self_extend.simps [code]

lemma c_div_nonneg: "0 \<le> a \<Longrightarrow> 0 < d \<Longrightarrow> c_div a d = a div d"
  by (auto simp: c_div_def sgn_if)

text \<open>Where the rounds of the self-extension move a position.\<close>

definition grouped :: "int \<Rightarrow> int \<Rightarrow> int \<Rightarrow> int \<Rightarrow> int \<Rightarrow> int" where
  "grouped ga_n ga_w ga_i rounds p =
     (if p < ga_i then p
      else if p < ga_i + rounds * ga_w then ga_i + (p - ga_i) div ga_n
      else p - rounds * (ga_w - ga_w div ga_n))"

lemma div_int_pos_less: "0 < d \<Longrightarrow> a < d * b \<Longrightarrow> a div d < (b::int)"
  by (smt (verit) mult_less_cancel_left_pos nonzero_mult_div_cancel_left pos_mod_sign minus_mod_eq_mult_div minus_mult_div_eq_mod)

lemma grouped_0 [simp]: "moved (grouped ga_n ga_w ga_i 0) X = X"
proof -
  have "grouped ga_n ga_w ga_i 0 = (\<lambda>p. p)" by (auto simp: grouped_def fun_eq_iff)
  then show ?thesis by (simp add: moved_def case_prod_beta)
qed

lemma group_bounds:
  assumes "2 \<le> ga_n" "ga_w = ga_n * g" "ga_i \<le> p" "p < ga_i + ga_w"
  shows "0 \<le> (p - ga_i) div ga_n" "(p - ga_i) div ga_n < (g::int)"
  using assms div_int_pos_less [of ga_n "p - ga_i" g] by (simp_all add: pos_imp_zdiv_nonneg_iff)

lemma grouped_Suc:
  assumes "2 \<le> ga_n" "0 < g" "ga_w = ga_n * g" "0 \<le> rounds"
  shows "grouped ga_n ga_w (ga_i + g) rounds (grouped ga_n ga_w ga_i 1 p) = grouped ga_n ga_w ga_i (rounds + 1) p"
proof -
  have w: "ga_w div ga_n = g" "0 < ga_w" using assms by simp_all
  have rw: "0 \<le> rounds * ga_w" using w assms(4) by simp
  consider "p < ga_i" | "ga_i \<le> p" "p < ga_i + ga_w" | "ga_i + ga_w \<le> p" by linarith
  then show ?thesis
  proof cases
    case 1
    with assms(2) show ?thesis by (simp add: grouped_def)
  next
    case 2
    with group_bounds [OF assms(1,3) 2] rw show ?thesis by (simp add: grouped_def distrib_right)
  next
    case 3
    have "(p - ga_i - ga_w) div ga_n = (p - ga_i) div ga_n - g"
      using assms(1) div_mult_self2 [of ga_n "p - ga_i" "- g"] by (simp add: assms(3))
    then have e: "g + (p - (ga_i + ga_w)) div ga_n = (p - ga_i) div ga_n" by (simp add: diff_diff_eq)
    have m: "grouped ga_n ga_w ga_i 1 p = p - ga_w + g" using 3 w by (simp add: grouped_def)
    from 3 w rw show ?thesis unfolding m
      by (auto simp: grouped_def distrib_right algebra_simps simp flip: e)
  qed
qed

lemma grouped_bounds:
  assumes "2 \<le> ga_n" "0 < g" "ga_w = ga_n * g" "0 \<le> ga_i" "ga_i + ga_w \<le> n_past" "0 \<le> p" "p < n_past"
  shows "0 \<le> grouped ga_n ga_w ga_i 1 p \<and> grouped ga_n ga_w ga_i 1 p < n_past - (ga_w - g)"
proof -
  have w: "ga_w div ga_n = g" "0 < ga_w" using assms by simp_all
  consider "p < ga_i" | "ga_i \<le> p" "p < ga_i + ga_w" | "ga_i + ga_w \<le> p" by linarith
  then show ?thesis
  proof cases
    case 2
    with group_bounds [OF assms(1,3) 2] assms(4-6) show ?thesis by (simp add: grouped_def)
  next
    case 3
    moreover have "g \<le> ga_w" using assms(1-3) by (simp add: mult_le_cancel_right1)
    moreover have "\<not> p < ga_i" "\<not> p < ga_i + ga_w" using 3 w(2) by simp_all
    ultimately show ?thesis using assms(4,6,7) assms(2) w by (simp add: grouped_def)
  qed (use assms w in \<open>simp_all add: grouped_def\<close>)
qed

section \<open>On any store\<close>

context sequence_store
begin

lemma rm_cells:
  assumes "ok s" "run (Kv_rm q p0 p1) s = Inr (b, s')" "0 \<le> q" "0 \<le> p0" "0 \<le> p1"
  shows "ok s' \<and> seq_cells q (entries s') = {(i, p) \<in> seq_cells q (entries s). \<not> (p0 \<le> p \<and> p < p1)}"
  using step [OF assms(1) allowed_rm assms(2)] seq_cells_rm [OF assms(3-5)] by simp

lemma add_cells:
  assumes "ok s" "run (Kv_add q p0 p1 delta) s = Inr (b, s')" "0 \<le> p0" "0 \<le> p1"
    and "\<forall>(i, p) \<in> seq_cells q (entries s). 0 \<le> (if p0 \<le> p \<and> p < p1 then p + delta else p)"
  shows "ok s' \<and> seq_cells q (entries s') = moved (\<lambda>p. if p0 \<le> p \<and> p < p1 then p + delta else p) (seq_cells q (entries s))"
  using step [OF assms(1) allowed_add assms(2)] seq_cells_repos [OF assms(3-5)] by simp

lemma div_cells:
  assumes "ok s" "run (Kv_div q p0 p1 d) s = Inr (b, s')" "0 \<le> p0" "0 \<le> p1" "0 < d"
    and "\<forall>(i, p) \<in> seq_cells q (entries s). 0 \<le> p"
  shows "ok s' \<and> seq_cells q (entries s') = moved (\<lambda>p. if p0 \<le> p \<and> p < p1 then p div d else p) (seq_cells q (entries s))"
proof -
  have "\<forall>(i, p) \<in> seq_cells q (entries s). 0 \<le> (if p0 \<le> p \<and> p < p1 then p div d else p)"
    using assms(5,6) by (auto simp: pos_imp_zdiv_nonneg_iff)
  with step [OF assms(1) allowed_div [OF assms(5)] assms(2)] seq_cells_repos [OF assms(3,4)] show ?thesis by simp
qed

lemma context_shift_cells:
  assumes "ok s" "0 \<le> n_keep" "n_keep \<le> n_past" "\<forall>(i, p) \<in> seq_cells 0 (entries s). 0 \<le> p \<and> p < n_past"
    and "context_shift run n_keep n_past s = Inr (n_past', s')" and "d = (n_past - n_keep) div 2"
  shows "ok s' \<and> n_past' = n_past - d \<and> seq_cells 0 (entries s') =
    moved (\<lambda>p. if n_keep \<le> p then p - d else p) {(i, p) \<in> seq_cells 0 (entries s). \<not> (n_keep \<le> p \<and> p < n_keep + d)}"
proof -
  have d: "c_div (n_past - n_keep) 2 = d" "0 \<le> d" "d \<le> n_past - n_keep" using assms(3,6) by (auto simp: c_div_nonneg)
  from assms(5) obtain b s1 b' where
    r: "run (Kv_rm 0 n_keep (n_keep + d)) s = Inr (b, s1)" "run (Kv_add 0 (n_keep + d) n_past (- d)) s1 = Inr (b', s')" "n_past' = n_past - d"
    by (auto simp: context_shift_def d(1) Let_def ebind_Inr_iff)
  have one: "ok s1" "seq_cells 0 (entries s1) = {(i, p) \<in> seq_cells 0 (entries s). \<not> (n_keep \<le> p \<and> p < n_keep + d)}"
    using rm_cells [OF assms(1) r(1)] assms(2) d(2) by auto
  have pos: "\<forall>(i, p) \<in> seq_cells 0 (entries s1). 0 \<le> (if n_keep + d \<le> p \<and> p < n_past then p + - d else p)"
    using one(2) assms(2,4) by auto
  have two: "ok s' \<and> seq_cells 0 (entries s') = moved (\<lambda>p. if n_keep + d \<le> p \<and> p < n_past then p + - d else p) (seq_cells 0 (entries s1))"
    using assms(2,3) d(2) by (intro add_cells [OF one(1) r(2)] pos) auto
  moreover have "moved (\<lambda>p. if n_keep + d \<le> p \<and> p < n_past then p + - d else p) (seq_cells 0 (entries s1))
      = moved (\<lambda>p. if n_keep \<le> p then p - d else p) (seq_cells 0 (entries s1))"
    using assms(4) d(2) by (intro moved_cong) (auto simp: one(2))
  ultimately show ?thesis using r(3) one(2) by simp
qed

lemma extend_round_cells:
  assumes "ok s" "2 \<le> ga_n" "0 < g" "ga_w = ga_n * g" "ga_i = k * g" "0 \<le> k" "ga_i + ga_w \<le> n_past"
    and "\<forall>(i, p) \<in> seq_cells 0 (entries s). 0 \<le> p \<and> p < n_past"
    and "extend_round run ga_n ga_w ga_i n_past s = Inr (ga_i', n_past', s')"
  shows "ok s' \<and> ga_i' = ga_i + g \<and> n_past' = n_past - (ga_w - g)
    \<and> seq_cells 0 (entries s') = moved (grouped ga_n ga_w ga_i 1) (seq_cells 0 (entries s))"
proof -
  have w: "0 < ga_w" "ga_w div ga_n = g" using assms(2-4) by simp_all
  have "ga_n * ga_i = k * ga_w" by (simp add: assms(4,5))
  then have ib: "c_div (ga_n * ga_i) ga_w = k" using w(1) assms(6) by (simp add: c_div_nonneg)
  have g: "c_div ga_w ga_n = g" using w assms(2) by (simp add: c_div_nonneg)
  have bd: "g * (ga_n - 1) = ga_w - g" by (simp add: assms(4) algebra_simps)
  define A where "A = k * (ga_w - g)"
  have iA: "ga_i + A = k * ga_w" by (simp add: A_def assms(5) algebra_simps)
  have A: "0 \<le> A" "0 \<le> ga_i" using assms(2-6) bd by (simp_all add: A_def)
  have gw: "g \<le> ga_w" using bd assms(2,3) mult_nonneg_nonneg [of g "ga_n - 1"] by linarith
  have nz: "ga_w \<noteq> 0" "ga_n \<noteq> 0" using w(1) assms(2) by auto
  from assms(9) obtain b1 s1 b2 s2 b3 where
    r: "run (Kv_add 0 ga_i n_past A) s = Inr (b1, s1)" "run (Kv_div 0 (k * ga_w) (k * ga_w + ga_w) ga_n) s1 = Inr (b2, s2)"
       "run (Kv_add 0 (k * ga_w + ga_w) (n_past + A) (g - A - ga_w)) s2 = Inr (b3, s')"
       "ga_i' = ga_i + g" "n_past' = n_past - (ga_w - g)"
    unfolding extend_round_def using nz by (auto simp: Let_def ebind_Inr_iff ib g bd iA simp flip: A_def)
  let ?X = "seq_cells 0 (entries s)"
  let ?f1 = "\<lambda>p. if ga_i \<le> p \<and> p < n_past then p + A else p"
  let ?f2 = "\<lambda>p. if k * ga_w \<le> p \<and> p < k * ga_w + ga_w then p div ga_n else p"
  let ?f3 = "\<lambda>p. if k * ga_w + ga_w \<le> p \<and> p < n_past + A then p + (g - A - ga_w) else p"
  have kw: "0 \<le> k * ga_w" using assms(6) w(1) by simp
  have f1: "?f1 p = (if ga_i \<le> p then p + A else p)" if "(i, p) \<in> ?X" for i p using assms(8) that by auto
  have one: "ok s1 \<and> seq_cells 0 (entries s1) = moved ?f1 ?X"
    using A assms(7,8) w(1) by (intro add_cells [OF assms(1) r(1)]) auto
  have pos1: "0 \<le> p" if "(i, p) \<in> moved ?f1 ?X" for i p using that assms(8) A by (auto simp: moved_def split: if_splits)
  have two: "ok s2 \<and> seq_cells 0 (entries s2) = moved ?f2 (seq_cells 0 (entries s1))"
    using kw w(1) assms(2) one pos1 by (intro div_cells [OF _ r(2)]) auto
  have step: "?f3 (?f2 (?f1 p)) = grouped ga_n ga_w ga_i 1 p \<and> 0 \<le> grouped ga_n ga_w ga_i 1 p" if x: "(i, p) \<in> ?X" for i p
  proof -
    have p: "0 \<le> p" "p < n_past" using assms(8) x by auto
    have d: "(p + A) div ga_n = ga_i + (p - ga_i) div ga_n"
    proof -
      have "p + A = (p - ga_i) + ga_n * ga_i" using iA by (simp add: assms(4,5) algebra_simps)
      moreover have "((p - ga_i) + ga_n * ga_i) div ga_n = ga_i + (p - ga_i) div ga_n"
        using assms(2) by (intro div_mult_self2) simp
      ultimately show ?thesis by (simp only:)
    qed
    consider "p < ga_i" | "ga_i \<le> p" "p < ga_i + ga_w" | "ga_i + ga_w \<le> p" by linarith
    then show ?thesis
    proof cases
      case 1
      then have "p < k * ga_w" using A(1) iA by linarith
      with 1 p w(1) show ?thesis by (simp add: grouped_def)
    next
      case 2
      then have r: "k * ga_w \<le> p + A" "p + A < k * ga_w + ga_w" using iA by linarith+
      define x where "x = (p - ga_i) div ga_n"
      have "x < g" unfolding x_def using 2(2) assms(2,4) by (intro div_int_pos_less) auto
      moreover have x: "0 \<le> x" using 2(1) assms(2) by (simp add: x_def pos_imp_zdiv_nonneg_iff)
      moreover note gw
      ultimately have "ga_i + x < k * ga_w + ga_w" using A(1) iA by linarith
      then have f3: "?f3 (ga_i + x) = ga_i + x" by simp
      have f2: "?f2 (p + A) = ga_i + x" using r d by (simp add: x_def)
      have f1: "?f1 p = p + A" using 2(1) p(2) by simp
      have "?f3 (?f2 (?f1 p)) = ga_i + x" by (simp only: f1 f2 f3)
      with 2 x A(2) show ?thesis by (simp add: grouped_def x_def)
    next
      case 3
      then have "\<not> p + A < k * ga_w + ga_w" using iA by linarith
      with 3 p A w gw assms(3) show ?thesis by (simp add: grouped_def)
    qed
  qed
  have three: "ok s' \<and> seq_cells 0 (entries s') = moved ?f3 (seq_cells 0 (entries s2))"
  proof (rule add_cells [OF _ r(3)])
    show "ok s2" using two by simp
    show "0 \<le> k * ga_w + ga_w" "0 \<le> n_past + A" using kw w(1) A assms(7) by simp_all
    have "0 \<le> ?f3 (?f2 (?f1 p))" if "(i, p) \<in> ?X" for i p using step [OF that] by (elim conjE) (simp only:)
    then have "\<forall>(i, p) \<in> moved (\<lambda>p. ?f2 (?f1 p)) ?X. 0 \<le> ?f3 p" by (auto simp only: moved_all)
    then show "\<forall>(i, p) \<in> seq_cells 0 (entries s2). 0 \<le> ?f3 p" using one two by (simp only: moved_moved)
  qed
  have "moved (\<lambda>p. ?f3 (?f2 (?f1 p))) ?X = moved (grouped ga_n ga_w ga_i 1) ?X"
    by (rule moved_cong) (rule step [THEN conjunct1])
  with one two three r(4,5) show ?thesis by (simp only: moved_moved)
qed

lemma self_extend_cells:
  assumes "2 \<le> ga_n" "0 < g" "ga_w = ga_n * g"
  shows "ok s \<Longrightarrow> ga_i = k * g \<Longrightarrow> 0 \<le> k \<Longrightarrow> \<forall>(i, p) \<in> seq_cells 0 (entries s). 0 \<le> p \<and> p < n_past \<Longrightarrow>
    n_past - ga_i < (int rounds + 1) * ga_w \<Longrightarrow> rounds = 0 \<or> int rounds * ga_w \<le> n_past - ga_i \<Longrightarrow>
    \<exists>r. self_extend run ga_n ga_w ga_i n_past s = Some r \<and> (\<forall>ga_i' n_past' s'. r = Inr (ga_i', n_past', s') \<longrightarrow>
      ok s' \<and> ga_i' = ga_i + int rounds * g \<and> n_past' = n_past - int rounds * (ga_w - g)
      \<and> seq_cells 0 (entries s') = moved (grouped ga_n ga_w ga_i (int rounds)) (seq_cells 0 (entries s)))"
proof (induction rounds arbitrary: ga_i n_past s k)
  case 0
  then have "self_extend run ga_n ga_w ga_i n_past s = Some (Inr (ga_i, n_past, s))"
    by (subst self_extend.simps) simp
  with 0 show ?case by (simp add: grouped_0)
next
  case (Suc K)
  have w: "g \<le> ga_w" "0 < ga_w" using assms by (simp_all add: mult_le_cancel_right1)
  have more: "ga_i + ga_w \<le> n_past" 

  proof -
    have "ga_w + int K * ga_w \<le> n_past - ga_i" using Suc.prems(6) by (simp add: distrib_right)
    moreover have "0 \<le> int K * ga_w" using w by simp
    ultimately show ?thesis by linarith
  qed
  show ?case
  proof (cases "extend_round run ga_n ga_w ga_i n_past s")
    case (Inl e)
    with more show ?thesis by (subst self_extend.simps) simp
  next
    case (Inr t)
    obtain ga_i1 n_past1 s1 where t: "t = (ga_i1, n_past1, s1)" by (metis prod_cases3)
    from extend_round_cells [OF Suc.prems(1) assms Suc.prems(2,3) more Suc.prems(4) Inr [unfolded t]]
    have r: "ok s1" "ga_i1 = ga_i + g" "n_past1 = n_past - (ga_w - g)"
      "seq_cells 0 (entries s1) = moved (grouped ga_n ga_w ga_i 1) (seq_cells 0 (entries s))" by simp_all
    have "0 \<le> ga_i" using Suc.prems(2,3) assms(2) by simp
    then have pos: "\<forall>(i, p) \<in> seq_cells 0 (entries s1). 0 \<le> p \<and> p < n_past1"
      unfolding r(3,4) moved_all using Suc.prems(4) grouped_bounds [OF assms(1-3) _ more] by fastforce
    have "\<exists>r. self_extend run ga_n ga_w ga_i1 n_past1 s1 = Some r \<and> (\<forall>ga_i' n_past' s'. r = Inr (ga_i', n_past', s') \<longrightarrow>
      ok s' \<and> ga_i' = ga_i1 + int K * g \<and> n_past' = n_past1 - int K * (ga_w - g)
      \<and> seq_cells 0 (entries s') = moved (grouped ga_n ga_w ga_i1 (int K)) (seq_cells 0 (entries s1)))"
    proof (rule Suc.IH [OF r(1) _ _ pos, where k = "k + 1"])
      show "ga_i1 = (k + 1) * g" "0 \<le> k + 1" using Suc.prems(2,3) r(2) by (simp_all add: algebra_simps)
      show "n_past1 - ga_i1 < (int K + 1) * ga_w" "K = 0 \<or> int K * ga_w \<le> n_past1 - ga_i1"
        using Suc.prems(5,6) r(2,3) by (simp_all add: algebra_simps)
    qed
    moreover have "self_extend run ga_n ga_w ga_i n_past s = self_extend run ga_n ga_w ga_i1 n_past1 s1"
      using more Inr t by (subst self_extend.simps) simp
    moreover have "grouped ga_n ga_w (ga_i + g) (int K) (grouped ga_n ga_w ga_i 1 p) = grouped ga_n ga_w ga_i (int K + 1) p" for p
      using grouped_Suc [OF assms, of "int K"] by simp
    ultimately show ?thesis using r(2-4) by (auto simp: algebra_simps)
  qed
qed

end

section \<open>On the cache\<close>

lemma moved_snd: "snd ` moved f X = f ` snd ` X"
  by (auto simp: moved_def image_image case_prod_beta)

lemma snd_bounds: "snd ` X = {0..<n::int} \<Longrightarrow> \<forall>(i, p) \<in> X. 0 \<le> p \<and> p < n"
  by (force simp: set_eq_iff)

lemma shifted_window:
  fixes d n_keep n_past :: int
  assumes "0 \<le> n_keep" "0 \<le> d" "n_keep + d \<le> n_past"
  shows "(\<lambda>p. if n_keep \<le> p then p - d else p) ` ({0..<n_past} - {n_keep..<n_keep + d}) = {0..<n_past - d}"
proof (intro equalityI subsetI)
  fix y assume y: "y \<in> {0..<n_past - d}"
  let ?p = "if y < n_keep then y else y + d"
  have "?p \<in> {0..<n_past} - {n_keep..<n_keep + d}" "y = (if n_keep \<le> ?p then ?p - d else ?p)" using y assms by auto
  then show "y \<in> (\<lambda>p. if n_keep \<le> p then p - d else p) ` ({0..<n_past} - {n_keep..<n_keep + d})" by (rule rev_image_eqI)
qed (use assms in auto)

lemma grouped_window:
  assumes "2 \<le> ga_n" "0 < g" "ga_w = ga_n * g" "0 \<le> ga_i" "0 \<le> rounds" "ga_i + rounds * ga_w \<le> n_past"
  shows "grouped ga_n ga_w ga_i rounds ` {0..<n_past} = {0..<n_past - rounds * (ga_w - g)}"
proof (intro equalityI subsetI)
  have w: "ga_w div ga_n = g" "ga_n \<noteq> 0" "0 \<le> rounds * ga_w" using assms by simp_all
  have split: "rounds * (ga_w - g) = rounds * ga_w - rounds * g" "0 \<le> rounds * g" "rounds * ga_w = ga_n * (rounds * g)"
    using assms by (simp_all add: algebra_simps)
  {
    fix y assume "y \<in> grouped ga_n ga_w ga_i rounds ` {0..<n_past}"
    then obtain p where p: "0 \<le> p" "p < n_past" "y = grouped ga_n ga_w ga_i rounds p" by auto
    show "y \<in> {0..<n_past - rounds * (ga_w - g)}"
    proof (cases "ga_i \<le> p \<and> p < ga_i + rounds * ga_w")
      case True
      then have "0 \<le> (p - ga_i) div ga_n" "(p - ga_i) div ga_n < rounds * g"
        using assms(1) split(3) div_int_pos_less [of ga_n "p - ga_i" "rounds * g"] by (simp_all add: pos_imp_zdiv_nonneg_iff)
      with True p(3) assms(4,6) split(1,2) show ?thesis by (auto simp: grouped_def)
    next
      case False
      with p assms(4,6) split(1,2) w show ?thesis by (auto simp: grouped_def)
    qed
  next
    fix y assume y: "y \<in> {0..<n_past - rounds * (ga_w - g)}"
    consider "y < ga_i" | "ga_i \<le> y" "y < ga_i + rounds * g" | "ga_i + rounds * g \<le> y" by linarith
    then show "y \<in> grouped ga_n ga_w ga_i rounds ` {0..<n_past}"
    proof cases
      case 1
      moreover have "y < n_past" using 1 w(3) assms(6) by linarith
      ultimately show ?thesis using y by (intro image_eqI [of _ _ y]) (auto simp: grouped_def)
    next
      case 2
      let ?p = "ga_i + ga_n * (y - ga_i)"
      have "ga_n * (y - ga_i) < ga_n * (rounds * g)" "0 \<le> ga_n * (y - ga_i)" using 2 assms(1) by simp_all
      then have "?p \<in> {0..<n_past}" "y = grouped ga_n ga_w ga_i rounds ?p"
        using 2 assms(4,6) w(2) unfolding grouped_def split(3) by auto
      then show ?thesis by (rule rev_image_eqI)
    next
      case 3
      let ?p = "y + rounds * (ga_w - g)"
      have "?p \<in> {0..<n_past}" "y = grouped ga_n ga_w ga_i rounds ?p"
        using 3 y assms(4) split(1,2) w by (auto simp: grouped_def split(1) split(3))
      then show ?thesis by (rule rev_image_eqI)
    qed
  }
qed

definition "extend_result = self_extend kv_exec 2 4 0 8 (sample_cache 8)"

lemma extend_eval: "case extend_result of Some (Inr (i, n, c)) \<Rightarrow> i = 4 \<and> n = 4 \<and> map kc_pos (kv_cells c) = [0, 0, 1, 1, 2, 2, 3, 3] | _ \<Rightarrow> False"
  by code_simp

text \<open>The context shift of the generation loop keeps the positions of the sequence contiguous.\<close>

theorem context_shift_contiguous:
  assumes "kv_plain c" and "snd ` seq_cells 0 (kv_entries c) = {0..<n_past}"
    and "0 \<le> n_keep" "n_keep \<le> n_past" and "context_shift kv_exec n_keep n_past c = Inr (n_past', c')"
  shows "kv_plain c' \<and> n_past' = n_past - (n_past - n_keep) div 2
    \<and> seq_cells 0 (kv_entries c') =
       moved (\<lambda>p. if n_keep \<le> p then p - (n_past - n_keep) div 2 else p)
         {(i, p) \<in> seq_cells 0 (kv_entries c). \<not> (n_keep \<le> p \<and> p < n_keep + (n_past - n_keep) div 2)}
    \<and> snd ` seq_cells 0 (kv_entries c') = {0..<n_past'}"
proof -
  define d where "d = (n_past - n_keep) div 2"
  have d: "0 \<le> d" "n_keep + d \<le> n_past" using assms(4) by (simp_all add: d_def)
  let ?X = "seq_cells 0 (kv_entries c)"
  have r: "kv_plain c' \<and> n_past' = n_past - d \<and> seq_cells 0 (kv_entries c') =
      moved (\<lambda>p. if n_keep \<le> p then p - d else p) {(i, p) \<in> ?X. \<not> (n_keep \<le> p \<and> p < n_keep + d)}"
    by (rule kv.context_shift_cells [OF assms(1,3,4) snd_bounds [OF assms(2)] assms(5) d_def])
  have "snd ` {(i, p) \<in> ?X. \<not> (n_keep \<le> p \<and> p < n_keep + d)} = snd ` ?X - {n_keep..<n_keep + d}" by force
  then have "snd ` seq_cells 0 (kv_entries c') = {0..<n_past'}"
    using r shifted_window [OF assms(3) d] by (simp only: moved_snd assms(2))
  with r show ?thesis by (simp only: d_def)
qed

lemma seq_cells_code [code]: "seq_cells q E = (\<lambda>(i, s, p). (i, p)) ` Set.filter (\<lambda>(i, s, p). s = q) E"
  by (force simp: seq_cells_def)

lemma sample_positions: "snd ` seq_cells 0 (kv_entries (sample_cache 8)) = {0..<8}"
  by code_simp

definition "shift_result = context_shift kv_exec 2 8 (sample_cache 8)"

lemma shift_eval: "case shift_result of Inl e \<Rightarrow> False | Inr (n, c) \<Rightarrow> n = 5 \<and> map kc_pos (kv_cells c) = [0, 1, -1, -1, -1, 2, 3, 4]"
  by code_simp

theorem context_shift_contiguous_witness:
  "case context_shift kv_exec 2 8 (sample_cache 8) of Inl e \<Rightarrow> False | Inr (n_past', c') \<Rightarrow>
    n_past' = 5 \<and> kv_plain c' \<and> map kc_pos (kv_cells c') = [0, 1, -1, -1, -1, 2, 3, 4] \<and> snd ` seq_cells 0 (kv_entries c') = {0..<5}"
proof -
  from shift_eval obtain c' where r: "context_shift kv_exec 2 8 (sample_cache 8) = Inr (5, c')"
    "map kc_pos (kv_cells c') = [0, 1, -1, -1, -1, 2, 3, 4]"
    by (auto simp: shift_result_def split: sum.splits prod.splits)
  have "kv_plain c' \<and> snd ` seq_cells 0 (kv_entries c') = {0..<5}"
    using context_shift_contiguous [OF sample_plain sample_positions _ _ r(1)] by auto
  with r show ?thesis by simp
qed

text \<open>C21. The self-extension loop returns and keeps the positions contiguous, in groups of \<open>ga_n\<close>.\<close>

theorem self_extend_contiguous:
  assumes "kv_plain c" and "snd ` seq_cells 0 (kv_entries c) = {0..<n_past}"
    and "2 \<le> ga_n" "0 < g" "ga_w = ga_n * g" "ga_i = k * g" "0 \<le> k" "ga_i \<le> n_past"
  shows "\<exists>r. self_extend kv_exec ga_n ga_w ga_i n_past c = Some r \<and> (\<forall>ga_i' n_past' c'. r = Inr (ga_i', n_past', c') \<longrightarrow>
    (let rounds = (n_past - ga_i) div ga_w in
      kv_plain c' \<and> ga_i' = ga_i + rounds * g \<and> n_past' = n_past - rounds * (ga_w - g) \<and> n_past' < ga_i' + ga_w
      \<and> seq_cells 0 (kv_entries c') = moved (grouped ga_n ga_w ga_i rounds) (seq_cells 0 (kv_entries c))
      \<and> snd ` seq_cells 0 (kv_entries c') = {0..<n_past'}))"
proof -
  define rounds where "rounds = nat ((n_past - ga_i) div ga_w)"
  have w: "0 < ga_w" using assms(3-5) by simp
  then have K: "int rounds = (n_past - ga_i) div ga_w" using assms(8) by (simp add: rounds_def pos_imp_zdiv_nonneg_iff)
  have bounds: "int rounds * ga_w \<le> n_past - ga_i" "n_past - ga_i < (int rounds + 1) * ga_w"
    unfolding K using w pos_mod_bound [OF w, of "n_past - ga_i"] by (simp_all add: distrib_right flip: minus_mod_eq_div_mult)
  from kv.self_extend_cells [OF assms(3-5,1,6,7) snd_bounds [OF assms(2)] bounds(2)] bounds(1) obtain r where
    r: "self_extend kv_exec ga_n ga_w ga_i n_past c = Some r"
    "\<And>ga_i' n_past' c'. r = Inr (ga_i', n_past', c') \<Longrightarrow> kv_plain c' \<and> ga_i' = ga_i + int rounds * g
      \<and> n_past' = n_past - int rounds * (ga_w - g)
      \<and> seq_cells 0 (kv_entries c') = moved (grouped ga_n ga_w ga_i (int rounds)) (seq_cells 0 (kv_entries c))" by blast
  have "0 \<le> ga_i" using assms(4,6,7) by simp
  then have win: "grouped ga_n ga_w ga_i (int rounds) ` {0..<n_past} = {0..<n_past - int rounds * (ga_w - g)}"
    using bounds(1) by (intro grouped_window [OF assms(3-5)]) simp_all
  have stop: "n_past - int rounds * (ga_w - g) < ga_i + int rounds * g + ga_w" using bounds(2) by (simp add: algebra_simps)
  have "\<forall>ga_i' n_past' c'. r = Inr (ga_i', n_past', c') \<longrightarrow>
    (kv_plain c' \<and> ga_i' = ga_i + int rounds * g \<and> n_past' = n_past - int rounds * (ga_w - g) \<and> n_past' < ga_i' + ga_w
      \<and> seq_cells 0 (kv_entries c') = moved (grouped ga_n ga_w ga_i (int rounds)) (seq_cells 0 (kv_entries c))
      \<and> snd ` seq_cells 0 (kv_entries c') = {0..<n_past'})"
  proof (intro allI impI)
    fix ga_i' n_past' c' assume "r = Inr (ga_i', n_past', c')"
    from r(2) [OF this] stop win show "kv_plain c' \<and> ga_i' = ga_i + int rounds * g \<and> n_past' = n_past - int rounds * (ga_w - g)
      \<and> n_past' < ga_i' + ga_w \<and> seq_cells 0 (kv_entries c') = moved (grouped ga_n ga_w ga_i (int rounds)) (seq_cells 0 (kv_entries c))
      \<and> snd ` seq_cells 0 (kv_entries c') = {0..<n_past'}" by (simp add: moved_snd assms(2))
  qed
  with r(1) show ?thesis by (simp only: Let_def K) blast
qed

theorem self_extend_contiguous_witness:
  "case self_extend kv_exec 2 4 0 8 (sample_cache 8) of Some (Inr (ga_i', n_past', c')) \<Rightarrow>
     ga_i' = 4 \<and> n_past' = 4 \<and> kv_plain c' \<and> map kc_pos (kv_cells c') = [0, 0, 1, 1, 2, 2, 3, 3]
     \<and> snd ` seq_cells 0 (kv_entries c') = {0..<4}
   | _ \<Rightarrow> False"
proof -
  from extend_eval obtain c' where r: "self_extend kv_exec 2 4 0 8 (sample_cache 8) = Some (Inr (4, 4, c'))"
    "map kc_pos (kv_cells c') = [0, 0, 1, 1, 2, 2, 3, 3]"
    by (auto simp: extend_result_def split: option.splits sum.splits prod.splits)
  have "kv_plain c'" "snd ` seq_cells 0 (kv_entries c') = {0..<4}"
    using self_extend_contiguous [OF sample_plain sample_positions, of 2 2 4 0 0] by ((simp (no_asm_use) add: r(1); elim conjE)+)
  with r show ?thesis by simp
qed

end
