(* ===== verification/Graph_Alloc.thy ===== *)
theory Graph_Alloc
  imports Pin_Prelude
begin

text \<open>
  The block level of the graph allocator (\<open>ggml/src/ggml-alloc.c\<close>): the linear allocator
  \<open>ggml_tallocr\<close> and the measuring allocator \<open>ggml_dyn_tallocr\<close>, whose free blocks stay sorted
  and merged. Live allocations never overlap, and freeing all of them gives back the fresh state.
  Without any free block, which takes live allocations of \<open>2^63\<close> bytes, the code would read in front of
  its array of blocks; the model answers that there is no space.
\<close>

section \<open>The allocators\<close>

definition aligned_offset :: "u64 \<Rightarrow> u64 \<Rightarrow> u64 \<Rightarrow> u64" where
  "aligned_offset buffer offset alignment =
     (let align = (alignment - (buffer + offset) mod alignment) mod alignment in offset + align)"

record ggml_tallocr =
  tl_base :: u64
  tl_size :: u64
  tl_alignment :: u64
  tl_offset :: u64

definition ggml_tallocr_new :: "u64 \<Rightarrow> u64 \<Rightarrow> u64 \<Rightarrow> ggml_tallocr" where
  "ggml_tallocr_new base sz align =
     \<lparr>tl_base = base, tl_size = sz, tl_alignment = align, tl_offset = aligned_offset base 0 align\<rparr>"

datatype alloc_error = No_space | No_blocks

text \<open>\<open>alloc_size\<close> is what the buffer says the tensor takes; the result is the address.\<close>

definition ggml_tallocr_alloc :: "ggml_tallocr \<Rightarrow> u64 \<Rightarrow> alloc_error + u64 \<times> ggml_tallocr" where
  "ggml_tallocr_alloc t alloc_size =
     (let sz = (alloc_size + tl_alignment t - 1) AND NOT (tl_alignment t - 1) in
      if tl_offset t + sz > tl_size t then Inl No_space
      else Inr (tl_base t + tl_offset t, t\<lparr>tl_offset := tl_offset t + sz\<rparr>))"

record free_block =
  fb_offset :: u64
  fb_size :: u64

record ggml_dyn_tallocr =
  ta_alignment :: u64
  ta_blocks :: "free_block list"
  ta_max_size :: u64

definition max_free_blocks :: nat where
  "max_free_blocks = 256"

text \<open>The loop over the blocks but the last: index and sz of the best fit so far.\<close>

fun best_fit :: "u64 \<Rightarrow> nat \<Rightarrow> free_block list \<Rightarrow> nat option \<Rightarrow> u64 \<Rightarrow> nat option" where
  "best_fit sz i [] best best_size = best"
| "best_fit sz i (b # bs) best best_size =
     (if fb_size b \<ge> sz \<and> fb_size b \<le> best_size then best_fit sz (Suc i) bs (Some i) (fb_size b)
      else best_fit sz (Suc i) bs best best_size)"

definition take_from :: "free_block list \<Rightarrow> nat \<Rightarrow> u64 \<Rightarrow> free_block list" where
  "take_from bs i sz =
     (let b = (bs ! i)\<lparr>fb_offset := fb_offset (bs ! i) + sz, fb_size := fb_size (bs ! i) - sz\<rparr> in
      if fb_size b = 0 then take i bs @ drop (Suc i) bs else bs[i := b])"

definition ggml_dyn_tallocr_alloc :: "ggml_dyn_tallocr \<Rightarrow> u64 \<Rightarrow> alloc_error + u64 \<times> ggml_dyn_tallocr" where
  "ggml_dyn_tallocr_alloc a sz =
     (let sz = aligned_offset 0 sz (ta_alignment a); bs = ta_blocks a in
      if bs = [] then Inl No_space
      else
        let best = (case best_fit sz 0 (butlast bs) None (- 1) of
                      Some i \<Rightarrow> Some i
                    | None \<Rightarrow> if fb_size (last bs) \<ge> sz then Some (length bs - 1) else None) in
        case best of
          None \<Rightarrow> Inl No_space
        | Some i \<Rightarrow>
            let offset = fb_offset (bs ! i) in
            Inr (offset, a\<lparr>ta_blocks := take_from bs i sz, ta_max_size := max (ta_max_size a) (offset + sz)\<rparr>))"

text \<open>The merge loop; \<open>pre\<close> are the blocks before the one looked at.\<close>

fun merge_free :: "u64 \<Rightarrow> u64 \<Rightarrow> free_block list \<Rightarrow> free_block list \<Rightarrow> free_block list option" where
  "merge_free offset sz pre [] = None"
| "merge_free offset sz pre (b # bs) =
     (if fb_offset b + fb_size b = offset then
        let b = b\<lparr>fb_size := fb_size b + sz\<rparr> in
        Some (pre @ (case bs of
                       c # cs \<Rightarrow> if fb_offset b + fb_size b = fb_offset c then b\<lparr>fb_size := fb_size b + fb_size c\<rparr> # cs else b # bs
                     | [] \<Rightarrow> [b]))
      else if offset + sz = fb_offset b then
        let b = b\<lparr>fb_offset := offset, fb_size := fb_size b + sz\<rparr> in
        Some (if pre \<noteq> [] \<and> fb_offset (last pre) + fb_size (last pre) = fb_offset b
              then butlast pre @ (last pre)\<lparr>fb_size := fb_size (last pre) + fb_size b\<rparr> # bs
              else pre @ b # bs)
      else merge_free offset sz (pre @ [b]) bs)"

fun insert_free :: "u64 \<Rightarrow> u64 \<Rightarrow> free_block list \<Rightarrow> free_block list" where
  "insert_free offset sz [] = [\<lparr>fb_offset = offset, fb_size = sz\<rparr>]"
| "insert_free offset sz (b # bs) =
     (if fb_offset b < offset then b # insert_free offset sz bs else \<lparr>fb_offset = offset, fb_size = sz\<rparr> # b # bs)"

definition ggml_dyn_tallocr_free_tensor :: "ggml_dyn_tallocr \<Rightarrow> u64 \<Rightarrow> u64 \<Rightarrow> alloc_error + ggml_dyn_tallocr" where
  "ggml_dyn_tallocr_free_tensor a offset sz =
     (let sz = aligned_offset 0 sz (ta_alignment a) in
      case merge_free offset sz [] (ta_blocks a) of
        Some bs \<Rightarrow> Inr (a\<lparr>ta_blocks := bs\<rparr>)
      | None \<Rightarrow>
          if length (ta_blocks a) < max_free_blocks then Inr (a\<lparr>ta_blocks := insert_free offset sz (ta_blocks a)\<rparr>)
          else Inl No_blocks)"

definition ggml_dyn_tallocr_reset :: "ggml_dyn_tallocr \<Rightarrow> ggml_dyn_tallocr" where
  "ggml_dyn_tallocr_reset a = a\<lparr>ta_blocks := [\<lparr>fb_offset = 0, fb_size = - 1 div 2\<rparr>], ta_max_size := 0\<rparr>"

definition ggml_dyn_tallocr_new :: "u64 \<Rightarrow> ggml_dyn_tallocr" where
  "ggml_dyn_tallocr_new alignment = ggml_dyn_tallocr_reset \<lparr>ta_alignment = alignment, ta_blocks = [], ta_max_size = 0\<rparr>"

section \<open>Free blocks\<close>

definition space :: nat where
  "space = 2 ^ 63 - 1"

definition lo :: "free_block \<Rightarrow> nat" where
  "lo b = unat (fb_offset b)"

definition hi :: "free_block \<Rightarrow> nat" where
  "hi b = unat (fb_offset b) + unat (fb_size b)"

definition gaps :: "free_block list \<Rightarrow> bool" where
  "gaps bs \<longleftrightarrow> sorted_wrt (\<lambda>a b. hi a < lo b) bs \<and> (\<forall>b \<in> set bs. lo b < hi b \<and> hi b \<le> space)"

definition free_bytes :: "free_block list \<Rightarrow> nat set" where
  "free_bytes bs = (\<Union>b \<in> set bs. {lo b..<hi b})"

lemma free_bytes_simps [simp]: "free_bytes [] = {}" "free_bytes (b # bs) = {lo b..<hi b} \<union> free_bytes bs"
  "free_bytes (xs @ ys) = free_bytes xs \<union> free_bytes ys"
  by (auto simp: free_bytes_def)

lemma gaps_append: "gaps (xs @ ys) \<longleftrightarrow> gaps xs \<and> gaps ys \<and> (\<forall>x \<in> set xs. \<forall>y \<in> set ys. hi x < lo y)"
  by (auto simp: gaps_def sorted_wrt_append)

lemma gaps_Cons: "gaps (b # bs) \<longleftrightarrow> lo b < hi b \<and> hi b \<le> space \<and> gaps bs \<and> (\<forall>y \<in> set bs. hi b < lo y)"
  by (auto simp: gaps_def)

lemma gaps_Nil [simp]: "gaps []"
  by (simp add: gaps_def)

lemma end_hi: "hi b \<le> space \<Longrightarrow> unat (fb_offset b + fb_size b) = hi b"
  by (subst unat_add_lem [THEN iffD1]) (simp_all add: hi_def space_def)

text \<open>A range beside the free bytes lies wholly before or after each block.\<close>

lemma beside: "lo b < hi b \<Longrightarrow> o' < e \<Longrightarrow> {o'..<e} \<inter> {lo b..<hi b} = {} \<longleftrightarrow> hi b \<le> o' \<or> e \<le> lo (b :: free_block)"
  by auto

section \<open>Releasing\<close>

text \<open>\<open>beside_all\<close>: the range \<open>[off, e)\<close> holds no free byte.\<close>

definition beside_all :: "nat \<Rightarrow> nat \<Rightarrow> free_block list \<Rightarrow> bool" where
  "beside_all off e bs \<longleftrightarrow> off < e \<and> e \<le> space \<and> (\<forall>b \<in> set bs. hi b \<le> off \<or> e \<le> lo b)"

lemma merge_free_spec:
  assumes "gaps (pre @ bs)" "beside_all (unat offset) (unat offset + unat sz) (pre @ bs)" "\<forall>x \<in> set pre. hi x \<noteq> unat offset"
  shows "case merge_free offset sz pre bs of
      Some bs' \<Rightarrow> gaps bs' \<and> free_bytes bs' = {unat offset..<unat offset + unat sz} \<union> free_bytes (pre @ bs)
    | None \<Rightarrow> \<forall>b \<in> set bs. hi b \<noteq> unat offset \<and> lo b \<noteq> unat offset + unat sz"
  using assms
proof (induction offset sz pre bs rule: merge_free.induct)
  case (2 offset sz pre b bs)
  have b: "lo b < hi b" "hi b \<le> space" "gaps pre" "gaps bs" "\<forall>x \<in> set pre. hi x < lo b" "\<forall>y \<in> set bs. hi b < lo y"
    "\<forall>x \<in> set pre. \<forall>y \<in> set bs. hi x < lo y"
    using "2.prems"(1) by (simp_all add: gaps_append gaps_Cons)
  have eb: "unat (fb_offset b + fb_size b) = hi b" by (rule end_hi [OF b(2)])
  have r: "unat offset < unat offset + unat sz" "unat offset + unat sz \<le> space"
    "\<forall>x \<in> set (pre @ b # bs). hi x \<le> unat offset \<or> unat offset + unat sz \<le> lo x"
    using "2.prems"(2) unfolding beside_all_def by blast+
  have es: "unat (offset + sz) = unat offset + unat sz"
    using r(2) by (subst unat_add_lem [THEN iffD1]) (simp_all add: space_def)
  consider "fb_offset b + fb_size b = offset" | "fb_offset b + fb_size b \<noteq> offset" "offset + sz = fb_offset b"
    | "fb_offset b + fb_size b \<noteq> offset" "offset + sz \<noteq> fb_offset b" by blast
  then show ?case
  proof cases
    case 1
    then have o: "hi b = unat offset" using eb by simp
    let ?b = "b\<lparr>fb_size := fb_size b + sz\<rparr>"
    have "unat (fb_size b + sz) = unat (fb_size b) + unat sz"
      using o r(2) by (subst unat_add_lem [THEN iffD1]) (simp_all add: hi_def space_def)
    then have nb: "lo ?b = lo b" "hi ?b = unat offset + unat sz" using o by (simp_all add: lo_def hi_def)
    have eb': "unat (fb_offset b + (fb_size b + sz)) = unat offset + unat sz" using end_hi [of ?b] nb r(2) by simp
    have after: "unat offset + unat sz \<le> lo y" if "y \<in> set bs" for y
    proof -
      have "hi b < lo y" "lo y < hi y" "hi y \<le> unat offset \<or> unat offset + unat sz \<le> lo y"
        using r(3) b(4,6) that by (auto simp: gaps_def)
      with o show ?thesis by linarith
    qed
    show ?thesis
    proof (cases bs)
      case Nil
      then show ?thesis using 1 b nb r o by (auto simp: gaps_append gaps_Cons)
    next
      case (Cons c cs)
      show ?thesis
      proof (cases "fb_offset b + (fb_size b + sz) = fb_offset c")
        case True
        then have lc: "lo c = unat offset + unat sz" using eb' by (simp add: lo_def)
        let ?d = "?b\<lparr>fb_size := fb_size b + sz + fb_size c\<rparr>"
        have c: "lo c < hi c" "hi c \<le> space" using b(4) Cons by (simp_all add: gaps_Cons)
        have "unat (fb_size b + sz + fb_size c) = unat (fb_size b + sz) + unat (fb_size c)"
          using nb lc c by (subst unat_add_lem [THEN iffD1]) (simp_all add: hi_def lo_def space_def)
        then have nd: "lo ?d = lo b" "hi ?d = hi c" using nb lc by (simp_all add: lo_def hi_def)
        have "gaps (pre @ ?d # cs)" using b Cons nd c by (auto simp: gaps_append gaps_Cons)
        moreover have "{lo b..<hi c} = {lo b..<hi b} \<union> {unat offset..<unat offset + unat sz} \<union> {lo c..<hi c}"
          using o lc c b(1) r(1) by auto
        ultimately show ?thesis using 1 Cons True nd by (auto simp: Let_def)
      next
        case False
        then have "lo c \<noteq> unat offset + unat sz" using eb' by (metis lo_def word_unat_eq_iff)
        then have "unat offset + unat sz < lo y" if "y \<in> set bs" for y
          using that after [of y] after [of c] Cons b(4) by (auto simp: gaps_Cons)
        then have "gaps (pre @ ?b # bs)" using b nb r o by (auto simp: gaps_append gaps_Cons)
        moreover have "{lo b..<unat offset + unat sz} = {lo b..<hi b} \<union> {unat offset..<unat offset + unat sz}" using o b(1) r(1) by auto
        ultimately show ?thesis using 1 Cons False nb by (auto simp: Let_def)
      qed
    qed
  next
    case 2
    then have lb: "lo b = unat offset + unat sz" using es by (simp add: lo_def)
    let ?b = "b\<lparr>fb_offset := offset, fb_size := fb_size b + sz\<rparr>"
    have "unat (fb_size b + sz) = unat (fb_size b) + unat sz"
      using lb b(2) by (subst unat_add_lem [THEN iffD1]) (simp_all add: hi_def lo_def space_def)
    then have nb: "lo ?b = unat offset" "hi ?b = hi b" using lb by (simp_all add: lo_def hi_def)
    have no: "fb_offset (last pre) + fb_size (last pre) \<noteq> offset" if "pre \<noteq> []"
    proof -
      have l: "last pre \<in> set pre" using that by simp
      then have "hi (last pre) \<le> space" using b(3) by (simp add: gaps_def)
      then show ?thesis using end_hi "2.prems"(3) l by metis
    qed
    have "hi x < unat offset" if x: "x \<in> set pre" for x
    proof -
      have "lo x < hi x" "hi x < lo b" "hi x \<noteq> unat offset" "hi x \<le> unat offset \<or> unat offset + unat sz \<le> lo x"
        using b(3,5) "2.prems"(3) r(3) x by (auto simp: gaps_def)
      then show ?thesis using lb by linarith
    qed
    then have "gaps (pre @ ?b # bs)" using b nb r(1) lb by (auto simp: gaps_append gaps_Cons)
    moreover have "{unat offset..<hi b} = {unat offset..<unat offset + unat sz} \<union> {lo b..<hi b}" using lb b(1) r(1) by auto
    moreover have "merge_free offset sz pre (b # bs) = Some (pre @ ?b # bs)" using 2 no by (cases "pre = []") (simp_all add: Let_def)
    ultimately show ?thesis using nb by auto
  next
    case 3
    have ne: "hi b \<noteq> unat offset" "lo b \<noteq> unat offset + unat sz"
      using 3 eb es by (metis word_unat_eq_iff, metis lo_def word_unat_eq_iff)
    have m: "merge_free offset sz pre (b # bs) = merge_free offset sz (pre @ [b]) bs" using 3 by simp
    have "case merge_free offset sz (pre @ [b]) bs of
        Some bs' \<Rightarrow> gaps bs' \<and> free_bytes bs' = {unat offset..<unat offset + unat sz} \<union> free_bytes ((pre @ [b]) @ bs)
      | None \<Rightarrow> \<forall>b \<in> set bs. hi b \<noteq> unat offset \<and> lo b \<noteq> unat offset + unat sz"
      using "2.prems" ne by (intro "2.IH" 3) simp_all
    with m ne show ?thesis by (auto split: option.splits)
  qed
qed simp

lemma insert_free_spec:
  assumes "gaps bs" "beside_all (unat offset) (unat offset + unat sz) bs"
    and "\<forall>b \<in> set bs. hi b \<noteq> unat offset \<and> lo b \<noteq> unat offset + unat sz"
  shows "gaps (insert_free offset sz bs) \<and> set (insert_free offset sz bs) = insert \<lparr>fb_offset = offset, fb_size = sz\<rparr> (set bs)"
  using assms
proof (induction bs)
  case Nil
  then show ?case by (simp add: gaps_Cons beside_all_def lo_def hi_def)
next
  case (Cons b bs)
  let ?n = "\<lparr>fb_offset = offset, fb_size = sz\<rparr>"
  have n: "lo ?n = unat offset" "hi ?n = unat offset + unat sz" by (simp_all add: lo_def hi_def)
  have r: "unat offset < unat offset + unat sz" "unat offset + unat sz \<le> space" "beside_all (unat offset) (unat offset + unat sz) bs"
    "hi b \<le> unat offset \<or> unat offset + unat sz \<le> lo b"
    using Cons.prems(2) by (simp_all add: beside_all_def)
  have b: "lo b < hi b" "gaps bs" "\<forall>y \<in> set bs. hi b < lo y" using Cons.prems(1) by (simp_all add: gaps_Cons)
  have ne: "hi b \<noteq> unat offset" "lo b \<noteq> unat offset + unat sz" using Cons.prems(3) by simp_all
  show ?case
  proof (cases "fb_offset b < offset")
    case True
    then have "lo b < unat offset" by (simp add: lo_def word_less_nat_alt)
    then have "hi b < unat offset" using r(1,4) ne by linarith
    with True Cons.IH [OF b(2) r(3)] Cons.prems(1,3) n show ?thesis by (auto simp: gaps_Cons)
  next
    case False
    then have "unat offset \<le> lo b" by (simp add: lo_def word_less_nat_alt)
    then have "unat offset + unat sz < lo b" using r(4) ne b(1) by linarith
    with False Cons.prems(1) r(1,2) n b show ?thesis by (auto simp: gaps_Cons)
  qed
qed

section \<open>The allocator with its live allocations\<close>

definition span :: "nat \<times> nat \<Rightarrow> nat set" where
  "span x = {fst x..<fst x + snd x}"

text \<open>
  The live allocations are pairs of offset and length. Together with the free blocks they partition
  the address space, they are aligned, and they lie below the maximum.
\<close>

definition alloc_ok :: "ggml_dyn_tallocr \<Rightarrow> (nat \<times> nat) list \<Rightarrow> bool" where
  "alloc_ok a live \<longleftrightarrow> gaps (ta_blocks a) \<and> (\<forall>x \<in> set live. 0 < snd x \<and> unat (ta_alignment a) dvd fst x \<and> unat (ta_alignment a) dvd snd x
       \<and> fst x + snd x \<le> unat (ta_max_size a))
     \<and> (\<forall>b \<in> set (ta_blocks a). unat (ta_alignment a) dvd lo b)
     \<and> sorted_wrt (\<lambda>x y. span x \<inter> span y = {}) live
     \<and> (\<Union>x \<in> set live. span x) \<inter> free_bytes (ta_blocks a) = {}
     \<and> (\<Union>x \<in> set live. span x) \<union> free_bytes (ta_blocks a) = {0..<space}"

lemma alloc_ok_new: "alloc_ok (ggml_dyn_tallocr_new al) []"
proof -
  have "unat (- 1 div 2 :: u64) = space" by (simp add: space_def unat_div)
  then show ?thesis by (simp add: alloc_ok_def ggml_dyn_tallocr_new_def ggml_dyn_tallocr_reset_def gaps_Cons lo_def hi_def space_def)
qed

lemma free_bytes_disjoint: "gaps (xs @ b # ys) \<Longrightarrow> {lo b..<hi b} \<inter> free_bytes (xs @ ys) = {}"
  by (fastforce simp: gaps_append gaps_Cons free_bytes_def)

text \<open>Taking the front of a block.\<close>

lemma take_from_spec:
  assumes "gaps bs" "i < length bs" "0 < unat sz" "unat sz \<le> unat (fb_size (bs ! i))"
  shows "gaps (take_from bs i sz)"
    and "free_bytes (take_from bs i sz) = free_bytes bs - {lo (bs ! i)..<lo (bs ! i) + unat sz}"
    and "{lo (bs ! i)..<lo (bs ! i) + unat sz} \<subseteq> free_bytes bs"
    and "\<forall>b \<in> set (take_from bs i sz). b \<in> set bs \<or> lo b = lo (bs ! i) + unat sz"
    and "lo (bs ! i) + unat sz \<le> space"
proof -
  let ?b = "bs ! i"
  define xs ys where "xs = take i bs" and "ys = drop (Suc i) bs"
  have bs: "bs = xs @ ?b # ys" using assms(2) by (simp add: xs_def ys_def id_take_nth_drop)
  have g: "gaps (xs @ ?b # ys)" using assms(1) bs by simp
  have b: "lo ?b < hi ?b" "hi ?b \<le> space" using g by (simp_all add: gaps_append gaps_Cons)
  have dis: "{lo ?b..<hi ?b} \<inter> free_bytes (xs @ ys) = {}" by (rule free_bytes_disjoint [OF g])
  have fb: "free_bytes bs = {lo ?b..<hi ?b} \<union> free_bytes (xs @ ys)" by (subst bs) auto
  show sub: "{lo ?b..<lo ?b + unat sz} \<subseteq> free_bytes bs" unfolding fb using assms(4) by (auto simp: lo_def hi_def)
  show "lo ?b + unat sz \<le> space" using b(2) assms(4) by (simp add: lo_def hi_def)
  let ?c = "?b\<lparr>fb_offset := fb_offset ?b + sz, fb_size := fb_size ?b - sz\<rparr>"
  have sz: "unat (fb_size ?b - sz) = unat (fb_size ?b) - unat sz" using assms(4) by (simp add: unat_sub word_le_nat_alt)
  have "unat (fb_offset ?b + sz) = lo ?b + unat sz"
    using b(2) assms(4) by (subst unat_add_lem [THEN iffD1]) (simp_all add: lo_def hi_def space_def)
  then have c: "lo ?c = lo ?b + unat sz" "hi ?c = hi ?b" using sz assms(4) by (simp_all add: lo_def hi_def)
  have split: "{lo ?b..<hi ?b} = {lo ?b..<lo ?b + unat sz} \<union> {lo ?c..<hi ?c}" using c assms(4) by (auto simp: lo_def hi_def)
  have "gaps (take_from bs i sz)
    \<and> free_bytes (take_from bs i sz) = free_bytes bs - {lo ?b..<lo ?b + unat sz}
    \<and> (\<forall>b \<in> set (take_from bs i sz). b \<in> set bs \<or> lo b = lo ?b + unat sz)"
  proof (cases "fb_size ?b - sz = 0")
    case True
    then have t: "take_from bs i sz = xs @ ys" by (simp add: take_from_def xs_def ys_def)
    have "hi ?b = lo ?b + unat sz" using True sz assms(4) by (simp add: lo_def hi_def)
    then have "free_bytes (xs @ ys) = free_bytes bs - {lo ?b..<lo ?b + unat sz}" using fb dis by auto
    moreover have "set (xs @ ys) \<subseteq> set bs" by (subst bs) auto
    ultimately show ?thesis using g t by (auto simp: gaps_append gaps_Cons)
  next
    case False
    then have "take_from bs i sz = bs[i := ?c]" by (simp add: take_from_def)
    then have t: "take_from bs i sz = xs @ ?c # ys" using assms(2) by (simp add: xs_def ys_def upd_conv_take_nth_drop)
    have "unat (fb_size ?b - sz) \<noteq> 0" using False by (simp add: unat_eq_zero)
    then have "lo ?c < hi ?c" using c sz by (simp add: lo_def hi_def)
    then have "gaps (xs @ ?c # ys)" using g c b assms(3) by (auto simp: gaps_append gaps_Cons)
    moreover have "free_bytes (xs @ ?c # ys) = {lo ?c..<hi ?c} \<union> free_bytes (xs @ ys)" by auto
    moreover have "{lo ?c..<hi ?c} \<inter> {lo ?b..<lo ?b + unat sz} = {}" using c by auto
    moreover have "set (xs @ ys) \<subseteq> set bs" by (subst bs) auto
    ultimately show ?thesis unfolding t using fb dis split c(1) by auto
  qed
  then show "gaps (take_from bs i sz)" "free_bytes (take_from bs i sz) = free_bytes bs - {lo ?b..<lo ?b + unat sz}"
    "\<forall>b \<in> set (take_from bs i sz). b \<in> set bs \<or> lo b = lo ?b + unat sz" by blast+
qed

lemma best_fit_fits:
  "best_fit sz i bs best best_size = Some k \<Longrightarrow> best = Some k \<or> (i \<le> k \<and> k < i + length bs \<and> sz \<le> fb_size (bs ! (k - i)))"
proof (induction sz i bs best best_size rule: best_fit.induct)
  case (2 sz i b bs best best_size)
  show ?case
  proof (cases "fb_size b \<ge> sz \<and> fb_size b \<le> best_size")
    case True
    with "2.IH"(1) "2.prems" consider "k = i" | "Suc i \<le> k" "k < Suc i + length bs" "sz \<le> fb_size (bs ! (k - Suc i))" by auto
    then show ?thesis using True by cases (auto simp: nth_Cons' Suc_diff_le)
  next
    case False
    with "2.IH"(2) "2.prems" consider "best = Some k" | "Suc i \<le> k" "k < Suc i + length bs" "sz \<le> fb_size (bs ! (k - Suc i))" by auto
    then show ?thesis by cases (auto simp: nth_Cons' Suc_diff_le)
  qed
qed simp

lemma best_fit_None: "best_fit sz i bs best best_size = None \<Longrightarrow> best_size = - 1 \<Longrightarrow> best = None \<and> (\<forall>b \<in> set bs. fb_size b < sz)"
proof (induction sz i bs best best_size rule: best_fit.induct)
  case (2 sz i b bs best best_size)
  have "fb_size b \<le> best_size" using "2.prems"(2) by simp
  show ?case
  proof (cases "fb_size b \<ge> sz")
    case True
    have "best_fit sz i' bs' (Some j) s \<noteq> None" for i' bs' j s
      by (induction bs' arbitrary: i' j s) auto
    with "2.prems"(1) True \<open>fb_size b \<le> best_size\<close> show ?thesis by simp
  next
    case False
    with "2.IH"(2) "2.prems" show ?thesis by auto
  qed
qed simp

text \<open>The block an allocation takes: some block that is large enough, and none only if there is none.\<close>

lemma alloc_cases:
  assumes "sz' = aligned_offset 0 sz (ta_alignment a)"
  obtains (none) "ggml_dyn_tallocr_alloc a sz = Inl No_space" "\<forall>b \<in> set (ta_blocks a). fb_size b < sz'"
  | (block) i where "i < length (ta_blocks a)" "sz' \<le> fb_size (ta_blocks a ! i)"
      "ggml_dyn_tallocr_alloc a sz = Inr (fb_offset (ta_blocks a ! i),
         a\<lparr>ta_blocks := take_from (ta_blocks a) i sz', ta_max_size := max (ta_max_size a) (fb_offset (ta_blocks a ! i) + sz')\<rparr>)"
proof (cases "ta_blocks a = []")
  case True
  then show thesis by (intro none) (simp_all add: ggml_dyn_tallocr_alloc_def)
next
  case False
  let ?bs = "ta_blocks a"
  have bs: "?bs = butlast ?bs @ [last ?bs]" using False by simp
  show thesis
  proof (cases "best_fit sz' 0 (butlast ?bs) None (- 1)")
    case None
    from best_fit_None [OF this] have small: "\<forall>b \<in> set (butlast ?bs). fb_size b < sz'" by simp
    show thesis
    proof (cases "fb_size (last ?bs) \<ge> sz'")
      case True
      with False None show thesis
        by (intro block [of "length ?bs - 1"]) (simp_all add: ggml_dyn_tallocr_alloc_def Let_def last_conv_nth flip: assms)
    next
      case small_last: False
      with small have "\<forall>b \<in> set ?bs. fb_size b < sz'" by (subst bs) auto
      with False None small_last show thesis
        by (intro none) (simp_all add: ggml_dyn_tallocr_alloc_def Let_def flip: assms)
    qed
  next
    case (Some i)
    from best_fit_fits [OF this] have "i < length (butlast ?bs)" "sz' \<le> fb_size (butlast ?bs ! i)" by simp_all
    then have "i < length ?bs" "sz' \<le> fb_size (?bs ! i)" by (simp_all add: nth_butlast)
    with False Some show thesis
      by (intro block [of i]) (simp_all add: ggml_dyn_tallocr_alloc_def Let_def flip: assms)
  qed
qed

lemma merge_free_lo: "merge_free offset sz pre bs = Some bs' \<Longrightarrow> \<forall>b \<in> set bs'. fb_offset b = offset \<or> fb_offset b \<in> fb_offset ` set (pre @ bs)"
proof (induction offset sz pre bs rule: merge_free.induct)
  case (2 offset sz pre b bs)
  have last_in: "fb_offset (last pre) \<in> fb_offset ` set pre" if "pre \<noteq> []" using that by simp
  have but: "fb_offset x \<in> fb_offset ` (set pre \<union> set bs)" if "x \<in> set (butlast pre)" for x
    using in_set_butlastD [OF that] by simp
  show ?case
  proof (cases "fb_offset b + fb_size b = offset \<or> offset + sz = fb_offset b")
    case True
    with "2.prems" last_in but show ?thesis
      by (auto simp: Let_def split: if_splits list.splits)
  next
    case False
    with "2.IH" "2.prems" show ?thesis by simp
  qed
qed simp

lemma aligned_up:
  assumes "0 < unat al" "unat sz + unat al \<le> 2 ^ 63"
  shows "unat al dvd unat (aligned_offset 0 sz al)" "unat sz \<le> unat (aligned_offset 0 sz al)"
    "unat (aligned_offset 0 sz al) < unat sz + unat al"
proof -
  let ?r = "unat sz mod unat al"
  have r: "unat (sz mod al) = ?r" "?r < unat al" using assms(1) by (simp_all add: unat_mod)
  then have d: "unat (al - sz mod al) = unat al - ?r" by (simp add: unat_sub word_le_nat_alt)
  have "unat ((al - sz mod al) mod al) = (if ?r = 0 then 0 else unat al - ?r)"
    using assms(1) r(2) d by (simp add: unat_mod)
  then have e: "unat ((al - sz mod al) mod al) = (if ?r = 0 then 0 else unat al - ?r)" .
  have "unat (aligned_offset 0 sz al) = unat sz + (if ?r = 0 then 0 else unat al - ?r)"
  proof -
    have "unat sz + (if ?r = 0 then 0 else unat al - ?r) \<le> unat sz + unat al" by simp
    also have "\<dots> \<le> 2 ^ 63" by (rule assms(2))
    also have "(2::nat) ^ 63 < 2 ^ 64" by simp
    finally have "unat sz + (if ?r = 0 then 0 else unat al - ?r) < 2 ^ 64" .
    then show ?thesis unfolding aligned_offset_def Let_def e [symmetric] by (subst unat_add_lem [THEN iffD1]) simp_all
  qed
  moreover have "unat sz + (unat al - ?r) = unat al * (unat sz div unat al + 1)"
    using r(2) mult_div_mod_eq [of "unat al" "unat sz"] unfolding distrib_left by linarith
  ultimately show "unat al dvd unat (aligned_offset 0 sz al)" "unat sz \<le> unat (aligned_offset 0 sz al)"
    "unat (aligned_offset 0 sz al) < unat sz + unat al"
    using r(2) by (auto simp: dvd_eq_mod_eq_0)
qed

lemma alloc_ok_alloc:
  assumes "alloc_ok a live" "ggml_dyn_tallocr_alloc a sz = Inr (o', a')" "sz' = aligned_offset 0 sz (ta_alignment a)"
    and "0 < unat sz'" "unat (ta_alignment a) dvd unat sz'"
  shows "alloc_ok a' ((unat o', unat sz') # live) \<and> ta_alignment a' = ta_alignment a"
  using assms(3)
proof (cases rule: alloc_cases)
  case none
  with assms(2) show ?thesis by simp
next
  case (block i)
  let ?bs = "ta_blocks a" and ?al = "unat (ta_alignment a)"
  have o: "o' = fb_offset (?bs ! i)" "unat o' = lo (?bs ! i)"
    "a' = a\<lparr>ta_blocks := take_from ?bs i sz', ta_max_size := max (ta_max_size a) (o' + sz')\<rparr>"
    using block(3) assms(2) by (simp_all add: lo_def)
  have ok: "gaps ?bs" "\<forall>b \<in> set ?bs. ?al dvd lo b" "(\<Union>x \<in> set live. span x) \<inter> free_bytes ?bs = {}"
    "(\<Union>x \<in> set live. span x) \<union> free_bytes ?bs = {0..<space}" "sorted_wrt (\<lambda>x y. span x \<inter> span y = {}) live"
    "\<forall>x \<in> set live. 0 < snd x \<and> ?al dvd fst x \<and> ?al dvd snd x \<and> fst x + snd x \<le> unat (ta_max_size a)"
    using assms(1) by (simp_all add: alloc_ok_def)
  note tf = take_from_spec [OF ok(1) block(1) assms(4) block(2) [unfolded word_le_nat_alt], folded o(2)]
  have sp: "span (unat o', unat sz') = {unat o'..<unat o' + unat sz'}" by (simp add: span_def)
  have "unat (o' + sz') = unat o' + unat sz'" using tf(5) by (subst unat_add_lem [THEN iffD1]) (simp_all add: space_def)
  then have mx: "unat (ta_max_size a') = max (unat (ta_max_size a)) (unat o' + unat sz')" by (simp add: o(3) max_def word_le_nat_alt)
  have al: "?al dvd unat o'" using ok(2) block(1) o(2) by simp
  have "\<forall>b \<in> set (ta_blocks a'). ?al dvd lo b" using tf(4) ok(2) al assms(5) by (auto simp: o(3))
  moreover have "\<forall>x \<in> set live. span (unat o', unat sz') \<inter> span x = {}" using ok(3) tf(3) sp by blast
  moreover have "(\<Union>x \<in> set ((unat o', unat sz') # live). span x) \<inter> free_bytes (ta_blocks a') = {}"
    using ok(3) tf(2) sp by (auto simp: o(3))
  moreover have "(\<Union>x \<in> set ((unat o', unat sz') # live). span x) \<union> free_bytes (ta_blocks a') = {0..<space}"
    unfolding ok(4) [symmetric] using tf(2,3) sp by (auto simp: o(3))
  moreover have "ta_alignment a' = ta_alignment a" "gaps (ta_blocks a')" using tf(1) by (simp_all add: o(3))
  ultimately show ?thesis using ok(5,6) al assms(4,5) mx by (auto simp: alloc_ok_def)
qed

lemma sorted_wrt_remove1: "sorted_wrt P xs \<Longrightarrow> sorted_wrt P (remove1 x xs)"
  by (induction xs) (auto dest: notin_set_remove1 [THEN contrapos_nn] set_remove1_subset [THEN subsetD])

lemma alloc_ok_free:
  assumes "alloc_ok a live" "ggml_dyn_tallocr_free_tensor a off sz = Inr a'" "sz' = aligned_offset 0 sz (ta_alignment a)"
    and "(unat off, unat sz') \<in> set live"
  shows "alloc_ok a' (remove1 (unat off, unat sz') live) \<and> ta_alignment a' = ta_alignment a"
proof -
  let ?bs = "ta_blocks a" and ?al = "unat (ta_alignment a)" and ?x = "(unat off, unat sz')"
  let ?rest = "remove1 ?x live"
  have ok: "gaps ?bs" "\<forall>b \<in> set ?bs. ?al dvd lo b" "(\<Union>x \<in> set live. span x) \<inter> free_bytes ?bs = {}"
    "(\<Union>x \<in> set live. span x) \<union> free_bytes ?bs = {0..<space}" "sorted_wrt (\<lambda>x y. span x \<inter> span y = {}) live"
    "\<forall>x \<in> set live. 0 < snd x \<and> ?al dvd fst x \<and> ?al dvd snd x \<and> fst x + snd x \<le> unat (ta_max_size a)"
    using assms(1) by (simp_all add: alloc_ok_def)
  have x: "span ?x = {unat off..<unat off + unat sz'}" "0 < unat sz'" "?al dvd unat off"
    using ok(6) assms(4) by (auto simp: span_def)
  obtain ls rs where l: "live = ls @ ?x # rs" "?rest = ls @ rs" using assms(4) by (metis remove1_split)
  have dis: "span ?x \<inter> span y = {}" if "y \<in> set ?rest" for y
    using that [unfolded l(2)] ok(5) [unfolded l(1)] by (auto simp: sorted_wrt_append)
  have whole: "(\<Union>y \<in> set live. span y) = span ?x \<union> (\<Union>y \<in> set ?rest. span y)"
    unfolding l(2) by (subst l(1)) auto
  have "span ?x \<subseteq> {0..<space}" using ok(4) whole by blast
  then have "unat off + unat sz' \<le> space" using x(1,2) by auto
  moreover have "hi b \<le> unat off \<or> unat off + unat sz' \<le> lo b" if b: "b \<in> set ?bs" for b
  proof -
    have "lo b < hi b" "{lo b..<hi b} \<subseteq> free_bytes ?bs" using ok(1) b by (auto simp: gaps_def free_bytes_def)
    moreover have "span ?x \<inter> free_bytes ?bs = {}" using ok(3) whole by blast
    ultimately have "{unat off..<unat off + unat sz'} \<inter> {lo b..<hi b} = {}" using x(1) by blast
    then show ?thesis using \<open>lo b < hi b\<close> x(2) by (subst (asm) beside) simp_all
  qed
  ultimately have bes: "beside_all (unat off) (unat off + unat sz') ?bs" using x(2) by (simp add: beside_all_def)
  obtain bs' where bs': "a' = a\<lparr>ta_blocks := bs'\<rparr>" "gaps bs'" "free_bytes bs' = span ?x \<union> free_bytes ?bs" "\<forall>b \<in> set bs'. ?al dvd lo b"
  proof (cases "merge_free off sz' [] ?bs")
    case None
    then have ins: "a' = a\<lparr>ta_blocks := insert_free off sz' ?bs\<rparr>"
      using assms(2) by (simp add: ggml_dyn_tallocr_free_tensor_def Let_def flip: assms(3) split: if_splits)
    have "\<forall>b \<in> set ?bs. hi b \<noteq> unat off \<and> lo b \<noteq> unat off + unat sz'"
      using merge_free_spec [of "[]" ?bs off sz'] ok(1) bes None by simp
    from insert_free_spec [OF ok(1) bes this] have "gaps (insert_free off sz' ?bs)"
      "set (insert_free off sz' ?bs) = insert \<lparr>fb_offset = off, fb_size = sz'\<rparr> (set ?bs)" by simp_all
    with ins ok(2) x show thesis by (intro that [of "insert_free off sz' ?bs"]) (auto simp: free_bytes_def lo_def hi_def)
  next
    case (Some bs')
    then have "a' = a\<lparr>ta_blocks := bs'\<rparr>"
      using assms(2) by (simp add: ggml_dyn_tallocr_free_tensor_def Let_def flip: assms(3))
    moreover have "gaps bs'" "free_bytes bs' = span ?x \<union> free_bytes ?bs"
      using merge_free_spec [of "[]" ?bs off sz'] ok(1) bes Some x(1) by simp_all
    moreover have "\<forall>b \<in> set bs'. ?al dvd lo b" using merge_free_lo [OF Some] ok(2) x(3) by (auto simp: lo_def)
    ultimately show thesis by (rule that)
  qed
  define R where "R = (\<Union>y \<in> set ?rest. span y)"
  have "span ?x \<inter> R = {}" unfolding R_def using dis by blast
  moreover have "(span ?x \<union> R) \<inter> free_bytes ?bs = {}" "(span ?x \<union> R) \<union> free_bytes ?bs = {0..<space}"
    using ok(3,4) unfolding whole R_def by (simp_all only:)
  ultimately have "R \<inter> free_bytes bs' = {}" "R \<union> free_bytes bs' = {0..<space}" unfolding bs'(3) by blast+
  note fin = this [unfolded R_def]
  have "\<forall>y \<in> set ?rest. y \<in> set live" unfolding l(2) by (subst l(1)) auto
  then have lv: "\<forall>y \<in> set ?rest. 0 < snd y \<and> ?al dvd fst y \<and> ?al dvd snd y \<and> fst y + snd y \<le> unat (ta_max_size a)" using ok(6) by blast
  have a': "ta_blocks a' = bs'" "ta_alignment a' = ta_alignment a" "ta_max_size a' = ta_max_size a" by (simp_all add: bs'(1))
  show ?thesis unfolding alloc_ok_def a'
    by (intro conjI bs'(2,4) fin lv sorted_wrt_remove1 [OF ok(5)] refl)
qed

section \<open>Runs\<close>

text \<open>Runs of the allocator with the list of live allocations; a release names a live one.\<close>

inductive alloc_run :: "u64 \<Rightarrow> ggml_dyn_tallocr \<Rightarrow> (nat \<times> nat) list \<Rightarrow> bool" for al where
  fresh: "alloc_run al (ggml_dyn_tallocr_new al) []"
| alloc: "alloc_run al a live \<Longrightarrow> 0 < sz \<Longrightarrow> unat sz \<le> 2 ^ 62 \<Longrightarrow> ggml_dyn_tallocr_alloc a sz = Inr (off, a') \<Longrightarrow>
    alloc_run al a' ((unat off, unat (aligned_offset 0 sz al)) # live)"
| release: "alloc_run al a live \<Longrightarrow> (unat off, unat (aligned_offset 0 sz al)) \<in> set live \<Longrightarrow> ggml_dyn_tallocr_free_tensor a off sz = Inr a' \<Longrightarrow>
    alloc_run al a' (remove1 (unat off, unat (aligned_offset 0 sz al)) live)"

lemma alloc_run_ok: "alloc_run al a live \<Longrightarrow> 0 < al \<Longrightarrow> unat al \<le> 2 ^ 62 \<Longrightarrow> alloc_ok a live \<and> ta_alignment a = al"
proof (induction rule: alloc_run.induct)
  case fresh
  then show ?case by (simp add: alloc_ok_new) (simp add: ggml_dyn_tallocr_new_def ggml_dyn_tallocr_reset_def)
next
  case (alloc a live sz off a')
  have "0 < unat al" "unat sz + unat al \<le> 2 ^ 63" using alloc.prems alloc.hyps(3) by (simp_all add: word_less_nat_alt)
  note up = aligned_up [OF this]
  have "0 < unat sz" using alloc.hyps(2) by (simp add: word_less_nat_alt)
  then have "0 < unat (aligned_offset 0 sz al)" using up(2) by linarith
  with alloc_ok_alloc [of a live sz off a' "aligned_offset 0 sz al"] alloc up(1) show ?case by simp
next
  case (release a live off sz a')
  with alloc_ok_free [of a live off sz a' "aligned_offset 0 sz al"] show ?case by simp
qed

text \<open>Contiguous free bytes lie in one block.\<close>

lemma gaps_one_block:
  assumes "gaps bs" "0 < n" "{p..<p + n} \<subseteq> free_bytes bs"
  shows "\<exists>b \<in> set bs. lo b \<le> p \<and> p + n \<le> hi b"
proof -
  have "p \<in> free_bytes bs" using assms(2,3) by auto
  then obtain b where b: "b \<in> set bs" "lo b \<le> p" "p < hi b" by (auto simp: free_bytes_def)
  obtain xs ys where bs: "bs = xs @ b # ys" using b(1) by (meson split_list)
  have "p + n \<le> hi b"
  proof (rule ccontr)
    assume "\<not> p + n \<le> hi b"
    then have "hi b \<in> free_bytes bs" using assms(3) b(3) by auto
    then obtain c where c: "c \<in> set bs" "lo c \<le> hi b" "hi b < hi c" by (auto simp: free_bytes_def)
    from assms(1) c show False unfolding bs by (fastforce simp: gaps_append gaps_Cons)
  qed
  with b show ?thesis by blast
qed

lemma gaps_whole:
  assumes "gaps bs" "free_bytes bs = {0..<space}"
  shows "\<exists>b. bs = [b] \<and> lo b = 0 \<and> hi b = space"
proof -
  have "0 < space" by (simp add: space_def)
  from gaps_one_block [OF assms(1) this, of 0] assms(2) obtain b where b: "b \<in> set bs" "lo b = 0" "space \<le> hi b" by auto
  obtain xs ys where bs: "bs = xs @ b # ys" using b(1) by (meson split_list)
  have g: "gaps xs" "gaps ys" "hi b \<le> space" "\<forall>x \<in> set xs. hi x < lo b" "\<forall>y \<in> set ys. hi b < lo y"
    using assms(1) by (auto simp: bs gaps_append gaps_Cons)
  have "xs = []" using g(4) b(2) by (cases xs) auto
  moreover have "ys = []" using g(2,5) b(3) by (cases ys) (auto simp: gaps_Cons)
  ultimately show ?thesis using bs b g(3) by auto
qed

lemma block_eqI: "lo (b :: free_block) = lo c \<Longrightarrow> hi b = hi c \<Longrightarrow> b = c"
  by (cases b; cases c) (simp add: lo_def hi_def word_unat_eq_iff)

text \<open>C19. In every run the live allocations are pairwise disjoint, aligned and below the recorded maximum,
  and when all are released the allocator is back to its one fresh block.\<close>

theorem graph_alloc_disjoint:
  assumes "alloc_run al a live" "0 < al" "unat al \<le> 2 ^ 62"
  shows "sorted_wrt (\<lambda>x y. span x \<inter> span y = {}) live
    \<and> (\<forall>x \<in> set live. unat al dvd fst x \<and> fst x + snd x \<le> unat (ta_max_size a))
    \<and> (live = [] \<longrightarrow> ta_blocks a = ta_blocks (ggml_dyn_tallocr_new al))"
proof -
  have ok: "alloc_ok a live" "ta_alignment a = al" using alloc_run_ok [OF assms] by simp_all
  have "ta_blocks a = ta_blocks (ggml_dyn_tallocr_new al)" if "live = []"
  proof -
    have "gaps (ta_blocks a)" "free_bytes (ta_blocks a) = {0..<space}" using ok(1) that by (simp_all add: alloc_ok_def)
    from gaps_whole [OF this] obtain b where b: "ta_blocks a = [b]" "lo b = 0" "hi b = space" by blast
    have "unat (- 1 div 2 :: u64) = space" by (simp add: space_def unat_div)
    then have "b = \<lparr>fb_offset = 0, fb_size = - 1 div 2\<rparr>" using b(2,3) by (intro block_eqI) (simp_all add: lo_def hi_def space_def)
    with b(1) show ?thesis by (simp add: ggml_dyn_tallocr_new_def ggml_dyn_tallocr_reset_def)
  qed
  with ok show ?thesis by (simp add: alloc_ok_def)
qed

definition alloc_state :: "(u64 \<times> u64) list \<Rightarrow> u64 \<Rightarrow> ggml_dyn_tallocr" where
  "alloc_state bs mx = \<lparr>ta_alignment = 32, ta_blocks = map (\<lambda>(off, n). \<lparr>fb_offset = off, fb_size = n\<rparr>) bs, ta_max_size = mx\<rparr>"

lemma sample_steps:
  "ggml_dyn_tallocr_alloc (ggml_dyn_tallocr_new 32) 100 = Inr (0, alloc_state [(128, 9223372036854775679)] 128)"
  "ggml_dyn_tallocr_alloc (alloc_state [(128, 9223372036854775679)] 128) 40 = Inr (128, alloc_state [(192, 9223372036854775615)] 192)"
  "ggml_dyn_tallocr_free_tensor (alloc_state [(192, 9223372036854775615)] 192) 0 100 = Inr (alloc_state [(0, 128), (192, 9223372036854775615)] 192)"
  "aligned_offset 0 100 32 = 128" "aligned_offset 0 40 32 = 64"
  by code_simp+

lemma sample_alloc_run: "alloc_run 32 (alloc_state [(0, 128), (192, 9223372036854775615)] 192) [(128, 64)]"
proof -
  have "alloc_run 32 (alloc_state [(128, 9223372036854775679)] 128) [(0, 128)]"
    using alloc_run.alloc [OF alloc_run.fresh _ _ sample_steps(1)] by (simp add: sample_steps(4))
  from alloc_run.alloc [OF this _ _ sample_steps(2)] have "alloc_run 32 (alloc_state [(192, 9223372036854775615)] 192) [(128, 64), (0, 128)]"
    by (simp add: sample_steps(5))
  from alloc_run.release [OF this _ sample_steps(3)] show ?thesis by (simp add: sample_steps(4))
qed

theorem graph_alloc_disjoint_witness:
  "sorted_wrt (\<lambda>x y. span x \<inter> span y = {}) [(128, 64)] \<and> (32::nat) dvd 128
    \<and> 192 \<le> unat (ta_max_size (alloc_state [(0, 128), (192, 9223372036854775615)] 192))"
  using graph_alloc_disjoint [OF sample_alloc_run] by simp

text \<open>An allocation is refused exactly when no contiguous run of unused bytes is long enough.\<close>

theorem graph_alloc_refuses:
  assumes "alloc_run al a live" "0 < al" "unat al \<le> 2 ^ 62" "0 < sz" "unat sz \<le> 2 ^ 62"
  shows "ggml_dyn_tallocr_alloc a sz = Inl No_space \<longleftrightarrow>
    \<not> (\<exists>p. {p..<p + unat (aligned_offset 0 sz al)} \<subseteq> {0..<space} - (\<Union>x \<in> set live. span x))"
proof -
  let ?n = "unat (aligned_offset 0 sz al)"
  have ok: "alloc_ok a live" "ta_alignment a = al" using alloc_run_ok [OF assms(1-3)] by simp_all
  have "0 < unat al" "unat sz + unat al \<le> 2 ^ 63" using assms(2,3,5) by (simp_all add: word_less_nat_alt)
  note up = aligned_up [OF this]
  have n: "0 < ?n" using up(2) assms(4) by (simp add: word_less_nat_alt)
  have g: "gaps (ta_blocks a)" using ok(1) by (simp add: alloc_ok_def)
  have free: "{0..<space} - (\<Union>x \<in> set live. span x) = free_bytes (ta_blocks a)"
    using ok(1) unfolding alloc_ok_def by blast
  have "(\<exists>p. {p..<p + ?n} \<subseteq> free_bytes (ta_blocks a)) \<longleftrightarrow> (\<exists>b \<in> set (ta_blocks a). aligned_offset 0 sz al \<le> fb_size b)"
  proof
    assume "\<exists>p. {p..<p + ?n} \<subseteq> free_bytes (ta_blocks a)"
    then obtain p b where "b \<in> set (ta_blocks a)" "lo b \<le> p" "p + ?n \<le> hi b" using gaps_one_block [OF g n] by blast
    then have "?n \<le> unat (fb_size b)" by (simp add: lo_def hi_def)
    with \<open>b \<in> set (ta_blocks a)\<close> show "\<exists>b \<in> set (ta_blocks a). aligned_offset 0 sz al \<le> fb_size b" by (auto simp: word_le_nat_alt)
  next
    assume "\<exists>b \<in> set (ta_blocks a). aligned_offset 0 sz al \<le> fb_size b"
    then obtain b where b: "b \<in> set (ta_blocks a)" "?n \<le> unat (fb_size b)" by (auto simp: word_le_nat_alt)
    then have "{lo b..<lo b + ?n} \<subseteq> free_bytes (ta_blocks a)" by (fastforce simp: free_bytes_def lo_def hi_def)
    then show "\<exists>p. {p..<p + ?n} \<subseteq> free_bytes (ta_blocks a)" ..
  qed
  moreover have "ggml_dyn_tallocr_alloc a sz = Inl No_space \<longleftrightarrow> \<not> (\<exists>b \<in> set (ta_blocks a). aligned_offset 0 sz al \<le> fb_size b)"
  proof (cases rule: alloc_cases [OF refl, of a sz])
    case (1)
    then show ?thesis by (simp add: ok(2) not_le)
  next
    case (2 i)
    then have "ta_blocks a ! i \<in> set (ta_blocks a)" "aligned_offset 0 sz al \<le> fb_size (ta_blocks a ! i)" by (simp_all add: ok(2))
    with 2(3) show ?thesis by auto
  qed
  ultimately show ?thesis unfolding free by simp
qed

theorem graph_alloc_refuses_witness:
  "ggml_dyn_tallocr_alloc (alloc_state [(0, 128), (192, 9223372036854775615)] 192) 129 \<noteq> Inl No_space
    \<and> {192..<192 + unat (aligned_offset 0 129 32)} \<subseteq> {0..<space} - (\<Union>x \<in> set [(128, 64)]. span x)"
proof -
  have e: "aligned_offset 0 129 32 = 160" by code_simp
  then have "{192..<192 + unat (aligned_offset 0 129 32)} \<subseteq> {0..<space} - (\<Union>x \<in> set [(128, 64)]. span x)"
    by (auto simp: span_def space_def)
  with graph_alloc_refuses [OF sample_alloc_run, of 129] show ?thesis by auto
qed

end
