(* ===== verification/Reasoning_Budget.thy ===== *)
theory Reasoning_Budget
  imports Pin_Prelude
begin

text \<open>
  The reasoning budget (\<open>common/reasoning-budget.cpp\<close>): a matcher for token sequences and the
  state machine that forces the end of a reasoning block. The vocabulary is a parameter: the bytes
  of a token's piece, or nothing for a null pointer.
\<close>

section \<open>The matcher\<close>

record token_matcher =
  tm_tokens :: "int list"
  tm_pos :: nat

definition advance :: "token_matcher \<Rightarrow> int \<Rightarrow> bool \<times> token_matcher" where
  "advance m token =
     (if tm_tokens m = [] then (False, m)
      else if token = tm_tokens m ! tm_pos m then
        if tm_pos m + 1 \<ge> length (tm_tokens m) then (True, m\<lparr>tm_pos := 0\<rparr>)
        else (False, m\<lparr>tm_pos := tm_pos m + 1\<rparr>)
      else (False, m\<lparr>tm_pos := (if token = tm_tokens m ! 0 then 1 else 0)\<rparr>))"

definition reset_matcher :: "token_matcher \<Rightarrow> token_matcher" where
  "reset_matcher m = m\<lparr>tm_pos := 0\<rparr>"

section \<open>Complete characters\<close>

fun utf8_back :: "nat \<Rightarrow> u8 list \<Rightarrow> bool" where
  "utf8_back i [] = False"
| "utf8_back i (c # cs) =
     (if c AND 0xC0 \<noteq> 0x80
      then i \<ge> (if c \<ge> 0xF0 then 4 else if c \<ge> 0xE0 then 3 else if c \<ge> 0xC0 then 2 else 1)
      else utf8_back (i + 1) cs)"

definition common_utf8_is_complete :: "u8 list \<Rightarrow> bool" where
  "common_utf8_is_complete s = (s = [] \<or> utf8_back 1 (take 4 (rev s)))"

text \<open>Only the piece of the last token is looked at: the last byte of a character that was split into byte tokens counts as incomplete.\<close>

lemma lone_continuation: "common_utf8_is_complete [0xE2, 0x82, 0xAC] \<and> \<not> common_utf8_is_complete [0xAC]"
  by code_simp

section \<open>The state machine\<close>

datatype common_reasoning_budget_state =
  REASONING_BUDGET_IDLE | REASONING_BUDGET_COUNTING | REASONING_BUDGET_FORCING | REASONING_BUDGET_WAITING_UTF8 | REASONING_BUDGET_DONE

record common_reasoning_budget_ctx =
  rb_vocab :: "(int \<Rightarrow> u8 list) option"
  rb_start_matcher :: token_matcher
  rb_end_matcher :: token_matcher
  rb_forced_tokens :: "int list"
  rb_budget :: int
  rb_remaining :: int
  rb_state :: common_reasoning_budget_state
  rb_force_pos :: nat






definition common_reasoning_budget_reset :: "common_reasoning_budget_ctx \<Rightarrow> common_reasoning_budget_ctx" where
  "common_reasoning_budget_reset c =
     c\<lparr>rb_state := REASONING_BUDGET_IDLE, rb_remaining := rb_budget c, rb_start_matcher := reset_matcher (rb_start_matcher c),
       rb_end_matcher := reset_matcher (rb_end_matcher c), rb_force_pos := 0\<rparr>"

definition common_reasoning_budget_init ::
  "(int \<Rightarrow> u8 list) option \<Rightarrow> int list \<Rightarrow> int list \<Rightarrow> int list \<Rightarrow> int \<Rightarrow> common_reasoning_budget_state \<Rightarrow> common_reasoning_budget_ctx" where
  "common_reasoning_budget_init vocab start_tokens end_tokens forced_tokens budget initial_state =
     (let initial_state = (if initial_state = REASONING_BUDGET_COUNTING \<and> budget \<le> 0 then REASONING_BUDGET_FORCING else initial_state) in
      \<lparr>rb_vocab = vocab, rb_start_matcher = \<lparr>tm_tokens = start_tokens, tm_pos = 0\<rparr>, rb_end_matcher = \<lparr>tm_tokens = end_tokens, tm_pos = 0\<rparr>,
       rb_forced_tokens = forced_tokens, rb_budget = budget, rb_remaining = budget, rb_state = initial_state, rb_force_pos = 0\<rparr>)"

definition common_reasoning_budget_get_state :: "common_reasoning_budget_ctx option \<Rightarrow> common_reasoning_budget_state" where
  "common_reasoning_budget_get_state ctx = (case ctx of None \<Rightarrow> REASONING_BUDGET_IDLE | Some c \<Rightarrow> rb_state c)"

section \<open>The matcher finds its sequence\<close>

fun advance_all :: "token_matcher \<Rightarrow> int list \<Rightarrow> token_matcher" where
  "advance_all m [] = m"
| "advance_all m (t # ts) = advance_all (snd (advance m t)) ts"

lemma advance_all_append: "advance_all m (xs @ ys) = advance_all (advance_all m xs) ys"
  by (induction xs arbitrary: m) simp_all

text \<open>The position is the length of the longest proper beginning of the sequence that ends the text.\<close>

definition matcher_ok :: "int list \<Rightarrow> token_matcher \<Rightarrow> int list \<Rightarrow> bool" where
  "matcher_ok pat m text \<longleftrightarrow> tm_tokens m = pat \<and> tm_pos m < length pat \<and> suffix (take (tm_pos m) pat) text
     \<and> (\<forall>p < length pat. suffix (take p pat) text \<longrightarrow> p \<le> tm_pos m)"

lemma suffix_take_snoc: "p < length pat \<Longrightarrow> suffix (take (Suc p) pat) (ts @ [x]) \<longleftrightarrow> pat ! p = x \<and> suffix (take p pat) ts"
  by (simp add: take_Suc_conv_app_nth)

lemma suffix_takes:
  assumes "suffix (take p pat) ts" "suffix (take q pat) ts" "0 < p" "p \<le> q" "q \<le> length pat"
  shows "pat ! (q - p) = pat ! 0"
proof -
  have "suffix (take p pat) (take q pat)" using suffix_length_suffix [OF assms(1,2)] assms(4,5) by simp
  then have "take p pat = drop (length (take q pat) - length (take p pat)) (take q pat)" by (metis suffix_drop suffix_take append_eq_conv_conj suffix_def length_append add_diff_cancel_right')
  then have "take p pat = drop (q - p) (take q pat)" using assms(4,5) by simp
  then have "take p pat ! 0 = drop (q - p) (take q pat) ! 0" by simp
  then show ?thesis using assms(3-5) by simp
qed

lemma matcher_step:
  assumes "matcher_ok pat m ts" "pat ! 0 \<notin> set (tl pat)"
  shows "fst (advance m x) = suffix pat (ts @ [x])" and "matcher_ok pat (snd (advance m x)) (ts @ [x])"
proof -
  let ?p = "tm_pos m"
  have m: "tm_tokens m = pat" "?p < length pat" "suffix (take ?p pat) ts" "\<And>p. p < length pat \<Longrightarrow> suffix (take p pat) ts \<Longrightarrow> p \<le> ?p"
    using assms(1) by (simp_all add: matcher_ok_def)
  have ne: "pat \<noteq> []" using m(2) by auto
  have head: "pat ! i \<noteq> pat ! 0" if "0 < i" "i < length pat" for i
    using assms(2) that by (cases pat) (auto simp: in_set_conv_nth nth_Cons' split: if_splits)
  have full: "suffix pat (ts @ [x]) \<longleftrightarrow> x = pat ! ?p \<and> Suc ?p = length pat"
  proof -
    have "suffix pat (ts @ [x]) \<longleftrightarrow> pat ! (length pat - 1) = x \<and> suffix (take (length pat - 1) pat) ts"
      using suffix_take_snoc [of "length pat - 1" pat ts x] ne by simp
    moreover have "suffix (take (length pat - 1) pat) ts \<longleftrightarrow> Suc ?p = length pat"
    proof
      assume "suffix (take (length pat - 1) pat) ts"
      then have "length pat - 1 \<le> ?p" using m(4) [of "length pat - 1"] ne by simp
      then show "Suc ?p = length pat" using m(2) by simp
    next
      assume "Suc ?p = length pat"
      then have "length pat - 1 = ?p" by simp
      then show "suffix (take (length pat - 1) pat) ts" using m(3) by simp
    qed
    ultimately show ?thesis by (metis diff_Suc_1)
  qed
  then show "fst (advance m x) = suffix pat (ts @ [x])" using m(1,2) ne by (auto simp: advance_def)
  have longer: "p \<le> Suc ?p \<and> pat ! (p - 1) = x \<and> suffix (take (p - 1) pat) ts"
    if "0 < p" "p \<le> length pat" "suffix (take p pat) (ts @ [x])" for p
  proof -
    have "Suc (p - 1) = p" "p - 1 < length pat" using that(1,2) by simp_all
    with suffix_take_snoc [of "p - 1" pat ts x] that(3) have "pat ! (p - 1) = x" "suffix (take (p - 1) pat) ts" by simp_all
    with m(4) [OF \<open>p - 1 < length pat\<close>] show ?thesis by simp
  qed
  show "matcher_ok pat (snd (advance m x)) (ts @ [x])"
  proof (cases "x = pat ! ?p")
    case True
    show ?thesis
    proof (cases "Suc ?p = length pat")
      case whole: True
      have "p = 0" if p: "p < length pat" "suffix (take p pat) (ts @ [x])" for p
      proof (rule ccontr)
        assume "p \<noteq> 0"
        have "suffix (take (length pat) pat) (ts @ [x])" using full True whole by simp
        from suffix_takes [OF p(2) this] \<open>p \<noteq> 0\<close> p(1) have "pat ! (length pat - p) = pat ! 0" by simp
        moreover have "0 < length pat - p" "length pat - p < length pat" using \<open>p \<noteq> 0\<close> p(1) by linarith+
        ultimately show False using head by blast
      qed
      with True whole m(1) ne show ?thesis by (auto simp: matcher_ok_def advance_def)
    next
      case False
      then have "Suc ?p < length pat" using m(2) by simp
      moreover have "suffix (take (Suc ?p) pat) (ts @ [x])" using suffix_take_snoc [OF m(2)] True m(3) by simp
      moreover have "p \<le> Suc ?p" if "p < length pat" "suffix (take p pat) (ts @ [x])" for p
        using longer [of p] that by (cases "p = 0") auto
      ultimately show ?thesis using True m(1) ne by (simp add: matcher_ok_def advance_def)
    qed
  next
    case False
    let ?q = "if x = pat ! 0 then 1 else 0 :: nat"
    have q: "snd (advance m x) = m\<lparr>tm_pos := ?q\<rparr>" using False m(1) ne by (simp add: advance_def)
    have "?q < length pat"
    proof (cases "x = pat ! 0")
      case True
      with False have "0 < ?p" by (cases "?p = 0") auto
      with m(2) True show ?thesis by simp
    qed (use ne in simp)
    moreover have "suffix (take ?q pat) (ts @ [x])" using suffix_take_snoc [of 0 pat ts x] ne by auto
    moreover have "p \<le> ?q" if p: "p < length pat" "suffix (take p pat) (ts @ [x])" for p
    proof (cases "p \<le> 1")
      case True
      then consider "p = 0" | "p = 1" by linarith
      then show ?thesis using longer [of 1] p by cases auto
    next
      case big: False
      then have l: "p \<le> Suc ?p" "pat ! (p - 1) = x" "suffix (take (p - 1) pat) ts" using longer [of p] p by simp_all
      then have "p - 1 < ?p" using False big by (metis One_nat_def Suc_pred le_neq_implies_less le_Suc_eq not_le diff_Suc_1 less_one not_less)
      from suffix_takes [OF l(3) m(3)] this big m(2) have "pat ! (?p - (p - 1)) = pat ! 0" by simp
      with head [of "?p - (p - 1)"] \<open>p - 1 < ?p\<close> m(2) big show ?thesis by simp
    qed
    ultimately show ?thesis using q m(1) by (simp add: matcher_ok_def)
  qed
qed

lemma matcher_run: "matcher_ok pat m ts \<Longrightarrow> pat ! 0 \<notin> set (tl pat) \<Longrightarrow> matcher_ok pat (advance_all m xs) (ts @ xs)"
proof (induction xs arbitrary: m ts)
  case (Cons x xs)
  from Cons.IH [OF matcher_step(2) [OF Cons.prems] Cons.prems(2)] show ?case by simp
qed simp

text \<open>When its first token does not recur in the sequence, the matcher reports a token exactly when the
  tokens fed so far end in the sequence.\<close>

theorem matcher_exact:
  assumes "pat \<noteq> []" "pat ! 0 \<notin> set (tl pat)"
  shows "fst (advance (advance_all \<lparr>tm_tokens = pat, tm_pos = 0\<rparr> ts) t) \<longleftrightarrow> suffix pat (ts @ [t])"
proof -
  have "matcher_ok pat \<lparr>tm_tokens = pat, tm_pos = 0\<rparr> []" using assms(1) by (simp add: matcher_ok_def)
  from matcher_run [OF this assms(2)] have "matcher_ok pat (advance_all \<lparr>tm_tokens = pat, tm_pos = 0\<rparr> ts) ts" by simp
  from matcher_step(1) [OF this assms(2)] show ?thesis by simp
qed

theorem matcher_exact_witness:
  "fst (advance (advance_all \<lparr>tm_tokens = [7, 8, 9], tm_pos = 0\<rparr> [7, 7, 8]) 9) \<longleftrightarrow> suffix [7, 8, 9] ([7, 7, 8] @ [9 :: int])"
  by (rule matcher_exact) simp_all

text \<open>Without the condition an occurrence can be missed.\<close>

lemma matcher_misses:
  "suffix [7, 7, 9] ([7, 7, 7] @ [9]) \<and> \<not> fst (advance (advance_all \<lparr>tm_tokens = [7, 7, 9], tm_pos = 0\<rparr> [7, 7, 7]) 9)"
  by (simp add: advance_def suffix_def)

section \<open>The budget\<close>



















text \<open>A budget of two tokens that ends inside a character: tokens 5 and 6 are bytes of it, 7 is a letter.\<close>

definition demo_pieces :: "int \<Rightarrow> u8 list" where
  "demo_pieces t = (if t = 5 then [0xE2] else if t = 6 then [0x82] else [0x61])"

definition "sample_budget = common_reasoning_budget_init (Some demo_pieces) [1] [2] [8, 2] 2 REASONING_BUDGET_COUNTING"


end
