(* ===== verification/Suffix_Tree.thy ===== *)
theory Suffix_Tree
  imports Expert_Stats "HOL-Library.AList"
begin

text \<open>
  The suffix tree of the suffix decoder (\<open>common/suffix-tree.h\<close> and \<open>.cpp\<close>): a trie that
  counts the substrings of the token history up to a depth, and the drafts made by following the most
  frequent continuation. \<open>int\<close>s and the 64-bit counts are integers; the number of tokens stays
  below \<open>2^31\<close>, beyond which the casts of the code are not defined. A child table is an
  association list in order of insertion; the order in which the \<open>unordered_map\<close> is walked
  is a parameter. A \<open>float\<close> is the rational it stands for, rounded to 24 bits with subnormals.
\<close>

section \<open>The trie\<close>

datatype common_suffix_node = Suffix_Node (sn_count: int) (sn_children: "(int \<times> common_suffix_node) list")

record common_suffix_tree =
  sx_max_depth :: int
  sx_root :: common_suffix_node
  sx_tokens :: "int list"
  sx_n_inserted :: int

definition suffix_new :: "int \<Rightarrow> common_suffix_tree" where
  "suffix_new d = \<lparr>sx_max_depth = d, sx_root = Suffix_Node 0 [], sx_tokens = [], sx_n_inserted = 0\<rparr>"

definition suffix_clear :: "common_suffix_tree \<Rightarrow> common_suffix_tree" where
  "suffix_clear t = t\<lparr>sx_root := Suffix_Node 0 [], sx_tokens := [], sx_n_inserted := 0\<rparr>"

text \<open>The loop that walks down a suffix and counts every node on its way.\<close>

fun count_path :: "int list \<Rightarrow> common_suffix_node \<Rightarrow> common_suffix_node" where
  "count_path [] nd = nd"
| "count_path (tok # ts) nd = (case map_of (sn_children nd) tok of
       None \<Rightarrow> Suffix_Node (sn_count nd) (sn_children nd @ [(tok, count_path ts (Suffix_Node 1 []))])
     | Some ch \<Rightarrow> Suffix_Node (sn_count nd)
         (AList.update tok (count_path ts (Suffix_Node (sn_count ch + 1) (sn_children ch))) (sn_children nd)))"

definition token_slice :: "int list \<Rightarrow> int \<Rightarrow> int \<Rightarrow> int list" where
  "token_slice tokens start len = take (nat len) (drop (nat start) tokens)"

definition insert_suffix :: "int \<Rightarrow> int list \<Rightarrow> int \<Rightarrow> common_suffix_node \<Rightarrow> common_suffix_node" where
  "insert_suffix max_depth tokens start top_node =
     (let len = min (int (length tokens) - start) max_depth in
      if len \<le> 0 then top_node else count_path (token_slice tokens start len) top_node)"

text \<open>The walk through the part already counted, then the counting of the rest.\<close>

fun extend_path :: "int list \<Rightarrow> int list \<Rightarrow> common_suffix_node \<Rightarrow> common_suffix_node" where
  "extend_path [] new nd = count_path new nd"
| "extend_path (tok # ts) new nd = (case map_of (sn_children nd) tok of
       None \<Rightarrow> nd
     | Some ch \<Rightarrow> Suffix_Node (sn_count nd) (AList.update tok (extend_path ts new ch) (sn_children nd)))"

definition extend_suffix :: "int list \<Rightarrow> int \<Rightarrow> int \<Rightarrow> int \<Rightarrow> common_suffix_node \<Rightarrow> common_suffix_node" where
  "extend_suffix tokens start old_len new_len top_node =
     extend_path (token_slice tokens start old_len) (token_slice tokens (start + old_len) (new_len - old_len)) top_node"

definition extend_at :: "int \<Rightarrow> int \<Rightarrow> int \<Rightarrow> int list \<Rightarrow> int \<Rightarrow> common_suffix_node \<Rightarrow> common_suffix_node" where
  "extend_at max_depth n_inserted old_size tokens i top_node =
     (if i < n_inserted then
        let old_len = min (old_size - i) max_depth; new_len = min (int (length tokens) - i) max_depth in
        if new_len > old_len then extend_suffix tokens i old_len new_len top_node else top_node
      else insert_suffix max_depth tokens i top_node)"

definition suffix_extend :: "int list \<Rightarrow> common_suffix_tree \<Rightarrow> common_suffix_tree" where
  "suffix_extend new t = (if new = [] then t else
     let old_size = int (length (sx_tokens t)); tokens = sx_tokens t @ new; new_size = int (length tokens);
         reinsert_from = max 0 (old_size - sx_max_depth t);
         top_node = fold (extend_at (sx_max_depth t) (sx_n_inserted t) old_size tokens) [reinsert_from..new_size - 1] (sx_root t)
     in t\<lparr>sx_root := top_node, sx_tokens := tokens, sx_n_inserted := new_size\<rparr>)"

section \<open>Drafts\<close>

definition float_pos :: "rat \<Rightarrow> rat" where
  "float_pos q = (let s = pow2 (23 - max (exponent q) (-126)) in of_int (round_even (q * s)) / s)"

definition float_round :: "rat \<Rightarrow> rat" where
  "float_round q = (if q = 0 then 0 else if q < 0 then - float_pos (- q) else float_pos q)"

text \<open>The walk of the context down the trie.\<close>

fun walk :: "int list \<Rightarrow> common_suffix_node \<Rightarrow> common_suffix_node option" where
  "walk [] nd = Some nd"
| "walk (tok # ts) nd = (case map_of (sn_children nd) tok of None \<Rightarrow> None | Some ch \<Rightarrow> walk ts ch)"

text \<open>The child with the highest count, the first one met of those.\<close>

fun best_child :: "(int \<times> common_suffix_node) list \<Rightarrow> int \<Rightarrow> int \<Rightarrow> int \<times> int" where
  "best_child [] best_tok best_count = (best_tok, best_count)"
| "best_child ((tok, ch) # chs) best_tok best_count =
     (if sn_count ch > best_count then best_child chs tok (sn_count ch) else best_child chs best_tok best_count)"

type_synonym map_order = "(int \<times> common_suffix_node) list \<Rightarrow> (int \<times> common_suffix_node) list"

fun follow :: "map_order \<Rightarrow> rat \<Rightarrow> nat \<Rightarrow> rat \<Rightarrow> rat \<Rightarrow> common_suffix_node \<Rightarrow> (rat \<times> int list) throws" where
  "follow order min_token_prob 0 score prob cur = Inr (score, [])"
| "follow order min_token_prob (Suc k) score prob cur =
     (if sn_children cur = [] then Inr (score, []) else
      let (tok, cnt) = best_child (order (sn_children cur)) (-1) 0;
          prob = float_round (prob * float_round (float_round (of_int cnt) / float_round (of_int (sn_count cur)))) in
      if prob < min_token_prob then Inr (score, []) else
      (case map_of (sn_children cur) tok of
         None \<Rightarrow> Inl ''out_of_range''
       | Some ch \<Rightarrow> ebind (follow order min_token_prob k (float_round (score + prob)) prob ch) (\<lambda>(s, d). Inr (s, tok # d))))"

definition last_tokens :: "nat \<Rightarrow> int list \<Rightarrow> int list" where
  "last_tokens n ctx = drop (length ctx - n) ctx"

fun match_lengths :: "map_order \<Rightarrow> common_suffix_node \<Rightarrow> int list \<Rightarrow> int \<Rightarrow> rat \<Rightarrow> int \<Rightarrow> int list \<Rightarrow> rat \<Rightarrow> int list \<Rightarrow> int list throws" where
  "match_lengths order top_node ctx max_spec min_token_prob min_match_count [] best_score best_draft = Inr best_draft"
| "match_lengths order top_node ctx max_spec min_token_prob min_match_count (len # lens) best_score best_draft =
     (case walk (last_tokens (nat len) ctx) top_node of
        None \<Rightarrow> Inr best_draft
      | Some node \<Rightarrow>
          if sn_count node < min_match_count \<or> sn_children node = [] then
            match_lengths order top_node ctx max_spec min_token_prob min_match_count lens best_score best_draft
          else ebind (follow order min_token_prob (nat (min max_spec (len + 8))) 0 1 node) (\<lambda>(score, draft).
            if score > best_score \<and> draft \<noteq> [] then
              match_lengths order top_node ctx max_spec min_token_prob min_match_count lens score draft
            else match_lengths order top_node ctx max_spec min_token_prob min_match_count lens best_score best_draft))"

definition suffix_speculate :: "map_order \<Rightarrow> int list \<Rightarrow> int \<Rightarrow> rat \<Rightarrow> int \<Rightarrow> int \<Rightarrow> common_suffix_tree \<Rightarrow> int list throws" where
  "suffix_speculate order context max_spec min_token_prob min_match_count min_match_len t =
     (if context = [] \<or> max_spec \<le> 0 then Inr [] else
      let context = (if int (length context) > sx_max_depth t
            then drop (nat (int (length context) - sx_max_depth t)) context else context);
          n_context = min (int (length context)) (sx_max_depth t) in
      match_lengths order (sx_root t) context max_spec min_token_prob min_match_count
        [max 1 min_match_len..n_context] 0 [])"

section \<open>Corpora\<close>

text \<open>
  The texts of a parsed document. A corpus file is absent, a document that cannot be parsed, a
  document, or a sequence of 32-bit tokens with the size the file system reports and whether reading ended in an error.
\<close>

lemma size_list_in_member: "(k, m) \<in> set xs \<Longrightarrow> size m \<le> size_list (size_prod (\<lambda>_. 0) size) xs"
  by (induction xs) auto

function extract_texts :: "json \<Rightarrow> string list" where
  "extract_texts (J_String s) = (if s = [] then [] else [s])"
| "extract_texts (J_Array items) = concat (map extract_texts items)"
| "extract_texts (J_Object members) = (case map_of members ''content'' of
       Some (J_String s) \<Rightarrow> (if s = [] then [] else [s])
     | _ \<Rightarrow> (case map_of members ''messages'' of Some m \<Rightarrow> extract_texts m | None \<Rightarrow> []))"
| "extract_texts J_Null = []"
| "extract_texts (J_Bool b) = []"
| "extract_texts (J_Unsigned u) = []"
| "extract_texts (J_Integer i) = []"
| "extract_texts (J_Float r) = []"
  by pat_completeness auto
termination
  by (relation "measure size") (auto simp: less_Suc_eq_le dest!: map_of_SomeD size_list_in_member intro: size_list_estimation' [OF _ order_refl])

datatype corpus_file = No_File | Bad_Document | Document json | Tokens "int list" "u64 option" bool

definition suffix_estimated_insert_work :: "u64 \<Rightarrow> int \<Rightarrow> u64" where
  "suffix_estimated_insert_work n_tokens max_depth = n_tokens * word_of_int (max max_depth 1)"

definition suffix_corpus_check_limit :: "u64 \<Rightarrow> int \<Rightarrow> bool" where
  "suffix_corpus_check_limit n_tokens max_depth = (suffix_estimated_insert_work n_tokens max_depth \<le> 268435456)"

text \<open>Both loops of the loader: parts of a corpus are added while the total stays within the limit.\<close>

fun load_parts :: "int list list \<Rightarrow> u64 \<Rightarrow> common_suffix_tree \<Rightarrow> (u64 \<times> common_suffix_tree) option" where
  "load_parts [] n_total t = Some (n_total, t)"
| "load_parts (tokens # parts) n_total t =
     (if tokens = [] then load_parts parts n_total t else
      let projected = n_total + of_nat (length tokens) in
      if \<not> suffix_corpus_check_limit projected (sx_max_depth t) then None
      else load_parts parts projected (suffix_extend tokens t))"

fun chunks_of :: "nat \<Rightarrow> int list \<Rightarrow> int list list" where
  "chunks_of n xs = (if xs = [] \<or> n = 0 then [] else take n xs # chunks_of n (drop n xs))"

declare chunks_of.simps [simp del]

definition load_corpus :: "(string \<Rightarrow> int list) option \<Rightarrow> bool \<Rightarrow> corpus_file \<Rightarrow> common_suffix_tree \<Rightarrow> bool \<times> common_suffix_tree" where
  "load_corpus tokenize is_json file t = (if is_json then
     (case (tokenize, file) of
        (Some tokenize, Document doc) \<Rightarrow>
          let texts = extract_texts doc in
          if texts = [] then (False, t) else
          (case load_parts (map tokenize texts) 0 t of
             None \<Rightarrow> (False, suffix_clear t)
           | Some (n_total, t) \<Rightarrow> if n_total = 0 then (False, suffix_clear t) else (True, t))
      | _ \<Rightarrow> (False, t))
     else (case file of
        Tokens tokens reported error \<Rightarrow>
          if (case reported of Some b \<Rightarrow> b div 4 > 0 \<and> \<not> suffix_corpus_check_limit (b div 4) (sx_max_depth t) | None \<Rightarrow> False)
          then (False, t) else
          (case load_parts (chunks_of 32768 tokens) 0 t of
             None \<Rightarrow> (False, suffix_clear t)
           | Some (n_total, t) \<Rightarrow> if error then (False, suffix_clear t) else if n_total = 0 then (False, t) else (True, t))
      | _ \<Rightarrow> (False, t)))"

end
