(* ===== verification/Suffix_Counts.thy ===== *)
theory Suffix_Counts
  imports Suffix_Tree
begin

text \<open>
  The suffix tree counts substrings: after any sequence of extensions the node at a path holds the
  number of occurrences of the path in the token history, and a draft is a most frequent
  continuation that has occurred.
\<close>

section \<open>Paths\<close>

definition path_count :: "int list \<Rightarrow> common_suffix_node \<Rightarrow> int" where
  "path_count p nd = (case walk p nd of None \<Rightarrow> 0 | Some n \<Rightarrow> sn_count n)"

lemma walk_append: "walk (p @ q) nd = Option.bind (walk p nd) (walk q)"
  by (induction p arbitrary: nd) (auto split: option.splits)

lemma count_path_keeps_count [simp]: "sn_count (count_path ts nd) = sn_count nd"
  by (cases ts) (auto split: option.splits)

lemma extend_path_keeps_count [simp]: "sn_count (extend_path old new nd) = sn_count nd"
  by (cases old) (auto split: option.splits)

definition entered :: "common_suffix_node \<Rightarrow> int \<Rightarrow> common_suffix_node" where
  "entered nd tok = (case map_of (sn_children nd) tok of
       None \<Rightarrow> Suffix_Node 1 [] | Some ch \<Rightarrow> Suffix_Node (sn_count ch + 1) (sn_children ch))"

lemma map_of_snoc: "map_of xs k = None \<Longrightarrow> map_of (xs @ [(k, v)]) = (map_of xs)(k \<mapsto> v)"
  by (auto simp: map_add_def fun_eq_iff split: option.splits)

lemma count_path_children:
  "map_of (sn_children (count_path (tok # ts) nd)) = (map_of (sn_children nd))(tok \<mapsto> count_path ts (entered nd tok))"
  by (auto simp: entered_def AList.update_conv' map_of_snoc simp del: map_of_append split: option.splits)

lemma extend_path_children:
  "map_of (sn_children (extend_path (tok # ts) new nd)) = (case map_of (sn_children nd) tok of
      None \<Rightarrow> map_of (sn_children nd) | Some ch \<Rightarrow> (map_of (sn_children nd))(tok \<mapsto> extend_path ts new ch))"
  by (auto simp: AList.update_conv' split: option.splits)

lemma walk_leaf [simp]: "walk p (Suffix_Node c []) = (if p = [] then Some (Suffix_Node c []) else None)"
  by (cases p) auto

lemma walk_same_children: "p \<noteq> [] \<Longrightarrow> sn_children nd = sn_children nd' \<Longrightarrow> walk p nd = walk p nd'"
  by (cases p) auto

lemma walk_entered:
  "walk p (entered nd tok) = None \<longleftrightarrow> p \<noteq> [] \<and> walk (tok # p) nd = None"
  by (cases p) (auto simp: entered_def split: option.splits)

lemma count_entered:
  "path_count p (entered nd tok) = path_count (tok # p) nd + (if p = [] then 1 else 0)"
  by (cases p) (auto simp: path_count_def entered_def split: option.splits)

lemmas path_simps = count_path_children extend_path_children

lemma walk_count_path: "walk p (count_path ts nd) = None \<longleftrightarrow> walk p nd = None \<and> \<not> prefix p ts"
proof (induction ts arbitrary: p nd)
  case (Cons tok ts)
  then show ?case using walk_entered [of _ nd tok]
    by (cases p) (auto simp: count_path_children simp del: count_path.simps(2) split: option.splits)
qed (cases p, auto)

lemma path_count_path:
  "p \<noteq> [] \<Longrightarrow> path_count p (count_path ts nd) = path_count p nd + (if prefix p ts then 1 else 0)"
proof (induction ts arbitrary: p nd)
  case (Cons tok ts)
  then obtain q ps where p: "p = q # ps" by (cases p) auto
  show ?case
  proof (cases "q = tok")
    case True
    then have "path_count p (count_path (tok # ts) nd) = path_count ps (count_path ts (entered nd tok))"
      by (simp add: path_count_def p count_path_children del: count_path.simps(2))
    also have "\<dots> = path_count ps (entered nd tok) + (if ps \<noteq> [] \<and> prefix ps ts then 1 else 0)"
      using Cons.IH [of ps "entered nd tok"] by (cases ps) (auto simp: path_count_def)
    finally show ?thesis using True by (auto simp: count_entered p)
  next
    case False
    then show ?thesis by (simp add: path_count_def p count_path_children del: count_path.simps(2))
  qed
qed (cases p, auto)

lemma walk_extend_path:
  "walk old nd \<noteq> None \<Longrightarrow> walk p (extend_path old new nd) = None \<longleftrightarrow> walk p nd = None \<and> \<not> prefix p (old @ new)"
proof (induction old arbitrary: p nd)
  case (Cons tok ts)
  then show ?case
    by (cases p) (auto simp: extend_path_children simp del: extend_path.simps(2) split: option.splits)
qed (simp add: walk_count_path)

lemma path_extend_path:
  "walk old nd \<noteq> None \<Longrightarrow> p \<noteq> [] \<Longrightarrow> path_count p (extend_path old new nd) =
     path_count p nd + (if prefix p (old @ new) \<and> length old < length p then 1 else 0)"
proof (induction old arbitrary: p nd)
  case (Cons tok ts)
  then obtain ch where ch: "map_of (sn_children nd) tok = Some ch" "walk ts ch \<noteq> None"
    by (auto split: option.splits)
  from Cons.prems obtain q ps where p: "p = q # ps" by (cases p) auto
  show ?case using ch Cons.IH [of ch ps]
    by (cases "ps = []") (auto simp: path_count_def p extend_path_children simp del: extend_path.simps(2))
qed (simp add: path_count_path)

text \<open>Every node on a path holds each token once.\<close>

definition keyed :: "common_suffix_node \<Rightarrow> bool" where
  "keyed nd \<longleftrightarrow> (\<forall>p n. walk p nd = Some n \<longrightarrow> distinct (map fst (sn_children n)))"

lemma keyed_step:
  "keyed nd \<longleftrightarrow> distinct (map fst (sn_children nd)) \<and> (\<forall>tok ch. map_of (sn_children nd) tok = Some ch \<longrightarrow> keyed ch)"
proof
  assume k: "keyed nd"
  have "distinct (map fst (sn_children nd))" using k [unfolded keyed_def, rule_format, of "[]"] by simp
  moreover have "keyed ch" if "map_of (sn_children nd) tok = Some ch" for tok ch
    unfolding keyed_def using k [unfolded keyed_def, rule_format, of "tok # _"] that by auto
  ultimately show "distinct (map fst (sn_children nd)) \<and> (\<forall>tok ch. map_of (sn_children nd) tok = Some ch \<longrightarrow> keyed ch)" by blast
next
  assume k: "distinct (map fst (sn_children nd)) \<and> (\<forall>tok ch. map_of (sn_children nd) tok = Some ch \<longrightarrow> keyed ch)"
  show "keyed nd" unfolding keyed_def
  proof (intro allI impI)
    fix p n assume "walk p nd = Some n"
    show "distinct (map fst (sn_children n))"
    proof (cases p)
      case Nil
      then show ?thesis using k \<open>walk p nd = Some n\<close> by simp
    next
      case (Cons q ps)
      then obtain ch where "map_of (sn_children nd) q = Some ch" and w: "walk ps ch = Some n"
        using \<open>walk p nd = Some n\<close> by (auto split: option.splits)
      with k have "keyed ch" by blast
      with w show ?thesis unfolding keyed_def by blast
    qed
  qed
qed

lemma keyed_leaf [simp]: "keyed (Suffix_Node c [])"
  by (subst keyed_step) simp

lemma keyed_count [simp]: "keyed (Suffix_Node c (sn_children ch)) = keyed ch"
  by (subst (1 2) keyed_step) simp

lemma keyed_count_path: "keyed nd \<Longrightarrow> keyed (count_path ts nd)"
proof (induction ts arbitrary: nd)
  case (Cons tok ts)
  have "keyed (entered nd tok)" using Cons.prems by (auto simp: entered_def keyed_step [of nd] split: option.splits)
  from Cons.IH [OF this] Cons.prems
  have "\<forall>t ch. map_of (sn_children (count_path (tok # ts) nd)) t = Some ch \<longrightarrow> keyed ch"
    by (simp add: count_path_children keyed_step [of nd] del: count_path.simps(2))
  moreover have "distinct (map fst (sn_children (count_path (tok # ts) nd)))"
    using Cons.prems by (auto simp: keyed_step [of nd] distinct_update map_of_eq_None_iff split: option.splits)
  ultimately show ?case by (simp only: keyed_step [of "count_path (tok # ts) nd"])
qed simp

lemma keyed_extend_path: "keyed nd \<Longrightarrow> keyed (extend_path old new nd)"
proof (induction old arbitrary: nd)
  case (Cons tok ts)
  have "\<forall>t ch. map_of (sn_children (extend_path (tok # ts) new nd)) t = Some ch \<longrightarrow> keyed ch"
    using Cons by (simp add: extend_path_children keyed_step [of nd] del: extend_path.simps(2) split: option.splits)
  moreover have "distinct (map fst (sn_children (extend_path (tok # ts) new nd)))"
    using Cons.prems by (auto simp: keyed_step [of nd] distinct_update split: option.splits)
  ultimately show ?case by (simp only: keyed_step [of "extend_path (tok # ts) new nd"])
qed (simp add: keyed_count_path)

section \<open>The trie represents a list of words\<close>

definition n_prefix :: "int list \<Rightarrow> int list list \<Rightarrow> int" where
  "n_prefix p ws = int (length (filter (prefix p) ws))"

definition represents :: "common_suffix_node \<Rightarrow> int list list \<Rightarrow> bool" where
  "represents nd ws \<longleftrightarrow> keyed nd \<and> (\<forall>p. p \<noteq> [] \<longrightarrow>
     path_count p nd = n_prefix p ws \<and> (walk p nd = None \<longleftrightarrow> (\<forall>w \<in> set ws. \<not> prefix p w)))"

lemma representsD:
  assumes "represents nd ws" "p \<noteq> []"
  shows "path_count p nd = n_prefix p ws" "walk p nd = None \<longleftrightarrow> (\<forall>w \<in> set ws. \<not> prefix p w)"
  using assms by (auto simp: represents_def)

lemma represents_insert: "represents nd ws \<Longrightarrow> represents (count_path w nd) (ws @ [w])"
  by (auto simp: represents_def n_prefix_def keyed_count_path path_count_path walk_count_path)

lemma n_prefix_update:
  "i < length ws \<Longrightarrow> n_prefix p (ws[i := w]) = n_prefix p ws - of_bool (prefix p (ws ! i)) + of_bool (prefix p w)"
  by (subst (2) id_take_nth_drop, assumption) (simp add: upd_conv_take_nth_drop n_prefix_def)

lemma represents_extend:
  assumes r: "represents nd ws" and i: "i < length ws"
  shows "represents (extend_path (ws ! i) new nd) (ws[i := ws ! i @ new])"
proof -
  have in_trie: "walk (ws ! i) nd \<noteq> None"
    using r i nth_mem [OF i] by (cases "ws ! i = []") (auto simp: represents_def)
  have "path_count p (extend_path (ws ! i) new nd) = n_prefix p (ws[i := ws ! i @ new])
      \<and> (walk p (extend_path (ws ! i) new nd) = None \<longleftrightarrow> (\<forall>w \<in> set (ws[i := ws ! i @ new]). \<not> prefix p w))"
    if "p \<noteq> []" for p
  proof -
    have new: "prefix p (ws ! i) \<Longrightarrow> prefix p (ws ! i @ new)" by simp
    have "(prefix p (ws ! i @ new) \<and> length (ws ! i) < length p) \<longleftrightarrow> prefix p (ws ! i @ new) \<and> \<not> prefix p (ws ! i)"
      by (metis linorder_not_le prefix_append prefix_length_le prefix_length_prefix prefixI)
    then have c: "path_count p (extend_path (ws ! i) new nd) = n_prefix p (ws[i := ws ! i @ new])"
      using path_extend_path [OF in_trie that, of new] representsD(1) [OF r that] new
      by (auto simp: n_prefix_update i)
    have "set (ws[i := ws ! i @ new]) \<subseteq> insert (ws ! i @ new) (set ws)" by (rule set_update_subset_insert)
    moreover have "ws ! i @ new \<in> set (ws[i := ws ! i @ new])" using i by (rule set_update_memI)
    moreover have "\<exists>v \<in> set (ws[i := ws ! i @ new]). prefix p v" if w: "w \<in> set ws" "prefix p w" for w
    proof -
      from w(1) obtain j where j: "j < length ws" "w = ws ! j" by (auto simp: in_set_conv_nth)
      then have "ws[i := ws ! i @ new] ! j \<in> set (ws[i := ws ! i @ new])" by simp
      moreover have "prefix p (ws[i := ws ! i @ new] ! j)" using j w(2) by (cases "i = j") (auto simp: i)
      ultimately show ?thesis by blast
    qed
    ultimately have "(\<forall>w \<in> set (ws[i := ws ! i @ new]). \<not> prefix p w) \<longleftrightarrow> (\<forall>w \<in> set ws. \<not> prefix p w) \<and> \<not> prefix p (ws ! i @ new)"
      by blast
    with c show ?thesis using walk_extend_path [OF in_trie, of p new] representsD(2) [OF r that] by auto
  qed
  then show ?thesis using r by (auto simp: represents_def keyed_extend_path)
qed

section \<open>Extensions\<close>

definition windows :: "int \<Rightarrow> int list \<Rightarrow> int list list" where
  "windows d h = map (\<lambda>i. take (nat d) (drop i h)) [0..<length h]"

text \<open>The words counted when the loop of an extension has reached position \<open>i\<close>.\<close>

definition mixed :: "int \<Rightarrow> int list \<Rightarrow> int list \<Rightarrow> nat \<Rightarrow> int list list" where
  "mixed d old new i = map (\<lambda>j. take (nat d) (drop j (if j < i then new else old))) [0..<max i (length old)]"

lemma mixed_last: "length old \<le> length new \<Longrightarrow> mixed d old new (length new) = windows d new"
  by (simp add: mixed_def windows_def max_absorb1)

lemma mixed_first:
  assumes "0 \<le> d"
  shows "mixed d old (old @ ext) (nat (max 0 (int (length old) - d))) = windows d old"
proof -
  have "max (nat (max 0 (int (length old) - d))) (length old) = length old" using assms by linarith
  moreover have "take (nat d) (drop j (old @ ext)) = take (nat d) (drop j old)" if "j < nat (max 0 (int (length old) - d))" for j
  proof -
    have "nat d \<le> length old - j" using that by linarith
    then show ?thesis by simp
  qed
  ultimately show ?thesis by (simp add: mixed_def windows_def)
qed

lemma mixed_step:
  assumes r: "represents nd (mixed d old new i)" and d: "0 \<le> d" and new: "new = old @ ext" and i: "i < length new"
  shows "represents (extend_at d (int (length old)) (int (length old)) new (int i) nd) (mixed d old new (Suc i))"
proof (cases "i < length old")
  case True
  let ?ws = "mixed d old new i"
  have len: "i < length ?ws" and wi: "?ws ! i = take (nat d) (drop i old)" using True by (simp_all add: mixed_def)
  have upd: "mixed d old new (Suc i) = ?ws[i := take (nat d) (drop i new)]"
    using True by (intro nth_equalityI) (auto simp: mixed_def nth_list_update less_Suc_eq)
  let ?o = "min (int (length old) - int i) d" and ?n = "min (int (length new) - int i) d"
  have o: "token_slice new (int i) ?o = take (nat d) (drop i old)"
    using True by (auto simp: token_slice_def new min_def nat_diff_distrib)
  show ?thesis
  proof (cases "?o < ?n")
    case less: True
    have "take (nat d) (drop i new) = take (nat ?n) (drop i new)" using i by (auto simp: min_def)
    also have "\<dots> = take (nat ?o) (drop i new) @ take (nat ?n - nat ?o) (drop (nat ?o) (drop i new))"
      using less d True by (metis le_add_diff_inverse less_imp_le nat_mono take_add)
    also have "take (nat ?o) (drop i new) = token_slice new (int i) ?o" by (simp add: token_slice_def)
    also have "take (nat ?n - nat ?o) (drop (nat ?o) (drop i new)) = token_slice new (int i + ?o) (?n - ?o)"
      using less d True by (simp add: token_slice_def nat_add_distrib nat_diff_distrib add.commute)
    finally have "take (nat d) (drop i new) = take (nat d) (drop i old) @ token_slice new (int i + ?o) (?n - ?o)"
      by (simp only: o)
    then have "represents (extend_suffix new (int i) ?o ?n nd) (mixed d old new (Suc i))"
      using represents_extend [OF r len, of "token_slice new (int i + ?o) (?n - ?o)"]
      by (simp only: extend_suffix_def o upd wi)
    with less True show ?thesis by (simp add: extend_at_def Let_def)
  next
    case False
    then have "take (nat d) (drop i new) = take (nat d) (drop i old)"
      using True i by (auto simp: new min_def split: if_splits)
    then have "?ws[i := take (nat d) (drop i new)] = ?ws" by (metis list_update_id wi)
    moreover have "extend_at d (int (length old)) (int (length old)) new (int i) nd = nd"
      using False True by (auto simp: extend_at_def Let_def)
    ultimately show ?thesis using r by (simp only: upd)
  qed
next
  case False
  have step: "mixed d old new (Suc i) = mixed d old new i @ [take (nat d) (drop i new)]"
    using False by (auto simp: mixed_def max_def)
  let ?l = "min (int (length new) - int i) d"
  show ?thesis
  proof (cases "?l \<le> 0")
    case True
    then have "d = 0" using d i by linarith
    with r have "represents nd (mixed d old new i @ [take (nat d) (drop i new)])" by (auto simp: represents_def n_prefix_def)
    with True False show ?thesis by (simp add: extend_at_def insert_suffix_def step)
  next
    case False
    have "token_slice new (int i) ?l = take (nat d) (drop i new)" using i by (auto simp: token_slice_def min_def)
    with represents_insert [OF r] False \<open>\<not> i < length old\<close> show ?thesis
      by (simp add: extend_at_def insert_suffix_def step Let_def)
  qed
qed

lemma mixed_fold:
  assumes "represents nd (mixed d old new i)" "0 \<le> d" "new = old @ ext" "i \<le> length new"
  shows "represents (fold (extend_at d (int (length old)) (int (length old)) new) [int i..int (length new) - 1] nd) (windows d new)"
  using assms
proof (induction "length new - i" arbitrary: i nd)
  case 0
  then have "i = length new" by simp
  with 0 mixed_last [of old new d] show ?case by simp
next
  case (Suc k)
  then have i: "i < length new" by simp
  have "[int i..int (length new) - 1] = int i # [int (Suc i)..int (length new) - 1]"
    using i upto_rec1 [of "int i" "int (length new) - 1"] by (simp add: add.commute)
  moreover have "represents (fold (extend_at d (int (length old)) (int (length old)) new) [int (Suc i)..int (length new) - 1]
      (extend_at d (int (length old)) (int (length old)) new (int i) nd)) (windows d new)"
    using Suc.hyps(2) i by (intro Suc.hyps(1) mixed_step [OF Suc.prems(1,2,3)]) (simp_all add: Suc.prems)
  ultimately show ?case by simp
qed

definition suffix_ok :: "common_suffix_tree \<Rightarrow> int list \<Rightarrow> bool" where
  "suffix_ok t h \<longleftrightarrow> sx_tokens t = h \<and> sx_n_inserted t = int (length h) \<and> 0 \<le> sx_max_depth t
     \<and> represents (sx_root t) (windows (sx_max_depth t) h)"

lemma suffix_ok_new: "0 \<le> d \<Longrightarrow> suffix_ok (suffix_new d) []"
  by (simp add: suffix_ok_def suffix_new_def represents_def windows_def n_prefix_def path_count_def)

lemma suffix_ok_clear: "0 \<le> sx_max_depth t \<Longrightarrow> suffix_ok (suffix_clear t) []"
  by (simp add: suffix_ok_def suffix_clear_def represents_def windows_def n_prefix_def path_count_def)

lemma suffix_extend_depth [simp]: "sx_max_depth (suffix_extend new t) = sx_max_depth t"
  by (simp add: suffix_extend_def Let_def)

lemma suffix_ok_extend:
  assumes "suffix_ok t h"
  shows "suffix_ok (suffix_extend new t) (h @ new)"
proof (cases "new = []")
  case False
  have d: "0 \<le> sx_max_depth t" and h: "sx_tokens t = h" "sx_n_inserted t = int (length h)"
    and r: "represents (sx_root t) (windows (sx_max_depth t) h)" using assms by (simp_all add: suffix_ok_def)
  let ?i = "nat (max 0 (int (length h) - sx_max_depth t))"
  have "represents (fold (extend_at (sx_max_depth t) (int (length h)) (int (length h)) (h @ new)) [int ?i..int (length (h @ new)) - 1] (sx_root t))
      (windows (sx_max_depth t) (h @ new))"
    using d r by (intro mixed_fold) (simp_all add: mixed_first)
  with False h d show ?thesis by (simp add: suffix_ok_def suffix_extend_def Let_def)
qed (use assms in \<open>simp add: suffix_extend_def\<close>)

lemma suffix_ok_run: "suffix_ok t h \<Longrightarrow> suffix_ok (fold suffix_extend chunks t) (h @ concat chunks)"
proof (induction chunks arbitrary: t h)
  case (Cons c chunks)
  from Cons.IH [OF suffix_ok_extend [OF Cons.prems]] show ?case by simp
qed simp

end
