(* ===== verification/Suffix_Drafts.thy ===== *)
theory Suffix_Drafts
  imports Suffix_Counts
begin

text \<open>
  What the suffix tree promises: the counts are the occurrences of the paths in the history however it was
  cut into pieces, and a draft continues the context the way the history most often did.
\<close>

section \<open>Occurrences\<close>

definition occurrences :: "int list \<Rightarrow> int list \<Rightarrow> nat" where
  "occurrences h p = card {i. i < length h \<and> prefix p (drop i h)}"

lemma occurrences_code [code]: "occurrences h p = length (filter (\<lambda>i. prefix p (drop i h)) [0..<length h])"
proof -
  have "{i. i < length h \<and> prefix p (drop i h)} = set (filter (\<lambda>i. prefix p (drop i h)) [0..<length h])" by auto
  then show ?thesis unfolding occurrences_def by (simp only: distinct_card distinct_filter distinct_upt)
qed

lemma prefix_take: "prefix p (take n xs) \<longleftrightarrow> prefix p xs \<and> length p \<le> n \<or> p = []"
  by (metis Nil_prefix length_take min.bounded_iff prefix_length_le prefix_length_prefix prefix_order.trans take_is_prefix take_all_iff linorder_linear)

lemma n_prefix_windows:
  "p \<noteq> [] \<Longrightarrow> n_prefix p (windows d h) = (if int (length p) \<le> d then int (occurrences h p) else 0)"
proof -
  assume "p \<noteq> []"
  moreover have "length p \<le> nat d \<longleftrightarrow> int (length p) \<le> d \<or> p = []" by (cases p) auto
  ultimately show ?thesis
    by (cases "int (length p) \<le> d") (simp_all add: n_prefix_def windows_def filter_map o_def prefix_take occurrences_code)
qed

lemma occurrences_sublist: "p \<noteq> [] \<Longrightarrow> 0 < occurrences h p \<Longrightarrow> sublist p h"
proof -
  assume "0 < occurrences h p"
  then obtain i where "prefix p (drop i h)" by (auto simp: occurrences_def card_gt_0_iff)
  then obtain zs where "h = take i h @ p @ zs" by (metis append_take_drop_id prefixE)
  then show "sublist p h" unfolding sublist_def by blast
qed

lemma suffix_ok_count:
  assumes "suffix_ok t h" "p \<noteq> []"
  shows "path_count p (sx_root t) = (if int (length p) \<le> sx_max_depth t then int (occurrences h p) else 0)"
  using assms representsD(1) [of "sx_root t" _ p] by (auto simp: suffix_ok_def n_prefix_windows)

lemma suffix_ok_positive:
  assumes ok: "suffix_ok t h" and p: "p \<noteq> []" and w: "walk p (sx_root t) = Some n"
  shows "0 < sn_count n"
proof -
  have r: "represents (sx_root t) (windows (sx_max_depth t) h)" using ok by (simp add: suffix_ok_def)
  with w p obtain v where "v \<in> set (windows (sx_max_depth t) h)" "prefix p v"
    using representsD(2) [OF r p] by auto
  then have "0 < n_prefix p (windows (sx_max_depth t) h)"
    by (auto simp: n_prefix_def filter_empty_conv)
  with representsD(1) [OF r p] w show ?thesis by (simp add: path_count_def)
qed

lemma suffix_ok_occurs:
  assumes ok: "suffix_ok t h" and p: "p \<noteq> []" and w: "walk p (sx_root t) \<noteq> None"
  shows "0 < occurrences h p" "int (length p) \<le> sx_max_depth t"
proof -
  from w obtain n where n: "walk p (sx_root t) = Some n" by blast
  have "0 < path_count p (sx_root t)" using suffix_ok_positive [OF ok p n] n by (simp add: path_count_def)
  with suffix_ok_count [OF ok p] show "0 < occurrences h p" "int (length p) \<le> sx_max_depth t"
    by (auto split: if_splits)
qed

section \<open>Greedy continuation\<close>

lemma best_child_max:
  "best_child chs bt bc = (t, c) \<Longrightarrow> (\<forall>(x, ch) \<in> set chs. sn_count ch \<le> c) \<and> bc \<le> c
     \<and> (t = bt \<and> c = bc \<or> (\<exists>ch. (t, ch) \<in> set chs \<and> c = sn_count ch))"
proof (induction chs arbitrary: bt bc)
  case (Cons x chs)
  obtain k ch where x: "x = (k, ch)" by (cases x)
  show ?case
  proof (cases "sn_count ch > bc")
    case True
    with Cons.prems have b: "best_child chs k (sn_count ch) = (t, c)" by (simp add: x)
    from Cons.IH [OF b] True show ?thesis by (auto simp: x)
  next
    case False
    with Cons.prems have b: "best_child chs bt bc = (t, c)" by (simp add: x)
    from Cons.IH [OF b] False show ?thesis by (auto simp: x)
  qed
qed simp

definition greedy :: "int list \<Rightarrow> int list \<Rightarrow> int list \<Rightarrow> bool" where
  "greedy h q draft \<longleftrightarrow> (\<forall>k < length draft. \<forall>tok.
     occurrences h (q @ take k draft @ [tok]) \<le> occurrences h (q @ take (Suc k) draft))"

lemma greedy_Nil [simp]: "greedy h q []"
  by (simp add: greedy_def)

lemma greedy_Cons:
  "greedy h q (x # draft) \<longleftrightarrow> (\<forall>tok. occurrences h (q @ [tok]) \<le> occurrences h (q @ [x])) \<and> greedy h (q @ [x]) draft"
  by (simp add: greedy_def All_less_Suc2)

lemma child_facts:
  assumes ok: "suffix_ok t h" and w: "walk q (sx_root t) = Some cur" and c: "(tok, ch) \<in> set (sn_children cur)"
  shows "map_of (sn_children cur) tok = Some ch" "walk (q @ [tok]) (sx_root t) = Some ch" "0 < sn_count ch"
    "int (occurrences h (q @ [tok])) = sn_count ch"
proof -
  have "keyed (sx_root t)" using ok by (simp add: suffix_ok_def represents_def)
  with w have "distinct (map fst (sn_children cur))" by (auto simp: keyed_def)
  with c show m: "map_of (sn_children cur) tok = Some ch" by simp
  with w show w': "walk (q @ [tok]) (sx_root t) = Some ch" by (simp add: walk_append)
  show "0 < sn_count ch" by (rule suffix_ok_positive [OF ok _ w']) simp
  with suffix_ok_count [OF ok, of "q @ [tok]"] w' show "int (occurrences h (q @ [tok])) = sn_count ch"
    by (auto simp: path_count_def split: if_splits)
qed

lemma follow_greedy:
  assumes ok: "suffix_ok t h" and order: "\<And>chs. set (order chs) = set chs"
  shows "walk q (sx_root t) = Some cur \<Longrightarrow> int (length q) \<le> sx_max_depth t \<Longrightarrow> \<exists>s draft. follow order mp k score prob cur = Inr (s, draft)
     \<and> length draft \<le> k \<and> walk (q @ draft) (sx_root t) \<noteq> None \<and> greedy h q draft"
proof (induction k arbitrary: q cur score prob)
  case (Suc k)
  note w = Suc.prems(1)
  show ?case
  proof (cases "sn_children cur = []")
    case False
    obtain tok cnt where b: "best_child (order (sn_children cur)) (-1) 0 = (tok, cnt)" by fastforce
    from best_child_max [OF b] order
    have mx: "\<forall>(x, ch) \<in> set (sn_children cur). sn_count ch \<le> cnt" and
      src: "tok = -1 \<and> cnt = 0 \<or> (\<exists>ch. (tok, ch) \<in> set (sn_children cur) \<and> cnt = sn_count ch)" by simp_all
    have "0 < cnt"
    proof -
      from False obtain x ch where "(x, ch) \<in> set (sn_children cur)" by (cases "sn_children cur") auto
      with mx child_facts(3) [OF ok w this] show ?thesis by fastforce
    qed
    with src obtain ch where ch: "(tok, ch) \<in> set (sn_children cur)" "cnt = sn_count ch" by blast
    note facts = child_facts [OF ok w ch(1)]
    have max: "occurrences h (q @ [x]) \<le> occurrences h (q @ [tok])" for x
    proof (cases "walk (q @ [x]) (sx_root t)")
      case None
      have "int (length (q @ [tok])) \<le> sx_max_depth t"
        using suffix_ok_occurs(2) [OF ok, of "q @ [tok]"] facts(2) by simp
      then have "occurrences h (q @ [x]) = 0"
        using None suffix_ok_count [OF ok, of "q @ [x]"] by (simp add: path_count_def)
      then show ?thesis by simp
    next
      case (Some n)
      then have "(x, n) \<in> set (sn_children cur)" using w
        by (auto simp: walk_append dest: map_of_SomeD split: option.splits)
      with mx child_facts(4) [OF ok w this] facts(4) ch(2) show ?thesis by fastforce
    qed
    have "int (length (q @ [tok])) \<le> sx_max_depth t"
      using suffix_ok_occurs(2) [OF ok, of "q @ [tok]"] facts(2) by simp
    from Suc.IH [OF facts(2) this] obtain draft' where ih: "\<And>score prob. \<exists>s. follow order mp k score prob ch = Inr (s, draft' score prob)
       \<and> length (draft' score prob) \<le> k \<and> walk ((q @ [tok]) @ draft' score prob) (sx_root t) \<noteq> None \<and> greedy h (q @ [tok]) (draft' score prob)"
      by metis
    let ?p = "float_round (prob * float_round (float_round (of_int cnt) / float_round (of_int (sn_count cur))))"
    obtain s where s: "follow order mp k (float_round (score + ?p)) ?p ch = Inr (s, draft' (float_round (score + ?p)) ?p)"
      using ih by blast
    show ?thesis
    proof (cases "?p < mp")
      case True
      with False b w show ?thesis by (simp add: Let_def)
    next
      case n: False
      let ?d = "draft' (float_round (score + ?p)) ?p"
      have "follow order mp (Suc k) score prob cur = Inr (s, tok # ?d)"
        using False b n s by (simp add: Let_def facts(1))
      moreover have "length (tok # ?d) \<le> Suc k" "walk (q @ tok # ?d) (sx_root t) \<noteq> None"
        using ih [of "float_round (score + ?p)" ?p] by auto
      moreover have "greedy h q (tok # ?d)"
        using ih [of "float_round (score + ?p)" ?p] max by (simp add: greedy_Cons)
      ultimately show ?thesis by blast
    qed
  qed (use w in simp)
qed simp

lemma last_tokens_length: "n \<le> length ctx \<Longrightarrow> length (last_tokens n ctx) = n"
  by (simp add: last_tokens_def)

lemma last_tokens_drop: "n + k \<le> length ctx \<Longrightarrow> last_tokens n (drop k ctx) = last_tokens n ctx"
  by (simp add: last_tokens_def)

definition good_draft :: "int list \<Rightarrow> int list \<Rightarrow> int \<Rightarrow> int \<Rightarrow> int \<Rightarrow> int \<Rightarrow> nat \<Rightarrow> int list \<Rightarrow> bool" where
  "good_draft h ctx d max_spec min_count min_len len draft \<longleftrightarrow>
     1 \<le> len \<and> min_len \<le> int len \<and> len \<le> length ctx \<and> int (len + length draft) \<le> d
     \<and> int (length draft) \<le> min max_spec (int len + 8) \<and> min_count \<le> int (occurrences h (last_tokens len ctx))
     \<and> sublist (last_tokens len ctx @ draft) h \<and> greedy h (last_tokens len ctx) draft"

lemma match_lengths_good:
  assumes ok: "suffix_ok t h" and order: "\<And>chs. set (order chs) = set chs" and ms: "0 < max_spec"
  shows "\<forall>l \<in> set lens. 1 \<le> l \<and> min_len \<le> l \<and> l \<le> int (length ctx)
      \<Longrightarrow> best = [] \<or> (\<exists>len. good_draft h ctx (sx_max_depth t) max_spec mc min_len len best)
      \<Longrightarrow> \<exists>draft. match_lengths order (sx_root t) ctx max_spec mp mc lens score best = Inr draft
         \<and> (draft = [] \<or> (\<exists>len. good_draft h ctx (sx_max_depth t) max_spec mc min_len len draft))"
proof (induction lens arbitrary: score best)
  case (Cons l lens)
  let ?q = "last_tokens (nat l) ctx"
  have lens: "\<forall>l \<in> set lens. 1 \<le> l \<and> min_len \<le> l \<and> l \<le> int (length ctx)" using Cons.prems(1) by simp
  note IH = Cons.IH [OF lens]
  show ?case
  proof (cases "walk ?q (sx_root t)")
    case (Some node)
    have "l \<le> int (length ctx)" using Cons.prems(1) by simp
    then have "nat l \<le> length ctx" by (simp add: nat_le_iff)
    then have ql: "length ?q = nat l" by (rule last_tokens_length)
    then have q: "?q \<noteq> []" using Cons.prems(1) by (metis length_0_conv list.set_intros(1) nat_0_iff not_one_le_zero order_refl order_trans)
    have ql_d: "int (length ?q) \<le> sx_max_depth t" using suffix_ok_occurs(2) [OF ok q] Some by simp
    show ?thesis
    proof (cases "sn_count node < mc \<or> sn_children node = []")
      case True
      with IH [OF Cons.prems(2)] Some show ?thesis by simp
    next
      case False
      from follow_greedy [OF ok order Some ql_d] obtain s draft where
        f: "follow order mp (nat (min max_spec (l + 8))) 0 1 node = Inr (s, draft)"
        and len: "length draft \<le> nat (min max_spec (l + 8))" and w: "walk (?q @ draft) (sx_root t) \<noteq> None"
        and g: "greedy h ?q draft" by blast
      have "sn_count node = int (occurrences h ?q)"
        using suffix_ok_count [OF ok q] suffix_ok_occurs [OF ok q] Some by (simp add: path_count_def)
      with False len Cons.prems(1) g ql occurrences_sublist [of "?q @ draft" h] suffix_ok_occurs [OF ok _ w] q ms
      have "good_draft h ctx (sx_max_depth t) max_spec mc min_len (nat l) draft"
        unfolding good_draft_def by (auto simp: nat_le_iff)
      with IH [of draft s] IH [OF Cons.prems(2), of score] f False Some show ?thesis by auto
    qed
  qed (use Cons.prems in simp)
qed simp

section \<open>A draft is made\<close>

text \<open>Rounding stays within a factor of two, so that the score of a first token is positive.\<close>

lemma float_pos_binade:
  assumes n: "normal q" and q: "pow2 (-126) \<le> q"
  shows "pow2 (exponent q) \<le> float_pos q" "float_pos q \<le> pow2 (exponent q + 1)"
    "float_pos q = of_int (round_even (q * pow2 (23 - exponent q))) / pow2 (23 - exponent q)"
proof -
  let ?e = "exponent q" and ?s = "pow2 (23 - exponent q)"
  note s = exponent_spec [OF n]
  have e: "-126 \<le> ?e"
  proof (rule ccontr)
    assume "\<not> -126 \<le> ?e"
    then have "pow2 (?e + 1) \<le> pow2 (-126)" by (intro pow2_mono) simp
    with s q show False by simp
  qed
  then show f: "float_pos q = of_int (round_even (q * ?s)) / ?s" by (simp add: float_pos_def Let_def max_absorb1)
  have p: "pow2 23 = pow2 ?e * ?s" "pow2 24 = pow2 (?e + 1) * ?s" by (simp_all flip: pow2_add)
  have v: "pow2 23 = of_int 8388608" "pow2 24 = of_int 16777216" by (simp_all add: pow2_def power_int_def)
  have "of_int 8388608 \<le> q * ?s" "q * ?s \<le> of_int 16777216"
    using s by (simp_all only: p v [symmetric]) (auto intro!: mult_right_mono)
  from round_even_mono [OF this(1)] round_even_mono [OF this(2)]
  have "(8388608 :: rat) \<le> of_int (round_even (q * ?s))" "of_int (round_even (q * ?s)) \<le> (16777216 :: rat)"
    by (simp_all only: round_even_int)
  then have "pow2 ?e * ?s \<le> of_int (round_even (q * ?s))" "of_int (round_even (q * ?s)) \<le> pow2 (?e + 1) * ?s"
    using p v by simp_all
  then show "pow2 ?e \<le> float_pos q" "float_pos q \<le> pow2 (?e + 1)"
    by (simp_all add: f pos_le_divide_eq pos_divide_le_eq)
qed

lemma float_pos_near:
  assumes n: "normal q" and q: "pow2 (-126) \<le> q"
  shows "q / 2 \<le> float_pos q" "float_pos q \<le> 2 * q"
proof -
  have "pow2 (exponent q + 1) = 2 * pow2 (exponent q)" by (simp add: pow2_add) (simp add: pow2_def)
  with float_pos_binade(1,2) [OF assms] exponent_spec [OF n] show "q / 2 \<le> float_pos q" "float_pos q \<le> 2 * q" by simp_all
qed

lemma float_pos_mono:
  assumes n: "normal p" "normal q" and p: "pow2 (-126) \<le> p" "p \<le> q"
  shows "float_pos p \<le> float_pos q"
proof (cases "exponent p = exponent q")
  case True
  have "q \<ge> pow2 (-126)" using p by simp
  note eqs = float_pos_binade(3) [OF n(1) p(1)] float_pos_binade(3) [OF n(2) this]
  have "round_even (p * pow2 (23 - exponent q)) \<le> round_even (q * pow2 (23 - exponent q))"
    using p(2) by (intro round_even_mono mult_right_mono) (simp_all add: less_imp_le)
  then show ?thesis unfolding eqs True by (intro divide_right_mono) (simp_all add: less_imp_le)
next
  case False
  have "exponent p < exponent q"
  proof (rule ccontr)
    assume "\<not> exponent p < exponent q"
    with False have "pow2 (exponent q + 1) \<le> pow2 (exponent p)" by (intro pow2_mono) simp
    with exponent_spec [OF n(1)] exponent_spec [OF n(2)] p(2) show False by simp
  qed
  then have "pow2 (exponent p + 1) \<le> pow2 (exponent q)" by (intro pow2_mono) simp
  with float_pos_binade [OF n(1) p(1)] float_pos_binade [OF n(2)] p show ?thesis by fastforce
qed

lemma float_range:
  assumes "1 / 2 ^ 60 \<le> q" "q \<le> 2 ^ 60"
  shows "0 < q" "normal q" "pow2 (-126) \<le> q" "float_round q = float_pos q"
proof -
  have v: "pow2 (-126) \<le> 1 / 2 ^ 60" "pow2 (-200) \<le> 1 / 2 ^ 60" "(2 :: rat) ^ 60 < pow2 201"
    by (simp_all add: pow2_def power_int_def power_divide field_simps)
  show q: "0 < q" using assms(1) by (rule less_le_trans [rotated]) simp
  show "normal q" "pow2 (-126) \<le> q" using assms v unfolding normal_def by linarith+
  show "float_round q = float_pos q" using q by (simp add: float_round_def)
qed

lemma float_round_near:
  assumes "1 / 2 ^ 60 \<le> q" "q \<le> 2 ^ 60"
  shows "q / 2 \<le> float_round q" "float_round q \<le> 2 * q"
  using float_pos_near [OF float_range(2,3) [OF assms]] float_range(4) [OF assms] by simp_all

lemma float_round_mono:
  assumes "1 / 2 ^ 60 \<le> p" "p \<le> q" "q \<le> 2 ^ 60"
  shows "float_round p \<le> float_round q"
proof -
  have p: "1 / 2 ^ 60 \<le> p" "p \<le> 2 ^ 60" and q: "1 / 2 ^ 60 \<le> q" "q \<le> 2 ^ 60" using assms by simp_all
  from float_pos_mono [OF float_range(2) [OF p] float_range(2) [OF q] float_range(3) [OF p] assms(2)]
  show ?thesis by (simp only: float_range(4) [OF p] float_range(4) [OF q])
qed

lemma float_round_between:
  assumes "1 / 2 ^ n \<le> q" "q \<le> 2 ^ n" "n < 60"
  shows "1 / 2 ^ Suc n \<le> float_round q" "float_round q \<le> 2 ^ Suc n"
proof -
  have "(2 :: rat) ^ n \<le> 2 ^ 60" using assms(3) by (intro power_increasing) simp_all
  moreover from this have "1 / 2 ^ 60 \<le> (1 :: rat) / 2 ^ n" by (intro divide_left_mono) simp_all
  ultimately have "1 / 2 ^ 60 \<le> q" "q \<le> 2 ^ 60" using assms by linarith+
  from float_round_near [OF this] assms show "1 / 2 ^ Suc n \<le> float_round q" "float_round q \<le> 2 ^ Suc n"
    by simp_all
qed

lemma of_int_bounds:
  assumes "0 < x" "x < 2 ^ 31"
  shows "(1 :: rat) \<le> of_int x" "(of_int x :: rat) \<le> 2 ^ 31"
proof -
  have "(of_int 1 :: rat) \<le> of_int x" "(of_int x :: rat) \<le> of_int (2 ^ 31)"
    using assms by (simp_all only: of_int_le_iff)
  then show "(1 :: rat) \<le> of_int x" "(of_int x :: rat) \<le> 2 ^ 31" by simp_all
qed

text \<open>The probability the code gives a token that followed \<open>a\<close> times out of \<open>b\<close>.\<close>

definition chance :: "int \<Rightarrow> int \<Rightarrow> rat" where
  "chance a b = float_round (1 * float_round (float_round (of_int a) / float_round (of_int b)))"

lemma chance_ratio:
  assumes "0 < a" "a < 2 ^ 31" "0 < b" "b < 2 ^ 31"
  shows "1 / 2 ^ 33 \<le> float_round (of_int a) / float_round (of_int b)"
    "float_round (of_int a) / float_round (of_int b) \<le> 2 ^ 33"
proof -
  note ab = of_int_bounds [OF assms(1,2)] of_int_bounds [OF assms(3,4)]
  have a: "of_int a / 2 \<le> float_round (of_int a)" "float_round (of_int a) \<le> 2 * of_int a"
    using float_round_near [of "of_int a"] ab by simp_all
  have b: "of_int b / 2 \<le> float_round (of_int b)" "float_round (of_int b) \<le> 2 * of_int b"
    using float_round_near [of "of_int b"] ab by simp_all
  have fb: "1 / 2 \<le> float_round (of_int b)" "float_round (of_int b) \<le> 2 ^ 32" using b ab by simp_all
  have fa: "1 / 2 \<le> float_round (of_int a)" "float_round (of_int a) \<le> 2 ^ 32" using a ab by simp_all
  show "1 / 2 ^ 33 \<le> float_round (of_int a) / float_round (of_int b)"
    "float_round (of_int a) / float_round (of_int b) \<le> 2 ^ 33"
    using fa fb by (simp_all add: field_simps)
qed

lemma chance_bounds:
  assumes "0 < a" "a < 2 ^ 31" "0 < b" "b < 2 ^ 31"
  shows "1 / 2 ^ 35 \<le> chance a b" "chance a b \<le> 2 ^ 35" "1 / 2 ^ 36 \<le> float_round (0 + chance a b)"
proof -
  define r where "r = float_round (of_int a) / float_round (of_int b)"
  have "1 / 2 ^ 34 \<le> float_round r" "float_round r \<le> 2 ^ 34"
    using float_round_between [of 33 r] chance_ratio [OF assms] unfolding r_def [symmetric] by simp_all
  then have p: "1 / 2 ^ 35 \<le> float_round (float_round r)" "float_round (float_round r) \<le> 2 ^ 35"
    using float_round_between [of 34 "float_round r"] by simp_all
  then have "1 / 2 ^ 36 \<le> float_round (float_round (float_round r))"
    using float_round_between [of 35 "float_round (float_round r)"] by simp
  with p show "1 / 2 ^ 35 \<le> chance a b" "chance a b \<le> 2 ^ 35" "1 / 2 ^ 36 \<le> float_round (0 + chance a b)"
    by (simp_all only: chance_def r_def mult_1 add_0)
qed

lemma chance_mono:
  assumes a: "0 < a" "a < 2 ^ 31" and a': "a \<le> a'" "a' < 2 ^ 31" and b: "0 < b" "b < 2 ^ 31"
  shows "chance a b \<le> chance a' b"
proof -
  have p: "0 < a'" using a a' by simp
  note n = of_int_bounds [OF a] of_int_bounds [OF p a'(2)] of_int_bounds [OF b]
  have "float_round (of_int a) \<le> float_round (of_int a')"
    using n a' by (intro float_round_mono) simp_all
  moreover have "0 < float_round (of_int b)" using float_round_near [of "of_int b"] n by simp
  ultimately have "float_round (of_int a) / float_round (of_int b) \<le> float_round (of_int a') / float_round (of_int b)"
    by (simp add: divide_right_mono)
  define r where "r = float_round (of_int a) / float_round (of_int b)"
  define r' where "r' = float_round (of_int a') / float_round (of_int b)"
  have r: "1 / 2 ^ 33 \<le> r" "r \<le> 2 ^ 33" "1 / 2 ^ 33 \<le> r'" "r' \<le> 2 ^ 33" "r \<le> r'"
    using chance_ratio [OF a b] chance_ratio [OF p a'(2) b] \<open>_ \<le> float_round (of_int a') / _\<close>
    by (simp_all only: r_def r'_def)
  have f: "1 / 2 ^ 34 \<le> float_round r" "float_round r' \<le> 2 ^ 34"
    using float_round_between [of 33 r] float_round_between [of 33 r'] r by simp_all
  have "float_round r \<le> float_round r'" using r by (intro float_round_mono) simp_all
  with f have "float_round (float_round r) \<le> float_round (float_round r')"
    by - (rule float_round_mono, simp_all)
  then show ?thesis by (simp only: chance_def r_def r'_def mult_1)
qed

text \<open>The score never falls once it is positive: a binade is never left downwards.\<close>

lemma float_round_floor:
  assumes "pow2 e \<le> q" "-126 \<le> e" "e \<le> 200"
  shows "pow2 e \<le> float_round q"
proof -
  have e: "pow2 (-126) \<le> pow2 e" "pow2 (-200) \<le> pow2 (-126)" using assms by (auto intro: pow2_mono)
  have q: "0 < q" using assms(1) pow2_pos [of e] by linarith
  show ?thesis
  proof (cases "q < pow2 201")
    case True
    then have n: "normal q" using assms(1) e by (simp add: normal_def)
    have "e \<le> exponent q"
    proof (rule ccontr)
      assume "\<not> e \<le> exponent q"
      then have "pow2 (exponent q + 1) \<le> pow2 e" by (intro pow2_mono) simp
      with exponent_spec [OF n] assms(1) show False by simp
    qed
    then have "pow2 e \<le> pow2 (exponent q)" by (rule pow2_mono)
    with float_pos_binade(1) [OF n] assms(1) e q show ?thesis by (simp add: float_round_def)
  next
    case False
    have m: "pow2 200 \<le> pow2 201" "pow2 e \<le> pow2 201" using assms by (auto intro: pow2_mono)
    with False have x: "exponent q = 200" by (simp add: exponent_def exp_down.simps)
    have s: "pow2 24 = pow2 201 * pow2 (-177)" by (simp flip: pow2_add)
    have v: "pow2 24 = of_int 16777216" by (simp add: pow2_def power_int_def)
    have "of_int 16777216 \<le> q * pow2 (-177)" unfolding v [symmetric] s using False by (intro mult_right_mono) (simp_all add: less_imp_le)
    from round_even_mono [OF this] have "(of_int 16777216 :: rat) \<le> of_int (round_even (q * pow2 (-177)))"
      by (simp only: round_even_int of_int_le_iff)
    then have "pow2 201 \<le> of_int (round_even (q * pow2 (-177))) / pow2 (-177)"
      unfolding v [symmetric] s by (simp add: pos_le_divide_eq)
    with q x m show ?thesis by (simp add: float_round_def float_pos_def Let_def)
  qed
qed

lemma follow_score:
  assumes "-126 \<le> e" "e \<le> 200" "0 \<le> mp"
  shows "pow2 e \<le> score \<Longrightarrow> follow order mp k score prob cur = Inr (s, draft) \<Longrightarrow> pow2 e \<le> s"
proof (induction k arbitrary: score prob cur s draft)
  case (Suc k)
  show ?case
  proof (cases "s = score")
    case False
    let ?b = "best_child (order (sn_children cur)) (-1) 0"
    let ?p = "float_round (prob * float_round (float_round (of_int (snd ?b)) / float_round (of_int (sn_count cur))))"
    from Suc.prems(2) False obtain ch s' d' where "\<not> ?p < mp" and f: "follow order mp k (float_round (score + ?p)) ?p ch = Inr (s, d')"
      by (auto simp: Let_def ebind_Inr_iff split: if_splits prod.splits option.splits)
    then have "pow2 e \<le> score + ?p" using Suc.prems(1) assms(3) by simp
    from Suc.IH [OF float_round_floor [OF this assms(1,2)] f] show ?thesis .
  qed (use Suc.prems in simp)
qed simp

text \<open>
  A context is worth a draft when its shortest admissible suffix occurred often enough and was followed by
  some token with at least the threshold probability.
\<close>

definition worth_drafting :: "int list \<Rightarrow> int list \<Rightarrow> int \<Rightarrow> rat \<Rightarrow> int \<Rightarrow> int \<Rightarrow> bool" where
  "worth_drafting h ctx d mp min_count min_len \<longleftrightarrow>
     (let len = nat (max 1 min_len); q = last_tokens len ctx in
      len \<le> length ctx \<and> int len < d \<and> min_count \<le> int (occurrences h q)
      \<and> (\<exists>tok. 0 < occurrences h (q @ [tok]) \<and> mp \<le> chance (int (occurrences h (q @ [tok]))) (int (occurrences h q))))"

lemma occurrences_length: "occurrences h p \<le> length h"
  by (simp add: occurrences_code) (metis length_filter_le length_upt minus_nat.diff_0)

lemma occurrences_append: "occurrences h (p @ q) \<le> occurrences h p"
  unfolding occurrences_def by (rule card_mono) (auto dest: append_prefixD)

lemma follow_drafts:
  assumes ok: "suffix_ok t h" and order: "\<And>chs. set (order chs) = set chs" and w: "walk q (sx_root t) = Some cur"
    and q: "q \<noteq> []" and d: "int (length q) < sx_max_depth t" and mp: "0 \<le> mp" and len: "length h < 2 ^ 31" and k: "0 < k"
    and tok: "0 < occurrences h (q @ [tok])" "mp \<le> chance (int (occurrences h (q @ [tok]))) (int (occurrences h q))"
    and f: "follow order mp k 0 1 cur = Inr (s, draft)"
  shows "draft \<noteq> [] \<and> 0 < s"
proof -
  have small: "int (occurrences h p) < 2 ^ 31" for p
    using occurrences_length [of h p] len by (simp add: zless_nat_eq_int_zless)
  have cur: "sn_count cur = int (occurrences h q)"
    using suffix_ok_count [OF ok q] d w by (simp add: path_count_def)
  have "walk (q @ [tok]) (sx_root t) \<noteq> None"
  proof
    assume "walk (q @ [tok]) (sx_root t) = None"
    with suffix_ok_count [OF ok, of "q @ [tok]"] d tok(1) show False by (simp add: path_count_def)
  qed
  then obtain ch where ch: "(tok, ch) \<in> set (sn_children cur)"
    using w by (auto simp: walk_append dest: map_of_SomeD split: option.splits)
  obtain k' where k': "k = Suc k'" using k by (cases k) auto
  obtain bt bc where b: "best_child (order (sn_children cur)) (-1) 0 = (bt, bc)" by fastforce
  from best_child_max [OF b] order ch have "sn_count ch \<le> bc"
    and src: "bt = -1 \<and> bc = 0 \<or> (\<exists>ch. (bt, ch) \<in> set (sn_children cur) \<and> bc = sn_count ch)" by auto
  then have le: "int (occurrences h (q @ [tok])) \<le> bc" using child_facts(4) [OF ok w ch] by simp
  then have "bc \<noteq> 0" using tok(1) by simp
  with src obtain bch where bch: "(bt, bch) \<in> set (sn_children cur)" "bc = sn_count bch" by blast
  have bc: "bc = int (occurrences h (q @ [bt]))" using child_facts(4) [OF ok w bch(1)] bch(2) by simp
  have q_pos: "0 < int (occurrences h q)" using tok(1) occurrences_append [of h q "[tok]"] by simp
  have pos: "0 < int (occurrences h (q @ [tok]))" "0 < bc" using tok(1) le by simp_all
  have small_bc: "bc < 2 ^ 31" using small bc by simp
  have "mp \<le> chance bc (int (occurrences h q))"
    using tok(2) chance_mono [OF pos(1) small le small_bc q_pos small] by simp
  then have "\<not> chance bc (sn_count cur) < mp" by (simp add: cur)
  moreover have ne: "sn_children cur \<noteq> []" using ch by auto
  ultimately obtain s' d' where f': "follow order mp k' (float_round (0 + chance bc (sn_count cur))) (chance bc (sn_count cur)) bch = Inr (s', d')"
      and sd: "s = s'" "draft = bt # d'"
    using f child_facts(1) [OF ok w bch(1)] b
    by (auto simp: k' Let_def chance_def ebind_Inr_iff split: if_splits)
  have "pow2 (-36) \<le> float_round (0 + chance bc (sn_count cur))"
    using chance_bounds(3) [OF pos(2) small_bc q_pos small] by (simp add: cur pow2_def power_int_def power_divide)
  from follow_score [OF _ _ mp this f'] have "pow2 (-36) \<le> s'" by simp
  then have "0 < s'" by (rule less_le_trans [OF pow2_pos])
  with sd show ?thesis by simp
qed

lemma match_lengths_keeps:
  assumes ok: "suffix_ok t h" and order: "\<And>chs. set (order chs) = set chs"
  shows "best \<noteq> [] \<Longrightarrow> match_lengths order (sx_root t) ctx max_spec mp mc lens score best = Inr draft \<Longrightarrow> draft \<noteq> []"
proof (induction lens arbitrary: score best)
  case (Cons l lens)
  then show ?case by (auto simp: ebind_Inr_iff split: option.splits if_splits)
qed simp

section \<open>Properties\<close>

text \<open>
  C22. However the token history arrives, in whatever pieces, the node at a path of the suffix tree
  holds exactly the number of times the path occurs in the whole history, for paths up to the
  depth of the tree; longer paths are not stored.
\<close>

theorem suffix_tree_counts:
  assumes "0 \<le> d" "p \<noteq> []"
  shows "path_count p (sx_root (fold suffix_extend chunks (suffix_new d))) =
     (if int (length p) \<le> d then int (occurrences (concat chunks) p) else 0)"
proof -
  have depth: "sx_max_depth (fold suffix_extend chunks t) = sx_max_depth t" for t
    by (induction chunks arbitrary: t) simp_all
  show ?thesis
    using suffix_ok_count [OF suffix_ok_run [OF suffix_ok_new [OF assms(1)]] assms(2), of chunks]
    by (simp add: depth) (simp add: suffix_new_def)
qed

theorem suffix_tree_counts_witness:
  "path_count [7, 8] (sx_root (fold suffix_extend [[7, 8, 7], [8, 9], [7, 8]] (suffix_new 3))) = 3"
proof -
  have "occurrences (concat [[7, 8, 7], [8, 9], [7, 8]]) [7, 8] = 3" by code_simp
  then show ?thesis using suffix_tree_counts [of 3 "[7, 8]" "[[7, 8, 7], [8, 9], [7, 8]]"] by simp
qed

text \<open>
  C13. Drafting from the suffix tree never fails, whatever the order of the child tables. A draft that is not empty
  continues the last \<open>len\<close> tokens of the context, for an admissible length, by tokens that
  followed them in the history, and each of its tokens is one that followed most often; the draft is empty only
  when the context is not worth one.
\<close>

theorem suffix_speculate_sound:
  assumes d: "0 \<le> d" and order: "\<And>chs. set (order chs) = set chs" and mp: "0 \<le> mp"
    and len: "length (concat chunks) < 2 ^ 31" and ms: "0 < max_spec"
  shows "\<exists>draft. suffix_speculate order ctx max_spec mp mc min_len (fold suffix_extend chunks (suffix_new d)) = Inr draft
     \<and> (if draft = [] then \<not> worth_drafting (concat chunks) ctx d mp mc min_len
        else \<exists>len. good_draft (concat chunks) ctx d max_spec mc min_len len draft)"
proof (cases "ctx = []")
  case True
  then show ?thesis by (auto simp: suffix_speculate_def worth_drafting_def Let_def)
next
  case False
  let ?t = "fold suffix_extend chunks (suffix_new d)" and ?h = "concat chunks"
  have "sx_max_depth (fold suffix_extend chunks t) = sx_max_depth t" for t
    by (induction chunks arbitrary: t) simp_all
  then have depth: "sx_max_depth ?t = d" by (simp add: suffix_new_def)
  have ok: "suffix_ok ?t ?h" using suffix_ok_run [OF suffix_ok_new [OF d]] by simp
  let ?k = "nat (int (length ctx) - d)"
  let ?c = "drop ?k ctx" and ?l = "max 1 min_len"
  let ?lens = "[?l..min (int (length ?c)) d]"
  have bounds: "\<forall>l \<in> set ?lens. 1 \<le> l \<and> min_len \<le> l \<and> l \<le> int (length ?c)" by simp
  obtain draft where m: "match_lengths order (sx_root ?t) ?c max_spec mp mc ?lens 0 [] = Inr draft"
    and g: "draft = [] \<or> (\<exists>len. good_draft ?h ?c (sx_max_depth ?t) max_spec mc min_len len draft)"
    using match_lengths_good [OF ok order ms bounds, where best = "[]"] by blast
  have c: "(if int (length ctx) > d then drop ?k ctx else ctx) = ?c" by simp
  have "min (int (length ctx)) d = min (int (length ?c)) d" using d by auto
  then have run: "suffix_speculate order ctx max_spec mp mc min_len ?t = Inr draft"
    unfolding suffix_speculate_def depth Let_def c using False ms m by simp
  have "good_draft ?h ctx d max_spec mc min_len len draft" if "good_draft ?h ?c d max_spec mc min_len len draft" for len
    using that last_tokens_drop [of len ?k ctx] by (auto simp: good_draft_def)
  moreover have "\<not> worth_drafting ?h ctx d mp mc min_len" if e: "draft = []"
  proof
    assume "worth_drafting ?h ctx d mp mc min_len"
    then obtain tok where l: "nat ?l \<le> length ctx" "int (nat ?l) < d" and cnt: "mc \<le> int (occurrences ?h (last_tokens (nat ?l) ctx))"
      and tok: "0 < occurrences ?h (last_tokens (nat ?l) ctx @ [tok])"
        "mp \<le> chance (int (occurrences ?h (last_tokens (nat ?l) ctx @ [tok]))) (int (occurrences ?h (last_tokens (nat ?l) ctx)))"
      by (auto simp: worth_drafting_def Let_def)
    let ?q = "last_tokens (nat ?l) ctx"
    have ql: "length ?q = nat ?l" by (rule last_tokens_length [OF l(1)])
    moreover have "0 < nat ?l" by simp
    ultimately have q: "?q \<noteq> []" by (metis length_0_conv less_irrefl)
    have qd: "int (length ?q) < d" using l(2) ql by simp
    have pos: "0 < occurrences ?h ?q" using tok(1) occurrences_append [of ?h ?q "[tok]"] by simp
    then have "path_count ?q (sx_root ?t) = int (occurrences ?h ?q)"
      using suffix_ok_count [OF ok q] qd depth by simp
    with pos obtain node where w: "walk ?q (sx_root ?t) = Some node" and node: "sn_count node = int (occurrences ?h ?q)"
      by (auto simp: path_count_def split: option.splits)
    have "path_count (?q @ [tok]) (sx_root ?t) \<noteq> 0"
      using suffix_ok_count [OF ok, of "?q @ [tok]"] qd depth tok(1) by simp
    then have ne: "sn_children node \<noteq> []" using w by (auto simp: path_count_def walk_append)
    have k: "0 < nat (min max_spec (?l + 8))" using ms by simp
    have "int (length ?q) \<le> sx_max_depth ?t" using qd depth by simp
    from follow_greedy [OF ok order w this] obtain s dr where
      f: "follow order mp (nat (min max_spec (?l + 8))) 0 1 node = Inr (s, dr)" by blast
    have "int (length ?q) < sx_max_depth ?t" using qd depth by simp
    from follow_drafts [OF ok order w q this mp len k tok f] have dr: "dr \<noteq> [] \<and> 0 < s" .
    have "int (length ?c) = min (int (length ctx)) d" using d by auto
    moreover have "?l \<le> int (length ctx)" "?l \<le> d" using l by linarith+
    ultimately have "?l \<le> min (int (length ?c)) d" by linarith
    then have lens: "?lens = ?l # [?l + 1..min (int (length ?c)) d]" by (rule upto_rec1)
    have "last_tokens (nat ?l) ?c = ?q" using l by (intro last_tokens_drop) linarith
    then have "match_lengths order (sx_root ?t) ?c max_spec mp mc ?lens 0 [] =
        match_lengths order (sx_root ?t) ?c max_spec mp mc [?l + 1..min (int (length ?c)) d] s dr"
      unfolding lens using w node cnt ne f dr by simp
    with m have rest: "match_lengths order (sx_root ?t) ?c max_spec mp mc [?l + 1..min (int (length ?c)) d] s dr = Inr draft"
      by simp
    have "dr \<noteq> []" using dr by blast
    from match_lengths_keeps [OF ok order this rest] e show False by blast
  qed
  ultimately show ?thesis using run g unfolding depth by auto
qed

theorem suffix_speculate_sound_witness:
  "\<exists>draft len. suffix_speculate rev [1, 2] 4 (1 / 2 ^ 35) 1 2 (fold suffix_extend [[1, 2, 3], [4, 1, 2, 3]] (suffix_new 6)) = Inr draft
     \<and> draft \<noteq> [] \<and> good_draft [1, 2, 3, 4, 1, 2, 3] [1, 2] 6 4 1 2 len draft"
proof -
  have occ: "occurrences [1, 2, 3, 4, 1, 2, 3] [1, 2] = 2" "occurrences [1, 2, 3, 4, 1, 2, 3] [1, 2, 3] = 2"
    by code_simp+
  have "1 / 2 ^ 35 \<le> chance 2 2" by (rule chance_bounds) simp_all
  then have "worth_drafting [1, 2, 3, 4, 1, 2, 3] [1, 2] 6 (1 / 2 ^ 35) 1 2"
    by (auto simp: worth_drafting_def last_tokens_def occ Let_def intro!: exI [of _ 3])
  with suffix_speculate_sound [of 6 rev "1 / 2 ^ 35" "[[1, 2, 3], [4, 1, 2, 3]]" 4 "[1, 2]" 1 2]
  show ?thesis by (auto split: if_splits)
qed

end
