(* ===== verification/Ngram_Map.thy ===== *)
theory Ngram_Map
  imports Pin_Prelude
begin

text \<open>
  Self-speculation from the token history (\<open>common/ngram-map.h\<close> and \<open>.cpp\<close>): the plain
  search for the last tokens in the history, and the map of key n-grams with statistics of the
  m-grams after them. A read beyond the end of the history, which the code does not check, is an error value.
  Sizes and indices are natural numbers below \<open>2^64\<close>; \<open>size_sub\<close> is the subtraction of the
  code, which wraps. The vector \<open>key_map\<close> is its size and the function of its entries. Of what
  is only logged, the numbers are left out; the tokens of the values are read from the history
  without a check, so those reads are kept (\<open>print_values\<close>, as if the log level let them through).
\<close>

section \<open>Searching the history\<close>

definition token_at :: "int list \<Rightarrow> nat \<Rightarrow> int throws" where
  "token_at inp i = (if i < length inp then Inr (inp ! i) else Inl ''out of range'')"

definition size_sub :: "nat \<Rightarrow> nat \<Rightarrow> nat" where
  "size_sub a b = (if b \<le> a then a - b else 2 ^ 64 - (b - a))"

text \<open>The comparison loops: a pattern at a position, and two pieces of the history.\<close>

fun ngram_match :: "int list \<Rightarrow> nat \<Rightarrow> int list \<Rightarrow> bool throws" where
  "ngram_match inp start [] = Inr True"
| "ngram_match inp start (x # xs) =
     ebind (token_at inp start) (\<lambda>y. if y \<noteq> x then Inr False else ngram_match inp (Suc start) xs)"

fun mgram_match :: "int list \<Rightarrow> nat \<Rightarrow> nat \<Rightarrow> nat \<Rightarrow> bool throws" where
  "mgram_match inp a b 0 = Inr True"
| "mgram_match inp a b (Suc k) = ebind (token_at inp a) (\<lambda>x. ebind (token_at inp b) (\<lambda>y.
     if x \<noteq> y then Inr False else mgram_match inp (Suc a) (Suc b) k))"

text \<open>The loops from \<open>hi\<close> down to the position above \<open>lo\<close>; \<open>0\<close> is no match.\<close>

definition down_to :: "nat \<Rightarrow> nat \<Rightarrow> nat list" where
  "down_to lo hi = rev [Suc lo..<Suc hi]"

fun find_match :: "int list \<Rightarrow> int list \<Rightarrow> nat list \<Rightarrow> nat throws" where
  "find_match inp key [] = Inr 0"
| "find_match inp key (j # js) = ebind (ngram_match inp j key) (\<lambda>b. if b then Inr j else find_match inp key js)"

text \<open>The key of a draft: the last tokens of the history and the sampled one.\<close>

definition key_of :: "nat \<Rightarrow> int list \<Rightarrow> int \<Rightarrow> int list" where
  "key_of n inp sampled = drop (length inp + 1 - n) inp @ [sampled]"

definition copy_tokens :: "int list \<Rightarrow> nat \<Rightarrow> nat \<Rightarrow> int list throws" where
  "copy_tokens inp start k = emap (\<lambda>i. token_at inp (start + i)) [0..<k]"

record common_ngram_simple_config =
  ns_size_ngram :: u16
  ns_size_mgram :: u16

definition ngram_simple_draft :: "common_ngram_simple_config \<Rightarrow> int list \<Rightarrow> int \<Rightarrow> int list throws" where
  "ngram_simple_draft config tokens sampled =
     (let cur_len = length tokens; n = unat (ns_size_ngram config); m = unat (ns_size_mgram config) in
      if cur_len \<le> n + m + 1 then Inr [] else
      ebind (find_match tokens (key_of n tokens sampled) (down_to 0 (cur_len - n - 1))) (\<lambda>match_pos.
        if match_pos = 0 then Inr [] else
        let copy_max = min m (cur_len - (match_pos + n)) in
        if copy_max < n then Inr [] else copy_tokens tokens (match_pos + n) copy_max))"

section \<open>The map\<close>

record common_ngram_map_value =
  mv_value_idx :: nat
  mv_value_num :: nat
  mv_n_accepted :: "16 word"

record common_ngram_map_key =
  mk_key_idx :: nat
  mk_stat_idx :: nat
  mk_key_num :: nat
  mk_values :: "common_ngram_map_value list"

record common_ngram_map =
  ng_size_key :: u16
  ng_size_value :: u16
  ng_key_only :: bool
  ng_keys :: "common_ngram_map_key list"
  ng_min_hits :: u16
  ng_size_last_begin :: nat
  ng_last_draft_created :: bool
  ng_last_draft_key_idx :: nat
  ng_last_draft_value_idx :: nat
  ng_idx_last_check :: nat
  ng_key_map_size :: nat
  ng_key_map :: "nat \<Rightarrow> nat"
  ng_key_map_last_idx :: nat

definition ngram_map_new :: "u16 \<Rightarrow> u16 \<Rightarrow> bool \<Rightarrow> u16 \<Rightarrow> common_ngram_map" where
  "ngram_map_new sz_key sz_value only_keys min_hits =
     \<lparr>ng_size_key = sz_key, ng_size_value = sz_value, ng_key_only = only_keys, ng_keys = [], ng_min_hits = min_hits,
      ng_size_last_begin = 0, ng_last_draft_created = False, ng_last_draft_key_idx = 0, ng_last_draft_value_idx = 0,
      ng_idx_last_check = 0, ng_key_map_size = 262144, ng_key_map = (\<lambda>_. 0), ng_key_map_last_idx = 0\<rparr>"

definition to_u32 :: "nat \<Rightarrow> nat" where
  "to_u32 x = x mod 2 ^ 32"

text \<open>The hash of the first tokens of a list; a list that is too short is a read out of range.\<close>

fun ngram_map_hash :: "int list \<Rightarrow> nat \<Rightarrow> nat \<Rightarrow> u32 \<Rightarrow> u32 throws" where
  "ngram_map_hash tokens start 0 hash = Inr hash"
| "ngram_map_hash tokens start (Suc len) hash =
     ebind (token_at tokens start) (\<lambda>t. ngram_map_hash tokens (Suc start) len (hash * 2654435761 + word_of_int t))"

subsection \<open>A new generation\<close>

definition drop_value :: "nat \<Rightarrow> common_ngram_map_value list \<Rightarrow> common_ngram_map_value list" where
  "drop_value j vs = take j vs @ drop (Suc j) vs @ [(vs ! 3)\<lparr>mv_value_idx := 0, mv_value_num := 0\<rparr>]"

definition refresh_values :: "nat \<Rightarrow> common_ngram_map_value list \<Rightarrow> common_ngram_map_value list" where
  "refresh_values lim vs = fold (\<lambda>j vs. if mv_value_idx (vs ! j) \<ge> lim then drop_value j vs else vs) [3, 2, 1, 0] vs"

definition refresh_key :: "nat \<Rightarrow> bool \<Rightarrow> common_ngram_map_key \<Rightarrow> common_ngram_map_key option" where
  "refresh_key lim key_only key =
     (if mk_key_idx key \<ge> lim then None
      else if key_only then Some key
      else let vs = refresh_values lim (mk_values key) in
        if mv_value_idx (vs ! 0) = 0 then None else Some (key\<lparr>mk_values := vs\<rparr>))"

definition ngram_map_begin :: "int list \<Rightarrow> common_ngram_map \<Rightarrow> common_ngram_map" where
  "ngram_map_begin tokens mp =
     (let size_begin = length tokens; lim = ng_size_last_begin mp;
          mp1 = (if ng_key_map_size mp \<noteq> 0 \<and> size_begin < ng_idx_last_check mp
            then mp\<lparr>ng_key_map := (\<lambda>i. if ng_key_map mp i \<ge> lim then 0 else ng_key_map mp i),
                   ng_key_map_last_idx := (if lim > 0 then to_u32 (lim - 1) else 0)\<rparr> else mp);
          mp2 = (if size_begin < ng_idx_last_check mp \<and> ng_keys mp \<noteq> []
            then mp1\<lparr>ng_keys := List.map_filter (refresh_key lim (ng_key_only mp)) (ng_keys mp)\<rparr> else mp1)
      in mp2\<lparr>ng_idx_last_check := size_begin, ng_size_last_begin := size_begin\<rparr>)"

subsection \<open>A draft\<close>

definition hashed_position :: "int list \<Rightarrow> int list \<Rightarrow> common_ngram_map \<Rightarrow> nat throws" where
  "hashed_position inp key mp =
     (let n = unat (ng_size_key mp); m = unat (ng_size_value mp) in
      if ng_key_map_size mp = 0 then Inr 0 else
      ebind (ngram_map_hash key 0 n 0) (\<lambda>h.
        let idx_key = ng_key_map mp (unat h mod ng_key_map_size mp) in
        if idx_key \<noteq> 0 \<and> idx_key < size_sub (length inp) (n + m + 1) then
          ebind (ngram_match inp idx_key (take n key)) (\<lambda>b. Inr (if b then idx_key else 0))
        else Inr 0))"

text \<open>The two ranges of positions that are searched and then hashed.\<close>

definition old_positions :: "common_ngram_map \<Rightarrow> nat list" where
  "old_positions mp = (let k = unat (ng_size_key mp) + unat (ng_size_value mp) + 1 in
     if ng_size_last_begin mp > k then down_to (ng_key_map_last_idx mp) (ng_size_last_begin mp - k) else [])"

definition new_positions :: "int list \<Rightarrow> common_ngram_map \<Rightarrow> nat list" where
  "new_positions inp mp = down_to (max (ng_size_last_begin mp) (ng_key_map_last_idx mp))
     (size_sub (length inp) (unat (ng_size_key mp) + unat (ng_size_value mp) + 1))"

definition match_position :: "int list \<Rightarrow> int list \<Rightarrow> common_ngram_map \<Rightarrow> nat throws" where
  "match_position inp key mp =
     ebind (hashed_position inp key mp) (\<lambda>p.
     ebind (if p = 0 then find_match inp (take (unat (ng_size_key mp)) key) (old_positions mp) else Inr p) (\<lambda>p.
     if p = 0 then find_match inp (take (unat (ng_size_key mp)) key) (new_positions inp mp) else Inr p))"

fun add_hashes :: "int list \<Rightarrow> nat \<Rightarrow> nat \<Rightarrow> nat list \<Rightarrow> (nat \<Rightarrow> nat) \<Rightarrow> (nat \<Rightarrow> nat) throws" where
  "add_hashes inp n sz [] km = Inr km"
| "add_hashes inp n sz (j # js) km = ebind (ngram_map_hash inp j n 0) (\<lambda>h.
     let i = unat h mod sz in add_hashes inp n sz js (if km i = 0 then km(i := to_u32 j) else km))"

definition update_key_map :: "int list \<Rightarrow> common_ngram_map \<Rightarrow> common_ngram_map throws" where
  "update_key_map inp mp =
     (if ng_key_map_size mp = 0 then Inr mp else
      let n = unat (ng_size_key mp); m = unat (ng_size_value mp) in
      ebind (add_hashes inp n (ng_key_map_size mp) (old_positions mp @ new_positions inp mp) (ng_key_map mp)) (\<lambda>km.
        Inr (mp\<lparr>ng_key_map := km,
                ng_key_map_last_idx := max (to_u32 (size_sub (length inp) (n + m + 1))) (ng_key_map_last_idx mp)\<rparr>)))"

text \<open>The key entry for the pattern, by its place among the keys, or the number of keys.\<close>

fun find_key :: "int list \<Rightarrow> int list \<Rightarrow> common_ngram_map_key list \<Rightarrow> nat \<Rightarrow> nat throws" where
  "find_key inp pat [] i = Inr i"
| "find_key inp pat (k # ks) i =
     ebind (ngram_match inp (mk_key_idx k) pat) (\<lambda>b. if b then Inr i else find_key inp pat ks (Suc i))"

definition new_key :: "nat \<Rightarrow> u16 \<Rightarrow> common_ngram_map_key" where
  "new_key match_pos m = \<lparr>mk_key_idx = match_pos, mk_stat_idx = 0, mk_key_num = 0,
     mk_values = replicate 4 \<lparr>mv_value_idx = 0, mv_value_num = 0, mv_n_accepted = m\<rparr>\<rparr>"

text \<open>The slot of the m-gram at a position: an equal one, else the first empty one, which it takes, else none.\<close>

fun value_slot :: "int list \<Rightarrow> u16 \<Rightarrow> nat \<Rightarrow> common_ngram_map_value list \<Rightarrow> nat list \<Rightarrow> (common_ngram_map_value list \<times> nat option) throws" where
  "value_slot inp m pos vs [] = Inr (vs, None)"
| "value_slot inp m pos vs (v # rest) =
     (if mv_value_idx (vs ! v) = 0
      then Inr (vs[v := \<lparr>mv_value_idx = pos, mv_value_num = 0, mv_n_accepted = m\<rparr>], Some v)
      else ebind (mgram_match inp pos (mv_value_idx (vs ! v)) (unat m)) (\<lambda>b.
        if b then Inr (vs, Some v) else value_slot inp m pos vs rest))"

definition bump :: "nat \<Rightarrow> nat" where
  "bump x = min (x + 1) 16380"

fun collect_values :: "int list \<Rightarrow> u16 \<Rightarrow> int list \<Rightarrow> nat list \<Rightarrow> common_ngram_map_value list \<Rightarrow> common_ngram_map_value list throws" where
  "collect_values inp m pat [] vs = Inr vs"
| "collect_values inp m pat (i # rest) vs = ebind (ngram_match inp i pat) (\<lambda>b.
     if \<not> b then collect_values inp m pat rest vs else
     ebind (value_slot inp m (i + length pat) vs [0, 1, 2, 3]) (\<lambda>(vs, slot).
       case slot of None \<Rightarrow> collect_values inp m pat rest vs
       | Some v \<Rightarrow> collect_values inp m pat rest (vs[v := (vs ! v)\<lparr>mv_value_num := bump (mv_value_num (vs ! v))\<rparr>])))"

text \<open>The most frequent value, the first of those, and the occurrences of the others.\<close>

fun slot_of_max :: "common_ngram_map_value list \<Rightarrow> nat list \<Rightarrow> nat \<Rightarrow> nat \<Rightarrow> nat \<times> nat" where
  "slot_of_max vs [] max_occur slot = (max_occur, slot)"
| "slot_of_max vs (v # rest) max_occur slot =
     (if mv_value_num (vs ! v) > max_occur then slot_of_max vs rest (mv_value_num (vs ! v)) v
      else slot_of_max vs rest max_occur slot)"

definition other_occurrences :: "common_ngram_map_value list \<Rightarrow> nat \<Rightarrow> nat" where
  "other_occurrences vs slot = sum_list (map (\<lambda>v. if v = slot then 0 else mv_value_num (vs ! v)) [0, 1, 2, 3])"

definition emit_draft :: "int list \<Rightarrow> nat \<Rightarrow> nat \<Rightarrow> nat \<Rightarrow> common_ngram_map \<Rightarrow> (int list \<times> common_ngram_map) throws" where
  "emit_draft inp match_pos key_offset slot mp =
     (let n = unat (ng_size_key mp); m = unat (ng_size_value mp);
          k = nat (min (int m) (sint (mv_n_accepted (mk_values (ng_keys mp ! key_offset) ! slot)))) in
      ebind (copy_tokens inp (match_pos + n) k) (\<lambda>draft.
        Inr (draft, mp\<lparr>ng_last_draft_created := True, ng_last_draft_key_idx := key_offset, ng_last_draft_value_idx := slot\<rparr>)))"

text \<open>The tokens of the four values, read for the log.\<close>

fun print_values :: "int list \<Rightarrow> u16 \<Rightarrow> common_ngram_map_value list \<Rightarrow> nat list \<Rightarrow> unit throws" where
  "print_values inp m vs [] = Inr ()"
| "print_values inp m vs (v # rest) =
     (if mv_value_idx (vs ! v) \<noteq> 0
      then ebind (copy_tokens inp (mv_value_idx (vs ! v)) (unat m)) (\<lambda>_. print_values inp m vs rest)
      else print_values inp m vs rest)"

definition draft_from_key :: "int list \<Rightarrow> int list \<Rightarrow> nat \<Rightarrow> nat \<Rightarrow> common_ngram_map \<Rightarrow> (int list \<times> common_ngram_map) throws" where
  "draft_from_key inp pat match_pos key_offset mp =
     (let key = (ng_keys mp ! key_offset)\<lparr>mk_key_num := bump (mk_key_num (ng_keys mp ! key_offset))\<rparr>;
          mp = mp\<lparr>ng_keys := (ng_keys mp)[key_offset := key]\<rparr> in
      if ng_key_only mp then emit_draft inp match_pos key_offset 0 mp
      else if mk_key_num key < unat (ng_min_hits mp) then Inr ([], mp)
      else ebind (collect_values inp (ng_size_value mp) pat [mk_stat_idx key..<Suc match_pos] (mk_values key)) (\<lambda>vs.
        let mp = mp\<lparr>ng_keys := (ng_keys mp)[key_offset := key\<lparr>mk_values := vs, mk_stat_idx := match_pos\<rparr>]\<rparr>;
            (max_occur, slot) = slot_of_max vs [0, 1, 2, 3] 0 0; sum_occur = other_occurrences vs slot in
        ebind (print_values inp (ng_size_value mp) vs [0, 1, 2, 3]) (\<lambda>_.
        if sum_occur > 0 \<and> max_occur < 2 * sum_occur then Inr ([], mp)
        else emit_draft inp match_pos key_offset slot mp)))"

definition ngram_map_draft :: "int list \<Rightarrow> int \<Rightarrow> common_ngram_map \<Rightarrow> (int list \<times> common_ngram_map) throws" where
  "ngram_map_draft inp sampled mp =
     (let mp = mp\<lparr>ng_last_draft_created := False, ng_last_draft_key_idx := 0, ng_last_draft_value_idx := 0\<rparr>;
          cur_len = length inp; n = unat (ng_size_key mp); m = unat (ng_size_value mp) in
      if cur_len < 2 * n + m then Inr ([], mp)
      else if cur_len \<ge> 4294967295 then Inl ''abort''
      else let mp = mp\<lparr>ng_idx_last_check := cur_len\<rparr>; key = key_of n inp sampled; pat = take n key in
      ebind (match_position inp key mp) (\<lambda>match_pos.
      ebind (update_key_map inp mp) (\<lambda>mp.
      if match_pos = 0 then Inr ([], mp) else
      ebind (find_key inp pat (ng_keys mp) 0) (\<lambda>key_offset.
        let mp = (if key_offset = length (ng_keys mp) then mp\<lparr>ng_keys := ng_keys mp @ [new_key match_pos (ng_size_value mp)]\<rparr> else mp)
        in draft_from_key inp pat match_pos key_offset mp))))"

definition ngram_map_accept :: "u16 \<Rightarrow> common_ngram_map \<Rightarrow> common_ngram_map throws" where
  "ngram_map_accept n_accepted mp =
     (if \<not> ng_last_draft_created mp then Inr mp
      else if ng_last_draft_key_idx mp \<ge> length (ng_keys mp) then Inl ''out of range''
      else let k = ng_last_draft_key_idx mp; v = ng_last_draft_value_idx mp; key = ng_keys mp ! k in
        Inr (mp\<lparr>ng_keys := (ng_keys mp)[k := key\<lparr>mk_values := (mk_values key)[v := (mk_values key ! v)\<lparr>mv_n_accepted := n_accepted\<rparr>]\<rparr>]\<rparr>))"

end
