(* ===== verification/Ngram_Mod.thy ===== *)
theory Ngram_Mod
  imports Ngram_Map Suffix_Tree
begin

text \<open>
  The hashed n-gram table (\<open>common/ngram-mod.h\<close> and \<open>.cpp\<close>) and the two speculators of
  \<open>common/speculative.cpp\<close> that keep a state between rounds: the one over this table and the one over the
  suffix tree, with their reactions to how much of a draft was accepted. Occupancy and acceptance are
  \<open>double\<close>s, the threshold of the suffix speculator is a \<open>float\<close>, as in the theories of their rounding.
\<close>

section \<open>The table\<close>

record common_ngram_mod =
  nm_n :: nat
  nm_used :: nat
  nm_entries :: "int list"

definition ngram_mod_reset :: "common_ngram_mod \<Rightarrow> common_ngram_mod" where
  "ngram_mod_reset md = md\<lparr>nm_entries := replicate (length (nm_entries md)) (-1), nm_used := 0\<rparr>"

definition ngram_mod_new :: "u16 \<Rightarrow> nat \<Rightarrow> common_ngram_mod" where
  "ngram_mod_new n sz = \<lparr>nm_n = unat n, nm_used = 0, nm_entries = replicate sz (-1)\<rparr>"

fun ngram_mod_hash :: "int list \<Rightarrow> u64 \<Rightarrow> u64" where
  "ngram_mod_hash [] res = res"
| "ngram_mod_hash (t # ts) res = ngram_mod_hash ts (res * 6364136223846793005 + word_of_int t)"

text \<open>
  The functions get a pointer to tokens, here the history and an index. A read outside the history and the
  remainder by an empty table are errors.
\<close>

definition ngram_mod_idx :: "int list \<Rightarrow> nat \<Rightarrow> common_ngram_mod \<Rightarrow> nat throws" where
  "ngram_mod_idx tokens i md = ebind (copy_tokens tokens i (nm_n md)) (\<lambda>ts.
     if nm_entries md = [] then Inl ''division by zero''
     else Inr (unat (ngram_mod_hash ts 0) mod length (nm_entries md)))"

definition ngram_mod_add :: "int list \<Rightarrow> nat \<Rightarrow> common_ngram_mod \<Rightarrow> common_ngram_mod throws" where
  "ngram_mod_add tokens i md = ebind (ngram_mod_idx tokens i md) (\<lambda>k. ebind (token_at tokens (i + nm_n md)) (\<lambda>t.
     Inr (md\<lparr>nm_used := (if nm_entries md ! k = -1 then nm_used md + 1 else nm_used md), nm_entries := (nm_entries md)[k := t]\<rparr>)))"

definition ngram_mod_get :: "int list \<Rightarrow> nat \<Rightarrow> common_ngram_mod \<Rightarrow> int throws" where
  "ngram_mod_get tokens i md = ebind (ngram_mod_idx tokens i md) (\<lambda>k. Inr (nm_entries md ! k))"

section \<open>The speculator over the table\<close>

record ngram_mod_state =
  nd_mod :: common_ngram_mod
  nd_i_last :: nat
  nd_n_draft_last :: nat
  nd_n_low :: int

fun add_range :: "int list \<Rightarrow> nat list \<Rightarrow> common_ngram_mod \<Rightarrow> common_ngram_mod throws" where
  "add_range tokens [] md = Inr md"
| "add_range tokens (i # rest) md = ebind (ngram_mod_add tokens i md) (add_range tokens rest)"

definition mod_begin :: "int list \<Rightarrow> ngram_mod_state \<Rightarrow> ngram_mod_state throws" where
  "mod_begin prompt s =
     (let s = s\<lparr>nd_i_last := 0, nd_n_draft_last := 0, nd_n_low := 0\<rparr>; n = nm_n (nd_mod s) in
      if length prompt < n then Inr s else
      ebind (add_range prompt [0..<length prompt - n] (nd_mod s)) (\<lambda>md.
        let f = double_div (fl (of_nat (nm_used md))) (fl (of_nat (length (nm_entries md)))) in
        Inr (s\<lparr>nd_i_last := length prompt - n, nd_mod := (if f > 1 / 4 then ngram_mod_reset md else md)\<rparr>)))"

text \<open>
  The drafting loop: the buffer starts with the key, \<open>i\<close> counts the tokens drafted and \<open>k\<close> those still wanted;
  \<open>None\<close> when it ends before the minimum.
\<close>

fun mod_loop :: "common_ngram_mod \<Rightarrow> int \<Rightarrow> nat \<Rightarrow> nat \<Rightarrow> int list \<Rightarrow> int list option throws" where
  "mod_loop md n_min i 0 buf = Inr (Some buf)"
| "mod_loop md n_min i (Suc k) buf = ebind (ngram_mod_get buf i md) (\<lambda>t.
     if t = -1 then Inr (if int i < n_min then None else Some buf)
     else mod_loop md n_min (Suc i) k (buf @ [t]))"

definition mod_draft :: "int \<Rightarrow> int \<Rightarrow> int list \<Rightarrow> int \<Rightarrow> ngram_mod_state \<Rightarrow> (int list \<times> ngram_mod_state) throws" where
  "mod_draft n_max n_min prompt id_last s =
     (let s = s\<lparr>nd_n_draft_last := 0\<rparr>; n = nm_n (nd_mod s); cur_len = length prompt in
      if cur_len < n then Inr ([], s) else
      ebind (if nd_i_last s + 32 < cur_len
             then ebind (add_range prompt [nd_i_last s..<cur_len - n] (nd_mod s)) (\<lambda>md. Inr (s\<lparr>nd_mod := md, nd_i_last := cur_len - n\<rparr>))
             else Inr s) (\<lambda>s.
      ebind (mod_loop (nd_mod s) n_min 0 (nat n_max) (key_of n prompt id_last)) (\<lambda>buf.
        case buf of None \<Rightarrow> Inr ([], s)
        | Some buf \<Rightarrow> let draft = drop n buf in Inr (draft, s\<lparr>nd_n_draft_last := length draft\<rparr>))))"

definition mod_accept :: "u16 \<Rightarrow> ngram_mod_state \<Rightarrow> ngram_mod_state" where
  "mod_accept n_accepted s =
     (if nd_n_draft_last s = 0 then s else
      let f_acc = double_div (fl (of_nat (unat n_accepted))) (fl (of_nat (nd_n_draft_last s))) in
      if f_acc < 1 / 2 then
        (if nd_n_low s + 1 \<ge> 3 then s\<lparr>nd_mod := ngram_mod_reset (nd_mod s), nd_n_low := 0, nd_i_last := 0\<rparr>
         else s\<lparr>nd_n_low := nd_n_low s + 1\<rparr>)
      else s\<lparr>nd_n_low := 0\<rparr>)"

section \<open>The speculator over the suffix tree\<close>

record suffix_state =
  sf_tree :: common_suffix_tree
  sf_corpus_tree :: common_suffix_tree
  sf_has_corpus :: bool
  sf_cache_size :: nat
  sf_n_draft_last :: nat
  sf_had_accept :: bool
  sf_n_low :: int
  sf_base_p_min :: rat
  sf_eff_p_min :: rat

definition float_tenth :: rat where
  "float_tenth = float_round (1 / 10)"

definition float_twentieth :: rat where
  "float_twentieth = float_round (1 / 20)"

definition suffix_state_new :: "int \<Rightarrow> (bool \<times> common_suffix_tree) option \<Rightarrow> suffix_state" where
  "suffix_state_new max_depth corpus =
     \<lparr>sf_tree = suffix_new max_depth, sf_corpus_tree = (case corpus of None \<Rightarrow> suffix_new max_depth | Some (ok, t) \<Rightarrow> t),
      sf_has_corpus = (case corpus of None \<Rightarrow> False | Some (ok, t) \<Rightarrow> ok), sf_cache_size = 0, sf_n_draft_last = 0,
      sf_had_accept = False, sf_n_low = 0, sf_base_p_min = float_tenth, sf_eff_p_min = float_tenth\<rparr>"

definition suffix_begin :: "suffix_state \<Rightarrow> suffix_state" where
  "suffix_begin s = s\<lparr>sf_cache_size := 0, sf_n_draft_last := 0, sf_had_accept := False, sf_n_low := 0\<rparr>"

definition low_round :: "suffix_state \<Rightarrow> suffix_state" where
  "low_round s = (if sf_n_low s + 1 \<ge> 3
     then s\<lparr>sf_eff_p_min := min (float_round (sf_eff_p_min s + float_tenth)) (1 / 2), sf_n_low := 0\<rparr>
     else s\<lparr>sf_n_low := sf_n_low s + 1\<rparr>)"

definition suffix_draft :: "map_order \<Rightarrow> rat \<Rightarrow> int \<Rightarrow> int \<Rightarrow> int list \<Rightarrow> int \<Rightarrow> suffix_state \<Rightarrow> (int list \<times> suffix_state) throws" where
  "suffix_draft order p_min n_max suffix_min_match_len prompt id_last s =
     (let s = s\<lparr>sf_base_p_min := p_min\<rparr>;
          s = (if sf_n_draft_last s > 0 \<and> \<not> sf_had_accept s then low_round s else s)\<lparr>sf_had_accept := False\<rparr>;
          s = (if sf_cache_size s < length prompt + 1
               then s\<lparr>sf_tree := suffix_extend (drop (sf_cache_size s) prompt @ [id_last]) (sf_tree s), sf_cache_size := length prompt + 1\<rparr>
               else s);
          ctx_len = min (int (length prompt + 1)) (sx_max_depth (sf_tree s));
          context = drop (nat (int (length prompt) + 1 - ctx_len)) prompt @ [id_last];
          min_match_len = max 1 suffix_min_match_len in
      ebind (suffix_speculate order context n_max (sf_eff_p_min s) 1 min_match_len (sf_tree s)) (\<lambda>own.
      ebind (if sf_has_corpus s then suffix_speculate order context n_max (sf_eff_p_min s) 1 min_match_len (sf_corpus_tree s) else Inr []) (\<lambda>other.
        let draft = (if sf_has_corpus s \<and> length other > length own then other else own) in
        Inr (draft, s\<lparr>sf_n_draft_last := length draft\<rparr>))))"

definition suffix_accept :: "u16 \<Rightarrow> suffix_state \<Rightarrow> suffix_state" where
  "suffix_accept n_accepted s =
     (if sf_n_draft_last s = 0 then s else
      let s = s\<lparr>sf_had_accept := True\<rparr>;
          f_acc = double_div (fl (of_nat (unat n_accepted))) (fl (of_nat (sf_n_draft_last s))) in
      if f_acc < 1 / 2 then low_round s
      else let s = s\<lparr>sf_n_low := 0\<rparr> in
        if sf_eff_p_min s > sf_base_p_min s
        then s\<lparr>sf_eff_p_min := max (float_round (sf_eff_p_min s - float_twentieth)) (sf_base_p_min s)\<rparr> else s)"

section \<open>What the table holds\<close>

text \<open>
  The successors of n-grams that share a place in a table of a given size, over the histories seen.
\<close>

definition seen_at :: "nat \<Rightarrow> nat \<Rightarrow> int list set \<Rightarrow> nat \<Rightarrow> int \<Rightarrow> bool" where
  "seen_at n sz hs k t \<longleftrightarrow> (\<exists>h \<in> hs. \<exists>i. i + n < length h \<and> unat (ngram_mod_hash (take n (drop i h)) 0) mod sz = k \<and> h ! (i + n) = t)"

definition table_ok :: "int list set \<Rightarrow> common_ngram_mod \<Rightarrow> bool" where
  "table_ok hs md \<longleftrightarrow> nm_entries md \<noteq> [] \<and> (\<forall>k < length (nm_entries md). nm_entries md ! k \<noteq> -1 \<longrightarrow>
      seen_at (nm_n md) (length (nm_entries md)) hs k (nm_entries md ! k))"

lemma table_ok_mono: "table_ok hs md \<Longrightarrow> hs \<subseteq> hs' \<Longrightarrow> table_ok hs' md"
  unfolding table_ok_def seen_at_def by blast

lemma table_ok_reset: "table_ok hs md \<Longrightarrow> table_ok hs' (ngram_mod_reset md)"
  by (auto simp: table_ok_def ngram_mod_reset_def)

end
