(* ===== verification/Ngram_Proofs.thy ===== *)
theory Ngram_Proofs
  imports Ngram_Map
begin

text \<open>
  Self-speculation from the history: when the indices of the map stay within the history, what a
  draft is, and two histories in which the map does what its comments exclude.
\<close>

section \<open>Reads in range\<close>

lemma token_at_in [simp]: "i < length inp \<Longrightarrow> token_at inp i = Inr (inp ! i)"
  by (simp add: token_at_def)

lemma ngram_match_in:
  "start + length pat \<le> length inp \<Longrightarrow> ngram_match inp start pat = Inr (take (length pat) (drop start inp) = pat)"
proof (induction pat arbitrary: start)
  case (Cons x xs)
  have "drop start inp = inp ! start # drop (Suc start) inp" using Cons.prems by (simp add: Cons_nth_drop_Suc)
  with Cons show ?case by auto
qed simp

lemma mgram_match_in:
  "a + k \<le> length inp \<Longrightarrow> b + k \<le> length inp \<Longrightarrow>
     mgram_match inp a b k = Inr (take k (drop a inp) = take k (drop b inp))"
proof (induction k arbitrary: a b)
  case (Suc k)
  have "drop a inp = inp ! a # drop (Suc a) inp" "drop b inp = inp ! b # drop (Suc b) inp"
    using Suc.prems by (simp_all add: Cons_nth_drop_Suc)
  with Suc show ?case by auto
qed simp

lemma ngram_map_hash_in: "start + k \<le> length tokens \<Longrightarrow> \<exists>h'. ngram_map_hash tokens start k h = Inr h'"
  by (induction k arbitrary: start h) auto

lemma find_match_in:
  assumes "\<forall>j \<in> set js. j + length key \<le> length inp"
  shows "find_match inp key js = Inr (case List.find (\<lambda>j. take (length key) (drop j inp) = key) js of None \<Rightarrow> 0 | Some j \<Rightarrow> j)"
  using assms by (induction js) (auto simp: ngram_match_in)

lemma copy_tokens_in:
  assumes "start + k \<le> length inp"
  shows "copy_tokens inp start k = Inr (take k (drop start inp))"
proof -
  have "emap (\<lambda>i. token_at inp (start + i)) js = Inr (map (\<lambda>i. inp ! (start + i)) js)" if "\<forall>i \<in> set js. i < k" for js
    using that assms by (induction js) auto
  moreover have "map (\<lambda>i. inp ! (start + i)) [0..<k] = take k (drop start inp)"
    using assms by (intro nth_equalityI) simp_all
  ultimately show ?thesis by (simp add: copy_tokens_def)
qed

lemma set_down_to [simp]: "set (down_to lo hi) = {lo<..hi}"
  by (auto simp: down_to_def)

text \<open>The loop downwards finds the greatest position, if there is one.\<close>

definition greatest_or_none :: "(nat \<Rightarrow> bool) \<Rightarrow> nat option" where
  "greatest_or_none Q = (if Ex Q then Some (Greatest Q) else None)"

lemma find_down_to: "List.find P (down_to lo hi) = greatest_or_none (\<lambda>j. lo < j \<and> j \<le> hi \<and> P j)"
proof (induction hi)
  case 0
  show ?case by (simp add: down_to_def greatest_or_none_def)
next
  case (Suc hi)
  show ?case
  proof (cases "lo \<le> hi \<and> P (Suc hi)")
    case True
    then have "(GREATEST j. lo < j \<and> j \<le> Suc hi \<and> P j) = Suc hi" by (intro Greatest_equality) auto
    with True show ?thesis by (auto simp: down_to_def greatest_or_none_def)
  next
    case False
    then have "(\<lambda>j. lo < j \<and> j \<le> Suc hi \<and> P j) = (\<lambda>j. lo < j \<and> j \<le> hi \<and> P j)" by (auto simp: fun_eq_iff le_Suc_eq)
    moreover have "List.find P (down_to lo (Suc hi)) = List.find P (down_to lo hi)" using False by (auto simp: down_to_def)
    ultimately show ?thesis using Suc.IH by simp
  qed
qed

lemma key_of_length [simp]: "1 \<le> n \<Longrightarrow> n \<le> Suc (length inp) \<Longrightarrow> length (key_of n inp sampled) = n"
  by (simp add: key_of_def)

section \<open>The plain search\<close>

text \<open>Where an n-gram occurs, away from position \<open>0\<close> and from the end.\<close>

definition occurs_at :: "int list \<Rightarrow> int list \<Rightarrow> nat \<Rightarrow> bool" where
  "occurs_at h key j \<longleftrightarrow> 0 < j \<and> j + length key < length h \<and> take (length key) (drop j h) = key"

text \<open>
  The plain self-speculation never reads outside the history. With enough history it drafts the
  tokens after the last earlier occurrence of the key, up to the size of the m-gram, provided there are at least
  as many as the key has; without such an occurrence or with too little history it drafts nothing.
\<close>

theorem ngram_simple_draft_exact:
  assumes n: "0 < unat (ns_size_ngram c)"
  shows "ngram_simple_draft c h t = Inr (
     let n = unat (ns_size_ngram c); m = unat (ns_size_mgram c); key = key_of n h t; p = (GREATEST j. occurs_at h key j) in
     if n + m + 1 < length h \<and> (\<exists>j. occurs_at h key j) \<and> n \<le> min m (length h - (p + n))
     then take m (drop (p + n) h) else [])"
proof (cases "unat (ns_size_ngram c) + unat (ns_size_mgram c) + 1 < length h")
  case True
  let ?n = "unat (ns_size_ngram c)" and ?m = "unat (ns_size_mgram c)"
  let ?key = "key_of ?n h t"
  have k: "length ?key = ?n" using True n by simp
  have occ: "(\<lambda>j. 0 < j \<and> j \<le> length h - ?n - 1 \<and> take (length ?key) (drop j h) = ?key) = occurs_at h ?key"
    using True by (auto simp: occurs_at_def k fun_eq_iff)
  have "\<forall>j \<in> set (down_to 0 (length h - ?n - 1)). j + length ?key \<le> length h" using True by (auto simp: k)
  then have f: "find_match h ?key (down_to 0 (length h - ?n - 1)) =
      Inr (case greatest_or_none (occurs_at h ?key) of None \<Rightarrow> 0 | Some j \<Rightarrow> j)"
    by (simp only: find_match_in find_down_to occ)
  show ?thesis
  proof (cases "\<exists>j. occurs_at h ?key j")
    case ex: True
    let ?p = "GREATEST j. occurs_at h ?key j"
    have "occurs_at h ?key ?p"
      using GreatestI_ex_nat [OF ex, of "length h"] by (auto simp: occurs_at_def)
    then have p: "0 < ?p" "?p + ?n < length h" by (auto simp: occurs_at_def k)
    have t: "take (min ?m (length h - (?p + ?n))) (drop (?p + ?n) h) = take ?m (drop (?p + ?n) h)" by (simp add: min_def)
    show ?thesis
      using True f ex p by (auto simp: greatest_or_none_def ngram_simple_draft_def Let_def copy_tokens_in t min_less_iff_disj not_less)
  next
    case False
    then show ?thesis using True f by (auto simp: ngram_simple_draft_def greatest_or_none_def Let_def)
  qed
qed (simp add: ngram_simple_draft_def Let_def)

theorem ngram_simple_draft_exact_witness:
  "ngram_simple_draft \<lparr>ns_size_ngram = 2, ns_size_mgram = 3\<rparr> [9, 1, 2, 3, 4, 5, 1] 2 = Inr [3, 4, 5]"
proof -
  let ?h = "[9, 1, 2, 3, 4, 5, 1] :: int list"
  have k: "key_of 2 ?h 2 = [1, 2]" by (simp add: key_of_def)
  have "occurs_at ?h [1, 2] j \<longleftrightarrow> j = 1" for j
  proof
    assume o: "occurs_at ?h [1, 2] j"
    then have "j \<in> {1, 2, 3, 4}" by (auto simp: occurs_at_def)
    with o show "j = 1" by (auto simp: occurs_at_def)
  qed (simp add: occurs_at_def)
  then have "occurs_at ?h [1, 2] = (\<lambda>j. j = 1)" by (rule ext)
  then show ?thesis using ngram_simple_draft_exact [of "\<lparr>ns_size_ngram = 2, ns_size_mgram = 3\<rparr>" ?h 2]
    by (simp add: k Greatest_equality)
qed

section \<open>The map stays within the history\<close>

definition value_ok :: "nat \<Rightarrow> nat \<Rightarrow> common_ngram_map_value \<Rightarrow> bool" where
  "value_ok m L v \<longleftrightarrow> mv_value_idx v = 0 \<or> mv_value_idx v + m < L"

definition key_ok :: "nat \<Rightarrow> nat \<Rightarrow> nat \<Rightarrow> bool \<Rightarrow> common_ngram_map_key \<Rightarrow> bool" where
  "key_ok n m L only key \<longleftrightarrow> mk_key_idx key + n + m < L \<and> length (mk_values key) = 4
     \<and> (\<forall>v \<in> set (mk_values key). value_ok m L v \<and> (only \<longrightarrow> mv_value_idx v = 0))"

definition ng_ok :: "nat \<Rightarrow> nat \<Rightarrow> common_ngram_map \<Rightarrow> bool" where
  "ng_ok n m mp \<longleftrightarrow> 0 < n \<and> unat (ng_size_key mp) = n \<and> unat (ng_size_value mp) = m
     \<and> ng_size_last_begin mp \<le> ng_idx_last_check mp
     \<and> (\<forall>key \<in> set (ng_keys mp). key_ok n m (ng_idx_last_check mp) (ng_key_only mp) key)"

lemma value_ok_mono: "value_ok m L v \<Longrightarrow> L \<le> L' \<Longrightarrow> value_ok m L' v"
  by (auto simp: value_ok_def)

lemma key_ok_mono: "key_ok n m L only key \<Longrightarrow> L \<le> L' \<Longrightarrow> key_ok n m L' only key"
  by (auto simp: key_ok_def intro: value_ok_mono)

subsection \<open>A new generation\<close>

lemma refresh_values_ok:
  assumes "length vs = 4"
  shows "length (refresh_values lim vs) = 4 \<and> (\<forall>v \<in> set (refresh_values lim vs). mv_value_idx v = 0 \<or> mv_value_idx v < lim)"
proof -
  obtain a b c d where vs: "vs = [a, b, c, d]" using assms by (auto simp: eval_nat_numeral length_Suc_conv)
  show ?thesis unfolding vs refresh_values_def by (auto simp: drop_value_def)
qed

lemma refresh_key_ok:
  assumes "key_ok n m L only key" "refresh_key lim only key = Some key'" "lim + n + m \<le> L'"
  shows "key_ok n m L' only key'"
  using assms refresh_values_ok [of "mk_values key" lim]
  by (auto simp: key_ok_def refresh_key_def value_ok_def Let_def split: if_splits)

lemma ngram_map_begin_ok:
  assumes ok: "ng_ok n m mp"
    and len: "ng_idx_last_check mp \<le> length tokens \<or> ng_size_last_begin mp + n + m \<le> length tokens"
  shows "ng_ok n m (ngram_map_begin tokens mp)" "ng_idx_last_check (ngram_map_begin tokens mp) = length tokens"
    "ng_size_last_begin (ngram_map_begin tokens mp) = length tokens"
proof -
  show "ng_idx_last_check (ngram_map_begin tokens mp) = length tokens"
    "ng_size_last_begin (ngram_map_begin tokens mp) = length tokens"
    by (simp_all add: ngram_map_begin_def Let_def)
  have keys: "ng_keys (ngram_map_begin tokens mp) = (if length tokens < ng_idx_last_check mp
      then List.map_filter (refresh_key (ng_size_last_begin mp) (ng_key_only mp)) (ng_keys mp) else ng_keys mp)"
    by (cases "ng_keys mp") (simp_all add: ngram_map_begin_def Let_def map_filter_simps)
  have "key_ok n m (length tokens) (ng_key_only mp) key" if k: "key \<in> set (ng_keys (ngram_map_begin tokens mp))" for key
  proof (cases "length tokens < ng_idx_last_check mp")
    case True
    then obtain key0 where "key0 \<in> set (ng_keys mp)" "refresh_key (ng_size_last_begin mp) (ng_key_only mp) key0 = Some key"
      using k by (auto simp: keys map_filter_def)
    with True ok len show ?thesis by (auto simp: ng_ok_def intro: refresh_key_ok)
  next
    case False
    with k ok show ?thesis by (auto simp: keys ng_ok_def intro: key_ok_mono)
  qed
  with ok show "ng_ok n m (ngram_map_begin tokens mp)" by (simp add: ng_ok_def ngram_map_begin_def Let_def)
qed

subsection \<open>The search for the key\<close>

definition found :: "nat \<Rightarrow> nat \<Rightarrow> int list \<Rightarrow> int list \<Rightarrow> nat \<Rightarrow> bool" where
  "found n m inp key p \<longleftrightarrow> 0 < p \<and> p + n + m < length inp \<and> take n (drop p inp) = key"

lemma find_match_found:
  assumes "\<forall>j \<in> set js. 0 < j \<and> j + n + m < length inp" and "length key = n"
  shows "\<exists>p. find_match inp key js = Inr p \<and> (p = 0 \<or> found n m inp key p)"
proof -
  have "\<forall>j \<in> set js. j + length key \<le> length inp" using assms by auto
  from find_match_in [OF this] show ?thesis using assms
    by (auto simp: found_def find_Some_iff split: option.splits)
qed

lemma positions_in_range:
  assumes "ng_ok n m mp" "n + m + 1 \<le> length inp" "ng_size_last_begin mp \<le> length inp"
  shows "\<forall>j \<in> set (old_positions mp). 0 < j \<and> j + n + m < length inp"
    "\<forall>j \<in> set (new_positions inp mp). 0 < j \<and> j + n + m < length inp"
  using assms by (auto simp: old_positions_def new_positions_def ng_ok_def Let_def size_sub_def)

lemma match_position_found:
  assumes ok: "ng_ok n m mp" and len: "n + m + 1 \<le> length inp" "ng_size_last_begin mp \<le> length inp" and k: "length key = n"
  shows "\<exists>p. match_position inp key mp = Inr p \<and> (p = 0 \<or> found n m inp key p)"
proof -
  note pos = positions_in_range [OF ok len]
  have sizes: "unat (ng_size_key mp) = n" "unat (ng_size_value mp) = m" using ok by (simp_all add: ng_ok_def)
  have "\<exists>p. hashed_position inp key mp = Inr p \<and> (p = 0 \<or> found n m inp key p)"
  proof (cases "ng_key_map_size mp = 0")
    case False
    obtain h where h: "ngram_map_hash key 0 n 0 = Inr h" using ngram_map_hash_in [of 0 n key 0] k by auto
    let ?i = "ng_key_map mp (unat h mod ng_key_map_size mp)"
    show ?thesis
    proof (cases "?i \<noteq> 0 \<and> ?i < size_sub (length inp) (n + m + 1)")
      case True
      then have "?i + n + m < length inp" using len by (auto simp: size_sub_def)
      then have "ngram_match inp ?i key = Inr (take n (drop ?i inp) = key)" using ngram_match_in [of ?i key inp] k by simp
      with True False h \<open>?i + n + m < length inp\<close> show ?thesis
        by (auto simp: hashed_position_def sizes Let_def found_def k)
    qed (use False h in \<open>auto simp: hashed_position_def sizes Let_def\<close>)
  qed (simp add: hashed_position_def)
  then obtain p1 where p1: "hashed_position inp key mp = Inr p1" "p1 = 0 \<or> found n m inp key p1" by blast
  obtain p2 where p2: "find_match inp key (old_positions mp) = Inr p2" "p2 = 0 \<or> found n m inp key p2"
    using find_match_found [OF pos(1) k] by blast
  obtain p3 where p3: "find_match inp key (new_positions inp mp) = Inr p3" "p3 = 0 \<or> found n m inp key p3"
    using find_match_found [OF pos(2) k] by blast
  from p1 p2 p3 show ?thesis by (auto simp: match_position_def sizes k)
qed

lemma add_hashes_in:
  assumes "\<forall>j \<in> set js. j + n \<le> length inp"
  shows "\<exists>km'. add_hashes inp n sz js km = Inr km'"
  using assms
proof (induction js arbitrary: km)
  case (Cons j js)
  obtain h where "ngram_map_hash inp j n 0 = Inr h" using ngram_map_hash_in [of j n inp 0] Cons.prems by auto
  with Cons show ?case by (simp add: Let_def)
qed simp

lemma update_key_map_in:
  assumes ok: "ng_ok n m mp" and len: "n + m + 1 \<le> length inp" "ng_size_last_begin mp \<le> length inp"
  shows "\<exists>km x. update_key_map inp mp = Inr (mp\<lparr>ng_key_map := km, ng_key_map_last_idx := x\<rparr>)"
proof (cases "ng_key_map_size mp = 0")
  case True
  then have "update_key_map inp mp = Inr (mp\<lparr>ng_key_map := ng_key_map mp, ng_key_map_last_idx := ng_key_map_last_idx mp\<rparr>)"
    by (simp add: update_key_map_def)
  then show ?thesis by blast
next
  case False
  have "\<forall>j \<in> set (old_positions mp @ new_positions inp mp). j + n \<le> length inp"
    using positions_in_range [OF assms] by auto
  from add_hashes_in [OF this] obtain km where
    km: "add_hashes inp n (ng_key_map_size mp) (old_positions mp @ new_positions inp mp) (ng_key_map mp) = Inr km" by blast
  have sizes: "unat (ng_size_key mp) = n" "unat (ng_size_value mp) = m" using ok by (simp_all add: ng_ok_def)
  have "update_key_map inp mp = Inr (mp\<lparr>ng_key_map := km,
      ng_key_map_last_idx := max (to_u32 (size_sub (length inp) (n + m + 1))) (ng_key_map_last_idx mp)\<rparr>)"
    using False km by (simp add: update_key_map_def sizes Let_def del: add_hashes.simps)
  then show ?thesis by blast
qed

lemma update_key_map_keys:
  assumes "update_key_map inp (mp\<lparr>ng_keys := ks\<rparr>) = Inr (mp\<lparr>ng_keys := ks, ng_key_map := km, ng_key_map_last_idx := x\<rparr>)"
  shows "\<exists>km x. update_key_map inp mp = Inr (mp\<lparr>ng_key_map := km, ng_key_map_last_idx := x\<rparr>)"
proof (cases "ng_key_map_size mp = 0")
  case True
  then have "update_key_map inp mp = Inr (mp\<lparr>ng_key_map := ng_key_map mp, ng_key_map_last_idx := ng_key_map_last_idx mp\<rparr>)"
    by (simp add: update_key_map_def)
  then show ?thesis by blast
next
  case False
  have "old_positions (mp\<lparr>ng_keys := ks\<rparr>) = old_positions mp" "new_positions inp (mp\<lparr>ng_keys := ks\<rparr>) = new_positions inp mp"
    by (simp_all add: old_positions_def new_positions_def)
  with assms False show ?thesis
    by (cases "add_hashes inp (unat (ng_size_key mp)) (ng_key_map_size mp) (old_positions mp @ new_positions inp mp) (ng_key_map mp)")
      (auto simp: update_key_map_def Let_def)
qed

lemma find_key_in:
  assumes "\<forall>k \<in> set ks. mk_key_idx k + length pat \<le> length inp"
  shows "\<exists>j. find_key inp pat ks i = Inr j \<and> i \<le> j \<and> j \<le> i + length ks"
  using assms by (induction ks arbitrary: i) (force simp: ngram_match_in)+

subsection \<open>Statistics\<close>

lemma value_slot_in:
  assumes "pos + unat m < L" "L \<le> length inp" "0 < pos" "\<forall>v \<in> set slots. v < 4"
    and "length vs = 4" "\<forall>v \<in> set vs. value_ok (unat m) L v"
  shows "\<exists>vs' slot. value_slot inp m pos vs slots = Inr (vs', slot) \<and> length vs' = 4 \<and> (\<forall>v \<in> set vs'. value_ok (unat m) L v)
     \<and> (\<forall>v. slot = Some v \<longrightarrow> v < 4)"
  using assms(4)
proof (induction slots)
  case (Cons v slots)
  show ?case
  proof (cases "mv_value_idx (vs ! v) = 0")
    case True
    with Cons.prems assms show ?thesis
      by (auto simp: value_ok_def dest!: subsetD [OF set_update_subset_insert])
  next
    case False
    have "vs ! v \<in> set vs" using Cons.prems assms by simp
    with False assms have "mv_value_idx (vs ! v) + unat m < L" by (auto simp: value_ok_def)
    with assms have "mgram_match inp pos (mv_value_idx (vs ! v)) (unat m) =
        Inr (take (unat m) (drop pos inp) = take (unat m) (drop (mv_value_idx (vs ! v)) inp))"
      by (intro mgram_match_in) simp_all
    with False Cons assms show ?thesis by auto
  qed
qed (use assms in simp)

lemma collect_values_in:
  assumes "L \<le> length inp" "0 < length pat"
  shows "\<forall>i \<in> set js. i + length pat + unat m < L \<Longrightarrow> length vs = 4 \<Longrightarrow> \<forall>v \<in> set vs. value_ok (unat m) L v
    \<Longrightarrow> \<exists>vs'. collect_values inp m pat js vs = Inr vs' \<and> length vs' = 4 \<and> (\<forall>v \<in> set vs'. value_ok (unat m) L v)"
proof (induction js arbitrary: vs)
  case (Cons i js)
  have m: "ngram_match inp i pat = Inr (take (length pat) (drop i inp) = pat)"
    using Cons.prems(1) assms by (intro ngram_match_in) simp
  have "i + length pat + unat m < L" using Cons.prems(1) by simp
  then obtain vs1 slot where v: "value_slot inp m (i + length pat) vs [0, 1, 2, 3] = Inr (vs1, slot)" "length vs1 = 4"
      "\<forall>v \<in> set vs1. value_ok (unat m) L v" "\<forall>v. slot = Some v \<longrightarrow> v < 4"
    using value_slot_in [of "i + length pat" m L inp "[0, 1, 2, 3]" vs] assms Cons.prems by auto
  have "\<forall>w \<in> set (vs1[v := (vs1 ! v)\<lparr>mv_value_num := x\<rparr>]). value_ok (unat m) L w" if "v < 4" for v x
  proof
    fix w assume "w \<in> set (vs1[v := (vs1 ! v)\<lparr>mv_value_num := x\<rparr>])"
    then have "w = (vs1 ! v)\<lparr>mv_value_num := x\<rparr> \<or> w \<in> set vs1" by (auto dest!: subsetD [OF set_update_subset_insert])
    moreover have "vs1 ! v \<in> set vs1" using that v(2) by simp
    ultimately show "value_ok (unat m) L w" using v(3) by (auto simp: value_ok_def)
  qed
  with Cons.IH Cons.prems v m show ?case by (auto split: option.splits)
qed simp

lemma print_values_in:
  assumes "L \<le> length inp" "length vs = 4" "\<forall>v \<in> set vs. value_ok (unat m) L v"
  shows "\<forall>v \<in> set slots. v < 4 \<Longrightarrow> print_values inp m vs slots = Inr ()"
proof (induction slots)
  case (Cons v slots)
  then have "value_ok (unat m) L (vs ! v)" using assms(2,3) by simp
  with Cons assms(1) show ?case by (auto simp: value_ok_def copy_tokens_in)
qed simp

lemma slot_of_max_range: "\<forall>v \<in> set slots. v < 4 \<Longrightarrow> slot < 4 \<Longrightarrow> snd (slot_of_max vs slots x slot) < 4"
  by (induction slots arbitrary: x slot) auto

subsection \<open>Drafts\<close>

text \<open>What a draft is: nothing, or tokens that followed an earlier occurrence of the key, no more than an m-gram.\<close>

definition follows_key :: "nat \<Rightarrow> nat \<Rightarrow> int list \<Rightarrow> int list \<Rightarrow> int list \<Rightarrow> bool" where
  "follows_key n m inp key draft \<longleftrightarrow> draft = [] \<or> (\<exists>p k. found n m inp key p \<and> k \<le> m \<and> draft = take k (drop (p + n) inp))"

text \<open>The fields a draft leaves alone, and the link to the key it used.\<close>

definition same_sizes :: "common_ngram_map \<Rightarrow> common_ngram_map \<Rightarrow> bool" where
  "same_sizes mp mp' \<longleftrightarrow> ng_idx_last_check mp' = ng_idx_last_check mp \<and> ng_size_last_begin mp' = ng_size_last_begin mp"

definition link_ok :: "common_ngram_map \<Rightarrow> bool" where
  "link_ok mp \<longleftrightarrow> (ng_last_draft_created mp \<longrightarrow> ng_last_draft_key_idx mp < length (ng_keys mp))"

lemma ng_ok_sizes:
  assumes "ng_ok n m mp"
  shows "unat (ng_size_key mp) = n" "unat (ng_size_value mp) = m"
  using assms by (simp_all add: ng_ok_def)

lemma emit_draft_in:
  assumes ok: "ng_ok n m mp" and f: "found n m inp key p" and k: "key_offset < length (ng_keys mp)"
  shows "\<exists>draft mp'. emit_draft inp p key_offset slot mp = Inr (draft, mp') \<and> ng_ok n m mp' \<and> same_sizes mp mp'
     \<and> link_ok mp' \<and> follows_key n m inp key draft"
proof -
  define k where "k = nat (min (int m) (sint (mv_n_accepted (mk_values (ng_keys mp ! key_offset) ! slot))))"
  have "k \<le> m" by (simp add: k_def nat_le_iff)
  moreover from this f have "copy_tokens inp (p + n) k = Inr (take k (drop (p + n) inp))"
    by (intro copy_tokens_in) (simp add: found_def)
  ultimately show ?thesis using ok f \<open>key_offset < length (ng_keys mp)\<close>
    by (auto simp: emit_draft_def ng_ok_sizes [OF ok] Let_def k_def [symmetric] same_sizes_def link_ok_def follows_key_def)
       (simp add: ng_ok_def)
qed

lemma ng_ok_update_key:
  assumes ok: "ng_ok n m mp" and k: "key_ok n m (ng_idx_last_check mp) (ng_key_only mp) key"
  shows "ng_ok n m (mp\<lparr>ng_keys := (ng_keys mp)[i := key]\<rparr>)"
  using assms by (auto simp: ng_ok_def dest!: subsetD [OF set_update_subset_insert])

lemma draft_from_key_in:
  assumes ok: "ng_ok n m mp" and L: "ng_idx_last_check mp = length inp" and f: "found n m inp key p" and n: "length key = n"
    and k: "key_offset < length (ng_keys mp)"  and link: "link_ok mp"
  shows "\<exists>draft mp'. draft_from_key inp key p key_offset mp = Inr (draft, mp') \<and> ng_ok n m mp' \<and> same_sizes mp mp'
     \<and> link_ok mp' \<and> follows_key n m inp key draft"
proof -
  let ?key = "(ng_keys mp ! key_offset)\<lparr>mk_key_num := bump (mk_key_num (ng_keys mp ! key_offset))\<rparr>"
  let ?mp = "mp\<lparr>ng_keys := (ng_keys mp)[key_offset := ?key]\<rparr>"
  have "ng_keys mp ! key_offset \<in> set (ng_keys mp)" using k by simp
  then have ko: "key_ok n m (length inp) (ng_key_only mp) ?key" using ok L by (auto simp: ng_ok_def key_ok_def)
  have ok1: "ng_ok n m ?mp" using ng_ok_update_key [OF ok] ko L by simp
  have link1: "link_ok ?mp" using link by (simp add: link_ok_def)
  have same1: "same_sizes mp ?mp" by (simp add: same_sizes_def)
  have k1: "key_offset < length (ng_keys ?mp)" using k by simp
  consider (only) "ng_key_only mp" | (few) "\<not> ng_key_only mp" "mk_key_num ?key < unat (ng_min_hits mp)"
    | (stats) "\<not> ng_key_only mp" "\<not> mk_key_num ?key < unat (ng_min_hits mp)" by blast
  then show ?thesis
  proof cases
    case only
    then have "draft_from_key inp key p key_offset mp = emit_draft inp p key_offset 0 ?mp"
      by (simp add: draft_from_key_def Let_def)
    with emit_draft_in [OF ok1 f k1, of 0] show ?thesis by (simp add: same_sizes_def)
  next
    case few
    then have "draft_from_key inp key p key_offset mp = Inr ([], ?mp)" by (simp add: draft_from_key_def Let_def)
    with ok1 link1 same1 show ?thesis by (simp add: follows_key_def)
  next
    case stats
    have sz: "unat (ng_size_value mp) = m" by (rule ng_ok_sizes [OF ok])
    have r: "\<forall>i \<in> set [mk_stat_idx ?key..<Suc p]. i + length key + unat (ng_size_value mp) < length inp"
      using f by (auto simp: found_def n sz)
    have v: "length (mk_values ?key) = 4" "\<forall>v \<in> set (mk_values ?key). value_ok (unat (ng_size_value mp)) (length inp) v"
      using ko by (simp_all add: key_ok_def sz)
    have "0 < length key" using ok n by (simp add: ng_ok_def)
    from collect_values_in [OF order_refl this r v] obtain vs where
      c: "collect_values inp (ng_size_value mp) key [mk_stat_idx ?key..<Suc p] (mk_values ?key) = Inr vs" and
      vs: "length vs = 4" "\<forall>v \<in> set vs. value_ok m (length inp) v" by (auto simp: sz)
    let ?key2 = "?key\<lparr>mk_values := vs, mk_stat_idx := p\<rparr>"
    let ?mp2 = "mp\<lparr>ng_keys := (ng_keys mp)[key_offset := ?key2]\<rparr>"
    have "key_ok n m (length inp) (ng_key_only mp) ?key2" using ko vs stats(1) by (simp add: key_ok_def)
    then have ok2: "ng_ok n m ?mp2" using ng_ok_update_key [OF ok] L by simp
    have link2: "link_ok ?mp2" and same2: "same_sizes mp ?mp2" using link by (simp_all add: link_ok_def same_sizes_def)
    have k2: "key_offset < length (ng_keys ?mp2)" using k by simp
    obtain mx slot where s: "slot_of_max vs [0, 1, 2, 3] 0 0 = (mx, slot)" by fastforce
    have pr: "print_values inp (ng_size_value mp) vs [0, 1, 2, 3] = Inr ()"
      using print_values_in [OF order_refl vs(1), of "ng_size_value mp" inp "[0, 1, 2, 3]"] vs(2) by (simp add: sz)
    have eq: "draft_from_key inp key p key_offset mp =
       (if other_occurrences vs slot > 0 \<and> mx < 2 * other_occurrences vs slot then Inr ([], ?mp2)
        else emit_draft inp p key_offset slot ?mp2)"
      using stats c s pr by (simp add: draft_from_key_def Let_def sz del: upt_Suc print_values.simps)
    show ?thesis
    proof (cases "other_occurrences vs slot > 0 \<and> mx < 2 * other_occurrences vs slot")
      case True
      with eq ok2 link2 same2 show ?thesis by (auto simp: follows_key_def)
    next
      case False
      with eq have "draft_from_key inp key p key_offset mp = emit_draft inp p key_offset slot ?mp2" by simp
      with emit_draft_in [OF ok2 f k2, of slot] show ?thesis by (simp add: same_sizes_def)
    qed
  qed
qed

lemma ngram_map_draft_in:
  assumes ok: "ng_ok n m mp" and L: "ng_idx_last_check mp \<le> length inp" "length inp < 4294967295"
  shows "\<exists>draft mp'. ngram_map_draft inp t mp = Inr (draft, mp') \<and> ng_ok n m mp' \<and> link_ok mp'
     \<and> ng_idx_last_check mp' = (if length inp < 2 * n + m then ng_idx_last_check mp else length inp)
     \<and> ng_size_last_begin mp' = ng_size_last_begin mp \<and> follows_key n m inp (key_of n inp t) draft"
proof (cases "length inp < 2 * n + m")
  case True
  with ok show ?thesis
    by (auto simp: ngram_map_draft_def ng_ok_sizes [OF ok] Let_def follows_key_def link_ok_def) (simp add: ng_ok_def)
next
  case False
  have n: "0 < n" using ok by (simp add: ng_ok_def)
  let ?key = "key_of n inp t"
  let ?mp = "mp\<lparr>ng_last_draft_created := False, ng_last_draft_key_idx := 0, ng_last_draft_value_idx := 0, ng_idx_last_check := length inp\<rparr>"
  have key: "length ?key = n" using n False by simp
  have ok0: "ng_ok n m ?mp" using ok L(1) by (auto simp: ng_ok_def intro: key_ok_mono)
  have len: "n + m + 1 \<le> length inp" "ng_size_last_begin ?mp \<le> length inp" using False n ok L(1) by (auto simp: ng_ok_def)
  obtain p where p: "match_position inp ?key ?mp = Inr p" "p = 0 \<or> found n m inp ?key p"
    using match_position_found [OF ok0 len key] by blast
  obtain km x where u: "update_key_map inp ?mp = Inr (?mp\<lparr>ng_key_map := km, ng_key_map_last_idx := x\<rparr>)"
    using update_key_map_in [OF ok0 len] by blast
  let ?mp1 = "?mp\<lparr>ng_key_map := km, ng_key_map_last_idx := x\<rparr>"
  have ok1: "ng_ok n m ?mp1" using ok0 by (simp add: ng_ok_def)
  have link1: "link_ok ?mp1" by (simp add: link_ok_def)
  have eq: "ngram_map_draft inp t mp = (if p = 0 then Inr ([], ?mp1) else
      ebind (find_key inp ?key (ng_keys mp) 0) (\<lambda>key_offset.
        draft_from_key inp ?key p key_offset (if key_offset = length (ng_keys mp)
          then ?mp1\<lparr>ng_keys := ng_keys mp @ [new_key p (ng_size_value mp)]\<rparr> else ?mp1)))"
    using False L(2) p(1) u by (simp add: ngram_map_draft_def ng_ok_sizes [OF ok] Let_def key cong: if_cong)
  show ?thesis
  proof (cases "p = 0")
    case True
    with eq ok1 link1 False show ?thesis by (auto simp: follows_key_def)
  next
    case p0: False
    with p(2) have f: "found n m inp ?key p" by simp
    have "\<forall>k \<in> set (ng_keys mp). mk_key_idx k + length ?key \<le> length inp"
      using ok0 by (auto simp: ng_ok_def key_ok_def key)
    from find_key_in [OF this, of 0] obtain j where j: "find_key inp ?key (ng_keys mp) 0 = Inr j" "j \<le> length (ng_keys mp)"
      by auto
    let ?mp2 = "if j = length (ng_keys mp) then ?mp1\<lparr>ng_keys := ng_keys mp @ [new_key p (ng_size_value mp)]\<rparr> else ?mp1"
    have "ng_ok n m ?mp2"
      using ok1 f by (auto simp: ng_ok_def key_ok_def new_key_def found_def value_ok_def)
    moreover have "j < length (ng_keys ?mp2)" using j by auto
    moreover have "link_ok ?mp2" "ng_idx_last_check ?mp2 = length inp" by (simp_all add: link_ok_def)
    ultimately obtain draft mp' where d: "draft_from_key inp ?key p j ?mp2 = Inr (draft, mp')" "ng_ok n m mp'"
        "same_sizes ?mp2 mp'" "link_ok mp'" "follows_key n m inp ?key draft"
      using draft_from_key_in [of n m ?mp2 inp ?key p j] f key by blast
    have "ngram_map_draft inp t mp = Inr (draft, mp')" using eq p0 j(1) d(1) by simp
    with d False show ?thesis by (auto simp: same_sizes_def)
  qed
qed

lemma ngram_map_accept_in:
  assumes ok: "ng_ok n m mp" and link: "link_ok mp"
  shows "\<exists>mp'. ngram_map_accept a mp = Inr mp' \<and> ng_ok n m mp' \<and> same_sizes mp mp'"
proof (cases "ng_last_draft_created mp")
  case True
  let ?k = "ng_last_draft_key_idx mp" and ?v = "ng_last_draft_value_idx mp"
  let ?key = "ng_keys mp ! ?k"
  let ?vs = "(mk_values ?key)[?v := (mk_values ?key ! ?v)\<lparr>mv_n_accepted := a\<rparr>]"
  have k: "?k < length (ng_keys mp)" using True link by (simp add: link_ok_def)
  then have ko: "key_ok n m (ng_idx_last_check mp) (ng_key_only mp) ?key" using ok by (simp add: ng_ok_def)
  have "value_ok m (ng_idx_last_check mp) w \<and> (ng_key_only mp \<longrightarrow> mv_value_idx w = 0)" if "w \<in> set ?vs" for w
  proof (cases "?v < length (mk_values ?key)")
    case True
    then have old: "mk_values ?key ! ?v \<in> set (mk_values ?key)" by simp
    have "w = (mk_values ?key ! ?v)\<lparr>mv_n_accepted := a\<rparr> \<or> w \<in> set (mk_values ?key)"
      using subsetD [OF set_update_subset_insert that] by simp
    with ko old show ?thesis by (auto simp: key_ok_def value_ok_def)
  next
    case False
    then have "w \<in> set (mk_values ?key)" using that by (simp add: list_update_beyond)
    with ko show ?thesis by (simp add: key_ok_def)
  qed
  with ko have "key_ok n m (ng_idx_last_check mp) (ng_key_only mp) (?key\<lparr>mk_values := ?vs\<rparr>)" by (simp add: key_ok_def)
  from ng_ok_update_key [OF ok this] True k show ?thesis
    by (auto simp: ngram_map_accept_def Let_def same_sizes_def)
qed (use ok in \<open>auto simp: ngram_map_accept_def same_sizes_def\<close>)

section \<open>Runs\<close>

text \<open>A speculator is told when a generation begins; then each round drafts and may accept some tokens of the draft.\<close>

datatype ngram_op = Ng_Begin "int list" | Ng_Round "int list" int "u16 option"

fun ngram_run :: "ngram_op list \<Rightarrow> common_ngram_map \<Rightarrow> int list list throws" where
  "ngram_run [] mp = Inr []"
| "ngram_run (Ng_Begin tokens # ops) mp = ngram_run ops (ngram_map_begin tokens mp)"
| "ngram_run (Ng_Round inp t accepted # ops) mp =
     ebind (ngram_map_draft inp t mp) (\<lambda>(draft, mp).
     ebind (case accepted of None \<Rightarrow> Inr mp | Some a \<Rightarrow> ngram_map_accept a mp) (\<lambda>mp.
     ebind (ngram_run ops mp) (\<lambda>drafts. Inr (draft # drafts))))"

text \<open>
  The histories the map is made for, by their lengths: within a generation the history does not get
  shorter, and a new generation begins with a history that is as long as the last one seen, or at
  least a key and a value longer than the one the previous generation began with.
\<close>

fun steady :: "nat \<Rightarrow> nat \<Rightarrow> nat \<Rightarrow> nat \<Rightarrow> ngram_op list \<Rightarrow> bool" where
  "steady n m check begin_at [] = True"
| "steady n m check begin_at (Ng_Begin tokens # ops) =
     ((check \<le> length tokens \<or> begin_at + n + m \<le> length tokens) \<and> steady n m (length tokens) (length tokens) ops)"
| "steady n m check begin_at (Ng_Round inp t accepted # ops) =
     (check \<le> length inp \<and> length inp < 4294967295 \<and>
      steady n m (if length inp < 2 * n + m then check else length inp) begin_at ops)"

fun rounds :: "ngram_op list \<Rightarrow> (int list \<times> int) list" where
  "rounds [] = []"
| "rounds (Ng_Begin tokens # ops) = rounds ops"
| "rounds (Ng_Round inp t accepted # ops) = (inp, t) # rounds ops"

lemma ngram_run_steady:
  "ng_ok n m mp \<Longrightarrow> steady n m (ng_idx_last_check mp) (ng_size_last_begin mp) ops \<Longrightarrow>
     \<exists>drafts. ngram_run ops mp = Inr drafts \<and> list_all2 (\<lambda>(inp, t) draft. follows_key n m inp (key_of n inp t) draft) (rounds ops) drafts"
proof (induction ops arbitrary: mp)
  case (Cons op ops)
  show ?case
  proof (cases op)
    case (Ng_Begin tokens)
    with Cons.prems(2) have "ng_idx_last_check mp \<le> length tokens \<or> ng_size_last_begin mp + n + m \<le> length tokens"
      and st: "steady n m (length tokens) (length tokens) ops" by simp_all
    note b = ngram_map_begin_ok [OF Cons.prems(1) this(1)]
    from Cons.IH [OF b(1)] st b(2,3) Ng_Begin show ?thesis by simp
  next
    case (Ng_Round inp t accepted)
    with Cons.prems(2) have len: "ng_idx_last_check mp \<le> length inp" "length inp < 4294967295"
      and st: "steady n m (if length inp < 2 * n + m then ng_idx_last_check mp else length inp) (ng_size_last_begin mp) ops"
      by simp_all
    obtain draft mp1 where d: "ngram_map_draft inp t mp = Inr (draft, mp1)" "ng_ok n m mp1" "link_ok mp1"
        "ng_idx_last_check mp1 = (if length inp < 2 * n + m then ng_idx_last_check mp else length inp)"
        "ng_size_last_begin mp1 = ng_size_last_begin mp" "follows_key n m inp (key_of n inp t) draft"
      using ngram_map_draft_in [OF Cons.prems(1) len] by blast
    obtain mp2 where a: "(case accepted of None \<Rightarrow> Inr mp1 | Some a \<Rightarrow> ngram_map_accept a mp1) = Inr mp2" "ng_ok n m mp2" "same_sizes mp1 mp2"
      using ngram_map_accept_in [OF d(2,3)] d(2) by (cases accepted) (auto simp: same_sizes_def)
    have "steady n m (ng_idx_last_check mp2) (ng_size_last_begin mp2) ops" using st d(4,5) a(3) by (simp add: same_sizes_def)
    from Cons.IH [OF a(2) this] Ng_Round d(1,6) a(1) show ?thesis by auto
  qed
qed simp

text \<open>
  C14. The histories are \<open>steady\<close>: within a generation each is at least as long as the last one
  seen; a new generation is that long too, or at least a key and a value longer than the previous
  generation was when it began. Then the n-gram map never reads outside the history, not even for
  the log, and never fails, and each of its drafts is a piece of the history of at most an m-gram
  that followed an earlier occurrence of the key.
\<close>

theorem ngram_map_safe:
  assumes "0 < unat n" "steady (unat n) (unat m) 0 0 ops"
  shows "\<exists>drafts. ngram_run ops (ngram_map_new n m only hits) = Inr drafts
     \<and> list_all2 (\<lambda>(inp, t) draft. follows_key (unat n) (unat m) inp (key_of (unat n) inp t) draft) (rounds ops) drafts"
proof -
  have "ng_ok (unat n) (unat m) (ngram_map_new n m only hits)" using assms(1) by (simp add: ng_ok_def ngram_map_new_def)
  moreover have "steady (unat n) (unat m) (ng_idx_last_check (ngram_map_new n m only hits))
      (ng_size_last_begin (ngram_map_new n m only hits)) ops" using assms(2) by (simp add: ngram_map_new_def)
  ultimately show ?thesis by (rule ngram_run_steady)
qed

text \<open>Evaluation by rewriting.\<close>

lemma to_u32_small: "x < 4294967296 \<Longrightarrow> to_u32 x = x"
  by (simp add: to_u32_def)

lemmas ngram_exec = ngram_map_new_def ngram_map_begin_def ngram_map_draft_def ngram_map_accept_def match_position_def
  hashed_position_def update_key_map_def draft_from_key_def emit_draft_def old_positions_def new_positions_def
  down_to_def key_of_def copy_tokens_def size_sub_def to_u32_small new_key_def bump_def token_at_def other_occurrences_def
  refresh_key_def List.map_filter_def upt_rec Let_def

definition sample_rounds :: "ngram_op list" where
  "sample_rounds = [Ng_Begin [9, 1, 2, 3, 4, 5], Ng_Round [9, 1, 2, 3, 4, 5, 8] 2 (Some 1),
     Ng_Round [9, 1, 2, 3, 4, 5, 8, 2, 3] 1 None, Ng_Begin [9, 1, 2, 3, 4, 5, 8, 2, 3]]"

theorem ngram_map_safe_witness:
  "ngram_run sample_rounds (ngram_map_new 1 1 True 1) = Inr [[3], [2]]
   \<and> list_all2 (\<lambda>(inp, t) draft. follows_key 1 1 inp (key_of 1 inp t) draft) (rounds sample_rounds) [[3], [2]]"
proof -
  have "ngram_run sample_rounds (ngram_map_new 1 1 True 1) = Inr [[3], [2]]"
    by (simp add: sample_rounds_def ngram_exec)
  moreover have "steady (unat (1 :: u16)) (unat (1 :: u16)) 0 0 sample_rounds" by (simp add: sample_rounds_def)
  from ngram_map_safe [OF _ this, of True 1] have "\<exists>drafts. ngram_run sample_rounds (ngram_map_new 1 1 True 1) = Inr drafts
     \<and> list_all2 (\<lambda>(inp, t) draft. follows_key 1 1 inp (key_of 1 inp t) draft) (rounds sample_rounds) drafts" by simp
  ultimately show ?thesis by auto
qed

text \<open>
  C27. The cut at the start of a generation removes the keys that start at or after the previous
  one, not those behind the end of the new history. Whatever the map: when it works with keys only,
  a new generation begins with a shorter history and the first key lies below the previous start,
  the key stays; and as soon as a draft finds its pattern in a history that ends before that key,
  the comparison with the key reads outside the history.
\<close>

theorem ngram_map_stale_key:
  assumes "ng_key_only mp" and "0 < unat (ng_size_key mp)" and "length tokens < ng_idx_last_check mp"
    and "ng_keys mp = key # keys" and "mk_key_idx key < ng_size_last_begin mp"
    and "length tokens \<le> length inp" and "length inp \<le> mk_key_idx key" and "length inp < 4294967295"
    and "2 * unat (ng_size_key mp) + unat (ng_size_value mp) \<le> length inp"
    and "match_position inp (key_of (unat (ng_size_key mp)) inp t)
       ((ngram_map_begin tokens mp)\<lparr>ng_last_draft_created := False, ng_last_draft_key_idx := 0, ng_last_draft_value_idx := 0,
          ng_idx_last_check := length inp\<rparr>) = Inr p" and "0 < p"
  shows "ngram_run (Ng_Begin tokens # Ng_Round inp t accepted # ops) mp = Inl ''out of range''"
proof -
  let ?n = "unat (ng_size_key mp)" and ?m = "unat (ng_size_value mp)" and ?b = "ngram_map_begin tokens mp"
  let ?mp = "?b\<lparr>ng_last_draft_created := False, ng_last_draft_key_idx := 0, ng_last_draft_value_idx := 0,
          ng_idx_last_check := length inp\<rparr>"
  let ?empty = "?mp\<lparr>ng_keys := []\<rparr>"
  have sizes: "ng_size_key ?b = ng_size_key mp" "ng_size_value ?b = ng_size_value mp" "ng_size_last_begin ?b = length tokens"
    by (simp_all add: ngram_map_begin_def Let_def)
  obtain ks where kept: "ng_keys ?b = key # ks"
    using assms(1,3-5) by (simp add: ngram_map_begin_def Let_def refresh_key_def map_filter_simps)
  have "ng_ok ?n ?m ?empty" using assms(2,6) by (simp add: ng_ok_def sizes)
  moreover have len: "?n + ?m + 1 \<le> length inp" "ng_size_last_begin ?empty \<le> length inp" using assms(2,6,9) by (simp_all add: sizes)
  ultimately obtain km x where "update_key_map inp ?empty = Inr (?empty\<lparr>ng_key_map := km, ng_key_map_last_idx := x\<rparr>)"
    using update_key_map_in by blast
  then have u: "\<exists>km x. update_key_map inp ?mp = Inr (?mp\<lparr>ng_key_map := km, ng_key_map_last_idx := x\<rparr>)"
    by (rule update_key_map_keys)
  have pat: "length (key_of ?n inp t) = ?n" using assms(2,9) by simp
  then obtain y ys where "key_of ?n inp t = y # ys" using assms(2) by (cases "key_of ?n inp t") auto
  then have "find_key inp (key_of ?n inp t) (key # ks) 0 = Inl ''out of range''"
    using assms(7) by (simp add: token_at_def)
  moreover have "take ?n (key_of ?n inp t) = key_of ?n inp t" using pat by simp
  ultimately have "ngram_map_draft inp t ?b = Inl ''out of range''"
    using assms(8-11) u kept sizes by (auto simp: ngram_map_draft_def Let_def simp del: find_key.simps)
  then show ?thesis by simp
qed

definition stale_map :: common_ngram_map where
  "stale_map = snd (projr (ngram_map_draft [9, 1, 2, 3, 4, 5, 6, 7, 8, 8] 5
     (ngram_map_begin [9, 1, 2, 3, 4, 5, 6, 7, 8] (ngram_map_new 1 1 True 1))))"

lemma stale_map_draft:
  "ngram_map_draft [9, 1, 2, 3, 4, 5, 6, 7, 8, 8] 5 (ngram_map_begin [9, 1, 2, 3, 4, 5, 6, 7, 8] (ngram_map_new 1 1 True 1)) =
     Inr ([6], stale_map)"
  by (simp add: stale_map_def ngram_exec)

theorem ngram_map_stale_key_witness:
  "ngram_run [Ng_Begin [9, 1, 2, 3, 4, 5, 6, 7, 8], Ng_Round [9, 1, 2, 3, 4, 5, 6, 7, 8, 8] 5 None,
     Ng_Begin [7, 1, 6, 7], Ng_Round [7, 1, 6, 7, 2] 1 None] (ngram_map_new 1 1 True 1) = Inl ''out of range''"
proof -
  have m: "ng_key_only stale_map" "ng_size_key stale_map = 1" "ng_size_value stale_map = 1" "ng_idx_last_check stale_map = 10"
    "ng_size_last_begin stale_map = 9" "\<exists>key keys. ng_keys stale_map = key # keys \<and> mk_key_idx key = 5"
    by (simp_all add: stale_map_def ngram_exec)
  then obtain key keys where k: "ng_keys stale_map = key # keys" "mk_key_idx key = 5" by blast
  have p: "match_position [7, 1, 6, 7, 2] (key_of (unat (ng_size_key stale_map)) [7, 1, 6, 7, 2] 1)
       ((ngram_map_begin [7, 1, 6, 7] stale_map)\<lparr>ng_last_draft_created := False, ng_last_draft_key_idx := 0,
          ng_last_draft_value_idx := 0, ng_idx_last_check := length [7, 1, 6, 7, 2 :: int]\<rparr>) = Inr 1"
    by (simp add: stale_map_def ngram_exec)
  have s: "0 < unat (ng_size_key stale_map)" "length [7, 1, 6, 7 :: int] < ng_idx_last_check stale_map"
    "mk_key_idx key < ng_size_last_begin stale_map" "length [7, 1, 6, 7 :: int] \<le> length [7, 1, 6, 7, 2 :: int]"
    "length [7, 1, 6, 7, 2 :: int] \<le> mk_key_idx key" "length [7, 1, 6, 7, 2 :: int] < 4294967295"
    "2 * unat (ng_size_key stale_map) + unat (ng_size_value stale_map) \<le> length [7, 1, 6, 7, 2 :: int]" "0 < (1 :: nat)"
    by (simp_all add: m k)
  have "ngram_run [Ng_Begin [7, 1, 6, 7], Ng_Round [7, 1, 6, 7, 2] 1 None] stale_map = Inl ''out of range''"
    by (rule ngram_map_stale_key [OF m(1) s(1,2) k(1) s(3-7) p s(8)])
  with stale_map_draft show ?thesis by simp
qed

text \<open>
  With statistics over the values, the map decides by the most frequent value but drafts the tokens after the
  position of the match: here the key was followed three times by one token and once, last, by the other, and
  the draft is the rare one.
\<close>

definition uneven_history :: "int list" where
  "uneven_history = [9, 1, 2, 1, 2, 1, 2, 1, 3, 5, 5, 5]"

theorem ngram_map_drafts_rare_value:
  "ngram_run [Ng_Begin uneven_history, Ng_Round (uneven_history @ [8]) 1 None] (ngram_map_new 1 1 False 1) = Inr [[3]]
   \<and> length (filter (occurs_at uneven_history [1, 2]) [0..<12]) = 3 \<and> length (filter (occurs_at uneven_history [1, 3]) [0..<12]) = 1"
proof (intro conjI)
  show "ngram_run [Ng_Begin uneven_history, Ng_Round (uneven_history @ [8]) 1 None] (ngram_map_new 1 1 False 1) = Inr [[3]]"
    by (simp add: uneven_history_def ngram_exec)
qed (simp_all add: uneven_history_def occurs_at_def upt_rec)

end
