(* ===== verification/Ngram_Mod_Proofs.thy ===== *)
theory Ngram_Mod_Proofs
  imports Ngram_Mod Ngram_Proofs
begin

text \<open>
  The hashed table only holds what the histories say, so a draft from it is a chain of tokens each of which
  followed some n-gram with the same place in the table; and the threshold of the suffix speculator.
\<close>

section \<open>Table\<close>

definition slot_of :: "common_ngram_mod \<Rightarrow> int list \<Rightarrow> nat" where
  "slot_of md ts = unat (ngram_mod_hash ts 0) mod length (nm_entries md)"

lemma ngram_mod_idx_in:
  "nm_entries md \<noteq> [] \<Longrightarrow> i + nm_n md \<le> length tokens \<Longrightarrow> ngram_mod_idx tokens i md = Inr (slot_of md (take (nm_n md) (drop i tokens)))"
  by (simp add: ngram_mod_idx_def copy_tokens_in slot_of_def)

text \<open>Histories and tables of one size.\<close>

definition same_shape :: "common_ngram_mod \<Rightarrow> common_ngram_mod \<Rightarrow> bool" where
  "same_shape md md' \<longleftrightarrow> nm_n md' = nm_n md \<and> length (nm_entries md') = length (nm_entries md)"

lemma ngram_mod_add_in:
  assumes ok: "table_ok hs md" and i: "i + nm_n md < length tokens" and h: "tokens \<in> hs"
  shows "\<exists>md'. ngram_mod_add tokens i md = Inr md' \<and> table_ok hs md' \<and> same_shape md md'"
proof -
  let ?k = "slot_of md (take (nm_n md) (drop i tokens))"
  have ne: "nm_entries md \<noteq> []" using ok by (simp add: table_ok_def)
  have "seen_at (nm_n md) (length (nm_entries md)) hs ?k (tokens ! (i + nm_n md))"
    using i h by (auto simp: seen_at_def slot_of_def)
  moreover have "?k < length (nm_entries md)" using ne by (simp add: slot_of_def)
  ultimately have "table_ok hs (md\<lparr>nm_used := u, nm_entries := (nm_entries md)[?k := tokens ! (i + nm_n md)]\<rparr>)" for u
    using ok by (auto simp: table_ok_def nth_list_update)
  with i ngram_mod_idx_in [OF ne, of i tokens] show ?thesis
    by (auto simp: ngram_mod_add_def same_shape_def)
qed

lemma add_range_in:
  "table_ok hs md \<Longrightarrow> tokens \<in> hs \<Longrightarrow> \<forall>i \<in> set js. i + nm_n md < length tokens \<Longrightarrow>
     \<exists>md'. add_range tokens js md = Inr md' \<and> table_ok hs md' \<and> same_shape md md'"
proof (induction js arbitrary: md)
  case (Cons i js)
  then obtain md1 where m: "ngram_mod_add tokens i md = Inr md1" "table_ok hs md1" "same_shape md md1"
    using ngram_mod_add_in [of hs md i tokens] by auto
  moreover have "\<forall>i \<in> set js. i + nm_n md1 < length tokens" using Cons.prems(3) m(3) by (simp add: same_shape_def)
  ultimately show ?case using Cons.IH [of md1] Cons.prems(2) by (auto simp: same_shape_def)
qed (simp add: same_shape_def)

text \<open>A chain of drafted tokens after a key.\<close>

definition chained :: "int list set \<Rightarrow> common_ngram_mod \<Rightarrow> int list \<Rightarrow> int list \<Rightarrow> bool" where
  "chained hs md key d \<longleftrightarrow> (\<forall>j < length d. d ! j \<noteq> -1 \<and>
     seen_at (nm_n md) (length (nm_entries md)) hs (slot_of md (take (nm_n md) (drop j (key @ d)))) (d ! j))"

lemma chained_Nil [simp]: "chained hs md key []"
  by (simp add: chained_def)

lemma chained_snoc:
  assumes "chained hs md key d" "length key = nm_n md" "t \<noteq> -1"
    "seen_at (nm_n md) (length (nm_entries md)) hs (slot_of md (take (nm_n md) (drop (length d) (key @ d)))) t"
  shows "chained hs md key (d @ [t])"
proof -
  have "take (nm_n md) (drop j (key @ d @ [t])) = take (nm_n md) (drop j (key @ d))" if "j \<le> length d" for j
    using that assms(2) by simp
  with assms show ?thesis by (auto simp: chained_def less_Suc_eq nth_append)
qed

definition loop_result :: "int list set \<Rightarrow> common_ngram_mod \<Rightarrow> int list \<Rightarrow> int \<Rightarrow> nat \<Rightarrow> int list option \<Rightarrow> bool" where
  "loop_result hs md key n_min mx r \<longleftrightarrow> (\<forall>buf. r = Some buf \<longrightarrow> (\<exists>d. buf = key @ d \<and> chained hs md key d
     \<and> length d \<le> mx \<and> (n_min \<le> int (length d) \<or> length d = mx)))"

lemma mod_loop_in:
  assumes ok: "table_ok hs md" and key: "length key = nm_n md"
  shows "chained hs md key d \<Longrightarrow> length d + k = mx \<Longrightarrow>
    \<exists>r. mod_loop md n_min (length d) k (key @ d) = Inr r \<and> loop_result hs md key n_min mx r"
proof (induction k arbitrary: d)
  case 0
  then show ?case by (auto simp: loop_result_def)
next
  case (Suc k)
  let ?s = "slot_of md (take (nm_n md) (drop (length d) (key @ d)))"
  have ne: "nm_entries md \<noteq> []" using ok by (simp add: table_ok_def)
  then have s: "?s < length (nm_entries md)" by (simp add: slot_of_def)
  have g: "ngram_mod_get (key @ d) (length d) md = Inr (nm_entries md ! ?s)"
    using ngram_mod_idx_in [OF ne, of "length d" "key @ d"] key by (simp add: ngram_mod_get_def)
  show ?case
  proof (cases "nm_entries md ! ?s = -1")
    case True
    with g have "mod_loop md n_min (length d) (Suc k) (key @ d) = Inr (if int (length d) < n_min then None else Some (key @ d))" by simp
    moreover have "loop_result hs md key n_min mx (if int (length d) < n_min then None else Some (key @ d))"
      using Suc.prems by (auto simp: loop_result_def)
    ultimately show ?thesis by blast
  next
    case False
    with ok s have "seen_at (nm_n md) (length (nm_entries md)) hs ?s (nm_entries md ! ?s)" by (simp add: table_ok_def)
    from chained_snoc [OF Suc.prems(1) key False this]
    have "chained hs md key (d @ [nm_entries md ! ?s])" .
    from Suc.IH [OF this] Suc.prems(2) g False show ?thesis by simp
  qed
qed

section \<open>Properties\<close>

text \<open>
  C28. Drafting from the hashed table never fails and keeps the table a record of the histories: the draft is empty, or it has
  between the minimum and the maximum number of tokens, and each of its tokens followed, somewhere in a
  history, an n-gram that has the same place in the table as the one before it in the draft.
\<close>

theorem mod_draft_from_history:
  assumes ok: "table_ok hs (nd_mod s)" and n: "0 < nm_n (nd_mod s)" and mx: "0 \<le> n_max" "n_min \<le> n_max"
  shows "\<exists>draft s'. mod_draft n_max n_min prompt t s = Inr (draft, s') \<and> table_ok (insert prompt hs) (nd_mod s')
     \<and> (draft = [] \<or> n_min \<le> int (length draft) \<and> int (length draft) \<le> n_max)
     \<and> chained (insert prompt hs) (nd_mod s') (key_of (nm_n (nd_mod s)) prompt t) draft
     \<and> nd_n_draft_last s' = length draft"
proof (cases "length prompt < nm_n (nd_mod s)")
  case True
  with table_ok_mono [OF ok, of "insert prompt hs"] show ?thesis by (auto simp: mod_draft_def Let_def)
next
  case False
  let ?n = "nm_n (nd_mod s)" and ?s = "s\<lparr>nd_n_draft_last := 0\<rparr>"
  have ok': "table_ok (insert prompt hs) (nd_mod s)" by (rule table_ok_mono [OF ok]) blast
  have "\<forall>i \<in> set [nd_i_last s..<length prompt - ?n]. i + ?n < length prompt" by auto
  from add_range_in [OF ok' _ this] obtain md where
    md: "add_range prompt [nd_i_last s..<length prompt - ?n] (nd_mod s) = Inr md" "table_ok (insert prompt hs) md" "same_shape (nd_mod s) md" by auto
  let ?s1 = "if nd_i_last s + 32 < length prompt then ?s\<lparr>nd_mod := md, nd_i_last := length prompt - ?n\<rparr> else ?s"
  have ok1: "table_ok (insert prompt hs) (nd_mod ?s1)" and n1: "nm_n (nd_mod ?s1) = ?n" using ok' md by (auto simp: same_shape_def)
  have key: "length (key_of ?n prompt t) = nm_n (nd_mod ?s1)" using n n1 False by simp
  obtain r where r: "mod_loop (nd_mod ?s1) n_min 0 (nat n_max) (key_of ?n prompt t) = Inr r"
    and d: "loop_result (insert prompt hs) (nd_mod ?s1) (key_of ?n prompt t) n_min (nat n_max) r"
    using mod_loop_in [OF ok1 key chained_Nil, of "nat n_max" "nat n_max" n_min]
    by (simp only: list.size append_Nil2 add_0) blast
  have eq: "mod_draft n_max n_min prompt t s = (case r of None \<Rightarrow> Inr ([], ?s1)
      | Some buf \<Rightarrow> Inr (drop ?n buf, ?s1\<lparr>nd_n_draft_last := length (drop ?n buf)\<rparr>))"
    using False md(1) r
    by (cases "nd_i_last s + 32 < length prompt") (simp_all add: mod_draft_def Let_def split: option.splits)
  show ?thesis
  proof (cases r)
    case None
    with eq ok1 show ?thesis by auto
  next
    case (Some buf)
    with d obtain d' where d': "buf = key_of ?n prompt t @ d'" "chained (insert prompt hs) (nd_mod ?s1) (key_of ?n prompt t) d'"
      "length d' \<le> nat n_max" "n_min \<le> int (length d') \<or> length d' = nat n_max"
      unfolding loop_result_def by blast
    have dr: "drop ?n buf = d'" using d'(1) key n1 by simp
    have "mod_draft n_max n_min prompt t s = Inr (d', ?s1\<lparr>nd_n_draft_last := length d'\<rparr>)" using eq Some dr by simp
    moreover have "n_min \<le> int (length d')" "int (length d') \<le> n_max" using d'(3,4) mx by auto
    ultimately show ?thesis using d'(2) ok1 by auto
  qed
qed

lemma mod_loop_numeral: "mod_loop md n_min i (numeral k) buf = ebind (ngram_mod_get buf i md) (\<lambda>t.
     if t = -1 then Inr (if int i < n_min then None else Some buf) else mod_loop md n_min (Suc i) (pred_numeral k) (buf @ [t]))"
  by (simp add: numeral_eq_Suc)

definition sample_mod :: ngram_mod_state where
  "sample_mod = \<lparr>nd_mod = \<lparr>nm_n = 1, nm_used = 2, nm_entries = [5, -1, -1, 5]\<rparr>, nd_i_last = 0, nd_n_draft_last = 0, nd_n_low = 0\<rparr>"

theorem mod_draft_from_history_witness:
  "\<exists>draft s'. mod_draft 2 0 [7, 5] 3 sample_mod = Inr (draft, s') \<and> draft \<noteq> [] \<and> table_ok {[7, 5], [3, 5, 4, 5]} (nd_mod s')
     \<and> chained {[7, 5], [3, 5, 4, 5]} (nd_mod s') [3] draft"
proof -
  have "table_ok {[3, 5, 4, 5]} (nd_mod sample_mod)"
  proof -
    have "seen_at 1 4 {[3, 5, 4, 5]} 0 5" unfolding seen_at_def by (intro bexI [of _ "[3, 5, 4, 5]"] exI [of _ 2]) simp_all
    moreover have "seen_at 1 4 {[3, 5, 4, 5]} 3 5" unfolding seen_at_def by (intro bexI [of _ "[3, 5, 4, 5]"] exI [of _ 0]) simp_all
    ultimately show ?thesis by (auto simp: table_ok_def sample_mod_def numeral_eq_Suc less_Suc_eq)
  qed
  from mod_draft_from_history [OF this, of 2 0 "[7, 5]" 3]
  obtain draft s' where d: "mod_draft 2 0 [7, 5] 3 sample_mod = Inr (draft, s')" "table_ok {[7, 5], [3, 5, 4, 5]} (nd_mod s')"
    "chained {[7, 5], [3, 5, 4, 5]} (nd_mod s') (key_of 1 [7, 5] 3) draft" by (auto simp: sample_mod_def)
  have "draft \<noteq> []" using d(1)
    by (auto simp: mod_draft_def sample_mod_def key_of_def ngram_mod_get_def ngram_mod_idx_def copy_tokens_def Let_def mod_loop_numeral)
  with d show ?thesis by (auto simp: key_of_def)
qed

end
