(* ===== verification/Ngram_Cache.thy ===== *)
theory Ngram_Cache
  imports Ngram_Map "HOL-Library.AList"
begin

text \<open>
  The cache of n-gram statistics (\<open>common/ngram-cache.h\<close> and \<open>.cpp\<close>) and the speculator over it in
  \<open>common/speculative.cpp\<close>. An n-gram is the list of its four tokens, filled up with \<open>-1\<close>; the tables are
  association lists in order of insertion, and the orders in which the \<open>unordered_map\<close>s are walked are parameters.
  Counts are integers: a count of the code is an \<open>int32_t\<close>, assumed below \<open>2^31\<close>, and the products of counts are
  assumed not to overflow. A file is the list of its bytes.
\<close>

section \<open>Tables\<close>

type_synonym common_ngram = "int list"
type_synonym common_ngram_cache_part = "(int \<times> int) list"
type_synonym common_ngram_cache = "(common_ngram \<times> common_ngram_cache_part) list"

definition ngram_of :: "int list \<Rightarrow> common_ngram" where
  "ngram_of ts = ts @ replicate (4 - length ts) (-1)"

definition count_token :: "int \<Rightarrow> common_ngram_cache_part \<Rightarrow> common_ngram_cache_part" where
  "count_token t part = (case map_of part t of
       None \<Rightarrow> part @ [(t, 1)] | Some c \<Rightarrow> AList.update t (c + 1) part)"

definition count_after :: "common_ngram \<Rightarrow> int \<Rightarrow> common_ngram_cache \<Rightarrow> common_ngram_cache" where
  "count_after g t cache = (case map_of cache g of
       None \<Rightarrow> cache @ [(g, [(t, 1)])] | Some part \<Rightarrow> AList.update g (count_token t part) cache)"

text \<open>The places counted for one size, then both loops.\<close>

definition update_size :: "int list \<Rightarrow> nat \<Rightarrow> nat \<Rightarrow> common_ngram_cache \<Rightarrow> common_ngram_cache" where
  "update_size inp nnew sz cache =
     fold (\<lambda>i. count_after (ngram_of (take sz (drop (i - sz) inp))) (inp ! i)) [max (length inp - nnew) sz..<length inp] cache"

definition ngram_cache_update :: "nat \<Rightarrow> nat \<Rightarrow> int list \<Rightarrow> nat \<Rightarrow> common_ngram_cache \<Rightarrow> common_ngram_cache" where
  "ngram_cache_update ngram_min ngram_max inp nnew cache = fold (update_size inp nnew) [ngram_min..<Suc ngram_max] cache"

section \<open>Drafts\<close>

definition draft_min_sample_size_lax :: "int list" where "draft_min_sample_size_lax = [2, 2, 1, 1]"
definition draft_min_percent_lax :: "int list" where "draft_min_percent_lax = [66, 50, 50, 50]"
definition draft_min_sample_size_strict :: "int list" where "draft_min_sample_size_strict = [4, 3, 2, 2]"
definition draft_min_percent_strict :: "int list" where "draft_min_percent_strict = [75, 66, 66, 66]"

text \<open>A token of the input followed by the draft without its first one. A negative place is a huge \<open>size_t\<close>.\<close>

definition get_token :: "int list \<Rightarrow> int list \<Rightarrow> int \<Rightarrow> int throws" where
  "get_token inp draft i =
     (if i < 0 then Inl ''out of range''
      else if nat i < length inp then Inr (inp ! nat i)
      else token_at draft (1 + nat i - length inp))"

definition ngram_at :: "int list \<Rightarrow> int list \<Rightarrow> nat \<Rightarrow> common_ngram throws" where
  "ngram_at inp draft sz = (let start = int (length inp) - int sz + int (length draft) - 1 in
     ebind (emap (get_token inp draft) [start..start + int sz - 1]) (\<lambda>ts. Inr (ngram_of ts)))"

type_synonym part_order = "common_ngram_cache_part \<Rightarrow> common_ngram_cache_part"

fun max_static :: "common_ngram_cache_part \<Rightarrow> int \<times> int \<times> int \<Rightarrow> int \<times> int \<times> int" where
  "max_static [] acc = acc"
| "max_static ((t, c) # part) (mx, sm, tok) =
     max_static part (if c > mx then (c, sm + c, t) else (mx, sm + c, tok))"

definition try_draft_static :: "part_order \<Rightarrow> common_ngram_cache \<Rightarrow> common_ngram \<Rightarrow> int" where
  "try_draft_static order cache g = (case map_of cache g of None \<Rightarrow> -1 | Some part \<Rightarrow>
     (let (mx, sm, tok) = max_static (order part) (0, 0, -1) in
      if sm < draft_min_sample_size_lax ! 1 then -1
      else if 100 * mx < draft_min_percent_lax ! 1 * sm then -1 else tok))"

fun max_primary :: "common_ngram_cache_part \<Rightarrow> common_ngram_cache_part \<Rightarrow> int \<times> int \<times> int \<times> int \<Rightarrow> int \<times> int \<times> int \<times> int" where
  "max_primary static [] acc = acc"
| "max_primary static ((t, c) # part) (mp, ms, sm, tok) =
     (let s = (case map_of static t of Some c' \<Rightarrow> 100 * c' | None \<Rightarrow> 1) in
      max_primary static part (if c * s > mp * ms then (c, s, sm + c, t) else (mp, ms, sm + c, tok)))"

text \<open>The sizes from the largest down, until one drafts.\<close>

fun try_draft :: "part_order \<Rightarrow> common_ngram_cache \<Rightarrow> common_ngram_cache_part \<Rightarrow> int list \<Rightarrow> int list \<Rightarrow> (nat \<times> common_ngram) list \<Rightarrow> int" where
  "try_draft order cache static min_size min_percent [] = -1"
| "try_draft order cache static min_size min_percent ((i, g) # rest) = (case map_of cache g of
       None \<Rightarrow> try_draft order cache static min_size min_percent rest
     | Some part \<Rightarrow> (let (mp, ms, sm, tok) = max_primary static (order part) (0, 0, 0, -1) in
         if sm < min_size ! i \<or> 100 * mp < min_percent ! i * sm \<or> tok = -1
         then try_draft order cache static min_size min_percent rest else tok))"

definition draft_token :: "part_order \<Rightarrow> nat \<Rightarrow> nat \<Rightarrow> common_ngram_cache \<Rightarrow> common_ngram_cache \<Rightarrow> common_ngram_cache \<Rightarrow> int list \<Rightarrow> int list \<Rightarrow> int throws" where
  "draft_token order ngram_min ngram_max ctx dyn static inp draft =
     ebind (ngram_at inp draft 2) (\<lambda>g.
     ebind (emap (ngram_at inp draft) [ngram_min..<Suc ngram_max]) (\<lambda>gs.
       let part = (case map_of static g of None \<Rightarrow> [] | Some part \<Rightarrow> part);
           sized = rev (enumerate 0 gs);
           t = try_draft order ctx part draft_min_sample_size_lax draft_min_percent_lax sized;
           t = (if t = -1 then try_draft order dyn part draft_min_sample_size_strict draft_min_percent_strict sized else t)
       in Inr (if t = -1 then try_draft_static order static g else t)))"

fun cache_draft_loop :: "part_order \<Rightarrow> nat \<Rightarrow> nat \<Rightarrow> common_ngram_cache \<Rightarrow> common_ngram_cache \<Rightarrow> common_ngram_cache \<Rightarrow> int list \<Rightarrow> nat \<Rightarrow> int list \<Rightarrow> int list throws" where
  "cache_draft_loop order ngram_min ngram_max ctx dyn static inp 0 draft = Inr draft"
| "cache_draft_loop order ngram_min ngram_max ctx dyn static inp (Suc k) draft =
     ebind (draft_token order ngram_min ngram_max ctx dyn static inp draft) (\<lambda>t.
       if t = -1 then Inr draft else cache_draft_loop order ngram_min ngram_max ctx dyn static inp k (draft @ [t]))"

definition ngram_cache_draft :: "part_order \<Rightarrow> nat \<Rightarrow> nat \<Rightarrow> common_ngram_cache \<Rightarrow> common_ngram_cache \<Rightarrow> common_ngram_cache \<Rightarrow> int list \<Rightarrow> nat \<Rightarrow> int list \<Rightarrow> int list throws" where
  "ngram_cache_draft order ngram_min ngram_max ctx dyn static inp n_draft draft =
     (if length draft \<noteq> 1 then Inl ''assert''
      else if length inp < 2 then Inr draft
      else cache_draft_loop order ngram_min ngram_max ctx dyn static inp n_draft draft)"

section \<open>Files\<close>

definition le32 :: "int \<Rightarrow> u8 list" where
  "le32 x = (let w = word_of_int x :: u32 in [ucast w, ucast (drop_bit 8 w), ucast (drop_bit 16 w), ucast (drop_bit 24 w)])"

definition of_le32 :: "u8 \<Rightarrow> u8 \<Rightarrow> u8 \<Rightarrow> u8 \<Rightarrow> int" where
  "of_le32 a b c d = sint ((ucast a :: u32) OR push_bit 8 (ucast b) OR push_bit 16 (ucast c) OR push_bit 24 (ucast d))"

text \<open>Reading one number; \<open>None\<close> when fewer bytes are left.\<close>

fun read32 :: "u8 list \<Rightarrow> (int \<times> u8 list) option" where
  "read32 (a # b # c # d # bs) = Some (of_le32 a b c d, bs)"
| "read32 bs = None"

definition save_part :: "common_ngram_cache_part \<Rightarrow> u8 list throws" where
  "save_part part = ebind (emap (\<lambda>(t, c). if c > 0 then Inr (le32 t @ le32 c) else Inl ''assert'') part) (\<lambda>bs. Inr (concat bs))"

definition ngram_cache_save :: "part_order \<Rightarrow> (common_ngram_cache \<Rightarrow> common_ngram_cache) \<Rightarrow> common_ngram_cache \<Rightarrow> u8 list throws" where
  "ngram_cache_save order cache_order cache =
     ebind (emap (\<lambda>(g, part). if part = [] then Inl ''assert'' else
       ebind (save_part (order part)) (\<lambda>bs. Inr (concat (map le32 g) @ le32 (int (length part)) @ bs))) (cache_order cache)) (\<lambda>bs. Inr (concat bs))"

text \<open>\<open>emplace\<close>: an entry that is there already stays.\<close>

definition emplace :: "'k \<Rightarrow> 'v \<Rightarrow> ('k \<times> 'v) list \<Rightarrow> ('k \<times> 'v) list" where
  "emplace k v xs = (if map_of xs k = None then xs @ [(k, v)] else xs)"

fun load_part :: "nat \<Rightarrow> u8 list \<Rightarrow> common_ngram_cache_part \<Rightarrow> (common_ngram_cache_part \<times> u8 list) throws" where
  "load_part 0 bs part = Inr (part, bs)"
| "load_part (Suc n) bs part = (case read32 bs of None \<Rightarrow> Inl ''assert'' | Some (t, bs) \<Rightarrow>
     (case read32 bs of None \<Rightarrow> Inl ''assert'' | Some (c, bs) \<Rightarrow>
        if c > 0 then load_part n bs (emplace t c part) else Inl ''assert''))"

definition read_ngram :: "u8 list \<Rightarrow> (common_ngram \<times> u8 list) option" where
  "read_ngram bs = (case read32 bs of None \<Rightarrow> None | Some (a, bs) \<Rightarrow> (case read32 bs of None \<Rightarrow> None | Some (b, bs) \<Rightarrow>
     (case read32 bs of None \<Rightarrow> None | Some (c, bs) \<Rightarrow> (case read32 bs of None \<Rightarrow> None | Some (d, bs) \<Rightarrow> Some ([a, b, c, d], bs)))))"

lemma read32_length: "read32 bs = Some (x, bs') \<Longrightarrow> length bs = length bs' + 4"
  by (cases bs rule: read32.cases) auto

lemma read_ngram_length: "read_ngram bs = Some (g, bs') \<Longrightarrow> length bs' < length bs"
  by (auto simp: read_ngram_def split: option.splits dest!: read32_length)

lemma load_part_length: "load_part n bs part = Inr (part', bs') \<Longrightarrow> length bs' \<le> length bs"
  by (induction n arbitrary: bs part) (fastforce split: option.splits if_splits dest!: read32_length)+

text \<open>The loop ends when a whole n-gram cannot be read any more; a rest of less than sixteen bytes is ignored.\<close>

function load_ngrams :: "u8 list \<Rightarrow> common_ngram_cache \<Rightarrow> common_ngram_cache throws" where
  "load_ngrams bs cache = (case read_ngram bs of None \<Rightarrow> Inr cache | Some (g, bs1) \<Rightarrow>
     (case read32 bs1 of None \<Rightarrow> Inl ''assert'' | Some (n, bs2) \<Rightarrow>
        if n \<le> 0 then Inl ''assert'' else
        (case load_part (nat n) bs2 [] of Inl e \<Rightarrow> Inl e
         | Inr (part, bs3) \<Rightarrow> load_ngrams bs3 (emplace g part cache))))"
  by pat_completeness auto
termination
  by (relation "measure (\<lambda>(bs, cache). length bs)") (auto dest!: read_ngram_length read32_length load_part_length)

declare load_ngrams.simps [simp del]

definition ngram_cache_load :: "u8 list option \<Rightarrow> common_ngram_cache throws" where
  "ngram_cache_load file = (case file of None \<Rightarrow> Inl ''failure'' | Some bs \<Rightarrow> load_ngrams bs [])"

section \<open>Merging\<close>

fun merge_part :: "common_ngram_cache_part \<Rightarrow> common_ngram_cache_part \<Rightarrow> common_ngram_cache_part throws" where
  "merge_part [] part = Inr part"
| "merge_part ((t, c) # add) part = (if c > 0
     then merge_part add (case map_of part t of None \<Rightarrow> part @ [(t, c)] | Some c' \<Rightarrow> AList.update t (c' + c) part)
     else Inl ''assert'')"

fun merge_ngrams :: "common_ngram_cache \<Rightarrow> common_ngram_cache \<Rightarrow> common_ngram_cache throws" where
  "merge_ngrams [] target = Inr target"
| "merge_ngrams ((g, part) # add) target = (case map_of target g of
       None \<Rightarrow> merge_ngrams add (target @ [(g, part)])
     | Some merged \<Rightarrow> ebind (merge_part part merged) (\<lambda>merged. merge_ngrams add (AList.update g merged target)))"

section \<open>The speculator\<close>

record ngram_cache_state =
  nc_n_draft :: nat
  nc_context :: common_ngram_cache
  nc_dynamic :: common_ngram_cache
  nc_static :: common_ngram_cache
  nc_cache_size :: nat

text \<open>No path, or a path with what the file holds, \<open>None\<close> when it cannot be opened; a file that cannot be read ends the program.\<close>

definition load_path :: "u8 list option option \<Rightarrow> common_ngram_cache throws" where
  "load_path path = (case path of None \<Rightarrow> Inr [] | Some file \<Rightarrow> (case ngram_cache_load file of Inl e \<Rightarrow> Inl ''abort'' | Inr cache \<Rightarrow> Inr cache))"

definition ngram_cache_state_new :: "u8 list option option \<Rightarrow> u8 list option option \<Rightarrow> u16 \<Rightarrow> ngram_cache_state throws" where
  "ngram_cache_state_new path_static path_dynamic n_draft =
     ebind (load_path path_static) (\<lambda>static. ebind (load_path path_dynamic) (\<lambda>dynamic.
       Inr \<lparr>nc_n_draft = unat n_draft, nc_context = [], nc_dynamic = dynamic, nc_static = static, nc_cache_size = 0\<rparr>))"

definition cache_state_draft :: "part_order \<Rightarrow> int list \<Rightarrow> int \<Rightarrow> ngram_cache_state \<Rightarrow> (int list \<times> ngram_cache_state) throws" where
  "cache_state_draft order prompt id_last s =
     (let s = (if nc_cache_size s < length prompt + 1
          then let tokens_new = drop (nc_cache_size s) prompt @ [id_last] in
            s\<lparr>nc_context := ngram_cache_update 1 4 tokens_new (length tokens_new) (nc_context s), nc_cache_size := length prompt + 1\<rparr>
          else s)
      in ebind (ngram_cache_draft order 1 4 (nc_context s) (nc_dynamic s) (nc_static s) (prompt @ [id_last]) (nc_n_draft s) [id_last])
           (\<lambda>draft. Inr (tl draft, s)))"

end
