(* ===== verification/Ngram_Cache_Proofs.thy ===== *)
theory Ngram_Cache_Proofs
  imports Ngram_Cache Suffix_Drafts Ngram_Proofs "HOL-Library.Multiset"
begin

text \<open>
  The n-gram cache counts the history when it is given the history, can be read back from its file, and
  learns nothing the way the speculator feeds it.
\<close>

section \<open>Counts\<close>

definition cache_count :: "common_ngram_cache \<Rightarrow> common_ngram \<Rightarrow> int \<Rightarrow> int" where
  "cache_count cache g t = (case map_of cache g of None \<Rightarrow> 0 | Some part \<Rightarrow> (case map_of part t of None \<Rightarrow> 0 | Some c \<Rightarrow> c))"

lemma map_of_count_token: "map_of (count_token t part) = (map_of part)(t \<mapsto> (case map_of part t of None \<Rightarrow> 1 | Some c \<Rightarrow> c + 1))"
  by (auto simp: count_token_def AList.update_conv' map_of_snoc simp del: map_of_append split: option.splits)

lemma map_of_count_after: "map_of (count_after g t cache) =
    (map_of cache)(g \<mapsto> (case map_of cache g of None \<Rightarrow> [(t, 1)] | Some part \<Rightarrow> count_token t part))"
  by (auto simp: count_after_def AList.update_conv' map_of_snoc simp del: map_of_append split: option.splits)

lemma cache_count_after: "cache_count (count_after g t cache) g' t' = cache_count cache g' t' + of_bool (g' = g \<and> t' = t)"
  by (auto simp: cache_count_def map_of_count_after map_of_count_token split: option.splits)

definition hits :: "int list \<Rightarrow> nat \<Rightarrow> common_ngram \<Rightarrow> int \<Rightarrow> nat \<Rightarrow> bool" where
  "hits inp sz g t i \<longleftrightarrow> ngram_of (take sz (drop (i - sz) inp)) = g \<and> inp ! i = t"

lemma count_fold:
  "cache_count (fold (\<lambda>i. count_after (ngram_of (take sz (drop (i - sz) inp))) (inp ! i)) js cache) g t =
     cache_count cache g t + int (length (filter (hits inp sz g t) js))"
  by (induction js arbitrary: cache) (auto simp: cache_count_after hits_def)

lemma count_update_size:
  "cache_count (update_size inp nnew sz cache) g t =
     cache_count cache g t + int (length (filter (hits inp sz g t) [max (length inp - nnew) sz..<length inp]))"
  by (simp add: update_size_def count_fold)

lemma count_update:
  "cache_count (fold (update_size inp nnew) szs cache) g t = cache_count cache g t
     + (\<Sum>sz\<leftarrow>szs. int (length (filter (hits inp sz g t) [max (length inp - nnew) sz..<length inp])))"
  by (induction szs arbitrary: cache) (simp_all add: count_update_size)

text \<open>N-grams of different sizes are different, as no token of the history is the filler.\<close>

lemma ngram_of_eq_iff:
  assumes "length xs \<le> 4" "length ys \<le> 4" "-1 \<notin> set xs" "-1 \<notin> set ys"
  shows "ngram_of xs = ngram_of ys \<longleftrightarrow> xs = ys"
proof -
  have f: "filter (\<lambda>x. x \<noteq> -1) (ngram_of zs) = zs" if "-1 \<notin> set zs" for zs :: "int list"
    using that by (auto simp: ngram_of_def filter_id_conv)
  show ?thesis using f [OF assms(3)] f [OF assms(4)] by metis
qed

lemma hits_size:
  assumes "-1 \<notin> set inp" "-1 \<notin> set g" "length g \<le> 4" "sz \<le> 4" "sz \<le> i" "i < length inp"
  shows "hits inp sz (ngram_of g) t i \<longleftrightarrow> sz = length g \<and> take sz (drop (i - sz) inp) = g \<and> inp ! i = t"
proof -
  have "-1 \<notin> set (take sz (drop (i - sz) inp))" using assms(1) by (metis in_set_dropD in_set_takeD)
  moreover have "length (take sz (drop (i - sz) inp)) = sz" using assms by simp
  ultimately show ?thesis using assms ngram_of_eq_iff [of "take sz (drop (i - sz) inp)" g] by (auto simp: hits_def)
qed

text \<open>Occurrences by where they end.\<close>

definition ends_at :: "int list \<Rightarrow> int list \<Rightarrow> int \<Rightarrow> nat \<Rightarrow> bool" where
  "ends_at h g t i \<longleftrightarrow> length g \<le> i \<and> take (length g) (drop (i - length g) h) = g \<and> h ! i = t"

lemma prefix_snoc_drop:
  assumes "i + length g < length h"
  shows "prefix (g @ [t]) (drop i h) \<longleftrightarrow> take (length g) (drop i h) = g \<and> h ! (i + length g) = t"
proof -
  have "prefix (g @ [t]) (drop i h) \<longleftrightarrow> take (Suc (length g)) (drop i h) = g @ [t]"
    using assms by (metis length_append_singleton prefix_order.order_refl prefixE prefixI append_eq_conv_conj append_take_drop_id)
  also have "take (Suc (length g)) (drop i h) = take (length g) (drop i h) @ [h ! (i + length g)]"
    using assms by (simp add: take_Suc_conv_app_nth)
  finally show ?thesis using assms by (auto dest: arg_cong [of _ _ length])
qed

lemma occurrences_ends: "occurrences h (g @ [t]) = card {i. i < length h \<and> ends_at h g t i}"
  unfolding occurrences_def
proof (rule bij_betw_same_card [of "\<lambda>i. i + length g"])
  have long: "i + length g < length h" if "prefix (g @ [t]) (drop i h)" for i
    using prefix_length_le [OF that] by simp
  show "bij_betw (\<lambda>i. i + length g) {i. i < length h \<and> prefix (g @ [t]) (drop i h)} {i. i < length h \<and> ends_at h g t i}"
  proof (rule bij_betwI')
    fix j assume "j \<in> {i. i < length h \<and> ends_at h g t i}"
    then have "j = (j - length g) + length g" "j - length g < length h" "prefix (g @ [t]) (drop (j - length g) h)"
      using prefix_snoc_drop [of "j - length g" g h t] by (auto simp: ends_at_def)
    then show "\<exists>i \<in> {i. i < length h \<and> prefix (g @ [t]) (drop i h)}. j = i + length g" by blast
  next
    fix i assume "i \<in> {i. i < length h \<and> prefix (g @ [t]) (drop i h)}"
    then have p: "prefix (g @ [t]) (drop i h)" by simp
    from prefix_snoc_drop [OF long [OF p]] p long [OF p]
    show "i + length g \<in> {i. i < length h \<and> ends_at h g t i}" by (simp add: ends_at_def)
  qed simp
qed

lemma occurrences_append_ends:
  "occurrences (h @ c) (g @ [t]) = occurrences h (g @ [t]) + length (filter (ends_at (h @ c) g t) [length h..<length (h @ c)])"
proof -
  let ?A = "{i. i < length h \<and> ends_at h g t i}" and ?B = "set (filter (ends_at (h @ c) g t) [length h..<length (h @ c)])"
  have "{i. i < length (h @ c) \<and> ends_at (h @ c) g t i} = ?A \<union> ?B" by (auto simp: ends_at_def nth_append)
  moreover have "card (?A \<union> ?B) = card ?A + card ?B" by (rule card_Un_disjoint) auto
  ultimately have "card {i. i < length (h @ c) \<and> ends_at (h @ c) g t i} = card ?A + card ?B" by (simp only:)
  then show ?thesis by (simp only: occurrences_ends distinct_card distinct_filter distinct_upt)
qed

text \<open>Feeding the cache with the whole history each time something is added to it.\<close>

definition feed :: "nat \<Rightarrow> nat \<Rightarrow> int list \<Rightarrow> int list \<times> common_ngram_cache \<Rightarrow> int list \<times> common_ngram_cache" where
  "feed mn mx c = (\<lambda>(h, cache). (h @ c, ngram_cache_update mn mx (h @ c) (length c) cache))"

lemma filter_upt_max: "\<forall>i. P i \<longrightarrow> b \<le> i \<Longrightarrow> filter P [max a b..<n] = filter P [a..<n]" for a b n :: nat
proof (cases "b \<le> a")
  case False
  assume P: "\<forall>i. P i \<longrightarrow> b \<le> i"
  show ?thesis
  proof (cases "b \<le> n")
    case True
    then have "[a..<n] = [a..<b] @ [b..<n]" using False by (metis le_add_diff_inverse nat_le_linear upt_add_eq_append)
    moreover have "filter P [a..<b] = []" using P by (auto simp: filter_empty_conv)
    ultimately show ?thesis using False by (simp add: max_def)
  next
    case n: False
    then have "filter P [a..<n] = []" using P by (auto simp: filter_empty_conv)
    then show ?thesis using n False by (simp add: max_def)
  qed
qed (simp add: max_def)

lemma feed_counts:
  assumes g: "-1 \<notin> set g" "mn \<le> length g" "length g \<le> mx" "mx \<le> 4" and inp: "-1 \<notin> set (h @ c)"
  shows "cache_count (snd (feed mn mx c (h, cache))) (ngram_of g) t =
     cache_count cache (ngram_of g) t + int (length (filter (ends_at (h @ c) g t) [length h..<length (h @ c)]))"
proof -
  let ?inp = "h @ c" and ?js = "\<lambda>sz. [max (length h) sz..<length (h @ c)]"
  have "filter (hits ?inp sz (ngram_of g) t) (?js sz) = (if sz = length g then filter (ends_at ?inp g t) [length h..<length ?inp] else [])"
    if "sz \<le> mx" for sz
  proof -
    have "hits ?inp sz (ngram_of g) t i \<longleftrightarrow> sz = length g \<and> ends_at ?inp g t i" if "i \<in> set (?js sz)" for i
      using hits_size [OF inp g(1)] g that \<open>sz \<le> mx\<close> by (auto simp: ends_at_def)
    then have "filter (hits ?inp sz (ngram_of g) t) (?js sz) = filter (\<lambda>i. sz = length g \<and> ends_at ?inp g t i) (?js sz)"
      by (intro filter_cong) auto
    moreover have "filter (ends_at ?inp g t) (?js (length g)) = filter (ends_at ?inp g t) [length h..<length ?inp]"
      by (rule filter_upt_max) (simp add: ends_at_def)
    ultimately show ?thesis by auto
  qed
  then have "(\<Sum>sz\<leftarrow>[mn..<Suc mx]. int (length (filter (hits ?inp sz (ngram_of g) t) (?js sz)))) =
      (\<Sum>sz\<leftarrow>[mn..<Suc mx]. if sz = length g then int (length (filter (ends_at ?inp g t) [length h..<length ?inp])) else 0)"
    by (intro arg_cong [of _ _ sum_list] map_cong) auto
  also have "\<dots> = int (length (filter (ends_at ?inp g t) [length h..<length ?inp]))"
    using g by (simp add: sum_list_distinct_conv_sum_set del: upt_Suc)
  finally show ?thesis by (simp add: feed_def ngram_cache_update_def count_update del: upt_Suc)
qed

lemma feed_all_counts:
  assumes g: "-1 \<notin> set g" "mn \<le> length g" "length g \<le> mx" "mx \<le> 4"
  shows "-1 \<notin> set (h @ concat chunks) \<Longrightarrow>
     cache_count (snd (fold (feed mn mx) chunks (h, cache))) (ngram_of g) t + int (occurrences h (g @ [t])) =
     cache_count cache (ngram_of g) t + int (occurrences (h @ concat chunks) (g @ [t]))"
proof (induction chunks arbitrary: h cache)
  case (Cons c chunks)
  obtain cache1 where f: "feed mn mx c (h, cache) = (h @ c, cache1)" by (simp add: feed_def)
  have inp: "-1 \<notin> set (h @ c)" using Cons.prems by simp
  from feed_counts [OF g inp, of cache t] f
  have "cache_count cache1 (ngram_of g) t = cache_count cache (ngram_of g) t + int (length (filter (ends_at (h @ c) g t) [length h..<length (h @ c)]))"
    by simp
  with occurrences_append_ends [of h c g t] Cons.IH [of "h @ c" cache1] Cons.prems f show ?case by simp
qed simp

text \<open>C33. The cache counts what it is given. When it is updated after each piece of a history with the whole
  history so far, it holds for every n-gram of its sizes and every token exactly how often that token has
  followed that n-gram, also across the borders of the pieces.\<close>

theorem ngram_cache_counts:
  assumes "mn \<le> length g" "length g \<le> mx" "mx \<le> 4" "-1 \<notin> set g" "-1 \<notin> set (concat chunks)"
  shows "cache_count (snd (fold (feed mn mx) chunks ([], []))) (ngram_of g) t = int (occurrences (concat chunks) (g @ [t]))"
  using feed_all_counts [of g mn mx "[]" chunks "[]" t] assms by (simp add: cache_count_def occurrences_def)

theorem ngram_cache_counts_witness:
  "cache_count (snd (fold (feed 1 4) [[7, 8], [9, 7], [8, 9]] ([], []))) (ngram_of [7, 8]) 9 = int (occurrences (concat [[7, 8], [9, 7], [8, 9]]) ([7, 8] @ [9]))"
  by (rule ngram_cache_counts) simp_all

section \<open>What the speculator learns\<close>

text \<open>The speculator hands the update only the tokens that are new since the last draft. A round that adds one
  token, the usual round after a draft was rejected, leaves the cache as it was: no n-gram that crosses the border
  of two rounds is ever counted.\<close>

theorem single_token_rounds_learn_nothing:
  assumes "nc_cache_size s = length prompt" "cache_state_draft order prompt id_last s = Inr (draft, s')"
  shows "nc_context s' = nc_context s \<and> nc_cache_size s' = Suc (length prompt)"
proof -
  have "ngram_cache_update 1 4 [id_last] 1 (nc_context s) = nc_context s"
    by (simp add: ngram_cache_update_def update_size_def upt_rec)
  then show ?thesis using assms by (auto simp: cache_state_draft_def ebind_Inr_iff)
qed

theorem single_token_rounds_learn_nothing_witness:
  "nc_context (snd (projr (cache_state_draft rev [7, 8, 7] 8 \<lparr>nc_n_draft = 0, nc_context = [], nc_dynamic = [], nc_static = [], nc_cache_size = 3\<rparr>))) = []"
  using single_token_rounds_learn_nothing [of "\<lparr>nc_n_draft = 0, nc_context = [], nc_dynamic = [], nc_static = [], nc_cache_size = 3\<rparr>" "[7, 8, 7]" rev 8]
  by (auto simp: cache_state_draft_def ngram_cache_draft_def ebind_def)

text \<open>An input of two or three tokens passes the guard, and the larger n-grams then start before it.\<close>

lemma short_input_out_of_range:
  assumes "length inp = 2 \<or> length inp = 3"
  shows "ngram_cache_draft order 1 4 ctx dyn static inp (Suc k) [t] = Inl ''out of range''"
proof -
  have l: "[Suc 0..<5] = [Suc 0, 2, 3, 4]" by (simp add: upt_rec)
  from assms consider x y where "inp = [x, y]" | x y z where "inp = [x, y, z]"
    by (auto simp: numeral_eq_Suc length_Suc_conv)
  then show ?thesis
    by cases (simp_all add: ngram_cache_draft_def draft_token_def ngram_at_def get_token_def l upto_rec1 token_at_def ebind_def)
qed

section \<open>Files\<close>

definition int32 :: "int \<Rightarrow> bool" where
  "int32 x \<longleftrightarrow> - (2 ^ 31) \<le> x \<and> x < 2 ^ 31"

lemma four_bytes:
  "(ucast (ucast w :: u8) :: u32) OR push_bit 8 (ucast (ucast (drop_bit 8 w) :: u8)) OR push_bit 16 (ucast (ucast (drop_bit 16 w) :: u8))
     OR push_bit 24 (ucast (ucast (drop_bit 24 w) :: u8)) = w" for w :: u32
proof (rule bit_word_eqI)
  fix n assume "n < LENGTH(32)"
  then show "bit ((ucast (ucast w :: u8) :: u32) OR push_bit 8 (ucast (ucast (drop_bit 8 w) :: u8)) OR push_bit 16 (ucast (ucast (drop_bit 16 w) :: u8))
     OR push_bit 24 (ucast (ucast (drop_bit 24 w) :: u8))) n = bit w n"
    by (cases "24 \<le> n"; cases "16 \<le> n"; cases "8 \<le> n") (auto simp: bit_simps)
qed

lemma sint_int32: "int32 x \<Longrightarrow> sint (word_of_int x :: u32) = x"
  unfolding int32_def by (simp add: sint_sbintrunc' signed_take_bit_int_eq_self)

lemma read32_le32: "int32 x \<Longrightarrow> read32 (le32 x @ bs) = Some (x, bs)"
  by (simp add: le32_def Let_def of_le32_def four_bytes sint_int32)

text \<open>A table that fits its file.\<close>

definition part_wf :: "common_ngram_cache_part \<Rightarrow> bool" where
  "part_wf part \<longleftrightarrow> part \<noteq> [] \<and> distinct (map fst part) \<and> int32 (int (length part)) \<and> list_all (\<lambda>(t, c). int32 t \<and> int32 c \<and> 0 < c) part"

definition cache_wf :: "common_ngram_cache \<Rightarrow> bool" where
  "cache_wf cache \<longleftrightarrow> distinct (map fst cache) \<and> list_all (\<lambda>(g, part). length g = 4 \<and> list_all int32 g \<and> part_wf part) cache"

definition part_bytes :: "common_ngram_cache_part \<Rightarrow> u8 list" where
  "part_bytes part = concat (map (\<lambda>(t, c). le32 t @ le32 c) part)"

definition entry_bytes :: "common_ngram \<times> common_ngram_cache_part \<Rightarrow> u8 list" where
  "entry_bytes = (\<lambda>(g, part). concat (map le32 g) @ le32 (int (length part)) @ part_bytes part)"

lemma emap_all: "\<forall>x \<in> set xs. f x = Inr (g x) \<Longrightarrow> emap f xs = Inr (map g xs)"
  by (induction xs) (auto simp: ebind_def)

lemma save_part_bytes: "list_all (\<lambda>(t, c). 0 < c) part \<Longrightarrow> save_part part = Inr (part_bytes part)"
proof -
  assume "list_all (\<lambda>(t, c). 0 < c) part"
  then have "emap (\<lambda>(t, c). if c > 0 then Inr (le32 t @ le32 c) else Inl ''assert'') part = Inr (map (\<lambda>(t, c). le32 t @ le32 c) part)"
    by (intro emap_all) (auto simp: list_all_iff)
  then show ?thesis by (simp add: save_part_def part_bytes_def ebind_def)
qed

lemma load_part_bytes:
  assumes "list_all (\<lambda>(t, c). int32 t \<and> int32 c \<and> 0 < c) part" "distinct (map fst (acc @ part))"
  shows "load_part (length part) (part_bytes part @ bs) acc = Inr (acc @ part, bs)"
  using assms
proof (induction part arbitrary: acc)
  case (Cons p part)
  obtain t c where p: "p = (t, c)" by (cases p)
  have "map_of acc t = None" using Cons.prems(2) p by (simp add: map_of_eq_None_iff)
  with Cons.prems(1) Cons.IH [of "acc @ [(t, c)]"] Cons.prems(2) p show ?case
    by (simp add: part_bytes_def read32_le32 emplace_def)
qed (simp add: part_bytes_def)

lemma read_ngram_le32: "length g = 4 \<Longrightarrow> list_all int32 g \<Longrightarrow> read_ngram (concat (map le32 g) @ bs) = Some (g, bs)"
  by (auto simp: numeral_eq_Suc length_Suc_conv read_ngram_def read32_le32)

lemma load_entry:
  assumes "length g = 4" "list_all int32 g" "part_wf part"
  shows "load_ngrams (entry_bytes (g, part) @ bs) acc = load_ngrams bs (emplace g part acc)"
  using assms by (subst load_ngrams.simps)
    (simp add: entry_bytes_def read_ngram_le32 part_wf_def read32_le32 load_part_bytes [of part "[]", simplified])

lemma load_entries:
  "list_all (\<lambda>(g, part). length g = 4 \<and> list_all int32 g \<and> part_wf part) cache \<Longrightarrow> distinct (map fst (acc @ cache)) \<Longrightarrow>
     load_ngrams (concat (map entry_bytes cache)) acc = Inr (acc @ cache)"
proof (induction cache arbitrary: acc)
  case Nil
  show ?case by (subst load_ngrams.simps) (simp add: read_ngram_def)
next
  case (Cons e cache)
  obtain g part where e: "e = (g, part)" by (cases e)
  have "map_of acc g = None" using Cons.prems(2) e by (simp add: map_of_eq_None_iff)
  with Cons.prems Cons.IH [of "acc @ [(g, part)]"] e show ?case by (simp add: load_entry emplace_def)
qed

lemma save_entries:
  assumes "list_all (\<lambda>(g, part). part_wf part) cache" "\<forall>part. mset (order part) = mset part"
  shows "emap (\<lambda>(g, part). if part = [] then Inl ''assert'' else
       ebind (save_part (order part)) (\<lambda>bs. Inr (concat (map le32 g) @ le32 (int (length part)) @ bs))) cache =
     Inr (map (entry_bytes \<circ> map_prod (\<lambda>g. g) order) cache)"
proof (rule emap_all, clarify)
  fix g part assume "(g, part) \<in> set cache"
  with assms(1) have wf: "part_wf part" by (auto simp: list_all_iff)
  have same: "set (order part) = set part" "length (order part) = length part"
    using assms(2) by (metis mset_eq_setD mset_eq_length)+
  have "list_all (\<lambda>(t, c). 0 < c) (order part)" using wf same by (auto simp: part_wf_def list_all_iff)
  with wf show "(if part = [] then Inl ''assert'' else
       ebind (save_part (order part)) (\<lambda>bs. Inr (concat (map le32 g) @ le32 (int (length part)) @ bs))) =
     Inr ((entry_bytes \<circ> map_prod (\<lambda>g. g) order) (g, part))"
    by (simp add: save_part_bytes ebind_def entry_bytes_def same part_wf_def)
qed

lemma part_wf_order:
  assumes "mset part' = mset part" shows "part_wf part' = part_wf part"
proof -
  have "mset (map fst part') = mset (map fst part)" using assms by (metis mset_map)
  then have "distinct (map fst part') = distinct (map fst part)" by (metis mset_eq_imp_distinct_iff)
  moreover have "set part' = set part" "length part' = length part" using assms by (metis mset_eq_setD mset_eq_length)+
  ultimately show ?thesis by (auto simp: part_wf_def list_all_iff)
qed

lemma map_of_order: "mset xs = mset ys \<Longrightarrow> distinct (map fst ys) \<Longrightarrow> map_of xs = map_of ys"
  by (metis map_of_eqI map_of_inject_set mset_eq_imp_distinct_iff mset_eq_setD mset_map)

lemma map_of_map_parts: "map_of (map (map_prod (\<lambda>g. g) f) xs) k = map_option f (map_of xs k)"
  by (induction xs) auto

text \<open>The contents of a cache as the finite maps that it stands for.\<close>

definition cache_table :: "common_ngram_cache \<Rightarrow> common_ngram \<Rightarrow> (int \<rightharpoonup> int) option" where
  "cache_table cache g = map_option map_of (map_of cache g)"

text \<open>C34. A cache whose n-grams, tokens and counts fit 32-bit integers can be saved whatever the order in which its maps are
  walked, and loading the file gives a cache with the same counts.\<close>

theorem ngram_cache_roundtrip:
  fixes order :: part_order
  assumes "cache_wf cache" "\<forall>part. mset (order part) = mset part" "mset (cache_order cache) = mset cache"
  shows "\<exists>bs cache'. ngram_cache_save order cache_order cache = Inr bs \<and> ngram_cache_load (Some bs) = Inr cache' \<and>
    cache_table cache' = cache_table cache"
proof -
  let ?walk = "cache_order cache" and ?saved = "map (map_prod (\<lambda>g. g) order) (cache_order cache)"
  have set: "set ?walk = set cache" using assms(3) by (rule mset_eq_setD)
  have keys: "distinct (map fst ?walk)"
    using assms(1,3) by (metis cache_wf_def mset_eq_imp_distinct_iff mset_map)
  have wf: "list_all (\<lambda>(g, part). length g = 4 \<and> list_all int32 g \<and> part_wf part) ?walk"
    using assms(1) set by (simp add: cache_wf_def list_all_iff)
  then have parts: "list_all (\<lambda>(g, part). part_wf part) ?walk" by (auto simp: list_all_iff)
  have save: "ngram_cache_save order cache_order cache = Inr (concat (map entry_bytes ?saved))"
    unfolding ngram_cache_save_def save_entries [OF parts assms(2)] by (simp add: ebind_def)
  have fit: "list_all (\<lambda>(g, part). length g = 4 \<and> list_all int32 g \<and> part_wf part) ?saved"
    using wf part_wf_order [OF spec [OF assms(2)]] by (fastforce simp: list_all_iff)
  have "distinct (map fst ?saved)" using keys by (simp add: o_def map_prod_def case_prod_unfold)
  then have load: "ngram_cache_load (Some (concat (map entry_bytes ?saved))) = Inr ?saved"
    using load_entries [OF fit, of "[]"] by (simp add: ngram_cache_load_def)
  have "map_of ?walk = map_of cache"
    using assms(1) by (intro map_of_order assms(3)) (simp add: cache_wf_def)
  moreover have "map_of ?saved g = map_option order (map_of ?walk g)" for g
    by (rule map_of_map_parts)
  moreover have "map_of (order part) = map_of part" if "map_of ?walk g = Some part" for g part
    using wf map_of_SomeD [OF that] assms(2) by (intro map_of_order) (auto simp: list_all_iff part_wf_def)
  ultimately have "cache_table ?saved = cache_table cache"
    by (auto simp: cache_table_def fun_eq_iff split: option.splits intro!: option.map_cong simp: option.map_comp)
  with save load show ?thesis by blast
qed

theorem ngram_cache_roundtrip_witness:
  "\<exists>bs cache'. ngram_cache_save rev rev [([7, 8, -1, -1], [(9, 2), (3, 1)]), ([7, -1, -1, -1], [(8, 2)])] = Inr bs \<and>
     ngram_cache_load (Some bs) = Inr cache' \<and>
     cache_table cache' = cache_table [([7, 8, -1, -1], [(9, 2), (3, 1)]), ([7, -1, -1, -1], [(8, 2)])]"
  by (rule ngram_cache_roundtrip) (simp_all add: cache_wf_def part_wf_def int32_def)

section \<open>Merging\<close>

definition part_count :: "common_ngram_cache_part \<Rightarrow> int \<Rightarrow> int" where
  "part_count part t = (case map_of part t of None \<Rightarrow> 0 | Some c \<Rightarrow> c)"

lemma cache_count_parts: "cache_count cache g t = (case map_of cache g of None \<Rightarrow> 0 | Some part \<Rightarrow> part_count part t)"
  by (simp add: cache_count_def part_count_def split: option.split)

lemma merge_part_counts:
  "distinct (map fst add) \<Longrightarrow> list_all (\<lambda>(t, c). 0 < c) add \<Longrightarrow>
     \<exists>merged. merge_part add part = Inr merged \<and> (\<forall>t. part_count merged t = part_count part t + part_count add t)"
proof (induction add arbitrary: part)
  case (Cons p add)
  obtain t c where p: "p = (t, c)" by (cases p)
  let ?part = "case map_of part t of None \<Rightarrow> part @ [(t, c)] | Some c' \<Rightarrow> AList.update t (c' + c) part"
  have "distinct (map fst add)" "list_all (\<lambda>(t, c). 0 < c) add" using Cons.prems by auto
  from Cons.IH [OF this, of ?part] obtain merged where
    m: "merge_part add ?part = Inr merged" "\<forall>t. part_count merged t = part_count ?part t + part_count add t" by blast
  have "part_count ?part u = part_count part u + (if u = t then c else 0)" for u
    by (auto simp: part_count_def AList.update_conv' map_of_snoc simp del: map_of_append split: option.split)
  moreover have "map_of add t = None" using Cons.prems(1) p by (simp add: map_of_eq_None_iff)
  ultimately have "\<forall>u. part_count merged u = part_count part u + part_count (p # add) u"
    using m(2) p by (simp add: part_count_def)
  moreover have "merge_part (p # add) part = Inr merged" using m(1) p Cons.prems(2) by simp
  ultimately show ?case by blast
qed (simp add: part_count_def)

text \<open>Merging adds the counts and cannot fail when those to be added are positive.\<close>

theorem ngram_cache_merge_adds:
  "distinct (map fst add) \<Longrightarrow> list_all (\<lambda>(g, part). part_wf part) add \<Longrightarrow>
     \<exists>merged. merge_ngrams add target = Inr merged \<and> (\<forall>g t. cache_count merged g t = cache_count target g t + cache_count add g t)"
proof (induction add arbitrary: target)
  case (Cons e add)
  obtain g part where e: "e = (g, part)" by (cases e)
  have part: "distinct (map fst part)" "list_all (\<lambda>(t, c). 0 < c) part"
    using Cons.prems(2) e by (auto simp: part_wf_def list_all_iff)
  have new: "map_of add g = None" using Cons.prems(1) e by (simp add: map_of_eq_None_iff)
  have "\<exists>target'. merge_ngrams (e # add) target = merge_ngrams add target' \<and>
    (\<forall>g' t. cache_count target' g' t = cache_count target g' t + (if g' = g then part_count part t else 0))"
  proof (cases "map_of target g")
    case None
    then show ?thesis using e
      by (intro exI [of _ "target @ [(g, part)]"]) (auto simp: cache_count_parts map_of_snoc simp del: map_of_append)
  next
    case (Some old)
    from merge_part_counts [OF part, of old] obtain merged where
      m: "merge_part part old = Inr merged" "\<forall>t. part_count merged t = part_count old t + part_count part t" by blast
    with Some e show ?thesis
      by (intro exI [of _ "AList.update g merged target"]) (auto simp: cache_count_parts AList.update_conv' ebind_def)
  qed
  then obtain target' where t: "merge_ngrams (e # add) target = merge_ngrams add target'"
    "\<forall>g' t. cache_count target' g' t = cache_count target g' t + (if g' = g then part_count part t else 0)" by blast
  have "distinct (map fst add)" "list_all (\<lambda>(g, part). part_wf part) add" using Cons.prems by auto
  from Cons.IH [OF this, of target'] obtain merged where
    "merge_ngrams add target' = Inr merged" "\<forall>g t. cache_count merged g t = cache_count target' g t + cache_count add g t" by blast
  with t e new show ?case by (auto simp: cache_count_parts)
qed (simp add: cache_count_def)

end
