(* ===== verification/Server_Queue.thy ===== *)
theory Server_Queue
  imports Pin_Prelude "HOL-Library.Multiset"
begin

text \<open>
  The task queue of the server (\<open>examples/server/server-queue.h\<close> and \<open>.cpp\<close>): posting with
  cancellation, deferring, multitasks, and the main loop. Every operation holds the mutex, so it is one step;
  the main loop is a thread of its own whose steps lie between its locks. The payload of a task and of a result
  is a type parameter; ids are integers, assumed not to overflow. The condition variable is the pair of a blocked
  loop and the flag that it has been notified. The walk over the multitasks takes no lock and is one step: only
  the callbacks change them, and those run on the thread of the loop.
\<close>

section \<open>Queue\<close>

datatype server_task_type = TASK_COMPLETION | TASK_EMBEDDING | TASK_RERANK | TASK_INFILL | TASK_CANCEL | TASK_NEXT_RESPONSE
  | TASK_METRICS | TASK_SLOT_SAVE | TASK_SLOT_RESTORE | TASK_SLOT_ERASE | TASK_SET_LORA | TASK_LOAD_CONTROL_VECTOR
  | TASK_UNLOAD_CONTROL_VECTOR | TASK_SET_CONTROL_VECTOR

record 'p server_task =
  st_id :: int
  st_id_target :: int
  st_type :: server_task_type
  st_payload :: 'p

record 'r server_task_result =
  sr_id :: int
  sr_id_multi :: int
  sr_payload :: 'r

record 'r server_task_multi =
  sm_id :: int
  sm_subtasks_remaining :: "int set"
  sm_results :: "'r server_task_result list"

record ('p, 'r) server_queue =
  sq_id :: int
  sq_running :: bool
  sq_tasks :: "'p server_task list"
  sq_deferred :: "'p server_task list"
  sq_multitasks :: "'r server_task_multi list"

definition assign_id :: "'p server_task \<Rightarrow> ('p, 'r) server_queue \<Rightarrow> 'p server_task \<times> ('p, 'r) server_queue" where
  "assign_id t q = (if st_id t = -1 then (t\<lparr>st_id := sq_id q\<rparr>, q\<lparr>sq_id := sq_id q + 1\<rparr>) else (t, q))"

definition queue_post :: "'p server_task \<Rightarrow> ('p, 'r) server_queue \<Rightarrow> int \<times> ('p, 'r) server_queue" where
  "queue_post t q = (let (t, q) = assign_id t q in (st_id t, q\<lparr>sq_tasks := sq_tasks q @ [t]\<rparr>))"

definition cleanup_pending_task :: "int \<Rightarrow> ('p, 'r) server_queue \<Rightarrow> ('p, 'r) server_queue" where
  "cleanup_pending_task target q = q\<lparr>sq_tasks := filter (\<lambda>t. st_id t \<noteq> target) (sq_tasks q),
     sq_deferred := filter (\<lambda>t. st_id t \<noteq> target) (sq_deferred q)\<rparr>"

definition post_next :: "bool \<Rightarrow> 'p server_task \<Rightarrow> ('p, 'r) server_queue \<Rightarrow> ('p, 'r) server_queue" where
  "post_next front t q = (let (t, q) = assign_id t q;
       q = (if st_type t = TASK_CANCEL then cleanup_pending_task (st_id_target t) q else q) in
     q\<lparr>sq_tasks := (if front then t # sq_tasks q else sq_tasks q @ [t])\<rparr>)"

definition queue_post_all :: "'p server_task list \<Rightarrow> bool \<Rightarrow> ('p, 'r) server_queue \<Rightarrow> ('p, 'r) server_queue" where
  "queue_post_all ts front q = fold (post_next front) ts q"

definition queue_defer :: "'p server_task \<Rightarrow> ('p, 'r) server_queue \<Rightarrow> ('p, 'r) server_queue" where
  "queue_defer t q = q\<lparr>sq_deferred := sq_deferred q @ [t]\<rparr>"

definition get_new_id :: "('p, 'r) server_queue \<Rightarrow> int \<times> ('p, 'r) server_queue" where
  "get_new_id q = (sq_id q, q\<lparr>sq_id := sq_id q + 1\<rparr>)"

definition notify_slot_changed :: "('p, 'r) server_queue \<Rightarrow> ('p, 'r) server_queue" where
  "notify_slot_changed q = q\<lparr>sq_tasks := sq_tasks q @ sq_deferred q, sq_deferred := []\<rparr>"

definition queue_terminate :: "('p, 'r) server_queue \<Rightarrow> ('p, 'r) server_queue" where
  "queue_terminate q = q\<lparr>sq_running := False\<rparr>"

definition add_multitask :: "int \<Rightarrow> int list \<Rightarrow> ('p, 'r) server_queue \<Rightarrow> ('p, 'r) server_queue" where
  "add_multitask i sub_ids q =
     q\<lparr>sq_multitasks := sq_multitasks q @ [\<lparr>sm_id = i, sm_subtasks_remaining = set sub_ids, sm_results = []\<rparr>]\<rparr>"

definition update_multitask :: "int \<Rightarrow> int \<Rightarrow> 'r server_task_result \<Rightarrow> ('p, 'r) server_queue \<Rightarrow> ('p, 'r) server_queue" where
  "update_multitask i sub r q = q\<lparr>sq_multitasks := map (\<lambda>mt. if sm_id mt = i
     then mt\<lparr>sm_subtasks_remaining := sm_subtasks_remaining mt - {sub}, sm_results := sm_results mt @ [r]\<rparr> else mt) (sq_multitasks q)\<rparr>"

section \<open>Main loop\<close>

text \<open>
  Where the loop stands: not started yet, about to fetch a task, in the callback of a task, about to look for finished
  multitasks, in the callback that updates the slots, at the check before the wait, in the wait, or over.
\<close>

datatype 'p loop_pc = Starting | Fetch | Running "'p server_task" | Checking | Slots | Waiting | Blocked | Ended

text \<open>
  The state with the history of what was put in, what a callback has finished with, what a cancellation
  removed, the multitasks that were reported, and the ids that were handed out.
\<close>

record ('p, 'r) queue_sys =
  qs_queue :: "('p, 'r) server_queue"
  qs_pc :: "'p loop_pc"
  qs_notified :: bool
  qs_posted :: "'p server_task list"
  qs_done :: "'p server_task list"
  qs_cancelled :: "'p server_task list"
  qs_finished :: "'r server_task_multi list"
  qs_ids :: "int list"

text \<open>The member \<open>running\<close> has no initial value: it is a parameter until the loop starts.\<close>

definition queue_start :: "bool \<Rightarrow> ('p, 'r) queue_sys" where
  "queue_start running = \<lparr>qs_queue = \<lparr>sq_id = 0, sq_running = running, sq_tasks = [], sq_deferred = [], sq_multitasks = []\<rparr>,
     qs_pc = Starting, qs_notified = False, qs_posted = [], qs_done = [], qs_cancelled = [], qs_finished = [], qs_ids = []\<rparr>"

definition pending :: "('p, 'r) server_queue \<Rightarrow> 'p server_task list" where
  "pending q = sq_tasks q @ sq_deferred q"

text \<open>One task of a batch, with its record in the history.\<close>

definition sys_post :: "bool \<Rightarrow> 'p server_task \<Rightarrow> ('p, 'r) queue_sys \<Rightarrow> ('p, 'r) queue_sys" where
  "sys_post front t s = (let q = qs_queue s; t' = fst (assign_id t q) in
     s\<lparr>qs_queue := post_next front t q, qs_posted := qs_posted s @ [t'],
       qs_ids := (if st_id t = -1 then qs_ids s @ [st_id t'] else qs_ids s),
       qs_cancelled := (if st_type t = TASK_CANCEL then qs_cancelled s @ filter (\<lambda>u. st_id u = st_id_target t) (pending q)
         else qs_cancelled s)\<rparr>)"

text \<open>Steps of the other threads, and of the callbacks when they post.\<close>

inductive client_step :: "('p, 'r) queue_sys \<Rightarrow> ('p, 'r) queue_sys \<Rightarrow> bool" where
  post: "queue_post t (qs_queue s) = (i, q) \<Longrightarrow> client_step s (s\<lparr>qs_queue := q, qs_notified := True,
     qs_posted := qs_posted s @ [fst (assign_id t (qs_queue s))], qs_ids := (if st_id t = -1 then qs_ids s @ [i] else qs_ids s)\<rparr>)"
| post_all: "client_step s ((fold (sys_post front) ts s)\<lparr>qs_notified := True\<rparr>)"
| new_id: "get_new_id (qs_queue s) = (i, q) \<Longrightarrow> client_step s (s\<lparr>qs_queue := q, qs_ids := qs_ids s @ [i]\<rparr>)"
| end_loop: "client_step s (s\<lparr>qs_queue := queue_terminate (qs_queue s), qs_notified := True\<rparr>)"
| add_multi: "client_step s (s\<lparr>qs_queue := add_multitask i sub_ids (qs_queue s)\<rparr>)"
| update_multi: "client_step s (s\<lparr>qs_queue := update_multitask i sub r (qs_queue s)\<rparr>)"

text \<open>Steps of the loop. It starts with an unlocked assignment to \<open>running\<close>. A callback may defer its task; that slots have changed is only reported from a callback.\<close>

inductive loop_step :: "('p, 'r) queue_sys \<Rightarrow> ('p, 'r) queue_sys \<Rightarrow> bool" where
  starting: "qs_pc s = Starting \<Longrightarrow> loop_step s (s\<lparr>qs_queue := (qs_queue s)\<lparr>sq_running := True\<rparr>, qs_pc := Fetch\<rparr>)"
| fetch: "qs_pc s = Fetch \<Longrightarrow> sq_tasks (qs_queue s) = t # ts \<Longrightarrow>
     loop_step s (s\<lparr>qs_queue := (qs_queue s)\<lparr>sq_tasks := ts\<rparr>, qs_pc := Running t\<rparr>)"
| fetched_all: "qs_pc s = Fetch \<Longrightarrow> sq_tasks (qs_queue s) = [] \<Longrightarrow> loop_step s (s\<lparr>qs_pc := Checking\<rparr>)"
| task_done: "qs_pc s = Running t \<Longrightarrow> loop_step s (s\<lparr>qs_pc := Fetch, qs_done := qs_done s @ [t]\<rparr>)"
| task_deferred: "qs_pc s = Running t \<Longrightarrow> loop_step s (s\<lparr>qs_pc := Fetch, qs_queue := queue_defer t (qs_queue s)\<rparr>)"
| check_multi: "qs_pc s = Checking \<Longrightarrow> loop_step s (s\<lparr>qs_pc := Slots,
     qs_finished := qs_finished s @ filter (\<lambda>mt. sm_subtasks_remaining mt = {}) (sq_multitasks (qs_queue s)),
     qs_queue := (qs_queue s)\<lparr>sq_multitasks := filter (\<lambda>mt. sm_subtasks_remaining mt \<noteq> {}) (sq_multitasks (qs_queue s))\<rparr>\<rparr>)"
| slots_updated: "qs_pc s = Slots \<Longrightarrow> loop_step s (s\<lparr>qs_pc := Waiting\<rparr>)"
| more: "qs_pc s = Waiting \<Longrightarrow> sq_tasks (qs_queue s) \<noteq> [] \<Longrightarrow> loop_step s (s\<lparr>qs_pc := Fetch\<rparr>)"
| ended: "qs_pc s = Waiting \<Longrightarrow> sq_tasks (qs_queue s) = [] \<Longrightarrow> \<not> sq_running (qs_queue s) \<Longrightarrow> loop_step s (s\<lparr>qs_pc := Ended\<rparr>)"
| blocked: "qs_pc s = Waiting \<Longrightarrow> sq_tasks (qs_queue s) = [] \<Longrightarrow> sq_running (qs_queue s)
     \<Longrightarrow> loop_step s (s\<lparr>qs_pc := Blocked, qs_notified := False\<rparr>)"
| woken: "qs_pc s = Blocked \<Longrightarrow> qs_notified s \<Longrightarrow> sq_tasks (qs_queue s) \<noteq> [] \<or> \<not> sq_running (qs_queue s)
     \<Longrightarrow> loop_step s (s\<lparr>qs_pc := Fetch\<rparr>)"
| woken_for_nothing: "qs_pc s = Blocked \<Longrightarrow> qs_notified s \<Longrightarrow> sq_tasks (qs_queue s) = [] \<Longrightarrow> sq_running (qs_queue s)
     \<Longrightarrow> loop_step s (s\<lparr>qs_notified := False\<rparr>)"

inductive queue_step :: "('p, 'r) queue_sys \<Rightarrow> ('p, 'r) queue_sys \<Rightarrow> bool" where
  client: "client_step s s' \<Longrightarrow> queue_step s s'"
| loop: "loop_step s s' \<Longrightarrow> queue_step s s'"
| slot_changed: "qs_pc s = Slots \<or> (\<exists>t. qs_pc s = Running t) \<Longrightarrow>
     queue_step s (s\<lparr>qs_queue := notify_slot_changed (qs_queue s)\<rparr>)"

inductive_cases loop_stepE: "loop_step s s'"
inductive_simps loop_step_iff: "loop_step s s'"

inductive queue_reachable :: "('p, 'r) queue_sys \<Rightarrow> bool" where
  start: "queue_reachable (queue_start running)"
| step: "queue_reachable s \<Longrightarrow> queue_step s s' \<Longrightarrow> queue_reachable s'"

section \<open>Invariant\<close>

definition in_hand :: "'p loop_pc \<Rightarrow> 'p server_task multiset" where
  "in_hand pc = (case pc of Running t \<Rightarrow> {#t#} | _ \<Rightarrow> {#})"

lemma in_hand_simps [simp]:
  "in_hand Starting = {#}" "in_hand Fetch = {#}" "in_hand (Running t) = {#t#}" "in_hand Checking = {#}" "in_hand Slots = {#}"
  "in_hand Waiting = {#}" "in_hand Blocked = {#}" "in_hand Ended = {#}"
  by (simp_all add: in_hand_def)

definition accounted :: "('p, 'r) queue_sys \<Rightarrow> bool" where
  "accounted s \<longleftrightarrow> mset (qs_posted s) =
     mset (qs_done s) + mset (qs_cancelled s) + in_hand (qs_pc s) + mset (pending (qs_queue s))"

definition awake :: "('p, 'r) queue_sys \<Rightarrow> bool" where
  "awake s \<longleftrightarrow> (qs_pc s = Blocked \<and> \<not> qs_notified s \<longrightarrow> sq_tasks (qs_queue s) = [] \<and> sq_running (qs_queue s))"

definition ids_ok :: "('p, 'r) queue_sys \<Rightarrow> bool" where
  "ids_ok s \<longleftrightarrow> qs_ids s = [0..sq_id (qs_queue s) - 1] \<and> 0 \<le> sq_id (qs_queue s)"

lemmas queue_defs = queue_post_def post_next_def assign_id_def cleanup_pending_task_def queue_defer_def get_new_id_def
  notify_slot_changed_def queue_terminate_def add_multitask_def update_multitask_def pending_def Let_def

lemma upto_snoc: "0 \<le> n \<Longrightarrow> [0..n - 1] @ [n] = [0..n]" for n :: int
  by (simp add: upto_rec2)

lemma filter_mset_split: "filter_mset (\<lambda>x. \<not> P x) M + filter_mset P M = M"
  by (metis multiset_partition union_commute)

lemma sys_post_inv:
  assumes "accounted s" "ids_ok s"
  shows "accounted (sys_post front t s)" "ids_ok (sys_post front t s)" "qs_pc (sys_post front t s) = qs_pc s"
proof -
  let ?q = "qs_queue s"
  have split: "mset (filter (\<lambda>u. st_id u \<noteq> i) xs) + mset (filter (\<lambda>u. st_id u = i) xs) = mset xs" for i and xs :: "'a server_task list"
    using filter_mset_split [of "\<lambda>u. st_id u = i" "mset xs"] by simp
  have "mset (pending (post_next front t ?q)) = add_mset (fst (assign_id t ?q))
      (mset (if st_type t = TASK_CANCEL then filter (\<lambda>u. st_id u \<noteq> st_id_target t) (pending ?q) else pending ?q))"
    by (simp add: queue_defs)
  then have "mset (pending (post_next front t ?q)) + (if st_type t = TASK_CANCEL then mset (filter (\<lambda>u. st_id u = st_id_target t) (pending ?q)) else {#})
      = mset (pending ?q) + {#fst (assign_id t ?q)#}"
    using split [of "st_id_target t" "pending ?q"] by simp
  then show "accounted (sys_post front t s)" using assms(1)
    by (auto simp: accounted_def sys_post_def Let_def ac_simps split: if_splits)
  show "ids_ok (sys_post front t s)" using assms(2)
    by (auto simp: ids_ok_def sys_post_def queue_defs upto_snoc)
  show "qs_pc (sys_post front t s) = qs_pc s" by (simp add: sys_post_def Let_def)
qed

lemma sys_posts_inv:
  "accounted s \<Longrightarrow> ids_ok s \<Longrightarrow> accounted (fold (sys_post front) ts s) \<and> ids_ok (fold (sys_post front) ts s)"
  by (induction ts arbitrary: s) (simp_all add: sys_post_inv)

definition queue_inv :: "('p, 'r) queue_sys \<Rightarrow> bool" where
  "queue_inv s \<longleftrightarrow> accounted s \<and> awake s \<and> ids_ok s"

lemma client_step_inv:
  assumes "client_step s s'" "queue_inv s"
  shows "queue_inv s'"
  using assms
proof (cases rule: client_step.cases)
  case (post t i q)
  with assms(2) show ?thesis
    by (auto simp: queue_inv_def accounted_def awake_def ids_ok_def queue_defs upto_snoc split: if_splits)
next
  case (post_all front ts)
  with assms(2) sys_posts_inv [of s front ts] show ?thesis
    by (auto simp: queue_inv_def accounted_def awake_def ids_ok_def)
qed (auto simp: queue_inv_def accounted_def awake_def ids_ok_def queue_defs upto_snoc)

lemma loop_step_inv:
  assumes "loop_step s s'" "queue_inv s"
  shows "queue_inv s'"
  using assms by (cases rule: loop_stepE) (auto simp: queue_inv_def accounted_def awake_def ids_ok_def queue_defs)

lemma queue_reachable_inv: "queue_reachable s \<Longrightarrow> queue_inv s"
proof (induction rule: queue_reachable.induct)
  case (start running)
  show ?case by (simp add: queue_inv_def queue_start_def accounted_def awake_def ids_ok_def pending_def)
next
  case (step s s')
  from step.hyps(2) step.IH show ?case
  proof (cases rule: queue_step.cases)
    case slot_changed
    with step.IH show ?thesis by (auto simp: queue_inv_def accounted_def awake_def ids_ok_def queue_defs)
  qed (simp_all add: client_step_inv loop_step_inv)
qed

section \<open>The end of the loop\<close>








text \<open>A completion is posted, then cancelled by a task put at the front, and the server is told to end.\<close>

definition sample_task :: "server_task_type \<Rightarrow> unit server_task" where
  "sample_task ty = \<lparr>st_id = -1, st_id_target = 0, st_type = ty, st_payload = ()\<rparr>"

definition sample_sys :: "(unit, unit) queue_sys" where
  "sample_sys = \<lparr>qs_queue = \<lparr>sq_id = 2, sq_running = False, sq_tasks = [(sample_task TASK_CANCEL)\<lparr>st_id := 1\<rparr>], sq_deferred = [], sq_multitasks = []\<rparr>,
     qs_pc = Fetch, qs_notified = True,
     qs_posted = [(sample_task TASK_COMPLETION)\<lparr>st_id := 0\<rparr>, (sample_task TASK_CANCEL)\<lparr>st_id := 1\<rparr>],
     qs_done = [], qs_cancelled = [(sample_task TASK_COMPLETION)\<lparr>st_id := 0\<rparr>], qs_finished = [], qs_ids = [0, 1]\<rparr>"

lemma sample_sys_reachable: "queue_reachable sample_sys"
proof -
  let ?s0 = "(queue_start False)\<lparr>qs_queue := (qs_queue (queue_start False))\<lparr>sq_running := True\<rparr>, qs_pc := Fetch\<rparr> :: (unit, unit) queue_sys"
  have "loop_step (queue_start False) ?s0" by (rule loop_step.starting) (simp add: queue_start_def)
  then have r0: "queue_reachable ?s0" by (blast intro: queue_reachable.intros queue_step.intros)
  let ?s1 = "?s0\<lparr>qs_queue := (qs_queue ?s0)\<lparr>sq_id := 1, sq_tasks := [(sample_task TASK_COMPLETION)\<lparr>st_id := 0\<rparr>]\<rparr>,
     qs_notified := True, qs_posted := [(sample_task TASK_COMPLETION)\<lparr>st_id := 0\<rparr>], qs_ids := [0]\<rparr>"
  have "client_step ?s0 ?s1"
    using client_step.post [of "sample_task TASK_COMPLETION" ?s0 0]
    by (simp add: queue_post_def assign_id_def queue_start_def sample_task_def)
  with r0 have r1: "queue_reachable ?s1" by (blast intro: queue_reachable.intros queue_step.intros)
  let ?s2 = "(fold (sys_post True) [sample_task TASK_CANCEL] ?s1)\<lparr>qs_notified := True\<rparr>"
  have "client_step ?s1 ?s2" by (rule client_step.post_all)
  with r1 have r2: "queue_reachable ?s2" by (blast intro: queue_reachable.intros queue_step.intros)
  have "client_step ?s2 (?s2\<lparr>qs_queue := queue_terminate (qs_queue ?s2), qs_notified := True\<rparr>)" by (rule client_step.end_loop)
  moreover have "?s2\<lparr>qs_queue := queue_terminate (qs_queue ?s2), qs_notified := True\<rparr> = sample_sys"
    by (simp add: sample_sys_def sys_post_def queue_start_def queue_defs sample_task_def)
  ultimately show ?thesis using r2 by (metis queue_reachable.step queue_step.client)
qed

section \<open>Properties\<close>

text \<open>
  C16. Under every interleaving of the main loop with the threads that post, cancel, register multitasks or end the
  server: every task put in the queue is, exactly once, finished with, removed by a cancellation, in the callback, waiting or
  deferred; the ids handed out are consecutive, so no two are equal; and the loop is never left asleep
  while there is a task to fetch or the server is to end.
\<close>

theorem queue_loses_nothing:
  assumes "queue_reachable s"
  shows "mset (qs_posted s) = mset (qs_done s) + mset (qs_cancelled s) + in_hand (qs_pc s) + mset (sq_tasks (qs_queue s)) + mset (sq_deferred (qs_queue s))
    \<and> qs_ids s = [0..sq_id (qs_queue s) - 1]
    \<and> (qs_pc s = Blocked \<and> (sq_tasks (qs_queue s) \<noteq> [] \<or> \<not> sq_running (qs_queue s)) \<longrightarrow> qs_notified s)"
  using queue_reachable_inv [OF assms] by (auto simp: queue_inv_def accounted_def awake_def ids_ok_def pending_def)

theorem queue_loses_nothing_witness:
  "mset (qs_posted sample_sys) = mset (qs_cancelled sample_sys) + mset (sq_tasks (qs_queue sample_sys)) \<and> qs_ids sample_sys = [0..1]"
  using queue_loses_nothing [OF sample_sys_reachable] by (simp add: sample_sys_def)



text \<open>
  A request to end that comes before the loop has started is lost: the loop overwrites \<open>running\<close>, and with
  nothing posted it goes to sleep.
\<close>

lemma early_terminate_lost:
  "\<exists>s s'. queue_reachable s \<and> client_step (queue_start running) s \<and> \<not> sq_running (qs_queue s)
     \<and> loop_step\<^sup>*\<^sup>* s s' \<and> qs_pc s' = Blocked \<and> \<not> qs_notified s' \<and> (\<forall>s''. \<not> loop_step s' s'')" for running
proof -
  let ?s = "(queue_start running)\<lparr>qs_queue := queue_terminate (qs_queue (queue_start running)), qs_notified := True\<rparr>"
  let ?s1 = "?s\<lparr>qs_queue := (qs_queue ?s)\<lparr>sq_running := True\<rparr>, qs_pc := Fetch\<rparr>"
  let ?s2 = "?s1\<lparr>qs_pc := Checking\<rparr>" and ?s3 = "?s1\<lparr>qs_pc := Slots\<rparr>" and ?s4 = "?s1\<lparr>qs_pc := Waiting\<rparr>"
  let ?s5 = "?s1\<lparr>qs_pc := Blocked, qs_notified := False\<rparr>"
  have c: "client_step (queue_start running) ?s" by (rule client_step.end_loop)
  have st1: "loop_step ?s ?s1" by (rule loop_step.starting) (simp add: queue_start_def)
  have st2: "loop_step ?s1 ?s2" by (rule loop_step.fetched_all) (simp_all add: queue_start_def queue_terminate_def)
  have st3: "loop_step ?s2 ?s3"
    using loop_step.check_multi [of ?s2] by (simp add: queue_start_def queue_terminate_def)
  have st4: "loop_step ?s3 ?s4" using loop_step.slots_updated [of ?s3] by simp
  have st5: "loop_step ?s4 ?s5" using loop_step.blocked [of ?s4] by (simp add: queue_start_def queue_terminate_def)
  note trans = converse_rtranclp_into_rtranclp [where r = loop_step]
  have "loop_step\<^sup>*\<^sup>* ?s ?s5"
    by (rule trans [OF st1], rule trans [OF st2], rule trans [OF st3], rule trans [OF st4], rule trans [OF st5],
      rule rtranclp.rtrancl_refl)
  moreover have "\<not> loop_step ?s5 s''" for s'' by (auto elim: loop_stepE)
  moreover have "queue_reachable ?s" using c by (blast intro: queue_reachable.intros queue_step.intros)
  moreover have "\<not> sq_running (qs_queue ?s)" by (simp add: queue_terminate_def)
  moreover have "qs_pc ?s5 = Blocked" "\<not> qs_notified ?s5" by simp_all
  ultimately show ?thesis using c by blast
qed

end
