(* ===== verification/Server_Response.thy ===== *)
theory Server_Response
  imports Server_Queue
begin

text \<open>
  The results of the server (\<open>server_response\<close> in \<open>examples/server/server-queue.h\<close> and \<open>.cpp\<close>): who waits for
  which task, and the two result queues. A wait returns \<open>None\<close> as long as there is nothing for it. A result of
  the older kind that belongs to a multitask is handed to the task queue, the callback the server registers. A
  waiting set is walked in increasing order, as \<open>std::set\<close> does.
\<close>

record 'r server_response =
  sp_running :: bool
  sp_waiting :: "int set"
  sp_results :: "'r server_task_result list"
  sp_results_legacy :: "'r server_task_result list"

definition response_new :: "'r server_response" where
  "response_new = \<lparr>sp_running = True, sp_waiting = {}, sp_results = [], sp_results_legacy = []\<rparr>"

definition add_waiting_task_id :: "int \<Rightarrow> 'r server_response \<Rightarrow> 'r server_response" where
  "add_waiting_task_id i rs = rs\<lparr>sp_waiting := insert i (sp_waiting rs)\<rparr>"

definition add_waiting_tasks :: "'p server_task list \<Rightarrow> 'r server_response \<Rightarrow> 'r server_response" where
  "add_waiting_tasks ts rs = rs\<lparr>sp_waiting := sp_waiting rs \<union> set (map st_id ts)\<rparr>"

definition remove_waiting_task_id :: "int \<Rightarrow> 'r server_response \<Rightarrow> 'r server_response" where
  "remove_waiting_task_id i rs = rs\<lparr>sp_waiting := sp_waiting rs - {i}\<rparr>"

definition remove_waiting_task_ids :: "int set \<Rightarrow> 'r server_response \<Rightarrow> 'r server_response" where
  "remove_waiting_task_ids ids rs = rs\<lparr>sp_waiting := sp_waiting rs - ids\<rparr>"

text \<open>The first result for one of the tasks, taken out of the queue.\<close>

fun take_result :: "int set \<Rightarrow> 'r server_task_result list \<Rightarrow> ('r server_task_result \<times> 'r server_task_result list) option" where
  "take_result ids [] = None"
| "take_result ids (r # rs) = (if sr_id r \<in> ids then Some (r, rs)
     else (case take_result ids rs of None \<Rightarrow> None | Some (x, rest) \<Rightarrow> Some (x, r # rest)))"

definition response_recv :: "int \<Rightarrow> 'r server_response \<Rightarrow> ('r server_task_result \<times> 'r server_response) option throws" where
  "response_recv i rs = (case take_result {i} (sp_results_legacy rs) of
       None \<Rightarrow> Inr None
     | Some (r, rest) \<Rightarrow> if sr_id_multi r = -1 then Inr (Some (r, rs\<lparr>sp_results_legacy := rest\<rparr>)) else Inl ''assert'')"

text \<open>
  One round of the polling wait: a result, the end of the wait after the timeout, or another round when it
  was woken; the program ends when the server has ended meanwhile.
\<close>

datatype 'r polled = Got "'r server_task_result" | Timeout | Again

definition response_poll :: "int set \<Rightarrow> bool \<Rightarrow> 'r server_response \<Rightarrow> ('r polled \<times> 'r server_response) throws" where
  "response_poll ids timed_out rs = (case take_result ids (sp_results rs) of
       Some (r, rest) \<Rightarrow> Inr (Got r, rs\<lparr>sp_results := rest\<rparr>)
     | None \<Rightarrow> if \<not> sp_running rs then Inl ''terminate'' else Inr (if timed_out then Timeout else Again, rs))"

definition response_send :: "'r server_task_result \<Rightarrow> 'r server_response \<Rightarrow> 'r server_response" where
  "response_send r rs = (if sr_id r \<in> sp_waiting rs then rs\<lparr>sp_results := sp_results rs @ [r]\<rparr> else rs)"

fun send_to :: "int list \<Rightarrow> 'r server_task_result \<Rightarrow> 'r server_response \<times> ('p, 'r) server_queue \<Rightarrow> 'r server_response \<times> ('p, 'r) server_queue" where
  "send_to [] r (rs, q) = (rs, q)"
| "send_to (i # ids) r (rs, q) =
     (if sr_id_multi r = i then send_to ids r (rs, update_multitask i (sr_id r) r q)
      else if sr_id r = i then (rs\<lparr>sp_results_legacy := sp_results_legacy rs @ [r]\<rparr>, q)
      else send_to ids r (rs, q))"

definition response_send_legacy :: "'r server_task_result \<Rightarrow> 'r server_response \<times> ('p, 'r) server_queue \<Rightarrow> 'r server_response \<times> ('p, 'r) server_queue" where
  "response_send_legacy r = (\<lambda>(rs, q). send_to (sorted_list_of_set (sp_waiting rs)) r (rs, q))"

definition response_terminate :: "'r server_response \<Rightarrow> 'r server_response" where
  "response_terminate rs = rs\<lparr>sp_running := False\<rparr>"

section \<open>Runs\<close>

text \<open>The operations of all threads in the order of the mutex, with the results that were received by the two waits.\<close>

datatype 'r response_op = Register int | Register_All "int list" | Unregister int | Unregister_All "int set"
  | Send "'r server_task_result" | Poll "int set" bool | Send_Legacy "'r server_task_result" | Recv int
  | Terminate

record ('p, 'r) response_sys =
  rq_response :: "'r server_response"
  rq_queue :: "('p, 'r) server_queue"
  rq_received :: "'r server_task_result list"
  rq_received_legacy :: "'r server_task_result list"

fun response_exec :: "'r response_op \<Rightarrow> ('p, 'r) response_sys \<Rightarrow> ('p, 'r) response_sys throws" where
  "response_exec (Register i) s = Inr (s\<lparr>rq_response := add_waiting_task_id i (rq_response s)\<rparr>)"
| "response_exec (Register_All ids) s =
     Inr (s\<lparr>rq_response := add_waiting_tasks (map (\<lambda>i. \<lparr>st_id = i, st_id_target = -1, st_type = TASK_COMPLETION, st_payload = ()\<rparr>) ids) (rq_response s)\<rparr>)"
| "response_exec (Unregister i) s = Inr (s\<lparr>rq_response := remove_waiting_task_id i (rq_response s)\<rparr>)"
| "response_exec (Unregister_All ids) s = Inr (s\<lparr>rq_response := remove_waiting_task_ids ids (rq_response s)\<rparr>)"
| "response_exec (Send r) s = Inr (s\<lparr>rq_response := response_send r (rq_response s)\<rparr>)"
| "response_exec (Poll ids timed_out) s = ebind (response_poll ids timed_out (rq_response s)) (\<lambda>(x, rs).
     Inr (s\<lparr>rq_response := rs, rq_received := (case x of Got r \<Rightarrow> rq_received s @ [r] | _ \<Rightarrow> rq_received s)\<rparr>))"
| "response_exec (Send_Legacy r) s = (let (rs, q) = response_send_legacy r (rq_response s, rq_queue s) in
     Inr (s\<lparr>rq_response := rs, rq_queue := q\<rparr>))"
| "response_exec (Recv i) s = ebind (response_recv i (rq_response s)) (\<lambda>x.
     Inr (case x of None \<Rightarrow> s | Some (r, rs) \<Rightarrow> s\<lparr>rq_response := rs, rq_received_legacy := rq_received_legacy s @ [r]\<rparr>))"
| "response_exec Terminate s = Inr (s\<lparr>rq_response := response_terminate (rq_response s)\<rparr>)"

fun response_run :: "'r response_op list \<Rightarrow> ('p, 'r) response_sys \<Rightarrow> ('p, 'r) response_sys throws" where
  "response_run [] s = Inr s"
| "response_run (op # ops) s = ebind (response_exec op s) (response_run ops)"

text \<open>
  The mailboxes of a task, the specification: a task is registered or not, and what is sent for it while it is
  registered is delivered, in the order it is sent. Nothing but the order of the operations on this one task matters.
  In the older interface a result that names its own task as the multitask it belongs to goes to the multitask only.
\<close>

fun registered :: "int \<Rightarrow> bool \<Rightarrow> 'r response_op \<Rightarrow> bool" where
  "registered i b (Register j) = (b \<or> i = j)"
| "registered i b (Register_All ids) = (b \<or> i \<in> set ids)"
| "registered i b (Unregister j) = (b \<and> i \<noteq> j)"
| "registered i b (Unregister_All ids) = (b \<and> i \<notin> ids)"
| "registered i b _ = b"

fun sent :: "int \<Rightarrow> 'r response_op \<Rightarrow> 'r server_task_result list" where
  "sent i (Send r) = (if sr_id r = i then [r] else [])"
| "sent i _ = []"

fun sent_legacy :: "int \<Rightarrow> 'r response_op \<Rightarrow> 'r server_task_result list" where
  "sent_legacy i (Send_Legacy r) = (if sr_id r = i \<and> sr_id_multi r \<noteq> i then [r] else [])"
| "sent_legacy i _ = []"

fun mailbox :: "('r response_op \<Rightarrow> 'r server_task_result list) \<Rightarrow> int \<Rightarrow> bool \<Rightarrow> 'r response_op list \<Rightarrow> 'r server_task_result list" where
  "mailbox sent_by i b [] = []"
| "mailbox sent_by i b (op # ops) = (if b then sent_by op else []) @ mailbox sent_by i (registered i b op) ops"

definition for_task :: "int \<Rightarrow> 'r server_task_result list \<Rightarrow> 'r server_task_result list" where
  "for_task i rs = filter (\<lambda>r. sr_id r = i) rs"

lemma for_task_simps [simp]:
  "for_task i [] = []" "for_task i (r # rs) = (if sr_id r = i then r # for_task i rs else for_task i rs)"
  "for_task i (xs @ ys) = for_task i xs @ for_task i ys"
  by (simp_all add: for_task_def)

lemma take_result_wanted: "take_result ids rs = Some (r, rest) \<Longrightarrow> sr_id r \<in> ids"
  by (induction rs arbitrary: rest) (auto split: if_splits option.splits)

lemma take_result_for_task:
  "take_result ids rs = Some (r, rest) \<Longrightarrow> for_task i rs = for_task i [r] @ for_task i rest"
  by (induction rs arbitrary: rest) (auto dest: take_result_wanted split: if_splits option.splits)

lemma take_result_rest: "take_result ids rs = Some (r, rest) \<Longrightarrow> for_task i rs = [] \<Longrightarrow> for_task i rest = []"
  using take_result_for_task [of ids rs r rest i] by simp

lemma take_result_None: "take_result ids rs = None \<longleftrightarrow> (\<forall>r \<in> set rs. sr_id r \<notin> ids)"
  by (induction rs) (auto split: option.splits)

lemma response_poll_for_task:
  assumes "response_poll ids b rs = Inr (x, rs')"
  shows "sp_waiting rs' = sp_waiting rs"
    "for_task i (sp_results rs) = (case x of Got r \<Rightarrow> for_task i [r] | _ \<Rightarrow> []) @ for_task i (sp_results rs')"
    "sp_results_legacy rs' = sp_results_legacy rs"
  using assms by (auto simp: response_poll_def dest: take_result_for_task [where i = i] simp del: for_task_simps(2) split: option.splits if_splits)

section \<open>Late registration\<close>

text \<open>A request of the older interface that has not been answered and to which nothing more is sent.\<close>

fun silent :: "int \<Rightarrow> 'r response_op \<Rightarrow> bool" where
  "silent i (Send_Legacy r) = (sr_id r \<noteq> i)"
| "silent i _ = True"

lemma send_to_other:
  "sr_id r \<noteq> i \<Longrightarrow> send_to ids r (rs, q) = (rs', q') \<Longrightarrow> for_task i (sp_results_legacy rs') = for_task i (sp_results_legacy rs)"
  by (induction ids arbitrary: q) (auto split: if_splits)

lemma send_to_unregistered:
  "sr_id r \<notin> set ids \<Longrightarrow> send_to ids r (rs, q) = (rs', q') \<Longrightarrow> rs' = rs"
  by (induction ids arbitrary: q) (auto split: if_splits)

lemma send_to_registered:
  "sr_id r \<in> set ids \<Longrightarrow> sr_id_multi r \<noteq> sr_id r \<Longrightarrow> send_to ids r (rs, q) = (rs', q') \<Longrightarrow>
     rs' = rs\<lparr>sp_results_legacy := sp_results_legacy rs @ [r]\<rparr>"
  by (induction ids arbitrary: q) (auto split: if_splits)

lemma for_task_Nil_iff: "for_task i rs = [] \<longleftrightarrow> (\<forall>r \<in> set rs. sr_id r \<noteq> i)"
  by (auto simp: for_task_def filter_empty_conv)

lemma recv_nothing: "for_task i (sp_results_legacy rs) = [] \<Longrightarrow> response_recv i rs = Inr None"
  by (auto simp: response_recv_def for_task_Nil_iff take_result_None split: option.splits dest: take_result_wanted)
     (metis option.distinct(1) singletonD take_result_None)

section \<open>Mailboxes\<close>

lemma send_legacy_delivers:
  assumes "response_send_legacy r (rs, q) = (rs', q')" and "finite (sp_waiting rs)"
  shows "sp_waiting rs' = sp_waiting rs" and "sp_results rs' = sp_results rs"
    and "for_task i (sp_results_legacy rs') = for_task i (sp_results_legacy rs)
      @ (if i \<in> sp_waiting rs \<and> sr_id r = i \<and> sr_id_multi r \<noteq> i then [r] else [])"
proof -
  let ?w = "sorted_list_of_set (sp_waiting rs)"
  have st: "send_to ?w r (rs, q) = (rs', q')" and w: "set ?w = sp_waiting rs"
    using assms by (simp_all add: response_send_legacy_def)
  have frame: "send_to ids r (rs1, q1) = (rs2, q2) \<Longrightarrow> sp_waiting rs2 = sp_waiting rs1 \<and> sp_results rs2 = sp_results rs1"
    for ids and rs1 rs2 :: "'a server_response" and q1 q2 :: "('b, 'a) server_queue"
    by (induction ids arbitrary: q1) (auto split: if_splits)
  from frame [OF st] show "sp_waiting rs' = sp_waiting rs" "sp_results rs' = sp_results rs" by simp_all
  consider "sr_id r \<notin> sp_waiting rs" | "sr_id r \<in> sp_waiting rs" "sr_id_multi r \<noteq> sr_id r"
    | "sr_id_multi r = sr_id r" by blast
  then show "for_task i (sp_results_legacy rs') = for_task i (sp_results_legacy rs)
      @ (if i \<in> sp_waiting rs \<and> sr_id r = i \<and> sr_id_multi r \<noteq> i then [r] else [])"
  proof cases
    case 1
    then have "sr_id r \<notin> set ?w" by (simp only: w not_False_eq_True)
    from send_to_unregistered [OF this st] 1 show ?thesis by auto
  next
    case 2
    then have "sr_id r \<in> set ?w" by (simp only: w)
    from send_to_registered [OF this 2(2) st] 2 show ?thesis by auto
  next
    case 3
    have "send_to ids r (rs1, q1) = (rs2, q2) \<Longrightarrow> rs2 = rs1"
      for ids and rs1 rs2 :: "'a server_response" and q1 q2 :: "('b, 'a) server_queue"
      using 3 by (induction ids arbitrary: q1) (auto split: if_splits)
    from this [OF st] 3 show ?thesis by simp
  qed
qed

lemma response_exec_mailbox:
  assumes "response_exec op s = Inr s'" and "finite (sp_waiting (rq_response s))"
  shows "finite (sp_waiting (rq_response s'))" and "i \<in> sp_waiting (rq_response s') \<longleftrightarrow> registered i (i \<in> sp_waiting (rq_response s)) op"
    and "for_task i (rq_received s') @ for_task i (sp_results (rq_response s')) =
      for_task i (rq_received s) @ for_task i (sp_results (rq_response s)) @ (if i \<in> sp_waiting (rq_response s) then sent i op else [])"
    and "for_task i (rq_received_legacy s') @ for_task i (sp_results_legacy (rq_response s')) =
      for_task i (rq_received_legacy s) @ for_task i (sp_results_legacy (rq_response s))
        @ (if i \<in> sp_waiting (rq_response s) then sent_legacy i op else [])"
proof -
  have "finite (sp_waiting (rq_response s')) \<and> (i \<in> sp_waiting (rq_response s') \<longleftrightarrow> registered i (i \<in> sp_waiting (rq_response s)) op)
    \<and> for_task i (rq_received s') @ for_task i (sp_results (rq_response s')) =
      for_task i (rq_received s) @ for_task i (sp_results (rq_response s)) @ (if i \<in> sp_waiting (rq_response s) then sent i op else [])
    \<and> for_task i (rq_received_legacy s') @ for_task i (sp_results_legacy (rq_response s')) =
      for_task i (rq_received_legacy s) @ for_task i (sp_results_legacy (rq_response s))
        @ (if i \<in> sp_waiting (rq_response s) then sent_legacy i op else [])"
  proof (cases op)
    case (Poll ids b)
    with assms(1) obtain x rs where p: "response_poll ids b (rq_response s) = Inr (x, rs)"
      "s' = s\<lparr>rq_response := rs, rq_received := (case x of Got r \<Rightarrow> rq_received s @ [r] | _ \<Rightarrow> rq_received s)\<rparr>"
      by (auto simp: ebind_Inr_iff)
    from response_poll_for_task(1,3) [OF p(1)] response_poll_for_task(2) [OF p(1), of i] assms(2) Poll show ?thesis
      by (auto simp: p(2) split: polled.splits)
  next
    case (Send_Legacy r)
    obtain rs q where q: "response_send_legacy r (rq_response s, rq_queue s) = (rs, q)" by fastforce
    with assms(1) Send_Legacy have "s' = s\<lparr>rq_response := rs, rq_queue := q\<rparr>" by simp
    with send_legacy_delivers [OF q assms(2)] assms(2) Send_Legacy show ?thesis by auto
  next
    case (Recv j)
    show ?thesis
    proof (cases "take_result {j} (sp_results_legacy (rq_response s))")
      case None
      with assms Recv show ?thesis by (simp add: response_recv_def)
    next
      case (Some x)
      then obtain a b where x: "take_result {j} (sp_results_legacy (rq_response s)) = Some (a, b)" by (cases x) simp
      have "s' = s\<lparr>rq_response := (rq_response s)\<lparr>sp_results_legacy := b\<rparr>, rq_received_legacy := rq_received_legacy s @ [a]\<rparr>"
        using assms(1) Recv x by (auto simp: response_recv_def split: if_splits)
      with take_result_for_task [OF x, of i] assms(2) Recv show ?thesis by simp
    qed
  qed (use assms in \<open>auto simp: add_waiting_task_id_def add_waiting_tasks_def remove_waiting_task_id_def remove_waiting_task_ids_def
         response_send_def response_terminate_def o_def split: if_splits\<close>)
  then show "finite (sp_waiting (rq_response s'))" "i \<in> sp_waiting (rq_response s') \<longleftrightarrow> registered i (i \<in> sp_waiting (rq_response s)) op"
    "for_task i (rq_received s') @ for_task i (sp_results (rq_response s')) =
      for_task i (rq_received s) @ for_task i (sp_results (rq_response s)) @ (if i \<in> sp_waiting (rq_response s) then sent i op else [])"
    "for_task i (rq_received_legacy s') @ for_task i (sp_results_legacy (rq_response s')) =
      for_task i (rq_received_legacy s) @ for_task i (sp_results_legacy (rq_response s))
        @ (if i \<in> sp_waiting (rq_response s) then sent_legacy i op else [])" by blast+
qed

lemma response_run_mailbox:
  "response_run ops s = Inr s' \<Longrightarrow> finite (sp_waiting (rq_response s)) \<Longrightarrow>
     for_task i (rq_received s') @ for_task i (sp_results (rq_response s')) =
       for_task i (rq_received s) @ for_task i (sp_results (rq_response s)) @ mailbox (sent i) i (i \<in> sp_waiting (rq_response s)) ops
     \<and> for_task i (rq_received_legacy s') @ for_task i (sp_results_legacy (rq_response s')) =
       for_task i (rq_received_legacy s) @ for_task i (sp_results_legacy (rq_response s))
         @ mailbox (sent_legacy i) i (i \<in> sp_waiting (rq_response s)) ops"
proof (induction ops arbitrary: s)
  case (Cons op ops)
  from Cons.prems(1) obtain s1 where s1: "response_exec op s = Inr s1" "response_run ops s1 = Inr s'"
    by (auto simp: ebind_Inr_iff)
  note ex = response_exec_mailbox [OF s1(1) Cons.prems(2)]
  from Cons.IH [OF s1(2) ex(1)] ex(2) [of i] ex(3,4) [of i] show ?case by simp
qed simp

lemma silent_exec:
  assumes "silent i op" "response_exec op s = Inr s'" "for_task i (sp_results_legacy (rq_response s)) = []"
  shows "for_task i (sp_results_legacy (rq_response s')) = []"
proof (cases op)
  case (Send_Legacy r)
  with assms show ?thesis
    by (auto simp: response_send_legacy_def split: prod.splits dest: send_to_other)
next
  case (Recv j)
  show ?thesis
  proof (cases "take_result {j} (sp_results_legacy (rq_response s))")
    case None
    with assms(2,3) Recv show ?thesis by (simp add: response_recv_def)
  next
    case (Some x)
    then obtain a b where x: "take_result {j} (sp_results_legacy (rq_response s)) = Some (a, b)" by (cases x) simp
    have "s' = s\<lparr>rq_response := (rq_response s)\<lparr>sp_results_legacy := b\<rparr>, rq_received_legacy := rq_received_legacy s @ [a]\<rparr>"
      using assms(2) Recv x by (auto simp: response_recv_def split: if_splits)
    with take_result_rest [OF x assms(3)] show ?thesis by simp
  qed
next
  case (Poll ids b)
  with assms(2,3) show ?thesis
    by (auto simp: ebind_Inr_iff response_poll_def split: option.splits if_splits)
qed (use assms in \<open>auto simp: add_waiting_task_id_def add_waiting_tasks_def remove_waiting_task_id_def remove_waiting_task_ids_def
         response_send_def response_terminate_def split: if_splits\<close>)

lemma silent_run:
  "list_all (silent i) ops \<Longrightarrow> response_run ops s = Inr s' \<Longrightarrow> for_task i (sp_results_legacy (rq_response s)) = []
     \<Longrightarrow> for_task i (sp_results_legacy (rq_response s')) = []"
proof (induction ops arbitrary: s)
  case (Cons op ops)
  then show ?case by (auto simp: ebind_Inr_iff dest: silent_exec)
qed simp

section \<open>Properties\<close>

text \<open>
  C15. Under every order of the operations of all threads, the older interface and the newer one mixed: what has been
  received for a task followed by what is ready for it is exactly what was sent while the task was registered, in
  the order it was sent, in each of the two interfaces (in the older one, results that name the task as their own
  multitask go to the multitask). Results of a registered task are neither lost nor doubled nor reordered; anything
  sent to an unregistered task is dropped.
\<close>

theorem response_is_mailbox:
  fixes s :: "('p, 'r) response_sys"
  assumes "response_run ops \<lparr>rq_response = response_new, rq_queue = q, rq_received = [], rq_received_legacy = []\<rparr> = Inr s"
  shows "for_task i (rq_received s) @ for_task i (sp_results (rq_response s)) = mailbox (sent i) i False ops
    \<and> for_task i (rq_received_legacy s) @ for_task i (sp_results_legacy (rq_response s)) = mailbox (sent_legacy i) i False ops"
  using response_run_mailbox [OF assms, of i] by (simp add: response_new_def)

definition sample_result :: "int \<Rightarrow> int \<Rightarrow> int server_task_result" where
  "sample_result i x = \<lparr>sr_id = i, sr_id_multi = -1, sr_payload = x\<rparr>"

definition empty_queue :: "(unit, int) server_queue" where
  "empty_queue = qs_queue (queue_start False)"

definition sample_ops :: "int response_op list" where
  "sample_ops = [Send (sample_result 4 9), Register_All [4, 5], Send (sample_result 5 1), Send (sample_result 4 2),
     Send_Legacy (sample_result 4 6), Poll {4} False, Send (sample_result 4 3), Recv 4, Unregister 4, Send (sample_result 4 7),
     Send_Legacy (sample_result 4 8)]"

theorem response_is_mailbox_witness:
  "case response_run sample_ops \<lparr>rq_response = response_new, rq_queue = empty_queue, rq_received = [], rq_received_legacy = []\<rparr> of
     Inl e \<Rightarrow> False
   | Inr s \<Rightarrow> for_task 4 (rq_received s) @ for_task 4 (sp_results (rq_response s)) = [sample_result 4 2, sample_result 4 3]
       \<and> for_task 4 (rq_received_legacy s) @ for_task 4 (sp_results_legacy (rq_response s)) = [sample_result 4 6]"
proof -
  note m = response_is_mailbox [where ops = sample_ops and q = empty_queue and i = 4]
  have "mailbox (sent 4) 4 False sample_ops = [sample_result 4 2, sample_result 4 3]"
    "mailbox (sent_legacy 4) 4 False sample_ops = [sample_result 4 6]"
    by (simp_all add: sample_ops_def sample_result_def)
  moreover obtain s where
    "response_run sample_ops \<lparr>rq_response = response_new, rq_queue = empty_queue, rq_received = [], rq_received_legacy = []\<rparr> = Inr s"
    by (simp add: sample_ops_def sample_result_def response_new_def response_send_def response_poll_def response_send_legacy_def
      response_recv_def add_waiting_tasks_def remove_waiting_task_id_def)
  ultimately show ?thesis using m by simp
qed

text \<open>
  C25. A request that posts its task before it registers can wait for ever: when the result is sent before the
  registration it is dropped, and whatever the other threads do afterwards the request receives nothing unless
  another result is sent for its task. Several handlers of \<open>server.cpp\<close> post first.
\<close>

theorem late_registration_waits:
  fixes s s' :: "('p, 'r) response_sys"
  assumes unregistered: "sr_id r \<notin> sp_waiting (rq_response s)" and finite: "finite (sp_waiting (rq_response s))"
    and none_yet: "for_task (sr_id r) (sp_results_legacy (rq_response s)) = []"
    and silent: "list_all (silent (sr_id r)) ops"
    and run: "response_run (Send_Legacy r # Register (sr_id r) # ops) s = Inr s'"
  shows "response_recv (sr_id r) (rq_response s') = Inr None"
proof -
  obtain rs q where sent: "response_send_legacy r (rq_response s, rq_queue s) = (rs, q)" by fastforce
  then have "rs = rq_response s" using unregistered finite
    by (auto simp: response_send_legacy_def dest: send_to_unregistered [rotated])
  with sent run have r': "response_run ops (s\<lparr>rq_queue := q, rq_response := add_waiting_task_id (sr_id r) (rq_response s)\<rparr>) = Inr s'"
    by simp
  have "for_task (sr_id r) (sp_results_legacy (rq_response s')) = []"
    by (rule silent_run [OF silent r']) (simp add: add_waiting_task_id_def none_yet)
  then show ?thesis by (rule recv_nothing)
qed

theorem late_registration_waits_witness:
  "\<exists>s'. response_run [Send_Legacy (sample_result 3 1), Register 3, Recv 3, Send_Legacy (sample_result 8 1)]
      \<lparr>rq_response = response_new, rq_queue = empty_queue, rq_received = [], rq_received_legacy = []\<rparr> = Inr s'
    \<and> response_recv 3 (rq_response s') = Inr None"
proof -
  obtain s' where r: "response_run [Send_Legacy (sample_result 3 1), Register 3, Recv 3, Send_Legacy (sample_result 8 1)]
      \<lparr>rq_response = response_new, rq_queue = empty_queue, rq_received = [], rq_received_legacy = []\<rparr> = Inr s'"
    by (simp add: response_new_def response_send_legacy_def add_waiting_task_id_def response_recv_def sample_result_def)
  have i: "sr_id (sample_result 3 1) = 3" "sr_id (sample_result 8 1) = 8" by (simp_all add: sample_result_def)
  from late_registration_waits [of "sample_result 3 1" "\<lparr>rq_response = response_new, rq_queue = empty_queue, rq_received = [], rq_received_legacy = []\<rparr>"
      "[Recv 3, Send_Legacy (sample_result 8 1)]" s'] r
  show ?thesis by (simp add: i response_new_def)
qed

text \<open>
  With the registration first, as the other handlers have it, the result of the older interface is there when it is asked for.
\<close>

theorem early_registration_receives:
  fixes s :: "('p, 'r) response_sys"
  assumes "finite (sp_waiting (rq_response s))" "for_task (sr_id r) (sp_results_legacy (rq_response s)) = []" "sr_id_multi r = -1" "0 \<le> sr_id r"
    and "response_run [Register (sr_id r), Send_Legacy r] s = Inr s'"
  shows "\<exists>rs. response_recv (sr_id r) (rq_response s') = Inr (Some (r, rs))"
proof -
  let ?w = "sorted_list_of_set (insert (sr_id r) (sp_waiting (rq_response s)))"
  obtain rs q where sent: "send_to ?w r (add_waiting_task_id (sr_id r) (rq_response s), rq_queue s) = (rs, q)" by fastforce
  have "sr_id r \<in> set ?w" using assms(1) by (simp only: set_sorted_list_of_set finite_insert insertI1)
  from send_to_registered [OF this _ sent] have rs: "rs = (add_waiting_task_id (sr_id r) (rq_response s))\<lparr>sp_results_legacy := sp_results_legacy (rq_response s) @ [r]\<rparr>"
    using assms(3,4) by (simp add: add_waiting_task_id_def)
  have "take_result {sr_id r} (xs @ [r]) = Some (r, xs)" if "for_task (sr_id r) xs = []" for xs
    using that by (induction xs) (auto split: if_splits)
  with assms(2,3,5) sent rs show ?thesis
    by (auto simp: response_send_legacy_def add_waiting_task_id_def response_recv_def)
qed

theorem early_registration_receives_witness:
  "\<exists>s' rs. response_run [Register 3, Send_Legacy (sample_result 3 1)]
      \<lparr>rq_response = response_new, rq_queue = empty_queue, rq_received = [], rq_received_legacy = []\<rparr> = Inr s'
    \<and> response_recv 3 (rq_response s') = Inr (Some (sample_result 3 1, rs))"
proof -
  obtain s' where r: "response_run [Register 3, Send_Legacy (sample_result 3 1)]
      \<lparr>rq_response = response_new, rq_queue = empty_queue, rq_received = [], rq_received_legacy = []\<rparr> = Inr s'"
    by (simp add: response_new_def response_send_legacy_def add_waiting_task_id_def sample_result_def)
  have i: "sr_id (sample_result 3 1) = 3" "sr_id_multi (sample_result 3 1) = -1" by (simp_all add: sample_result_def)
  from early_registration_receives [of "\<lparr>rq_response = response_new, rq_queue = empty_queue, rq_received = [], rq_received_legacy = []\<rparr>" "sample_result 3 1" s'] r
  show ?thesis by (simp add: i response_new_def)
qed

end
