(* ===== verification/Tensor_Reload.thy ===== *)
theory Tensor_Reload
  imports Pin_Prelude "HOL-Library.AList"
begin

text \<open>
  Swapping the weights of a running model when their file changes (\<open>src/llama-reload.cpp\<close>,
  \<open>src/llama-reload-info.h\<close>) for tensors that are not split over devices, and the change of type of a split
  tensor. Buffers are a heap with explicit liveness: a write to or a release of a buffer that is not live is an
  error value. A pointer into a buffer is the number of the buffer and an offset. The reader of the file format,
  the table of types, the backends' allocation sizes and their memory are parameters; sizes are natural numbers.
\<close>

section \<open>Tensors\<close>

record type_traits =
  tt_blck :: nat
  tt_size :: nat
  tt_meta :: nat

record tensor_split =
  pl_type :: nat
  pl_ne :: "int list"
  pl_nb :: "nat list"

record split_extra =
  se_dim :: int
  se_splits :: "tensor_split option list"

type_synonym pointer = "nat \<times> nat"

record tensor =
  tn_type :: nat
  tn_ne :: "int list"
  tn_nb :: "nat list"
  tn_buffer :: "nat option"
  tn_data :: "pointer option"
  tn_view :: bool
  tn_extra :: "split_extra option"

definition GGML_TYPE_I2_S :: nat where "GGML_TYPE_I2_S = 36"

definition ggml_row_size :: "(nat \<Rightarrow> type_traits) \<Rightarrow> nat \<Rightarrow> int \<Rightarrow> nat" where
  "ggml_row_size tr ty ne = tt_meta (tr ty) + tt_size (tr ty) * nat ne div tt_blck (tr ty)"

fun span_bytes :: "int list \<Rightarrow> nat list \<Rightarrow> nat" where
  "span_bytes (n # ne) (b # nb) = nat (n - 1) * b + span_bytes ne nb"
| "span_bytes _ _ = 0"

definition bytes_of :: "(nat \<Rightarrow> type_traits) \<Rightarrow> nat \<Rightarrow> int list \<Rightarrow> nat list \<Rightarrow> nat" where
  "bytes_of tr ty ne nb = (if list_ex (\<lambda>n. n \<le> 0) ne then 0
     else if tt_blck (tr ty) = 1 then
       (let n = tt_size (tr ty) + span_bytes ne nb in if ty = GGML_TYPE_I2_S then n div 4 + 32 else n)
     else ggml_row_size tr ty (hd ne) + span_bytes (tl ne) (tl nb))"

definition ggml_nbytes :: "(nat \<Rightarrow> type_traits) \<Rightarrow> tensor \<Rightarrow> nat" where
  "ggml_nbytes tr t = bytes_of tr (tn_type t) (tn_ne t) (tn_nb t)"

text \<open>The strides of a fresh tensor of some dimensions; there has to be one.\<close>

definition n_dims :: "int list \<Rightarrow> nat" where
  "n_dims ne = length (dropWhile (\<lambda>n. n = 1) (rev ne))"

definition new_strides :: "(nat \<Rightarrow> type_traits) \<Rightarrow> nat \<Rightarrow> nat \<Rightarrow> int list \<Rightarrow> nat list throws" where
  "new_strides tr ty dims ne =
     (if dims = 0 then Inl ''assert''
      else let ne = take dims ne @ replicate (4 - dims) 1; row = ggml_row_size tr ty (hd ne) in
        Inr [tt_size (tr ty), row, row * nat (ne ! 1), row * nat (ne ! 1) * nat (ne ! 2)])"

section \<open>Parts of a tensor\<close>

text \<open>The loader gives every device with a positive share its part, and adds up the memory per device.\<close>

definition part_dims :: "int \<Rightarrow> int list \<Rightarrow> int \<Rightarrow> int list" where
  "part_dims d ne k = (if d < 0 then [ne ! 0, ne ! 1, ne ! 2, 1] else if d = 1 then [ne ! 0, k, ne ! 2, 1]
     else if d = 2 then [ne ! 0, ne ! 1, k, 1] else [k, ne ! 1, ne ! 2, 1])"

definition new_part :: "(nat \<Rightarrow> type_traits) \<Rightarrow> int \<Rightarrow> tensor \<Rightarrow> int \<Rightarrow> tensor_split option throws" where
  "new_part tr d t k = (if k > 0
     then ebind (new_strides tr (tn_type t) 3 (part_dims d (tn_ne t) k)) (\<lambda>nb. Inr (Some \<lparr>pl_type = tn_type t, pl_ne = part_dims d (tn_ne t) k, pl_nb = nb\<rparr>))
     else Inr None)"

definition prepare_split_tensors :: "(nat \<Rightarrow> type_traits) \<Rightarrow> int \<Rightarrow> tensor \<Rightarrow> int list \<Rightarrow> nat list \<Rightarrow> (tensor \<times> nat list) throws" where
  "prepare_split_tensors tr d t shares mem_used =
     (if d > 2 \<or> length shares \<le> 1 then Inl ''assert''
      else ebind (emap (new_part tr d t) shares) (\<lambda>ps. if length mem_used < length shares then Inl ''assert''
        else Inr (t\<lparr>tn_extra := Some \<lparr>se_dim = d, se_splits = ps\<rparr>\<rparr>,
          map2 (\<lambda>m p. case p of None \<Rightarrow> m | Some s \<Rightarrow> m + bytes_of tr (pl_type s) (pl_ne s) (pl_nb s)) (take (length shares) mem_used) ps @ drop (length shares) mem_used)))"

section \<open>Change of type\<close>

text \<open>The ends of the parts along the first dimension, rounded up to whole blocks but for the last.\<close>

fun part_ends :: "int \<Rightarrow> tensor_split option list \<Rightarrow> int list" where
  "part_ends acc [] = []"
| "part_ends acc (p # ps) = (let acc = (case p of None \<Rightarrow> acc | Some s \<Rightarrow> acc + hd (pl_ne s)) in acc # part_ends acc ps)"

definition round_up :: "int \<Rightarrow> int \<Rightarrow> int" where
  "round_up bs b = (if b > 0 then ((b + bs - 1) div bs) * bs else b)"

fun running_max :: "int \<Rightarrow> int list \<Rightarrow> int list" where
  "running_max m [] = []"
| "running_max m (b # bs) = (let b = (if b < m then m else b) in b # running_max b bs)"

definition split_bounds :: "int \<Rightarrow> int \<Rightarrow> tensor_split option list \<Rightarrow> int list" where
  "split_bounds bs n ps = (case map (round_up bs) (butlast (part_ends 0 ps)) @ [n] of [] \<Rightarrow> [] | b # bounds \<Rightarrow> b # running_max b bounds)"

fun cut_parts :: "int \<Rightarrow> int list \<Rightarrow> tensor_split option list \<Rightarrow> tensor_split option list" where
  "cut_parts prev (b # bounds) (p # ps) =
     (case p of None \<Rightarrow> None | Some s \<Rightarrow> if b - prev \<le> 0 then None else Some (s\<lparr>pl_ne := (b - prev) # tl (pl_ne s)\<rparr>)) # cut_parts b bounds ps"
| "cut_parts prev _ _ = []"

definition retype_part :: "(nat \<Rightarrow> type_traits) \<Rightarrow> nat \<Rightarrow> nat \<Rightarrow> tensor_split option \<Rightarrow> tensor_split option throws" where
  "retype_part tr ty dims p = (case p of None \<Rightarrow> Inr None
     | Some s \<Rightarrow> ebind (new_strides tr ty dims (pl_ne s)) (\<lambda>nb. Inr (Some (s\<lparr>pl_type := ty, pl_nb := nb\<rparr>))))"

definition part_sum :: "tensor_split option list \<Rightarrow> int" where
  "part_sum ps = sum_list (map (\<lambda>p. case p of None \<Rightarrow> 0 | Some s \<Rightarrow> hd (pl_ne s)) ps)"

definition retype_parts :: "(nat \<Rightarrow> type_traits) \<Rightarrow> nat \<Rightarrow> int list \<Rightarrow> split_extra \<Rightarrow> split_extra throws" where
  "retype_parts tr ty ne e =
     (let ps = (if tt_blck (tr ty) > 1 \<and> se_dim e = 0
         then cut_parts 0 (split_bounds (int (tt_blck (tr ty))) (hd ne) (se_splits e)) (se_splits e) else se_splits e)
      in ebind (emap (retype_part tr ty (n_dims ne)) ps) (\<lambda>ps.
         if part_sum ps = hd ne then Inr (e\<lparr>se_splits := ps\<rparr>) else Inl ''assert''))"

definition apply_tensor_type_change :: "(nat \<Rightarrow> type_traits) \<Rightarrow> nat \<Rightarrow> tensor \<Rightarrow> tensor throws" where
  "apply_tensor_type_change tr ty t =
     ebind (new_strides tr ty (n_dims (tn_ne t)) (tn_ne t)) (\<lambda>nb. let t = t\<lparr>tn_type := ty, tn_nb := nb\<rparr> in
       (case tn_extra t of None \<Rightarrow> Inr t
        | Some e \<Rightarrow> ebind (retype_parts tr ty (tn_ne t) e) (\<lambda>e. Inr (t\<lparr>tn_extra := Some e\<rparr>))))"

section \<open>The state\<close>

datatype reload_state = UNINITIALIZED | ON_ORIGINAL | DETACHED | FALLBACK_CPU

record tensor_reload_source =
  so_path :: string
  so_mtime :: int
  so_mtime_ns :: int
  so_buffer :: "nat option"
  so_data :: "pointer option"
  so_type :: nat
  so_nbytes :: nat
  so_ne :: "int list"
  so_nb :: "nat list"
  so_siblings :: "string list"
  so_state :: reload_state

record backend_buffer =
  bb_buft :: nat
  bb_bytes :: "u8 list"

text \<open>The model's tensors with their names, the sources, the live buffers and the number of allocations tried so far.\<close>

record reload_sys =
  rs_tensors :: "nat \<Rightarrow> tensor"
  rs_names :: "(string \<times> nat) list"
  rs_sources :: "(string \<times> tensor_reload_source) list"
  rs_buffers :: "nat \<rightharpoonup> backend_buffer"
  rs_fresh :: nat
  rs_attempts :: nat
  rs_snapshots_done :: bool

text \<open>A file has the two parts of its modification time and its bytes.\<close>

type_synonym disk = "string \<Rightarrow> (int \<times> int \<times> u8 list) option"

record file_meta =
  fm_offset :: nat
  fm_nbytes :: nat
  fm_type :: nat
  fm_ne :: "int list"

record reload_env =
  en_traits :: "nat \<Rightarrow> type_traits"
  en_alloc_size :: "nat \<Rightarrow> tensor \<Rightarrow> nat"
  en_memory :: "nat \<Rightarrow> nat \<Rightarrow> nat \<Rightarrow> u8 list option"
  en_mapped :: "pointer \<Rightarrow> bool"
  en_gguf :: "u8 list \<Rightarrow> string \<Rightarrow> file_meta option"
  en_khad :: bool
  en_bitnet :: bool
  en_openpangu :: bool
  en_split_path :: "nat \<Rightarrow> string \<Rightarrow> u8 list \<Rightarrow> bool \<Rightarrow> nat option \<Rightarrow> reload_sys \<Rightarrow> (bool \<times> reload_sys) throws"

definition cpu_buft :: nat where "cpu_buft = 0"

definition upd_tensor :: "nat \<Rightarrow> (tensor \<Rightarrow> tensor) \<Rightarrow> reload_sys \<Rightarrow> reload_sys" where
  "upd_tensor i f s = s\<lparr>rs_tensors := (rs_tensors s)(i := f (rs_tensors s i))\<rparr>"

definition upd_source :: "string \<Rightarrow> (tensor_reload_source \<Rightarrow> tensor_reload_source) \<Rightarrow> reload_sys \<Rightarrow> reload_sys" where
  "upd_source name f s = s\<lparr>rs_sources := map (\<lambda>(n, x). (n, if n = name then f x else x)) (rs_sources s)\<rparr>"

definition find_tensor :: "string \<Rightarrow> reload_sys \<Rightarrow> nat option" where
  "find_tensor name s = map_of (rs_names s) name"

section \<open>Buffers\<close>

definition buffer_free :: "nat \<Rightarrow> reload_sys \<Rightarrow> reload_sys throws" where
  "buffer_free b s = (if rs_buffers s b = None then Inl ''freed twice'' else Inr (s\<lparr>rs_buffers := (rs_buffers s)(b := None)\<rparr>))"

definition buft_alloc_buffer :: "reload_env \<Rightarrow> nat \<Rightarrow> nat \<Rightarrow> reload_sys \<Rightarrow> nat option \<times> reload_sys" where
  "buft_alloc_buffer env buft n s = (let s' = s\<lparr>rs_attempts := Suc (rs_attempts s)\<rparr> in
     (case en_memory env (rs_attempts s) buft n of None \<Rightarrow> (None, s')
      | Some bytes \<Rightarrow> (Some (rs_fresh s), s'\<lparr>rs_buffers := (rs_buffers s)(rs_fresh s \<mapsto> \<lparr>bb_buft = buft, bb_bytes = bytes\<rparr>), rs_fresh := Suc (rs_fresh s)\<rparr>)))"

definition alloc_buffer_fallback :: "reload_env \<Rightarrow> nat \<Rightarrow> nat \<Rightarrow> reload_sys \<Rightarrow> nat option \<times> reload_sys" where
  "alloc_buffer_fallback env buft n s = (case buft_alloc_buffer env buft n s of
       (Some b, s) \<Rightarrow> (Some b, s)
     | (None, s) \<Rightarrow> if buft = cpu_buft then (None, s) else buft_alloc_buffer env cpu_buft n s)"

definition backend_tensor_alloc :: "reload_env \<Rightarrow> nat \<Rightarrow> nat \<Rightarrow> reload_sys \<Rightarrow> reload_sys throws" where
  "backend_tensor_alloc env b i s = (let t = rs_tensors s i in
     (case rs_buffers s b of None \<Rightarrow> Inl ''use after free'' | Some buf \<Rightarrow>
       if tn_buffer t \<noteq> None \<or> tn_data t \<noteq> None \<or> tn_view t \<or> \<not> en_alloc_size env (bb_buft buf) t \<le> length (bb_bytes buf) then Inl ''assert''
       else Inr (upd_tensor i (\<lambda>t. t\<lparr>tn_buffer := Some b, tn_data := Some (b, 0)\<rparr>) s)))"

definition write_bytes :: "pointer \<Rightarrow> u8 list \<Rightarrow> reload_sys \<Rightarrow> reload_sys throws" where
  "write_bytes = (\<lambda>(b, off) bytes s. (case rs_buffers s b of None \<Rightarrow> Inl ''use after free'' | Some buf \<Rightarrow>
     if off + length bytes \<le> length (bb_bytes buf)
     then Inr (s\<lparr>rs_buffers := (rs_buffers s)(b \<mapsto> buf\<lparr>bb_bytes := take off (bb_bytes buf) @ bytes @ drop (off + length bytes) (bb_bytes buf)\<rparr>)\<rparr>)
     else Inl ''write out of bounds''))"

definition backend_tensor_set :: "reload_env \<Rightarrow> nat \<Rightarrow> u8 list \<Rightarrow> reload_sys \<Rightarrow> reload_sys throws" where
  "backend_tensor_set env i bytes s = (let t = rs_tensors s i in
     (case (tn_buffer t, tn_data t) of
        (Some b, Some p) \<Rightarrow>
          if \<not> length bytes \<le> ggml_nbytes (en_traits env) t then Inl ''assert''
          else if bytes = [] then Inr s
          else if rs_buffers s b = None then Inl ''use after free'' else write_bytes p bytes s
      | _ \<Rightarrow> Inl ''assert''))"

definition tensor_data_in_mmap :: "reload_env \<Rightarrow> pointer option \<Rightarrow> bool" where
  "tensor_data_in_mmap env p = (case p of None \<Rightarrow> False | Some p \<Rightarrow> en_mapped env p)"

section \<open>What cannot be swapped\<close>

fun find_sub :: "string \<Rightarrow> string \<Rightarrow> nat option" where
  "find_sub pat [] = (if pat = [] then Some 0 else None)"
| "find_sub pat (c # s) = (if prefix pat (c # s) then Some 0 else map_option Suc (find_sub pat s))"

definition has_sub :: "string \<Rightarrow> string \<Rightarrow> bool" where
  "has_sub pat s \<longleftrightarrow> find_sub pat s \<noteq> None"

definition hotswap_unsupported :: "reload_env \<Rightarrow> string \<Rightarrow> tensor \<Rightarrow> bool" where
  "hotswap_unsupported env n t \<longleftrightarrow> tn_view t
    \<or> en_khad env \<and> (has_sub ''.attn_k_b.weight'' n \<or> has_sub ''.attn_v_b.weight'' n \<or> has_sub ''.attn_kv_b.weight'' n)
    \<or> has_sub ''.ffn_gate_inp_s.'' n
    \<or> en_bitnet env \<and> length n > 6 \<and> suffix ''.scale'' n
    \<or> en_openpangu env \<and> (has_sub ''param_sink'' n \<or> has_sub ''.attn_kv_a_norm.'' n)"

section \<open>Sources and snapshots\<close>

definition moe_suffixes :: "string list" where
  "moe_suffixes = [''.ffn_down_exps.weight'', ''.ffn_up_exps.weight'', ''.ffn_gate_exps.weight'']"

fun siblings_by :: "string list \<Rightarrow> string \<Rightarrow> string list" where
  "siblings_by [] n = []"
| "siblings_by (sfx # rest) n = (case find_sub sfx n of None \<Rightarrow> siblings_by rest n
     | Some pos \<Rightarrow> map (\<lambda>x. take pos n @ x) (filter (\<lambda>x. x \<noteq> sfx) moe_suffixes))"

text \<open>The weights of the loader with the file they come from; a file that is not there gives no source.\<close>

definition reload_info_new :: "disk \<Rightarrow> (string \<times> string) list \<Rightarrow> (string \<times> tensor_reload_source) list" where
  "reload_info_new disk weights = fold (\<lambda>(name, path) sources. case disk path of None \<Rightarrow> sources
     | Some (mtime, ns, bytes) \<Rightarrow> AList.update name \<lparr>so_path = path, so_mtime = mtime, so_mtime_ns = ns, so_buffer = None, so_data = None,
         so_type = 0, so_nbytes = 0, so_ne = [], so_nb = [], so_siblings = [], so_state = UNINITIALIZED\<rparr> sources) weights []"

definition snapshot_tensor_source :: "reload_env \<Rightarrow> string \<Rightarrow> tensor \<Rightarrow> tensor_reload_source \<Rightarrow> tensor_reload_source" where
  "snapshot_tensor_source env name t src = (if so_buffer src \<noteq> None then src else
     src\<lparr>so_buffer := tn_buffer t, so_data := tn_data t, so_nbytes := ggml_nbytes (en_traits env) t, so_type := tn_type t,
       so_ne := tn_ne t, so_nb := tn_nb t, so_siblings := so_siblings src @ siblings_by moe_suffixes name, so_state := ON_ORIGINAL\<rparr>)"

definition snapshot_named :: "reload_env \<Rightarrow> string \<Rightarrow> reload_sys \<Rightarrow> reload_sys" where
  "snapshot_named env name s = (case find_tensor name s of None \<Rightarrow> s
     | Some i \<Rightarrow> upd_source name (snapshot_tensor_source env name (rs_tensors s i)) s)"

definition snapshot_all_reload_tensors :: "reload_env \<Rightarrow> reload_sys \<Rightarrow> reload_sys" where
  "snapshot_all_reload_tensors env s = (if rs_snapshots_done s then s else
     let s = fold (snapshot_named env) (map fst (rs_sources s)) (s\<lparr>rs_snapshots_done := True\<rparr>) in
     fold (snapshot_named env) (concat (map (so_siblings \<circ> snd) (rs_sources s))) s)"

section \<open>Swapping\<close>

definition release_buffer :: "nat option \<Rightarrow> tensor_reload_source \<Rightarrow> reload_sys \<Rightarrow> reload_sys throws" where
  "release_buffer old src s = (case old of None \<Rightarrow> Inr s
     | Some b \<Rightarrow> if so_state src \<noteq> ON_ORIGINAL then buffer_free b s else Inr s)"

definition original_tensor :: "tensor_reload_source \<Rightarrow> tensor \<Rightarrow> tensor" where
  "original_tensor src t = t\<lparr>tn_buffer := so_buffer src, tn_data := so_data src, tn_type := so_type src, tn_ne := so_ne src, tn_nb := so_nb src\<rparr>"

definition buffer_type :: "nat option \<Rightarrow> reload_sys \<Rightarrow> nat throws" where
  "buffer_type old s = (case old of None \<Rightarrow> Inr cpu_buft
     | Some b \<Rightarrow> (case rs_buffers s b of None \<Rightarrow> Inl ''use after free'' | Some buf \<Rightarrow> Inr (bb_buft buf)))"

definition reload_tensor_non_split_path :: "reload_env \<Rightarrow> string \<Rightarrow> tensor_reload_source \<Rightarrow> nat \<Rightarrow> u8 list \<Rightarrow> bool \<Rightarrow> nat option \<Rightarrow> reload_sys \<Rightarrow> (bool \<times> reload_sys) throws" where
  "reload_tensor_non_split_path env name src i host returning old s =
     (if returning then
        ebind (release_buffer old src s) (\<lambda>s. let s = upd_tensor i (original_tensor src) s in
        ebind (if host = [] \<or> tensor_data_in_mmap env (tn_data (rs_tensors s i)) then Inr s else backend_tensor_set env i host s) (\<lambda>s.
          Inr (True, upd_source name (\<lambda>x. x\<lparr>so_state := ON_ORIGINAL\<rparr>) s)))
      else
        ebind (buffer_type old s) (\<lambda>buft.
        ebind (release_buffer old src s) (\<lambda>s. let s = upd_tensor i (\<lambda>t. t\<lparr>tn_buffer := None, tn_data := None\<rparr>) s in
        (case alloc_buffer_fallback env buft (en_alloc_size env buft (rs_tensors s i)) s of
           (None, s) \<Rightarrow> Inr (False, s)
         | (Some b, s) \<Rightarrow> ebind (backend_tensor_alloc env b i s) (\<lambda>s. ebind (backend_tensor_set env i host s) (\<lambda>s.
             Inr (True, upd_source name (\<lambda>x. x\<lparr>so_state := DETACHED\<rparr>) s)))))))"

text \<open>Other tensors of the same name get the new bytes when they still have the same type and dimensions.\<close>

fun copy_to_duplicates :: "reload_env \<Rightarrow> string \<Rightarrow> nat \<Rightarrow> u8 list \<Rightarrow> (string \<times> nat) list \<Rightarrow> reload_sys \<Rightarrow> reload_sys throws" where
  "copy_to_duplicates env name i host [] s = Inr s"
| "copy_to_duplicates env name i host ((n, j) # names) s =
     (let dup = rs_tensors s j; t = rs_tensors s i in
      if j \<noteq> i \<and> n = name \<and> tn_type dup = tn_type t \<and> tn_ne dup = tn_ne t \<and> \<not> tn_view dup \<and> tn_buffer dup \<noteq> None \<and> host \<noteq> []
         \<and> \<not> tensor_data_in_mmap env (tn_data dup)
      then ebind (backend_tensor_set env j host s) (copy_to_duplicates env name i host names)
      else copy_to_duplicates env name i host names s)"

text \<open>The bytes read from the file; \<open>None\<close> when they are not all there.\<close>

definition read_tensor :: "u8 list \<Rightarrow> file_meta \<Rightarrow> nat \<Rightarrow> u8 list option" where
  "read_tensor bytes fm need = (if fm_nbytes fm < need then None
     else let host = take need (drop (fm_offset fm) bytes) in if length host = need then Some host else None)"

definition swap_tensor :: "reload_env \<Rightarrow> string \<Rightarrow> tensor_reload_source \<Rightarrow> nat \<Rightarrow> int \<times> int \<times> u8 list \<Rightarrow> file_meta \<Rightarrow> reload_sys \<Rightarrow> (bool \<times> reload_sys) throws" where
  "swap_tensor env name src i file fm s =
     (let old = tn_buffer (rs_tensors s i); returning = (fm_type fm = so_type src); bytes = snd (snd file) in
      if returning \<and> tensor_data_in_mmap env (so_data src) then Inr (False, s)
      else ebind (if \<not> returning \<and> fm_type fm \<noteq> tn_type (rs_tensors s i)
          then ebind (apply_tensor_type_change (en_traits env) (fm_type fm) (rs_tensors s i)) (\<lambda>t. Inr (upd_tensor i (\<lambda>_. t) s))
          else Inr s) (\<lambda>s.
        (case read_tensor bytes fm (if returning then so_nbytes src else ggml_nbytes (en_traits env) (rs_tensors s i)) of
           None \<Rightarrow> Inr (False, s)
         | Some host \<Rightarrow>
           ebind (if tn_extra (rs_tensors s i) \<noteq> None then en_split_path env i name host returning old s
                  else reload_tensor_non_split_path env name src i host returning old s) (\<lambda>(ok, s).
             if ok then ebind (copy_to_duplicates env name i host (rs_names s) s) (\<lambda>s.
               Inr (True, upd_source name (\<lambda>x. x\<lparr>so_mtime := fst file, so_mtime_ns := fst (snd file)\<rparr>) s))
             else Inr (False, s)))))"

definition source_changed :: "disk \<Rightarrow> tensor_reload_source \<Rightarrow> (int \<times> int \<times> u8 list) option" where
  "source_changed disk src = (case disk (so_path src) of None \<Rightarrow> None
     | Some file \<Rightarrow> if fst file \<noteq> so_mtime src \<or> fst (snd file) \<noteq> so_mtime_ns src then Some file else None)"

definition reload_tensor :: "reload_env \<Rightarrow> disk \<Rightarrow> string \<Rightarrow> reload_sys \<Rightarrow> (bool \<times> reload_sys) throws" where
  "reload_tensor env disk name s = (case map_of (rs_sources s) name of None \<Rightarrow> Inr (False, s) | Some src \<Rightarrow>
     (case source_changed disk src of None \<Rightarrow> Inr (False, s) | Some file \<Rightarrow>
     (case en_gguf env (snd (snd file)) name of None \<Rightarrow> Inr (False, s) | Some fm \<Rightarrow>
     (case find_tensor name s of None \<Rightarrow> Inr (False, s) | Some i \<Rightarrow>
       if so_buffer src = None \<or> tn_ne (rs_tensors s i) \<noteq> fm_ne fm \<or> hotswap_unsupported env name (rs_tensors s i)
       then Inr (False, s) else swap_tensor env name src i file fm s))))"

section \<open>All changed tensors\<close>

definition reload_job :: "reload_env \<Rightarrow> disk \<Rightarrow> reload_sys \<Rightarrow> string \<times> tensor_reload_source \<Rightarrow> (string \<times> bool) option" where
  "reload_job env disk s = (\<lambda>(name, src). case source_changed disk src of None \<Rightarrow> None | Some file \<Rightarrow>
     (case en_gguf env (snd (snd file)) name of None \<Rightarrow> None | Some fm \<Rightarrow>
     (case find_tensor name s of None \<Rightarrow> None | Some i \<Rightarrow>
       if tn_ne (rs_tensors s i) \<noteq> fm_ne fm then None else Some (name, fm_type fm = so_type src))))"

fun reload_jobs :: "reload_env \<Rightarrow> disk \<Rightarrow> string list \<Rightarrow> bool \<Rightarrow> reload_sys \<Rightarrow> (bool \<times> reload_sys) throws" where
  "reload_jobs env disk [] r s = Inr (r, s)"
| "reload_jobs env disk (name # names) r s = ebind (reload_tensor env disk name s) (\<lambda>(ok, s). reload_jobs env disk names (r \<or> ok) s)"

text \<open>The unstable sort is any arrangement of each of the two kinds of jobs: those that return first.\<close>

definition reload_changed_tensors :: "reload_env \<Rightarrow> disk \<Rightarrow> (string list \<Rightarrow> string list) \<Rightarrow> reload_sys \<Rightarrow> (bool \<times> reload_sys) throws" where
  "reload_changed_tensors env disk order s = (let s = snapshot_all_reload_tensors env s; jobs = List.map_filter (reload_job env disk s) (rs_sources s) in
     reload_jobs env disk (order (map fst (filter snd jobs)) @ order (map fst (filter (\<lambda>j. \<not> snd j) jobs))) False s)"

end
