(* ===== verification/Reload_Proofs.thy ===== *)
theory Reload_Proofs
  imports Tensor_Reload
begin

text \<open>
  Swapping tensors never releases a buffer twice, never writes outside a live buffer and leaves no buffer
  behind; a swap gives the tensor the bytes of the file and a swap back its old place. What a failed swap
  leaves behind, and the change of type of a tensor split along another dimension, are errors of the code.
\<close>

section \<open>The invariant\<close>

definition buffer_length :: "reload_sys \<Rightarrow> nat \<rightharpoonup> nat" where
  "buffer_length s b = map_option (length \<circ> bb_bytes) (rs_buffers s b)"

text \<open>
  The buffers of the model as it was loaded are \<open>base\<close>. Every other live buffer is held by exactly one tensor.
\<close>

definition heap_ok :: "nat set \<Rightarrow> reload_sys \<Rightarrow> bool" where
  "heap_ok base s \<longleftrightarrow> base \<subseteq> dom (buffer_length s) \<and> (\<forall>b \<in> dom (buffer_length s). b < rs_fresh s)
     \<and> (\<forall>b \<in> dom (buffer_length s) - base. \<exists>i. tn_buffer (rs_tensors s i) = Some b)
     \<and> (\<forall>i b. tn_buffer (rs_tensors s i) = Some b \<longrightarrow> b \<in> dom (buffer_length s))
     \<and> (\<forall>i j b. tn_buffer (rs_tensors s i) = Some b \<longrightarrow> tn_buffer (rs_tensors s j) = Some b \<longrightarrow> b \<notin> base \<longrightarrow> i = j)"

definition in_base :: "nat set \<Rightarrow> reload_sys \<Rightarrow> pointer option \<Rightarrow> nat \<Rightarrow> bool" where
  "in_base base s p n \<longleftrightarrow> (\<exists>b off m. p = Some (b, off) \<and> b \<in> base \<and> buffer_length s b = Some m \<and> off + n \<le> m)"

definition pristine :: "reload_env \<Rightarrow> nat set \<Rightarrow> reload_sys \<Rightarrow> nat \<Rightarrow> bool" where
  "pristine env base s i \<longleftrightarrow> (\<forall>b. tn_buffer (rs_tensors s i) = Some b \<longrightarrow>
     b \<in> base \<and> in_base base s (tn_data (rs_tensors s i)) (ggml_nbytes (en_traits env) (rs_tensors s i)))"

definition at_home :: "reload_state \<Rightarrow> bool" where
  "at_home st \<longleftrightarrow> st = UNINITIALIZED \<or> st = ON_ORIGINAL"

definition source_ok :: "reload_env \<Rightarrow> nat set \<Rightarrow> reload_sys \<Rightarrow> string \<Rightarrow> tensor_reload_source \<Rightarrow> bool" where
  "source_ok env base s n src \<longleftrightarrow>
     (\<forall>ob. so_buffer src = Some ob \<longrightarrow> ob \<in> base \<and> so_nbytes src = bytes_of (en_traits env) (so_type src) (so_ne src) (so_nb src)
        \<and> in_base base s (so_data src) (so_nbytes src) \<and> so_state src \<noteq> UNINITIALIZED)
     \<and> (so_buffer src = None \<longrightarrow> at_home (so_state src))
     \<and> (\<forall>i. find_tensor n s = Some i \<longrightarrow> (so_buffer src = None \<longrightarrow> pristine env base s i)
        \<and> (\<forall>b. tn_buffer (rs_tensors s i) = Some b \<longrightarrow> (b \<in> base \<longleftrightarrow> at_home (so_state src))))"

definition reload_inv :: "reload_env \<Rightarrow> nat set \<Rightarrow> reload_sys \<Rightarrow> bool" where
  "reload_inv env base s \<longleftrightarrow> heap_ok base s \<and> distinct (map fst (rs_sources s))
     \<and> (\<forall>n m j. (n, j) \<in> set (rs_names s) \<longrightarrow> (m, j) \<in> set (rs_names s) \<longrightarrow> n = m)
     \<and> (\<forall>(n, src) \<in> set (rs_sources s). source_ok env base s n src)
     \<and> (\<forall>j. (\<forall>n \<in> fst ` set (rs_sources s). find_tensor n s \<noteq> Some j) \<longrightarrow> pristine env base s j)
     \<and> (\<forall>i. tn_extra (rs_tensors s i) = None)"

text \<open>What the model is handed: memory of the size asked for, and room for a tensor in what is asked for it.\<close>

definition env_ok :: "reload_env \<Rightarrow> bool" where
  "env_ok env \<longleftrightarrow> (\<forall>k buft n bytes. en_memory env k buft n = Some bytes \<longrightarrow> length bytes = n)
     \<and> (\<forall>buft t. ggml_nbytes (en_traits env) t \<le> en_alloc_size env buft t)"

text \<open>The invariant only sees the lengths of the buffers.\<close>

lemma reload_inv_buffers:
  assumes "reload_inv env base s" "rs_tensors s' = rs_tensors s" "rs_names s' = rs_names s" "rs_sources s' = rs_sources s"
    "buffer_length s' = buffer_length s" "rs_fresh s' = rs_fresh s"
  shows "reload_inv env base s'"
  using assms by (simp add: reload_inv_def heap_ok_def source_ok_def pristine_def in_base_def find_tensor_def)

definition same_but_bytes :: "reload_sys \<Rightarrow> reload_sys \<Rightarrow> bool" where
  "same_but_bytes s s' \<longleftrightarrow> rs_tensors s' = rs_tensors s \<and> rs_names s' = rs_names s \<and> rs_sources s' = rs_sources s
     \<and> buffer_length s' = buffer_length s \<and> rs_fresh s' = rs_fresh s"

lemma same_but_bytes_refl [simp]: "same_but_bytes s s"
  by (simp add: same_but_bytes_def)

lemma same_but_bytes_trans: "same_but_bytes s s' \<Longrightarrow> same_but_bytes s' s'' \<Longrightarrow> same_but_bytes s s''"
  by (simp add: same_but_bytes_def)

lemma write_bytes_ok:
  assumes "buffer_length s b = Some m" "off + length bytes \<le> m"
  shows "\<exists>s'. write_bytes (b, off) bytes s = Inr s' \<and> same_but_bytes s s'"
  using assms by (auto simp: write_bytes_def buffer_length_def same_but_bytes_def fun_eq_iff)

lemma tensor_set_ok:
  assumes "tn_buffer (rs_tensors s i) = Some b" "b \<in> dom (buffer_length s)" "tn_data (rs_tensors s i) = Some (b', off)"
    "buffer_length s b' = Some m" "off + ggml_nbytes (en_traits env) (rs_tensors s i) \<le> m"
  shows "(\<exists>s'. backend_tensor_set env i bytes s = Inr s' \<and> same_but_bytes s s') \<or> backend_tensor_set env i bytes s = Inl ''assert''"
proof (cases "length bytes \<le> ggml_nbytes (en_traits env) (rs_tensors s i) \<and> bytes \<noteq> []")
  case True
  then have "off + length bytes \<le> m" using assms(5) by simp
  from write_bytes_ok [OF assms(4) this] obtain s' where "write_bytes (b', off) bytes s = Inr s'" "same_but_bytes s s'" by blast
  moreover have "rs_buffers s b \<noteq> None" using assms(2) by (auto simp: buffer_length_def)
  ultimately show ?thesis using True assms(1,3) by (simp add: backend_tensor_set_def)
next
  case False
  then show ?thesis using assms(1,3) by (auto simp: backend_tensor_set_def)
qed

lemma tensor_set_pristine:
  assumes "heap_ok base s" "pristine env base s i"
  shows "(\<exists>s'. backend_tensor_set env i bytes s = Inr s' \<and> same_but_bytes s s') \<or> backend_tensor_set env i bytes s = Inl ''assert''"
proof (cases "tn_buffer (rs_tensors s i)")
  case None
  then show ?thesis by (simp add: backend_tensor_set_def)
next
  case (Some b)
  with assms(2) obtain b' off m where "b \<in> base" "tn_data (rs_tensors s i) = Some (b', off)" "buffer_length s b' = Some m"
    "off + ggml_nbytes (en_traits env) (rs_tensors s i) \<le> m"
    by (auto simp: pristine_def in_base_def)
  moreover have "b \<in> dom (buffer_length s)" using assms(1) Some by (simp add: heap_ok_def)
  ultimately show ?thesis using Some by (intro tensor_set_ok)
qed

section \<open>Changing one tensor\<close>

lemma upd_source_simps [simp]:
  "rs_tensors (upd_source n f s) = rs_tensors s" "rs_names (upd_source n f s) = rs_names s" "rs_buffers (upd_source n f s) = rs_buffers s"
  "rs_fresh (upd_source n f s) = rs_fresh s" "rs_attempts (upd_source n f s) = rs_attempts s"
  "rs_sources (upd_source n f s) = map (\<lambda>(m, x). (m, if m = n then f x else x)) (rs_sources s)"
  by (simp_all add: upd_source_def)

lemma upd_tensor_simps [simp]:
  "rs_tensors (upd_tensor i g s) = (rs_tensors s)(i := g (rs_tensors s i))" "rs_names (upd_tensor i g s) = rs_names s"
  "rs_buffers (upd_tensor i g s) = rs_buffers s" "rs_fresh (upd_tensor i g s) = rs_fresh s" "rs_attempts (upd_tensor i g s) = rs_attempts s"
  "rs_sources (upd_tensor i g s) = rs_sources s"
  by (simp_all add: upd_tensor_def)

lemma find_tensor_names: "rs_names s' = rs_names s \<Longrightarrow> find_tensor n s' = find_tensor n s"
  by (simp add: find_tensor_def)

lemma buffer_length_buffers: "rs_buffers s' = rs_buffers s \<Longrightarrow> buffer_length s' = buffer_length s"
  by (simp add: buffer_length_def fun_eq_iff)

lemma in_base_keep: "\<forall>b \<in> base. buffer_length s' b = buffer_length s b \<Longrightarrow> in_base base s' p n = in_base base s p n"
  by (auto simp: in_base_def)

lemma pristine_keep:
  "\<forall>b \<in> base. buffer_length s' b = buffer_length s b \<Longrightarrow> rs_tensors s' i = rs_tensors s i \<Longrightarrow> pristine env base s' i = pristine env base s i"
  unfolding pristine_def using in_base_keep [of base s' s] by simp

lemma reload_inv_one_tensor:
  assumes inv: "reload_inv env base s" and src: "map_of (rs_sources s) name = Some src" and i: "find_tensor name s = Some i"
    and s': "rs_names s' = rs_names s" "\<forall>j. j \<noteq> i \<longrightarrow> rs_tensors s' j = rs_tensors s j" "tn_extra (rs_tensors s' i) = None"
      "rs_sources s' = map (\<lambda>(m, x). (m, if m = name then f x else x)) (rs_sources s)"
    and base: "\<forall>b \<in> base. buffer_length s' b = buffer_length s b"
    and ok: "heap_ok base s'" "source_ok env base s' name (f src)"
  shows "reload_inv env base s'"
proof -
  have keys: "map fst (rs_sources s') = map fst (rs_sources s)" by (simp add: s'(4) case_prod_unfold comp_def)
  have find: "find_tensor n s' = find_tensor n s" for n by (rule find_tensor_names) (rule s'(1))
  have other: "n = name" if "find_tensor n s = Some i" for n
    using inv i that by (auto simp: reload_inv_def find_tensor_def dest!: map_of_SomeD)
  have srcs: "source_ok env base s' n x'" if x: "(n, x') \<in> set (rs_sources s')" for n x'
  proof (cases "n = name")
    case True
    from x True obtain x where "(name, x) \<in> set (rs_sources s)" "x' = f x" by (auto simp: s'(4))
    moreover have "x = src" using calculation(1) src inv by (auto simp: reload_inv_def)
    ultimately show ?thesis using ok(2) True by simp
  next
    case False
    with x have x0: "(n, x') \<in> set (rs_sources s)" by (auto simp: s'(4))
    then have "source_ok env base s n x'" using inv by (auto simp: reload_inv_def)
    moreover have "j \<noteq> i" if "find_tensor n s = Some j" for j using other that False by blast
    ultimately show ?thesis
      using s'(2) pristine_keep [OF base] by (auto simp: source_ok_def find in_base_keep [OF base])
  qed
  have "pristine env base s' j" if "\<forall>n \<in> fst ` set (rs_sources s'). find_tensor n s' \<noteq> Some j" for j
  proof -
    have "name \<in> fst ` set (rs_sources s)" using src by (auto dest!: map_of_SomeD simp: image_iff intro: bexI [rotated])
    moreover have "fst ` set (rs_sources s') = fst ` set (rs_sources s)" using arg_cong [OF keys, of set] by simp
    ultimately have "j \<noteq> i" "\<forall>n \<in> fst ` set (rs_sources s). find_tensor n s \<noteq> Some j" using that i by (auto simp: find)
    then show ?thesis using inv s'(2) pristine_keep [OF base] by (simp add: reload_inv_def)
  qed
  moreover have "tn_extra (rs_tensors s' j) = None" for j using inv s'(2,3) by (cases "j = i") (simp_all add: reload_inv_def)
  ultimately show ?thesis using inv ok(1) srcs keys by (auto simp: reload_inv_def s'(1))
qed

lemma source_ok_moved:
  assumes "source_ok env base s name src" "so_buffer src \<noteq> None" "rs_names s' = rs_names s" "\<forall>b \<in> base. buffer_length s' b = buffer_length s b"
    "st \<noteq> UNINITIALIZED" "\<forall>i b. find_tensor name s = Some i \<longrightarrow> tn_buffer (rs_tensors s' i) = Some b \<longrightarrow> (b \<in> base \<longleftrightarrow> at_home st)"
  shows "source_ok env base s' name (src\<lparr>so_state := st\<rparr>)"
  using assms(1,2,5,6) by (auto simp: source_ok_def in_base_keep [OF assms(4)] find_tensor_names [OF assms(3)])

text \<open>The tensor of a source between its old and its new place.\<close>

definition detach :: "tensor \<Rightarrow> tensor" where
  "detach t = t\<lparr>tn_buffer := None, tn_data := None\<rparr>"

lemma release_ok:
  assumes inv: "reload_inv env base s" and src: "map_of (rs_sources s) name = Some src" "so_buffer src \<noteq> None" and i: "find_tensor name s = Some i"
  shows "\<exists>s1. release_buffer (tn_buffer (rs_tensors s i)) src s = Inr s1 \<and> reload_inv env base (upd_tensor i detach s1)
     \<and> rs_tensors s1 = rs_tensors s \<and> rs_names s1 = rs_names s \<and> rs_sources s1 = rs_sources s \<and> rs_fresh s1 = rs_fresh s"
proof -
  have ok: "source_ok env base s name src" using inv src(1) by (auto simp: reload_inv_def dest: map_of_SomeD)
  have heap: "heap_ok base s" using inv by (simp add: reload_inv_def)
  have ext: "tn_extra (rs_tensors s i) = None" using inv by (simp add: reload_inv_def)
  have sid: "map (\<lambda>(m, x). (m, if m = name then x else x)) xs = xs" for xs :: "(string \<times> tensor_reload_source) list"
    by (simp add: case_prod_unfold)
  show ?thesis
  proof (cases "tn_buffer (rs_tensors s i) \<noteq> None \<and> so_state src \<noteq> ON_ORIGINAL")
    case True
    then obtain b where b: "tn_buffer (rs_tensors s i) = Some b" by blast
    have "so_state src \<noteq> UNINITIALIZED" using ok src(2) by (auto simp: source_ok_def)
    then have nb: "b \<notin> base" using ok i b True by (auto simp: source_ok_def at_home_def)
    let ?s1 = "s\<lparr>rs_buffers := (rs_buffers s)(b := None)\<rparr>"
    have "b \<in> dom (buffer_length s)" using heap b unfolding heap_ok_def by blast
    then have live: "rs_buffers s b \<noteq> None" by (auto simp: buffer_length_def)
    have len: "buffer_length ?s1 = (buffer_length s)(b := None)" by (auto simp: buffer_length_def fun_eq_iff)
    have "heap_ok base (upd_tensor i detach ?s1)"
      using heap nb b unfolding heap_ok_def buffer_length_buffers [OF upd_tensor_simps(3)] len
      by (auto simp: detach_def) (metis DiffI domI option.inject)+
    moreover have "source_ok env base (upd_tensor i detach ?s1) name src"
      using source_ok_moved [OF ok src(2), of "upd_tensor i detach ?s1" "so_state src"] i nb \<open>so_state src \<noteq> UNINITIALIZED\<close>
      by (auto simp: detach_def buffer_length_def)
    ultimately have "reload_inv env base (upd_tensor i detach ?s1)"
      using ext nb len by (intro reload_inv_one_tensor [OF inv src(1) i, where f = "\<lambda>x. x"])
        (auto simp: detach_def sid buffer_length_buffers [OF upd_tensor_simps(3)])
    then show ?thesis using b True live by (auto simp: release_buffer_def buffer_free_def)
  next
    case False
    have "heap_ok base (upd_tensor i detach s)"
    proof -
      have "b \<in> base" if "tn_buffer (rs_tensors s i) = Some b" for b using ok i that False by (auto simp: source_ok_def at_home_def)
      with heap show ?thesis
        unfolding heap_ok_def buffer_length_buffers [OF upd_tensor_simps(3)] by (auto simp: detach_def) (metis DiffI domI)+
    qed
    moreover have "source_ok env base (upd_tensor i detach s) name src"
      using source_ok_moved [OF ok src(2), of "upd_tensor i detach s" "so_state src"] i ok src(2)
      by (auto simp: detach_def buffer_length_def source_ok_def)
    ultimately have "reload_inv env base (upd_tensor i detach s)"
      using ext by (intro reload_inv_one_tensor [OF inv src(1) i, where f = "\<lambda>x. x"])
        (auto simp: detach_def sid buffer_length_buffers [OF upd_tensor_simps(3)])
    then show ?thesis using False by (auto simp: release_buffer_def split: option.splits)
  qed
qed

section \<open>Swapping\<close>

text \<open>What an operation on a well-formed system may do: end the program, or go on with one.\<close>

definition safe :: "(reload_sys \<Rightarrow> bool) \<Rightarrow> (bool \<times> reload_sys) throws \<Rightarrow> bool" where
  "safe P r \<longleftrightarrow> (case r of Inl e \<Rightarrow> e = ''assert'' | Inr (ok, s) \<Rightarrow> P s)"

lemma safe_simps [simp]: "safe P (Inl e) \<longleftrightarrow> e = ''assert''" "safe P (Inr (ok, s)) \<longleftrightarrow> P s"
  by (simp_all add: safe_def)

lemma source_state_id: "map (\<lambda>(m, x). (m, if m = name then x else x)) xs = (xs :: (string \<times> tensor_reload_source) list)"
  by (simp add: case_prod_unfold)

lemma reload_inv_source: "reload_inv env base s \<Longrightarrow> map_of (rs_sources s) name = Some src \<Longrightarrow> source_ok env base s name src"
  by (auto simp: reload_inv_def dest: map_of_SomeD)

lemma heap_ok_home:
  assumes "heap_ok base s" "rs_tensors s' = (rs_tensors s)(i := t)" "tn_buffer (rs_tensors s i) = None" "tn_buffer t = Some b" "b \<in> base"
    "buffer_length s' = buffer_length s" "rs_fresh s' = rs_fresh s"
  shows "heap_ok base s'"
proof -
  note heap = assms(1) [unfolded heap_ok_def]
  have other: "j \<noteq> i" if "tn_buffer (rs_tensors s j) = Some c" for j c using that assms(3) by auto
  have "\<exists>j. tn_buffer (rs_tensors s' j) = Some c" if "c \<in> dom (buffer_length s) - base" for c
    using heap other that assms(2) by (metis fun_upd_other)
  with heap assms(2,4-7) show ?thesis by (auto simp: heap_ok_def simp del: domIff)
qed

lemma heap_ok_away:
  assumes "heap_ok base s" "rs_tensors s' = (rs_tensors s)(i := t)" "tn_buffer (rs_tensors s i) = None" "tn_buffer t = Some (rs_fresh s)"
    "buffer_length s' = (buffer_length s)(rs_fresh s \<mapsto> n)" "rs_fresh s' = Suc (rs_fresh s)"
  shows "heap_ok base s'"
proof -
  note heap = assms(1) [unfolded heap_ok_def]
  have other: "j \<noteq> i" if "tn_buffer (rs_tensors s j) = Some c" for j c using that assms(3) by auto
  have fresh: "tn_buffer (rs_tensors s j) \<noteq> Some (rs_fresh s)" for j using heap by blast
  have "\<exists>j. tn_buffer (rs_tensors s' j) = Some c" if "c \<in> dom (buffer_length s') - base" for c
  proof (cases "c = rs_fresh s")
    case True
    then show ?thesis using assms(2,4) by (intro exI [of _ i]) simp
  next
    case False
    with that have "c \<in> dom (buffer_length s) - base" by (auto simp: assms(5))
    then show ?thesis using heap other assms(2) by (metis fun_upd_other)
  qed
  moreover have "\<forall>c \<in> dom (buffer_length s'). c < rs_fresh s'"
    using heap by (auto simp: assms(5,6) less_Suc_eq)
  moreover have "\<forall>j c. tn_buffer (rs_tensors s' j) = Some c \<longrightarrow> c \<in> dom (buffer_length s')"
    using heap assms(2,4) by (auto simp: assms(5) simp del: domIff)
  moreover have "\<forall>j k c. tn_buffer (rs_tensors s' j) = Some c \<longrightarrow> tn_buffer (rs_tensors s' k) = Some c \<longrightarrow> c \<notin> base \<longrightarrow> j = k"
    using heap fresh assms(2,4) by (auto simp del: domIff)
  moreover have "base \<subseteq> dom (buffer_length s')" using heap by (auto simp: assms(5))
  ultimately show ?thesis unfolding heap_ok_def by blast
qed

lemma source_ok_base:
  assumes "source_ok env base s name src" "so_buffer src = Some ob"
  shows "ob \<in> base" "so_nbytes src = bytes_of (en_traits env) (so_type src) (so_ne src) (so_nb src)" "in_base base s (so_data src) (so_nbytes src)"
  using assms unfolding source_ok_def by blast+

lemma return_safe:
  assumes inv: "reload_inv env base (upd_tensor i detach s)" and src: "map_of (rs_sources s) name = Some src" "so_buffer src \<noteq> None"
    and i: "find_tensor name s = Some i"
  shows "safe (reload_inv env base) (let s = upd_tensor i (original_tensor src) s in
     ebind (if host = [] \<or> b then Inr s else backend_tensor_set env i host s) (\<lambda>s.
       Inr (True, upd_source name (\<lambda>x. x\<lparr>so_state := ON_ORIGINAL\<rparr>) s)))"
proof -
  let ?sd = "upd_tensor i detach s" and ?s2 = "upd_tensor i (original_tensor src) s"
  let ?home = "upd_source name (\<lambda>x. x\<lparr>so_state := ON_ORIGINAL\<rparr>)"
  have srcd: "map_of (rs_sources ?sd) name = Some src" and id: "find_tensor name ?sd = Some i"
    using src i by (simp_all add: find_tensor_def)
  note ok = reload_inv_source [OF inv srcd]
  obtain ob where ob: "so_buffer src = Some ob" using src(2) by blast
  note base = source_ok_base [OF ok ob]
  have len: "buffer_length ?s2 = buffer_length ?sd" "buffer_length (?home ?s2) = buffer_length ?sd"
    by (simp_all add: buffer_length_def fun_eq_iff)
  have heapd: "heap_ok base ?sd" using inv by (simp add: reload_inv_def)
  have heap: "heap_ok base (?home ?s2)"
    by (rule heap_ok_home [OF heapd, where i = i and b = ob and t = "original_tensor src (rs_tensors s i)"])
      (use ob base len in \<open>auto simp: detach_def original_tensor_def\<close>)
  have ext: "tn_extra (rs_tensors s i) = None"
    using inv by (auto simp: reload_inv_def detach_def split: if_splits dest: spec [where x = i])
  have sok: "source_ok env base (?home ?s2) name (src\<lparr>so_state := ON_ORIGINAL\<rparr>)"
    by (rule source_ok_moved [OF ok src(2)]) (use i ob base len in \<open>auto simp: original_tensor_def at_home_def find_tensor_def\<close>)
  have home: "reload_inv env base (?home ?s2)"
    by (rule reload_inv_one_tensor [OF inv srcd id _ _ _ _ _ heap, where f = "\<lambda>x. x\<lparr>so_state := ON_ORIGINAL\<rparr>"])
      (use ext sok len in \<open>simp_all add: original_tensor_def\<close>)
  obtain b' off m where d: "so_data src = Some (b', off)" "buffer_length ?sd b' = Some m" "off + so_nbytes src \<le> m"
    using base(3) by (auto simp: in_base_def)
  have "(\<exists>s'. backend_tensor_set env i host ?s2 = Inr s' \<and> same_but_bytes ?s2 s') \<or> backend_tensor_set env i host ?s2 = Inl ''assert''"
  proof (rule tensor_set_ok [where b = ob and b' = b' and off = off and m = m])
    show "ob \<in> dom (buffer_length ?s2)" using heapd base(1) unfolding len(1) heap_ok_def by blast
    show "off + ggml_nbytes (en_traits env) (rs_tensors ?s2 i) \<le> m"
      using d(3) base(2) by (simp add: original_tensor_def ggml_nbytes_def)
  qed (use ob d(1,2) len(1) in \<open>simp_all add: original_tensor_def\<close>)
  moreover have "reload_inv env base (?home s')" if "same_but_bytes ?s2 s'" for s'
    by (rule reload_inv_buffers [OF home]) (use that len in \<open>auto simp: same_but_bytes_def buffer_length_buffers [of "?home s'" s']\<close>)
  ultimately show ?thesis using home by (auto simp: Let_def)
qed

lemma alloc_buffer_fallback_cases:
  assumes "alloc_buffer_fallback env buft n s = (r, s')" "env_ok env"
  shows "rs_tensors s' = rs_tensors s \<and> rs_names s' = rs_names s \<and> rs_sources s' = rs_sources s"
    "r = None \<Longrightarrow> rs_buffers s' = rs_buffers s \<and> rs_fresh s' = rs_fresh s"
    "r = Some b \<Longrightarrow> b = rs_fresh s \<and> rs_fresh s' = Suc b \<and> (\<exists>buf. rs_buffers s' = (rs_buffers s)(b \<mapsto> buf) \<and> length (bb_bytes buf) = n)"
  using assms by (auto simp: alloc_buffer_fallback_def buft_alloc_buffer_def Let_def env_ok_def split: option.splits if_splits)

lemma attach_safe:
  assumes env: "env_ok env" and inv: "reload_inv env base s" and none: "tn_buffer (rs_tensors s i) = None"
    and src: "map_of (rs_sources s) name = Some src" "so_buffer src \<noteq> None" and i: "find_tensor name s = Some i"
  shows "safe (reload_inv env base) (case alloc_buffer_fallback env buft n s of
       (None, s) \<Rightarrow> Inr (False, s)
     | (Some b, s) \<Rightarrow> ebind (backend_tensor_alloc env b i s) (\<lambda>s. ebind (backend_tensor_set env i host s) (\<lambda>s.
         Inr (True, upd_source name (\<lambda>x. x\<lparr>so_state := DETACHED\<rparr>) s))))"
proof -
  obtain r s1 where al: "alloc_buffer_fallback env buft n s = (r, s1)" by (rule prod.exhaust)
  note al1 = alloc_buffer_fallback_cases [OF al env]
  show ?thesis
  proof (cases r)
    case None
    have "buffer_length s1 = buffer_length s" using al1(2) [OF None] by (intro buffer_length_buffers) simp
    then have "reload_inv env base s1" using al1(1) al1(2) [OF None] by (intro reload_inv_buffers [OF inv]) simp_all
    with al None show ?thesis by simp
  next
    case (Some b)
    from al1(3) [OF this] obtain buf where b: "b = rs_fresh s" "rs_fresh s1 = Suc b" "rs_buffers s1 = (rs_buffers s)(b \<mapsto> buf)" "length (bb_bytes buf) = n"
      by blast
    let ?away = "upd_source name (\<lambda>x. x\<lparr>so_state := DETACHED\<rparr>)"
    let ?s2 = "upd_tensor i (\<lambda>t. t\<lparr>tn_buffer := Some b, tn_data := Some (b, 0)\<rparr>) s1"
    have heap0: "heap_ok base s" using inv by (simp add: reload_inv_def)
    have fresh: "b \<notin> dom (buffer_length s)" "b \<notin> base" using heap0 b(1) by (auto simp: heap_ok_def)
    have len: "buffer_length ?s2 = (buffer_length s)(b \<mapsto> n)" "buffer_length (?away ?s2) = (buffer_length s)(b \<mapsto> n)"
      using b(3,4) by (auto simp: buffer_length_def fun_eq_iff)
    have keep: "\<forall>c \<in> base. buffer_length (?away ?s2) c = buffer_length s c" using len fresh(2) by auto
    have heap: "heap_ok base (?away ?s2)"
      by (rule heap_ok_away [OF heap0, where i = i and n = n and t = "rs_tensors s i\<lparr>tn_buffer := Some b, tn_data := Some (b, 0)\<rparr>"])
        (use none b(1,2) al1(1) len in simp_all)
    note ok = reload_inv_source [OF inv src(1)]
    have ext: "tn_extra (rs_tensors s i) = None" using inv by (simp add: reload_inv_def)
    have sok: "source_ok env base (?away ?s2) name (src\<lparr>so_state := DETACHED\<rparr>)"
      by (rule source_ok_moved [OF ok src(2)]) (use i fresh al1(1) keep in \<open>auto simp: at_home_def\<close>)
    have away: "reload_inv env base (?away ?s2)"
      by (rule reload_inv_one_tensor [OF inv src(1) i _ _ _ _ keep heap, where f = "\<lambda>x. x\<lparr>so_state := DETACHED\<rparr>"])
        (use ext sok al1(1) in simp_all)
    have set: "(\<exists>s'. backend_tensor_set env i host ?s2 = Inr s' \<and> same_but_bytes ?s2 s') \<or> backend_tensor_set env i host ?s2 = Inl ''assert''"
      if "en_alloc_size env (bb_buft buf) (rs_tensors s1 i) \<le> length (bb_bytes buf)"
    proof (rule tensor_set_ok [where b = b and b' = b and off = 0 and m = n])
      have "ggml_nbytes (en_traits env) (rs_tensors s1 i) \<le> n" using that env b(4) unfolding env_ok_def by (metis le_trans)
      then show "0 + ggml_nbytes (en_traits env) (rs_tensors ?s2 i) \<le> n" by (simp add: ggml_nbytes_def)
    qed (auto simp: len)
    have "reload_inv env base (?away s')" if "same_but_bytes ?s2 s'" for s'
      by (rule reload_inv_buffers [OF away]) (use that len in \<open>auto simp: same_but_bytes_def buffer_length_buffers [of "?away s'" s']\<close>)
    then show ?thesis using set b(3) al Some by (auto simp: backend_tensor_alloc_def Let_def)
  qed
qed

lemma heap_ok_same:
  "heap_ok base s \<Longrightarrow> (\<And>j. tn_buffer (rs_tensors s' j) = tn_buffer (rs_tensors s j)) \<Longrightarrow> buffer_length s' = buffer_length s \<Longrightarrow>
     rs_fresh s' = rs_fresh s \<Longrightarrow> heap_ok base s'"
  by (simp add: heap_ok_def)

lemma retype_inv:
  assumes inv: "reload_inv env base s" and src: "map_of (rs_sources s) name = Some src" "so_buffer src \<noteq> None" and i: "find_tensor name s = Some i"
  shows "reload_inv env base (upd_tensor i (\<lambda>t. t\<lparr>tn_type := ty, tn_nb := nb\<rparr>) s)" (is "reload_inv env base ?s'")
proof -
  note ok = reload_inv_source [OF inv src(1)]
  have len: "buffer_length ?s' = buffer_length s" by (rule buffer_length_buffers) simp
  have "heap_ok base s" "tn_extra (rs_tensors s i) = None" using inv by (simp_all add: reload_inv_def)
  moreover have "source_ok env base ?s' name (src\<lparr>so_state := so_state src\<rparr>)"
    by (rule source_ok_moved [OF ok src(2)]) (use ok src(2) i len in \<open>auto simp: source_ok_def\<close>)
  moreover have "heap_ok base ?s'" by (rule heap_ok_same [OF calculation(1) _ len]) simp_all
  ultimately show ?thesis
    by (intro reload_inv_one_tensor [OF inv src(1) i, where f = "\<lambda>x. x"]) (simp_all add: source_state_id len)
qed

lemma copy_to_duplicates_safe:
  assumes "reload_inv env base s" "map_of (rs_sources s) name = Some src" "find_tensor name s = Some i" "set names \<subseteq> set (rs_names s)"
  shows "(\<exists>s'. copy_to_duplicates env name i host names s = Inr s' \<and> same_but_bytes s s') \<or> copy_to_duplicates env name i host names s = Inl ''assert''"
  using assms
proof (induction names arbitrary: s)
  case (Cons p names)
  obtain n j where p: "p = (n, j)" by (cases p)
  show ?case
  proof (cases "j \<noteq> i \<and> n = name \<and> tn_type (rs_tensors s j) = tn_type (rs_tensors s i) \<and> tn_ne (rs_tensors s j) = tn_ne (rs_tensors s i)
      \<and> \<not> tn_view (rs_tensors s j) \<and> tn_buffer (rs_tensors s j) \<noteq> None \<and> host \<noteq> [] \<and> \<not> tensor_data_in_mmap env (tn_data (rs_tensors s j))")
    case True
    then have j: "(name, j) \<in> set (rs_names s)" "j \<noteq> i" using Cons.prems(4) p by auto
    have "find_tensor m s \<noteq> Some j" for m
    proof
      assume m: "find_tensor m s = Some j"
      then have "(m, j) \<in> set (rs_names s)" by (auto simp: find_tensor_def dest: map_of_SomeD)
      with j(1) Cons.prems(1) have "m = name" by (auto simp: reload_inv_def)
      with m Cons.prems(3) j(2) show False by simp
    qed
    then have "pristine env base s j" using Cons.prems(1) by (simp add: reload_inv_def)
    moreover have "heap_ok base s" using Cons.prems(1) by (simp add: reload_inv_def)
    ultimately consider s1 where "backend_tensor_set env j host s = Inr s1" "same_but_bytes s s1" | "backend_tensor_set env j host s = Inl ''assert''"
      using tensor_set_pristine by blast
    then show ?thesis
    proof cases
      case 1
      have "reload_inv env base s1" by (rule reload_inv_buffers [OF Cons.prems(1)]) (use 1(2) in \<open>simp_all add: same_but_bytes_def\<close>)
      with Cons.IH [of s1] Cons.prems(2-4) 1 True p show ?thesis
        by (auto simp: same_but_bytes_def find_tensor_def)
    qed (use True p in simp)
  next
    case False
    then have "copy_to_duplicates env name i host (p # names) s = copy_to_duplicates env name i host names s"
      unfolding p copy_to_duplicates.simps Let_def by (simp only: if_False)
    with Cons.IH [OF Cons.prems(1-3)] Cons.prems(4) show ?thesis by (simp only: set_simps insert_subset)
  qed
qed simp

lemma release_mono:
  assumes "reload_inv env base s" "tn_buffer (rs_tensors s i) = Some b"
  shows "\<exists>buft. buffer_type (Some b) s = Inr buft"
proof -
  have "b \<in> dom (buffer_length s)" using assms unfolding reload_inv_def heap_ok_def by blast
  then show ?thesis by (auto simp: buffer_type_def buffer_length_def)
qed

lemma non_split_safe:
  assumes env: "env_ok env" and inv: "reload_inv env base s" and src: "map_of (rs_sources s) name = Some src" "so_buffer src \<noteq> None"
    and i: "find_tensor name s = Some i"
  shows "safe (reload_inv env base) (reload_tensor_non_split_path env name src i host returning (tn_buffer (rs_tensors s i)) s)"
proof -
  from release_ok [OF inv src i] obtain s1 where rel: "release_buffer (tn_buffer (rs_tensors s i)) src s = Inr s1"
    and inv1: "reload_inv env base (upd_tensor i detach s1)"
    and same: "rs_tensors s1 = rs_tensors s" "rs_names s1 = rs_names s" "rs_sources s1 = rs_sources s" by blast
  have src1: "map_of (rs_sources s1) name = Some src" "find_tensor name s1 = Some i" using src i same by (simp_all add: find_tensor_def)
  show ?thesis
  proof (cases returning)
    case True
    with return_safe [OF inv1 src1(1) src(2) src1(2)] rel show ?thesis
      by (simp add: reload_tensor_non_split_path_def Let_def)
  next
    case False
    obtain buft where buft: "buffer_type (tn_buffer (rs_tensors s i)) s = Inr buft"
      using release_mono [OF inv] by (cases "tn_buffer (rs_tensors s i)") (auto simp: buffer_type_def)
    have "safe (reload_inv env base) (case alloc_buffer_fallback env buft n (upd_tensor i detach s1) of
       (None, s) \<Rightarrow> Inr (False, s)
     | (Some b, s) \<Rightarrow> ebind (backend_tensor_alloc env b i s) (\<lambda>s. ebind (backend_tensor_set env i host s) (\<lambda>s.
         Inr (True, upd_source name (\<lambda>x. x\<lparr>so_state := DETACHED\<rparr>) s))))" for n
      by (rule attach_safe [OF env inv1]) (use src1 src(2) in \<open>simp_all add: detach_def find_tensor_def\<close>)
    then show ?thesis using False rel buft unfolding reload_tensor_non_split_path_def detach_def by (simp only: ebind_simps Let_def if_False)
  qed
qed

lemma type_change_cases:
  assumes "tn_extra t = None"
  shows "(\<exists>nb. apply_tensor_type_change tr ty t = Inr (t\<lparr>tn_type := ty, tn_nb := nb\<rparr>) \<and> new_strides tr ty (n_dims (tn_ne t)) (tn_ne t) = Inr nb)
    \<or> apply_tensor_type_change tr ty t = Inl ''assert''"
  using assms by (auto simp: apply_tensor_type_change_def new_strides_def Let_def)

lemma upd_source_inv:
  assumes inv: "reload_inv env base s"
    and f: "\<And>x. so_buffer (f x) = so_buffer x \<and> so_data (f x) = so_data x \<and> so_type (f x) = so_type x \<and> so_nbytes (f x) = so_nbytes x
      \<and> so_ne (f x) = so_ne x \<and> so_nb (f x) = so_nb x \<and> so_state (f x) = so_state x"
  shows "reload_inv env base (upd_source name f s)"
proof -
  let ?s' = "upd_source name f s"
  have len: "buffer_length ?s' = buffer_length s" by (rule buffer_length_buffers) simp
  have keys: "map fst (rs_sources ?s') = map fst (rs_sources s)" by (simp add: case_prod_unfold comp_def)
  have pris: "pristine env base ?s' j = pristine env base s j" for j by (rule pristine_keep) (simp_all add: len)
  have src: "source_ok env base ?s' n (f x) = source_ok env base s n x" "source_ok env base ?s' n x = source_ok env base s n x" for n x
    using f [of x] by (simp_all add: source_ok_def pris in_base_keep [of base ?s' s] len find_tensor_names [of ?s' s])
  have "heap_ok base ?s'" using inv len by (simp add: reload_inv_def heap_ok_def)
  moreover have "\<forall>(n, x) \<in> set (rs_sources ?s'). source_ok env base ?s' n x"
    using inv src by (auto simp: reload_inv_def)
  moreover have "fst ` set (rs_sources ?s') = fst ` set (rs_sources s)" using keys by (metis set_map)
  moreover have "distinct (map fst (rs_sources ?s'))" using inv unfolding keys by (simp add: reload_inv_def)
  ultimately show ?thesis using inv pris
    unfolding reload_inv_def find_tensor_names [of ?s' s, OF upd_source_simps(2)] by (simp del: upd_source_simps(6))
qed

lemma tensor_set_keeps: "backend_tensor_set env i bytes s = Inr s' \<Longrightarrow> \<exists>m. s' = s\<lparr>rs_buffers := m\<rparr>"
  by (auto simp: backend_tensor_set_def write_bytes_def Let_def split: option.splits if_splits intro: exI [of _ "rs_buffers s"])

lemma release_keeps: "release_buffer old src s = Inr s' \<Longrightarrow> \<exists>m. s' = s\<lparr>rs_buffers := m\<rparr>"
  by (auto simp: release_buffer_def buffer_free_def split: option.splits if_splits intro: exI [of _ "rs_buffers s"])

lemma alloc_keeps:
  "alloc_buffer_fallback env buft n s = (r, s') \<Longrightarrow> rs_names s' = rs_names s \<and> rs_sources s' = rs_sources s \<and> rs_tensors s' = rs_tensors s"
  by (auto simp: alloc_buffer_fallback_def buft_alloc_buffer_def Let_def split: option.splits if_splits)

lemma tensor_alloc_keeps:
  "backend_tensor_alloc env b i s = Inr s' \<Longrightarrow> rs_names s' = rs_names s \<and> rs_sources s' = rs_sources s"
  by (auto simp: backend_tensor_alloc_def Let_def split: option.splits if_splits)

lemma non_split_keeps:
  assumes "reload_tensor_non_split_path env name src i host returning old s = Inr (ok, s')"
  shows "rs_names s' = rs_names s \<and> map fst (rs_sources s') = map fst (rs_sources s)"
proof (cases returning)
  case True
  with assms show ?thesis
    by (auto simp: reload_tensor_non_split_path_def Let_def ebind_Inr_iff case_prod_unfold comp_def
        dest!: release_keeps tensor_set_keeps split: if_splits)
next
  case False
  with assms obtain buft s1 where s1: "release_buffer old src s = Inr s1"
    "(case alloc_buffer_fallback env buft (en_alloc_size env buft (rs_tensors (upd_tensor i (\<lambda>t. t\<lparr>tn_buffer := None, tn_data := None\<rparr>) s1) i))
         (upd_tensor i (\<lambda>t. t\<lparr>tn_buffer := None, tn_data := None\<rparr>) s1) of
           (None, s) \<Rightarrow> Inr (False, s)
         | (Some b, s) \<Rightarrow> ebind (backend_tensor_alloc env b i s) (\<lambda>s. ebind (backend_tensor_set env i host s) (\<lambda>s.
             Inr (True, upd_source name (\<lambda>x. x\<lparr>so_state := DETACHED\<rparr>) s)))) = Inr (ok, s')"
    unfolding reload_tensor_non_split_path_def Let_def by (auto simp only: if_False ebind_Inr_iff)
  obtain r s2 where al: "alloc_buffer_fallback env buft (en_alloc_size env buft (rs_tensors (upd_tensor i (\<lambda>t. t\<lparr>tn_buffer := None, tn_data := None\<rparr>) s1) i))
         (upd_tensor i (\<lambda>t. t\<lparr>tn_buffer := None, tn_data := None\<rparr>) s1) = (r, s2)" by (rule prod.exhaust)
  from s1(2) alloc_keeps [OF al] release_keeps [OF s1(1)] show ?thesis unfolding al
    by (cases r) (auto simp: ebind_Inr_iff case_prod_unfold comp_def dest!: tensor_set_keeps tensor_alloc_keeps)
qed

text \<open>The last part of a swap.\<close>

lemma finish_safe:
  assumes inv: "reload_inv env base s" and name: "name \<in> fst ` set (rs_sources s)" and i: "find_tensor name s = Some i"
  shows "safe (reload_inv env base) (ebind (copy_to_duplicates env name i host (rs_names s) s) (\<lambda>s.
      Inr (True, upd_source name (\<lambda>x. x\<lparr>so_mtime := a, so_mtime_ns := b\<rparr>) s)))"
proof -
  from name obtain src where "map_of (rs_sources s) name = Some src" by (metis map_of_eq_None_iff not_Some_eq)
  from copy_to_duplicates_safe [OF inv this i subset_refl, of host] show ?thesis
  proof
    assume "\<exists>s'. copy_to_duplicates env name i host (rs_names s) s = Inr s' \<and> same_but_bytes s s'"
    then obtain s' where s': "copy_to_duplicates env name i host (rs_names s) s = Inr s'" "same_but_bytes s s'" by blast
    have "reload_inv env base s'" by (rule reload_inv_buffers [OF inv]) (use s'(2) in \<open>simp_all add: same_but_bytes_def\<close>)
    then have "reload_inv env base (upd_source name (\<lambda>x. x\<lparr>so_mtime := a, so_mtime_ns := b\<rparr>) s')" by (rule upd_source_inv) simp
    with s'(1) show ?thesis by simp
  qed simp
qed

lemma swap_tensor_safe:
  assumes env: "env_ok env" and inv: "reload_inv env base s" and src: "map_of (rs_sources s) name = Some src" "so_buffer src \<noteq> None"
    and i: "find_tensor name s = Some i"
  shows "safe (reload_inv env base) (swap_tensor env name src i file fm s)"
proof -
  let ?ret = "fm_type fm = so_type src" and ?old = "tn_buffer (rs_tensors s i)"
  let ?changed = "if \<not> ?ret \<and> fm_type fm \<noteq> tn_type (rs_tensors s i)
          then ebind (apply_tensor_type_change (en_traits env) (fm_type fm) (rs_tensors s i)) (\<lambda>t. Inr (upd_tensor i (\<lambda>_. t) s))
          else Inr s"
  let ?rest = "\<lambda>host s. ebind (reload_tensor_non_split_path env name src i host ?ret ?old s) (\<lambda>(ok, s).
      if ok then ebind (copy_to_duplicates env name i host (rs_names s) s) (\<lambda>s.
               Inr (True, upd_source name (\<lambda>x. x\<lparr>so_mtime := fst file, so_mtime_ns := fst (snd file)\<rparr>) s))
             else Inr (False, s))"
  have ext: "tn_extra (rs_tensors s i) = None" using inv by (simp add: reload_inv_def)
  have changed: "?changed = Inl ''assert'' \<or> (\<exists>s1. ?changed = Inr s1 \<and> reload_inv env base s1 \<and> rs_names s1 = rs_names s \<and> rs_sources s1 = rs_sources s
      \<and> tn_buffer (rs_tensors s1 i) = ?old)"
  proof (cases "\<not> ?ret \<and> fm_type fm \<noteq> tn_type (rs_tensors s i)")
    case True
    have "upd_tensor i (\<lambda>_. rs_tensors s i\<lparr>tn_type := ty, tn_nb := nb\<rparr>) s = upd_tensor i (\<lambda>t. t\<lparr>tn_type := ty, tn_nb := nb\<rparr>) s" for ty nb
      by (simp add: upd_tensor_def)
    then show ?thesis using True type_change_cases [OF ext, of "en_traits env" "fm_type fm"] retype_inv [OF inv src i]
      by (auto simp: ebind_Inl_iff)
  qed (use inv in auto)
  have rest: "safe (reload_inv env base) (?rest host s1)"
    if s1: "reload_inv env base s1" "rs_names s1 = rs_names s" "rs_sources s1 = rs_sources s" "tn_buffer (rs_tensors s1 i) = ?old" for host s1
  proof -
    have safe: "safe (reload_inv env base) (reload_tensor_non_split_path env name src i host ?ret ?old s1)"
      using non_split_safe [OF env s1(1) _ src(2), of name i host ?ret] src(1) i s1 by (simp add: find_tensor_def)
    show ?thesis
    proof (cases "reload_tensor_non_split_path env name src i host ?ret ?old s1")
      case (Inr a)
      obtain ok s2 where a: "a = (ok, s2)" by (cases a)
      note keep = non_split_keeps [OF Inr [unfolded a]]
      have inv2: "reload_inv env base s2" using safe Inr a by simp
      have "name \<in> set (map fst (rs_sources s2))"
        using keep s1(3) src(1) by (metis map_of_SomeD fst_conv image_eqI set_map)
      then have "name \<in> fst ` set (rs_sources s2)" by simp
      moreover have "find_tensor name s2 = Some i" using i keep s1(2) by (simp add: find_tensor_def)
      ultimately show ?thesis using finish_safe [OF inv2] Inr a inv2 by simp
    qed (use safe in simp)
  qed
  show ?thesis
  proof (cases "?ret \<and> tensor_data_in_mmap env (so_data src)")
    case True
    then show ?thesis using inv by (simp add: swap_tensor_def Let_def)
  next
    case False
    from changed show ?thesis
    proof
      assume "?changed = Inl ''assert''"
      then show ?thesis using False unfolding swap_tensor_def Let_def by (simp only: if_False ebind_simps safe_simps)
    next
      assume "\<exists>s1. ?changed = Inr s1 \<and> reload_inv env base s1 \<and> rs_names s1 = rs_names s \<and> rs_sources s1 = rs_sources s
        \<and> tn_buffer (rs_tensors s1 i) = ?old"
      then obtain s1 where c: "?changed = Inr s1" and s1: "reload_inv env base s1" "rs_names s1 = rs_names s" "rs_sources s1 = rs_sources s"
        "tn_buffer (rs_tensors s1 i) = ?old" by blast
      have ext1: "(tn_extra (rs_tensors s1 i) \<noteq> None) = False" using s1(1) by (simp add: reload_inv_def)
      show ?thesis unfolding swap_tensor_def Let_def c if_not_P [OF False] ebind_simps ext1 if_False
        using rest [OF s1] s1(1)
        by (cases "read_tensor (snd (snd file)) fm (if ?ret then so_nbytes src else ggml_nbytes (en_traits env) (rs_tensors s1 i))")
          (simp_all only: option.case safe_simps)
    qed
  qed
qed

lemma reload_tensor_safe:
  assumes env: "env_ok env" and inv: "reload_inv env base s"
  shows "safe (reload_inv env base) (reload_tensor env disk name s)"
proof -
  have "safe (reload_inv env base) (swap_tensor env name src i x fm s)"
    if "map_of (rs_sources s) name = Some src" "find_tensor name s = Some i" "so_buffer src \<noteq> None" for src i x fm
    using swap_tensor_safe [OF env inv that(1,3,2)] .
  with inv show ?thesis by (simp add: reload_tensor_def split: option.split)
qed

lemma reload_jobs_safe: "env_ok env \<Longrightarrow> reload_inv env base s \<Longrightarrow> safe (reload_inv env base) (reload_jobs env disk names r s)"
proof (induction names arbitrary: r s)
  case (Cons n names)
  from reload_tensor_safe [OF Cons.prems, of disk n] Cons.IH [OF Cons.prems(1)] show ?case
    by (cases "reload_tensor env disk n s") auto
qed simp

lemma snapshot_named_inv:
  assumes inv: "reload_inv env base s"
  shows "reload_inv env base (snapshot_named env name s)"
proof (cases "find_tensor name s")
  case (Some i)
  let ?f = "snapshot_tensor_source env name (rs_tensors s i)"
  let ?s' = "upd_source name ?f s"
  have s': "snapshot_named env name s = ?s'" using Some by (simp add: snapshot_named_def)
  have len: "buffer_length ?s' = buffer_length s" by (rule buffer_length_buffers) simp
  show ?thesis
  proof (cases "map_of (rs_sources s) name")
    case None
    then have "rs_sources ?s' = rs_sources s" by (force simp: map_of_eq_None_iff intro!: map_idI)
    then show ?thesis unfolding s' by (intro reload_inv_buffers [OF inv]) (simp_all add: len)
  next
    case (Some src)
    note ok = reload_inv_source [OF inv this]
    have pris: "pristine env base ?s' i = pristine env base s i" by (rule pristine_keep) (simp_all add: len)
    have "source_ok env base ?s' name (?f src)"
    proof (cases "so_buffer src")
      case None
      then have "pristine env base s i" using ok \<open>find_tensor name s = Some i\<close> by (simp add: source_ok_def)
      then show ?thesis using None \<open>find_tensor name s = Some i\<close> pris
        by (auto simp: source_ok_def snapshot_tensor_source_def pristine_def ggml_nbytes_def at_home_def find_tensor_def in_base_def len)
    next
      case (Some ob)
      then have "?f src = src" by (simp add: snapshot_tensor_source_def)
      then show ?thesis using ok Some by (auto simp: source_ok_def in_base_keep [of base ?s' s] len find_tensor_names [of ?s' s])
    qed
    moreover have "heap_ok base ?s'" "tn_extra (rs_tensors s i) = None" using inv len by (simp_all add: reload_inv_def heap_ok_def)
    ultimately show ?thesis unfolding s'
      by (intro reload_inv_one_tensor [OF inv Some \<open>find_tensor name s = Some i\<close>, where f = ?f]) (simp_all add: len)
  qed
qed (use inv in \<open>simp add: snapshot_named_def\<close>)

lemma snapshot_all_inv: "reload_inv env base s \<Longrightarrow> reload_inv env base (snapshot_all_reload_tensors env s)"
proof -
  have fold: "reload_inv env base s \<Longrightarrow> reload_inv env base (fold (snapshot_named env) names s)" for names s
    by (induction names arbitrary: s) (simp_all add: snapshot_named_inv)
  assume inv: "reload_inv env base s"
  have "reload_inv env base (s\<lparr>rs_snapshots_done := True\<rparr>)"
    by (rule reload_inv_buffers [OF inv]) (simp_all add: buffer_length_def fun_eq_iff)
  with inv fold show ?thesis by (simp add: snapshot_all_reload_tensors_def Let_def)
qed

lemma reload_changed_safe:
  "env_ok env \<Longrightarrow> reload_inv env base s \<Longrightarrow> safe (reload_inv env base) (reload_changed_tensors env disk order s)"
  by (simp add: reload_changed_tensors_def Let_def reload_jobs_safe snapshot_all_inv)

section \<open>Any number of rounds\<close>

text \<open>Rounds of looking for changed files, each with the disk as it is then.\<close>

fun reload_rounds :: "reload_env \<Rightarrow> (string list \<Rightarrow> string list) \<Rightarrow> disk list \<Rightarrow> reload_sys \<Rightarrow> reload_sys throws" where
  "reload_rounds env order [] s = Inr s"
| "reload_rounds env order (disk # disks) s = ebind (reload_changed_tensors env disk order s) (\<lambda>(r, s). reload_rounds env order disks s)"

text \<open>A model as it has been loaded: nothing is split, every tensor lies within its buffer, no source has been used.\<close>

definition loaded :: "reload_env \<Rightarrow> reload_sys \<Rightarrow> bool" where
  "loaded env s \<longleftrightarrow> (\<forall>b \<in> dom (rs_buffers s). b < rs_fresh s) \<and> distinct (map fst (rs_sources s))
     \<and> (\<forall>(n, j) \<in> set (rs_names s). \<forall>(m, k) \<in> set (rs_names s). j = k \<longrightarrow> n = m)
     \<and> (\<forall>(n, src) \<in> set (rs_sources s). so_buffer src = None \<and> so_state src = UNINITIALIZED)
     \<and> (\<forall>i. tn_extra (rs_tensors s i) = None \<and> pristine env (dom (rs_buffers s)) s i)"

lemma dom_buffer_length: "dom (buffer_length s) = dom (rs_buffers s)"
  by (auto simp: buffer_length_def dom_def)

lemma loaded_inv: assumes "loaded env s" shows "reload_inv env (dom (rs_buffers s)) s"
proof -
  let ?base = "dom (rs_buffers s)"
  have own: "b \<in> ?base" if "tn_buffer (rs_tensors s i) = Some b" for i b
    using assms that unfolding loaded_def pristine_def by blast
  have "heap_ok ?base s" using assms own by (auto simp: heap_ok_def dom_buffer_length loaded_def simp del: domIff)
  moreover have "\<forall>(n, src) \<in> set (rs_sources s). source_ok env ?base s n src"
    using assms own unfolding loaded_def by (fastforce simp: source_ok_def at_home_def simp del: domIff)
  moreover have "\<forall>n m j. (n, j) \<in> set (rs_names s) \<longrightarrow> (m, j) \<in> set (rs_names s) \<longrightarrow> n = m"
    using assms unfolding loaded_def by fast
  ultimately show ?thesis using assms by (simp add: reload_inv_def loaded_def)
qed

lemma reload_rounds_inv:
  "env_ok env \<Longrightarrow> reload_inv env base s \<Longrightarrow> (case reload_rounds env order disks s of Inl e \<Rightarrow> e = ''assert'' | Inr s' \<Rightarrow> reload_inv env base s')"
proof (induction disks arbitrary: s)
  case (Cons d disks)
  from reload_changed_safe [OF Cons.prems, of d order] Cons.IH [OF Cons.prems(1)] show ?case
    by (cases "reload_changed_tensors env d order s") auto
qed simp

text \<open>C11. However often files change and whatever the allocator and the files do, swapping tensors never releases a
  buffer twice, never uses a released one and never writes outside one: only an assertion can stop it. The buffers of the loaded model stay,
  and every other live buffer belongs to exactly one tensor, so none is leaked.\<close>

theorem reload_memory_safe:
  assumes "env_ok env" "loaded env s"
  shows "case reload_rounds env order disks s of Inl e \<Rightarrow> e = ''assert''
    | Inr s' \<Rightarrow> dom (rs_buffers s) \<subseteq> dom (rs_buffers s')
        \<and> (\<forall>i b. tn_buffer (rs_tensors s' i) = Some b \<longrightarrow> b \<in> dom (rs_buffers s'))
        \<and> (\<forall>b \<in> dom (rs_buffers s') - dom (rs_buffers s). \<exists>!i. tn_buffer (rs_tensors s' i) = Some b)"
proof -
  have final: "dom (rs_buffers s) \<subseteq> dom (rs_buffers s') \<and> (\<forall>i b. tn_buffer (rs_tensors s' i) = Some b \<longrightarrow> b \<in> dom (rs_buffers s'))
     \<and> (\<forall>b \<in> dom (rs_buffers s') - dom (rs_buffers s). \<exists>!i. tn_buffer (rs_tensors s' i) = Some b)"
    if "reload_inv env (dom (rs_buffers s)) s'" for s'
  proof -
    have heap: "heap_ok (dom (rs_buffers s)) s'" using that by (simp add: reload_inv_def)
    show ?thesis using heap unfolding heap_ok_def dom_buffer_length by (intro conjI ballI) (blast+)
  qed
  from reload_rounds_inv [OF assms(1) loaded_inv [OF assms(2)], of order disks] final show ?thesis
    by (simp split: sum.splits)
qed

end
