(* ===== verification/Reload_Results.thy ===== *)
theory Reload_Results
  imports Reload_Proofs
begin

text \<open>
  What swapping a tensor does to it: the bytes of the file under the type of the file, and the old place when the old
  type comes back. Then the failures, and the change of type of a split tensor.
\<close>

section \<open>Contents\<close>

definition contents :: "reload_env \<Rightarrow> reload_sys \<Rightarrow> nat \<Rightarrow> u8 list" where
  "contents env s i = (case tn_data (rs_tensors s i) of None \<Rightarrow> [] | Some (b, off) \<Rightarrow>
     (case rs_buffers s b of None \<Rightarrow> [] | Some buf \<Rightarrow> take (ggml_nbytes (en_traits env) (rs_tensors s i)) (drop off (bb_bytes buf))))"

lemma contents_same:
  "rs_tensors s' i = rs_tensors s i \<Longrightarrow> rs_buffers s' = rs_buffers s \<Longrightarrow> contents env s' i = contents env s i"
  by (auto simp: contents_def split: option.splits)

lemma splice_inside: "off + length h \<le> length xs \<Longrightarrow> take (length h) (drop off (take off xs @ h @ drop (off + length h) xs)) = h"
  by simp

lemma splice_outside:
  assumes "o2 + length h \<le> length xs" "o2 + length h \<le> off \<or> off + n \<le> o2"
  shows "take n (drop off (take o2 xs @ h @ drop (o2 + length h) xs)) = take n (drop off xs)"
proof (rule nth_equalityI)
  fix k assume "k < length (take n (drop off (take o2 xs @ h @ drop (o2 + length h) xs)))"
  then show "take n (drop off (take o2 xs @ h @ drop (o2 + length h) xs)) ! k = take n (drop off xs) ! k"
    using assms by (auto simp: nth_append)
qed (use assms in auto)

lemma set_contents:
  assumes "backend_tensor_set env i host s = Inr s'" "length host = ggml_nbytes (en_traits env) (rs_tensors s i)"
  shows "contents env s' i = host"
proof (cases "host = []")
  case True
  with assms tensor_set_keeps [OF assms(1)] show ?thesis by (auto simp: contents_def split: option.splits)
next
  case False
  with assms obtain b off buf where p: "tn_data (rs_tensors s i) = Some (b, off)" "rs_buffers s b = Some buf" "off + length host \<le> length (bb_bytes buf)"
    "s' = s\<lparr>rs_buffers := (rs_buffers s)(b \<mapsto> buf\<lparr>bb_bytes := take off (bb_bytes buf) @ host @ drop (off + length host) (bb_bytes buf)\<rparr>)\<rparr>"
    by (auto simp: backend_tensor_set_def write_bytes_def Let_def split: option.splits if_splits)
  with assms(2) splice_inside [OF p(3)] show ?thesis by (simp add: contents_def)
qed

lemma set_contents_other:
  assumes "backend_tensor_set env j host s = Inr s'" "tn_data (rs_tensors s i) = Some (b, off)"
    "\<forall>bj oj. tn_data (rs_tensors s j) = Some (bj, oj) \<longrightarrow> bj \<noteq> b \<or> oj + ggml_nbytes (en_traits env) (rs_tensors s j) \<le> off
       \<or> off + ggml_nbytes (en_traits env) (rs_tensors s i) \<le> oj"
  shows "contents env s' i = contents env s i"
proof (cases "host = []")
  case True
  with assms(1) show ?thesis by (auto simp: backend_tensor_set_def Let_def split: option.splits if_splits)
next
  case False
  with assms(1) obtain bj oj buf where p: "tn_data (rs_tensors s j) = Some (bj, oj)" "rs_buffers s bj = Some buf" "oj + length host \<le> length (bb_bytes buf)"
    "s' = s\<lparr>rs_buffers := (rs_buffers s)(bj \<mapsto> buf\<lparr>bb_bytes := take oj (bb_bytes buf) @ host @ drop (oj + length host) (bb_bytes buf)\<rparr>)\<rparr>"
    "length host \<le> ggml_nbytes (en_traits env) (rs_tensors s j)"
    by (auto simp: backend_tensor_set_def write_bytes_def Let_def split: option.splits if_splits)
  have "bj \<noteq> b \<or> oj + length host \<le> off \<or> off + ggml_nbytes (en_traits env) (rs_tensors s i) \<le> oj" using assms(3) p(1,5) by fastforce
  with assms(2) p splice_outside [OF p(3)] show ?thesis by (cases "bj = b") (auto simp: contents_def split: option.split)
qed

text \<open>No other tensor of the same name lies where this one was loaded.\<close>

definition duplicates_apart :: "reload_env \<Rightarrow> reload_sys \<Rightarrow> string \<Rightarrow> nat \<Rightarrow> pointer \<Rightarrow> nat \<Rightarrow> bool" where
  "duplicates_apart env s name i p n \<longleftrightarrow> (\<forall>(m, j) \<in> set (rs_names s). m = name \<longrightarrow> j \<noteq> i \<longrightarrow> tn_buffer (rs_tensors s j) \<noteq> None \<longrightarrow>
     (\<forall>bj oj. tn_data (rs_tensors s j) = Some (bj, oj) \<longrightarrow> bj \<noteq> fst p \<or> oj + ggml_nbytes (en_traits env) (rs_tensors s j) \<le> snd p \<or> snd p + n \<le> oj))"

lemma copy_contents:
  assumes "copy_to_duplicates env name i host names s = Inr s'" "tn_data (rs_tensors s i) = Some p"
    "duplicates_apart env s name i p (ggml_nbytes (en_traits env) (rs_tensors s i))" "set names \<subseteq> set (rs_names s)"
  shows "contents env s' i = contents env s i \<and> rs_tensors s' = rs_tensors s \<and> rs_sources s' = rs_sources s"
  using assms
proof (induction names arbitrary: s)
  case (Cons q names)
  obtain n j where q: "q = (n, j)" by (cases q)
  show ?case
  proof (cases "j \<noteq> i \<and> n = name \<and> tn_type (rs_tensors s j) = tn_type (rs_tensors s i) \<and> tn_ne (rs_tensors s j) = tn_ne (rs_tensors s i)
      \<and> \<not> tn_view (rs_tensors s j) \<and> tn_buffer (rs_tensors s j) \<noteq> None \<and> host \<noteq> [] \<and> \<not> tensor_data_in_mmap env (tn_data (rs_tensors s j))")
    case True
    with Cons.prems(1) q obtain s1 where s1: "backend_tensor_set env j host s = Inr s1" "copy_to_duplicates env name i host names s1 = Inr s'"
      by (auto simp: ebind_Inr_iff)
    from tensor_set_keeps [OF s1(1)] have same: "rs_tensors s1 = rs_tensors s" "rs_names s1 = rs_names s" "rs_sources s1 = rs_sources s" by auto
    have "(name, j) \<in> set (rs_names s)" using Cons.prems(4) q True by auto
    then have "contents env s1 i = contents env s i"
      using Cons.prems(2,3) True by (intro set_contents_other [OF s1(1), of i "fst p" "snd p"]) (auto simp: duplicates_apart_def)
    moreover have "duplicates_apart env s1 name i p (ggml_nbytes (en_traits env) (rs_tensors s1 i))"
      using Cons.prems(3) by (simp add: duplicates_apart_def same)
    ultimately show ?thesis using Cons.IH [OF s1(2)] Cons.prems(2,4) same by simp
  next
    case False
    then have "copy_to_duplicates env name i host (q # names) s = copy_to_duplicates env name i host names s"
      unfolding q copy_to_duplicates.simps Let_def by (simp only: if_False)
    with Cons.IH [OF _ Cons.prems(2,3)] Cons.prems(1,4) show ?thesis by simp
  qed
qed simp

section \<open>A successful swap\<close>

lemma return_result:
  assumes "reload_tensor_non_split_path env name src i host True old s = Inr (True, s')" "\<not> tensor_data_in_mmap env (so_data src)"
    "length host = bytes_of (en_traits env) (so_type src) (so_ne src) (so_nb src)"
  shows "contents env s' i = host" "rs_tensors s' = (rs_tensors s)(i := original_tensor src (rs_tensors s i))" "rs_names s' = rs_names s"
    "rs_sources s' = map (\<lambda>(m, x). (m, if m = name then x\<lparr>so_state := ON_ORIGINAL\<rparr> else x)) (rs_sources s)"
proof -
  let ?at = "\<lambda>s. upd_tensor i (original_tensor src) s"
  from assms(1,2) obtain s1 s2 where s1: "release_buffer old src s = Inr s1"
    and s2: "(if host = [] then Inr (?at s1) else backend_tensor_set env i host (?at s1)) = Inr s2"
    and s': "s' = upd_source name (\<lambda>x. x\<lparr>so_state := ON_ORIGINAL\<rparr>) s2"
    by (auto simp: reload_tensor_non_split_path_def Let_def ebind_Inr_iff original_tensor_def)
  have len: "length host = ggml_nbytes (en_traits env) (rs_tensors (?at s1) i)"
    using assms(3) by (simp add: ggml_nbytes_def original_tensor_def)
  have same: "rs_tensors s1 = rs_tensors s" "rs_names s1 = rs_names s" "rs_sources s1 = rs_sources s" using release_keeps [OF s1] by auto
  have s2same: "rs_tensors s2 = rs_tensors (?at s1) \<and> rs_names s2 = rs_names s1 \<and> rs_sources s2 = rs_sources s1"
    using s2 by (cases "host = []") (auto dest!: tensor_set_keeps)
  have c: "contents env s2 i = host"
  proof (cases "host = []")
    case True
    with s2 len show ?thesis by (auto simp: contents_def split: option.splits)
  next
    case False
    with s2 show ?thesis using set_contents [OF _ len] by simp
  qed
  then show "contents env s' i = host" using contents_same [of s' i s2 env] s' by simp
  show "rs_tensors s' = (rs_tensors s)(i := original_tensor src (rs_tensors s i))" "rs_names s' = rs_names s"
    "rs_sources s' = map (\<lambda>(m, x). (m, if m = name then x\<lparr>so_state := ON_ORIGINAL\<rparr> else x)) (rs_sources s)"
    using s' s2same same by simp_all
qed

lemma detach_result:
  assumes "reload_tensor_non_split_path env name src i host False old s = Inr (True, s')" "env_ok env"
    "length host = ggml_nbytes (en_traits env) (rs_tensors s i)"
  shows "contents env s' i = host" "rs_tensors s' = (rs_tensors s)(i := rs_tensors s i\<lparr>tn_buffer := Some (rs_fresh s), tn_data := Some (rs_fresh s, 0)\<rparr>)"
    "rs_names s' = rs_names s" "rs_sources s' = map (\<lambda>(m, x). (m, if m = name then x\<lparr>so_state := DETACHED\<rparr> else x)) (rs_sources s)"
proof -
  let ?at = "\<lambda>s. upd_tensor i (\<lambda>t. t\<lparr>tn_buffer := None, tn_data := None\<rparr>) s"
  from assms(1) obtain buft s1 where s1: "release_buffer old src s = Inr s1"
    "(case alloc_buffer_fallback env buft (en_alloc_size env buft (rs_tensors (?at s1) i)) (?at s1) of
           (None, s) \<Rightarrow> Inr (False, s)
         | (Some b, s) \<Rightarrow> ebind (backend_tensor_alloc env b i s) (\<lambda>s. ebind (backend_tensor_set env i host s) (\<lambda>s.
             Inr (True, upd_source name (\<lambda>x. x\<lparr>so_state := DETACHED\<rparr>) s)))) = Inr (True, s')"
    unfolding reload_tensor_non_split_path_def Let_def by (auto simp only: if_False ebind_Inr_iff)
  obtain r s2 where al: "alloc_buffer_fallback env buft (en_alloc_size env buft (rs_tensors (?at s1) i)) (?at s1) = (r, s2)" by (rule prod.exhaust)
  with s1(2) obtain b s3 s4 where b: "r = Some b" "backend_tensor_alloc env b i s2 = Inr s3" "backend_tensor_set env i host s3 = Inr s4"
    "s' = upd_source name (\<lambda>x. x\<lparr>so_state := DETACHED\<rparr>) s4"
    by (cases r) (auto simp: ebind_Inr_iff)
  note al1 = alloc_buffer_fallback_cases [OF al assms(2)]
  have same: "rs_tensors s1 = rs_tensors s" "rs_names s1 = rs_names s" "rs_sources s1 = rs_sources s" "rs_fresh s1 = rs_fresh s"
    using release_keeps [OF s1(1)] by auto
  have fresh: "b = rs_fresh s" using al1(3) [OF b(1)] same by simp
  have s3: "s3 = upd_tensor i (\<lambda>t. t\<lparr>tn_buffer := Some b, tn_data := Some (b, 0)\<rparr>) s2"
    using b(2) by (auto simp: backend_tensor_alloc_def Let_def split: option.splits if_splits)
  have s4: "rs_tensors s4 = rs_tensors s3 \<and> rs_names s4 = rs_names s3 \<and> rs_sources s4 = rs_sources s3" using tensor_set_keeps [OF b(3)] by auto
  have T: "rs_tensors s3 = (rs_tensors s)(i := rs_tensors s i\<lparr>tn_buffer := Some (rs_fresh s), tn_data := Some (rs_fresh s, 0)\<rparr>)"
    using s3 al1(1) same fresh by simp
  have "length host = ggml_nbytes (en_traits env) (rs_tensors s3 i)" using assms(3) T by (simp add: ggml_nbytes_def)
  from set_contents [OF b(3) this] show "contents env s' i = host" using contents_same [of s' i s4 env] b(4) by simp
  show "rs_tensors s' = (rs_tensors s)(i := rs_tensors s i\<lparr>tn_buffer := Some (rs_fresh s), tn_data := Some (rs_fresh s, 0)\<rparr>)"
    "rs_names s' = rs_names s" "rs_sources s' = map (\<lambda>(m, x). (m, if m = name then x\<lparr>so_state := DETACHED\<rparr> else x)) (rs_sources s)"
    using b(4) s4 T s3 al1(1) same by simp_all
qed

lemma apart_tensors:
  assumes "rs_names s' = rs_names s" "\<forall>j. j \<noteq> i \<longrightarrow> rs_tensors s' j = rs_tensors s j"
  shows "duplicates_apart env s' name i p n = duplicates_apart env s name i p n"
proof -
  have "rs_tensors s' j = rs_tensors s j" if "j \<noteq> i" for j using assms(2) that by blast
  then show ?thesis unfolding duplicates_apart_def assms(1) by (intro ball_cong refl) (auto split: prod.splits)
qed

text \<open>The other tensors of the name are where they were loaded, so never in fresh memory.\<close>

lemma fresh_apart:
  assumes inv: "reload_inv env base s" and i: "find_tensor name s = Some i" and fresh: "fst p \<notin> base"
  shows "duplicates_apart env s name i p n"
proof -
  have "bj \<noteq> fst p" if j: "(name, j) \<in> set (rs_names s)" "j \<noteq> i" "tn_buffer (rs_tensors s j) \<noteq> None" "tn_data (rs_tensors s j) = Some (bj, oj)" for j bj oj
  proof -
    have "find_tensor m s \<noteq> Some j" for m
    proof
      assume m: "find_tensor m s = Some j"
      then have "(m, j) \<in> set (rs_names s)" by (auto simp: find_tensor_def dest: map_of_SomeD)
      then have "m = name" using inv j(1) by (auto simp: reload_inv_def)
      with m i j(2) show False by simp
    qed
    then have "pristine env base s j" using inv by (simp add: reload_inv_def)
    with j(3,4) fresh show ?thesis by (auto simp: pristine_def in_base_def)
  qed
  then show ?thesis by (auto simp: duplicates_apart_def)
qed

definition up_to_date :: "disk \<Rightarrow> string \<Rightarrow> reload_sys \<Rightarrow> bool" where
  "up_to_date disk name s \<longleftrightarrow> (\<forall>src. map_of (rs_sources s) name = Some src \<longrightarrow> source_changed disk src = None)"

text \<open>What a swap is to leave: the bytes of the file, and the old place when the type is the old one.\<close>

definition swapped :: "reload_env \<Rightarrow> disk \<Rightarrow> string \<Rightarrow> tensor_reload_source \<Rightarrow> nat \<Rightarrow> reload_sys \<Rightarrow> bool" where
  "swapped env disk name src i s \<longleftrightarrow> (\<exists>file fm. disk (so_path src) = Some file \<and> en_gguf env (snd (snd file)) name = Some fm
     \<and> tn_type (rs_tensors s i) = fm_type fm
     \<and> contents env s i = take (ggml_nbytes (en_traits env) (rs_tensors s i)) (drop (fm_offset fm) (snd (snd file)))
     \<and> length (contents env s i) = ggml_nbytes (en_traits env) (rs_tensors s i)
     \<and> (fm_type fm = so_type src \<longrightarrow> rs_tensors s i = original_tensor src (rs_tensors s i)))"

lemma map_of_one_source: "map_of (map (\<lambda>(m, x). (m, if m = name then f x else x)) xs) name = map_option f (map_of xs name)"
  by (induction xs) auto

lemma finish_result:
  assumes copy: "copy_to_duplicates env name i host (rs_names s) s = Inr s1" and s': "s' = upd_source name (\<lambda>x. x\<lparr>so_mtime := fst file, so_mtime_ns := fst (snd file)\<rparr>) s1"
    and p: "tn_data (rs_tensors s i) = Some p" "duplicates_apart env s name i p (ggml_nbytes (en_traits env) (rs_tensors s i))"
    and path: "\<forall>x. map_of (rs_sources s) name = Some x \<longrightarrow> so_path x = pa" "disk pa = Some file"
  shows "contents env s' i = contents env s i" "rs_tensors s' = rs_tensors s" "up_to_date disk name s'"
proof -
  from copy_contents [OF copy p subset_refl] have c: "contents env s1 i = contents env s i" "rs_tensors s1 = rs_tensors s" "rs_sources s1 = rs_sources s" by auto
  show "contents env s' i = contents env s i" using c(1) contents_same [of s' i s1 env] s' by simp
  show "rs_tensors s' = rs_tensors s" using c(2) s' by simp
  have "map_of (rs_sources s') name = map_option (\<lambda>x. x\<lparr>so_mtime := fst file, so_mtime_ns := fst (snd file)\<rparr>) (map_of (rs_sources s) name)"
    unfolding s' upd_source_simps c(3) by (rule map_of_one_source)
  with path show "up_to_date disk name s'" by (auto simp: up_to_date_def source_changed_def)
qed

lemma swap_result:
  assumes env: "env_ok env" and inv: "reload_inv env base s" and src: "map_of (rs_sources s) name = Some src" "so_buffer src \<noteq> None"
    and i: "find_tensor name s = Some i" and disk: "disk (so_path src) = Some file" "en_gguf env (snd (snd file)) name = Some fm"
    and p: "so_data src = Some p" "duplicates_apart env s name i p (so_nbytes src)"
    and swap: "swap_tensor env name src i file fm s = Inr (True, s')"
  shows "swapped env disk name src i s' \<and> up_to_date disk name s'"
proof -
  note ok = reload_inv_source [OF inv src(1)]
  have ext: "tn_extra (rs_tensors s i) = None" using inv by (simp add: reload_inv_def)
  have nbytes: "so_nbytes src = bytes_of (en_traits env) (so_type src) (so_ne src) (so_nb src)" using ok src(2) by (auto simp: source_ok_def)
  show ?thesis
  proof (cases "fm_type fm = so_type src")
    case True
    with swap ext obtain host s1 s2 where host: "read_tensor (snd (snd file)) fm (so_nbytes src) = Some host"
      and path: "reload_tensor_non_split_path env name src i host True (tn_buffer (rs_tensors s i)) s = Inr (True, s1)"
      and copy: "copy_to_duplicates env name i host (rs_names s1) s1 = Inr s2"
      and s': "s' = upd_source name (\<lambda>x. x\<lparr>so_mtime := fst file, so_mtime_ns := fst (snd file)\<rparr>) s2"
      and map: "\<not> tensor_data_in_mmap env (so_data src)"
      by (auto simp: swap_tensor_def Let_def ebind_Inr_iff split: option.splits if_splits)
    have h: "host = take (so_nbytes src) (drop (fm_offset fm) (snd (snd file)))" "length host = so_nbytes src"
      using host by (auto simp: read_tensor_def Let_def split: if_splits)
    note r = return_result [OF path map h(2) [unfolded nbytes]]
    have T: "rs_tensors s1 i = original_tensor src (rs_tensors s i)" by (simp add: r(2))
    have n: "ggml_nbytes (en_traits env) (rs_tensors s1 i) = so_nbytes src" by (simp add: T original_tensor_def ggml_nbytes_def nbytes)
    have "duplicates_apart env s1 name i p (so_nbytes src) = duplicates_apart env s name i p (so_nbytes src)"
      by (rule apart_tensors) (simp_all add: r(2,3))
    with finish_result [OF copy s', of p "so_path src" disk] p disk(1) r(4) src(1) T n
    have f: "contents env s' i = contents env s1 i" "rs_tensors s' = rs_tensors s1" "up_to_date disk name s'"
      by (auto simp: original_tensor_def map_of_one_source)
    have "original_tensor src (original_tensor src (rs_tensors s i)) = original_tensor src (rs_tensors s i)" by (simp add: original_tensor_def)
    then have "swapped env disk name src i s'"
      using f r(1) h T n True disk by (auto simp: swapped_def original_tensor_def)
    with f(3) show ?thesis by simp
  next
    case False
    have "\<exists>s0. (if fm_type fm \<noteq> tn_type (rs_tensors s i)
          then ebind (apply_tensor_type_change (en_traits env) (fm_type fm) (rs_tensors s i)) (\<lambda>t. Inr (upd_tensor i (\<lambda>_. t) s))
          else Inr s) = Inr s0 \<and> reload_inv env base s0 \<and> rs_names s0 = rs_names s \<and> rs_sources s0 = rs_sources s
        \<and> tn_type (rs_tensors s0 i) = fm_type fm"
    proof (cases "fm_type fm \<noteq> tn_type (rs_tensors s i)")
      case True
      then obtain t where t: "apply_tensor_type_change (en_traits env) (fm_type fm) (rs_tensors s i) = Inr t"
        using swap False by (auto simp: swap_tensor_def Let_def ebind_Inr_iff)
      with type_change_cases [OF ext, of "en_traits env" "fm_type fm"] obtain nb where nb: "t = rs_tensors s i\<lparr>tn_type := fm_type fm, tn_nb := nb\<rparr>" by auto
      have "upd_tensor i (\<lambda>_. t) s = upd_tensor i (\<lambda>t. t\<lparr>tn_type := fm_type fm, tn_nb := nb\<rparr>) s" by (simp add: upd_tensor_def nb)
      with t True retype_inv [OF inv src i, where ty = "fm_type fm" and nb = nb] show ?thesis by simp
    qed (use inv in auto)
    then obtain s0 where s0: "(if fm_type fm \<noteq> tn_type (rs_tensors s i)
          then ebind (apply_tensor_type_change (en_traits env) (fm_type fm) (rs_tensors s i)) (\<lambda>t. Inr (upd_tensor i (\<lambda>_. t) s))
          else Inr s) = Inr s0" "reload_inv env base s0" "rs_names s0 = rs_names s" "rs_sources s0 = rs_sources s" "tn_type (rs_tensors s0 i) = fm_type fm"
      by blast
    have ext0: "tn_extra (rs_tensors s0 i) = None" using s0(2) by (simp add: reload_inv_def)
    from swap False s0(1) ext0 obtain host s1 s2 where
      host: "read_tensor (snd (snd file)) fm (ggml_nbytes (en_traits env) (rs_tensors s0 i)) = Some host"
      and path: "reload_tensor_non_split_path env name src i host False (tn_buffer (rs_tensors s i)) s0 = Inr (True, s1)"
      and copy: "copy_to_duplicates env name i host (rs_names s1) s1 = Inr s2"
      and s': "s' = upd_source name (\<lambda>x. x\<lparr>so_mtime := fst file, so_mtime_ns := fst (snd file)\<rparr>) s2"
      by (auto simp: swap_tensor_def Let_def ebind_Inr_iff split: option.splits if_splits)
    have h: "host = take (ggml_nbytes (en_traits env) (rs_tensors s0 i)) (drop (fm_offset fm) (snd (snd file)))"
      "length host = ggml_nbytes (en_traits env) (rs_tensors s0 i)"
      using host by (auto simp: read_tensor_def Let_def split: if_splits)
    note r = detach_result [OF path env h(2)]
    have T: "rs_tensors s1 i = rs_tensors s0 i\<lparr>tn_buffer := Some (rs_fresh s0), tn_data := Some (rs_fresh s0, 0)\<rparr>" by (simp add: r(2))
    have n: "ggml_nbytes (en_traits env) (rs_tensors s1 i) = ggml_nbytes (en_traits env) (rs_tensors s0 i)" by (simp add: T ggml_nbytes_def)
    have "rs_fresh s0 \<notin> base" using s0(2) by (auto simp: reload_inv_def heap_ok_def simp del: domIff)
    then have "duplicates_apart env s0 name i (rs_fresh s0, 0) k" for k
      using i s0(3) by (intro fresh_apart [OF s0(2)]) (simp_all add: find_tensor_def)
    moreover have "duplicates_apart env s1 name i q k = duplicates_apart env s0 name i q k" for q k
      by (rule apart_tensors) (simp_all add: r(2,3))
    ultimately have "duplicates_apart env s1 name i (rs_fresh s0, 0) k" for k by simp
    with finish_result [OF copy s', of "(rs_fresh s0, 0)" "so_path src" disk] disk(1) r(4) src(1) T s0(4)
    have f: "contents env s' i = contents env s1 i" "rs_tensors s' = rs_tensors s1" "up_to_date disk name s'"
      by (auto simp: map_of_one_source)
    have "swapped env disk name src i s'"
      using f r(1) h T n False disk s0(5) by (auto simp: swapped_def)
    with f(3) show ?thesis by simp
  qed
qed

text \<open>C12. After any number of rounds, a swap that reports success leaves in the tensor exactly the bytes of the file under the type of
  the file, puts the tensor back to its old buffer, place and strides when the type is the one it was loaded with, and counts as up to date.\<close>

theorem swap_loads_file:
  assumes "env_ok env" "loaded env s0" "reload_rounds env order disks s0 = Inr s"
    "map_of (rs_sources s) name = Some src" "find_tensor name s = Some i" "so_data src = Some p" "duplicates_apart env s name i p (so_nbytes src)"
    "reload_tensor env disk name s = Inr (True, s')"
  shows "swapped env disk name src i s' \<and> up_to_date disk name s'"
proof -
  have inv: "reload_inv env (dom (rs_buffers s0)) s"
    using reload_rounds_inv [OF assms(1) loaded_inv [OF assms(2)], of order disks] assms(3) by simp
  from assms(4,5,8) obtain x fm where x: "source_changed disk src = Some x" "en_gguf env (snd (snd x)) name = Some fm"
    "so_buffer src \<noteq> None" "swap_tensor env name src i x fm s = Inr (True, s')"
    by (auto simp: reload_tensor_def split: option.splits if_splits)
  have "disk (so_path src) = Some x" using x(1) by (auto simp: source_changed_def split: option.splits if_splits)
  then show ?thesis by (rule swap_result [OF assms(1) inv assms(4) x(3) assms(5) _ x(2) assms(6,7) x(4)])
qed

section \<open>An example\<close>

text \<open>One tensor of two elements of one byte; a file starts with its type. The second type has two bytes for each element.\<close>

definition ex_env :: reload_env where
  "ex_env = \<lparr>en_traits = (\<lambda>ty. \<lparr>tt_blck = 1, tt_size = Suc ty, tt_meta = 0\<rparr>),
     en_alloc_size = (\<lambda>buft t. ggml_nbytes (\<lambda>ty. \<lparr>tt_blck = 1, tt_size = Suc ty, tt_meta = 0\<rparr>) t),
     en_memory = (\<lambda>k buft n. Some (replicate n 0)), en_mapped = (\<lambda>p. False),
     en_gguf = (\<lambda>bytes n. case bytes of [] \<Rightarrow> None | t # _ \<Rightarrow> Some \<lparr>fm_offset = 1, fm_nbytes = 2 * Suc (unat t), fm_type = unat t, fm_ne = [2, 1, 1, 1]\<rparr>),
     en_khad = False, en_bitnet = False, en_openpangu = False, en_split_path = (\<lambda>i n host r old s. Inr (False, s))\<rparr>"

definition ex_tensor :: tensor where
  "ex_tensor = \<lparr>tn_type = 0, tn_ne = [2, 1, 1, 1], tn_nb = [1, 2, 2, 2], tn_buffer = None, tn_data = None, tn_view = False, tn_extra = None\<rparr>"

definition ex_disk :: "int \<Rightarrow> u8 list \<Rightarrow> disk" where
  "ex_disk mtime bytes = (\<lambda>path. Some (mtime, 0, bytes))"

definition ex_loaded :: reload_sys where
  "ex_loaded = \<lparr>rs_tensors = (\<lambda>_. ex_tensor)(0 := ex_tensor\<lparr>tn_buffer := Some 0, tn_data := Some (0, 0)\<rparr>), rs_names = [(''w'', 0)],
     rs_sources = reload_info_new (ex_disk 1 [0, 5, 6]) [(''w'', ''f'')],
     rs_buffers = [0 \<mapsto> \<lparr>bb_buft = 0, bb_bytes = [5, 6]\<rparr>], rs_fresh = 1, rs_attempts = 0, rs_snapshots_done = False\<rparr>"

lemmas ex_defs = ex_env_def ex_tensor_def ex_disk_def ex_loaded_def reload_info_new_def

lemma ex_ok: "env_ok ex_env" "loaded ex_env ex_loaded"
  by (auto simp: env_ok_def ex_defs loaded_def pristine_def in_base_def buffer_length_def ggml_nbytes_def bytes_of_def GGML_TYPE_I2_S_def)

lemmas reload_exec = reload_changed_tensors_def snapshot_all_reload_tensors_def snapshot_named_def snapshot_tensor_source_def find_tensor_def
  reload_job_def source_changed_def reload_tensor_def swap_tensor_def apply_tensor_type_change_def new_strides_def n_dims_def read_tensor_def
  reload_tensor_non_split_path_def release_buffer_def buffer_type_def alloc_buffer_fallback_def buft_alloc_buffer_def backend_tensor_alloc_def
  backend_tensor_set_def write_bytes_def tensor_data_in_mmap_def hotswap_unsupported_def has_sub_def ggml_nbytes_def bytes_of_def ggml_row_size_def
  GGML_TYPE_I2_S_def upd_tensor_def upd_source_def buffer_free_def original_tensor_def moe_suffixes_def List.map_filter_def

definition ex_ready :: reload_sys where
  "ex_ready = projr (reload_rounds ex_env (\<lambda>x. x) [ex_disk 1 [0, 5, 6]] ex_loaded)"

lemma ex_ready: "reload_rounds ex_env (\<lambda>x. x) [ex_disk 1 [0, 5, 6]] ex_loaded = Inr ex_ready"
  by (simp add: ex_ready_def reload_exec ex_defs)

lemma ex_swapped: "\<exists>s'. reload_tensor ex_env (ex_disk 2 [1, 7, 8, 9, 10]) ''w'' ex_ready = Inr (True, s')"
  by (simp add: ex_ready_def reload_exec ex_defs)

definition ex_src :: tensor_reload_source where
  "ex_src = \<lparr>so_path = ''f'', so_mtime = 1, so_mtime_ns = 0, so_buffer = Some 0, so_data = Some (0, 0), so_type = 0, so_nbytes = 2,
     so_ne = [2, 1, 1, 1], so_nb = [1, 2, 2, 2], so_siblings = [], so_state = ON_ORIGINAL\<rparr>"

lemma ex_source:
  "map_of (rs_sources ex_ready) ''w'' = Some ex_src" "find_tensor ''w'' ex_ready = Some 0" "duplicates_apart ex_env ex_ready ''w'' 0 q k"
  "rs_tensors ex_ready 0 = ex_tensor\<lparr>tn_buffer := Some 0, tn_data := Some (0, 0)\<rparr>"
  by (simp_all add: ex_ready_def reload_exec ex_defs ex_src_def duplicates_apart_def)

theorem swap_loads_file_witness:
  "\<exists>s'. reload_tensor ex_env (ex_disk 2 [1, 7, 8, 9, 10]) ''w'' ex_ready = Inr (True, s')
     \<and> swapped ex_env (ex_disk 2 [1, 7, 8, 9, 10]) ''w'' ex_src 0 s' \<and> up_to_date (ex_disk 2 [1, 7, 8, 9, 10]) ''w'' s'"
proof -
  have "so_data ex_src = Some (0, 0)" by (simp add: ex_src_def)
  from ex_swapped swap_loads_file [OF ex_ok ex_ready ex_source(1,2) this ex_source(3)] show ?thesis by blast
qed

theorem reload_memory_safe_witness:
  "case reload_rounds ex_env (\<lambda>x. x) [ex_disk 1 [0, 5, 6], ex_disk 2 [1, 7, 8, 9, 10], ex_disk 3 [0, 1, 2]] ex_loaded of Inl e \<Rightarrow> e = ''assert''
    | Inr s' \<Rightarrow> dom (rs_buffers ex_loaded) \<subseteq> dom (rs_buffers s')
        \<and> (\<forall>i b. tn_buffer (rs_tensors s' i) = Some b \<longrightarrow> b \<in> dom (rs_buffers s'))
        \<and> (\<forall>b \<in> dom (rs_buffers s') - dom (rs_buffers ex_loaded). \<exists>!i. tn_buffer (rs_tensors s' i) = Some b)"
  by (rule reload_memory_safe [OF ex_ok])

section \<open>A swap that fails\<close>

text \<open>C0. The type is changed before the bytes are read. When the file is cut short the swap reports failure, but the tensor now has the
  new type and its strides over the old bytes.\<close>

theorem failed_read_changes_type:
  assumes "map_of (rs_sources s) name = Some src" "source_changed disk src = Some x" "en_gguf env (snd (snd x)) name = Some fm"
    "find_tensor name s = Some i" "so_buffer src \<noteq> None" "tn_ne (rs_tensors s i) = fm_ne fm" "\<not> hotswap_unsupported env name (rs_tensors s i)"
    "tn_extra (rs_tensors s i) = None" "fm_type fm \<noteq> so_type src" "fm_type fm \<noteq> tn_type (rs_tensors s i)"
    "new_strides (en_traits env) (fm_type fm) (n_dims (fm_ne fm)) (fm_ne fm) = Inr nb"
    "0 < bytes_of (en_traits env) (fm_type fm) (fm_ne fm) nb" "length (snd (snd x)) < fm_offset fm + bytes_of (en_traits env) (fm_type fm) (fm_ne fm) nb"
  shows "\<exists>s'. reload_tensor env disk name s = Inr (False, s') \<and> rs_buffers s' = rs_buffers s
    \<and> rs_tensors s' i = rs_tensors s i\<lparr>tn_type := fm_type fm, tn_nb := nb\<rparr>"
  using assms by (auto simp: reload_tensor_def swap_tensor_def apply_tensor_type_change_def read_tensor_def Let_def ggml_nbytes_def)

theorem failed_read_changes_type_witness:
  "\<exists>s'. reload_tensor ex_env (ex_disk 2 [1, 7, 8]) ''w'' ex_ready = Inr (False, s') \<and> rs_buffers s' = rs_buffers ex_ready
    \<and> rs_tensors s' 0 = rs_tensors ex_ready 0\<lparr>tn_type := 1, tn_nb := [2, 4, 4, 4]\<rparr>"
proof -
  let ?fm = "\<lparr>fm_offset = 1, fm_nbytes = 4, fm_type = 1, fm_ne = [2, 1, 1, 1]\<rparr>"
  have meta: "en_gguf ex_env (snd (snd (2 :: int, 0 :: int, [1, 7, 8]))) ''w'' = Some ?fm" by (simp add: ex_env_def)
  have "source_changed (ex_disk 2 [1, 7, 8]) ex_src = Some (2, 0, [1, 7, 8])" by (simp add: source_changed_def ex_disk_def ex_src_def)
  from failed_read_changes_type [OF ex_source(1) this meta ex_source(2), of "[2, 4, 4, 4]"] show ?thesis
    by (simp add: ex_source(4) ex_src_def ex_tensor_def ex_env_def hotswap_unsupported_def has_sub_def new_strides_def n_dims_def
        ggml_row_size_def bytes_of_def GGML_TYPE_I2_S_def)
qed

text \<open>When no memory is left the swap reports failure and the tensor has no data at all.\<close>

lemma failed_allocation_loses_data:
  assumes "reload_tensor_non_split_path env name src i host False old s = Inr (False, s')"
  shows "tn_buffer (rs_tensors s' i) = None \<and> tn_data (rs_tensors s' i) = None"
proof -
  let ?at = "\<lambda>s. upd_tensor i (\<lambda>t. t\<lparr>tn_buffer := None, tn_data := None\<rparr>) s"
  from assms obtain buft s1 where s1:
    "(case alloc_buffer_fallback env buft (en_alloc_size env buft (rs_tensors (?at s1) i)) (?at s1) of
           (None, s) \<Rightarrow> Inr (False, s)
         | (Some b, s) \<Rightarrow> ebind (backend_tensor_alloc env b i s) (\<lambda>s. ebind (backend_tensor_set env i host s) (\<lambda>s.
             Inr (True, upd_source name (\<lambda>x. x\<lparr>so_state := DETACHED\<rparr>) s)))) = Inr (False, s')"
    unfolding reload_tensor_non_split_path_def Let_def by (auto simp only: if_False ebind_Inr_iff)
  obtain r s2 where al: "alloc_buffer_fallback env buft (en_alloc_size env buft (rs_tensors (?at s1) i)) (?at s1) = (r, s2)" by (rule prod.exhaust)
  with s1 have "r = None" "s' = s2" by (cases r; auto simp: ebind_Inr_iff)+
  with alloc_keeps [OF al] show ?thesis by simp
qed

end
