(* ===== verification/Reload_Splits.thy ===== *)
theory Reload_Splits
  imports Tensor_Reload
begin

text \<open>
  The change of type of a tensor that is split over devices: along the first dimension the parts stay whole
  blocks and cover the tensor; along any other dimension the final check of the code fails.
\<close>

section \<open>Rounding\<close>

lemma round_up_dvd: "bs > 0 \<Longrightarrow> 0 \<le> b \<Longrightarrow> bs dvd round_up bs b"
  by (simp add: round_up_def)

lemma round_up_least:
  assumes "bs > 0" "0 \<le> b" "b \<le> n" "bs dvd n"
  shows "round_up bs b \<le> n"
proof (cases "b > 0")
  case True
  from assms(4) obtain k where k: "n = bs * k" by blast
  have "(b + bs - 1) div bs \<le> (bs * k + (bs - 1)) div bs" using assms k by (intro zdiv_mono1) auto
  also have "\<dots> = k" using assms(1) by simp
  finally show ?thesis using True assms(1) k by (simp add: round_up_def mult.commute)
qed (use assms in \<open>simp add: round_up_def\<close>)

lemma round_up_ge: "bs > 0 \<Longrightarrow> 0 \<le> b \<Longrightarrow> b \<le> round_up bs b"
proof -
  assume bs: "bs > 0" "0 \<le> b"
  have "(b + bs - 1) div bs * bs = b + bs - 1 - (b + bs - 1) mod bs" by (simp add: minus_mod_eq_div_mult [symmetric])
  moreover have "(b + bs - 1) mod bs \<le> bs - 1" using pos_mod_bound [OF bs(1), of "b + bs - 1"] by simp
  ultimately show ?thesis by (simp add: round_up_def)
qed

lemma round_up_mono: "bs > 0 \<Longrightarrow> 0 \<le> a \<Longrightarrow> a \<le> b \<Longrightarrow> round_up bs a \<le> round_up bs b"
  using round_up_least [of bs a "round_up bs b"] round_up_ge [of bs b] round_up_dvd [of bs b] by simp

lemma round_up_whole: "bs > 0 \<Longrightarrow> 0 \<le> b \<Longrightarrow> bs dvd b \<Longrightarrow> round_up bs b = b"
  using round_up_least [of bs b b] round_up_ge [of bs b] by simp

section \<open>Cutting\<close>

definition part_len :: "tensor_split option \<Rightarrow> int" where
  "part_len p = (case p of None \<Rightarrow> 0 | Some s \<Rightarrow> hd (pl_ne s))"

lemma part_len_simps [simp]: "part_len None = 0" "part_len (Some s) = hd (pl_ne s)"
  by (simp_all add: part_len_def)

lemma part_sum_len: "part_sum ps = sum_list (map part_len ps)"
  by (simp add: part_sum_def part_len_def [abs_def])

lemma part_ends_Cons: "part_ends acc (p # ps) = (acc + part_len p) # part_ends (acc + part_len p) ps"
  by (cases p) (simp_all add: Let_def)

lemma part_ends_Nil_iff: "part_ends acc ps = [] \<longleftrightarrow> ps = []"
  by (cases ps) (simp_all add: part_ends_Cons del: part_ends.simps(2))

definition bounds_from :: "int \<Rightarrow> int \<Rightarrow> int \<Rightarrow> tensor_split option list \<Rightarrow> int list" where
  "bounds_from bs n acc ps = map (round_up bs) (butlast (part_ends acc ps)) @ [n]"

lemma bounds_from_one: "bounds_from bs n acc [p] = [n]"
  by (simp add: bounds_from_def part_ends_Cons del: part_ends.simps(2))

lemma bounds_from_more: "ps \<noteq> [] \<Longrightarrow> bounds_from bs n acc (p # ps) = round_up bs (acc + part_len p) # bounds_from bs n (acc + part_len p) ps"
  by (simp add: bounds_from_def part_ends_Cons part_ends_Nil_iff del: part_ends.simps(2))

lemma running_max_sorted: "sorted (m # bs) \<Longrightarrow> running_max m bs = bs"
  by (induction bs arbitrary: m) auto

lemma cut_parts_Cons:
  "cut_parts prev (b # bounds) (p # ps) = (if p = None \<or> b \<le> prev then None else Some ((the p)\<lparr>pl_ne := (b - prev) # tl (pl_ne (the p))\<rparr>)) # cut_parts b bounds ps"
  by (simp split: option.split)

definition block_part :: "int \<Rightarrow> tensor_split option \<Rightarrow> bool" where
  "block_part bs p \<longleftrightarrow> (\<forall>s. p = Some s \<longrightarrow> 0 < hd (pl_ne s) \<and> bs dvd hd (pl_ne s))"

lemma cut_whole:
  assumes "bs > 0" "bs dvd n"
  shows "ps \<noteq> [] \<Longrightarrow> \<forall>p \<in> set ps. 0 \<le> part_len p \<Longrightarrow> 0 \<le> acc \<Longrightarrow> acc + part_sum ps = n \<Longrightarrow>
     sorted (round_up bs acc # bounds_from bs n acc ps)
     \<and> part_sum (cut_parts (round_up bs acc) (bounds_from bs n acc ps) ps) = n - round_up bs acc
     \<and> list_all (block_part bs) (cut_parts (round_up bs acc) (bounds_from bs n acc ps) ps)"
proof (induction ps arbitrary: acc)
  case (Cons p ps)
  let ?acc = "acc + part_len p"
  have p: "0 \<le> part_len p" using Cons.prems(2) by simp
  have none: "p = None \<Longrightarrow> ?acc = acc" by simp
  have le: "acc \<le> n"
  proof -
    have "0 \<le> part_sum (p # ps)" unfolding part_sum_len using Cons.prems(2) by (intro sum_list_nonneg) auto
    with Cons.prems(4) show ?thesis by simp
  qed
  show ?case
  proof (cases "ps = []")
    case True
    have n: "?acc = n" using Cons.prems(4) True by (simp add: part_sum_len)
    have ge: "round_up bs acc \<le> n" by (rule round_up_least) (use assms Cons.prems(3) le in auto)
    have "p = None \<Longrightarrow> round_up bs acc = n" using none n assms round_up_whole [of bs n] Cons.prems(3) by simp
    moreover have "bs dvd n - round_up bs acc" using assms round_up_dvd [of bs acc] Cons.prems(3) by simp
    ultimately show ?thesis using True ge
      unfolding True bounds_from_one cut_parts_Cons by (auto simp: part_sum_len block_part_def)
  next
    case False
    have prems: "\<forall>p \<in> set ps. 0 \<le> part_len p" "0 \<le> ?acc" "?acc + part_sum ps = n"
      using Cons.prems p by (auto simp: part_sum_len)
    note IH = Cons.IH [OF False prems]
    have mono: "round_up bs acc \<le> round_up bs ?acc" using assms(1) Cons.prems(3) p by (intro round_up_mono) auto
    have "bs dvd round_up bs ?acc - round_up bs acc" using assms(1) round_up_dvd [of bs] Cons.prems(3) prems(2) by simp
    moreover have "p = None \<Longrightarrow> round_up bs ?acc = round_up bs acc" using none by simp
    ultimately show ?thesis using IH mono
      unfolding bounds_from_more [OF False] cut_parts_Cons by (auto simp: part_sum_len block_part_def)
  qed
qed simp

lemma split_bounds_from:
  assumes "bs > 0" "bs dvd n" "ps \<noteq> []" "\<forall>p \<in> set ps. 0 \<le> part_len p" "part_sum ps = n"
  shows "split_bounds bs n ps = bounds_from bs n 0 ps"
proof -
  have "sorted (0 # bounds_from bs n 0 ps)" using cut_whole [OF assms(1,2,3,4), of 0] assms(5) by (simp add: round_up_def)
  moreover obtain b bounds where b: "bounds_from bs n 0 ps = b # bounds" by (cases "bounds_from bs n 0 ps") (auto simp: bounds_from_def)
  ultimately have "running_max b bounds = bounds" by (intro running_max_sorted) simp
  then show ?thesis using b by (simp add: split_bounds_def bounds_from_def)
qed

section \<open>The change of type\<close>

definition retyped :: "nat \<Rightarrow> tensor_split option \<Rightarrow> tensor_split option \<Rightarrow> bool" where
  "retyped ty q p \<longleftrightarrow> (case p of None \<Rightarrow> q = None | Some t \<Rightarrow> \<exists>s. q = Some s \<and> pl_ne s = pl_ne t \<and> pl_type s = ty)"

lemma retype_one: "dims > 0 \<Longrightarrow> \<exists>q. retype_part tr ty dims p = Inr q \<and> part_len q = part_len p \<and> retyped ty q p"
  by (cases p) (auto simp: retype_part_def new_strides_def Let_def retyped_def)

lemma retype_all:
  assumes "dims > 0"
  shows "\<exists>qs. emap (retype_part tr ty dims) ps = Inr qs \<and> part_sum qs = part_sum ps \<and> list_all2 (retyped ty) qs ps"
proof (induction ps)
  case (Cons p ps)
  then obtain qs where "emap (retype_part tr ty dims) ps = Inr qs" "part_sum qs = part_sum ps" "list_all2 (retyped ty) qs ps" by blast
  moreover obtain q where "retype_part tr ty dims p = Inr q" "part_len q = part_len p" "retyped ty q p" using retype_one [OF assms] by blast
  ultimately show ?case by (simp add: part_sum_len)
qed simp

lemma retyped_member: "list_all2 (retyped ty) qs ps \<Longrightarrow> Some s \<in> set qs \<Longrightarrow> \<exists>t. Some t \<in> set ps \<and> pl_ne s = pl_ne t \<and> pl_type s = ty"
  by (induction rule: list_all2_induct) (auto simp: retyped_def split: option.splits)

lemma retype_parts_whole_blocks:
  assumes "se_dim e = 0" "tt_blck (tr ty) > 1" "se_splits e \<noteq> []" "\<forall>p \<in> set (se_splits e). 0 \<le> part_len p"
    "part_sum (se_splits e) = hd ne" "int (tt_blck (tr ty)) dvd hd ne" "n_dims ne > 0"
  shows "\<exists>e'. retype_parts tr ty ne e = Inr e' \<and> part_sum (se_splits e') = hd ne
     \<and> (\<forall>s. Some s \<in> set (se_splits e') \<longrightarrow> pl_type s = ty \<and> 0 < hd (pl_ne s) \<and> int (tt_blck (tr ty)) dvd hd (pl_ne s))"
proof -
  let ?bs = "int (tt_blck (tr ty))" and ?ps = "se_splits e"
  let ?cut = "cut_parts 0 (split_bounds ?bs (hd ne) ?ps) ?ps"
  have bs: "?bs > 0" using assms(2) by simp
  from cut_whole [OF bs assms(6,3,4), of 0] assms(5)
  have cut: "part_sum ?cut = hd ne" "list_all (block_part ?bs) ?cut"
    unfolding split_bounds_from [OF bs assms(6,3,4,5)] by (simp_all add: round_up_def)
  from retype_all [OF assms(7), of tr ty ?cut] obtain qs where qs: "emap (retype_part tr ty (n_dims ne)) ?cut = Inr qs" "part_sum qs = part_sum ?cut"
    "list_all2 (retyped ty) qs ?cut" by blast
  have "pl_type s = ty \<and> 0 < hd (pl_ne s) \<and> ?bs dvd hd (pl_ne s)" if "Some s \<in> set qs" for s
    using retyped_member [OF qs(3) that] cut(2) by (auto simp: list_all_iff block_part_def)
  moreover have "retype_parts tr ty ne e = Inr (e\<lparr>se_splits := qs\<rparr>)"
    using assms(1,2) qs cut(1) by (simp add: retype_parts_def Let_def)
  ultimately show ?thesis using qs(2) cut(1) by (intro exI [of _ "e\<lparr>se_splits := qs\<rparr>"]) simp
qed

definition part_of :: "int list \<Rightarrow> tensor_split option" where
  "part_of ne = Some \<lparr>pl_type = 0, pl_ne = ne, pl_nb = []\<rparr>"

lemma parts_full_abort:
  assumes "tn_extra t = Some e" "se_dim e \<noteq> 0" "0 < hd (tn_ne t)"
    "\<forall>p. Some p \<in> set (se_splits e) \<longrightarrow> hd (pl_ne p) = hd (tn_ne t)" "2 \<le> length (filter (\<lambda>p. p \<noteq> None) (se_splits e))"
  shows "apply_tensor_type_change tr ty t = Inl ''assert''"
proof (cases "n_dims (tn_ne t) > 0")
  case True
  have sum: "part_sum ps = int (length (filter (\<lambda>p. p \<noteq> None) ps)) * hd (tn_ne t)"
    if "\<forall>p. Some p \<in> set ps \<longrightarrow> hd (pl_ne p) = hd (tn_ne t)" for ps
    using that by (induction ps) (auto simp: part_sum_def algebra_simps split: option.split)
  have "2 * hd (tn_ne t) \<le> part_sum (se_splits e)"
    unfolding sum [OF assms(4)] using assms(3,5) by (intro mult_right_mono) auto
  then have "part_sum (se_splits e) \<noteq> hd (tn_ne t)" using assms(3) by linarith
  moreover obtain qs where "emap (retype_part tr ty (n_dims (tn_ne t))) (se_splits e) = Inr qs" "part_sum qs = part_sum (se_splits e)"
    using retype_all [OF True, of tr ty "se_splits e"] by blast
  ultimately have "retype_parts tr ty (tn_ne t) e = Inl ''assert''" using assms(2) by (simp add: retype_parts_def Let_def)
  then show ?thesis using assms(1) True by (simp add: apply_tensor_type_change_def new_strides_def Let_def)
next
  case False
  then show ?thesis by (simp add: apply_tensor_type_change_def new_strides_def)
qed

section \<open>Tensors as the loader splits them\<close>

lemma new_parts:
  "emap (new_part tr d t) shares = Inr ps \<Longrightarrow> ps = map (\<lambda>k. if k > 0
     then Some \<lparr>pl_type = tn_type t, pl_ne = part_dims d (tn_ne t) k, pl_nb = projr (new_strides tr (tn_type t) 3 (part_dims d (tn_ne t) k))\<rparr> else None) shares"
  by (induction shares arbitrary: ps) (auto simp: ebind_Inr_iff new_part_def)

lemma prepared:
  assumes "prepare_split_tensors tr d t shares mem_used = Inr (t', mem')"
  shows "tn_ne t' = tn_ne t" "\<exists>ps. tn_extra t' = Some \<lparr>se_dim = d, se_splits = ps\<rparr> \<and> emap (new_part tr d t) shares = Inr ps" "shares \<noteq> []"
  using assms by (auto simp: prepare_split_tensors_def ebind_Inr_iff split: if_splits)

text \<open>C24. When a tensor that the loader has split along its first dimension changes to a type with blocks, the change succeeds, every
  remaining part is a positive number of whole blocks of the new type, and together they are as long as the tensor.\<close>

theorem retyped_parts_whole_blocks:
  assumes "prepare_split_tensors tr 0 t shares mem_used = Inr (t', mem')" "sum_list (filter (\<lambda>k. k > 0) shares) = hd (tn_ne t)"
    "tt_blck (tr ty) > 1" "int (tt_blck (tr ty)) dvd hd (tn_ne t)" "n_dims (tn_ne t) > 0"
  shows "\<exists>t'' e. apply_tensor_type_change tr ty t' = Inr t'' \<and> tn_type t'' = ty \<and> tn_extra t'' = Some e \<and> part_sum (se_splits e) = hd (tn_ne t)
     \<and> (\<forall>s. Some s \<in> set (se_splits e) \<longrightarrow> pl_type s = ty \<and> 0 < hd (pl_ne s) \<and> int (tt_blck (tr ty)) dvd hd (pl_ne s))"
proof -
  from prepared [OF assms(1)] obtain ps where ps: "tn_ne t' = tn_ne t" "tn_extra t' = Some \<lparr>se_dim = 0, se_splits = ps\<rparr>"
    "emap (new_part tr 0 t) shares = Inr ps" "shares \<noteq> []" by blast
  note parts = new_parts [OF ps(3)]
  have len: "map part_len ps = map (\<lambda>k. if k > 0 then k else 0) shares" unfolding parts by (auto simp: part_dims_def)
  have sum: "sum_list (map (\<lambda>k. if k > 0 then k else 0) shares) = sum_list (filter (\<lambda>k. k > 0) shares)"
    by (induction shares) auto
  have "part_sum ps = hd (tn_ne t)" unfolding part_sum_len len sum by (rule assms(2))
  moreover have "\<forall>p \<in> set ps. 0 \<le> part_len p" unfolding parts by (auto simp: part_dims_def)
  moreover have "ps \<noteq> []" using ps(4) by (simp add: parts)
  ultimately obtain e' where e': "retype_parts tr ty (tn_ne t) \<lparr>se_dim = 0, se_splits = ps\<rparr> = Inr e'" "part_sum (se_splits e') = hd (tn_ne t)"
    "\<forall>s. Some s \<in> set (se_splits e') \<longrightarrow> pl_type s = ty \<and> 0 < hd (pl_ne s) \<and> int (tt_blck (tr ty)) dvd hd (pl_ne s)"
    using retype_parts_whole_blocks [of "\<lparr>se_dim = 0, se_splits = ps\<rparr>" tr ty "tn_ne t"] assms(3-5) by auto
  with ps(1,2) assms(5) show ?thesis
    by (simp add: apply_tensor_type_change_def new_strides_def Let_def)
qed

definition plain_tensor :: "int list \<Rightarrow> tensor" where
  "plain_tensor ne = \<lparr>tn_type = 0, tn_ne = ne, tn_nb = [], tn_buffer = None, tn_data = None, tn_view = False, tn_extra = None\<rparr>"

definition two_types :: "nat \<Rightarrow> type_traits" where
  "two_types ty = (if ty = 0 then \<lparr>tt_blck = 1, tt_size = 2, tt_meta = 0\<rparr> else \<lparr>tt_blck = 4, tt_size = 2, tt_meta = 0\<rparr>)"

theorem retyped_parts_whole_blocks_witness:
  "\<exists>t' t'' e. prepare_split_tensors two_types 0 (plain_tensor [12, 3, 1, 1]) [5, 0, 1, 6] [0, 0, 0, 0] = Inr (t', [30, 0, 6, 36])
     \<and> apply_tensor_type_change two_types 1 t' = Inr t'' \<and> tn_extra t'' = Some e \<and> part_sum (se_splits e) = 12
     \<and> (\<forall>s. Some s \<in> set (se_splits e) \<longrightarrow> 0 < hd (pl_ne s) \<and> (4 :: int) dvd hd (pl_ne s))"
proof -
  have "\<exists>t'. prepare_split_tensors two_types 0 (plain_tensor [12, 3, 1, 1]) [5, 0, 1, 6] [0, 0, 0, 0] = Inr (t', [30, 0, 6, 36])"
    by (simp add: prepare_split_tensors_def new_part_def new_strides_def part_dims_def plain_tensor_def two_types_def ggml_row_size_def bytes_of_def
        GGML_TYPE_I2_S_def Let_def)
  then obtain t' where t': "prepare_split_tensors two_types 0 (plain_tensor [12, 3, 1, 1]) [5, 0, 1, 6] [0, 0, 0, 0] = Inr (t', [30, 0, 6, 36])" by blast
  from retyped_parts_whole_blocks [OF t', of 1] t' show ?thesis
    by (auto simp: plain_tensor_def two_types_def n_dims_def)
qed

text \<open>C23. A tensor that the loader has split along another dimension, or keeps whole on several devices, cannot change its type: the parts have the
  full first dimension, their sum is not the first dimension of the tensor, and the check at the end stops the program.\<close>

theorem retype_other_split_aborts:
  assumes "prepare_split_tensors tr d t shares mem_used = Inr (t', mem')" "d \<noteq> 0" "tn_ne t = n0 # ne" "0 < n0"
    "2 \<le> length (filter (\<lambda>k. k > 0) shares)"
  shows "apply_tensor_type_change tr ty t' = Inl ''assert''"
proof -
  from prepared [OF assms(1)] obtain ps where ps: "tn_ne t' = tn_ne t" "tn_extra t' = Some \<lparr>se_dim = d, se_splits = ps\<rparr>"
    "emap (new_part tr d t) shares = Inr ps" by blast
  have "d \<le> 2" using assms(1) by (auto simp: prepare_split_tensors_def split: if_splits)
  then have full: "hd (part_dims d (tn_ne t) k) = n0" for k using assms(2,3) by (auto simp: part_dims_def)
  note parts = new_parts [OF ps(3)]
  have "length (filter (\<lambda>p. p \<noteq> None) ps) = length (filter (\<lambda>k. k > 0) shares)"
    unfolding parts by (induction shares) auto
  moreover have "\<forall>p. Some p \<in> set ps \<longrightarrow> hd (pl_ne p) = n0" unfolding parts using full by auto
  ultimately show ?thesis using ps(1,2) assms(2-5) by (intro parts_full_abort [where e = "\<lparr>se_dim = d, se_splits = ps\<rparr>"]) simp_all
qed

theorem retype_other_split_aborts_witness:
  "\<exists>t' mem'. prepare_split_tensors two_types 1 (plain_tensor [12, 6, 1, 1]) [2, 4] [0, 0] = Inr (t', mem')
     \<and> apply_tensor_type_change two_types 1 t' = Inl ''assert''"
proof -
  obtain t' mem' where t': "prepare_split_tensors two_types 1 (plain_tensor [12, 6, 1, 1]) [2, 4] [0, 0] = Inr (t', mem')"
    by (simp add: prepare_split_tensors_def new_part_def new_strides_def Let_def)
  from retype_other_split_aborts [OF t', of 12 "[6, 1, 1]"] t' show ?thesis by (auto simp: plain_tensor_def)
qed

end
