(* ===== verification/Spec2Isabelle.thy ===== *)
theory Spec2Isabelle
  imports Pin_Prelude Decimal_Text Moe_Cache_Lru Moe_Trace Moe_Ranges Gpu_Trace Cuda_Transfer_Trace Prefetch_Workers Expert_Manifest Expert_Stats Verifier_Trace
    Grammar_Masking Grammar_Recursion Grammar_Trigger
    Kv_Defrag_Proofs Kv_Window Context_Shift Graph_Alloc Reasoning_Budget
    Suffix_Drafts Ngram_Mod_Proofs Ngram_Cache_Proofs Server_Response Reload_Results Reload_Splits
begin

text \<open>
  Verification development for ExpertPin, an inference program for mixture-of-experts language
  models: a fork of \<open>llama.cpp\<close> that keeps the experts of a model where they are needed and writes
  down evidence of what it did. This text says which parts of the program are modelled, where, and
  what is shown of them. File names without a directory are under \<open>src/\<close> of the repository.

  \<^bold>\<open>The parts and how they interact.\<close> When a graph is evaluated, the entry of every expert matrix
  product (\<open>ggml/src/ggml-moe-prefetch.cpp\<close>) learns which experts the router has chosen. It counts
  them, sends each to a shadow LRU policy, writes a row of the access trace, and hands the byte
  ranges of the chosen experts to a pool of worker threads that read or touch the pages; the
  ranges come from the expert manifest or from the mapped tensors. Counters of all this go to the
  statistics, which turn them into advisories. Two further traces of the same kind record what
  runs on the GPU and what is copied to it. Around the graph stand the parts that decide what is
  evaluated next: the cells of the key/value cache with their search, defragmentation and shifts,
  the block allocator that lays out the tensors of a graph, the constraints on the next token,
  which are the grammar machine and the reasoning budget, and the speculators that draft the next
  tokens from the history alone. Between runs, tensors whose file has changed are swapped in place. In the server, requests reach this loop through a queue of
  tasks and are answered through a queue of results.

  \<^bold>\<open>Theories and sources.\<close>
  \<^item> \<open>Pin_Prelude\<close>, \<open>Decimal_Text\<close>, \<open>Ordered_Map\<close>: machine types, results of fallible code, lemmas on
    lists and words; \<open>std::to_string\<close> and \<open>std::from_chars\<close>; \<open>std::map\<close>.
  \<^item> \<open>Moe_Cache_Lru\<close>: \<open>ggml-moe-cache-lru.cpp\<close>, the LRU policy with its list and index. The list is a
    list of node numbers, the index a map to nodes; a dangling iterator is an error value.
  \<^item> \<open>Moe_Trace\<close>, \<open>Gpu_Trace\<close>, \<open>Cuda_Transfer_Trace\<close>: \<open>ggml-moe-trace.h\<close>, \<open>ggml-moe-gpu-trace.cpp\<close>,
    \<open>ggml-cuda-transfer-trace.cpp\<close>, bounded CSV writers that fail closed.
  \<^item> \<open>Moe_Ranges\<close>, \<open>Prefetch_State\<close>, \<open>Prefetch_Engine\<close>, \<open>Prefetch_Workers\<close>, \<open>Kernel_Entry\<close>: the parts
    of \<open>ggml-moe-prefetch.cpp\<close>, in the order ranges, state, operations, threads, callers.
    \<open>Host_Os\<close> is the interface of the operating system they use, a parameter of the model. A worker blocked in
    \<open>cv_work\<close> and a waiter blocked in \<open>cv_done\<close> stay blocked until the code notifies.
  \<^item> \<open>Expert_Manifest\<close>, \<open>Expert_Stats\<close>: \<open>src/llama-expert-manifest.cpp\<close> and \<open>src/llama-expert-stats.cpp\<close>.
  \<^item> \<open>Verifier_Trace\<close>: \<open>examples/server/server-verifier-trace.h\<close>.
  \<^item> \<open>Grammar_Text\<close>, \<open>Grammar_Utf8\<close>, \<open>Grammar_Parser\<close>, \<open>Grammar_Machine\<close>, \<open>Grammar_Engine\<close>: the parts of
    \<open>src/llama-grammar.cpp\<close>. The proofs are in \<open>Grammar_Parser_Proofs\<close>, \<open>Grammar_Wf\<close>,
    \<open>Grammar_Language\<close>, \<open>Grammar_Sound\<close>, \<open>Grammar_Recursion\<close>, \<open>Grammar_Masking\<close>, \<open>Grammar_Trigger\<close>.
  \<^item> \<open>Kv_Cache\<close>, \<open>Kv_Ops\<close>, \<open>Kv_Slots\<close>, \<open>Kv_Window\<close>, \<open>Kv_Defrag\<close>, \<open>Kv_Defrag_Proofs\<close>: the cache of
    \<open>src/llama-context.h\<close> and its operations in \<open>src/llama.cpp\<close>, with the graph of the
    defragmentation in \<open>src/llama-build-context.cpp\<close>.
  \<^item> \<open>Context_Shift\<close>: the loops of \<open>examples/main/main.cpp\<close> that make room in a full context.
  \<^item> \<open>Graph_Alloc\<close>: the block allocator of \<open>ggml/src/ggml-alloc.c\<close>.
  \<^item> \<open>Suffix_Tree\<close>, \<open>Suffix_Counts\<close>, \<open>Suffix_Drafts\<close>: \<open>common/suffix-tree.cpp\<close>. The trie is a tree of association
    lists; the order in which a child table is walked is a parameter.
  \<^item> \<open>Ngram_Map\<close>, \<open>Ngram_Proofs\<close>: \<open>common/ngram-map.cpp\<close>, with every read of the history checked.
  \<^item> \<open>Ngram_Mod\<close>, \<open>Ngram_Mod_Proofs\<close>: \<open>common/ngram-mod.cpp\<close> and the states of \<open>common/speculative.cpp\<close> over
    the hashed table and over the suffix tree.
  \<^item> \<open>Ngram_Cache\<close>, \<open>Ngram_Cache_Proofs\<close>: \<open>common/ngram-cache.cpp\<close> and the state of \<open>common/speculative.cpp\<close> over it.
    The hash tables are association lists, walked in an order that is a parameter; a file is a list of bytes.
  \<^item> \<open>Server_Queue\<close>, \<open>Server_Response\<close>: \<open>examples/server/server-queue.cpp\<close>. The main loop is a thread whose steps lie
    between its locks; the condition variable is a blocked loop with the flag that it was notified.
  \<^item> \<open>Tensor_Reload\<close>, \<open>Reload_Proofs\<close>, \<open>Reload_Results\<close>, \<open>Reload_Splits\<close>: \<open>src/llama-reload.cpp\<close> with what it uses of
    \<open>ggml/src/ggml.c\<close>, \<open>ggml/src/ggml-backend.cpp\<close> and \<open>src/llama-load-tensors.cpp\<close>. Tensors and buffers are a heap with explicit
    liveness; files, the file format and the memory of the backends are parameters.
  \<^item> \<open>Reasoning_Budget\<close>: \<open>common/reasoning-budget.cpp\<close> with the completeness test of
    \<open>common/unicode.cpp\<close>.

  \<^bold>\<open>What the lemmas show.\<close>
  \<^item> Policy: an access does to the recency list what an index-free LRU does, within the byte
    budget, and a larger budget never hits less. The kernel entry's shadow lanes are such runs.
  \<^item> Traces: every row is well formed and can be read back; a footer that claims a clean trace is
    only written for one; the first failure closes the trace.
  \<^item> Prefetching: the ranges cover exactly the pages of the chosen experts. Every ticket's
    counter is the number of its open jobs, in every interleaving of workers and callers, and no
    notification is lost, so waiting returns, and only when the work is done.
  \<^item> Grammars: the parser returns well-formed rules or an error on every text; the machine accepts
    the language of the grammar, and refuses only what cannot be continued to a text of it; masking and accepting agree; lazy triggers replay the text
    from the match on. Expansion terminates when the left recursion check passes and every
    nullable rule has an empty alternate; a grammar outside this condition makes it run forever.
  \<^item> Cache: each operation on sequences acts on the set of (sequence, position) entries as its
    contract says; the slot search finds the first free run or answers none; defragmentation keeps
    every cell and leaves the free cells at the end unless it makes as many moves as its limit; the window
    covers every used cell, except in a case that is exhibited.
  \<^item> Context shift and self-extension keep the positions of the sequence contiguous and leave room.
  \<^item> Allocator: live blocks never overlap, each lies within the buffer, and a request is refused
    exactly when no free block fits.
  \<^item> Reasoning budget: the tokens generated before the end sequence is forced are bounded, the forcing
    starts at the first complete character, and it ends the block.
  \<^item> Speculation: the suffix tree counts the substrings of the history however it arrives, and a
    draft follows most frequent continuations and is made whenever one is likely enough. The n-gram
    map stays within the history under a condition on how a new generation cuts it, and leaves it
    without that condition; the plain search equals its specification; the hashed table only
    drafts what followed an n-gram with the same place. The n-gram cache counts the history it is given, merges by adding
    and survives its file; the speculator over it hands it pieces only, and so loses the n-grams across their borders.
  \<^item> Server: no interleaving loses or doubles a task or leaves the loop asleep with work to do, the
    loop ends with an empty queue when told to after it has started (before, the call is lost), results reach a
    registered request in order through both interfaces, and a request that registers too late can wait for ever.

  \<^item> Hot swap: no round of swaps releases a buffer twice, leaks one or writes outside one; a swap that
    succeeds leaves the bytes of the file, and a swap back the old place. The parts of a tensor split along its first
    dimension stay whole blocks; a split along another dimension cannot change its type. Failed swaps leave damage,
    which is exhibited.

  \<^bold>\<open>Integers, loops and fuel.\<close> Sizes and counters are words of the width the code has; where the
  code computes on \<open>int\<close>s the model has integers and overflow is an error value or is excluded by
  a stated hypothesis. A loop that is structurally bounded is a \<open>fun\<close>; one whose end depends on
  the data is a \<open>partial_function (option)\<close>, and that it returns is a theorem of its own.
  The nested calls of the grammar parser carry \<open>seq_fuel\<close>, twice the length of the text and three, and the masking
  of candidates carries \<open>reject_fuel\<close>, the longest candidate and one; the lemmas
  on the parser and on the masking show that neither runs out.
  A \<open>float\<close> or \<open>double\<close> is the rational it stands for, rounded as the hardware does.

  \<^bold>\<open>Interfaces.\<close> Three locales state the contracts that several parts share: \<open>residency_policy\<close>
  (what a cache policy owes the statistics), \<open>evidence_writer\<close> (a trace that only grows and stays
  well formed, interpreted by all three traces) and \<open>sequence_store\<close> (the operations on sequences as
  actions on entries). The step relations of the worker pool, the defragmentation,
  the allocator and the server's queue are inductive, with their invariants proved by rule induction.

  \<^bold>\<open>Not modelled.\<close> The numeric kernels and device backends (floating point, intrinsics, drivers), the
  loading of models and the construction of graphs (tables per architecture over the tensor
  library), \<open>ggml_gallocr\<close> above the block allocator, \<open>llama_decode\<close> and the saving of state, vocabularies
  and samplers other than the two constraints above, the parts of split tensors in a hot swap, speculation with draft models,
  the tuner, chat templates and parsers over JSON, the server's HTTP requests and slots, the other example
  programs, scripts, vendored code and data. Output other than the traces, logging and timing are left out everywhere, but for
  the unchecked reads of the history that a log line makes;
  a mutex is the atomicity of the step it protects.
\<close>

end
